(* ===== verification/Muduo_Prelude.thy ===== *)
theory Muduo_Prelude
  imports Main "HOL-Library.Word" "HOL-Library.Char_ord" "HOL-Library.Product_Lexorder"
begin

text \<open>
  Shared vocabulary of the development: the ways a C++ operation of the library can fail, the
  sequencing of operations that can fail, bytes and ASCII text, the library algorithms the code
  calls on ranges (\<open>std::copy\<close>, \<open>std::search\<close>, \<open>std::find\<close>), C++ truncating division, and the
  generic facts the components rely on.
\<close>

section \<open>Failures and sequencing\<close>

text \<open>
  The sources are compiled with assertions enabled (no \<open>NDEBUG\<close> in \<open>src/CMakeLists.txt\<close>), so a
  failed \<open>assert\<close> aborts the process; a fatal log line (\<open>LOG_FATAL\<close>, \<open>LOG_SYSFATAL\<close>) aborts it
  too. Reading or writing outside an object is undefined behaviour in C++ and is a failure of its
  own here, so that theorems can state its absence.
\<close>

datatype transport_error = EndOfFile | BadArgs | NotOpen | TimedOut | InternalError | UnknownError

datatype protocol_error = NegativeSize | SizeLimit | BadVersion | NotImplemented

datatype error =
    AssertFail            \<comment> \<open>an \<open>assert\<close> whose condition is false\<close>
  | FatalLog              \<comment> \<open>\<open>LOG_FATAL\<close> or \<open>LOG_SYSFATAL\<close>\<close>
  | LengthError           \<comment> \<open>\<open>std::length_error\<close> from a container\<close>
  | OutOfBounds           \<comment> \<open>an access outside an array\<close>
  | UseAfterFree          \<comment> \<open>an access through a dangling or null pointer\<close>
  | BadCallback           \<comment> \<open>an empty \<open>boost::function\<close> is called\<close>
  | BadAlloc              \<comment> \<open>\<open>std::bad_alloc\<close>\<close>
  | NoReturn              \<comment> \<open>a loop that no longer ends\<close>
  | TransportError transport_error    \<comment> \<open>\<open>TTransportException\<close> of Thrift, by its type\<close>
  | ProtocolError protocol_error      \<comment> \<open>\<open>TProtocolException\<close>\<close>

type_synonym 'a result = "error + 'a"

definition rbind :: "'a result \<Rightarrow> ('a \<Rightarrow> 'b result) \<Rightarrow> 'b result" where
  "rbind m f = (case m of Inl e \<Rightarrow> Inl e | Inr x \<Rightarrow> f x)"

definition assert_ok :: "bool \<Rightarrow> 'a result \<Rightarrow> 'a result" where
  "assert_ok c k = (if c then k else Inl AssertFail)"

fun rfold :: "('a \<Rightarrow> 's \<Rightarrow> 's result) \<Rightarrow> 'a list \<Rightarrow> 's \<Rightarrow> 's result" where
  "rfold f [] s = Inr s"
| "rfold f (x # xs) s = rbind (f x s) (rfold f xs)"

named_theorems res_simps \<open>sequencing of operations that can fail\<close>

lemma rbind_simps [simp]: "rbind (Inr x) f = f x" "rbind (Inl e) f = Inl e"
  by (simp_all add: rbind_def)

lemma rbind_Inr_iff [res_simps]: "rbind m f = Inr y \<longleftrightarrow> (\<exists>x. m = Inr x \<and> f x = Inr y)"
  by (cases m) simp_all

lemma rbind_Inl_iff [res_simps]:
  "rbind m f = Inl e \<longleftrightarrow> m = Inl e \<or> (\<exists>x. m = Inr x \<and> f x = Inl e)"
  by (cases m) simp_all

lemma rbind_assoc: "rbind (rbind m f) g = rbind m (\<lambda>x. rbind (f x) g)"
  by (cases m) simp_all

lemma rbind_cong [fundef_cong]:
  "m = n \<Longrightarrow> (\<And>x. n = Inr x \<Longrightarrow> f x = g x) \<Longrightarrow> rbind m f = rbind n g"
  by (cases n) simp_all

lemma assert_ok_True [simp]: "assert_ok True k = k"
  by (simp add: assert_ok_def)

lemma assert_ok_False [simp]: "assert_ok False k = Inl AssertFail"
  by (simp add: assert_ok_def)

lemma assert_ok_Inr_iff [res_simps]: "assert_ok c k = Inr y \<longleftrightarrow> c \<and> k = Inr y"
  by (simp add: assert_ok_def)

lemma assert_ok_I: "c \<Longrightarrow> assert_ok c k = k"
  by simp

lemma assert_ok_cong [fundef_cong]:
  "c = d \<Longrightarrow> (d \<Longrightarrow> k = l) \<Longrightarrow> assert_ok c k = assert_ok d l"
  by (simp add: assert_ok_def)

lemma rfold_append: "rfold f (xs @ ys) s = rbind (rfold f xs s) (rfold f ys)"
proof (induction xs arbitrary: s)
  case Nil
  then show ?case by simp
next
  case (Cons x xs)
  then show ?case by (cases "f x s") simp_all
qed

text \<open>The loop rule for \<open>rfold\<close>: an invariant that every step keeps, each step succeeding.\<close>

lemma rfold_invariant:
  assumes "I [] s"
    and "\<And>ys x zs t. xs = ys @ x # zs \<Longrightarrow> I ys t \<Longrightarrow> \<exists>t'. f x t = Inr t' \<and> I (ys @ [x]) t'"
  shows "\<exists>t. rfold f xs s = Inr t \<and> I xs t"
proof -
  have "\<exists>t. rfold f us s = Inr t \<and> I us t" if "xs = us @ vs" for us vs
    using that
  proof (induction us arbitrary: vs rule: rev_induct)
    case Nil
    then show ?case using assms(1) by simp
  next
    case (snoc x us)
    have "xs = us @ x # vs" using snoc.prems by simp
    with snoc.IH [of "x # vs"] obtain t where t: "rfold f us s = Inr t" "I us t" by auto
    from assms(2) [OF \<open>xs = us @ x # vs\<close> t(2)] obtain t' where "f x t = Inr t'" "I (us @ [x]) t'"
      by auto
    with t show ?case by (simp add: rfold_append)
  qed
  then show ?thesis by simp
qed

section \<open>Machine integers, bytes and text\<close>

type_synonym byte = "8 word"

abbreviation ascii :: "string \<Rightarrow> byte list" where
  "ascii s \<equiv> map of_char s"

text \<open>C++ integer division truncates towards zero.\<close>

definition cdiv :: "int \<Rightarrow> int \<Rightarrow> int" where
  "cdiv a b = sgn a * sgn b * (\<bar>a\<bar> div \<bar>b\<bar>)"

definition cmod :: "int \<Rightarrow> int \<Rightarrow> int" where
  "cmod a b = a - b * cdiv a b"

lemma cdiv_nonneg: "0 \<le> a \<Longrightarrow> 0 < b \<Longrightarrow> cdiv a b = a div b"
  by (cases "a = 0") (simp_all add: cdiv_def)

lemma cmod_nonneg: "0 \<le> a \<Longrightarrow> 0 < b \<Longrightarrow> cmod a b = a mod b"
  by (simp add: cmod_def cdiv_nonneg minus_mult_div_eq_mod)

lemma cdiv_minus: "0 < b \<Longrightarrow> cdiv (- a) b = - cdiv a b"
  by (simp add: cdiv_def sgn_minus)

lemma cmod_minus: "0 < b \<Longrightarrow> cmod (- a) b = - cmod a b"
  by (simp add: cmod_def cdiv_minus)

text \<open>An \<open>int\<close> is 32 bits wide; values in range are kept.\<close>

lemma int32_id: "- (2 ^ 31) \<le> i \<Longrightarrow> i < 2 ^ 31 \<Longrightarrow> sint (of_int i :: 32 word) = i"
  by (simp add: sint_sbintrunc' signed_take_bit_int_eq_self)

lemma ssize_id: "n < 2 ^ 63 \<Longrightarrow> sint (of_nat n :: 64 word) = int n"
  by (subst of_int_of_nat_eq [symmetric], subst sint_sbintrunc') (simp add: signed_take_bit_int_eq_self)

text \<open>\<open>size_t\<close> is 64 bits wide and wraps.\<close>

definition size_wrap :: "nat \<Rightarrow> nat" where
  "size_wrap n = n mod 2 ^ 64"

lemma size_wrap_id [simp]: "n < 2 ^ 64 \<Longrightarrow> size_wrap n = n"
  by (simp add: size_wrap_def)

text \<open>Decimal numerals, as \<open>%d\<close>, \<open>%zu\<close> and \<open>operator<<\<close> print them.\<close>

fun dec_nat :: "nat \<Rightarrow> string" where
  "dec_nat n = (if n < 10 then [char_of (48 + n)] else dec_nat (n div 10) @ [char_of (48 + n mod 10)])"

declare dec_nat.simps [simp del]

definition dec_int :: "int \<Rightarrow> string" where
  "dec_int i = (if i < 0 then ''-'' @ dec_nat (nat (- i)) else dec_nat (nat i))"

lemma dec_nat_nonempty [simp]: "dec_nat n \<noteq> []"
  by (subst dec_nat.simps) simp

lemma length_dec_nat: "n < 10 ^ k \<Longrightarrow> 0 < k \<Longrightarrow> length (dec_nat n) \<le> k"
proof (induction n arbitrary: k rule: dec_nat.induct)
  case (1 n)
  show ?case
  proof (cases "n < 10")
    case True
    then show ?thesis using 1 by (subst dec_nat.simps) simp
  next
    case False
    have "k \<noteq> 1" using 1 False by auto
    with 1 obtain j where j: "k = Suc j" "0 < j" by (cases k) auto
    then have "n div 10 < 10 ^ j" using 1 by (simp add: less_mult_imp_div_less mult.commute)
    with 1 False j show ?thesis by (subst dec_nat.simps) simp
  qed
qed

lemma dec_int_nonempty [simp]: "dec_int i \<noteq> []"
  by (simp add: dec_int_def)

lemma length_dec_int: "\<bar>i\<bar> < 2 ^ 31 + 1 \<Longrightarrow> length (dec_int i) \<le> 11"
proof -
  assume "\<bar>i\<bar> < 2 ^ 31 + 1"
  then have "nat \<bar>i\<bar> < 10 ^ 10" by (simp add: nat_less_iff)
  from length_dec_nat [OF this] show ?thesis by (auto simp: dec_int_def)
qed

lemma dec_nat_rec: "10 \<le> n \<Longrightarrow> dec_nat n = dec_nat (n div 10) @ [char_of (48 + n mod 10)]"
  by (subst dec_nat.simps) simp

lemma dec_nat_digit: "n < 10 \<Longrightarrow> dec_nat n = [char_of (48 + n)]"
  by (subst dec_nat.simps) simp

lemma digit_char: "d < 10 \<Longrightarrow> (of_char (char_of (48 + d) :: char) :: nat) = 48 + d"
  by simp

lemma dec_nat_digits: "c \<in> set (dec_nat n) \<Longrightarrow> \<exists>d<(10::nat). c = char_of (48 + d)"
proof (induction n rule: dec_nat.induct)
  case (1 n)
  show ?case
  proof (cases "n < 10")
    case True
    then show ?thesis using 1(2) by (auto simp: dec_nat_digit)
  next
    case False
    then show ?thesis using 1 by (force simp: dec_nat_rec)
  qed
qed

lemma no_digit_dec_nat:
  assumes "(of_char c :: nat) < 48 \<or> 57 < (of_char c :: nat)"
  shows "c \<notin> set (dec_nat n)"
proof
  assume "c \<in> set (dec_nat n)"
  then obtain d where d: "d < (10::nat)" "c = char_of (48 + d)" using dec_nat_digits by blast
  then have "of_char c = 48 + d" using digit_char [of d] by simp
  with assms d(1) show False by simp
qed

lemma digit_chars [simp]:
  "char_of (48::nat) = CHR ''0''" "char_of (49::nat) = CHR ''1''" "char_of (50::nat) = CHR ''2''" "char_of (51::nat) = CHR ''3''"
  "char_of (52::nat) = CHR ''4''" "char_of (53::nat) = CHR ''5''" "char_of (54::nat) = CHR ''6''" "char_of (55::nat) = CHR ''7''"
  "char_of (56::nat) = CHR ''8''" "char_of (57::nat) = CHR ''9''"
  by code_simp+

text \<open>The value a string of digits denotes, the left inverse of printing.\<close>

definition digits_value :: "string \<Rightarrow> nat" where
  "digits_value = foldl (\<lambda>v c. 10 * v + (of_char c - 48)) 0"

lemma digits_value_dec_nat [simp]: "digits_value (dec_nat n) = n"
proof (induction n rule: dec_nat.induct)
  case (1 n)
  show ?case
  proof (cases "n < 10")
    case True
    then show ?thesis by (simp add: dec_nat_digit digits_value_def)
  next
    case False
    with 1 have "digits_value (dec_nat (n div 10)) = n div 10" by simp
    then have "foldl (\<lambda>v c. 10 * v + (of_char c - 48)) 0 (dec_nat (n div 10)) = n div 10" by (simp add: digits_value_def)
    then show ?thesis using False by (simp add: dec_nat_rec digits_value_def)
  qed
qed

lemma dec_nat_inject [simp]: "dec_nat m = dec_nat n \<longleftrightarrow> m = n"
  by (metis digits_value_dec_nat)

lemma dec_int_inject: "dec_int x = dec_int y \<longleftrightarrow> x = y"
proof -
  have "CHR ''-'' \<notin> set (dec_nat n)" for n by (rule no_digit_dec_nat) simp
  then have "CHR ''-'' # xs \<noteq> dec_nat n" "dec_nat n \<noteq> CHR ''-'' # xs" for n xs by (metis list.set_intros(1))+
  then show ?thesis by (auto simp: dec_int_def)
qed

text \<open>\<open>snprintf\<close> into an array of \<open>n\<close> characters: the text is cut to leave room for the final zero.\<close>

definition snprintf_text :: "nat \<Rightarrow> string \<Rightarrow> string" where
  "snprintf_text n str = take (n - 1) str"

lemma snprintf_text_fits [simp]: "length str < n \<Longrightarrow> snprintf_text n str = str"
  by (simp add: snprintf_text_def)

section \<open>Ranges\<close>

text \<open>\<open>std::copy\<close> of \<open>ys\<close> into the vector \<open>xs\<close> from index \<open>i\<close> on.\<close>

definition overwrite :: "nat \<Rightarrow> 'a list \<Rightarrow> 'a list \<Rightarrow> 'a list" where
  "overwrite i ys xs = take i xs @ ys @ drop (i + length ys) xs"

definition subrange :: "nat \<Rightarrow> nat \<Rightarrow> 'a list \<Rightarrow> 'a list" where
  "subrange i j xs = take (j - i) (drop i xs)"

lemma length_overwrite [simp]: "i + length ys \<le> length xs \<Longrightarrow> length (overwrite i ys xs) = length xs"
  by (simp add: overwrite_def)

lemma length_subrange [simp]: "j \<le> length xs \<Longrightarrow> length (subrange i j xs) = j - i"
  by (simp add: subrange_def)

lemma subrange_same [simp]: "subrange i i xs = []"
  by (simp add: subrange_def)

lemma subrange_all [simp]: "subrange 0 (length xs) xs = xs"
  by (simp add: subrange_def)

lemma subrange_split: "i \<le> j \<Longrightarrow> j \<le> k \<Longrightarrow> subrange i k xs = subrange i j xs @ subrange j k xs"
proof -
  assume "i \<le> j" "j \<le> k"
  then have "subrange i k xs = take ((j - i) + (k - j)) (drop i xs)"
    by (simp add: subrange_def)
  also have "\<dots> = subrange i j xs @ subrange j k xs"
    using \<open>i \<le> j\<close> by (simp only: take_add subrange_def drop_drop) simp
  finally show ?thesis .
qed

lemma subrange_drop: "drop n (subrange i j xs) = subrange (i + n) j xs"
  by (simp add: subrange_def drop_take add.commute)

lemma subrange_take: "i + n \<le> j \<Longrightarrow> take n (subrange i j xs) = subrange i (i + n) xs"
  by (simp add: subrange_def)

lemma subrange_overwrite_hit:
  "i + length ys \<le> length xs \<Longrightarrow> subrange i (i + length ys) (overwrite i ys xs) = ys"
  by (simp add: subrange_def overwrite_def)

lemma subrange_overwrite_before:
  "j \<le> i \<Longrightarrow> i \<le> length xs \<Longrightarrow> subrange k j (overwrite i ys xs) = subrange k j xs"
  by (simp add: subrange_def overwrite_def drop_take)

lemma subrange_overwrite_after:
  assumes "i + length ys \<le> k" "i + length ys \<le> length xs"
  shows "subrange k j (overwrite i ys xs) = subrange k j xs"
proof -
  have "drop k (take i xs @ ys @ drop (i + length ys) xs) = drop k xs"
    using assms by simp
  then show ?thesis by (simp add: subrange_def overwrite_def)
qed

lemma subrange_append_left: "j \<le> length xs \<Longrightarrow> subrange i j (xs @ ys) = subrange i j xs"
  by (cases "i \<le> length xs") (simp_all add: subrange_def)

text \<open>\<open>std::search\<close>: offset of the first occurrence of a pattern, the length if there is none.\<close>

fun std_search :: "'a list \<Rightarrow> 'a list \<Rightarrow> nat" where
  "std_search pat [] = 0"
| "std_search pat (x # xs) =
     (if take (length pat) (x # xs) = pat then 0 else Suc (std_search pat xs))"

text \<open>\<open>std::find\<close> and \<open>memchr\<close>: offset of the first equal element, the length if there is none.\<close>

fun std_find :: "'a \<Rightarrow> 'a list \<Rightarrow> nat" where
  "std_find a [] = 0"
| "std_find a (x # xs) = (if x = a then 0 else Suc (std_find a xs))"

lemma std_search_le: "std_search pat xs \<le> length xs"
  by (induction xs) simp_all

lemma std_search_found:
  "std_search pat xs < length xs \<Longrightarrow> take (length pat) (drop (std_search pat xs) xs) = pat"
  by (induction xs) (auto split: if_splits)

lemma std_search_first:
  "i < std_search pat xs \<Longrightarrow> take (length pat) (drop i xs) \<noteq> pat"
proof (induction xs arbitrary: i)
  case Nil
  then show ?case by simp
next
  case (Cons x xs)
  then show ?case by (cases i) (auto split: if_splits)
qed

lemma std_search_length: "std_search pat xs < length xs \<Longrightarrow> std_search pat xs + length pat \<le> length xs"
  using std_search_found [of pat xs] by (metis add.commute le_diff_conv2 length_drop length_take less_imp_le min.cobounded1)

lemma std_search_append: "std_search pat xs < length xs \<Longrightarrow> std_search pat (xs @ ys) = std_search pat xs"
proof (induction xs)
  case (Cons x xs)
  show ?case
  proof (cases "take (length pat) (x # xs) = pat")
    case True
    then have "length pat \<le> length (x # xs)" by (metis length_take min.cobounded1)
    then have "take (length pat) (x # xs @ ys) = take (length pat) (x # xs)" by (cases pat) simp_all
    with True show ?thesis by simp
  next
    case False
    then have lt: "std_search pat xs < length xs" using Cons.prems by simp
    from std_search_length [OF this] have "length pat \<le> length (x # xs)" by simp
    then have "take (length pat) (x # xs @ ys) = take (length pat) (x # xs)" by (cases pat) simp_all
    with False Cons.IH [OF lt] show ?thesis by simp
  qed
qed simp

lemma std_find_le: "std_find a xs \<le> length xs"
  by (induction xs) simp_all

lemma std_find_less: "std_find a xs < length xs \<longleftrightarrow> a \<in> set xs"
  by (induction xs) auto

lemma std_find_notin_take: "a \<notin> set (take (std_find a xs) xs)"
  by (induction xs) auto

lemma std_find_nth: "std_find a xs < length xs \<Longrightarrow> xs ! std_find a xs = a"
  by (induction xs) (auto split: if_splits)

lemma std_find_append: "a \<notin> set xs \<Longrightarrow> std_find a (xs @ ys) = length xs + std_find a ys"
  by (induction xs) auto

lemma std_find_drop: "a \<in> set xs \<Longrightarrow> drop (std_find a xs) xs = a # drop (Suc (std_find a xs)) xs"
  by (simp add: Cons_nth_drop_Suc [symmetric] std_find_nth std_find_less)

text \<open>\<open>std::string::find\<close>: the first occurrence at or after a position.\<close>

definition str_find :: "string \<Rightarrow> string \<Rightarrow> nat \<Rightarrow> nat option" where
  "str_find str pat pos =
     (let i = std_search pat (drop pos str)
      in if pos \<le> length str \<and> take (length pat) (drop i (drop pos str)) = pat then Some (pos + i) else None)"

text \<open>Letters, as in the C locale.\<close>

definition tolower :: "char \<Rightarrow> char" where
  "tolower c = (if 65 \<le> (of_char c :: nat) \<and> (of_char c :: nat) \<le> 90 then char_of ((of_char c :: nat) + 32) else c)"

end
