(* ===== verification/Timestamps.thy ===== *)
theory Timestamps
  imports Complex_Main Muduo_Prelude
begin

text \<open>
  Time stamps (\<open>src/muduo/base/Timestamp.h\<close>, \<open>Timestamp.cc\<close>): microseconds since the epoch. The
  64 bit count is an unbounded integer here (signed overflow is undefined in C++ and 2^63
  microseconds are 292,000 years), and a \<open>double\<close> number of seconds is a rational number.
\<close>

datatype Timestamp = Timestamp (microSecondsSinceEpoch: int)

definition kMicroSecondsPerSecond :: int where "kMicroSecondsPerSecond = 1000 * 1000"

definition invalid_Timestamp :: Timestamp where "invalid_Timestamp = Timestamp 0"

definition valid_Timestamp :: "Timestamp \<Rightarrow> bool" where
  "valid_Timestamp t \<longleftrightarrow> 0 < microSecondsSinceEpoch t"

definition secondsSinceEpoch :: "Timestamp \<Rightarrow> int" where
  "secondsSinceEpoch t = cdiv (microSecondsSinceEpoch t) kMicroSecondsPerSecond"

definition fromUnixTime :: "int \<Rightarrow> int \<Rightarrow> Timestamp" where
  "fromUnixTime t microseconds = Timestamp (t * kMicroSecondsPerSecond + microseconds)"

text \<open>\<open>now\<close> from the result of \<open>gettimeofday\<close>, a pair of seconds and microseconds.\<close>

definition Timestamp_now :: "int \<times> int \<Rightarrow> Timestamp" where
  "Timestamp_now tv = Timestamp (fst tv * kMicroSecondsPerSecond + snd tv)"

text \<open>Conversion of a floating point value to an integer drops the fraction.\<close>

definition truncate_rat :: "rat \<Rightarrow> int" where
  "truncate_rat r = (if r < 0 then - \<lfloor>- r\<rfloor> else \<lfloor>r\<rfloor>)"

definition timeDifference :: "Timestamp \<Rightarrow> Timestamp \<Rightarrow> rat" where
  "timeDifference high low =
     of_int (microSecondsSinceEpoch high - microSecondsSinceEpoch low) / of_int kMicroSecondsPerSecond"

definition addTime :: "Timestamp \<Rightarrow> rat \<Rightarrow> Timestamp" where
  "addTime t seconds =
     Timestamp (microSecondsSinceEpoch t + truncate_rat (seconds * of_int kMicroSecondsPerSecond))"

text \<open>The order of time stamps, \<open>operator<\<close> and \<open>operator==\<close>.\<close>

instantiation Timestamp :: linorder
begin

definition less_Timestamp :: "Timestamp \<Rightarrow> Timestamp \<Rightarrow> bool" where
  "less_Timestamp a b \<longleftrightarrow> microSecondsSinceEpoch a < microSecondsSinceEpoch b"

definition less_eq_Timestamp :: "Timestamp \<Rightarrow> Timestamp \<Rightarrow> bool" where
  "less_eq_Timestamp a b \<longleftrightarrow> microSecondsSinceEpoch a \<le> microSecondsSinceEpoch b"

instance
  by standard (auto simp: less_Timestamp_def less_eq_Timestamp_def Timestamp.expand)

end

lemmas Timestamp_order = less_Timestamp_def less_eq_Timestamp_def

text \<open>\<open>toString\<close>: seconds, a point and six digits; \<open>%06d\<close> pads with zeros.\<close>

definition pad_left :: "nat \<Rightarrow> char \<Rightarrow> string \<Rightarrow> string" where
  "pad_left n c s = replicate (n - length s) c @ s"

definition zero_padded :: "nat \<Rightarrow> int \<Rightarrow> string" where
  "zero_padded n i =
     (if i < 0 then ''-'' @ pad_left (n - 1) (CHR ''0'') (dec_nat (nat (- i))) else pad_left n (CHR ''0'') (dec_nat (nat i)))"

definition Timestamp_toString :: "Timestamp \<Rightarrow> string" where
  "Timestamp_toString t =
     (let seconds = cdiv (microSecondsSinceEpoch t) kMicroSecondsPerSecond;
          microseconds = cmod (microSecondsSinceEpoch t) kMicroSecondsPerSecond
      in take 30 (dec_int seconds @ ''.'' @ zero_padded 6 microseconds))"

lemma truncate_of_int [simp]: "truncate_rat (of_int i) = i"
  by (simp add: truncate_rat_def)

text \<open>Adding a difference brings back the later time.\<close>

lemma addTime_timeDifference: "addTime low (timeDifference high low) = high"
proof -
  have "of_int kMicroSecondsPerSecond \<noteq> (0 :: rat)" by (simp add: kMicroSecondsPerSecond_def)
  then show ?thesis
    by (cases high, cases low) (simp add: addTime_def timeDifference_def flip: of_int_diff)
qed

lemma addTime_mono: "0 \<le> s \<Longrightarrow> t \<le> addTime t s"
  by (simp add: addTime_def Timestamp_order truncate_rat_def kMicroSecondsPerSecond_def)

lemma addTime_later:
  assumes "1 / 1000000 \<le> s"
  shows "t < addTime t s"
proof -
  have "1 \<le> s * 1000000" using assms by simp
  then have "1 \<le> \<lfloor>s * 1000000\<rfloor>" by (simp add: le_floor_iff)
  then show ?thesis using assms by (simp add: addTime_def Timestamp_order truncate_rat_def kMicroSecondsPerSecond_def)
qed

end
