(* ===== verification/Channel.thy ===== *)
theory Channel
  imports Muduo_Prelude "HOL-Library.AList"
begin

text \<open>
  The channel object of \<open>src/muduo/net/Channel.h\<close> and \<open>Channel.cc\<close>: the event masks of one
  descriptor and the dispatch of ready events to callbacks. Channel objects live in a heap, a map
  from addresses to objects; an access through a dangling address is \<open>UseAfterFree\<close>. The callbacks
  are code of the users of the library and a parameter of the dispatch.
\<close>

unbundle bit_operations_syntax

type_synonym events_mask = "32 word"

section \<open>Event masks\<close>

definition POLLIN :: events_mask where "POLLIN = 0x001"
definition POLLPRI :: events_mask where "POLLPRI = 0x002"
definition POLLOUT :: events_mask where "POLLOUT = 0x004"
definition POLLERR :: events_mask where "POLLERR = 0x008"
definition POLLHUP :: events_mask where "POLLHUP = 0x010"
definition POLLNVAL :: events_mask where "POLLNVAL = 0x020"
definition POLLRDHUP :: events_mask where "POLLRDHUP = 0x2000"

definition kNoneEvent :: events_mask where "kNoneEvent = 0"
definition kReadEvent :: events_mask where "kReadEvent = POLLIN OR POLLPRI"
definition kWriteEvent :: events_mask where "kWriteEvent = POLLOUT"

lemmas poll_bits = POLLIN_def POLLPRI_def POLLOUT_def POLLERR_def POLLHUP_def POLLNVAL_def POLLRDHUP_def
lemmas event_consts = kNoneEvent_def kReadEvent_def kWriteEvent_def poll_bits

text \<open>The masks a channel can ask for: combinations of the read and write events.\<close>

definition valid_events :: "events_mask \<Rightarrow> bool" where
  "valid_events ev \<longleftrightarrow> ev \<in> {0, kReadEvent, kWriteEvent, kReadEvent OR kWriteEvent}"

section \<open>Channel objects\<close>

record channel =
  ownerLoop :: nat             \<comment> \<open>\<open>loop_\<close>, the address of the loop\<close>
  chan_fd :: int
  events :: events_mask
  revents :: events_mask
  index :: int                 \<comment> \<open>used by the poller\<close>
  logHup :: bool
  tie :: "nat option"          \<comment> \<open>\<open>tie_\<close>, the owner observed by the weak pointer\<close>
  tied :: bool
  eventHandling :: bool
  addedToLoop :: bool
  readCallback :: bool         \<comment> \<open>whether the callback is set\<close>
  writeCallback :: bool
  closeCallback :: bool
  errorCallback :: bool

type_synonym chan_heap = "nat \<rightharpoonup> channel"

definition new_channel :: "nat \<Rightarrow> int \<Rightarrow> channel" where
  "new_channel loop fd =
     \<lparr>ownerLoop = loop, chan_fd = fd, events = 0, revents = 0, index = -1, logHup = True,
      tie = None, tied = False, eventHandling = False, addedToLoop = False,
      readCallback = False, writeCallback = False, closeCallback = False, errorCallback = False\<rparr>"

definition setReadCallback :: "channel \<Rightarrow> channel" where
  "setReadCallback c = c\<lparr>readCallback := True\<rparr>"
definition setWriteCallback :: "channel \<Rightarrow> channel" where
  "setWriteCallback c = c\<lparr>writeCallback := True\<rparr>"
definition setCloseCallback :: "channel \<Rightarrow> channel" where
  "setCloseCallback c = c\<lparr>closeCallback := True\<rparr>"
definition setErrorCallback :: "channel \<Rightarrow> channel" where
  "setErrorCallback c = c\<lparr>errorCallback := True\<rparr>"

definition tie_to :: "nat \<Rightarrow> channel \<Rightarrow> channel" where
  "tie_to obj c = c\<lparr>tie := Some obj, tied := True\<rparr>"

definition set_revents :: "events_mask \<Rightarrow> channel \<Rightarrow> channel" where
  "set_revents revt c = c\<lparr>revents := revt\<rparr>"

definition set_index :: "int \<Rightarrow> channel \<Rightarrow> channel" where
  "set_index idx c = c\<lparr>index := idx\<rparr>"

definition doNotLogHup :: "channel \<Rightarrow> channel" where
  "doNotLogHup c = c\<lparr>logHup := False\<rparr>"

definition isNoneEvent :: "channel \<Rightarrow> bool" where
  "isNoneEvent c \<longleftrightarrow> events c = kNoneEvent"

definition isWriting :: "channel \<Rightarrow> bool" where
  "isWriting c \<longleftrightarrow> events c AND kWriteEvent \<noteq> 0"

definition isReading :: "channel \<Rightarrow> bool" where
  "isReading c \<longleftrightarrow> events c AND kReadEvent \<noteq> 0"

text \<open>The mask part of \<open>enableReading\<close> and its kin; the update of the poller follows it.\<close>

definition mask_enableReading :: "channel \<Rightarrow> events_mask" where
  "mask_enableReading c = events c OR kReadEvent"
definition mask_disableReading :: "channel \<Rightarrow> events_mask" where
  "mask_disableReading c = events c AND NOT kReadEvent"
definition mask_enableWriting :: "channel \<Rightarrow> events_mask" where
  "mask_enableWriting c = events c OR kWriteEvent"
definition mask_disableWriting :: "channel \<Rightarrow> events_mask" where
  "mask_disableWriting c = events c AND NOT kWriteEvent"

lemmas mask_defs = mask_enableReading_def mask_disableReading_def mask_enableWriting_def
  mask_disableWriting_def

lemma valid_events_cases:
  assumes "valid_events ev"
  obtains "ev = 0" | "ev = 3" | "ev = 4" | "ev = 7"
  using assms by (auto simp: valid_events_def event_consts)

lemma valid_events_simps [simp]:
  "valid_events 0" "valid_events 3" "valid_events 4" "valid_events 7"
  by (simp_all add: valid_events_def event_consts)

lemma valid_masks [simp]:
  assumes "valid_events (events c)"
  shows "valid_events (mask_enableReading c)" "valid_events (mask_disableReading c)"
    "valid_events (mask_enableWriting c)" "valid_events (mask_disableWriting c)"
  using assms by (auto elim!: valid_events_cases simp: mask_defs event_consts)

lemma mask_effects [simp]:
  assumes "valid_events (events c)"
  shows "isReading (c\<lparr>events := mask_enableReading c\<rparr>)" "\<not> isReading (c\<lparr>events := mask_disableReading c\<rparr>)"
    "isWriting (c\<lparr>events := mask_enableWriting c\<rparr>)" "\<not> isWriting (c\<lparr>events := mask_disableWriting c\<rparr>)"
    "isWriting (c\<lparr>events := mask_enableReading c\<rparr>) = isWriting c"
    "isWriting (c\<lparr>events := mask_disableReading c\<rparr>) = isWriting c"
    "isReading (c\<lparr>events := mask_enableWriting c\<rparr>) = isReading c"
    "isReading (c\<lparr>events := mask_disableWriting c\<rparr>) = isReading c"
  using assms
  by (auto elim!: valid_events_cases simp: mask_defs event_consts isReading_def isWriting_def)

section \<open>Dispatch\<close>

text \<open>The callbacks of a channel; \<open>ReadCb\<close> carries the time \<open>poll\<close> returned, in microseconds.\<close>

datatype chan_cb = CloseCb | ErrorCb | ReadCb int | WriteCb

text \<open>
  The dispatch runs in a state of any kind that holds the heap of channels: \<open>get\<close> and \<open>put\<close> read
  and replace the heap of a state, \<open>call p k\<close> is the callback of kind \<open>k\<close> of the channel at \<open>p\<close>.
  The fields are read again after every callback, as the code does.
\<close>

definition fetch :: "('s \<Rightarrow> chan_heap) \<Rightarrow> nat \<Rightarrow> 's \<Rightarrow> channel result" where
  "fetch get p s = (case get s p of None \<Rightarrow> Inl UseAfterFree | Some c \<Rightarrow> Inr c)"

definition fire :: "('s \<Rightarrow> chan_heap) \<Rightarrow> (nat \<Rightarrow> chan_cb \<Rightarrow> 's \<Rightarrow> 's result) \<Rightarrow>
    (channel \<Rightarrow> bool) \<Rightarrow> (channel \<Rightarrow> bool) \<Rightarrow> chan_cb \<Rightarrow> nat \<Rightarrow> 's \<Rightarrow> 's result" where
  "fire get call guard isset k p s =
     rbind (fetch get p s) (\<lambda>c. if guard c \<and> isset c then call p k s else Inr s)"

definition handleEventWithGuard :: "('s \<Rightarrow> chan_heap) \<Rightarrow> (chan_heap \<Rightarrow> 's \<Rightarrow> 's) \<Rightarrow>
    (nat \<Rightarrow> chan_cb \<Rightarrow> 's \<Rightarrow> 's result) \<Rightarrow> nat \<Rightarrow> int \<Rightarrow> 's \<Rightarrow> 's result" where
  "handleEventWithGuard get put call p receiveTime s =
     rbind (fetch get p s) (\<lambda>c.
     let s1 = put ((get s)(p \<mapsto> c\<lparr>eventHandling := True\<rparr>)) s in
     rbind (fire get call (\<lambda>c. revents c AND POLLHUP \<noteq> 0 \<and> revents c AND POLLIN = 0)
              closeCallback CloseCb p s1) (\<lambda>s2.
     rbind (fire get call (\<lambda>c. revents c AND (POLLERR OR POLLNVAL) \<noteq> 0)
              errorCallback ErrorCb p s2) (\<lambda>s3.
     rbind (fire get call (\<lambda>c. revents c AND (POLLIN OR POLLPRI OR POLLRDHUP) \<noteq> 0)
              readCallback (ReadCb receiveTime) p s3) (\<lambda>s4.
     rbind (fire get call (\<lambda>c. revents c AND POLLOUT \<noteq> 0) writeCallback WriteCb p s4) (\<lambda>s5.
     rbind (fetch get p s5) (\<lambda>c'.
     Inr (put ((get s5)(p \<mapsto> c'\<lparr>eventHandling := False\<rparr>)) s5)))))))"

text \<open>\<open>alive\<close> says whether the observed owner still exists, that is, whether \<open>tie_.lock()\<close> succeeds.\<close>

definition handleEvent :: "('s \<Rightarrow> chan_heap) \<Rightarrow> (chan_heap \<Rightarrow> 's \<Rightarrow> 's) \<Rightarrow>
    (nat \<Rightarrow> chan_cb \<Rightarrow> 's \<Rightarrow> 's result) \<Rightarrow> ('s \<Rightarrow> nat \<Rightarrow> bool) \<Rightarrow> nat \<Rightarrow> int \<Rightarrow> 's \<Rightarrow> 's result" where
  "handleEvent get put call alive p receiveTime s =
     rbind (fetch get p s) (\<lambda>c.
       if tied c then
         (case tie c of
            None \<Rightarrow> Inr s
          | Some obj \<Rightarrow> if alive s obj then handleEventWithGuard get put call p receiveTime s else Inr s)
       else handleEventWithGuard get put call p receiveTime s)"

text \<open>What the dispatch has to do, as a list: the callbacks a mask asks for, in the code's order.\<close>

definition dispatch_list :: "channel \<Rightarrow> int \<Rightarrow> chan_cb list" where
  "dispatch_list c t =
     (if revents c AND POLLHUP \<noteq> 0 \<and> revents c AND POLLIN = 0 \<and> closeCallback c then [CloseCb] else []) @
     (if revents c AND (POLLERR OR POLLNVAL) \<noteq> 0 \<and> errorCallback c then [ErrorCb] else []) @
     (if revents c AND (POLLIN OR POLLPRI OR POLLRDHUP) \<noteq> 0 \<and> readCallback c then [ReadCb t] else []) @
     (if revents c AND POLLOUT \<noteq> 0 \<and> writeCallback c then [WriteCb] else [])"

section \<open>Printing of masks\<close>

definition eventsToString :: "int \<Rightarrow> events_mask \<Rightarrow> string" where
  "eventsToString fd ev =
     dec_int fd @ '': '' @
     (if ev AND POLLIN \<noteq> 0 then ''IN '' else '''') @
     (if ev AND POLLPRI \<noteq> 0 then ''PRI '' else '''') @
     (if ev AND POLLOUT \<noteq> 0 then ''OUT '' else '''') @
     (if ev AND POLLHUP \<noteq> 0 then ''HUP '' else '''') @
     (if ev AND POLLRDHUP \<noteq> 0 then ''RDHUP '' else '''') @
     (if ev AND POLLERR \<noteq> 0 then ''ERR '' else '''') @
     (if ev AND POLLNVAL \<noteq> 0 then ''NVAL '' else '''')"

definition reventsToString :: "channel \<Rightarrow> string" where
  "reventsToString c = eventsToString (chan_fd c) (revents c)"

definition channel_eventsToString :: "channel \<Rightarrow> string" where
  "channel_eventsToString c = eventsToString (chan_fd c) (events c)"

section \<open>The dispatch interface\<close>

text \<open>
  The contract between the dispatch and the callbacks: a state with a lawful heap, and callbacks
  that succeed and leave the ready events and the installed callbacks of the channel being
  handled as they are. The pollers are the only code that sets \<open>revents_\<close>.
\<close>

definition same_dispatch :: "channel \<Rightarrow> channel \<Rightarrow> bool" where
  "same_dispatch c c' \<longleftrightarrow> revents c' = revents c \<and> closeCallback c' = closeCallback c \<and>
     errorCallback c' = errorCallback c \<and> readCallback c' = readCallback c \<and>
     writeCallback c' = writeCallback c"

locale chan_state =
  fixes get :: "'s \<Rightarrow> chan_heap" and put :: "chan_heap \<Rightarrow> 's \<Rightarrow> 's"
  assumes get_put: "get (put h s) = h"
    and put_put: "put h (put g s) = put h s"
    and put_get: "put (get s) s = s"
begin

text \<open>The callbacks of \<open>p\<close> never fail and keep what the dispatch reads of the channel \<open>c\<close>.\<close>

definition tame :: "(nat \<Rightarrow> chan_cb \<Rightarrow> 's \<Rightarrow> 's result) \<Rightarrow> nat \<Rightarrow> channel \<Rightarrow> bool" where
  "tame call p c \<longleftrightarrow> (\<forall>k s d. get s p = Some d \<and> same_dispatch c d \<longrightarrow>
     (\<exists>s' d'. call p k s = Inr s' \<and> get s' p = Some d' \<and> same_dispatch c d'))"

lemma fire_step:
  assumes "tame call p c" "get s p = Some d" "same_dispatch c d"
    and "\<And>a b. same_dispatch a b \<Longrightarrow> guard b = guard a \<and> isset b = isset a"
  shows "\<exists>s' d'. fire get call guard isset k p s = Inr s' \<and>
     rfold (call p) (if guard c \<and> isset c then [k] else []) s = Inr s' \<and>
     get s' p = Some d' \<and> same_dispatch c d'"
proof -
  have "guard d = guard c" "isset d = isset c" using assms(3,4) by blast+
  then show ?thesis using assms(1-3) by (fastforce simp: fire_def fetch_def tame_def)
qed

lemma handleEventWithGuard_runs:
  assumes "get s p = Some c" "tame call p c"
  shows "\<exists>s' d. rfold (call p) (dispatch_list c t) (put ((get s)(p \<mapsto> c\<lparr>eventHandling := True\<rparr>)) s) = Inr s' \<and>
     get s' p = Some d \<and>
     handleEventWithGuard get put call p t s = Inr (put ((get s')(p \<mapsto> d\<lparr>eventHandling := False\<rparr>)) s')"
proof -
  let ?s1 = "put ((get s)(p \<mapsto> c\<lparr>eventHandling := True\<rparr>)) s"
  let ?g1 = "\<lambda>c. revents c AND POLLHUP \<noteq> 0 \<and> revents c AND POLLIN = 0"
  let ?g2 = "\<lambda>c. revents c AND (POLLERR OR POLLNVAL) \<noteq> 0"
  let ?g3 = "\<lambda>c. revents c AND (POLLIN OR POLLPRI OR POLLRDHUP) \<noteq> 0"
  let ?g4 = "\<lambda>c. revents c AND POLLOUT \<noteq> 0"
  have s1: "get ?s1 p = Some (c\<lparr>eventHandling := True\<rparr>)" "same_dispatch c (c\<lparr>eventHandling := True\<rparr>)"
    by (simp_all add: get_put same_dispatch_def)
  obtain s2 d2 where 2: "fire get call ?g1 closeCallback CloseCb p ?s1 = Inr s2"
    "rfold (call p) (if ?g1 c \<and> closeCallback c then [CloseCb] else []) ?s1 = Inr s2"
    "get s2 p = Some d2" "same_dispatch c d2"
    using fire_step [OF assms(2) s1, of ?g1 closeCallback CloseCb] by (auto simp: same_dispatch_def)
  obtain s3 d3 where 3: "fire get call ?g2 errorCallback ErrorCb p s2 = Inr s3"
    "rfold (call p) (if ?g2 c \<and> errorCallback c then [ErrorCb] else []) s2 = Inr s3"
    "get s3 p = Some d3" "same_dispatch c d3"
    using fire_step [OF assms(2) 2(3,4), of ?g2 errorCallback ErrorCb] by (auto simp: same_dispatch_def)
  obtain s4 d4 where 4: "fire get call ?g3 readCallback (ReadCb t) p s3 = Inr s4"
    "rfold (call p) (if ?g3 c \<and> readCallback c then [ReadCb t] else []) s3 = Inr s4"
    "get s4 p = Some d4" "same_dispatch c d4"
    using fire_step [OF assms(2) 3(3,4), of ?g3 readCallback "ReadCb t"] by (auto simp: same_dispatch_def)
  obtain s5 d5 where 5: "fire get call ?g4 writeCallback WriteCb p s4 = Inr s5"
    "rfold (call p) (if ?g4 c \<and> writeCallback c then [WriteCb] else []) s4 = Inr s5"
    "get s5 p = Some d5" "same_dispatch c d5"
    using fire_step [OF assms(2) 4(3,4), of ?g4 writeCallback WriteCb] by (auto simp: same_dispatch_def)
  have "rfold (call p) (dispatch_list c t) ?s1 = Inr s5"
    using 2(2) 3(2) 4(2) 5(2) by (simp only: dispatch_list_def rfold_append conj_assoc rbind_simps)
  moreover have "handleEventWithGuard get put call p t s =
      Inr (put ((get s5)(p \<mapsto> d5\<lparr>eventHandling := False\<rparr>)) s5)"
    using assms(1) 2(1) 3(1) 4(1) 5(1,3)
    by (simp add: handleEventWithGuard_def Let_def fetch_def)
  ultimately show ?thesis using 5(3) by blast
qed

end

end
