(* ===== verification/Pollers.thy ===== *)
theory Pollers
  imports Channel
begin

text \<open>
  The two I/O multiplexers, \<open>src/muduo/net/poller/EPollPoller.cc\<close> and \<open>PollPoller.cc\<close>, and the
  virtual dispatch between them (\<open>Poller.h\<close>, \<open>DefaultPoller.cc\<close>). Both keep a map from descriptors
  to channels; the first keeps its interest list in the kernel, the second in an array that it
  compacts by swapping. The contract their clients rely on is the locale \<open>io_poller\<close>; both are
  shown to provide it. \<open>std::map\<close> is an association list with one entry per key.
\<close>

unbundle bit_operations_syntax

type_synonym fd_map = "(int \<times> nat) list"

definition chan_at :: "nat \<Rightarrow> chan_heap \<Rightarrow> channel result" where
  "chan_at p h = (case h p of None \<Rightarrow> Inl UseAfterFree | Some c \<Rightarrow> Inr c)"

definition assert_loop :: "bool \<Rightarrow> 'a result \<Rightarrow> 'a result" where
  "assert_loop inloop k = (if inloop then k else Inl FatalLog)"

lemma assert_loop_True [simp]: "assert_loop True k = k"
  by (simp add: assert_loop_def)

lemma assert_loop_Inr_iff [res_simps]: "assert_loop i k = Inr y \<longleftrightarrow> i \<and> k = Inr y"
  by (simp add: assert_loop_def)

lemma chan_at_Some [simp]: "h p = Some c \<Longrightarrow> chan_at p h = Inr c"
  by (simp add: chan_at_def)

section \<open>The epoll poller\<close>

definition kNew :: int where "kNew = -1"
definition kAdded :: int where "kAdded = 1"
definition kDeleted :: int where "kDeleted = 2"
definition kInitEventListSize :: nat where "kInitEventListSize = 16"

lemmas epoll_index_defs = kNew_def kAdded_def kDeleted_def

text \<open>
  \<open>ep_kernel\<close> is the kernel's interest list: for a descriptor the event mask and the user data,
  here the address of the channel.
\<close>

record epoll_poller =
  ep_channels :: fd_map
  ep_kernel :: "(int \<times> (events_mask \<times> nat)) list"
  ep_events_size :: nat

datatype ctl_op = CtlAdd | CtlMod | CtlDel

definition operationToString :: "ctl_op \<Rightarrow> string" where
  "operationToString op = (case op of CtlAdd \<Rightarrow> ''ADD'' | CtlDel \<Rightarrow> ''DEL'' | CtlMod \<Rightarrow> ''MOD'')"

text \<open>
  \<open>epoll_ctl(2)\<close>: adding a descriptor that is present (\<open>EEXIST\<close>) and changing or deleting one that
  is absent (\<open>ENOENT\<close>) fail; \<open>None\<close> is the return value \<open>-1\<close>.
\<close>

definition epoll_ctl :: "ctl_op \<Rightarrow> int \<Rightarrow> events_mask \<times> nat \<Rightarrow> (int \<times> (events_mask \<times> nat)) list \<Rightarrow>
    (int \<times> (events_mask \<times> nat)) list option" where
  "epoll_ctl op fd ev k =
     (case op of
        CtlAdd \<Rightarrow> if map_of k fd = None then Some (AList.update fd ev k) else None
      | CtlMod \<Rightarrow> if map_of k fd \<noteq> None then Some (AList.update fd ev k) else None
      | CtlDel \<Rightarrow> if map_of k fd \<noteq> None then Some (AList.delete fd k) else None)"

definition new_epoll_poller :: epoll_poller where
  "new_epoll_poller = \<lparr>ep_channels = [], ep_kernel = [], ep_events_size = kInitEventListSize\<rparr>"

definition epoll_update :: "ctl_op \<Rightarrow> nat \<Rightarrow> chan_heap \<times> epoll_poller \<Rightarrow> (chan_heap \<times> epoll_poller) result" where
  "epoll_update op p s =
     rbind (chan_at p (fst s)) (\<lambda>c.
       case epoll_ctl op (chan_fd c) (events c, p) (ep_kernel (snd s)) of
         None \<Rightarrow> if op = CtlDel then Inr s else Inl FatalLog
       | Some k \<Rightarrow> Inr (fst s, (snd s)\<lparr>ep_kernel := k\<rparr>))"

definition epoll_updateChannel ::
    "bool \<Rightarrow> nat \<Rightarrow> chan_heap \<times> epoll_poller \<Rightarrow> (chan_heap \<times> epoll_poller) result" where
  "epoll_updateChannel inloop p s =
     (case s of (h, ps) \<Rightarrow>
      assert_loop inloop (rbind (chan_at p h) (\<lambda>c.
        let idx = index c; fd = chan_fd c in
        if idx = kNew \<or> idx = kDeleted then
          rbind (if idx = kNew
                 then assert_ok (map_of (ep_channels ps) fd = None)
                        (Inr (ps\<lparr>ep_channels := AList.update fd p (ep_channels ps)\<rparr>))
                 else assert_ok (map_of (ep_channels ps) fd \<noteq> None)
                        (assert_ok (map_of (ep_channels ps) fd = Some p) (Inr ps)))
            (\<lambda>ps'. epoll_update CtlAdd p (h(p \<mapsto> set_index kAdded c), ps'))
        else
          assert_ok (map_of (ep_channels ps) fd \<noteq> None)
            (assert_ok (map_of (ep_channels ps) fd = Some p)
              (assert_ok (idx = kAdded)
                (if isNoneEvent c
                 then rbind (epoll_update CtlDel p (h, ps))
                        (\<lambda>(h', ps'). Inr (h'(p \<mapsto> set_index kDeleted c), ps'))
                 else epoll_update CtlMod p (h, ps)))))))"

definition epoll_removeChannel ::
    "bool \<Rightarrow> nat \<Rightarrow> chan_heap \<times> epoll_poller \<Rightarrow> (chan_heap \<times> epoll_poller) result" where
  "epoll_removeChannel inloop p s =
     (case s of (h, ps) \<Rightarrow>
      assert_loop inloop (rbind (chan_at p h) (\<lambda>c.
        let fd = chan_fd c; idx = index c in
        assert_ok (map_of (ep_channels ps) fd \<noteq> None)
         (assert_ok (map_of (ep_channels ps) fd = Some p)
          (assert_ok (isNoneEvent c)
           (assert_ok (idx = kAdded \<or> idx = kDeleted)
            (let ps1 = ps\<lparr>ep_channels := AList.delete fd (ep_channels ps)\<rparr> in
             rbind (if idx = kAdded then epoll_update CtlDel p (h, ps1) else Inr (h, ps1))
               (\<lambda>(h', ps'). Inr (h'(p \<mapsto> set_index kNew c), ps')))))))))"

definition poller_hasChannel :: "bool \<Rightarrow> nat \<Rightarrow> chan_heap \<Rightarrow> fd_map \<Rightarrow> bool result" where
  "poller_hasChannel inloop p h chs =
     assert_loop inloop (rbind (chan_at p h) (\<lambda>c. Inr (map_of chs (chan_fd c) = Some p)))"

text \<open>
  \<open>fillActiveChannels\<close> over the events \<open>epoll_wait\<close> stored: (ready mask, user data) pairs.
\<close>

fun epoll_fill :: "(events_mask \<times> nat) list \<Rightarrow> chan_heap \<times> epoll_poller \<Rightarrow> nat list \<Rightarrow>
    (chan_heap \<times> nat list) result" where
  "epoll_fill [] s active = Inr (fst s, active)"
| "epoll_fill ((ev, p) # evs) s active =
     rbind (chan_at p (fst s)) (\<lambda>c.
       assert_ok (map_of (ep_channels (snd s)) (chan_fd c) \<noteq> None)
         (assert_ok (map_of (ep_channels (snd s)) (chan_fd c) = Some p)
           (epoll_fill evs ((fst s)(p \<mapsto> set_revents ev c), snd s) (active @ [p]))))"

definition epoll_fillActiveChannels :: "nat \<Rightarrow> (events_mask \<times> nat) list \<Rightarrow> chan_heap \<times> epoll_poller \<Rightarrow>
    nat list \<Rightarrow> (chan_heap \<times> nat list) result" where
  "epoll_fillActiveChannels numEvents evs s active =
     assert_ok (numEvents \<le> ep_events_size (snd s)) (epoll_fill (take numEvents evs) s active)"

text \<open>
  The trace text \<open>poll\<close> assembles before it waits: one \<open>sprintf\<close> per registered channel into an
  array of 4098 bytes, without a bound. Writing past the array is \<open>OutOfBounds\<close>.
\<close>

definition tmpbuffer_size :: nat where "tmpbuffer_size = 4098"

definition poll_trace :: "fd_map \<Rightarrow> string" where
  "poll_trace chs = concat (map (\<lambda>(fd, p). ''channelfd='' @ dec_int fd @ '' '') chs)"

text \<open>
  \<open>poll\<close>: the result of \<open>epoll_wait\<close> is an error number or the list of ready events (at most the
  size of the event array); it returns the channels appended to \<open>activeChannels\<close>.
\<close>

definition epoll_poll :: "int + (events_mask \<times> nat) list \<Rightarrow> chan_heap \<times> epoll_poller \<Rightarrow>
    nat list \<Rightarrow> (chan_heap \<times> epoll_poller \<times> nat list) result" where
  "epoll_poll waited s active =
     (if tmpbuffer_size < length (poll_trace (ep_channels (snd s))) + 1 \<and> ep_channels (snd s) \<noteq> []
      then Inl OutOfBounds
      else case waited of
        Inl errno \<Rightarrow> Inr (fst s, snd s, active)
      | Inr evs \<Rightarrow>
          let numEvents = length evs in
          if 0 < numEvents then
            rbind (epoll_fillActiveChannels numEvents evs s active) (\<lambda>(h, active').
              Inr (h, if numEvents = ep_events_size (snd s)
                      then (snd s)\<lparr>ep_events_size := ep_events_size (snd s) * 2\<rparr> else snd s, active'))
          else Inr (fst s, snd s, active))"

section \<open>The poll poller\<close>

record pollfd =
  pfd_fd :: int
  pfd_events :: "16 word"
  pfd_revents :: "16 word"

record poll_poller =
  pp_channels :: fd_map
  pollfds :: "pollfd list"

definition new_poll_poller :: poll_poller where
  "new_poll_poller = \<lparr>pp_channels = [], pollfds = []\<rparr>"

definition poll_updateChannel ::
    "bool \<Rightarrow> nat \<Rightarrow> chan_heap \<times> poll_poller \<Rightarrow> (chan_heap \<times> poll_poller) result" where
  "poll_updateChannel inloop p s =
     (case s of (h, ps) \<Rightarrow>
      assert_loop inloop (rbind (chan_at p h) (\<lambda>c.
        if index c < 0 then
          assert_ok (map_of (pp_channels ps) (chan_fd c) = None)
            (let pfd = \<lparr>pfd_fd = chan_fd c, pfd_events = ucast (events c), pfd_revents = 0\<rparr>;
                 fds = pollfds ps @ [pfd];
                 idx = int (length fds) - 1
             in Inr (h(p \<mapsto> set_index idx c),
                     ps\<lparr>pollfds := fds, pp_channels := AList.update (chan_fd c) p (pp_channels ps)\<rparr>))
        else
          assert_ok (map_of (pp_channels ps) (chan_fd c) \<noteq> None)
           (assert_ok (map_of (pp_channels ps) (chan_fd c) = Some p)
            (let idx = index c in
             assert_ok (0 \<le> idx \<and> idx < int (length (pollfds ps)))
              (let pfd = pollfds ps ! nat idx in
               assert_ok (pfd_fd pfd = chan_fd c \<or> pfd_fd pfd = - chan_fd c - 1)
                (let pfd' = pfd\<lparr>pfd_fd := chan_fd c, pfd_events := ucast (events c), pfd_revents := 0\<rparr>;
                     pfd'' = if isNoneEvent c then pfd'\<lparr>pfd_fd := - chan_fd c - 1\<rparr> else pfd'
                 in Inr (h, ps\<lparr>pollfds := (pollfds ps)[nat idx := pfd'']\<rparr>))))))))"

definition poll_removeChannel ::
    "bool \<Rightarrow> nat \<Rightarrow> chan_heap \<times> poll_poller \<Rightarrow> (chan_heap \<times> poll_poller) result" where
  "poll_removeChannel inloop p s =
     (case s of (h, ps) \<Rightarrow>
      assert_loop inloop (rbind (chan_at p h) (\<lambda>c.
        assert_ok (map_of (pp_channels ps) (chan_fd c) \<noteq> None)
         (assert_ok (map_of (pp_channels ps) (chan_fd c) = Some p)
          (assert_ok (isNoneEvent c)
           (let idx = index c in
            assert_ok (0 \<le> idx \<and> idx < int (length (pollfds ps)))
             (let pfd = pollfds ps ! nat idx in
              assert_ok (pfd_fd pfd = - chan_fd c - 1 \<and> scast (pfd_events pfd) = events c)
               (let chs = AList.delete (chan_fd c) (pp_channels ps) in
                if nat idx = length (pollfds ps) - 1
                then Inr (h, ps\<lparr>pp_channels := chs, pollfds := butlast (pollfds ps)\<rparr>)
                else
                  let e = pfd_fd (last (pollfds ps));
                      channelAtEnd = (if e < 0 then - e - 1 else e);
                      swapped = (pollfds ps)[nat idx := last (pollfds ps)]
                  in (case map_of chs channelAtEnd of
                        None \<Rightarrow> Inl UseAfterFree
                      | Some q \<Rightarrow> rbind (chan_at q h) (\<lambda>d.
                          Inr (h(q \<mapsto> set_index idx d),
                               ps\<lparr>pp_channels := chs, pollfds := butlast swapped\<rparr>)))))))))))"

text \<open>
  \<open>fillActiveChannels\<close>: the array after the system call, at most \<open>numEvents\<close> entries with a
  positive \<open>revents\<close>. The signed 16 bit mask is widened to \<open>int\<close>.
\<close>

fun poll_fill :: "nat \<Rightarrow> pollfd list \<Rightarrow> fd_map \<Rightarrow> chan_heap \<Rightarrow> nat list \<Rightarrow> (chan_heap \<times> nat list) result" where
  "poll_fill n [] chs h active = Inr (h, active)"
| "poll_fill n (pfd # pfds) chs h active =
     (if n = 0 then Inr (h, active)
      else if 0 < sint (pfd_revents pfd) then
        (case map_of chs (pfd_fd pfd) of
           None \<Rightarrow> Inl AssertFail
         | Some p \<Rightarrow> rbind (chan_at p h) (\<lambda>c.
             assert_ok (chan_fd c = pfd_fd pfd)
               (poll_fill (n - 1) pfds chs (h(p \<mapsto> set_revents (scast (pfd_revents pfd)) c)) (active @ [p]))))
      else poll_fill n pfds chs h active)"

definition poll_poll :: "int + nat \<times> pollfd list \<Rightarrow> chan_heap \<times> poll_poller \<Rightarrow> nat list \<Rightarrow>
    (chan_heap \<times> poll_poller \<times> nat list) result" where
  "poll_poll polled s active =
     (case polled of
        Inl errno \<Rightarrow> Inr (fst s, snd s, active)
      | Inr (numEvents, fds) \<Rightarrow>
          let ps = (snd s)\<lparr>pollfds := fds\<rparr> in
          if 0 < numEvents then
            rbind (poll_fill numEvents fds (pp_channels ps) (fst s) active)
              (\<lambda>(h, active'). Inr (h, ps, active'))
          else Inr (fst s, ps, active))"

section \<open>Virtual dispatch\<close>

datatype poller = EPollPoller epoll_poller | PollPoller poll_poller

text \<open>\<open>use_poll\<close>: whether the environment variable \<open>MUDUO_USE_POLL\<close> is set.\<close>

definition newDefaultPoller :: "bool \<Rightarrow> poller" where
  "newDefaultPoller use_poll = (if use_poll then PollPoller new_poll_poller else EPollPoller new_epoll_poller)"

definition poller_updateChannel :: "bool \<Rightarrow> nat \<Rightarrow> chan_heap \<times> poller \<Rightarrow> (chan_heap \<times> poller) result" where
  "poller_updateChannel inloop p s =
     (case snd s of
        EPollPoller e \<Rightarrow> rbind (epoll_updateChannel inloop p (fst s, e)) (\<lambda>(h, e'). Inr (h, EPollPoller e'))
      | PollPoller q \<Rightarrow> rbind (poll_updateChannel inloop p (fst s, q)) (\<lambda>(h, q'). Inr (h, PollPoller q')))"

definition poller_removeChannel :: "bool \<Rightarrow> nat \<Rightarrow> chan_heap \<times> poller \<Rightarrow> (chan_heap \<times> poller) result" where
  "poller_removeChannel inloop p s =
     (case snd s of
        EPollPoller e \<Rightarrow> rbind (epoll_removeChannel inloop p (fst s, e)) (\<lambda>(h, e'). Inr (h, EPollPoller e'))
      | PollPoller q \<Rightarrow> rbind (poll_removeChannel inloop p (fst s, q)) (\<lambda>(h, q'). Inr (h, PollPoller q')))"

definition poller_channels :: "poller \<Rightarrow> fd_map" where
  "poller_channels ps = (case ps of EPollPoller e \<Rightarrow> ep_channels e | PollPoller q \<Rightarrow> pp_channels q)"

section \<open>The contract of a poller\<close>

text \<open>
  \<open>strip h\<close> forgets the poller's private field \<open>index_\<close>; \<open>chmap\<close> is the map from descriptors to
  channels and \<open>interest\<close> the event mask the multiplexer watches for a descriptor.
\<close>

definition strip :: "chan_heap \<Rightarrow> chan_heap" where
  "strip h = (\<lambda>p. map_option (set_index 0) (h p))"

definition same_poll_view :: "channel \<Rightarrow> channel \<Rightarrow> bool" where
  "same_poll_view c c' \<longleftrightarrow> chan_fd c' = chan_fd c \<and> events c' = events c \<and> index c' = index c"

locale io_poller =
  fixes inv :: "chan_heap \<Rightarrow> 'ps \<Rightarrow> bool"
    and chmap :: "'ps \<Rightarrow> int \<rightharpoonup> nat"
    and interest :: "'ps \<Rightarrow> int \<Rightarrow> events_mask"
    and update :: "nat \<Rightarrow> chan_heap \<times> 'ps \<Rightarrow> (chan_heap \<times> 'ps) result"
    and remove :: "nat \<Rightarrow> chan_heap \<times> 'ps \<Rightarrow> (chan_heap \<times> 'ps) result"
  assumes inv_chan: "inv h ps \<Longrightarrow> chmap ps f = Some p \<Longrightarrow>
      \<exists>c. h p = Some c \<and> chan_fd c = f \<and> valid_events (events c)"
    and inv_interest: "inv h ps \<Longrightarrow>
      interest ps f = (case chmap ps f of None \<Rightarrow> 0 | Some p \<Rightarrow> events (the (h p)))"
    and inv_frame: "inv h ps \<Longrightarrow>
      (\<And>f p c. chmap ps f = Some p \<Longrightarrow> h p = Some c \<Longrightarrow> \<exists>c'. h' p = Some c' \<and> same_poll_view c c') \<Longrightarrow>
      inv h' ps"
    and update_ok: "inv h ps \<Longrightarrow> h p = Some c \<Longrightarrow> 0 \<le> chan_fd c \<Longrightarrow>
      chan_fd c' = chan_fd c \<Longrightarrow> index c' = index c \<Longrightarrow> valid_events (events c') \<Longrightarrow>
      chmap ps (chan_fd c) = Some p \<or>
        chmap ps (chan_fd c) = None \<and> index c = -1 \<and> events c' \<noteq> 0 \<Longrightarrow>
      \<exists>h' ps'. update p (h(p \<mapsto> c'), ps) = Inr (h', ps') \<and> inv h' ps' \<and>
        chmap ps' = (chmap ps)(chan_fd c \<mapsto> p) \<and> strip h' = strip (h(p \<mapsto> c'))"
    and remove_ok: "inv h ps \<Longrightarrow> h p = Some c \<Longrightarrow> chmap ps (chan_fd c) = Some p \<Longrightarrow> events c = 0 \<Longrightarrow>
      \<exists>h' ps'. remove p (h, ps) = Inr (h', ps') \<and> inv h' ps' \<and>
        chmap ps' = (chmap ps)(chan_fd c := None) \<and> strip h' = strip h"

subsection \<open>Facts on \<open>strip\<close>\<close>

lemma set_index_simps [simp]:
  "chan_fd (set_index i c) = chan_fd c" "events (set_index i c) = events c"
  "index (set_index i c) = i" "set_index i (set_index j c) = set_index i c"
  "ownerLoop (set_index i c) = ownerLoop c" "revents (set_index i c) = revents c"
  "isNoneEvent (set_index i c) = isNoneEvent c" "isWriting (set_index i c) = isWriting c"
  "isReading (set_index i c) = isReading c"
  by (simp_all add: set_index_def isNoneEvent_def isWriting_def isReading_def)

lemma strip_set_index [simp]: "h p = Some c \<Longrightarrow> strip (h(p \<mapsto> set_index i c)) = strip h"
  by (auto simp: strip_def)

lemma strip_upd: "strip (h(p \<mapsto> c)) = (strip h)(p \<mapsto> set_index 0 c)"
  by (auto simp: strip_def)

lemma strip_same:
  assumes "strip h' = strip h" "h p = Some c"
  obtains i where "h' p = Some (set_index i c)"
proof -
  from fun_cong [OF assms(1), of p] assms(2) obtain c' where
    c': "h' p = Some c'" "set_index 0 c' = set_index 0 c" by (auto simp: strip_def)
  have "set_index (index c') c = c'"
    using c'(2) by (cases c, cases c') (simp add: set_index_def)
  with c'(1) that [of "index c'"] show ?thesis by simp
qed

lemma strip_None: "strip h' = strip h \<Longrightarrow> h' p = None \<longleftrightarrow> h p = None"
  by (metis map_option_is_None strip_def)

subsection \<open>What follows for every poller\<close>

context io_poller
begin

lemma update_interest:
  assumes "inv h ps" "h p = Some c" "0 \<le> chan_fd c" "chan_fd c' = chan_fd c" "index c' = index c"
    "valid_events (events c')"
    "chmap ps (chan_fd c) = Some p \<or> chmap ps (chan_fd c) = None \<and> index c = -1 \<and> events c' \<noteq> 0"
    "update p (h(p \<mapsto> c'), ps) = Inr (h', ps')"
  shows "interest ps' = (interest ps)(chan_fd c := events c')"
proof
  fix f
  from update_ok [OF assms(1-7)] assms(8) have inv': "inv h' ps'"
    and ch: "chmap ps' = (chmap ps)(chan_fd c \<mapsto> p)" and st: "strip h' = strip (h(p \<mapsto> c'))" by auto
  show "interest ps' f = ((interest ps)(chan_fd c := events c')) f"
  proof (cases "f = chan_fd c")
    case True
    from strip_same [OF st, of p c'] obtain i where "h' p = Some (set_index i c')" by auto
    then show ?thesis using True inv_interest [OF inv', of f] ch by simp
  next
    case False
    show ?thesis
    proof (cases "chmap ps f")
      case None
      then show ?thesis using False inv_interest [OF inv', of f] inv_interest [OF assms(1), of f] ch by simp
    next
      case (Some q)
      with inv_chan [OF assms(1)] obtain d where d: "h q = Some d" "chan_fd d = f" by blast
      with False assms(2) have "q \<noteq> p" by auto
      with strip_same [OF st, of q d] d obtain i where "h' q = Some (set_index i d)" by auto
      then show ?thesis
        using False Some d inv_interest [OF inv', of f] inv_interest [OF assms(1), of f] ch by simp
    qed
  qed
qed

lemma remove_interest:
  assumes "inv h ps" "h p = Some c" "chmap ps (chan_fd c) = Some p" "events c = 0"
    "remove p (h, ps) = Inr (h', ps')"
  shows "interest ps' = (interest ps)(chan_fd c := 0)"
proof
  fix f
  from remove_ok [OF assms(1-4)] assms(5) have inv': "inv h' ps'"
    and ch: "chmap ps' = (chmap ps)(chan_fd c := None)" and st: "strip h' = strip h" by auto
  show "interest ps' f = ((interest ps)(chan_fd c := 0)) f"
  proof (cases "f = chan_fd c \<or> chmap ps f = None")
    case True
    then show ?thesis using inv_interest [OF inv', of f] inv_interest [OF assms(1), of f] ch by auto
  next
    case False
    then obtain q where q: "chmap ps f = Some q" by auto
    with inv_chan [OF assms(1)] obtain d where "h q = Some d" by blast
    moreover from this strip_same [OF st] obtain i where "h' q = Some (set_index i d)" by blast
    ultimately show ?thesis
      using False q inv_interest [OF inv', of f] inv_interest [OF assms(1), of f] ch by simp
  qed
qed

text \<open>The life of a registration: watch, stop watching, remove. Nothing else is disturbed.\<close>

lemma register_cycle:
  assumes "inv h ps" "h p = Some c" "0 \<le> chan_fd c" "index c = -1" "chmap ps (chan_fd c) = None"
    and "valid_events ev" "ev \<noteq> 0"
  shows "\<exists>h1 ps1 c1 h2 ps2 h3 ps3.
     update p (h(p \<mapsto> c\<lparr>events := ev\<rparr>), ps) = Inr (h1, ps1) \<and> interest ps1 (chan_fd c) = ev \<and>
     h1 p = Some c1 \<and> events c1 = ev \<and>
     update p (h1(p \<mapsto> c1\<lparr>events := 0\<rparr>), ps1) = Inr (h2, ps2) \<and> interest ps2 (chan_fd c) = 0 \<and>
     remove p (h2, ps2) = Inr (h3, ps3) \<and> inv h3 ps3 \<and>
     chmap ps3 = chmap ps \<and> interest ps3 = interest ps"
proof -
  let ?c1 = "c\<lparr>events := ev\<rparr>"
  from update_ok [of h ps p c ?c1] assms obtain h1 ps1 where u1:
    "update p (h(p \<mapsto> ?c1), ps) = Inr (h1, ps1)" "inv h1 ps1"
    "chmap ps1 = (chmap ps)(chan_fd c \<mapsto> p)" "strip h1 = strip (h(p \<mapsto> ?c1))" by auto
  have i1: "interest ps1 = (interest ps)(chan_fd c := ev)"
    using update_interest [of h ps p c ?c1 h1 ps1] assms u1(1) by auto
  from strip_same [OF u1(4), of p ?c1] obtain i where i: "h1 p = Some (set_index i ?c1)" by auto
  let ?d = "set_index i ?c1"
  from update_ok [of h1 ps1 p ?d "?d\<lparr>events := 0\<rparr>"] u1 i assms(3) obtain h2 ps2 where u2:
    "update p (h1(p \<mapsto> ?d\<lparr>events := 0\<rparr>), ps1) = Inr (h2, ps2)" "inv h2 ps2"
    "chmap ps2 = chmap ps1" "strip h2 = strip (h1(p \<mapsto> ?d\<lparr>events := 0\<rparr>))"
    by (auto simp: fun_upd_idem set_index_def)
  have i2: "interest ps2 = (interest ps1)(chan_fd c := 0)"
    using update_interest [of h1 ps1 p ?d "?d\<lparr>events := 0\<rparr>" h2 ps2] u1 u2(1) i assms(3)
    by (auto simp: set_index_def)
  from strip_same [OF u2(4), of p "?d\<lparr>events := 0\<rparr>"] obtain j where
    j: "h2 p = Some (set_index j (?d\<lparr>events := 0\<rparr>))" by auto
  let ?e = "set_index j (?d\<lparr>events := 0\<rparr>)"
  have e: "chan_fd ?e = chan_fd c" "events ?e = 0" by (simp_all add: set_index_def)
  from remove_ok [of h2 ps2 p ?e] u2 u1(3) j e obtain h3 ps3 where u3:
    "remove p (h2, ps2) = Inr (h3, ps3)" "inv h3 ps3" "chmap ps3 = (chmap ps2)(chan_fd c := None)"
    by auto
  have i3: "interest ps3 = (interest ps2)(chan_fd c := 0)"
    using remove_interest [of h2 ps2 p ?e h3 ps3] u2 u1(3) j e u3(1) by auto
  have "interest ps (chan_fd c) = 0" using inv_interest [OF assms(1)] assms(5) by simp
  then have "interest ps3 = interest ps" by (simp add: i1 i2 i3 fun_eq_iff)
  moreover have "chmap ps3 = chmap ps" using u3(3) u2(3) u1(3) assms(5) by (simp add: fun_upd_idem)
  ultimately show ?thesis
    using u1(1) i u2(1) u3(1,2) i1 i2
    by (intro exI [of _ h1] exI [of _ ps1] exI [of _ ?d] exI [of _ h2] exI [of _ ps2] exI [of _ h3]
        exI [of _ ps3]) (simp add: set_index_def)
qed

end

subsection \<open>The epoll poller provides the contract\<close>

definition epoll_entry :: "int \<Rightarrow> nat \<Rightarrow> channel \<Rightarrow> epoll_poller \<Rightarrow> bool" where
  "epoll_entry f p c ps \<longleftrightarrow> chan_fd c = f \<and> valid_events (events c) \<and>
     (index c = kAdded \<and> map_of (ep_kernel ps) f = Some (events c, p) \<or>
      index c = kDeleted \<and> map_of (ep_kernel ps) f = None \<and> events c = 0)"

definition epoll_inv :: "chan_heap \<Rightarrow> epoll_poller \<Rightarrow> bool" where
  "epoll_inv h ps \<longleftrightarrow>
     (\<forall>f. case map_of (ep_channels ps) f of
        None \<Rightarrow> map_of (ep_kernel ps) f = None
      | Some p \<Rightarrow> (\<exists>c. h p = Some c \<and> epoll_entry f p c ps))"

definition epoll_interest :: "epoll_poller \<Rightarrow> int \<Rightarrow> events_mask" where
  "epoll_interest ps f = (case map_of (ep_kernel ps) f of None \<Rightarrow> 0 | Some (ev, p) \<Rightarrow> ev)"

lemma epoll_invD:
  assumes "epoll_inv h ps"
  shows "map_of (ep_channels ps) f = Some p \<Longrightarrow> \<exists>c. h p = Some c \<and> epoll_entry f p c ps"
    and "map_of (ep_channels ps) f = None \<Longrightarrow> map_of (ep_kernel ps) f = None"
  using assms [unfolded epoll_inv_def, THEN spec, of f] by simp_all

lemma map_of_update_delete [simp]:
  "map_of (AList.update k v al) = (map_of al)(k \<mapsto> v)"
  "map_of (AList.delete k al) = (map_of al)(k := None)"
  by (simp_all add: update_conv' delete_conv')

text \<open>The other channels of a poller are untouched when one channel is updated.\<close>

lemma epoll_inv_upd:
  assumes "epoll_inv h ps" "epoll_entry f p c ps'" "h p = Some c0" "chan_fd c0 = f"
    and "map_of (ep_channels ps') = (map_of (ep_channels ps))(f \<mapsto> p)"
    and "\<And>g. g \<noteq> f \<Longrightarrow> map_of (ep_kernel ps') g = map_of (ep_kernel ps) g"
  shows "epoll_inv (h(p \<mapsto> c)) ps'"
  unfolding epoll_inv_def
proof
  fix g
  show "case map_of (ep_channels ps') g of None \<Rightarrow> map_of (ep_kernel ps') g = None
     | Some q \<Rightarrow> \<exists>d. (h(p \<mapsto> c)) q = Some d \<and> epoll_entry g q d ps'"
    using assms epoll_invD [OF assms(1), of g]
    by (cases "g = f") (auto simp: epoll_entry_def split: option.splits)
qed

lemma epoll_inv_del:
  assumes "epoll_inv h ps" "map_of (ep_channels ps) f = Some p" "h p = Some c0"
    and "map_of (ep_channels ps') = (map_of (ep_channels ps))(f := None)"
    and "map_of (ep_kernel ps') = (map_of (ep_kernel ps))(f := None)"
  shows "epoll_inv (h(p \<mapsto> c)) ps'"
  unfolding epoll_inv_def
proof
  fix g
  have "q \<noteq> p" if "map_of (ep_channels ps) g = Some q" "g \<noteq> f" for q
    using epoll_invD(1) [OF assms(1,2)] epoll_invD(1) [OF assms(1) that(1)] that(2)
    by (auto simp: epoll_entry_def)
  then show "case map_of (ep_channels ps') g of None \<Rightarrow> map_of (ep_kernel ps') g = None
     | Some q \<Rightarrow> \<exists>d. (h(p \<mapsto> c)) q = Some d \<and> epoll_entry g q d ps'"
    using assms epoll_invD [OF assms(1), of g]
    by (cases "g = f") (auto simp: epoll_entry_def split: option.splits)
qed

lemma epoll_update_ok:
  assumes "epoll_inv h ps" "h p = Some c" "chan_fd c' = chan_fd c" "index c' = index c"
    "valid_events (events c')"
    "map_of (ep_channels ps) (chan_fd c) = Some p \<or>
       map_of (ep_channels ps) (chan_fd c) = None \<and> index c = -1 \<and> events c' \<noteq> 0"
  shows "\<exists>h' ps'. epoll_updateChannel True p (h(p \<mapsto> c'), ps) = Inr (h', ps') \<and> epoll_inv h' ps' \<and>
    map_of (ep_channels ps') = (map_of (ep_channels ps))(chan_fd c \<mapsto> p) \<and> strip h' = strip (h(p \<mapsto> c'))"
proof (cases "map_of (ep_channels ps) (chan_fd c)")
  case None
  with assms have k: "map_of (ep_kernel ps) (chan_fd c) = None" "index c = kNew"
    using epoll_invD(2) by (auto simp: kNew_def)
  show ?thesis
    using None assms k
    by (auto simp: epoll_updateChannel_def epoll_update_def epoll_ctl_def epoll_index_defs Let_def epoll_entry_def
        strip_upd intro!: epoll_inv_upd)
next
  case (Some q)
  with assms have reg: "map_of (ep_channels ps) (chan_fd c) = Some p" by auto
  from epoll_invD(1) [OF assms(1) reg] assms(2) have e: "epoll_entry (chan_fd c) p c ps" by auto
  then consider "index c = kAdded" "events c' = 0" | "index c = kAdded" "events c' \<noteq> 0" | "index c = kDeleted"
    by (auto simp: epoll_entry_def)
  then show ?thesis
    using reg assms e
    by cases (auto simp: epoll_updateChannel_def epoll_update_def epoll_ctl_def epoll_index_defs Let_def
        epoll_entry_def isNoneEvent_def kNoneEvent_def strip_upd fun_upd_idem intro!: epoll_inv_upd)
qed

lemma epoll_remove_ok:
  assumes "epoll_inv h ps" "h p = Some c" "map_of (ep_channels ps) (chan_fd c) = Some p" "events c = 0"
  shows "\<exists>h' ps'. epoll_removeChannel True p (h, ps) = Inr (h', ps') \<and> epoll_inv h' ps' \<and>
    map_of (ep_channels ps') = (map_of (ep_channels ps))(chan_fd c := None) \<and> strip h' = strip h \<and>
    map_option index (h' p) = Some kNew"
proof -
  from epoll_invD(1) [OF assms(1,3)] assms(2) have e: "epoll_entry (chan_fd c) p c ps" by auto
  then consider "index c = kAdded" | "index c = kDeleted" by (auto simp: epoll_entry_def)
  then show ?thesis
    using assms e
    by cases (auto simp: epoll_removeChannel_def epoll_update_def epoll_ctl_def epoll_index_defs Let_def
        epoll_entry_def isNoneEvent_def kNoneEvent_def fun_upd_idem intro!: epoll_inv_del)
qed

interpretation epoll: io_poller epoll_inv "\<lambda>ps. map_of (ep_channels ps)" epoll_interest
  "epoll_updateChannel True" "epoll_removeChannel True"
proof unfold_locales
  fix h h' :: chan_heap and ps p and c c' :: channel and f
  assume inv: "epoll_inv h ps"
  show "\<exists>c. h p = Some c \<and> chan_fd c = f \<and> valid_events (events c)"
    if "map_of (ep_channels ps) f = Some p"
    using epoll_invD(1) [OF inv that] by (auto simp: epoll_entry_def)
  show "epoll_interest ps f =
      (case map_of (ep_channels ps) f of None \<Rightarrow> 0 | Some p \<Rightarrow> events (the (h p)))"
    using epoll_invD [OF inv, of f]
    by (auto simp: epoll_interest_def epoll_entry_def split: option.splits)
  show "epoll_inv h' ps"
    if "\<And>f p c. map_of (ep_channels ps) f = Some p \<Longrightarrow> h p = Some c \<Longrightarrow> \<exists>c'. h' p = Some c' \<and> same_poll_view c c'"
    using inv that unfolding epoll_inv_def epoll_entry_def same_poll_view_def
    by (fastforce split: option.splits)
qed (use epoll_update_ok epoll_remove_ok in blast)+

subsection \<open>The poll poller provides the contract\<close>

text \<open>\<open>slot_fd\<close>: the descriptor an array entry belongs to; an ignored entry holds \<open>-fd-1\<close>.\<close>

definition slot_fd :: "pollfd \<Rightarrow> int" where
  "slot_fd pfd = (if pfd_fd pfd < 0 then - pfd_fd pfd - 1 else pfd_fd pfd)"

definition poll_entry :: "int \<Rightarrow> channel \<Rightarrow> pollfd list \<Rightarrow> bool" where
  "poll_entry f c fds \<longleftrightarrow> chan_fd c = f \<and> 0 \<le> f \<and> valid_events (events c) \<and>
     0 \<le> index c \<and> nat (index c) < length fds \<and>
     pfd_fd (fds ! nat (index c)) = (if events c = 0 then - f - 1 else f) \<and>
     pfd_events (fds ! nat (index c)) = ucast (events c)"

definition poll_inv :: "chan_heap \<Rightarrow> poll_poller \<Rightarrow> bool" where
  "poll_inv h ps \<longleftrightarrow>
     (\<forall>f p. map_of (pp_channels ps) f = Some p \<longrightarrow> (\<exists>c. h p = Some c \<and> poll_entry f c (pollfds ps))) \<and>
     (\<forall>i < length (pollfds ps). \<exists>p c. map_of (pp_channels ps) (slot_fd (pollfds ps ! i)) = Some p \<and>
        h p = Some c \<and> index c = int i)"

definition poll_interest :: "poll_poller \<Rightarrow> int \<Rightarrow> events_mask" where
  "poll_interest ps f =
     (case find (\<lambda>pfd. 0 \<le> pfd_fd pfd \<and> pfd_fd pfd = f) (pollfds ps) of None \<Rightarrow> 0 | Some pfd \<Rightarrow> ucast (pfd_events pfd))"

lemma poll_inv_entry:
  "poll_inv h ps \<Longrightarrow> map_of (pp_channels ps) f = Some p \<Longrightarrow> \<exists>c. h p = Some c \<and> poll_entry f c (pollfds ps)"
  by (simp add: poll_inv_def)

lemma poll_inv_slot:
  "poll_inv h ps \<Longrightarrow> i < length (pollfds ps) \<Longrightarrow>
     \<exists>p c. map_of (pp_channels ps) (slot_fd (pollfds ps ! i)) = Some p \<and> h p = Some c \<and> index c = int i"
  by (simp add: poll_inv_def)

lemma poll_entry_slot: "poll_entry f c fds \<Longrightarrow> slot_fd (fds ! nat (index c)) = f"
  by (auto simp: poll_entry_def slot_fd_def)

lemma poll_entry_bounds:
  assumes "poll_entry f c fds"
  shows "nat (index c) \<le> length fds - 1" "fds \<noteq> []" "last fds = fds ! (length fds - 1)" "index c < int (length fds)"
proof -
  show ne: "fds \<noteq> []" using assms by (auto simp: poll_entry_def)
  show "last fds = fds ! (length fds - 1)" using last_conv_nth [OF ne] .
qed (use assms in \<open>auto simp: poll_entry_def\<close>)

lemma pollfd_commute [simp]:
  "x\<lparr>pfd_events := a, pfd_revents := b, pfd_fd := f\<rparr> = x\<lparr>pfd_fd := f, pfd_events := a, pfd_revents := b\<rparr>"
  by (cases x) simp

lemma poll_slot_inj:
  assumes "poll_inv h ps" "i < length (pollfds ps)" "j < length (pollfds ps)"
    "slot_fd (pollfds ps ! i) = slot_fd (pollfds ps ! j)"
  shows "i = j"
  using poll_inv_slot [OF assms(1,2)] poll_inv_slot [OF assms(1,3)] assms(4) by fastforce

lemma ucast_valid_events [simp]: "valid_events ev \<Longrightarrow> ucast (ucast ev :: 16 word) = ev"
  by (auto elim!: valid_events_cases)

lemma find_Some_iff_nth:
  assumes "i < length xs" "P (xs ! i)" "\<And>j. j < length xs \<Longrightarrow> P (xs ! j) \<Longrightarrow> j = i"
  shows "find P xs = Some (xs ! i)"
  unfolding find_Some_iff using assms by (metis less_irrefl less_trans)

lemma poll_inv_interest:
  assumes "poll_inv h ps"
  shows "poll_interest ps f =
    (case map_of (pp_channels ps) f of None \<Rightarrow> 0 | Some p \<Rightarrow> events (the (h p)))"
proof (cases "map_of (pp_channels ps) f")
  case None
  have "\<not> (0 \<le> pfd_fd x \<and> pfd_fd x = f)" if "x \<in> set (pollfds ps)" for x
    using that poll_inv_slot [OF assms] None by (fastforce simp: in_set_conv_nth slot_fd_def)
  then have "find (\<lambda>pfd. 0 \<le> pfd_fd pfd \<and> pfd_fd pfd = f) (pollfds ps) = None"
    by (auto simp: find_None_iff)
  with None show ?thesis by (simp add: poll_interest_def)
next
  case (Some p)
  with poll_inv_entry [OF assms] obtain c where c: "h p = Some c" "poll_entry f c (pollfds ps)" by blast
  let ?i = "nat (index c)" and ?P = "\<lambda>pfd. 0 \<le> pfd_fd pfd \<and> pfd_fd pfd = f"
  have uniq: "j = ?i" if "j < length (pollfds ps)" "slot_fd (pollfds ps ! j) = f" for j
    using poll_slot_inj [OF assms that(1), of ?i] that(2) c(2) poll_entry_slot by (auto simp: poll_entry_def)
  show ?thesis
  proof (cases "events c = 0")
    case True
    have "\<not> ?P x" if "x \<in> set (pollfds ps)" for x
      using that uniq c(2) True by (auto simp: in_set_conv_nth slot_fd_def poll_entry_def)
    then have "find ?P (pollfds ps) = None" by (auto simp: find_None_iff)
    with True Some c(1) show ?thesis by (simp add: poll_interest_def)
  next
    case False
    have "find ?P (pollfds ps) = Some (pollfds ps ! ?i)"
      using c(2) False uniq by (intro find_Some_iff_nth) (auto simp: poll_entry_def slot_fd_def)
    with Some c show ?thesis by (simp add: poll_interest_def poll_entry_def)
  qed
qed

lemma poll_inv_frame:
  assumes "poll_inv h ps"
    and same: "\<And>f p c. map_of (pp_channels ps) f = Some p \<Longrightarrow> h p = Some c \<Longrightarrow> \<exists>c'. h' p = Some c' \<and> same_poll_view c c'"
  shows "poll_inv h' ps"
  unfolding poll_inv_def
proof (intro conjI allI impI)
  fix f p assume p: "map_of (pp_channels ps) f = Some p"
  from poll_inv_entry [OF assms(1) p] obtain c where c: "h p = Some c" "poll_entry f c (pollfds ps)" by auto
  from same [OF p c(1)] obtain c' where c': "h' p = Some c'" "same_poll_view c c'" by auto
  from c(2) c'(2) have "poll_entry f c' (pollfds ps)" by (simp add: poll_entry_def same_poll_view_def)
  with c'(1) show "\<exists>c. h' p = Some c \<and> poll_entry f c (pollfds ps)" by simp
next
  fix i assume "i < length (pollfds ps)"
  from poll_inv_slot [OF assms(1) this] same
  show "\<exists>p c. map_of (pp_channels ps) (slot_fd (pollfds ps ! i)) = Some p \<and> h' p = Some c \<and> index c = int i"
    by (fastforce simp: same_poll_view_def)
qed

text \<open>Two registered descriptors belong to different channels with different slots.\<close>

lemma poll_other:
  assumes "poll_inv h ps" "map_of (pp_channels ps) f = Some q" "h q = Some d"
    "map_of (pp_channels ps) g = Some p" "h p = Some c" "f \<noteq> g"
  shows "q \<noteq> p" "nat (index d) \<noteq> nat (index c)" "poll_entry f d (pollfds ps)"
proof -
  from poll_inv_entry [OF assms(1,2)] assms(3) show d: "poll_entry f d (pollfds ps)" by auto
  from poll_inv_entry [OF assms(1,4)] assms(5) have c: "poll_entry g c (pollfds ps)" by auto
  show "nat (index d) \<noteq> nat (index c)" using poll_entry_slot [OF d] poll_entry_slot [OF c] assms(6) by metis
  then show "q \<noteq> p" using assms(3,5) by auto
qed

lemma poll_add_ok:
  assumes "poll_inv h ps" "h p = Some c" "0 \<le> chan_fd c" "chan_fd c' = chan_fd c" "index c' = -1"
    "valid_events (events c')" "events c' \<noteq> 0" "map_of (pp_channels ps) (chan_fd c) = None"
  shows "\<exists>h' ps'. poll_updateChannel True p (h(p \<mapsto> c'), ps) = Inr (h', ps') \<and> poll_inv h' ps' \<and>
    map_of (pp_channels ps') = (map_of (pp_channels ps))(chan_fd c \<mapsto> p) \<and> strip h' = strip (h(p \<mapsto> c'))"
proof -
  let ?fds = "pollfds ps" and ?d = "set_index (int (length (pollfds ps))) c'"
  let ?pfd = "\<lparr>pfd_fd = chan_fd c, pfd_events = ucast (events c'), pfd_revents = 0\<rparr> :: pollfd"
  let ?ps = "ps\<lparr>pollfds := ?fds @ [?pfd], pp_channels := AList.update (chan_fd c) p (pp_channels ps)\<rparr>"
  have other: "q \<noteq> p" if "map_of (pp_channels ps) f = Some q" for f q
    using poll_inv_entry [OF assms(1) that] assms(2,8) that by (auto simp: poll_entry_def)
  have "poll_inv (h(p \<mapsto> ?d)) ?ps"
    unfolding poll_inv_def
  proof (intro conjI allI impI)
    fix f q assume "map_of (pp_channels ?ps) f = Some q"
    then show "\<exists>d. (h(p \<mapsto> ?d)) q = Some d \<and> poll_entry f d (pollfds ?ps)"
      using assms other poll_inv_entry [OF assms(1), of f q]
      by (cases "f = chan_fd c") (auto simp: poll_entry_def nth_append)
  next
    fix i assume "i < length (pollfds ?ps)"
    then consider "i = length ?fds" | "i < length ?fds" by fastforce
    then show "\<exists>q d. map_of (pp_channels ?ps) (slot_fd (pollfds ?ps ! i)) = Some q \<and>
        (h(p \<mapsto> ?d)) q = Some d \<and> index d = int i"
    proof cases
      case 1
      then show ?thesis using assms(3) by (auto simp: slot_fd_def)
    next
      case 2
      from poll_inv_slot [OF assms(1) 2] assms(8) other show ?thesis by (auto simp: nth_append 2)
    qed
  qed
  then show ?thesis
    using assms by (auto simp: poll_updateChannel_def Let_def strip_upd)
qed

lemma poll_mod_ok:
  assumes "poll_inv h ps" "h p = Some c" "chan_fd c' = chan_fd c" "index c' = index c"
    "valid_events (events c')" "map_of (pp_channels ps) (chan_fd c) = Some p"
  shows "\<exists>h' ps'. poll_updateChannel True p (h(p \<mapsto> c'), ps) = Inr (h', ps') \<and> poll_inv h' ps' \<and>
    map_of (pp_channels ps') = (map_of (pp_channels ps))(chan_fd c \<mapsto> p) \<and> strip h' = strip (h(p \<mapsto> c'))"
proof -
  let ?fds = "pollfds ps" and ?i = "nat (index c)"
  let ?pfd = "(?fds ! ?i)\<lparr>pfd_fd := if events c' = 0 then - chan_fd c - 1 else chan_fd c,
     pfd_events := ucast (events c'), pfd_revents := 0\<rparr>"
  let ?ps = "ps\<lparr>pollfds := ?fds[?i := ?pfd]\<rparr>"
  from poll_inv_entry [OF assms(1,6)] assms(2) have e: "poll_entry (chan_fd c) c ?fds" by auto
  have slot: "slot_fd ?pfd = chan_fd c" using e by (auto simp: slot_fd_def poll_entry_def)
  have "poll_inv (h(p \<mapsto> c')) ?ps"
    unfolding poll_inv_def
  proof (intro conjI allI impI)
    fix f q assume q: "map_of (pp_channels ?ps) f = Some q"
    show "\<exists>d. (h(p \<mapsto> c')) q = Some d \<and> poll_entry f d (pollfds ?ps)"
    proof (cases "f = chan_fd c")
      case True
      with q assms e show ?thesis by (auto simp: poll_entry_def)
    next
      case False
      from q poll_inv_entry [OF assms(1)] obtain d where d: "h q = Some d" "poll_entry f d ?fds" by auto
      with poll_other [OF assms(1) _ d(1) assms(6,2), of f] q False
      show ?thesis by (auto simp: poll_entry_def)
    qed
  next
    fix i assume "i < length (pollfds ?ps)"
    then show "\<exists>q d. map_of (pp_channels ?ps) (slot_fd (pollfds ?ps ! i)) = Some q \<and>
        (h(p \<mapsto> c')) q = Some d \<and> index d = int i"
      using poll_inv_slot [OF assms(1), of i] assms(2,4,6) e slot
      by (cases "i = ?i") (auto simp: poll_entry_def)
  qed
  moreover have "poll_updateChannel True p (h(p \<mapsto> c'), ps) = Inr (h(p \<mapsto> c'), ?ps)"
    using assms e poll_entry_bounds(4) [OF e]
    by (auto simp: poll_updateChannel_def Let_def poll_entry_def isNoneEvent_def kNoneEvent_def)
  ultimately show ?thesis using assms(6) by (auto simp: fun_upd_idem)
qed

text \<open>Moving the last array entry into the slot of a removed channel.\<close>

lemma poll_swap_inv:
  assumes "poll_inv h ps" "h p = Some c" "map_of (pp_channels ps) (chan_fd c) = Some p"
    and e: "poll_entry (chan_fd c) c (pollfds ps)"
    and q: "map_of (pp_channels ps) (slot_fd (pollfds ps ! (length (pollfds ps) - 1))) = Some q"
      "h q = Some d" "index d = int (length (pollfds ps) - 1)"
  shows "poll_inv (h(q \<mapsto> set_index (int (nat (index c))) d))
     (ps\<lparr>pp_channels := AList.delete (chan_fd c) (pp_channels ps),
         pollfds := butlast ((pollfds ps)[nat (index c) := last (pollfds ps)])\<rparr>)"
    (is "poll_inv ?h ?ps")
  unfolding poll_inv_def
proof (intro conjI allI impI)
  let ?fds = "pollfds ps" and ?i = "nat (index c)" and ?l = "length (pollfds ps) - 1"
  have il: "?i \<le> ?l" "?fds \<noteq> []" "last ?fds = ?fds ! ?l" using poll_entry_bounds [OF e] by auto
  have at: "pollfds ?ps ! j = (if j = ?i then ?fds ! ?l else ?fds ! j)" if "j < ?l" for j
    using that il by (simp add: nth_butlast)
  fix f r assume "map_of (pp_channels ?ps) f = Some r"
  then have r: "map_of (pp_channels ps) f = Some r" "f \<noteq> chan_fd c" by (auto split: if_splits)
  from poll_inv_entry [OF assms(1) r(1)] obtain e' where e': "h r = Some e'" "poll_entry f e' ?fds" by auto
  have i: "nat (index e') \<noteq> ?i" using poll_other(2) [OF assms(1) r(1) e'(1) assms(3,2) r(2)] .
  show "\<exists>d'. ?h r = Some d' \<and> poll_entry f d' (pollfds ?ps)"
  proof (cases "f = slot_fd (?fds ! ?l)")
    case True
    then have "r = q" "e' = d" using q r e' by auto
    moreover have "nat (index d) = ?l" by (simp only: q(3) nat_int)
    moreover from this have "?i < ?l" using i il(1) \<open>e' = d\<close> by simp
    moreover have "0 \<le> index c" using e by (simp add: poll_entry_def)
    ultimately show ?thesis using e'(2) at [of ?i] by (simp add: poll_entry_def)
  next
    case False
    from poll_other [OF assms(1) r(1) e'(1) q(1,2) False] have "r \<noteq> q" "nat (index e') \<noteq> ?l" by (simp_all add: q(3))
    then have "r \<noteq> q" "nat (index e') < ?l" using e'(2) by (auto simp: poll_entry_def)
    then show ?thesis using e' i at [of "nat (index e')"] by (simp add: poll_entry_def)
  qed
next
  let ?fds = "pollfds ps" and ?i = "nat (index c)" and ?l = "length (pollfds ps) - 1"
  have il: "?i \<le> ?l" "?fds \<noteq> []" "last ?fds = ?fds ! ?l" using poll_entry_bounds [OF e] by auto
  fix j assume "j < length (pollfds ?ps)"
  then have j: "j < ?l" by simp
  then have at: "pollfds ?ps ! j = (if j = ?i then ?fds ! ?l else ?fds ! j)" using il by (simp add: nth_butlast)
  show "\<exists>r e'. map_of (pp_channels ?ps) (slot_fd (pollfds ?ps ! j)) = Some r \<and> ?h r = Some e' \<and> index e' = int j"
  proof (cases "j = ?i")
    case True
    have "slot_fd (?fds ! ?l) \<noteq> chan_fd c" using q assms(2,3) True j by force
    then show ?thesis using True at q by simp
  next
    case False
    have "j < length ?fds" using j by linarith
    from poll_inv_slot [OF assms(1) this] obtain r e' where
      r: "map_of (pp_channels ps) (slot_fd (?fds ! j)) = Some r" "h r = Some e'" "index e' = int j" by auto
    moreover have "slot_fd (?fds ! j) \<noteq> chan_fd c" using r assms(2,3) False by auto
    moreover have "r \<noteq> q" using r q j by auto
    ultimately show ?thesis using at False by simp
  qed
qed

lemma poll_remove_ok:
  assumes "poll_inv h ps" "h p = Some c" "map_of (pp_channels ps) (chan_fd c) = Some p" "events c = 0"
  shows "\<exists>h' ps'. poll_removeChannel True p (h, ps) = Inr (h', ps') \<and> poll_inv h' ps' \<and>
    map_of (pp_channels ps') = (map_of (pp_channels ps))(chan_fd c := None) \<and> strip h' = strip h \<and>
    length (pollfds ps) = Suc (length (pollfds ps')) \<and> (\<exists>d. h' p = Some d \<and> 0 \<le> index d)"
proof -
  let ?fds = "pollfds ps" and ?i = "nat (index c)" and ?l = "length (pollfds ps) - 1"
  let ?ps = "ps\<lparr>pp_channels := AList.delete (chan_fd c) (pp_channels ps), pollfds := butlast (?fds[?i := last ?fds])\<rparr>"
  from poll_inv_entry [OF assms(1,3)] assms(2) have e: "poll_entry (chan_fd c) c ?fds" by auto
  then have il: "?i \<le> ?l" "?fds \<noteq> []" "last ?fds = ?fds ! ?l" "?fds[?l := ?fds ! ?l] = ?fds" "index c < int (length ?fds)"
    using poll_entry_bounds [OF e] by auto
  from poll_inv_slot [OF assms(1), of ?l] il(2) obtain q d where
    q: "map_of (pp_channels ps) (slot_fd (?fds ! ?l)) = Some q" "h q = Some d" "index d = int ?l" by auto
  have inv: "poll_inv (h(q \<mapsto> set_index (int ?i) d)) ?ps"
    by (rule poll_swap_inv [OF assms(1-3) e q])
  have post: "map_of (pp_channels ?ps) = (map_of (pp_channels ps))(chan_fd c := None)"
    "length ?fds = Suc (length (pollfds ?ps))" using il(2) by simp_all
  have mv: "strip (h(q \<mapsto> set_index (int ?i) d)) = strip h"
    "\<exists>d'. (h(q \<mapsto> set_index (int ?i) d)) p = Some d' \<and> 0 \<le> index d'"
    using q(2) assms(2) e by (auto simp: poll_entry_def)
  show ?thesis
  proof (cases "?i = ?l")
    case True
    then have "slot_fd (?fds ! ?l) = chan_fd c" using poll_entry_slot [OF e] by simp
    then have "q = p" "d = c" using q assms(2,3) by auto
    then have "h(q \<mapsto> set_index (int ?i) d) = h" using q(2,3) True by (auto simp: set_index_def)
    moreover have "poll_removeChannel True p (h, ps) = Inr (h, ?ps)"
      using assms e True il by (simp add: poll_removeChannel_def Let_def poll_entry_def isNoneEvent_def kNoneEvent_def)
    ultimately show ?thesis using inv post mv by auto
  next
    case False
    then have "slot_fd (?fds ! ?l) \<noteq> chan_fd c" using q assms(2,3) by force
    then have "poll_removeChannel True p (h, ps) = Inr (h(q \<mapsto> set_index (int ?i) d), ?ps)"
      using assms e False il q
      by (simp add: poll_removeChannel_def Let_def poll_entry_def isNoneEvent_def kNoneEvent_def slot_fd_def)
    then show ?thesis using inv post mv by auto
  qed
qed

interpretation pollp: io_poller poll_inv "\<lambda>ps. map_of (pp_channels ps)" poll_interest
  "poll_updateChannel True" "poll_removeChannel True"
proof unfold_locales
  fix h h' :: chan_heap and ps p and c c' :: channel and f
  assume inv: "poll_inv h ps"
  show "\<exists>c. h p = Some c \<and> chan_fd c = f \<and> valid_events (events c)"
    if "map_of (pp_channels ps) f = Some p"
    using poll_inv_entry [OF inv that] by (auto simp: poll_entry_def)
  show "poll_interest ps f =
      (case map_of (pp_channels ps) f of None \<Rightarrow> 0 | Some p \<Rightarrow> events (the (h p)))"
    by (rule poll_inv_interest [OF inv])
  show "poll_inv h' ps"
    if "\<And>f p c. map_of (pp_channels ps) f = Some p \<Longrightarrow> h p = Some c \<Longrightarrow> \<exists>c'. h' p = Some c' \<and> same_poll_view c c'"
    by (rule poll_inv_frame [OF inv that])
next
  fix h :: chan_heap and ps p and c c' :: channel
  assume "poll_inv h ps" "h p = Some c" "0 \<le> chan_fd c" "chan_fd c' = chan_fd c" "index c' = index c"
    "valid_events (events c')"
    "map_of (pp_channels ps) (chan_fd c) = Some p \<or>
       map_of (pp_channels ps) (chan_fd c) = None \<and> index c = -1 \<and> events c' \<noteq> 0"
  then show "\<exists>h' ps'. poll_updateChannel True p (h(p \<mapsto> c'), ps) = Inr (h', ps') \<and> poll_inv h' ps' \<and>
      map_of (pp_channels ps') = (map_of (pp_channels ps))(chan_fd c \<mapsto> p) \<and> strip h' = strip (h(p \<mapsto> c'))"
    using poll_add_ok [of h ps p c c'] poll_mod_ok [of h ps p c c'] by auto
next
  fix h :: chan_heap and ps p and c :: channel
  assume "poll_inv h ps" "h p = Some c" "map_of (pp_channels ps) (chan_fd c) = Some p" "events c = 0"
  then show "\<exists>h' ps'. poll_removeChannel True p (h, ps) = Inr (h', ps') \<and> poll_inv h' ps' \<and>
      map_of (pp_channels ps') = (map_of (pp_channels ps))(chan_fd c := None) \<and> strip h' = strip h"
    using poll_remove_ok [of h ps p c] by auto
qed

subsection \<open>So does the poller chosen at run time\<close>

definition poller_inv :: "chan_heap \<Rightarrow> poller \<Rightarrow> bool" where
  "poller_inv h ps = (case ps of EPollPoller e \<Rightarrow> epoll_inv h e | PollPoller q \<Rightarrow> poll_inv h q)"

definition poller_interest :: "poller \<Rightarrow> int \<Rightarrow> events_mask" where
  "poller_interest ps = (case ps of EPollPoller e \<Rightarrow> epoll_interest e | PollPoller q \<Rightarrow> poll_interest q)"

lemmas poller_defs = poller_inv_def poller_interest_def poller_channels_def poller_updateChannel_def
  poller_removeChannel_def

interpretation plr: io_poller poller_inv "\<lambda>ps. map_of (poller_channels ps)" poller_interest
  "poller_updateChannel True" "poller_removeChannel True"
proof unfold_locales
  fix h h' :: chan_heap and ps p and c c' :: channel and f
  assume inv: "poller_inv h ps"
  show "\<exists>c. h p = Some c \<and> chan_fd c = f \<and> valid_events (events c)"
    if "map_of (poller_channels ps) f = Some p"
    using inv that epoll.inv_chan pollp.inv_chan by (cases ps) (auto simp: poller_defs)
  show "poller_interest ps f =
      (case map_of (poller_channels ps) f of None \<Rightarrow> 0 | Some p \<Rightarrow> events (the (h p)))"
    using inv epoll.inv_interest pollp.inv_interest by (cases ps) (auto simp: poller_defs)
  show "poller_inv h' ps"
    if "\<And>f p c. map_of (poller_channels ps) f = Some p \<Longrightarrow> h p = Some c \<Longrightarrow> \<exists>c'. h' p = Some c' \<and> same_poll_view c c'"
    using inv that epoll.inv_frame [of h _ h'] pollp.inv_frame [of h _ h'] by (cases ps) (auto simp: poller_defs)
next
  fix h :: chan_heap and ps p and c c' :: channel
  assume "poller_inv h ps" "h p = Some c" "0 \<le> chan_fd c" "chan_fd c' = chan_fd c" "index c' = index c"
    "valid_events (events c')"
    "map_of (poller_channels ps) (chan_fd c) = Some p \<or>
       map_of (poller_channels ps) (chan_fd c) = None \<and> index c = -1 \<and> events c' \<noteq> 0"
  then show "\<exists>h' ps'. poller_updateChannel True p (h(p \<mapsto> c'), ps) = Inr (h', ps') \<and> poller_inv h' ps' \<and>
      map_of (poller_channels ps') = (map_of (poller_channels ps))(chan_fd c \<mapsto> p) \<and> strip h' = strip (h(p \<mapsto> c'))"
    using epoll.update_ok [of h _ p c c'] pollp.update_ok [of h _ p c c']
    by (cases ps) (fastforce simp: poller_defs)+
next
  fix h :: chan_heap and ps p and c :: channel
  assume "poller_inv h ps" "h p = Some c" "map_of (poller_channels ps) (chan_fd c) = Some p" "events c = 0"
  then show "\<exists>h' ps'. poller_removeChannel True p (h, ps) = Inr (h', ps') \<and> poller_inv h' ps' \<and>
      map_of (poller_channels ps') = (map_of (poller_channels ps))(chan_fd c := None) \<and> strip h' = strip h"
    using epoll.remove_ok [of h _ p c] pollp.remove_ok [of h _ p c]
    by (cases ps) (fastforce simp: poller_defs)+
qed

lemma newDefaultPoller_inv: "poller_inv h (newDefaultPoller b)"
  by (simp add: newDefaultPoller_def poller_inv_def epoll_inv_def poll_inv_def new_epoll_poller_def new_poll_poller_def)

section \<open>Properties\<close>

text \<open>C21. Watching a new channel, then asking for no events, then removing it works in either poller
  and leaves the set of channels and the masks watched for every descriptor as they were.\<close>

theorem poller_register_cycle:
  assumes "poller_inv h ps" "h p = Some c" "0 \<le> chan_fd c" "index c = -1"
    "map_of (poller_channels ps) (chan_fd c) = None" "valid_events ev" "ev \<noteq> 0"
  shows "\<exists>h1 ps1 c1 h2 ps2 h3 ps3.
     poller_updateChannel True p (h(p \<mapsto> c\<lparr>events := ev\<rparr>), ps) = Inr (h1, ps1) \<and>
     poller_interest ps1 (chan_fd c) = ev \<and> h1 p = Some c1 \<and> events c1 = ev \<and>
     poller_updateChannel True p (h1(p \<mapsto> c1\<lparr>events := 0\<rparr>), ps1) = Inr (h2, ps2) \<and>
     poller_interest ps2 (chan_fd c) = 0 \<and>
     poller_removeChannel True p (h2, ps2) = Inr (h3, ps3) \<and> poller_inv h3 ps3 \<and>
     map_of (poller_channels ps3) = map_of (poller_channels ps) \<and> poller_interest ps3 = poller_interest ps"
  by (rule plr.register_cycle [OF assms])

theorem poller_register_cycle_witness:
  "\<exists>h1 ps1 c1 h2 ps2 h3 ps3.
     poller_updateChannel True 7 ([7 \<mapsto> (new_channel 1 5)\<lparr>events := 3\<rparr>], newDefaultPoller True) = Inr (h1, ps1) \<and>
     poller_interest ps1 5 = 3 \<and> h1 7 = Some c1 \<and> events c1 = 3 \<and>
     poller_updateChannel True 7 (h1(7 \<mapsto> c1\<lparr>events := 0\<rparr>), ps1) = Inr (h2, ps2) \<and>
     poller_interest ps2 5 = 0 \<and>
     poller_removeChannel True 7 (h2, ps2) = Inr (h3, ps3) \<and> poller_inv h3 ps3 \<and>
     map_of (poller_channels ps3) = Map.empty \<and> poller_interest ps3 = poller_interest (newDefaultPoller True)"
  using poller_register_cycle [of "[7 \<mapsto> new_channel 1 5]" "newDefaultPoller True" 7 "new_channel 1 5" 3]
    newDefaultPoller_inv [of "[7 \<mapsto> new_channel 1 5]" True]
  by (simp add: new_channel_def poller_channels_def newDefaultPoller_def new_poll_poller_def)

subsection \<open>Reporting ready channels\<close>

lemma epoll_fill_spec:
  assumes "distinct (map snd evs)"
    and "\<And>ev p. (ev, p) \<in> set evs \<Longrightarrow> \<exists>c. h p = Some c \<and> map_of (ep_channels ps) (chan_fd c) = Some p"
  shows "epoll_fill evs (h, ps) active =
    Inr (\<lambda>q. case map_of (map (\<lambda>(ev, p). (p, ev)) evs) q of
                None \<Rightarrow> h q | Some ev \<Rightarrow> map_option (set_revents ev) (h q), active @ map snd evs)"
  using assms
proof (induction evs arbitrary: h active)
  case Nil
  then show ?case by simp
next
  case (Cons x evs)
  obtain ev p where x: "x = (ev, p)" by (cases x)
  with Cons.prems(2) obtain c where c: "h p = Some c" "map_of (ep_channels ps) (chan_fd c) = Some p" by auto
  have new: "map_of (map (\<lambda>(ev, p). (p, ev)) evs) p = None"
    using Cons.prems(1) x by (force simp: map_of_eq_None_iff)
  have "epoll_fill evs (h(p \<mapsto> set_revents ev c), ps) (active @ [p]) =
    Inr (\<lambda>q. case map_of (map (\<lambda>(ev, p). (p, ev)) evs) q of
                None \<Rightarrow> (h(p \<mapsto> set_revents ev c)) q
              | Some ev' \<Rightarrow> map_option (set_revents ev') ((h(p \<mapsto> set_revents ev c)) q),
         (active @ [p]) @ map snd evs)"
  proof (rule Cons.IH)
    fix ev' p' assume "(ev', p') \<in> set evs"
    with Cons.prems(2) [of ev' p'] show "\<exists>d. (h(p \<mapsto> set_revents ev c)) p' = Some d \<and> map_of (ep_channels ps) (chan_fd d) = Some p'"
      using c by (auto simp: set_revents_def)
  qed (use Cons.prems(1) x in simp)
  then show ?case using c new x by (auto simp: fun_eq_iff split: option.split)
qed

lemma length_poll_trace_le:
  assumes "\<And>fd p. (fd, p) \<in> set chs \<Longrightarrow> \<bar>fd\<bar> < 2 ^ 31 + 1"
  shows "length (poll_trace chs) \<le> 22 * length chs"
  using assms
proof (induction chs)
  case (Cons x chs)
  then have "length (dec_int (fst x)) \<le> 11" by (intro length_dec_int) (cases x, auto)
  moreover have "length (poll_trace chs) \<le> 22 * length chs" by (rule Cons.IH) (use Cons.prems in fastforce)
  ultimately show ?case by (auto simp: poll_trace_def split_beta)
qed (simp add: poll_trace_def)

lemma length_poll_trace_ge: "12 * length chs \<le> length (poll_trace chs)"
proof (induction chs)
  case (Cons x chs)
  moreover have "0 < length (dec_int (fst x))" by simp
  ultimately show ?case by (auto simp: poll_trace_def split_beta simp del: length_greater_0_conv)
qed (simp add: poll_trace_def)

text \<open>When the kernel reports ready descriptors out of its interest list, \<open>EPollPoller::poll\<close>
  returns exactly their channels in the reported order, with \<open>revents_\<close> set to what was reported and
  nothing else changed; the event array doubles when it was full. At most 186 channels are registered.\<close>

theorem epoll_poll_reports:
  assumes "epoll_inv h ps" "length (ep_channels ps) \<le> 186"
    "\<forall>(fd, p) \<in> set (ep_channels ps). \<bar>fd\<bar> < 2 ^ 31"
    "distinct (map snd evs)" "\<forall>(ev, p) \<in> set evs. \<exists>f m. map_of (ep_kernel ps) f = Some (m, p)"
    "length evs \<le> ep_events_size ps"
  shows "\<exists>h' ps'. epoll_poll (Inr evs) (h, ps) [] = Inr (h', ps', map snd evs) \<and> epoll_inv h' ps' \<and>
    h' = (\<lambda>q. case map_of (map (\<lambda>(ev, p). (p, ev)) evs) q of
                None \<Rightarrow> h q | Some ev \<Rightarrow> map_option (set_revents ev) (h q)) \<and>
    ep_channels ps' = ep_channels ps \<and> ep_kernel ps' = ep_kernel ps \<and>
    ep_events_size ps' = (if evs \<noteq> [] \<and> length evs = ep_events_size ps then 2 else 1) * ep_events_size ps"
proof -
  let ?h' = "\<lambda>q. case map_of (map (\<lambda>(ev, p). (p, ev)) evs) q of
                None \<Rightarrow> h q | Some ev \<Rightarrow> map_option (set_revents ev) (h q)"
  let ?ps' = "if evs \<noteq> [] \<and> length evs = ep_events_size ps
     then ps\<lparr>ep_events_size := ep_events_size ps * 2\<rparr> else ps"
  have reg: "\<exists>c. h p = Some c \<and> map_of (ep_channels ps) (chan_fd c) = Some p" if ev: "(ev, p) \<in> set evs" for ev p
  proof -
    from ev assms(5) obtain f m where f: "map_of (ep_kernel ps) f = Some (m, p)" by blast
    with epoll_invD(2) [OF assms(1), of f] obtain q where q: "map_of (ep_channels ps) f = Some q" by fastforce
    from epoll_invD(1) [OF assms(1) q] f q show ?thesis by (auto simp: epoll_entry_def)
  qed
  have "length (poll_trace (ep_channels ps)) \<le> 22 * length (ep_channels ps)"
    by (rule length_poll_trace_le) (use assms(3) in fastforce)
  then have "epoll_poll (Inr evs) (h, ps) [] = Inr (?h', ?ps', map snd evs)"
    using assms(2,6) epoll_fill_spec [OF assms(4) reg, where active = "[]"]
    by (auto simp: epoll_poll_def tmpbuffer_size_def epoll_fillActiveChannels_def Let_def)
  moreover have "epoll_inv ?h' ps"
    by (rule epoll.inv_frame [OF assms(1)]) (auto simp: same_poll_view_def set_revents_def split: option.split)
  then have "epoll_inv ?h' ?ps'" by (auto simp: epoll_inv_def epoll_entry_def cong: option.case_cong)
  ultimately show ?thesis by auto
qed

text \<open>The trace text of \<open>EPollPoller::poll\<close> overruns its array as soon as 342 channels are registered,
  whatever the descriptors are and whatever the kernel reports.\<close>

theorem epoll_poll_overflow:
  "342 \<le> length (ep_channels ps) \<Longrightarrow> epoll_poll waited (h, ps) active = Inl OutOfBounds"
  using length_poll_trace_ge [of "ep_channels ps"] by (auto simp: epoll_poll_def tmpbuffer_size_def)

theorem epoll_poll_overflow_witness:
  "epoll_poll (Inr []) (Map.empty, new_epoll_poller\<lparr>ep_channels := map (\<lambda>n. (int n, n)) [0..<342]\<rparr>) [] = Inl OutOfBounds"
  by (rule epoll_poll_overflow) simp

theorem epoll_poll_reports_witness:
  "\<exists>h' ps'. epoll_poll (Inr [(POLLIN, 7)])
     ([7 \<mapsto> (new_channel 1 5)\<lparr>events := 3, index := kAdded\<rparr>],
      \<lparr>ep_channels = [(5, 7)], ep_kernel = [(5, 3, 7)], ep_events_size = 1\<rparr>) [] = Inr (h', ps', [7]) \<and>
    map_option revents (h' 7) = Some POLLIN \<and> ep_events_size ps' = 2"
proof -
  let ?h = "[7 \<mapsto> (new_channel 1 5)\<lparr>events := 3, index := kAdded\<rparr>]"
  let ?ps = "\<lparr>ep_channels = [(5, 7)], ep_kernel = [(5, 3, 7)], ep_events_size = 1\<rparr> :: epoll_poller"
  have "epoll_inv ?h ?ps" by (auto simp: epoll_inv_def epoll_entry_def new_channel_def)
  moreover have "\<exists>f m. map_of (ep_kernel ?ps) f = Some (m, 7)" by (rule exI [of _ 5]) simp
  ultimately obtain h' ps' where "epoll_poll (Inr [(POLLIN, 7)]) (?h, ?ps) [] = Inr (h', ps', map snd [(POLLIN, 7)])"
    "ep_events_size ps' = (if [(POLLIN, 7::nat)] \<noteq> [] \<and> length [(POLLIN, 7::nat)] = ep_events_size ?ps then 2 else 1) * ep_events_size ?ps"
    "h' = (\<lambda>q. case map_of (map (\<lambda>(ev, p). (p, ev)) [(POLLIN, 7)]) q of
                None \<Rightarrow> ?h q | Some ev \<Rightarrow> map_option (set_revents ev) (?h q))"
    using epoll_poll_reports [of ?h ?ps "[(POLLIN, 7)]"] by auto
  then show ?thesis by (intro exI [of _ h'] exI [of _ ps']) (simp add: set_revents_def)
qed

subsection \<open>Where the poll poller stops the program\<close>

text \<open>In the poll poller a channel that was registered and removed still carries its old array
  index, so registering it again hits an assertion; with epoll the second registration succeeds.\<close>

theorem poll_reregister_aborts:
  assumes "poll_inv h ps" "h p = Some c" "map_of (pp_channels ps) (chan_fd c) = Some p" "events c = 0"
  shows "\<exists>h1 ps1 c1. poll_removeChannel True p (h, ps) = Inr (h1, ps1) \<and> h1 p = Some c1 \<and>
    poll_updateChannel True p (h1(p \<mapsto> c1\<lparr>events := ev\<rparr>), ps1) = Inl AssertFail"
proof -
  from poll_remove_ok [OF assms] obtain h1 ps1 where r: "poll_removeChannel True p (h, ps) = Inr (h1, ps1)"
    "map_of (pp_channels ps1) = (map_of (pp_channels ps))(chan_fd c := None)" "strip h1 = strip h"
    "\<exists>d. h1 p = Some d \<and> 0 \<le> index d" by auto
  from strip_same [OF r(3) assms(2)] obtain i where i: "h1 p = Some (set_index i c)" by blast
  with r(4) have "0 \<le> i" by auto
  then show ?thesis using r i by (auto simp: poll_updateChannel_def set_index_def)
qed

theorem poll_reregister_aborts_witness:
  "\<exists>h1 ps1 c1. poll_removeChannel True 7 ([7 \<mapsto> (new_channel 1 5)\<lparr>index := 0\<rparr>],
      \<lparr>pp_channels = [(5, 7)], pollfds = [\<lparr>pfd_fd = -6, pfd_events = 0, pfd_revents = 0\<rparr>]\<rparr>) = Inr (h1, ps1) \<and>
    h1 7 = Some c1 \<and> poll_updateChannel True 7 (h1(7 \<mapsto> c1\<lparr>events := 3\<rparr>), ps1) = Inl AssertFail"
  by (rule poll_reregister_aborts) (auto simp: poll_inv_def poll_entry_def new_channel_def slot_fd_def)

text \<open>A channel whose first update asks for no events (\<open>disableAll\<close> on a channel never enabled)
  is entered in the array of the poll poller as if it were watched, and removing it then hits an assertion.\<close>

theorem poll_disabled_first_aborts:
  assumes "h p = Some c" "events c = 0" "index c < 0" "map_of (pp_channels ps) (chan_fd c) = None" "0 \<le> chan_fd c"
  shows "\<exists>h1 ps1. poll_updateChannel True p (h, ps) = Inr (h1, ps1) \<and>
    poll_removeChannel True p (h1, ps1) = Inl AssertFail"
  using assms
  by (auto simp: poll_updateChannel_def poll_removeChannel_def Let_def isNoneEvent_def kNoneEvent_def nth_append)

theorem poll_disabled_first_aborts_witness:
  "\<exists>h1 ps1. poll_updateChannel True 7 ([7 \<mapsto> new_channel 1 5], new_poll_poller) = Inr (h1, ps1) \<and>
    poll_removeChannel True 7 (h1, ps1) = Inl AssertFail"
  by (rule poll_disabled_first_aborts) (auto simp: new_channel_def new_poll_poller_def)

end
