(* ===== verification/Timer_Queue.thy ===== *)
theory Timer_Queue
  imports Timestamps Pollers
begin

text \<open>
  Timers (\<open>src/muduo/net/Timer.h\<close>, \<open>Timer.cc\<close>, \<open>TimerId.h\<close>) and the queue that runs them from a
  \<open>timerfd\<close> (\<open>TimerQueue.h\<close>, \<open>TimerQueue.cc\<close>). Timer objects live in a heap of their own; a
  \<open>std::set\<close> is the sorted list of its elements. The current time is an argument wherever the code
  asks for it, the \<open>timerfd\<close> is the delay it was last set to, and running a callback is a parameter.
\<close>

section \<open>Timers\<close>

record 'cb timer =
  callback :: 'cb
  expiration :: Timestamp
  interval :: rat
  repeat :: bool
  sequence :: int

definition new_Timer :: "int \<Rightarrow> 'cb \<Rightarrow> Timestamp \<Rightarrow> rat \<Rightarrow> 'cb timer" where
  "new_Timer s_numCreated cb when intv =
     \<lparr>callback = cb, expiration = when, interval = intv, repeat = (intv > 0), sequence = s_numCreated + 1\<rparr>"

definition restart :: "Timestamp \<Rightarrow> 'cb timer \<Rightarrow> 'cb timer" where
  "restart now t = t\<lparr>expiration := if repeat t then addTime now (interval t) else invalid_Timestamp\<rparr>"

section \<open>The queue\<close>

type_synonym entry = "Timestamp \<times> nat"
type_synonym active_timer = "nat \<times> int"

record 'cb timer_queue =
  tq_inLoop :: bool
  tq_heap :: "nat \<rightharpoonup> 'cb timer"
  tq_numCreated :: int
  timers :: "entry list"
  activeTimers :: "active_timer list"
  callingExpiredTimers :: bool
  cancelingTimers :: "active_timer list"
  timerfd :: "(int \<times> int) option"     \<comment> \<open>seconds and nanoseconds the descriptor was last set to\<close>

definition new_TimerQueue :: "'cb timer_queue" where
  "new_TimerQueue = \<lparr>tq_inLoop = True, tq_heap = Map.empty, tq_numCreated = 0, timers = [], activeTimers = [],
     callingExpiredTimers = False, cancelingTimers = [], timerfd = None\<rparr>"

definition UINTPTR_MAX :: nat where "UINTPTR_MAX = 2 ^ 64 - 1"

definition timer_at :: "nat \<Rightarrow> 'cb timer_queue \<Rightarrow> 'cb timer result" where
  "timer_at p s = (case tq_heap s p of None \<Rightarrow> Inl UseAfterFree | Some t \<Rightarrow> Inr t)"

definition howMuchTimeFromNow :: "Timestamp \<Rightarrow> Timestamp \<Rightarrow> int \<times> int" where
  "howMuchTimeFromNow now when =
     (let d = microSecondsSinceEpoch when - microSecondsSinceEpoch now;
          microseconds = if d < 100 then 100 else d
      in (cdiv microseconds kMicroSecondsPerSecond, cmod microseconds kMicroSecondsPerSecond * 1000))"

definition resetTimerfd :: "Timestamp \<Rightarrow> Timestamp \<Rightarrow> 'cb timer_queue \<Rightarrow> 'cb timer_queue" where
  "resetTimerfd now expir s = s\<lparr>timerfd := Some (howMuchTimeFromNow now expir)\<rparr>"

definition tq_insert :: "nat \<Rightarrow> 'cb timer_queue \<Rightarrow> (bool \<times> 'cb timer_queue) result" where
  "tq_insert p s =
     assert_loop (tq_inLoop s) (assert_ok (length (timers s) = length (activeTimers s))
      (rbind (timer_at p s) (\<lambda>t.
        let when = expiration t;
            earliestChanged = (case timers s of [] \<Rightarrow> True | e # _ \<Rightarrow> when < fst e)
        in assert_ok ((when, p) \<notin> set (timers s))
            (let s1 = s\<lparr>timers := insort (when, p) (timers s)\<rparr> in
             assert_ok ((p, sequence t) \<notin> set (activeTimers s1))
              (let s2 = s1\<lparr>activeTimers := insort (p, sequence t) (activeTimers s1)\<rparr> in
               assert_ok (length (timers s2) = length (activeTimers s2)) (Inr (earliestChanged, s2)))))))"

definition addTimerInLoop :: "Timestamp \<Rightarrow> nat \<Rightarrow> 'cb timer_queue \<Rightarrow> 'cb timer_queue result" where
  "addTimerInLoop now p s =
     assert_loop (tq_inLoop s) (rbind (tq_insert p s) (\<lambda>(earliestChanged, s').
       if earliestChanged
       then rbind (timer_at p s') (\<lambda>t. Inr (resetTimerfd now (expiration t) s'))
       else Inr s'))"

text \<open>\<open>addTimer\<close>: the allocation at the free address \<open>p\<close>, and the whole call in the loop's thread.\<close>

definition alloc_timer :: "nat \<Rightarrow> 'cb \<Rightarrow> Timestamp \<Rightarrow> rat \<Rightarrow> 'cb timer_queue \<Rightarrow> 'cb timer_queue" where
  "alloc_timer p cb when intv s =
     s\<lparr>tq_heap := (tq_heap s)(p \<mapsto> new_Timer (tq_numCreated s) cb when intv),
       tq_numCreated := tq_numCreated s + 1\<rparr>"

definition addTimer :: "Timestamp \<Rightarrow> nat \<Rightarrow> 'cb \<Rightarrow> Timestamp \<Rightarrow> rat \<Rightarrow> 'cb timer_queue \<Rightarrow>
    ('cb timer_queue \<times> active_timer) result" where
  "addTimer now p cb when intv s =
     (let s1 = alloc_timer p cb when intv s in
      rbind (addTimerInLoop now p s1) (\<lambda>s2. rbind (timer_at p s2) (\<lambda>t. Inr (s2, (p, sequence t)))))"

text \<open>The interface the loop offers for timers; \<open>now0\<close> is the time at which the call is made.\<close>

definition runAt :: "Timestamp \<Rightarrow> nat \<Rightarrow> Timestamp \<Rightarrow> 'cb \<Rightarrow> 'cb timer_queue \<Rightarrow>
    ('cb timer_queue \<times> active_timer) result" where
  "runAt now p time cb s = addTimer now p cb time 0 s"

definition runAfter :: "Timestamp \<Rightarrow> Timestamp \<Rightarrow> nat \<Rightarrow> rat \<Rightarrow> 'cb \<Rightarrow> 'cb timer_queue \<Rightarrow>
    ('cb timer_queue \<times> active_timer) result" where
  "runAfter now0 now p delay cb s = runAt now p (addTime now0 delay) cb s"

definition runEvery :: "Timestamp \<Rightarrow> Timestamp \<Rightarrow> nat \<Rightarrow> rat \<Rightarrow> 'cb \<Rightarrow> 'cb timer_queue \<Rightarrow>
    ('cb timer_queue \<times> active_timer) result" where
  "runEvery now0 now p intv cb s = addTimer now p cb (addTime now0 intv) intv s"

definition cancelInLoop :: "active_timer \<Rightarrow> 'cb timer_queue \<Rightarrow> 'cb timer_queue result" where
  "cancelInLoop tid s =
     assert_loop (tq_inLoop s) (assert_ok (length (timers s) = length (activeTimers s))
      (rbind
        (if tid \<in> set (activeTimers s) then
           rbind (timer_at (fst tid) s) (\<lambda>t.
             assert_ok ((expiration t, fst tid) \<in> set (timers s))
               (Inr (s\<lparr>timers := remove1 (expiration t, fst tid) (timers s),
                       tq_heap := (tq_heap s)(fst tid := None),
                       activeTimers := remove1 tid (activeTimers s)\<rparr>)))
         else if callingExpiredTimers s then
           Inr (s\<lparr>cancelingTimers :=
             if tid \<in> set (cancelingTimers s) then cancelingTimers s else insort tid (cancelingTimers s)\<rparr>)
         else Inr s)
        (\<lambda>s'. assert_ok (length (timers s') = length (activeTimers s')) (Inr s'))))"

fun erase_active :: "entry list \<Rightarrow> 'cb timer_queue \<Rightarrow> 'cb timer_queue result" where
  "erase_active [] s = Inr s"
| "erase_active (e # es) s =
     rbind (timer_at (snd e) s) (\<lambda>t.
       assert_ok ((snd e, sequence t) \<in> set (activeTimers s))
         (erase_active es (s\<lparr>activeTimers := remove1 (snd e, sequence t) (activeTimers s)\<rparr>)))"

definition getExpired :: "Timestamp \<Rightarrow> 'cb timer_queue \<Rightarrow> (entry list \<times> 'cb timer_queue) result" where
  "getExpired now s =
     assert_ok (length (timers s) = length (activeTimers s))
      (let sentry = (now, UINTPTR_MAX);
           expired = takeWhile (\<lambda>e. e < sentry) (timers s);
           rest = dropWhile (\<lambda>e. e < sentry) (timers s)
       in assert_ok (case rest of [] \<Rightarrow> True | e # _ \<Rightarrow> now < fst e)
            (rbind (erase_active expired (s\<lparr>timers := rest\<rparr>)) (\<lambda>s'.
               assert_ok (length (timers s') = length (activeTimers s')) (Inr (expired, s')))))"

definition run_timer :: "('cb \<Rightarrow> 'cb timer_queue \<Rightarrow> 'cb timer_queue result) \<Rightarrow> entry \<Rightarrow>
    'cb timer_queue \<Rightarrow> 'cb timer_queue result" where
  "run_timer run e s = rbind (timer_at (snd e) s) (\<lambda>t. run (callback t) s)"

definition reset_one :: "Timestamp \<Rightarrow> entry \<Rightarrow> 'cb timer_queue \<Rightarrow> 'cb timer_queue result" where
  "reset_one now e s =
     rbind (timer_at (snd e) s) (\<lambda>t.
       if repeat t \<and> (snd e, sequence t) \<notin> set (cancelingTimers s)
       then rbind (tq_insert (snd e) (s\<lparr>tq_heap := (tq_heap s)(snd e \<mapsto> restart now t)\<rparr>)) (\<lambda>(_, s'). Inr s')
       else Inr (s\<lparr>tq_heap := (tq_heap s)(snd e := None)\<rparr>))"

definition reset :: "entry list \<Rightarrow> Timestamp \<Rightarrow> Timestamp \<Rightarrow> 'cb timer_queue \<Rightarrow> 'cb timer_queue result" where
  "reset expired now now' s =
     rbind (rfold (reset_one now) expired s) (\<lambda>s1.
     rbind (case timers s1 of [] \<Rightarrow> Inr invalid_Timestamp | e # _ \<Rightarrow>
              rbind (timer_at (snd e) s1) (\<lambda>t. Inr (expiration t))) (\<lambda>nextExpire.
     Inr (if valid_Timestamp nextExpire then resetTimerfd now' nextExpire s1 else s1)))"

text \<open>\<open>handleRead\<close>: \<open>now\<close> is the time it starts at, \<open>now'\<close> the time at which it sets the descriptor again.\<close>

definition tq_handleRead :: "('cb \<Rightarrow> 'cb timer_queue \<Rightarrow> 'cb timer_queue result) \<Rightarrow> Timestamp \<Rightarrow> Timestamp \<Rightarrow>
    'cb timer_queue \<Rightarrow> 'cb timer_queue result" where
  "tq_handleRead run now now' s =
     assert_loop (tq_inLoop s) (rbind (getExpired now s) (\<lambda>(expired, s1).
     rbind (rfold (run_timer run) expired (s1\<lparr>callingExpiredTimers := True, cancelingTimers := []\<rparr>)) (\<lambda>s2.
     reset expired now now' (s2\<lparr>callingExpiredTimers := False\<rparr>))))"

text \<open>The destructor deletes the timers that are still waiting.\<close>

definition destroy_TimerQueue :: "'cb timer_queue \<Rightarrow> 'cb timer_queue result" where
  "destroy_TimerQueue s =
     rfold (\<lambda>e s. rbind (timer_at (snd e) s) (\<lambda>_. Inr (s\<lparr>tq_heap := (tq_heap s)(snd e := None)\<rparr>))) (timers s) s"

section \<open>The invariant\<close>

text \<open>
  \<open>F\<close> holds the timers the queue does not hold at the moment: the ones being run and the ones
  another thread has allocated and not yet queued. The two sets hold exactly the other timers of
  the heap, so no timer is lost and no entry dangles.
\<close>

definition tq_inv :: "nat set \<Rightarrow> 'cb timer_queue \<Rightarrow> bool" where
  "tq_inv F s \<longleftrightarrow> tq_inLoop s \<and> sorted (timers s) \<and> distinct (timers s) \<and>
     sorted (activeTimers s) \<and> distinct (activeTimers s) \<and>
     set (timers s) = {(expiration t, p) | p t. tq_heap s p = Some t \<and> p \<notin> F} \<and>
     set (activeTimers s) = {(p, sequence t) | p t. tq_heap s p = Some t \<and> p \<notin> F} \<and>
     F \<subseteq> dom (tq_heap s) \<and> dom (tq_heap s) \<subseteq> {..<UINTPTR_MAX} \<and>
     (\<forall>p t. tq_heap s p = Some t \<longrightarrow> sequence t \<le> tq_numCreated s)"

lemma tq_invD:
  assumes "tq_inv F s"
  shows "tq_inLoop s" "sorted (timers s)" "distinct (timers s)" "sorted (activeTimers s)" "distinct (activeTimers s)"
    "(w, p) \<in> set (timers s) \<longleftrightarrow> (\<exists>t. tq_heap s p = Some t \<and> p \<notin> F \<and> w = expiration t)"
    "(p, q) \<in> set (activeTimers s) \<longleftrightarrow> (\<exists>t. tq_heap s p = Some t \<and> p \<notin> F \<and> q = sequence t)"
    "p \<in> F \<Longrightarrow> \<exists>t. tq_heap s p = Some t" "tq_heap s p = Some t \<Longrightarrow> p < UINTPTR_MAX"
    "tq_heap s p = Some t \<Longrightarrow> sequence t \<le> tq_numCreated s"
  using assms unfolding tq_inv_def by auto

lemma tq_invI:
  assumes "tq_inLoop s" "sorted (timers s)" "distinct (timers s)" "sorted (activeTimers s)" "distinct (activeTimers s)"
    "\<And>w p. (w, p) \<in> set (timers s) \<longleftrightarrow> (\<exists>t. tq_heap s p = Some t \<and> p \<notin> F \<and> w = expiration t)"
    "\<And>p q. (p, q) \<in> set (activeTimers s) \<longleftrightarrow> (\<exists>t. tq_heap s p = Some t \<and> p \<notin> F \<and> q = sequence t)"
    "\<And>p. p \<in> F \<Longrightarrow> \<exists>t. tq_heap s p = Some t" "\<And>p t. tq_heap s p = Some t \<Longrightarrow> p < UINTPTR_MAX"
    "\<And>p t. tq_heap s p = Some t \<Longrightarrow> sequence t \<le> tq_numCreated s"
  shows "tq_inv F s"
  using assms unfolding tq_inv_def by auto

lemma tq_len:
  assumes "tq_inv F s"
  shows "length (timers s) = length (activeTimers s)"
proof -
  let ?A = "dom (tq_heap s) - F"
  have "set (timers s) = (\<lambda>p. (expiration (the (tq_heap s p)), p)) ` ?A"
    using tq_invD(6) [OF assms] by (force simp: image_iff)
  moreover have "set (activeTimers s) = (\<lambda>p. (p, sequence (the (tq_heap s p)))) ` ?A"
    using tq_invD(7) [OF assms] by (force simp: image_iff)
  ultimately have "card (set (timers s)) = card (set (activeTimers s))"
    by (simp add: card_image inj_on_def)
  then show ?thesis using tq_invD(3,5) [OF assms] by (simp add: distinct_card)
qed

text \<open>What the operations leave alone.\<close>

definition tq_keeps :: "nat set \<Rightarrow> 'cb timer_queue \<Rightarrow> 'cb timer_queue \<Rightarrow> bool" where
  "tq_keeps F s s' \<longleftrightarrow> (\<forall>p \<in> F. tq_heap s' p = tq_heap s p) \<and> callingExpiredTimers s' = callingExpiredTimers s \<and>
     set (cancelingTimers s) \<subseteq> set (cancelingTimers s') \<and> tq_numCreated s \<le> tq_numCreated s'"

lemma tq_keeps_refl [simp]: "tq_keeps F s s"
  by (simp add: tq_keeps_def)

lemma tq_keeps_trans: "tq_keeps F s s' \<Longrightarrow> tq_keeps F s' s'' \<Longrightarrow> tq_keeps F s s''"
  by (auto simp: tq_keeps_def)

lemma tq_insert_ok:
  assumes "tq_inv F s" "p \<in> F"
  obtains t s' where "tq_heap s p = Some t" "tq_inv (F - {p}) s'"
    "tq_insert p s = Inr (\<forall>e \<in> set (timers s). expiration t < fst e, s')"
    "s' = s\<lparr>timers := insort (expiration t, p) (timers s), activeTimers := insort (p, sequence t) (activeTimers s)\<rparr>"
proof -
  note inv = tq_invD [OF assms(1)]
  from inv(8) [OF assms(2)] obtain t where t: "tq_heap s p = Some t" by blast
  let ?s = "s\<lparr>timers := insort (expiration t, p) (timers s), activeTimers := insort (p, sequence t) (activeTimers s)\<rparr>"
  have new: "(w, p) \<notin> set (timers s)" "(p, q) \<notin> set (activeTimers s)" for w q
    using inv(6,7) assms(2) by auto
  have "tq_inv (F - {p}) ?s"
    using inv new t assms(2) by (intro tq_invI) (auto simp: sorted_insort distinct_insort set_insort_key)
  moreover have "(case timers s of [] \<Rightarrow> True | e # _ \<Rightarrow> expiration t < fst e) \<longleftrightarrow> (\<forall>e \<in> set (timers s). expiration t < fst e)"
    using inv(2) by (cases "timers s") (auto simp: less_eq_prod_def intro: less_trans)
  then have "tq_insert p s = Inr (\<forall>e \<in> set (timers s). expiration t < fst e, ?s)"
    using inv(1) tq_len [OF assms(1)] t new by (simp add: tq_insert_def timer_at_def Let_def)
  ultimately show ?thesis using that t by blast
qed

lemma alloc_timer_inv:
  assumes "tq_inv F s" "tq_heap s p = None" "p < UINTPTR_MAX"
  shows "tq_inv (insert p F) (alloc_timer p cb when intv s)"
  using tq_invD [OF assms(1)] assms(2,3)
  by (intro tq_invI) (auto simp: alloc_timer_def new_Timer_def intro: add_increasing2 split: if_splits)

lemma addTimer_ok:
  assumes "tq_inv F s" "tq_heap s p = None" "p < UINTPTR_MAX"
  obtains s' t where "addTimer now p cb when intv s = Inr (s', (p, sequence t))" "tq_inv F s'" "tq_keeps F s s'"
    "t = new_Timer (tq_numCreated s) cb when intv" "tq_heap s' = (tq_heap s)(p \<mapsto> t)"
    "timers s' = insort (when, p) (timers s)" "cancelingTimers s' = cancelingTimers s"
    "timerfd s' = (if \<forall>e \<in> set (timers s). when < fst e then Some (howMuchTimeFromNow now when) else timerfd s)"
proof -
  let ?s1 = "alloc_timer p cb when intv s"
  have nF: "p \<notin> F" using tq_invD(8) [OF assms(1), of p] assms(2) by auto
  from tq_insert_ok [OF alloc_timer_inv [OF assms, of cb "when" intv], of p] obtain t s2 where
    t: "tq_heap ?s1 p = Some t" "tq_inv F s2"
    "tq_insert p ?s1 = Inr (\<forall>e \<in> set (timers ?s1). expiration t < fst e, s2)"
    "s2 = ?s1\<lparr>timers := insort (expiration t, p) (timers ?s1), activeTimers := insort (p, sequence t) (activeTimers ?s1)\<rparr>"
    using nF by auto
  have teq: "t = new_Timer (tq_numCreated s) cb when intv" using t(1) by (simp add: alloc_timer_def)
  define s' where "s' = (if \<forall>e \<in> set (timers s). when < fst e then resetTimerfd now when s2 else s2)"
  have inv': "tq_inv F s'" using t(2) by (auto simp: s'_def resetTimerfd_def tq_inv_def)
  have add: "addTimer now p cb when intv s = Inr (s', (p, sequence t))"
    using t teq tq_invD(1) [OF assms(1)]
    by (auto simp: addTimer_def addTimerInLoop_def s'_def Let_def timer_at_def resetTimerfd_def alloc_timer_def new_Timer_def)
  have keeps: "tq_keeps F s s'"
    using t nF by (auto simp: tq_keeps_def s'_def resetTimerfd_def alloc_timer_def)
  show ?thesis
    by (rule that [OF add inv' keeps teq])
      (use t(4) teq in \<open>auto simp: s'_def resetTimerfd_def alloc_timer_def new_Timer_def\<close>)
qed

lemma cancelInLoop_ok:
  assumes "tq_inv F s"
  obtains s' where "cancelInLoop tid s = Inr s'" "tq_inv F s'" "tq_keeps F s s'"
    "tid \<in> set (activeTimers s) \<Longrightarrow> tq_heap s' = (tq_heap s)(fst tid := None)"
    "tid \<notin> set (activeTimers s) \<Longrightarrow> tq_heap s' = tq_heap s \<and> (callingExpiredTimers s \<longrightarrow> tid \<in> set (cancelingTimers s'))"
    "tid \<notin> set (activeTimers s')"
proof (cases "tid \<in> set (activeTimers s)")
  case True
  note inv = tq_invD [OF assms]
  obtain p q where tid: "tid = (p, q)" by (cases tid)
  with True inv(7) obtain t where t: "tq_heap s p = Some t" "p \<notin> F" "q = sequence t" by auto
  let ?s = "s\<lparr>timers := remove1 (expiration t, p) (timers s), tq_heap := (tq_heap s)(p := None),
     activeTimers := remove1 tid (activeTimers s)\<rparr>"
  have inv': "tq_inv F ?s"
    using inv t tid by (intro tq_invI) (auto simp: sorted_remove1 split: if_splits)
  show ?thesis
    by (rule that [of ?s])
      (use True t tid inv inv' tq_len [OF assms] tq_len [OF inv'] in
        \<open>auto simp: cancelInLoop_def timer_at_def tq_keeps_def\<close>)
next
  case False
  let ?s = "if callingExpiredTimers s then s\<lparr>cancelingTimers :=
     if tid \<in> set (cancelingTimers s) then cancelingTimers s else insort tid (cancelingTimers s)\<rparr> else s"
  have inv': "tq_inv F ?s" using assms by (auto simp: tq_inv_def)
  show ?thesis
    by (rule that [of ?s])
      (use False inv' tq_len [OF assms] tq_invD(1) [OF assms] in
        \<open>auto simp: cancelInLoop_def tq_keeps_def set_insort_key\<close>)
qed

section \<open>What callbacks do to the queue\<close>

text \<open>A callback may add timers and cancel timers, its own included, any number of times.\<close>

inductive tq_user :: "'cb timer_queue \<Rightarrow> 'cb timer_queue \<Rightarrow> bool" where
  tq_done: "tq_user s s"
| tq_add: "tq_user s s1 \<Longrightarrow> tq_heap s1 p = None \<Longrightarrow> p < UINTPTR_MAX \<Longrightarrow>
     addTimer now p cb when intv s1 = Inr (s2, tid) \<Longrightarrow> tq_user s s2"
| tq_cancel: "tq_user s s1 \<Longrightarrow> cancelInLoop tid s1 = Inr s2 \<Longrightarrow> tq_user s s2"

lemma tq_user_inv: "tq_user s s' \<Longrightarrow> tq_inv F s \<Longrightarrow> tq_inv F s' \<and> tq_keeps F s s'"
proof (induction rule: tq_user.induct)
  case (tq_done s)
  then show ?case by simp
next
  case (tq_add s s1 p now cb wh intv s2 tid)
  from tq_add.IH [OF tq_add.prems] have i: "tq_inv F s1" "tq_keeps F s s1" by auto
  obtain s' a where "addTimer now p cb wh intv s1 = Inr (s', a)" "tq_inv F s'" "tq_keeps F s1 s'"
    by (rule addTimer_ok [OF i(1) tq_add.hyps(2,3), of now cb wh intv], rule that, assumption+)
  then show ?case using tq_add.hyps(4) i(2) tq_keeps_trans by auto
next
  case (tq_cancel s s1 tid s2)
  from tq_cancel.IH [OF tq_cancel.prems] have i: "tq_inv F s1" "tq_keeps F s s1" by auto
  obtain s' where "cancelInLoop tid s1 = Inr s'" "tq_inv F s'" "tq_keeps F s1 s'"
    by (rule cancelInLoop_ok [OF i(1), of tid], rule that, assumption+)
  then show ?case using tq_cancel.hyps(2) i(2) tq_keeps_trans by auto
qed

section \<open>Expiry\<close>

lemma erase_active_filter:
  assumes "distinct (map snd es)" "\<And>e. e \<in> set es \<Longrightarrow> \<exists>t. tq_heap s (snd e) = Some t \<and> (snd e, sequence t) \<in> set (activeTimers s)"
    and "distinct (activeTimers s)"
    "\<And>p q t. (p, q) \<in> set (activeTimers s) \<Longrightarrow> tq_heap s p = Some t \<Longrightarrow> q = sequence t"
  shows "erase_active es s = Inr (s\<lparr>activeTimers := filter (\<lambda>a. fst a \<notin> snd ` set es) (activeTimers s)\<rparr>)"
  using assms
proof (induction es arbitrary: s)
  case Nil
  then show ?case by simp
next
  case (Cons e es)
  from Cons.prems(2) [of e] obtain t where t: "tq_heap s (snd e) = Some t" "(snd e, sequence t) \<in> set (activeTimers s)" by auto
  let ?s = "s\<lparr>activeTimers := remove1 (snd e, sequence t) (activeTimers s)\<rparr>"
  have "activeTimers ?s = filter (\<lambda>a. (snd e, sequence t) \<noteq> a) (activeTimers s)"
    using Cons.prems(3) by (simp add: distinct_remove1_removeAll removeAll_filter_not_eq)
  also have "\<dots> = filter (\<lambda>a. fst a \<noteq> snd e) (activeTimers s)"
  proof (rule filter_cong [OF refl])
    fix a assume "a \<in> set (activeTimers s)"
    then show "((snd e, sequence t) \<noteq> a) = (fst a \<noteq> snd e)"
      using Cons.prems(4) [of "fst a" "snd a" t] t(1) by (auto simp: prod_eq_iff)
  qed
  finally have act: "activeTimers ?s = filter (\<lambda>a. fst a \<noteq> snd e) (activeTimers s)" .
  have "erase_active es ?s = Inr (?s\<lparr>activeTimers := filter (\<lambda>a. fst a \<notin> snd ` set es) (activeTimers ?s)\<rparr>)"
  proof (rule Cons.IH)
    fix e' assume e': "e' \<in> set es"
    then have "snd e' \<in> set (map snd es)" by simp
    then have "snd e' \<noteq> snd e" using Cons.prems(1) by (metis distinct.simps(2) list.simps(9))
    then show "\<exists>t. tq_heap ?s (snd e') = Some t \<and> (snd e', sequence t) \<in> set (activeTimers ?s)"
      using Cons.prems(2) [of e'] e' unfolding act by auto
  next
    fix p q u assume "(p, q) \<in> set (activeTimers ?s)" "tq_heap ?s p = Some u"
    then show "q = sequence u" using Cons.prems(4) [of p q u] unfolding act by simp
  next
    show "distinct (activeTimers ?s)" using Cons.prems(3) by simp
  qed (use Cons.prems(1) in simp)
  then show ?case using t by (simp add: timer_at_def act conj_commute)
qed

lemma dropWhile_sorted:
  assumes "sorted xs"
  shows "set (takeWhile (\<lambda>x. x < b) xs) = {x \<in> set xs. x < b}" "set (dropWhile (\<lambda>x. x < b) xs) = {x \<in> set xs. \<not> x < b}"
proof -
  have "set (takeWhile (\<lambda>x. x < b) xs) = {x \<in> set xs. x < b} \<and> set (dropWhile (\<lambda>x. x < b) xs) = {x \<in> set xs. \<not> x < b}"
    using assms
  proof (induction xs)
    case (Cons a xs)
    then show ?case by (cases "a < b") (auto dest: order.strict_trans1)
  qed simp
  then show "set (takeWhile (\<lambda>x. x < b) xs) = {x \<in> set xs. x < b}"
    "set (dropWhile (\<lambda>x. x < b) xs) = {x \<in> set xs. \<not> x < b}" by auto
qed

lemma getExpired_ok:
  assumes "tq_inv F s"
  obtains E s' where "getExpired now s = Inr (E, s')" "tq_inv (F \<union> snd ` set E) s'" "sorted E" "distinct (map snd E)"
    "set E = {e \<in> set (timers s). fst e \<le> now}" "timers s' = filter (\<lambda>e. now < fst e) (timers s)"
    "tq_heap s' = tq_heap s" "F \<inter> snd ` set E = {}"
    "s' = s\<lparr>timers := timers s', activeTimers := activeTimers s'\<rparr>"
proof -
  note inv = tq_invD [OF assms]
  let ?se = "(now, UINTPTR_MAX)"
  let ?E = "takeWhile (\<lambda>e. e < ?se) (timers s)" and ?R = "dropWhile (\<lambda>e. e < ?se) (timers s)"
  have lt: "e < ?se \<longleftrightarrow> fst e \<le> now" if "e \<in> set (timers s)" for e
    using inv(6,9) that by (cases e) (auto simp: less_le)
  have E: "set ?E = {e \<in> set (timers s). fst e \<le> now}" and R: "set ?R = {e \<in> set (timers s). \<not> fst e \<le> now}"
    unfolding dropWhile_sorted [OF inv(2)] using lt by blast+
  have Req: "?R = filter (\<lambda>e. now < fst e) (timers s)"
  proof -
    have "timers s = ?E @ ?R" by simp
    then have "filter (\<lambda>e. now < fst e) (timers s) = filter (\<lambda>e. now < fst e) ?E @ filter (\<lambda>e. now < fst e) ?R"
      by (metis filter_append)
    also have "filter (\<lambda>e. now < fst e) ?E = []" using E by (auto simp: filter_empty_conv)
    also have "filter (\<lambda>e. now < fst e) ?R = ?R" using R by (auto simp: filter_id_conv not_le)
    finally show ?thesis by simp
  qed
  have sub: "(w, p) \<in> set ?E \<Longrightarrow> \<exists>t. tq_heap s p = Some t \<and> p \<notin> F \<and> w = expiration t" for w p
    using E inv(6) by auto
  have "distinct ?E" using inv(3) by simp
  moreover have "inj_on snd (set ?E)"
  proof (rule inj_onI)
    fix e e' assume "e \<in> set ?E" "e' \<in> set ?E" "snd e = snd e'"
    moreover from this obtain w w' p where "e = (w, p)" "e' = (w', p)" by (metis prod.collapse)
    ultimately show "e = e'" using sub [of w p] sub [of w' p] by auto
  qed
  ultimately have dist: "distinct (map snd ?E)" by (simp add: distinct_map)
  let ?s1 = "s\<lparr>timers := ?R\<rparr>"
  let ?s' = "?s1\<lparr>activeTimers := filter (\<lambda>a. fst a \<notin> snd ` set ?E) (activeTimers s)\<rparr>"
  have er: "erase_active ?E ?s1 = Inr (?s1\<lparr>activeTimers := filter (\<lambda>a. fst a \<notin> snd ` set ?E) (activeTimers ?s1)\<rparr>)"
  proof (rule erase_active_filter [OF dist])
    fix e assume "e \<in> set ?E"
    then show "\<exists>t. tq_heap ?s1 (snd e) = Some t \<and> (snd e, sequence t) \<in> set (activeTimers ?s1)"
      using sub [of "fst e" "snd e"] inv(7) [of "snd e"] by auto
  next
    fix p q t assume "(p, q) \<in> set (activeTimers ?s1)" "tq_heap ?s1 p = Some t"
    then show "q = sequence t" using inv(7) [of p q] by simp
  qed (use inv(5) in simp)
  have inv': "tq_inv (F \<union> snd ` set ?E) ?s'"
  proof (rule tq_invI)
    fix w p
    have "(w, p) \<in> set ?R \<longleftrightarrow> (w, p) \<in> set (timers s) \<and> (w, p) \<notin> set ?E" using E R by auto
    moreover have "(w, p) \<in> set ?E \<longleftrightarrow> p \<in> snd ` set ?E" if w: "(w, p) \<in> set (timers s)"
    proof
      assume "p \<in> snd ` set ?E"
      then obtain w' where w': "(w', p) \<in> set ?E" by (rule imageE) (metis prod.collapse)
      then have "w' = w" using sub [OF w'] w inv(6) [of w p] by auto
      with w' show "(w, p) \<in> set ?E" by simp
    next
      assume "(w, p) \<in> set ?E"
      then show "p \<in> snd ` set ?E" by (rule rev_image_eqI) simp
    qed
    ultimately have "(w, p) \<in> set ?R \<longleftrightarrow> (w, p) \<in> set (timers s) \<and> p \<notin> snd ` set ?E" by blast
    then show "(w, p) \<in> set (timers ?s') \<longleftrightarrow> (\<exists>t. tq_heap ?s' p = Some t \<and> p \<notin> F \<union> snd ` set ?E \<and> w = expiration t)"
      using inv(6) [of w p] by simp blast
  next
    fix p assume "p \<in> F \<union> snd ` set ?E"
    then show "\<exists>t. tq_heap ?s' p = Some t" using inv(8) [of p] by (auto dest: sub)
  next
    show "sorted (timers ?s')" "distinct (timers ?s')" using inv(2,3) by (auto simp: sorted_dropWhile)
    show "sorted (activeTimers ?s')" "distinct (activeTimers ?s')" using inv(4,5) by (auto simp: sorted_wrt_filter)
  qed (use inv in auto)
  have "now < fst e" if "?R = e # es" for e es
    using R that by (metis (mono_tags, lifting) list.set_intros(1) mem_Collect_eq not_le)
  then have "getExpired now s = Inr (?E, ?s')"
    using er tq_len [OF assms] tq_len [OF inv'] by (auto simp: getExpired_def Let_def split: list.split)
  moreover have "sorted ?E" using inv(2) by (simp add: sorted_takeWhile)
  moreover have "F \<inter> snd ` set ?E = {}" by (auto dest: sub)
  ultimately show ?thesis using that inv' dist E Req by simp
qed

text \<open>What becomes of a timer that has run: re-armed, or deleted.\<close>

definition fate :: "Timestamp \<Rightarrow> active_timer set \<Rightarrow> nat \<Rightarrow> 'cb timer \<Rightarrow> 'cb timer option" where
  "fate now C p t = (if repeat t \<and> (p, sequence t) \<notin> C then Some (restart now t) else None)"

lemma restart_simps [simp]: "sequence (restart now t) = sequence t" "repeat (restart now t) = repeat t"
  "callback (restart now t) = callback t" "interval (restart now t) = interval t"
  by (simp_all add: restart_def)

lemma tq_inv_restart:
  assumes "tq_inv F s" "p \<in> F" "tq_heap s p = Some t" "sequence t' = sequence t"
  shows "tq_inv F (s\<lparr>tq_heap := (tq_heap s)(p \<mapsto> t')\<rparr>)"
  using tq_invD [OF assms(1)] assms(2-4) by (intro tq_invI) (auto split: if_splits)

lemma tq_inv_delete:
  assumes "tq_inv F s" "p \<in> F"
  shows "tq_inv (F - {p}) (s\<lparr>tq_heap := (tq_heap s)(p := None)\<rparr>)"
  using tq_invD [OF assms(1)] assms(2) by (intro tq_invI) (auto split: if_splits)

lemma reset_one_ok:
  assumes "tq_inv F s" "snd e \<in> F"
  shows "\<exists>t s'. tq_heap s (snd e) = Some t \<and> reset_one now e s = Inr s' \<and> tq_inv (F - {snd e}) s' \<and>
    tq_heap s' = (tq_heap s)(snd e := fate now (set (cancelingTimers s)) (snd e) t) \<and>
    cancelingTimers s' = cancelingTimers s \<and> callingExpiredTimers s' = callingExpiredTimers s"
proof -
  from tq_invD(8) [OF assms] obtain t where t: "tq_heap s (snd e) = Some t" by blast
  show ?thesis
  proof (cases "fate now (set (cancelingTimers s)) (snd e) t")
    case None
    then have "reset_one now e s = Inr (s\<lparr>tq_heap := (tq_heap s)(snd e := None)\<rparr>)"
      using t by (auto simp: reset_one_def timer_at_def fate_def split: if_splits)
    with None t tq_inv_delete [OF assms] show ?thesis by simp
  next
    case (Some u)
    then have u: "u = restart now t" "repeat t \<and> (snd e, sequence t) \<notin> set (cancelingTimers s)"
      by (auto simp: fate_def split: if_splits)
    let ?s = "s\<lparr>tq_heap := (tq_heap s)(snd e \<mapsto> u)\<rparr>"
    from tq_inv_restart [OF assms t, of u] u have i: "tq_inv F ?s" by simp
    obtain v s' where "tq_heap ?s (snd e) = Some v" "tq_inv (F - {snd e}) s'"
      "tq_insert (snd e) ?s = Inr (\<forall>x \<in> set (timers ?s). expiration v < fst x, s')"
      "s' = ?s\<lparr>timers := insort (expiration v, snd e) (timers ?s), activeTimers := insort (snd e, sequence v) (activeTimers ?s)\<rparr>"
      by (rule tq_insert_ok [OF i assms(2)], rule that, assumption+)
    then show ?thesis using t u Some by (simp add: reset_one_def timer_at_def)
  qed
qed

lemma reset_fold_ok:
  assumes "tq_inv (F \<union> snd ` set E) s" "F \<inter> snd ` set E = {}" "distinct (map snd E)"
  shows "\<exists>s'. rfold (reset_one now) E s = Inr s' \<and> tq_inv F s' \<and>
    cancelingTimers s' = cancelingTimers s \<and> callingExpiredTimers s' = callingExpiredTimers s \<and>
    tq_heap s' = (\<lambda>p. if p \<in> snd ` set E then Option.bind (tq_heap s p) (fate now (set (cancelingTimers s)) p) else tq_heap s p)"
  using assms
proof (induction E arbitrary: s)
  case Nil
  then show ?case by simp
next
  case (Cons e E)
  have "snd e \<in> F \<union> snd ` set (e # E)" by simp
  from reset_one_ok [OF Cons.prems(1) this, of now] obtain t s1 where
    1: "tq_heap s (snd e) = Some t" "reset_one now e s = Inr s1" "tq_inv (F \<union> snd ` set (e # E) - {snd e}) s1"
      "tq_heap s1 = (tq_heap s)(snd e := fate now (set (cancelingTimers s)) (snd e) t)"
      "cancelingTimers s1 = cancelingTimers s" "callingExpiredTimers s1 = callingExpiredTimers s" by metis
  have notin: "snd e \<notin> snd ` set E" using Cons.prems(3) by simp
  then have "F \<union> snd ` set (e # E) - {snd e} = F \<union> snd ` set E" using Cons.prems(2) by auto
  with 1(3) have "tq_inv (F \<union> snd ` set E) s1" by simp
  from Cons.IH [OF this] Cons.prems(2,3) obtain s' where
    2: "rfold (reset_one now) E s1 = Inr s'" "tq_inv F s'" "cancelingTimers s' = cancelingTimers s1"
      "callingExpiredTimers s' = callingExpiredTimers s1"
      "tq_heap s' = (\<lambda>p. if p \<in> snd ` set E then Option.bind (tq_heap s1 p) (fate now (set (cancelingTimers s1)) p) else tq_heap s1 p)"
    by auto
  show ?case using 1 2 notin by (auto simp: fun_eq_iff)
qed

lemma reset_ok:
  assumes "tq_inv (F \<union> snd ` set E) s" "F \<inter> snd ` set E = {}" "distinct (map snd E)"
  obtains s' where "reset E now now' s = Inr s'" "tq_inv F s'" "cancelingTimers s' = cancelingTimers s"
    "tq_heap s' = (\<lambda>p. if p \<in> snd ` set E then Option.bind (tq_heap s p) (fate now (set (cancelingTimers s)) p) else tq_heap s p)"
    "timers s' \<noteq> [] \<Longrightarrow> valid_Timestamp (fst (hd (timers s'))) \<Longrightarrow>
       timerfd s' = Some (howMuchTimeFromNow now' (fst (hd (timers s'))))"
    "callingExpiredTimers s' = callingExpiredTimers s"
proof -
  from reset_fold_ok [OF assms, of now] obtain s1 where
    1: "rfold (reset_one now) E s = Inr s1" "tq_inv F s1" "cancelingTimers s1 = cancelingTimers s"
      "callingExpiredTimers s1 = callingExpiredTimers s"
      "tq_heap s1 = (\<lambda>p. if p \<in> snd ` set E then Option.bind (tq_heap s p) (fate now (set (cancelingTimers s)) p) else tq_heap s p)"
    by auto
  define nx where "nx = (case timers s1 of [] \<Rightarrow> invalid_Timestamp | e # _ \<Rightarrow> fst e)"
  let ?s = "if valid_Timestamp nx then resetTimerfd now' nx s1 else s1"
  have "(case timers s1 of [] \<Rightarrow> Inr invalid_Timestamp
      | e # _ \<Rightarrow> rbind (timer_at (snd e) s1) (\<lambda>t. Inr (expiration t))) = Inr nx"
  proof (cases "timers s1")
    case (Cons e es)
    then have "(fst e, snd e) \<in> set (timers s1)" by simp
    with tq_invD(6) [OF 1(2), of "fst e" "snd e"] Cons show ?thesis by (auto simp: timer_at_def nx_def)
  qed (simp add: nx_def)
  then have "reset E now now' s = Inr ?s" using 1(1) by (simp add: reset_def)
  moreover have "tq_inv F ?s" using 1(2) by (auto simp: resetTimerfd_def tq_inv_def)
  ultimately show ?thesis
    by (rule that) (use 1 in \<open>auto simp: resetTimerfd_def nx_def split: list.splits\<close>)
qed

section \<open>Properties\<close>

lemma run_expired_ok:
  assumes "tq_inv G s" "snd ` set E \<subseteq> G"
    and run: "\<And>cb H v. tq_inv H v \<Longrightarrow> \<exists>v'. run cb v = Inr v' \<and> tq_user v v'"
  shows "\<exists>s'. rfold (run_timer run) E s = Inr s' \<and> tq_inv G s' \<and> tq_keeps G s s' \<and>
    rfold run (map (\<lambda>e. callback (the (tq_heap s (snd e)))) E) s = Inr s'"
proof -
  let ?I = "\<lambda>ys t. tq_inv G t \<and> tq_keeps G s t \<and> rfold run (map (\<lambda>e. callback (the (tq_heap s (snd e)))) ys) s = Inr t"
  have "\<exists>t. rfold (run_timer run) E s = Inr t \<and> ?I E t"
  proof (rule rfold_invariant)
    fix ys e zs t assume split: "E = ys @ e # zs" and I: "?I ys t"
    have eG: "snd e \<in> G" using assms(2) split by auto
    with I tq_invD(8) [OF assms(1) eG] obtain u where u: "tq_heap s (snd e) = Some u" "tq_heap t (snd e) = Some u"
      by (auto simp: tq_keeps_def)
    from run [of G t "callback u"] I obtain t' where t': "run (callback u) t = Inr t'" "tq_user t t'" by auto
    from tq_user_inv [OF t'(2)] I have "tq_inv G t'" "tq_keeps G t t'" by auto
    with t' u I tq_keeps_trans show "\<exists>t'. run_timer run e t = Inr t' \<and> ?I (ys @ [e]) t'"
      by (auto simp: run_timer_def timer_at_def rfold_append)
  qed (use assms(1) in simp)
  then show ?thesis by auto
qed

text \<open>C13. \<open>TimerQueue::handleRead\<close> with callbacks that add and cancel timers at will, their own
  included: no assertion fails and no deleted timer is touched; exactly the timers due at \<open>now\<close> run,
  in the order of their expiry; afterwards each of them is re-armed at \<open>now\<close> plus its interval when
  it repeats and was not cancelled meanwhile, and deleted otherwise; and the descriptor is set to
  the earliest timer left.\<close>

theorem handleRead_runs_expired:
  assumes "tq_inv F s"
    and "\<forall>cb H v. tq_inv H v \<longrightarrow> (\<exists>v'. run cb v = Inr v' \<and> tq_user v v')"
  shows "\<exists>E s1 s2 s'. E = filter (\<lambda>e. fst e \<le> now) (timers s) \<and>
    rfold run (map (\<lambda>e. callback (the (tq_heap s (snd e)))) E) s1 = Inr s2 \<and>
    timers s1 = filter (\<lambda>e. now < fst e) (timers s) \<and> tq_heap s1 = tq_heap s \<and>
    tq_handleRead run now now' s = Inr s' \<and> tq_inv F s' \<and> \<not> callingExpiredTimers s' \<and>
    (\<forall>p \<in> snd ` set E. tq_heap s' p = fate now (set (cancelingTimers s2)) p (the (tq_heap s p))) \<and>
    (timers s' \<noteq> [] \<and> valid_Timestamp (fst (hd (timers s'))) \<longrightarrow>
       timerfd s' = Some (howMuchTimeFromNow now' (fst (hd (timers s')))))"
proof -
  obtain E s1 where g: "getExpired now s = Inr (E, s1)" "tq_inv (F \<union> snd ` set E) s1" "sorted E" "distinct (map snd E)"
    "set E = {e \<in> set (timers s). fst e \<le> now}" "timers s1 = filter (\<lambda>e. now < fst e) (timers s)"
    "tq_heap s1 = tq_heap s" "F \<inter> snd ` set E = {}" by (rule getExpired_ok [OF assms(1)], rule that, assumption+)
  note inv = tq_invD [OF assms(1)]
  have E: "E = filter (\<lambda>e. fst e \<le> now) (timers s)"
    using g(3,4,5) inv(2,3) by (intro sorted_distinct_set_unique) (auto simp: sorted_wrt_filter distinct_map)
  let ?v1 = "s1\<lparr>callingExpiredTimers := True, cancelingTimers := []\<rparr>"
  have "tq_inv (F \<union> snd ` set E) ?v1" using g(2) by (simp add: tq_inv_def)
  from run_expired_ok [OF this, of E run] assms(2) obtain s2 where
    r: "rfold (run_timer run) E ?v1 = Inr s2" "tq_inv (F \<union> snd ` set E) s2" "tq_keeps (F \<union> snd ` set E) ?v1 s2"
    "rfold run (map (\<lambda>e. callback (the (tq_heap s (snd e)))) E) ?v1 = Inr s2" by (auto simp: g(7))
  let ?v2 = "s2\<lparr>callingExpiredTimers := False\<rparr>"
  have v2: "tq_inv (F \<union> snd ` set E) ?v2" using r(2) by (simp add: tq_inv_def)
  obtain s' where e: "reset E now now' ?v2 = Inr s'" "tq_inv F s'"
    "tq_heap s' = (\<lambda>p. if p \<in> snd ` set E then Option.bind (tq_heap ?v2 p) (fate now (set (cancelingTimers ?v2)) p) else tq_heap ?v2 p)"
    "timers s' \<noteq> [] \<Longrightarrow> valid_Timestamp (fst (hd (timers s'))) \<Longrightarrow>
       timerfd s' = Some (howMuchTimeFromNow now' (fst (hd (timers s'))))"
    "callingExpiredTimers s' = callingExpiredTimers ?v2"
    by (rule reset_ok [OF v2 g(8,4), of now now'], rule that, assumption+)
  have "tq_handleRead run now now' s = Inr s'"
    using g(1) r(1) e(1) inv(1) by (simp add: tq_handleRead_def)
  moreover have "tq_heap s' p = fate now (set (cancelingTimers s2)) p (the (tq_heap s p))" if "p \<in> snd ` set E" for p
    using that e(3) r(3) g(7) tq_invD(8) [OF g(2), of p] by (auto simp: tq_keeps_def)
  ultimately show ?thesis
    using E r(4) g(6,7) e(2,4,5) by (intro exI [of _ E] exI [of _ ?v1] exI [of _ s2] exI [of _ s']) auto
qed

lemma new_TimerQueue_inv: "tq_inv {} new_TimerQueue"
  by (simp add: tq_inv_def new_TimerQueue_def)

theorem handleRead_runs_expired_witness:
  "\<exists>s'. tq_handleRead cancelInLoop (Timestamp 50) (Timestamp 51)
      \<lparr>tq_inLoop = True, tq_heap = [8 \<mapsto> new_Timer 0 (8, 1) (Timestamp 50) 2], tq_numCreated = 1,
       timers = [(Timestamp 50, 8)], activeTimers = [(8, 1)], callingExpiredTimers = False,
       cancelingTimers = [], timerfd = None\<rparr> = Inr s' \<and> tq_inv {} s' \<and> tq_heap s' 8 = None"
proof -
  define s :: "active_timer timer_queue" where
    "s = \<lparr>tq_inLoop = True, tq_heap = [8 \<mapsto> new_Timer 0 (8, 1) (Timestamp 50) 2], tq_numCreated = 1,
       timers = [(Timestamp 50, 8)], activeTimers = [(8, 1)], callingExpiredTimers = False,
       cancelingTimers = [], timerfd = None\<rparr>"
  have i: "tq_inv {} s" by (auto simp: s_def tq_inv_def new_Timer_def UINTPTR_MAX_def)
  have r: "\<forall>cb H (v :: active_timer timer_queue). tq_inv H v \<longrightarrow> (\<exists>v'. cancelInLoop cb v = Inr v' \<and> tq_user v v')"
  proof (intro allI impI)
    fix cb H and v :: "active_timer timer_queue"
    assume v: "tq_inv H v"
    obtain v' where "cancelInLoop cb v = Inr v'" by (rule cancelInLoop_ok [OF v, of cb], rule that, assumption+)
    then show "\<exists>v'. cancelInLoop cb v = Inr v' \<and> tq_user v v'"
      using tq_user.tq_cancel [OF tq_user.tq_done] by blast
  qed
  have "tq_handleRead cancelInLoop (Timestamp 50) (Timestamp 51) s =
    Inr (s\<lparr>tq_heap := Map.empty, timers := [], activeTimers := [], cancelingTimers := [(8, 1)]\<rparr>)"
    by (simp add: s_def tq_handleRead_def getExpired_def reset_def reset_one_def run_timer_def cancelInLoop_def
        timer_at_def new_Timer_def UINTPTR_MAX_def Timestamp_order valid_Timestamp_def invalid_Timestamp_def Let_def)
  then show ?thesis
    using handleRead_runs_expired [OF i r, of "Timestamp 50" "Timestamp 51"] unfolding s_def [symmetric] by auto
qed

text \<open>However timers are added and cancelled, the two sets of the queue hold exactly the live
  timers: nothing is leaked, no entry dangles, and the sets always have the same size.\<close>

theorem timer_sets_agree:
  assumes "tq_user new_TimerQueue s"
  shows "set (timers s) = {(expiration t, p) | p t. tq_heap s p = Some t} \<and>
    set (activeTimers s) = {(p, sequence t) | p t. tq_heap s p = Some t} \<and>
    length (timers s) = length (activeTimers s) \<and> sorted (timers s) \<and> distinct (timers s)"
proof -
  from tq_user_inv [OF assms new_TimerQueue_inv] have inv: "tq_inv {} s" by simp
  then show ?thesis using tq_len [OF inv] by (simp add: tq_inv_def)
qed

theorem timer_sets_agree_witness:
  "\<exists>(s :: nat timer_queue) a. addTimer (Timestamp 1) 8 0 (Timestamp 5) 0 new_TimerQueue = Inr (s, a) \<and>
     length (timers s) = length (activeTimers s) \<and> timers s = [(Timestamp 5, 8)]"
proof -
  obtain s :: "nat timer_queue" and a where a: "addTimer (Timestamp 1) 8 0 (Timestamp 5) 0 new_TimerQueue = Inr (s, a)"
    "timers s = insort (Timestamp 5, 8) (timers (new_TimerQueue :: nat timer_queue))"
    by (rule addTimer_ok [OF new_TimerQueue_inv, of 8 "Timestamp 1" 0 "Timestamp 5" 0])
      (auto simp: new_TimerQueue_def UINTPTR_MAX_def intro: that)
  have "tq_user new_TimerQueue s"
    by (rule tq_user.tq_add [OF tq_user.tq_done _ _ a(1)]) (simp_all add: new_TimerQueue_def UINTPTR_MAX_def)
  from timer_sets_agree [OF this] a show ?thesis by (auto simp: new_TimerQueue_def)
qed

text \<open>Cancelling: a waiting timer is removed from both sets and deleted; a timer that is being run
  is remembered, so that it is not re-armed; any other identifier, a stale one included, changes nothing.\<close>

theorem cancel_effect:
  assumes "tq_inv F s"
  shows "\<exists>s'. cancelInLoop tid s = Inr s' \<and> tq_inv F s' \<and> tid \<notin> set (activeTimers s') \<and>
    (if tid \<in> set (activeTimers s) then tq_heap s' = (tq_heap s)(fst tid := None)
     else tq_heap s' = tq_heap s \<and> timers s' = timers s \<and> activeTimers s' = activeTimers s \<and>
       set (cancelingTimers s') = set (cancelingTimers s) \<union> (if callingExpiredTimers s then {tid} else {}))"
proof -
  obtain s' where c: "cancelInLoop tid s = Inr s'" "tq_inv F s'" "tid \<notin> set (activeTimers s')"
    "tid \<in> set (activeTimers s) \<Longrightarrow> tq_heap s' = (tq_heap s)(fst tid := None)"
    by (rule cancelInLoop_ok [OF assms, of tid], rule that, assumption+)
  moreover have "tq_heap s' = tq_heap s \<and> timers s' = timers s \<and> activeTimers s' = activeTimers s \<and>
       set (cancelingTimers s') = set (cancelingTimers s) \<union> (if callingExpiredTimers s then {tid} else {})"
    if "tid \<notin> set (activeTimers s)"
    using c(1) that tq_invD(1) [OF assms] tq_len [OF assms]
    by (auto simp: cancelInLoop_def set_insort_key split: if_splits)
  ultimately show ?thesis by auto
qed

theorem cancel_effect_witness:
  "\<exists>s'. cancelInLoop (8, 1) (new_TimerQueue :: nat timer_queue) = Inr s' \<and> activeTimers s' = []"
  using cancel_effect [OF new_TimerQueue_inv, of "(8, 1)"] by (auto simp: new_TimerQueue_def)

text \<open>The delay handed to \<open>timerfd_settime\<close> is the time left, but at least 100 microseconds, so the
  descriptor is never disarmed by a zero delay, and its nanoseconds are within a second.\<close>

theorem howMuchTimeFromNow_bounds:
  "\<exists>sec nsec. howMuchTimeFromNow now when = (sec, nsec) \<and> 0 \<le> sec \<and> 0 \<le> nsec \<and> nsec < 10 ^ 9 \<and>
     sec * 10 ^ 9 + nsec = 1000 * max 100 (microSecondsSinceEpoch when - microSecondsSinceEpoch now)"
proof -
  let ?d = "microSecondsSinceEpoch when - microSecondsSinceEpoch now"
  let ?m = "max 100 ?d"
  have "howMuchTimeFromNow now when = (?m div 1000000, (?m mod 1000000) * 1000)"
    by (auto simp: howMuchTimeFromNow_def Let_def kMicroSecondsPerSecond_def cdiv_nonneg cmod_nonneg max_def)
  then obtain q r where qr: "howMuchTimeFromNow now when = (q, r * 1000)" "q = ?m div 1000000" "r = ?m mod 1000000" by blast
  have "q * 1000000 + r = ?m" unfolding qr(2,3) by (rule div_mult_mod_eq)
  moreover have "0 \<le> r" "r < 1000000" "0 \<le> q" unfolding qr(2,3) by (simp_all add: pos_imp_zdiv_nonneg_iff)
  ultimately show ?thesis using qr(1) by (intro exI [of _ q] exI [of _ "r * 1000"]) auto
qed

end
