(* ===== verification/Loop_Channels.thy ===== *)
theory Loop_Channels
  imports Pollers
begin

text \<open>
  Channels as their users see them: \<open>enableReading\<close>, \<open>disableWriting\<close>, \<open>remove\<close> and so on
  (\<open>src/muduo/net/Channel.h\<close>, \<open>Channel.cc\<close>) go through \<open>EventLoop::updateChannel\<close> and
  \<open>removeChannel\<close> (\<open>EventLoop.cpp\<close>) to the poller. The record \<open>loop_world\<close> is the part of a loop
  these operations touch; later theories extend it.
\<close>

record loop_world =
  lw_this :: nat                  \<comment> \<open>the address of the loop\<close>
  lw_inLoop :: bool               \<comment> \<open>whether the calling thread is the loop's thread\<close>
  lw_heap :: chan_heap
  lw_poller :: poller
  lw_eventHandling :: bool
  lw_active :: "nat list"
  lw_current :: "nat option"

section \<open>Operations\<close>

definition loop_updateChannel :: "nat \<Rightarrow> 'a loop_world_scheme \<Rightarrow> 'a loop_world_scheme result" where
  "loop_updateChannel p w =
     rbind (chan_at p (lw_heap w)) (\<lambda>c.
     assert_ok (ownerLoop c = lw_this w) (assert_loop (lw_inLoop w)
       (rbind (poller_updateChannel (lw_inLoop w) p (lw_heap w, lw_poller w)) (\<lambda>(h, ps).
          Inr (w\<lparr>lw_heap := h, lw_poller := ps\<rparr>)))))"

definition loop_removeChannel :: "nat \<Rightarrow> 'a loop_world_scheme \<Rightarrow> 'a loop_world_scheme result" where
  "loop_removeChannel p w =
     rbind (chan_at p (lw_heap w)) (\<lambda>c.
     assert_ok (ownerLoop c = lw_this w) (assert_loop (lw_inLoop w)
      (assert_ok (lw_eventHandling w \<longrightarrow> lw_current w = Some p \<or> p \<notin> set (lw_active w))
       (rbind (poller_removeChannel (lw_inLoop w) p (lw_heap w, lw_poller w)) (\<lambda>(h, ps).
          Inr (w\<lparr>lw_heap := h, lw_poller := ps\<rparr>))))))"

definition loop_hasChannel :: "nat \<Rightarrow> 'a loop_world_scheme \<Rightarrow> bool result" where
  "loop_hasChannel p w =
     rbind (chan_at p (lw_heap w)) (\<lambda>c.
     assert_ok (ownerLoop c = lw_this w) (assert_loop (lw_inLoop w)
       (poller_hasChannel (lw_inLoop w) p (lw_heap w) (poller_channels (lw_poller w)))))"

definition channel_update :: "nat \<Rightarrow> 'a loop_world_scheme \<Rightarrow> 'a loop_world_scheme result" where
  "channel_update p w =
     rbind (chan_at p (lw_heap w)) (\<lambda>c.
       loop_updateChannel p (w\<lparr>lw_heap := (lw_heap w)(p \<mapsto> c\<lparr>addedToLoop := True\<rparr>)\<rparr>))"

definition set_mask :: "(channel \<Rightarrow> events_mask) \<Rightarrow> nat \<Rightarrow> 'a loop_world_scheme \<Rightarrow> 'a loop_world_scheme result" where
  "set_mask f p w =
     rbind (chan_at p (lw_heap w)) (\<lambda>c.
       channel_update p (w\<lparr>lw_heap := (lw_heap w)(p \<mapsto> c\<lparr>events := f c\<rparr>)\<rparr>))"

definition enableReading :: "nat \<Rightarrow> 'a loop_world_scheme \<Rightarrow> 'a loop_world_scheme result" where
  "enableReading = set_mask mask_enableReading"

definition disableReading :: "nat \<Rightarrow> 'a loop_world_scheme \<Rightarrow> 'a loop_world_scheme result" where
  "disableReading = set_mask mask_disableReading"

definition enableWriting :: "nat \<Rightarrow> 'a loop_world_scheme \<Rightarrow> 'a loop_world_scheme result" where
  "enableWriting = set_mask mask_enableWriting"

definition disableWriting :: "nat \<Rightarrow> 'a loop_world_scheme \<Rightarrow> 'a loop_world_scheme result" where
  "disableWriting = set_mask mask_disableWriting"

definition disableAll :: "nat \<Rightarrow> 'a loop_world_scheme \<Rightarrow> 'a loop_world_scheme result" where
  "disableAll = set_mask (\<lambda>_. kNoneEvent)"

lemmas mask_ops = enableReading_def disableReading_def enableWriting_def disableWriting_def disableAll_def

definition channel_remove :: "nat \<Rightarrow> 'a loop_world_scheme \<Rightarrow> 'a loop_world_scheme result" where
  "channel_remove p w =
     rbind (chan_at p (lw_heap w)) (\<lambda>c.
       assert_ok (isNoneEvent c)
         (loop_removeChannel p (w\<lparr>lw_heap := (lw_heap w)(p \<mapsto> c\<lparr>addedToLoop := False\<rparr>)\<rparr>)))"

text \<open>Creating a channel at a free address and running its destructor.\<close>

definition create_channel :: "nat \<Rightarrow> channel \<Rightarrow> 'a loop_world_scheme \<Rightarrow> 'a loop_world_scheme" where
  "create_channel p c w = w\<lparr>lw_heap := (lw_heap w)(p \<mapsto> c)\<rparr>"

definition destroy_channel :: "nat \<Rightarrow> 'a loop_world_scheme \<Rightarrow> 'a loop_world_scheme result" where
  "destroy_channel p w =
     rbind (chan_at p (lw_heap w)) (\<lambda>c.
       assert_ok (\<not> eventHandling c) (assert_ok (\<not> addedToLoop c)
         (rbind (if lw_inLoop w then loop_hasChannel p w else Inr False) (\<lambda>has.
            assert_ok (\<not> has) (Inr (w\<lparr>lw_heap := (lw_heap w)(p := None)\<rparr>))))))"

text \<open>One pass of the loop over the channels \<open>poll\<close> reported.\<close>

definition put_heap :: "chan_heap \<Rightarrow> 'a loop_world_scheme \<Rightarrow> 'a loop_world_scheme" where
  "put_heap h w = w\<lparr>lw_heap := h\<rparr>"

definition dispatch_active :: "(nat \<Rightarrow> chan_cb \<Rightarrow> 'a loop_world_scheme \<Rightarrow> 'a loop_world_scheme result) \<Rightarrow>
    ('a loop_world_scheme \<Rightarrow> nat \<Rightarrow> bool) \<Rightarrow> int \<Rightarrow> 'a loop_world_scheme \<Rightarrow> 'a loop_world_scheme result" where
  "dispatch_active call alive receiveTime w =
     rbind (rfold (\<lambda>p w. handleEvent lw_heap put_heap call alive p receiveTime (w\<lparr>lw_current := Some p\<rparr>))
              (lw_active w) (w\<lparr>lw_eventHandling := True\<rparr>))
       (\<lambda>w'. Inr (w'\<lparr>lw_current := None, lw_eventHandling := False\<rparr>))"

section \<open>Well-formed loops\<close>

text \<open>\<open>registered p w\<close>: the poller knows the channel at \<open>p\<close>; a fresh channel is unknown and has index -1.\<close>

definition registered :: "nat \<Rightarrow> 'a loop_world_scheme \<Rightarrow> bool" where
  "registered p w \<longleftrightarrow> (\<exists>c. lw_heap w p = Some c \<and> map_of (poller_channels (lw_poller w)) (chan_fd c) = Some p)"

definition fresh_chan :: "nat \<Rightarrow> 'a loop_world_scheme \<Rightarrow> bool" where
  "fresh_chan p w \<longleftrightarrow> (\<exists>c. lw_heap w p = Some c \<and> map_of (poller_channels (lw_poller w)) (chan_fd c) = None \<and>
     index c = -1)"

definition loop_wf :: "'a loop_world_scheme \<Rightarrow> bool" where
  "loop_wf w \<longleftrightarrow> lw_inLoop w \<and> poller_inv (lw_heap w) (lw_poller w) \<and>
     (\<forall>f p. map_of (poller_channels (lw_poller w)) f = Some p \<longrightarrow>
        0 \<le> f \<and> (\<exists>c. lw_heap w p = Some c \<and> ownerLoop c = lw_this w \<and> addedToLoop c))"

text \<open>What the operations leave alone: everything but the heap and the poller.\<close>

definition same_rest :: "'a loop_world_scheme \<Rightarrow> 'a loop_world_scheme \<Rightarrow> bool" where
  "same_rest w w' \<longleftrightarrow> w\<lparr>lw_heap := lw_heap w', lw_poller := lw_poller w'\<rparr> = w'"

section \<open>The operations succeed and do what they say\<close>

lemma loop_wf_frame:
  assumes "loop_wf w" "lw_inLoop w'" "lw_this w' = lw_this w" "poller_inv (lw_heap w') ps'" "lw_poller w' = ps'"
    and "\<And>f q. map_of (poller_channels ps') f = Some q \<Longrightarrow>
       q = p \<and> 0 \<le> f \<or> map_of (poller_channels (lw_poller w)) f = Some q"
    and "strip (lw_heap w') = strip ((lw_heap w)(p \<mapsto> c))"
    and "ownerLoop c = lw_this w" "addedToLoop c \<or> (\<forall>f. map_of (poller_channels ps') f \<noteq> Some p)"
  shows "loop_wf w'"
  unfolding loop_wf_def
proof (intro conjI allI impI)
  fix f q assume q: "map_of (poller_channels (lw_poller w')) f = Some q"
  show "0 \<le> f" using assms(1,5,6) q unfolding loop_wf_def by blast
  show "\<exists>d. lw_heap w' q = Some d \<and> ownerLoop d = lw_this w' \<and> addedToLoop d"
  proof (cases "q = p")
    case True
    with strip_same [OF assms(7), of p c] obtain i where "lw_heap w' q = Some (set_index i c)" by auto
    moreover have "addedToLoop c" using assms(5,9) q True by blast
    ultimately show ?thesis using assms(3,8) by (simp add: set_index_def)
  next
    case False
    with assms(5,6) q have "map_of (poller_channels (lw_poller w)) f = Some q" by blast
    with assms(1) obtain d where d: "lw_heap w q = Some d" "ownerLoop d = lw_this w" "addedToLoop d"
      unfolding loop_wf_def by blast
    with False strip_same [OF assms(7), of q d] obtain i where "lw_heap w' q = Some (set_index i d)" by auto
    then show ?thesis using assms(3) d by (simp add: set_index_def)
  qed
qed (use assms in auto)

lemma set_mask_ok:
  assumes wf: "loop_wf w" and c: "lw_heap w p = Some c" "ownerLoop c = lw_this w" "0 \<le> chan_fd c"
    and f: "valid_events (f c)" "registered p w \<or> fresh_chan p w \<and> f c \<noteq> 0"
  shows "\<exists>w' i. set_mask f p w = Inr w' \<and> loop_wf w' \<and> same_rest w w' \<and> registered p w' \<and>
    lw_heap w' p = Some (set_index i (c\<lparr>events := f c, addedToLoop := True\<rparr>)) \<and>
    strip (lw_heap w') = strip ((lw_heap w)(p \<mapsto> c\<lparr>events := f c, addedToLoop := True\<rparr>)) \<and>
    poller_interest (lw_poller w') = (poller_interest (lw_poller w))(chan_fd c := f c)"
proof -
  let ?c = "c\<lparr>events := f c, addedToLoop := True\<rparr>"
  have inv: "poller_inv (lw_heap w) (lw_poller w)" and inl: "lw_inLoop w" using wf by (auto simp: loop_wf_def)
  have reg: "map_of (poller_channels (lw_poller w)) (chan_fd c) = Some p \<or>
      map_of (poller_channels (lw_poller w)) (chan_fd c) = None \<and> index c = -1 \<and> events ?c \<noteq> 0"
    using f(2) c(1) by (auto simp: registered_def fresh_chan_def)
  note up = plr.update_ok [OF inv c(1) c(3), of ?c, OF _ _ _ reg, simplified, OF f(1)]
  then obtain h' ps' where u: "poller_updateChannel True p ((lw_heap w)(p \<mapsto> ?c), lw_poller w) = Inr (h', ps')"
    "poller_inv h' ps'" "map_of (poller_channels ps') = (map_of (poller_channels (lw_poller w)))(chan_fd c \<mapsto> p)"
    "strip h' = strip ((lw_heap w)(p \<mapsto> ?c))" by auto
  let ?w = "w\<lparr>lw_heap := h', lw_poller := ps'\<rparr>"
  from strip_same [OF u(4), of p ?c] obtain i where i: "h' p = Some (set_index i ?c)" by auto
  have "set_mask f p w = Inr ?w"
    using c u(1) inl by (simp add: set_mask_def channel_update_def loop_updateChannel_def)
  moreover have "loop_wf ?w"
    using wf inl u c by (intro loop_wf_frame [OF wf, of ?w ps' p ?c]) (auto split: if_splits)
  moreover have "poller_interest ps' = (poller_interest (lw_poller w))(chan_fd c := f c)"
    using plr.update_interest [OF inv c(1) c(3), of ?c h' ps'] u(1) reg f(1) by auto
  moreover have "registered p ?w" using i u(3) by (simp add: registered_def)
  ultimately show ?thesis
    using i u(4) by (intro exI [of _ ?w] exI [of _ i]) (auto simp: same_rest_def)
qed

lemma channel_remove_ok:
  assumes wf: "loop_wf w" and c: "lw_heap w p = Some c" "registered p w" "events c = 0"
    and act: "lw_eventHandling w \<longrightarrow> lw_current w = Some p \<or> p \<notin> set (lw_active w)"
  shows "\<exists>w' i. channel_remove p w = Inr w' \<and> loop_wf w' \<and> same_rest w w' \<and> \<not> registered p w' \<and>
    lw_heap w' p = Some (set_index i (c\<lparr>addedToLoop := False\<rparr>)) \<and>
    strip (lw_heap w') = strip ((lw_heap w)(p \<mapsto> c\<lparr>addedToLoop := False\<rparr>)) \<and>
    poller_interest (lw_poller w') = (poller_interest (lw_poller w))(chan_fd c := 0)"
proof -
  let ?c = "c\<lparr>addedToLoop := False\<rparr>" and ?h = "(lw_heap w)(p \<mapsto> c\<lparr>addedToLoop := False\<rparr>)"
  have inl: "lw_inLoop w" using wf by (simp add: loop_wf_def)
  have reg: "map_of (poller_channels (lw_poller w)) (chan_fd c) = Some p" using c by (auto simp: registered_def)
  have own: "ownerLoop c = lw_this w" using wf reg c(1) unfolding loop_wf_def by force
  have inv: "poller_inv ?h (lw_poller w)"
    by (rule plr.inv_frame [of "lw_heap w"]) (use wf c(1) in \<open>auto simp: loop_wf_def same_poll_view_def\<close>)
  from plr.remove_ok [OF inv, of p ?c] reg c(3) obtain h' ps' where u:
    "poller_removeChannel True p (?h, lw_poller w) = Inr (h', ps')" "poller_inv h' ps'"
    "map_of (poller_channels ps') = (map_of (poller_channels (lw_poller w)))(chan_fd c := None)" "strip h' = strip ?h"
    by auto
  let ?w = "w\<lparr>lw_heap := h', lw_poller := ps'\<rparr>"
  from strip_same [OF u(4), of p ?c] obtain i where i: "h' p = Some (set_index i ?c)" by auto
  have only: "f = chan_fd c" if "map_of (poller_channels (lw_poller w)) f = Some p" for f
    using plr.inv_chan [OF inv that] by auto
  have "channel_remove p w = Inr ?w"
    using c u(1) inl act own
    by (simp add: channel_remove_def loop_removeChannel_def isNoneEvent_def kNoneEvent_def)
  moreover have "loop_wf ?w"
    using wf inl u own only by (intro loop_wf_frame [OF wf, of ?w ps' p ?c]) (auto split: if_splits)
  moreover have "poller_interest ps' = (poller_interest (lw_poller w))(chan_fd c := 0)"
    using plr.remove_interest [OF inv, of p ?c h' ps'] u(1) reg c(3) by auto
  ultimately show ?thesis
    using i u by (intro exI [of _ ?w] exI [of _ i]) (auto simp: same_rest_def registered_def)
qed

text \<open>The same facts in the form the owners of channels use: only the heap and the poller change.\<close>

lemma set_mask_upd:
  assumes "loop_wf w" "lw_heap w p = Some c" "ownerLoop c = lw_this w" "0 \<le> chan_fd c" "valid_events (f c)"
    "registered p w \<or> fresh_chan p w \<and> f c \<noteq> 0"
  shows "\<exists>w' c'. set_mask f p w = Inr w' \<and> loop_wf w' \<and> registered p w' \<and> lw_heap w' p = Some c' \<and>
    events c' = f c \<and> ownerLoop c' = lw_this w' \<and> chan_fd c' = chan_fd c \<and> addedToLoop c' \<and>
    eventHandling c' = eventHandling c \<and> (\<exists>h ps. w' = w\<lparr>lw_heap := h, lw_poller := ps\<rparr>)"
proof -
  from set_mask_ok [of w p c f, OF assms] obtain w' i where w': "set_mask f p w = Inr w'" "loop_wf w'" "same_rest w w'"
    "registered p w'" "lw_heap w' p = Some (set_index i (c\<lparr>events := f c, addedToLoop := True\<rparr>))" by blast
  from w'(3) have eq: "w' = w\<lparr>lw_heap := lw_heap w', lw_poller := lw_poller w'\<rparr>" by (simp add: same_rest_def)
  then have "lw_this w' = lw_this w" by (metis loop_world.select_convs(1) loop_world.surjective loop_world.update_convs(3,4))
  with w' eq assms(3) show ?thesis
    by (intro exI [of _ w'] exI [of _ "set_index i (c\<lparr>events := f c, addedToLoop := True\<rparr>)"] conjI)
      (auto simp: set_index_def)
qed

lemma channel_remove_upd:
  assumes "loop_wf w" "lw_heap w p = Some c" "registered p w" "events c = 0"
    "lw_eventHandling w \<longrightarrow> lw_current w = Some p \<or> p \<notin> set (lw_active w)"
  shows "\<exists>w' c'. channel_remove p w = Inr w' \<and> loop_wf w' \<and> \<not> registered p w' \<and> lw_heap w' p = Some c' \<and>
    \<not> addedToLoop c' \<and> ownerLoop c' = ownerLoop c \<and> chan_fd c' = chan_fd c \<and> eventHandling c' = eventHandling c \<and>
    poller_interest (lw_poller w') = (poller_interest (lw_poller w))(chan_fd c := 0) \<and>
    (\<exists>h ps. w' = w\<lparr>lw_heap := h, lw_poller := ps\<rparr>)"
proof -
  from channel_remove_ok [OF assms] obtain w' i where w': "channel_remove p w = Inr w'" "loop_wf w'" "same_rest w w'"
    "\<not> registered p w'" "lw_heap w' p = Some (set_index i (c\<lparr>addedToLoop := False\<rparr>))"
    "poller_interest (lw_poller w') = (poller_interest (lw_poller w))(chan_fd c := 0)" by blast
  from w'(3) have "w' = w\<lparr>lw_heap := lw_heap w', lw_poller := lw_poller w'\<rparr>" by (simp add: same_rest_def)
  with w' show ?thesis
    by (intro exI [of _ w'] exI [of _ "set_index i (c\<lparr>addedToLoop := False\<rparr>)"] conjI) (auto simp: set_index_def)
qed

text \<open>A new channel at a free address for a descriptor the poller does not know.\<close>

lemma create_channel_ok:
  assumes "loop_wf w" "lw_heap w p = None" "index c = -1" "map_of (poller_channels (lw_poller w)) (chan_fd c) = None"
  shows "loop_wf (create_channel p c w)" "fresh_chan p (create_channel p c w)"
proof -
  have none: "map_of (poller_channels (lw_poller w)) f \<noteq> Some p" for f
    using assms(1,2) unfolding loop_wf_def by force
  have "poller_inv ((lw_heap w)(p \<mapsto> c)) (lw_poller w)"
    by (rule plr.inv_frame [of "lw_heap w"]) (use assms(1) none in \<open>auto simp: loop_wf_def same_poll_view_def\<close>)
  then show "loop_wf (create_channel p c w)" using assms(1) none by (auto simp: loop_wf_def create_channel_def)
  show "fresh_chan p (create_channel p c w)" using assms(3,4) by (simp add: fresh_chan_def create_channel_def)
qed

lemma destroy_channel_ok:
  assumes "loop_wf w" "lw_heap w p = Some c" "ownerLoop c = lw_this w" "\<not> eventHandling c" "\<not> addedToLoop c"
  shows "\<exists>w'. destroy_channel p w = Inr w' \<and> loop_wf w' \<and> w' = w\<lparr>lw_heap := (lw_heap w)(p := None)\<rparr>"
proof -
  let ?w = "w\<lparr>lw_heap := (lw_heap w)(p := None)\<rparr>"
  have no: "map_of (poller_channels (lw_poller w)) f \<noteq> Some p" for f
    using assms(1,2,5) unfolding loop_wf_def by force
  have "poller_inv (lw_heap ?w) (lw_poller w)"
    by (rule plr.inv_frame [of "lw_heap w"]) (use assms(1) no in \<open>auto simp: loop_wf_def same_poll_view_def\<close>)
  then have "loop_wf ?w" using assms(1) no by (auto simp: loop_wf_def)
  moreover have "destroy_channel p w = Inr ?w"
    using assms no by (auto simp: destroy_channel_def loop_hasChannel_def poller_hasChannel_def loop_wf_def)
  ultimately show ?thesis by blast
qed

interpretation lw: chan_state lw_heap put_heap
  by unfold_locales (simp_all add: put_heap_def)

section \<open>Properties\<close>

text \<open>\<open>Channel::handleEvent\<close>: a channel tied to an owner that is gone does nothing; otherwise the
  callbacks the ready mask asks for run one after the other, close before error before read before
  write, and the flag \<open>eventHandling_\<close> is set around them. The callbacks succeed and keep the channel.\<close>

theorem handleEvent_dispatch:
  fixes w :: "'a loop_world_scheme"
  assumes "lw_heap w p = Some c"
    and "\<forall>k v d. lw_heap v p = Some d \<and> same_dispatch c d \<longrightarrow>
       (\<exists>v' d'. call p k v = Inr v' \<and> lw_heap v' p = Some d' \<and> same_dispatch c d')"
  shows "if tied c \<and> (case tie c of None \<Rightarrow> True | Some obj \<Rightarrow> \<not> alive w obj)
    then handleEvent lw_heap put_heap call alive p t w = Inr w
    else \<exists>w' d. rfold (call p) (dispatch_list c t) (put_heap ((lw_heap w)(p \<mapsto> c\<lparr>eventHandling := True\<rparr>)) w) = Inr w' \<and>
       lw_heap w' p = Some d \<and>
       handleEvent lw_heap put_heap call alive p t w =
         Inr (put_heap ((lw_heap w')(p \<mapsto> d\<lparr>eventHandling := False\<rparr>)) w')"
proof -
  have "lw.tame call p c" using assms(2) unfolding lw.tame_def by blast
  from lw.handleEventWithGuard_runs [OF assms(1) this, of t] show ?thesis
    using assms(1) by (auto simp: handleEvent_def fetch_def split: option.splits)
qed

theorem handleEvent_dispatch_witness:
  "\<exists>(w'::loop_world) d. rfold (\<lambda>k w. Inr (w\<lparr>lw_active := lw_active w @ [case k of CloseCb \<Rightarrow> 1 | ErrorCb \<Rightarrow> 2 | ReadCb _ \<Rightarrow> 3 | WriteCb \<Rightarrow> 4]\<rparr>))
      [ErrorCb, WriteCb] \<lparr>lw_this = 1, lw_inLoop = True,
        lw_heap = [7 \<mapsto> (new_channel 1 5)\<lparr>revents := 12, errorCallback := True, writeCallback := True, eventHandling := True\<rparr>],
        lw_poller = newDefaultPoller False, lw_eventHandling = True, lw_active = [], lw_current = None\<rparr> = Inr w' \<and>
     lw_heap w' 7 = Some d \<and> lw_active w' = [2, 4]"
proof -
  let ?call = "\<lambda>(p::nat) k (w::loop_world). Inr (w\<lparr>lw_active := lw_active w @ [case k of CloseCb \<Rightarrow> 1 | ErrorCb \<Rightarrow> 2 | ReadCb _ \<Rightarrow> 3 | WriteCb \<Rightarrow> 4]\<rparr>) :: loop_world result"
  let ?c = "(new_channel 1 5)\<lparr>revents := 12, errorCallback := True, writeCallback := True\<rparr>"
  let ?w = "\<lparr>lw_this = 1, lw_inLoop = True, lw_heap = [7 \<mapsto> ?c], lw_poller = newDefaultPoller False,
     lw_eventHandling = True, lw_active = [], lw_current = None\<rparr> :: loop_world"
  have "dispatch_list ?c 0 = [ErrorCb, WriteCb]" by (simp add: dispatch_list_def poll_bits new_channel_def)
  then show ?thesis
    using handleEvent_dispatch [of ?w 7 ?c ?call "\<lambda>_ _. True" 0] by (simp add: new_channel_def put_heap_def)
qed

text \<open>Every mask operation of a channel (\<open>enableReading\<close> and its kin) keeps the loop well formed,
  changes the events of that channel only, and leaves the multiplexer watching exactly the new mask
  for its descriptor; a channel not yet known to the poller must ask for some event.\<close>

theorem mask_operation_watched:
  assumes "loop_wf w" "lw_heap w p = Some c" "ownerLoop c = lw_this w" "0 \<le> chan_fd c"
    "valid_events (events c)" "op \<in> {(enableReading, mask_enableReading), (disableReading, mask_disableReading),
       (enableWriting, mask_enableWriting), (disableWriting, mask_disableWriting), (disableAll, \<lambda>_. kNoneEvent)}"
    "registered p w \<or> fresh_chan p w \<and> snd op c \<noteq> 0"
  shows "\<exists>w' i. fst op p w = Inr w' \<and> loop_wf w' \<and> same_rest w w' \<and> registered p w' \<and>
    lw_heap w' p = Some (set_index i (c\<lparr>events := snd op c, addedToLoop := True\<rparr>)) \<and>
    strip (lw_heap w') = strip ((lw_heap w)(p \<mapsto> c\<lparr>events := snd op c, addedToLoop := True\<rparr>)) \<and>
    poller_interest (lw_poller w') = (poller_interest (lw_poller w))(chan_fd c := snd op c)"
proof -
  have "fst op = set_mask (snd op)" "valid_events (snd op c)"
    using assms(5,6) by (auto simp: mask_ops kNoneEvent_def)
  then show ?thesis using set_mask_ok [OF assms(1-4), of "snd op"] assms(7) by simp
qed

theorem mask_operation_watched_witness:
  "\<exists>w' i. enableReading 7 \<lparr>lw_this = 1, lw_inLoop = True, lw_heap = [7 \<mapsto> new_channel 1 5],
      lw_poller = newDefaultPoller True, lw_eventHandling = False, lw_active = [], lw_current = None\<rparr> = Inr w' \<and>
    lw_heap w' 7 = Some (set_index i ((new_channel 1 5)\<lparr>events := 3, addedToLoop := True\<rparr>)) \<and>
    poller_interest (lw_poller w') 5 = 3"
proof -
  let ?w = "\<lparr>lw_this = 1, lw_inLoop = True, lw_heap = [7 \<mapsto> new_channel 1 5],
      lw_poller = newDefaultPoller True, lw_eventHandling = False, lw_active = [], lw_current = None\<rparr> :: loop_world"
  have none: "poller_channels (newDefaultPoller True) = []"
    by (simp add: newDefaultPoller_def poller_channels_def new_poll_poller_def)
  have "loop_wf ?w" by (simp add: loop_wf_def newDefaultPoller_inv none)
  moreover have "fresh_chan 7 ?w" by (simp add: fresh_chan_def none new_channel_def)
  moreover have "mask_enableReading (new_channel 1 5) = 3"
    by (simp add: mask_enableReading_def new_channel_def event_consts)
  ultimately show ?thesis
    using mask_operation_watched [of ?w 7 "new_channel 1 5" "(enableReading, mask_enableReading)"]
    by (auto simp: new_channel_def)
qed

end
