(* ===== verification/Event_Loop.thy ===== *)
theory Event_Loop
  imports Loop_Channels
begin

text \<open>
  The reactor \<open>EventLoop\<close> (\<open>src/muduo/net/EventLoop.h\<close>, \<open>EventLoop.cpp\<close>): the loop itself, the
  queue of functors other threads hand to it, and the \<open>eventfd\<close> that wakes it. Functors are values
  of a type variable; running one is a parameter. The second half is the loop as a step relation
  interleaved with other threads.
\<close>

section \<open>State and operations\<close>

record 'f event_loop = loop_world +
  el_looping :: bool
  el_quit :: bool
  el_callingPendingFunctors :: bool
  el_iteration :: int
  el_pollReturnTime :: int
  el_pendingFunctors :: "'f list"
  el_eventfd :: nat                   \<comment> \<open>the counter of \<open>wakeupFd_\<close>\<close>

text \<open>\<open>kPollTimeMs\<close>: the loop waits without a limit.\<close>

definition kPollTimeMs :: int where "kPollTimeMs = -1"

text \<open>A write to an \<open>eventfd\<close> adds to its counter unless it would exceed \<open>2^64 - 2\<close>; a read clears it.\<close>

definition wakeup :: "('f, 'a) event_loop_scheme \<Rightarrow> ('f, 'a) event_loop_scheme" where
  "wakeup s = (if el_eventfd s + 1 \<le> 2 ^ 64 - 2 then s\<lparr>el_eventfd := el_eventfd s + 1\<rparr> else s)"

definition el_handleRead :: "('f, 'a) event_loop_scheme \<Rightarrow> ('f, 'a) event_loop_scheme" where
  "el_handleRead s = s\<lparr>el_eventfd := 0\<rparr>"

text \<open>The two parts of \<open>queueInLoop\<close>: the critical section, and the wake-up that may follow it.\<close>

definition push_functor :: "'f \<Rightarrow> ('f, 'a) event_loop_scheme \<Rightarrow> ('f, 'a) event_loop_scheme" where
  "push_functor cb s = s\<lparr>el_pendingFunctors := el_pendingFunctors s @ [cb]\<rparr>"

definition needs_wakeup :: "bool \<Rightarrow> ('f, 'a) event_loop_scheme \<Rightarrow> bool" where
  "needs_wakeup inLoop s \<longleftrightarrow> \<not> inLoop \<or> el_callingPendingFunctors s"

definition queueInLoop :: "bool \<Rightarrow> 'f \<Rightarrow> ('f, 'a) event_loop_scheme \<Rightarrow> ('f, 'a) event_loop_scheme" where
  "queueInLoop inLoop cb s =
     (let s' = push_functor cb s in if needs_wakeup inLoop s' then wakeup s' else s')"

definition queueSize :: "('f, 'a) event_loop_scheme \<Rightarrow> nat" where
  "queueSize s = length (el_pendingFunctors s)"

definition runInLoop :: "('f \<Rightarrow> ('f, 'a) event_loop_scheme \<Rightarrow> ('f, 'a) event_loop_scheme result) \<Rightarrow> bool \<Rightarrow> 'f \<Rightarrow>
    ('f, 'a) event_loop_scheme \<Rightarrow> ('f, 'a) event_loop_scheme result" where
  "runInLoop run inLoop cb s = (if inLoop then run cb s else Inr (queueInLoop inLoop cb s))"

definition quit :: "bool \<Rightarrow> ('f, 'a) event_loop_scheme \<Rightarrow> ('f, 'a) event_loop_scheme" where
  "quit inLoop s = (let s' = s\<lparr>el_quit := True\<rparr> in if \<not> inLoop then wakeup s' else s')"

definition swap_functors :: "('f, 'a) event_loop_scheme \<Rightarrow> 'f list \<times> ('f, 'a) event_loop_scheme" where
  "swap_functors s = (el_pendingFunctors s, s\<lparr>el_pendingFunctors := []\<rparr>)"

definition doPendingFunctors :: "('f \<Rightarrow> ('f, 'a) event_loop_scheme \<Rightarrow> ('f, 'a) event_loop_scheme result) \<Rightarrow>
    ('f, 'a) event_loop_scheme \<Rightarrow> ('f, 'a) event_loop_scheme result" where
  "doPendingFunctors run s =
     (let (functors, s1) = swap_functors (s\<lparr>el_callingPendingFunctors := True\<rparr>) in
      rbind (rfold run functors s1) (\<lambda>s2. Inr (s2\<lparr>el_callingPendingFunctors := False\<rparr>)))"

text \<open>
  What one wait returns: the time, and the result of \<open>epoll_wait\<close> or \<open>poll\<close>, whichever the poller uses.
\<close>

record poll_outcome =
  po_time :: int
  po_epoll :: "int + (events_mask \<times> nat) list"
  po_poll :: "int + nat \<times> pollfd list"

definition poller_poll :: "poll_outcome \<Rightarrow> chan_heap \<times> poller \<Rightarrow> nat list \<Rightarrow> (chan_heap \<times> poller \<times> nat list) result" where
  "poller_poll po s active =
     (case snd s of
        EPollPoller e \<Rightarrow> rbind (epoll_poll (po_epoll po) (fst s, e) active) (\<lambda>(h, e', a). Inr (h, EPollPoller e', a))
      | PollPoller q \<Rightarrow> rbind (poll_poll (po_poll po) (fst s, q) active) (\<lambda>(h, q', a). Inr (h, PollPoller q', a)))"

definition loop_body :: "(nat \<Rightarrow> chan_cb \<Rightarrow> ('f, 'a) event_loop_scheme \<Rightarrow> ('f, 'a) event_loop_scheme result) \<Rightarrow>
    (('f, 'a) event_loop_scheme \<Rightarrow> nat \<Rightarrow> bool) \<Rightarrow>
    ('f \<Rightarrow> ('f, 'a) event_loop_scheme \<Rightarrow> ('f, 'a) event_loop_scheme result) \<Rightarrow> poll_outcome \<Rightarrow>
    ('f, 'a) event_loop_scheme \<Rightarrow> ('f, 'a) event_loop_scheme result" where
  "loop_body call alive run po s =
     rbind (poller_poll po (lw_heap s, lw_poller s) []) (\<lambda>(h, ps, active).
     let s1 = s\<lparr>lw_heap := h, lw_poller := ps, lw_active := active, el_pollReturnTime := po_time po,
               el_iteration := el_iteration s + 1\<rparr> in
     rbind (dispatch_active call alive (po_time po) s1) (doPendingFunctors run))"

text \<open>\<open>loop\<close> over the results of its waits; with none left it is waiting, and \<open>None\<close> is returned.\<close>

fun loop_while :: "(nat \<Rightarrow> chan_cb \<Rightarrow> ('f, 'a) event_loop_scheme \<Rightarrow> ('f, 'a) event_loop_scheme result) \<Rightarrow>
    (('f, 'a) event_loop_scheme \<Rightarrow> nat \<Rightarrow> bool) \<Rightarrow>
    ('f \<Rightarrow> ('f, 'a) event_loop_scheme \<Rightarrow> ('f, 'a) event_loop_scheme result) \<Rightarrow> poll_outcome list \<Rightarrow>
    ('f, 'a) event_loop_scheme \<Rightarrow> (('f, 'a) event_loop_scheme option) result" where
  "loop_while call alive run [] s = Inr (if el_quit s then Some s else None)"
| "loop_while call alive run (po # pos) s =
     (if el_quit s then Inr (Some s)
      else rbind (loop_body call alive run po s) (loop_while call alive run pos))"

definition loop :: "(nat \<Rightarrow> chan_cb \<Rightarrow> ('f, 'a) event_loop_scheme \<Rightarrow> ('f, 'a) event_loop_scheme result) \<Rightarrow>
    (('f, 'a) event_loop_scheme \<Rightarrow> nat \<Rightarrow> bool) \<Rightarrow>
    ('f \<Rightarrow> ('f, 'a) event_loop_scheme \<Rightarrow> ('f, 'a) event_loop_scheme result) \<Rightarrow> poll_outcome list \<Rightarrow>
    ('f, 'a) event_loop_scheme \<Rightarrow> (('f, 'a) event_loop_scheme option) result" where
  "loop call alive run pos s =
     assert_ok (\<not> el_looping s) (assert_loop (lw_inLoop s)
       (rbind (loop_while call alive run pos (s\<lparr>el_looping := True, el_quit := False\<rparr>))
          (\<lambda>r. Inr (map_option (\<lambda>s'. s'\<lparr>el_looping := False\<rparr>) r))))"

section \<open>The loop among other threads\<close>

text \<open>
  Where the loop thread is: at the test of \<open>quit_\<close>, waiting in \<open>poll\<close>, dispatching events (with the
  wake-up channel among them or not), about to take the queue, running functors, or finished. The
  functors of the queue are abstract; what they do to the loop is any sequence of \<open>queueInLoop\<close> and
  \<open>quit\<close> calls. \<open>ls_owed\<close> counts other threads that have pushed a functor or set \<open>quit_\<close> and have not
  yet written to the \<open>eventfd\<close>. \<open>ls_queued\<close> and \<open>ls_ran\<close> record the functors queued and started.
\<close>

datatype 'f loop_pc = AtTest | AtPoll | Handling bool | BeforeSwap | Running "'f list" | Exited

record 'f loop_sys =
  ls_loop :: "'f event_loop"
  ls_pc :: "'f loop_pc"
  ls_owed :: nat
  ls_queued :: "'f list"
  ls_ran :: "'f list"

inductive loop_step :: "'f loop_sys \<Rightarrow> 'f loop_sys \<Rightarrow> bool" where
  test_exit: "ls_pc s = AtTest \<Longrightarrow> el_quit (ls_loop s) \<Longrightarrow> loop_step s (s\<lparr>ls_pc := Exited\<rparr>)"
| test_poll: "ls_pc s = AtTest \<Longrightarrow> \<not> el_quit (ls_loop s) \<Longrightarrow> loop_step s (s\<lparr>ls_pc := AtPoll\<rparr>)"
| poll_woken: "ls_pc s = AtPoll \<Longrightarrow> 0 < el_eventfd (ls_loop s) \<Longrightarrow> loop_step s (s\<lparr>ls_pc := Handling True\<rparr>)"
| poll_other: "ls_pc s = AtPoll \<Longrightarrow> loop_step s (s\<lparr>ls_pc := Handling False\<rparr>)"
| read_eventfd: "ls_pc s = Handling True \<Longrightarrow>
    loop_step s (s\<lparr>ls_pc := Handling False, ls_loop := el_handleRead (ls_loop s)\<rparr>)"
| handled: "ls_pc s = Handling False \<Longrightarrow>
    loop_step s (s\<lparr>ls_pc := BeforeSwap, ls_loop := (ls_loop s)\<lparr>el_callingPendingFunctors := True\<rparr>\<rparr>)"
| swapped: "ls_pc s = BeforeSwap \<Longrightarrow> swap_functors (ls_loop s) = (fs, l) \<Longrightarrow>
    loop_step s (s\<lparr>ls_pc := Running fs, ls_loop := l\<rparr>)"
| run_one: "ls_pc s = Running (f # fs) \<Longrightarrow> loop_step s (s\<lparr>ls_pc := Running fs, ls_ran := ls_ran s @ [f]\<rparr>)"
| run_done: "ls_pc s = Running [] \<Longrightarrow>
    loop_step s (s\<lparr>ls_pc := AtTest, ls_loop := (ls_loop s)\<lparr>el_callingPendingFunctors := False\<rparr>\<rparr>)"

text \<open>Calls from the loop thread, out of event callbacks or functors, and from other threads.\<close>

definition in_callback :: "'f loop_pc \<Rightarrow> bool" where
  "in_callback pc = (case pc of Handling _ \<Rightarrow> True | Running _ \<Rightarrow> True | _ \<Rightarrow> False)"

inductive call_step :: "'f loop_sys \<Rightarrow> 'f loop_sys \<Rightarrow> bool" where
  own_queue: "in_callback (ls_pc s) \<Longrightarrow>
    call_step s (s\<lparr>ls_loop := queueInLoop True f (ls_loop s), ls_queued := ls_queued s @ [f]\<rparr>)"
| own_quit: "in_callback (ls_pc s) \<Longrightarrow> call_step s (s\<lparr>ls_loop := quit True (ls_loop s)\<rparr>)"
| other_push: "call_step s (s\<lparr>ls_loop := push_functor f (ls_loop s), ls_queued := ls_queued s @ [f],
    ls_owed := ls_owed s + 1\<rparr>)"
| other_set_quit: "call_step s (s\<lparr>ls_loop := (ls_loop s)\<lparr>el_quit := True\<rparr>, ls_owed := ls_owed s + 1\<rparr>)"
| other_wakeup: "0 < ls_owed s \<Longrightarrow> call_step s (s\<lparr>ls_loop := wakeup (ls_loop s), ls_owed := ls_owed s - 1\<rparr>)"

inductive sys_reach :: "'f loop_sys \<Rightarrow> 'f loop_sys \<Rightarrow> bool" where
  reach_refl: "sys_reach s s"
| reach_loop: "sys_reach s t \<Longrightarrow> loop_step t u \<Longrightarrow> sys_reach s u"
| reach_call: "sys_reach s t \<Longrightarrow> call_step t u \<Longrightarrow> sys_reach s u"

inductive_cases loop_stepE: "loop_step s t"
inductive_cases call_stepE: "call_step s t"

text \<open>The loop as \<open>loop()\<close> enters it, with the functors \<open>fs\<close> already queued.\<close>

definition enter_loop :: "'f event_loop \<Rightarrow> 'f loop_sys" where
  "enter_loop l = \<lparr>ls_loop = l\<lparr>el_looping := True, el_quit := False\<rparr>, ls_pc = AtTest, ls_owed = 0,
     ls_queued = el_pendingFunctors l, ls_ran = []\<rparr>"

definition running :: "'f loop_pc \<Rightarrow> 'f list" where
  "running pc = (case pc of Running fs \<Rightarrow> fs | _ \<Rightarrow> [])"

text \<open>Work is announced: the counter is up or some thread is about to raise it.\<close>

definition announced :: "'f loop_sys \<Rightarrow> bool" where
  "announced s \<longleftrightarrow> 0 < el_eventfd (ls_loop s) \<or> 0 < ls_owed s"

definition sys_inv :: "'f loop_sys \<Rightarrow> bool" where
  "sys_inv s \<longleftrightarrow>
     (el_callingPendingFunctors (ls_loop s) \<longleftrightarrow> (case ls_pc s of BeforeSwap \<Rightarrow> True | Running _ \<Rightarrow> True | _ \<Rightarrow> False)) \<and>
     ls_ran s @ running (ls_pc s) @ el_pendingFunctors (ls_loop s) = ls_queued s \<and>
     (el_pendingFunctors (ls_loop s) \<noteq> [] \<longrightarrow>
        (case ls_pc s of AtTest \<Rightarrow> announced s | AtPoll \<Rightarrow> announced s | Running _ \<Rightarrow> announced s | _ \<Rightarrow> True)) \<and>
     (el_quit (ls_loop s) \<and> ls_pc s = AtPoll \<longrightarrow> announced s)"

lemmas el_defs = wakeup_def el_handleRead_def push_functor_def needs_wakeup_def queueInLoop_def quit_def swap_functors_def

lemma wakeup_simps [simp]:
  "0 < el_eventfd (wakeup l)" "el_pendingFunctors (wakeup l) = el_pendingFunctors l" "el_quit (wakeup l) = el_quit l"
  "el_callingPendingFunctors (wakeup l) = el_callingPendingFunctors l"
  by (simp_all add: wakeup_def)

lemma loop_step_inv: "loop_step s t \<Longrightarrow> sys_inv s \<Longrightarrow> sys_inv t"
  by (erule loop_stepE) (auto simp: sys_inv_def announced_def running_def el_handleRead_def swap_functors_def)

lemma call_step_inv: "call_step s t \<Longrightarrow> sys_inv s \<Longrightarrow> sys_inv t"
  by (erule call_stepE)
    (auto simp: sys_inv_def announced_def in_callback_def running_def queueInLoop_def push_functor_def needs_wakeup_def
      quit_def Let_def split: loop_pc.splits)

lemma sys_reach_inv: "sys_reach s t \<Longrightarrow> sys_inv s \<Longrightarrow> sys_inv t"
  by (induction rule: sys_reach.induct) (auto intro: loop_step_inv call_step_inv)

lemma enter_loop_inv:
  "el_pendingFunctors l = [] \<Longrightarrow> \<not> el_callingPendingFunctors l \<Longrightarrow> sys_inv (enter_loop l)"
  by (simp add: sys_inv_def enter_loop_def running_def)

text \<open>The loop thread on its own, from the dispatch of events to the next test of \<open>quit_\<close>.\<close>

lemma run_all_functors:
  "ls_pc s = Running fs \<Longrightarrow> loop_step\<^sup>*\<^sup>* s (s\<lparr>ls_pc := Running [], ls_ran := ls_ran s @ fs\<rparr>)"
proof (induction fs arbitrary: s)
  case Nil
  then have "s\<lparr>ls_pc := Running [], ls_ran := ls_ran s @ []\<rparr> = s" by (cases s) simp
  then show ?case by simp
next
  case (Cons f fs)
  let ?s = "s\<lparr>ls_pc := Running fs, ls_ran := ls_ran s @ [f]\<rparr>"
  have "loop_step s ?s" using Cons.prems by (rule loop_step.run_one)
  moreover have "loop_step\<^sup>*\<^sup>* ?s (?s\<lparr>ls_pc := Running [], ls_ran := ls_ran ?s @ fs\<rparr>)" by (rule Cons.IH) simp
  ultimately show ?case by (simp add: converse_rtranclp_into_rtranclp)
qed

lemma handling_runs_pending:
  assumes "ls_pc s = Handling b"
  shows "\<exists>t. loop_step\<^sup>*\<^sup>* s t \<and> ls_pc t = AtTest \<and> ls_ran t = ls_ran s @ el_pendingFunctors (ls_loop s) \<and>
    el_pendingFunctors (ls_loop t) = [] \<and> el_quit (ls_loop t) = el_quit (ls_loop s)"
proof -
  let ?fs = "el_pendingFunctors (ls_loop s)"
  obtain u where u: "loop_step\<^sup>*\<^sup>* s u" "ls_pc u = Handling False" "ls_ran u = ls_ran s"
    "el_pendingFunctors (ls_loop u) = ?fs" "el_quit (ls_loop u) = el_quit (ls_loop s)"
  proof (cases b)
    case True
    then have "loop_step s (s\<lparr>ls_pc := Handling False, ls_loop := el_handleRead (ls_loop s)\<rparr>)"
      using assms loop_step.read_eventfd by simp
    then show ?thesis by (intro that [of "s\<lparr>ls_pc := Handling False, ls_loop := el_handleRead (ls_loop s)\<rparr>"])
        (auto simp: el_handleRead_def)
  qed (use assms that [of s] in simp)
  let ?v = "u\<lparr>ls_pc := BeforeSwap, ls_loop := (ls_loop u)\<lparr>el_callingPendingFunctors := True\<rparr>\<rparr>"
  let ?w = "?v\<lparr>ls_pc := Running ?fs, ls_loop := (ls_loop ?v)\<lparr>el_pendingFunctors := []\<rparr>\<rparr>"
  let ?x = "?w\<lparr>ls_pc := Running [], ls_ran := ls_ran ?w @ ?fs\<rparr>"
  let ?y = "?x\<lparr>ls_pc := AtTest, ls_loop := (ls_loop ?x)\<lparr>el_callingPendingFunctors := False\<rparr>\<rparr>"
  have "loop_step u ?v" using u(2) by (rule loop_step.handled)
  moreover have "loop_step ?v ?w" by (rule loop_step.swapped) (simp_all add: swap_functors_def u(4))
  moreover have "loop_step\<^sup>*\<^sup>* ?w ?x" by (rule run_all_functors) simp
  moreover have "loop_step ?x ?y" by (rule loop_step.run_done) simp
  ultimately have "loop_step\<^sup>*\<^sup>* s ?y" using u(1) by (meson rtranclp.rtrancl_into_rtrancl rtranclp_trans)
  then show ?thesis using u by (intro exI [of _ ?y]) simp
qed

section \<open>Properties\<close>

text \<open>C3. No lost wake-up: under every interleaving of the loop thread with other threads that queue
  functors or ask it to quit, whenever the loop sits in \<open>poll\<close> with functors pending or \<open>quit_\<close> set, its
  \<open>eventfd\<close> is readable or a thread is about to write to it.\<close>

theorem loop_never_sleeps_on_work:
  assumes "el_pendingFunctors l = []" "\<not> el_callingPendingFunctors l" "sys_reach (enter_loop l) s"
    "ls_pc s = AtPoll" "el_pendingFunctors (ls_loop s) \<noteq> [] \<or> el_quit (ls_loop s)"
  shows "0 < el_eventfd (ls_loop s) \<or> 0 < ls_owed s"
  using sys_reach_inv [OF assms(3) enter_loop_inv [OF assms(1,2)]] assms(4,5)
  by (auto simp: sys_inv_def announced_def)

text \<open>C22. Functors run exactly once and in the order in which they were queued: at every moment the
  functors started, those being run and those pending are together the functors queued so far.\<close>

theorem functors_run_in_order:
  assumes "el_pendingFunctors l = []" "\<not> el_callingPendingFunctors l" "sys_reach (enter_loop l) s"
  shows "ls_ran s @ running (ls_pc s) @ el_pendingFunctors (ls_loop s) = ls_queued s"
  using sys_reach_inv [OF assms(3) enter_loop_inv [OF assms(1,2)]] by (simp add: sys_inv_def)


text \<open>A functor that the loop's own thread queues before it calls \<open>loop()\<close> is not announced: the loop
  can reach \<open>poll\<close>, which waits without a limit, with the functor pending, the \<open>eventfd\<close> at zero and no
  thread about to write to it.\<close>

theorem prequeued_functor_not_announced:
  fixes l :: "'f event_loop"
  assumes "el_eventfd l = 0" "\<not> el_callingPendingFunctors l"
  shows "\<exists>s. sys_reach (enter_loop (queueInLoop True f l)) s \<and> ls_pc s = AtPoll \<and>
    f \<in> set (el_pendingFunctors (ls_loop s)) \<and> el_eventfd (ls_loop s) = 0 \<and> ls_owed s = 0 \<and> kPollTimeMs < 0"
proof -
  let ?s = "enter_loop (queueInLoop True f l)"
  have "loop_step ?s (?s\<lparr>ls_pc := AtPoll\<rparr>)" by (rule loop_step.test_poll) (simp_all add: enter_loop_def)
  then have "sys_reach ?s (?s\<lparr>ls_pc := AtPoll\<rparr>)" using sys_reach.reach_loop sys_reach.reach_refl by blast
  then show ?thesis
    using assms by (intro exI [of _ "?s\<lparr>ls_pc := AtPoll\<rparr>"])
      (simp add: enter_loop_def queueInLoop_def push_functor_def needs_wakeup_def kPollTimeMs_def)
qed

subsection \<open>Witnesses\<close>

definition idle_loop :: "nat event_loop" where
  "idle_loop = \<lparr>lw_this = 1, lw_inLoop = True, lw_heap = Map.empty, lw_poller = newDefaultPoller False,
     lw_eventHandling = False, lw_active = [], lw_current = None, el_looping = False, el_quit = False,
     el_callingPendingFunctors = False, el_iteration = 0, el_pollReturnTime = 0, el_pendingFunctors = [],
     el_eventfd = 0\<rparr>"

text \<open>The loop waits; another thread has queued the functor 5 and not yet written to the \<open>eventfd\<close>.\<close>

definition pushed_state :: "nat loop_sys" where
  "pushed_state = (enter_loop idle_loop)\<lparr>ls_pc := AtPoll, ls_loop := push_functor 5 (ls_loop (enter_loop idle_loop)),
     ls_queued := [5], ls_owed := 1\<rparr>"

lemma pushed_state_reachable: "sys_reach (enter_loop idle_loop) pushed_state"
proof -
  let ?s = "(enter_loop idle_loop)\<lparr>ls_pc := AtPoll\<rparr>"
  have "loop_step (enter_loop idle_loop) ?s"
    by (rule loop_step.test_poll) (simp_all add: enter_loop_def idle_loop_def)
  moreover have "call_step ?s (?s\<lparr>ls_loop := push_functor 5 (ls_loop ?s), ls_queued := ls_queued ?s @ [5],
      ls_owed := ls_owed ?s + 1\<rparr>)" by (rule call_step.other_push)
  then have "call_step ?s pushed_state"
    by (simp add: pushed_state_def enter_loop_def idle_loop_def)
  ultimately show ?thesis by (meson sys_reach.intros)
qed

theorem loop_never_sleeps_on_work_witness:
  "el_pendingFunctors (ls_loop pushed_state) = [5] \<and> (0 < el_eventfd (ls_loop pushed_state) \<or> 0 < ls_owed pushed_state)"
  using loop_never_sleeps_on_work [OF _ _ pushed_state_reachable]
  by (simp add: pushed_state_def idle_loop_def enter_loop_def push_functor_def)

theorem functors_run_in_order_witness:
  "ls_ran pushed_state @ running (ls_pc pushed_state) @ el_pendingFunctors (ls_loop pushed_state) = [5]"
  using functors_run_in_order [OF _ _ pushed_state_reachable]
  by (simp add: idle_loop_def) (simp add: pushed_state_def)


theorem prequeued_functor_not_announced_witness:
  "\<exists>s. sys_reach (enter_loop (queueInLoop True 5 idle_loop)) s \<and> ls_pc s = AtPoll \<and>
    5 \<in> set (el_pendingFunctors (ls_loop s)) \<and> el_eventfd (ls_loop s) = 0 \<and> ls_owed s = 0"
  using prequeued_functor_not_announced [of idle_loop 5] by (auto simp: idle_loop_def)

end
