(* ===== verification/Connector.thy ===== *)
theory Connector
  imports Event_Loop Timestamps "HOL-Library.Multiset"
begin

text \<open>
  The connector (\<open>src/muduo/net/Connector.h\<close>, \<open>Connector.cpp\<close>): non-blocking connects on a loop, with
  an exponential back-off between attempts. The record extends the loop's state. \<open>cn_opened\<close>,
  \<open>cn_closed\<close> and \<open>cn_handed\<close> record the sockets created, closed and handed to the client, and
  \<open>cn_timers\<close> the delays of the timers started to run \<open>startInLoop\<close> again.
\<close>

datatype connector_state = kcDisconnected | kcConnecting | kcConnected

datatype connector_task = StartInLoopTask | StopInLoopTask | ResetChannelTask

record connector = "connector_task event_loop" +
  cn_connect :: bool
  cn_state :: connector_state
  cn_channel :: "nat option"
  cn_retryDelayMs :: int
  cn_opened :: "int list"
  cn_closed :: "int list"
  cn_handed :: "int list"
  cn_timers :: "rat list"

definition kMaxRetryDelayMs :: int where "kMaxRetryDelayMs = 30 * 1000"
definition kInitRetryDelayMs :: int where "kInitRetryDelayMs = 500"

definition new_Connector :: "connector_task event_loop \<Rightarrow> connector" where
  "new_Connector l = event_loop.extend l
     \<lparr>cn_connect = False, cn_state = kcDisconnected, cn_channel = None, cn_retryDelayMs = kInitRetryDelayMs,
      cn_opened = [], cn_closed = [], cn_handed = [], cn_timers = []\<rparr>"

definition destroy_Connector :: "connector \<Rightarrow> connector result" where
  "destroy_Connector s = assert_ok (cn_channel s = None) (Inr s)"

definition connector_stateToString :: "connector_state \<Rightarrow> string" where
  "connector_stateToString st = (case st of kcDisconnected \<Rightarrow> ''kDisconnected'' | kcConnecting \<Rightarrow> ''kConnecting''
     | kcConnected \<Rightarrow> ''kConnected'')"

section \<open>Operations\<close>

definition close_socket :: "int \<Rightarrow> connector \<Rightarrow> connector" where
  "close_socket sockfd s = s\<lparr>cn_closed := cn_closed s @ [sockfd]\<rparr>"

definition retry :: "int \<Rightarrow> connector \<Rightarrow> connector" where
  "retry sockfd s =
     (let s1 = (close_socket sockfd s)\<lparr>cn_state := kcDisconnected\<rparr> in
      if cn_connect s1 then
        s1\<lparr>cn_timers := cn_timers s1 @ [of_int (cn_retryDelayMs s1) / 1000],
           cn_retryDelayMs := min (cn_retryDelayMs s1 * 2) kMaxRetryDelayMs\<rparr>
      else s1)"

text \<open>\<open>connecting\<close> with the new channel at the free address \<open>p\<close>.\<close>

definition connecting :: "nat \<Rightarrow> int \<Rightarrow> connector \<Rightarrow> connector result" where
  "connecting p sockfd s =
     (let s1 = s\<lparr>cn_state := kcConnecting\<rparr> in
      assert_ok (cn_channel s1 = None)
        (let s2 = create_channel p (setErrorCallback (setWriteCallback (new_channel (lw_this s1) sockfd)))
                    (s1\<lparr>cn_channel := Some p\<rparr>)
         in enableWriting p s2))"

text \<open>The error numbers \<open>connect\<close> distinguishes (Linux values).\<close>

definition connect_proceeds :: "int \<Rightarrow> bool" where
  "connect_proceeds e \<longleftrightarrow> e \<in> {0, 115, 4, 106}"       \<comment> \<open>0, EINPROGRESS, EINTR, EISCONN\<close>
definition connect_retries :: "int \<Rightarrow> bool" where
  "connect_retries e \<longleftrightarrow> e \<in> {11, 98, 99, 111, 101}"   \<comment> \<open>EAGAIN, EADDRINUSE, EADDRNOTAVAIL, ECONNREFUSED, ENETUNREACH\<close>

text \<open>\<open>connect\<close>: \<open>sockfd\<close> is the new socket, \<open>savedErrno\<close> the outcome of the system call.\<close>

definition connector_connect :: "nat \<Rightarrow> int \<times> int \<Rightarrow> connector \<Rightarrow> connector result" where
  "connector_connect p att s =
     (case att of (sockfd, savedErrno) \<Rightarrow>
      let s1 = s\<lparr>cn_opened := cn_opened s @ [sockfd]\<rparr> in
      if connect_proceeds savedErrno then connecting p sockfd s1
      else if connect_retries savedErrno then Inr (retry sockfd s1)
      else Inr (close_socket sockfd s1))"

definition startInLoop :: "nat \<Rightarrow> int \<times> int \<Rightarrow> connector \<Rightarrow> connector result" where
  "startInLoop p att s =
     assert_loop (lw_inLoop s) (assert_ok (cn_state s = kcDisconnected)
       (if cn_connect s then connector_connect p att s else Inr s))"

definition connector_start :: "nat \<Rightarrow> int \<times> int \<Rightarrow> connector \<Rightarrow> connector result" where
  "connector_start p att s =
     (let s1 = s\<lparr>cn_connect := True\<rparr> in
      if lw_inLoop s1 then startInLoop p att s1 else Inr (queueInLoop (lw_inLoop s1) StartInLoopTask s1))"

definition connector_restart :: "nat \<Rightarrow> int \<times> int \<Rightarrow> connector \<Rightarrow> connector result" where
  "connector_restart p att s =
     assert_loop (lw_inLoop s)
       (startInLoop p att (s\<lparr>cn_state := kcDisconnected, cn_retryDelayMs := kInitRetryDelayMs, cn_connect := True\<rparr>))"

definition removeAndResetChannel :: "connector \<Rightarrow> (int \<times> connector) result" where
  "removeAndResetChannel s =
     (case cn_channel s of
        None \<Rightarrow> Inl UseAfterFree
      | Some p \<Rightarrow>
          rbind (disableAll p s) (\<lambda>s1.
          rbind (channel_remove p s1) (\<lambda>s2.
          rbind (chan_at p (lw_heap s2)) (\<lambda>c.
            Inr (chan_fd c, queueInLoop (lw_inLoop s2) ResetChannelTask s2)))))"

definition resetChannel :: "connector \<Rightarrow> connector result" where
  "resetChannel s =
     (case cn_channel s of
        None \<Rightarrow> Inr s
      | Some p \<Rightarrow> rbind (destroy_channel p s) (\<lambda>s1. Inr (s1\<lparr>cn_channel := None\<rparr>)))"

definition stopInLoop :: "connector \<Rightarrow> connector result" where
  "stopInLoop s =
     assert_loop (lw_inLoop s)
       (if cn_state s = kcConnecting then
          rbind (removeAndResetChannel (s\<lparr>cn_state := kcDisconnected\<rparr>)) (\<lambda>(sockfd, s1). Inr (retry sockfd s1))
        else Inr s)"

definition connector_stop :: "connector \<Rightarrow> connector" where
  "connector_stop s = (let s1 = s\<lparr>cn_connect := False\<rparr> in queueInLoop (lw_inLoop s1) StopInLoopTask s1)"

text \<open>
  \<open>handleWrite\<close>: \<open>err\<close> is the pending socket error, \<open>self\<close> whether the socket is connected to itself.
  The callback of the client receives the socket.
\<close>

definition connector_handleWrite :: "int \<Rightarrow> bool \<Rightarrow> (int \<Rightarrow> connector \<Rightarrow> connector result) \<Rightarrow> connector \<Rightarrow> connector result" where
  "connector_handleWrite err self newConnectionCallback s =
     (if cn_state s = kcConnecting then
        rbind (removeAndResetChannel s) (\<lambda>(sockfd, s1).
          if err \<noteq> 0 then Inr (retry sockfd s1)
          else if self then Inr (retry sockfd s1)
          else
            let s2 = s1\<lparr>cn_state := kcConnected\<rparr> in
            if cn_connect s2 then newConnectionCallback sockfd (s2\<lparr>cn_handed := cn_handed s2 @ [sockfd]\<rparr>)
            else Inr (close_socket sockfd s2))
      else assert_ok (cn_state s = kcDisconnected) (Inr s))"

definition connector_handleError :: "connector \<Rightarrow> connector result" where
  "connector_handleError s =
     (if cn_state s = kcConnecting
      then rbind (removeAndResetChannel s) (\<lambda>(sockfd, s1). Inr (retry sockfd s1)) else Inr s)"

text \<open>The functors the connector queues; \<open>p\<close> and \<open>att\<close> are used when the functor starts an attempt.\<close>

definition run_connector_task :: "nat \<Rightarrow> int \<times> int \<Rightarrow> connector_task \<Rightarrow> connector \<Rightarrow> connector result" where
  "run_connector_task p att t s =
     (case t of StartInLoopTask \<Rightarrow> startInLoop p att s | StopInLoopTask \<Rightarrow> stopInLoop s | ResetChannelTask \<Rightarrow> resetChannel s)"

section \<open>The invariant\<close>

text \<open>
  While connecting, the channel is registered and watches for writability. Every socket ever
  created has been closed, has been handed over, or is the one being connected.
\<close>

definition chan_waiting :: "connector \<Rightarrow> nat \<Rightarrow> channel \<Rightarrow> bool" where
  "chan_waiting s p c \<longleftrightarrow> loop_wf s \<and> cn_channel s = Some p \<and> lw_heap s p = Some c \<and> ownerLoop c = lw_this s \<and>
     0 \<le> chan_fd c \<and> registered p s \<and> (lw_eventHandling s \<longrightarrow> lw_current s = Some p \<or> p \<notin> set (lw_active s))"

definition sockets_accounted :: "connector \<Rightarrow> int list \<Rightarrow> bool" where
  "sockets_accounted s now \<longleftrightarrow> mset (cn_opened s) = mset (cn_closed s) + mset (cn_handed s) + mset now"

definition delay_ok :: "connector \<Rightarrow> bool" where
  "delay_ok s \<longleftrightarrow> kInitRetryDelayMs \<le> cn_retryDelayMs s \<and> cn_retryDelayMs s \<le> kMaxRetryDelayMs"

definition cn_idle :: "connector \<Rightarrow> bool" where
  "cn_idle s \<longleftrightarrow> loop_wf s \<and> cn_state s \<noteq> kcConnecting \<and> cn_channel s = None \<and> sockets_accounted s [] \<and> delay_ok s"

definition cn_waiting :: "connector \<Rightarrow> nat \<Rightarrow> channel \<Rightarrow> bool" where
  "cn_waiting s p c \<longleftrightarrow> chan_waiting s p c \<and> cn_state s = kcConnecting \<and> sockets_accounted s [chan_fd c] \<and> delay_ok s"

text \<open>After the attempt: the channel is out of the poller and waits for its deletion.\<close>

definition cn_detached :: "connector \<Rightarrow> nat \<Rightarrow> channel \<Rightarrow> bool" where
  "cn_detached s p c \<longleftrightarrow> loop_wf s \<and> cn_state s \<noteq> kcConnecting \<and> cn_channel s = Some p \<and> lw_heap s p = Some c \<and>
     ownerLoop c = lw_this s \<and> \<not> addedToLoop c \<and> sockets_accounted s [] \<and> delay_ok s \<and>
     ResetChannelTask \<in> set (el_pendingFunctors s) \<and> poller_interest (lw_poller s) (chan_fd c) = 0"

lemmas cn_defs = cn_idle_def cn_waiting_def cn_detached_def chan_waiting_def sockets_accounted_def delay_ok_def

lemma cn_queue_parts [simp]:
  fixes s :: connector
  shows "lw_heap (queueInLoop b t s) = lw_heap s" "lw_poller (queueInLoop b t s) = lw_poller s"
    "lw_this (queueInLoop b t s) = lw_this s" "lw_inLoop (queueInLoop b t s) = lw_inLoop s"
    "cn_connect (queueInLoop b t s) = cn_connect s" "cn_state (queueInLoop b t s) = cn_state s"
    "cn_channel (queueInLoop b t s) = cn_channel s" "cn_retryDelayMs (queueInLoop b t s) = cn_retryDelayMs s"
    "cn_opened (queueInLoop b t s) = cn_opened s" "cn_closed (queueInLoop b t s) = cn_closed s"
    "cn_handed (queueInLoop b t s) = cn_handed s" "cn_timers (queueInLoop b t s) = cn_timers s"
    "el_pendingFunctors (queueInLoop b t s) = el_pendingFunctors s @ [t]"
  by (simp_all add: queueInLoop_def push_functor_def wakeup_def Let_def)

lemma removeAndResetChannel_ok:
  assumes "chan_waiting s p c"
  shows "\<exists>s' c' h ps. removeAndResetChannel s = Inr (chan_fd c, s') \<and> loop_wf s' \<and> lw_heap s' p = Some c' \<and>
    \<not> addedToLoop c' \<and> ownerLoop c' = lw_this s' \<and> chan_fd c' = chan_fd c \<and> eventHandling c' = eventHandling c \<and>
    poller_interest (lw_poller s') (chan_fd c) = 0 \<and>
    s' = queueInLoop (lw_inLoop s) ResetChannelTask (s\<lparr>lw_heap := h, lw_poller := ps\<rparr>)"
proof -
  from assms have c: "loop_wf s" "cn_channel s = Some p" "lw_heap s p = Some c" "ownerLoop c = lw_this s" "0 \<le> chan_fd c"
    "registered p s" "lw_eventHandling s \<longrightarrow> lw_current s = Some p \<or> p \<notin> set (lw_active s)"
    by (auto simp: chan_waiting_def)
  from set_mask_upd [OF c(1,3-5), of "\<lambda>_. kNoneEvent"] c(6) obtain s1 c1 h1 ps1 where
    1: "set_mask (\<lambda>_. kNoneEvent) p s = Inr s1" "loop_wf s1" "registered p s1" "lw_heap s1 p = Some c1" "events c1 = 0"
    "ownerLoop c1 = lw_this s1" "chan_fd c1 = chan_fd c" "eventHandling c1 = eventHandling c"
    "s1 = s\<lparr>lw_heap := h1, lw_poller := ps1\<rparr>" by (auto simp: kNoneEvent_def)
  from channel_remove_upd [OF 1(2,4,3,5)] 1(9) c(7) obtain s2 c2 h ps where
    2: "channel_remove p s1 = Inr s2" "loop_wf s2" "lw_heap s2 p = Some c2" "\<not> addedToLoop c2" "ownerLoop c2 = ownerLoop c1"
    "chan_fd c2 = chan_fd c1" "eventHandling c2 = eventHandling c1"
    "poller_interest (lw_poller s2) = (poller_interest (lw_poller s1))(chan_fd c1 := 0)"
    "s2 = s1\<lparr>lw_heap := h, lw_poller := ps\<rparr>" by auto
  let ?s = "queueInLoop (lw_inLoop s) ResetChannelTask s2"
  have "removeAndResetChannel s = Inr (chan_fd c, ?s)"
    using c(2) 1(1,7,9) 2 by (simp add: removeAndResetChannel_def disableAll_def)
  moreover have "loop_wf ?s" using 2(2) by (simp add: loop_wf_def)
  ultimately show ?thesis using 1 2
    by (intro exI [of _ ?s] exI [of _ c2] exI [of _ h] exI [of _ ps]) simp
qed

text \<open>An attempt that gets under way: the channel is new, registered, and watches for writability.\<close>

lemma connecting_ok:
  assumes "loop_wf s" "cn_channel s = None" "lw_heap s p = None" "0 \<le> fd"
    "map_of (poller_channels (lw_poller s)) fd = None"
    "lw_eventHandling s \<longrightarrow> p \<notin> set (lw_active s)"
  shows "\<exists>s' c h ps. connecting p fd s = Inr s' \<and> chan_waiting s' p c \<and> chan_fd c = fd \<and> \<not> eventHandling c \<and>
    poller_interest (lw_poller s') fd = kWriteEvent \<and>
    s' = s\<lparr>cn_state := kcConnecting, cn_channel := Some p, lw_heap := h, lw_poller := ps\<rparr>"
proof -
  let ?c = "setErrorCallback (setWriteCallback (new_channel (lw_this s) fd))"
  let ?s = "s\<lparr>cn_state := kcConnecting, cn_channel := Some p\<rparr>" and ?m = mask_enableWriting
  have c: "index ?c = -1" "chan_fd ?c = fd" "ownerLoop ?c = lw_this s" "\<not> eventHandling ?c" "?m ?c = kWriteEvent"
    by (simp_all add: setErrorCallback_def setWriteCallback_def new_channel_def mask_enableWriting_def)
  have wf: "loop_wf ?s" using assms(1) by (simp add: loop_wf_def)
  note cr = create_channel_ok [OF wf, of p ?c]
  let ?t = "create_channel p ?c ?s"
  have t: "loop_wf ?t" "fresh_chan p ?t" "lw_heap ?t p = Some ?c" "ownerLoop ?c = lw_this ?t"
    using cr assms c by (simp_all add: create_channel_def)
  from set_mask_ok [OF t(1,3,4), of ?m] t(2) c assms(4) obtain u i where
    u: "set_mask ?m p ?t = Inr u" "loop_wf u" "same_rest ?t u" "registered p u"
      "lw_heap u p = Some (set_index i (?c\<lparr>events := kWriteEvent, addedToLoop := True\<rparr>))"
      "poller_interest (lw_poller u) = (poller_interest (lw_poller ?t))(fd := kWriteEvent)"
    by (auto simp: kWriteEvent_def POLLOUT_def)
  have "u = ?t\<lparr>lw_heap := lw_heap u, lw_poller := lw_poller u\<rparr>" using u(3) by (simp add: same_rest_def)
  then have eq: "u = ?s\<lparr>lw_heap := lw_heap u, lw_poller := lw_poller u\<rparr>"
    by (metis (no_types, lifting) create_channel_def loop_world.unfold_congs(3) loop_world.update_convs(3) loop_world.surjective)
  have "lw_this u = lw_this s" "lw_active u = lw_active s" "lw_eventHandling u = lw_eventHandling s"
    "cn_channel u = Some p" by (subst eq, simp)+
  moreover have "connecting p fd s = Inr u"
    using u(1) assms(2) by (simp add: connecting_def enableWriting_def Let_def)
  ultimately show ?thesis using u(2,4-6) assms(4,6) c eq
    by (intro exI [of _ u] exI [of _ "set_index i (?c\<lparr>events := kWriteEvent, addedToLoop := True\<rparr>)"]
          exI [of _ "lw_heap u"] exI [of _ "lw_poller u"] conjI) (auto simp: chan_waiting_def set_index_def)
qed

text \<open>The state after a callback has run on a waiting channel, up to the socket's fate.\<close>

lemma detached_after:
  assumes w: "chan_waiting s p c" "sockets_accounted s [chan_fd c]" "delay_ok s"
  shows "\<exists>t c'. removeAndResetChannel s = Inr (chan_fd c, t) \<and> eventHandling c' = eventHandling c \<and>
     cn_connect t = cn_connect s \<and> cn_closed t = cn_closed s \<and> cn_handed t = cn_handed s \<and>
     cn_detached (retry (chan_fd c) t) p c' \<and> cn_detached (close_socket (chan_fd c) (t\<lparr>cn_state := kcConnected\<rparr>)) p c' \<and>
     cn_detached (t\<lparr>cn_state := kcConnected, cn_handed := cn_handed s @ [chan_fd c]\<rparr>) p c'"
proof -
  from removeAndResetChannel_ok [OF w(1)] obtain t c' h ps where
    r: "removeAndResetChannel s = Inr (chan_fd c, t)" "loop_wf t" "lw_heap t p = Some c'"
    "\<not> addedToLoop c'" "ownerLoop c' = lw_this t" "chan_fd c' = chan_fd c" "eventHandling c' = eventHandling c"
    "poller_interest (lw_poller t) (chan_fd c) = 0"
    "t = queueInLoop (lw_inLoop s) ResetChannelTask (s\<lparr>lw_heap := h, lw_poller := ps\<rparr>)" by blast
  have t: "cn_connect t = cn_connect s" "cn_opened t = cn_opened s" "cn_closed t = cn_closed s"
    "cn_handed t = cn_handed s" "cn_timers t = cn_timers s" "cn_retryDelayMs t = cn_retryDelayMs s"
    "cn_channel t = Some p" "ResetChannelTask \<in> set (el_pendingFunctors t)"
    using w unfolding r(9) by (simp_all add: chan_waiting_def)
  have acc: "mset (cn_opened s) = mset (cn_closed s) + mset (cn_handed s) + {#chan_fd c#}"
    using w(2) by (simp add: sockets_accounted_def)
  note fold = cn_detached_def retry_def close_socket_def sockets_accounted_def delay_ok_def loop_wf_def Let_def
  have "cn_detached (retry (chan_fd c) t) p c'"
    using r(2-6,8) t acc w(3) by (auto simp: fold kMaxRetryDelayMs_def kInitRetryDelayMs_def)
  moreover have "cn_detached (close_socket (chan_fd c) (t\<lparr>cn_state := kcConnected\<rparr>)) p c'"
    using r(2-6,8) t acc w(3) by (auto simp: fold)
  moreover have "cn_detached (t\<lparr>cn_state := kcConnected, cn_handed := cn_handed s @ [chan_fd c]\<rparr>) p c'"
    using r(2-6,8) t acc w(3) by (auto simp: fold)
  ultimately show ?thesis using r(1,7) t by blast
qed

lemma resetChannel_ok:
  assumes "cn_detached s p c" "\<not> eventHandling c"
  shows "\<exists>t. resetChannel s = Inr t \<and> cn_idle t \<and> cn_state t = cn_state s \<and> cn_connect t = cn_connect s \<and>
    cn_retryDelayMs t = cn_retryDelayMs s \<and> lw_heap t p = None"
proof -
  from assms have "loop_wf s" "lw_heap s p = Some c" "ownerLoop c = lw_this s" "\<not> addedToLoop c" "cn_channel s = Some p"
    by (simp_all add: cn_detached_def)
  with destroy_channel_ok [of s p c] assms(2) obtain t where
    t: "destroy_channel p s = Inr t" "loop_wf t" "t = s\<lparr>lw_heap := (lw_heap s)(p := None)\<rparr>" by auto
  then have "resetChannel s = Inr (t\<lparr>cn_channel := None\<rparr>)" using \<open>cn_channel s = Some p\<close> by (simp add: resetChannel_def)
  then show ?thesis using t assms(1)
    by (intro exI [of _ "t\<lparr>cn_channel := None\<rparr>"]) (auto simp: cn_defs loop_wf_def)
qed

text \<open>One attempt, whatever \<open>connect\<close> returns.\<close>

lemma startInLoop_ok:
  assumes "cn_idle s" "cn_state s = kcDisconnected" "cn_connect s" "lw_heap s p = None" "0 \<le> fd"
    "map_of (poller_channels (lw_poller s)) fd = None" "lw_eventHandling s \<longrightarrow> p \<notin> set (lw_active s)"
  shows "\<exists>s'. startInLoop p (fd, e) s = Inr s' \<and>
    (if connect_proceeds e
     then (\<exists>c. cn_waiting s' p c \<and> chan_fd c = fd \<and> \<not> eventHandling c) \<and> poller_interest (lw_poller s') fd = kWriteEvent
     else cn_idle s' \<and> cn_state s' = kcDisconnected \<and> cn_closed s' = cn_closed s @ [fd] \<and>
       cn_timers s' = cn_timers s @ (if connect_retries e then [of_int (cn_retryDelayMs s) / 1000] else []))"
proof -
  have inl: "lw_inLoop s" using assms(1) by (simp add: cn_idle_def loop_wf_def)
  let ?s = "s\<lparr>cn_opened := cn_opened s @ [fd]\<rparr>"
  have start: "startInLoop p (fd, e) s =
      (if connect_proceeds e then connecting p fd ?s
       else if connect_retries e then Inr (retry fd ?s) else Inr (close_socket fd ?s))"
    using inl assms(2,3) by (simp add: startInLoop_def assert_loop_def connector_connect_def Let_def)
  have "\<exists>s' c h ps. connecting p fd ?s = Inr s' \<and> chan_waiting s' p c \<and> chan_fd c = fd \<and> \<not> eventHandling c \<and>
      poller_interest (lw_poller s') fd = kWriteEvent \<and>
      s' = ?s\<lparr>cn_state := kcConnecting, cn_channel := Some p, lw_heap := h, lw_poller := ps\<rparr>"
    by (rule connecting_ok) (use assms in \<open>auto simp: cn_idle_def loop_wf_def\<close>)
  then have "connect_proceeds e \<Longrightarrow> ?thesis"
    using assms(1) start by (auto simp: cn_waiting_def cn_idle_def sockets_accounted_def delay_ok_def)
  moreover have "\<not> connect_proceeds e \<Longrightarrow> ?thesis"
    using assms(1-3) start
    by (auto simp: cn_defs retry_def close_socket_def Let_def loop_wf_def kMaxRetryDelayMs_def kInitRetryDelayMs_def)
  ultimately show ?thesis by blast
qed

section \<open>Properties\<close>

text \<open>One attempt to connect, from an idle connector with a fresh socket: if \<open>connect\<close> succeeds or is
  in progress, the socket is watched for writability and the connector waits; on every other error the
  socket is closed, the connector is idle again, and a retry timer runs exactly if the error is a
  transient one.\<close>

theorem connector_attempt:
  assumes "cn_idle s" "cn_state s = kcDisconnected" "cn_connect s" "lw_heap s p = None" "0 \<le> fd"
    "map_of (poller_channels (lw_poller s)) fd = None" "lw_eventHandling s \<longrightarrow> p \<notin> set (lw_active s)"
  shows "\<exists>s'. startInLoop p (fd, e) s = Inr s' \<and>
    (if connect_proceeds e
     then (\<exists>c. cn_waiting s' p c \<and> chan_fd c = fd \<and> \<not> eventHandling c) \<and> poller_interest (lw_poller s') fd = kWriteEvent
     else cn_idle s' \<and> cn_state s' = kcDisconnected \<and> cn_closed s' = cn_closed s @ [fd] \<and>
       cn_timers s' = cn_timers s @ (if connect_retries e then [of_int (cn_retryDelayMs s) / 1000] else []))"
  by (rule startInLoop_ok [OF assms])

text \<open>C25. Every way an attempt can end, the writable event, the error event and \<open>stop\<close>, takes the socket out
  of the poller and either hands it to the client or closes it, never both and never neither; it is
  handed over exactly if the socket has no error, is not connected to itself and the connector has not
  been stopped meanwhile. The queued \<open>resetChannel\<close> then deletes the channel and leaves an idle
  connector.\<close>

theorem connector_outcome:
  assumes "cn_waiting s p c" "\<not> eventHandling c"
    "op \<in> {(connector_handleWrite err self (\<lambda>_. Inr), err = 0 \<and> \<not> self), (connector_handleError, False), (stopInLoop, False)}"
  shows "\<exists>s' c' t. fst op s = Inr s' \<and> cn_detached s' p c' \<and>
    (if snd op \<and> cn_connect s
     then cn_handed s' = cn_handed s @ [chan_fd c] \<and> cn_closed s' = cn_closed s \<and> cn_state s' = kcConnected
     else cn_handed s' = cn_handed s \<and> cn_closed s' = cn_closed s @ [chan_fd c]) \<and>
    resetChannel s' = Inr t \<and> cn_idle t \<and> lw_heap t p = None"
proof -
  have st: "cn_state s = kcConnecting" "lw_inLoop s" and w: "chan_waiting s p c" "sockets_accounted s [chan_fd c]" "delay_ok s"
    using assms(1) by (auto simp: cn_waiting_def chan_waiting_def loop_wf_def)
  have end_ok: "\<exists>s' c' t. fst op s = Inr s' \<and> cn_detached s' p c' \<and> Q s' \<and> resetChannel s' = Inr t \<and> cn_idle t \<and> lw_heap t p = None"
    if "fst op s = Inr u" "cn_detached u p d" "eventHandling d = eventHandling c" "Q u" for Q u d
    using that resetChannel_ok [OF that(2)] assms(2) by blast
  let ?s = "s\<lparr>cn_state := kcDisconnected\<rparr>"
  have w': "chan_waiting ?s p c" "sockets_accounted ?s [chan_fd c]" "delay_ok ?s"
    using w by (auto simp: chan_waiting_def sockets_accounted_def delay_ok_def loop_wf_def registered_def)
  note parts = retry_def close_socket_def Let_def
  consider "op = (connector_handleWrite err self (\<lambda>_. Inr), err = 0 \<and> \<not> self)" | "op = (connector_handleError, False)"
    | "op = (stopInLoop, False)" using assms(3) by auto
  then show ?thesis
  proof cases
    case 1
    obtain t c' where t: "removeAndResetChannel s = Inr (chan_fd c, t)" "eventHandling c' = eventHandling c"
      "cn_connect t = cn_connect s" "cn_closed t = cn_closed s" "cn_handed t = cn_handed s"
      "cn_detached (retry (chan_fd c) t) p c'" "cn_detached (close_socket (chan_fd c) (t\<lparr>cn_state := kcConnected\<rparr>)) p c'"
      "cn_detached (t\<lparr>cn_state := kcConnected, cn_handed := cn_handed s @ [chan_fd c]\<rparr>) p c'"
      using detached_after [OF w] by blast
    show ?thesis
      by (rule end_ok [of "if err \<noteq> 0 \<or> self then retry (chan_fd c) t else if cn_connect s
            then t\<lparr>cn_state := kcConnected, cn_handed := cn_handed s @ [chan_fd c]\<rparr>
            else close_socket (chan_fd c) (t\<lparr>cn_state := kcConnected\<rparr>)" c'])
        (use 1 st t in \<open>auto simp: connector_handleWrite_def parts\<close>)
  next
    case 2
    from detached_after [OF w] obtain t c' where "removeAndResetChannel s = Inr (chan_fd c, t)" "eventHandling c' = eventHandling c"
      "cn_closed t = cn_closed s" "cn_handed t = cn_handed s" "cn_detached (retry (chan_fd c) t) p c'" by blast
    then show ?thesis
      by (intro end_ok [of "retry (chan_fd c) t" c']) (use 2 st in \<open>auto simp: connector_handleError_def parts\<close>)
  next
    case 3
    from detached_after [OF w'] obtain t c' where "removeAndResetChannel ?s = Inr (chan_fd c, t)" "eventHandling c' = eventHandling c"
      "cn_closed t = cn_closed s" "cn_handed t = cn_handed s" "cn_detached (retry (chan_fd c) t) p c'" by auto
    then show ?thesis
      by (intro end_ok [of "retry (chan_fd c) t" c']) (use 3 st in \<open>auto simp: stopInLoop_def assert_loop_def parts\<close>)
  qed
qed

text \<open>The back-off: a connector whose attempts are all refused waits 0.5 s, 1 s, 2 s and so on, doubling
  up to 30 s, and closes every socket it opened.\<close>

theorem connector_backoff:
  assumes "lw_inLoop l" "\<forall>a\<in>set atts. connect_retries (snd a)"
  shows "\<exists>s. rfold (startInLoop p) atts ((new_Connector l)\<lparr>cn_connect := True\<rparr>) = Inr s \<and>
    cn_timers s = map (\<lambda>k. of_int (min (500 * 2 ^ k) 30000) / 1000) [0..<length atts] \<and>
    cn_opened s = map fst atts \<and> cn_closed s = map fst atts \<and> cn_state s = kcDisconnected \<and> cn_channel s = None"
proof -
  let ?s = "(new_Connector l)\<lparr>cn_connect := True\<rparr>"
  let ?I = "\<lambda>as (s::connector). lw_inLoop s \<and> cn_connect s \<and> cn_state s = kcDisconnected \<and> cn_channel s = None \<and>
    cn_retryDelayMs s = min (500 * 2 ^ length as) 30000 \<and> cn_opened s = map fst as \<and> cn_closed s = map fst as \<and>
    cn_timers s = map (\<lambda>k. of_int (min (500 * 2 ^ k) 30000) / 1000) [0..<length as]"
  have "\<exists>s. rfold (startInLoop p) atts ?s = Inr s \<and> ?I atts s"
  proof (rule rfold_invariant)
    show "?I [] ?s" using assms(1) by (simp add: new_Connector_def event_loop.defs kInitRetryDelayMs_def)
  next
    fix ys x zs and t :: connector assume x: "atts = ys @ x # zs" and I: "?I ys t"
    from x assms(2) have "connect_retries (snd x)" by simp
    moreover then have "\<not> connect_proceeds (snd x)" by (auto simp: connect_proceeds_def connect_retries_def)
    ultimately show "\<exists>t'. startInLoop p x t = Inr t' \<and> ?I (ys @ [x]) t'"
      using I by (cases x) (auto simp: startInLoop_def assert_loop_def connector_connect_def retry_def close_socket_def
          kMaxRetryDelayMs_def Let_def)
  qed
  then show ?thesis by blast
qed

text \<open>A retry timer outlives \<open>stop\<close>: if the connector is stopped after a refused attempt and started again
  before the timer fires, the new attempt is under way when the timer calls \<open>startInLoop\<close>, whose
  assertion that the connector is disconnected then aborts the process.\<close>

theorem connector_stale_timer_aborts:
  assumes "cn_idle s" "cn_state s = kcDisconnected" "cn_connect s" "lw_heap s p = None" "0 \<le> fd"
    "map_of (poller_channels (lw_poller s)) fd = None" "\<not> lw_eventHandling s" "connect_retries e" "connect_proceeds e'"
  shows "\<exists>s1 s2 s3. startInLoop p (fd, e) s = Inr s1 \<and> cn_timers s1 \<noteq> [] \<and>
    stopInLoop (connector_stop s1) = Inr s2 \<and> connector_start p (fd, e') s2 = Inr s3 \<and> cn_timers s3 = cn_timers s1 \<and>
    startInLoop q att s3 = Inl AssertFail"
proof -
  have no: "\<not> connect_proceeds e" using assms(8) by (auto simp: connect_proceeds_def connect_retries_def)
  have wf: "loop_wf s" "lw_inLoop s" using assms(1) by (auto simp: cn_idle_def loop_wf_def)
  define s1 where "s1 = retry fd (s\<lparr>cn_opened := cn_opened s @ [fd]\<rparr>)"
  define s2 where "s2 = connector_stop s1"
  define u where "u = s2\<lparr>cn_connect := True, cn_opened := cn_opened s2 @ [fd]\<rparr>"
  have p1: "lw_heap s1 = lw_heap s" "lw_poller s1 = lw_poller s" "lw_this s1 = lw_this s" "lw_inLoop s1" "cn_state s1 = kcDisconnected"
    "cn_channel s1 = None" "lw_eventHandling s1 = lw_eventHandling s" "cn_timers s1 \<noteq> []"
    using assms(1,3) wf by (simp_all add: s1_def retry_def close_socket_def Let_def cn_idle_def)
  have p2: "lw_heap s2 = lw_heap s" "lw_poller s2 = lw_poller s" "lw_this s2 = lw_this s" "lw_inLoop s2" "cn_state s2 = kcDisconnected"
    "cn_channel s2 = None" "lw_eventHandling s2 = lw_eventHandling s" "cn_timers s2 = cn_timers s1"
    unfolding s2_def connector_stop_def Let_def
    using p1 by (simp_all add: queueInLoop_def push_functor_def wakeup_def Let_def)
  have "\<exists>s3 c h ps. connecting p fd u = Inr s3 \<and> chan_waiting s3 p c \<and> chan_fd c = fd \<and> \<not> eventHandling c \<and>
      poller_interest (lw_poller s3) fd = kWriteEvent \<and>
      s3 = u\<lparr>cn_state := kcConnecting, cn_channel := Some p, lw_heap := h, lw_poller := ps\<rparr>"
    by (rule connecting_ok) (use assms(4-7) p2 wf(1) in \<open>auto simp: u_def loop_wf_def\<close>)
  then obtain s3 h ps where s3: "connecting p fd u = Inr s3"
    "s3 = u\<lparr>cn_state := kcConnecting, cn_channel := Some p, lw_heap := h, lw_poller := ps\<rparr>" by blast
  have "startInLoop p (fd, e) s = Inr s1"
    using assms(2,3,8) no wf by (simp add: startInLoop_def assert_loop_def connector_connect_def s1_def)
  moreover have "stopInLoop s2 = Inr s2" using p2 by (simp add: stopInLoop_def assert_loop_def)
  moreover have "connector_start p (fd, e') s2 = Inr s3"
    using p2 s3(1) assms(9) by (simp add: connector_start_def startInLoop_def assert_loop_def connector_connect_def u_def)
  moreover have "lw_inLoop s3" "cn_state s3 = kcConnecting" "cn_timers s3 = cn_timers s1" using s3(2) p2 by (simp_all add: u_def)
  ultimately show ?thesis using p1(8) s2_def by (auto simp: startInLoop_def assert_loop_def)
qed

subsection \<open>Witnesses\<close>

definition idle_connector :: connector where
  "idle_connector = (new_Connector \<lparr>lw_this = 1, lw_inLoop = True, lw_heap = Map.empty, lw_poller = newDefaultPoller False,
     lw_eventHandling = False, lw_active = [], lw_current = None, el_looping = True, el_quit = False,
     el_callingPendingFunctors = False, el_iteration = 0, el_pollReturnTime = 0, el_pendingFunctors = [],
     el_eventfd = 0\<rparr>)\<lparr>cn_connect := True\<rparr>"

lemma idle_connector_ok:
  "cn_idle idle_connector" "cn_state idle_connector = kcDisconnected" "cn_connect idle_connector"
  "lw_heap idle_connector 7 = None" "map_of (poller_channels (lw_poller idle_connector)) 9 = None"
  "\<not> lw_eventHandling idle_connector" "cn_timers idle_connector = []" "cn_closed idle_connector = []"
  "cn_retryDelayMs idle_connector = 500" "cn_handed idle_connector = []"
  using newDefaultPoller_inv [of Map.empty False]
  by (simp_all add: idle_connector_def new_Connector_def event_loop.defs cn_idle_def loop_wf_def
      sockets_accounted_def delay_ok_def kInitRetryDelayMs_def kMaxRetryDelayMs_def poller_channels_def newDefaultPoller_def
      new_epoll_poller_def)

theorem connector_attempt_witness:
  "\<exists>s'. startInLoop 7 (9, 111) idle_connector = Inr s' \<and> cn_idle s' \<and> cn_closed s' = [9] \<and> cn_timers s' = [1 / 2]"
  using connector_attempt [of idle_connector 7 9 111] idle_connector_ok
  by (auto simp: connect_proceeds_def connect_retries_def)

theorem connector_outcome_witness:
  "\<exists>s s' t. startInLoop 7 (9, 115) idle_connector = Inr s \<and> connector_handleWrite 0 False (\<lambda>_. Inr) s = Inr s' \<and>
     resetChannel s' = Inr t \<and> cn_idle t"
proof -
  obtain s c where s: "startInLoop 7 (9, 115) idle_connector = Inr s" "cn_waiting s 7 c" "\<not> eventHandling c"
    using connector_attempt [of idle_connector 7 9 115] idle_connector_ok by (auto simp: connect_proceeds_def)
  from connector_outcome [OF s(2,3), of "(connector_handleWrite 0 False (\<lambda>_. Inr), True)" 0 False] s(1)
  show ?thesis by auto
qed

theorem connector_backoff_witness:
  "\<exists>s. rfold (startInLoop 7) [(9, 111), (9, 101), (10, 11)]
      ((new_Connector \<lparr>lw_this = 1, lw_inLoop = True, lw_heap = Map.empty, lw_poller = newDefaultPoller False,
         lw_eventHandling = False, lw_active = [], lw_current = None, el_looping = True, el_quit = False,
         el_callingPendingFunctors = False, el_iteration = 0, el_pollReturnTime = 0, el_pendingFunctors = [],
         el_eventfd = 0\<rparr>)\<lparr>cn_connect := True\<rparr>) = Inr s \<and>
     cn_timers s = [1 / 2, 1, 2]"
proof -
  define l :: "connector_task event_loop" where "l = \<lparr>lw_this = 1, lw_inLoop = True, lw_heap = Map.empty,
     lw_poller = newDefaultPoller False,
     lw_eventHandling = False, lw_active = [], lw_current = None, el_looping = True, el_quit = False,
     el_callingPendingFunctors = False, el_iteration = 0, el_pollReturnTime = 0, el_pendingFunctors = [],
     el_eventfd = 0\<rparr>"
  have "lw_inLoop l" by (simp add: l_def)
  from connector_backoff [OF this, of "[(9, 111), (9, 101), (10, 11)]" 7]
  have "\<exists>s. rfold (startInLoop 7) [(9, 111), (9, 101), (10, 11)] ((new_Connector l)\<lparr>cn_connect := True\<rparr>) = Inr s \<and>
     cn_timers s = [1 / 2, 1, 2]"
    by (auto simp: connect_retries_def)
  then show ?thesis unfolding l_def .
qed

theorem connector_stale_timer_aborts_witness:
  "\<exists>s1 s2 s3. startInLoop 7 (9, 111) idle_connector = Inr s1 \<and> stopInLoop (connector_stop s1) = Inr s2 \<and>
     connector_start 7 (9, 115) s2 = Inr s3 \<and> startInLoop 8 (10, 0) s3 = Inl AssertFail"
proof -
  from connector_stale_timer_aborts [OF idle_connector_ok(1-4) _ idle_connector_ok(5,6), of 111 115 8 "(10, 0)"]
  show ?thesis by (auto simp: connect_proceeds_def connect_retries_def)
qed

end
