(* ===== verification/Loop_Pool.thy ===== *)
theory Loop_Pool
  imports Pollers
begin

text \<open>
  The pool of loops (\<open>src/muduo/net/EventLoopThreadPool.h\<close>, \<open>EventLoopThreadPool.cpp\<close>) and the thread
  that runs one of them (\<open>EventLoopThread.h\<close>, \<open>EventLoopThread.cc\<close>). Loops are named by their
  addresses. The thread is a step relation over the two threads that meet in \<open>startLoop\<close>.
\<close>

section \<open>The pool\<close>

record loop_pool =
  lp_baseLoop :: nat
  lp_name :: string
  lp_started :: bool
  lp_numThreads :: int
  lp_next :: int
  lp_threads :: "string list"     \<comment> \<open>the names of the threads created\<close>
  lp_loops :: "nat list"
  lp_inits :: "nat list"          \<comment> \<open>the loops the initial callback has run on\<close>

definition new_EventLoopThreadPool :: "nat \<Rightarrow> string \<Rightarrow> loop_pool" where
  "new_EventLoopThreadPool baseLoop nameArg =
     \<lparr>lp_baseLoop = baseLoop, lp_name = nameArg, lp_started = False, lp_numThreads = 0, lp_next = 0,
      lp_threads = [], lp_loops = [], lp_inits = []\<rparr>"

definition pool_setThreadNum :: "int \<Rightarrow> loop_pool \<Rightarrow> loop_pool" where
  "pool_setThreadNum n pl = pl\<lparr>lp_numThreads := n\<rparr>"

text \<open>
  \<open>start\<close>: \<open>startLoop i\<close> is the loop the \<open>i\<close>-th thread returns, on which that thread has already run
  the initial callback, if there is one.
\<close>

definition pool_start_one :: "bool \<Rightarrow> (nat \<Rightarrow> nat) \<Rightarrow> nat \<Rightarrow> loop_pool \<Rightarrow> loop_pool" where
  "pool_start_one cb startLoop i pl =
     pl\<lparr>lp_threads := lp_threads pl @ [snprintf_text (length (lp_name pl) + 32) (lp_name pl @ dec_nat i)],
        lp_loops := lp_loops pl @ [startLoop i],
        lp_inits := (if cb then lp_inits pl @ [startLoop i] else lp_inits pl)\<rparr>"

definition pool_start :: "bool \<Rightarrow> bool \<Rightarrow> (nat \<Rightarrow> nat) \<Rightarrow> loop_pool \<Rightarrow> loop_pool result" where
  "pool_start inLoop cb startLoop pl =
     assert_ok (\<not> lp_started pl) (assert_loop inLoop
       (let pl1 = fold (pool_start_one cb startLoop) [0..<nat (lp_numThreads pl)] (pl\<lparr>lp_started := True\<rparr>) in
        Inr (if lp_numThreads pl = 0 \<and> cb then pl1\<lparr>lp_inits := lp_inits pl1 @ [lp_baseLoop pl1]\<rparr> else pl1)))"

definition getNextLoop :: "bool \<Rightarrow> loop_pool \<Rightarrow> (nat \<times> loop_pool) result" where
  "getNextLoop inLoop pl =
     assert_loop inLoop (assert_ok (lp_started pl)
       (if lp_loops pl \<noteq> [] then
          if 0 \<le> lp_next pl \<and> nat (lp_next pl) < length (lp_loops pl) then
            let loop = lp_loops pl ! nat (lp_next pl); n = lp_next pl + 1 in
            Inr (loop, pl\<lparr>lp_next := if length (lp_loops pl) \<le> nat n then 0 else n\<rparr>)
          else Inl OutOfBounds
        else Inr (lp_baseLoop pl, pl)))"

definition getLoopForHash :: "bool \<Rightarrow> nat \<Rightarrow> loop_pool \<Rightarrow> nat result" where
  "getLoopForHash inLoop hashCode pl =
     assert_loop inLoop
       (Inr (if lp_loops pl \<noteq> [] then lp_loops pl ! (hashCode mod length (lp_loops pl)) else lp_baseLoop pl))"

definition getAllLoops :: "bool \<Rightarrow> loop_pool \<Rightarrow> (nat list) result" where
  "getAllLoops inLoop pl =
     assert_loop inLoop (assert_ok (lp_started pl)
       (Inr (if lp_loops pl = [] then [lp_baseLoop pl] else lp_loops pl)))"

definition pool_ok :: "loop_pool \<Rightarrow> bool" where
  "pool_ok pl \<longleftrightarrow> lp_started pl \<and> (if lp_loops pl = [] then lp_next pl = 0
     else 0 \<le> lp_next pl \<and> nat (lp_next pl) < length (lp_loops pl))"

text \<open>\<open>n\<close> calls of \<open>getNextLoop\<close>, collecting the loops they return.\<close>

fun next_loops :: "nat \<Rightarrow> loop_pool \<Rightarrow> (nat list \<times> loop_pool) result" where
  "next_loops 0 pl = Inr ([], pl)"
| "next_loops (Suc n) pl =
     rbind (getNextLoop True pl) (\<lambda>(l, pl1). rbind (next_loops n pl1) (\<lambda>(ls, pl2). Inr (l # ls, pl2)))"

lemma pool_start_fold:
  "fold (pool_start_one cb startLoop) [0..<n] pl =
     pl\<lparr>lp_threads := lp_threads pl @ map (\<lambda>i. snprintf_text (length (lp_name pl) + 32) (lp_name pl @ dec_nat i)) [0..<n],
        lp_loops := lp_loops pl @ map startLoop [0..<n],
        lp_inits := (if cb then lp_inits pl @ map startLoop [0..<n] else lp_inits pl)\<rparr>"
  by (induction n; cases cb) (simp_all add: pool_start_one_def)

lemma getNextLoop_ok:
  assumes "pool_ok pl" "lp_loops pl \<noteq> []"
  shows "getNextLoop True pl = Inr (lp_loops pl ! nat (lp_next pl),
    pl\<lparr>lp_next := int ((nat (lp_next pl) + 1) mod length (lp_loops pl))\<rparr>)"
proof -
  have b: "0 \<le> lp_next pl" "nat (lp_next pl) < length (lp_loops pl)" using assms by (simp_all add: pool_ok_def)
  then have "nat (lp_next pl + 1) = nat (lp_next pl) + 1" by simp
  moreover have "int (nat (lp_next pl) + 1) = lp_next pl + 1" using b by simp
  moreover have "length (lp_loops pl) \<le> nat (lp_next pl) + 1 \<Longrightarrow> (nat (lp_next pl) + 1) mod length (lp_loops pl) = 0"
    using b by (metis Suc_eq_plus1 Suc_leI le_antisym mod_self)
  ultimately show ?thesis
    using assms b by (cases "length (lp_loops pl) \<le> nat (lp_next pl) + 1")
      (simp_all add: getNextLoop_def assert_loop_def pool_ok_def)
qed

lemma next_loops_ok:
  assumes "pool_ok pl" "lp_loops pl \<noteq> []"
  shows "next_loops k pl = Inr (map (\<lambda>i. lp_loops pl ! ((nat (lp_next pl) + i) mod length (lp_loops pl))) [0..<k],
    pl\<lparr>lp_next := int ((nat (lp_next pl) + k) mod length (lp_loops pl))\<rparr>)"
  using assms
proof (induction k arbitrary: pl)
  case 0
  then show ?case by (simp add: pool_ok_def)
next
  case (Suc k)
  let ?n = "length (lp_loops pl)" and ?j = "nat (lp_next pl)"
  let ?pl = "pl\<lparr>lp_next := int ((?j + 1) mod ?n)\<rparr>"
  have "pool_ok ?pl" using Suc.prems by (simp add: pool_ok_def)
  then have IH: "next_loops k ?pl = Inr (map (\<lambda>i. lp_loops pl ! ((Suc ?j + i) mod ?n)) [0..<k],
      pl\<lparr>lp_next := int ((Suc ?j + k) mod ?n)\<rparr>)"
    using Suc.IH [of ?pl] Suc.prems(2) by (simp add: mod_simps)
  have "?j < ?n" using Suc.prems by (simp add: pool_ok_def)
  then have "map (\<lambda>i. lp_loops pl ! ((?j + i) mod ?n)) [0..<Suc k] =
      lp_loops pl ! ?j # map (\<lambda>i. lp_loops pl ! ((Suc ?j + i) mod ?n)) [0..<k]"
    by (simp only: upt_conv_Cons [of 0 "Suc k"] map_Suc_upt [symmetric] map_map) simp
  then show ?case using getNextLoop_ok [OF Suc.prems] IH by simp
qed

lemma count_list_distinct: "distinct xs \<Longrightarrow> y \<in> set xs \<Longrightarrow> count_list xs y = 1"
  by (induction xs) (auto simp: count_list_0_iff)

text \<open>One round of indices modulo the length visits every position once.\<close>

lemma round_rotate: "map (\<lambda>i. xs ! ((j + i) mod length xs)) [0..<length xs] = rotate j xs"
  by (rule nth_equalityI) (simp_all add: nth_rotate)

lemma count_rotate: "count_list (rotate j xs) y = count_list xs y"
  by (simp add: rotate_drop_take) (metis add.commute append_take_drop_id count_list_append)

lemma count_rounds:
  "xs \<noteq> [] \<Longrightarrow> count_list (map (\<lambda>i. xs ! ((j + i) mod length xs)) [0..<m * length xs]) y = m * count_list xs y"
proof (induction m)
  case (Suc m)
  let ?f = "\<lambda>i. xs ! ((j + i) mod length xs)" and ?n = "length xs"
  have "[0..<Suc m * ?n] = [0..<m * ?n] @ map (\<lambda>i. m * ?n + i) [0..<?n]"
    using upt_add_eq_append [of 0 "m * ?n" ?n] map_add_upt [of "m * ?n" ?n] by (simp add: add.commute)
  moreover have "?f (m * ?n + i) = ?f i" for i
  proof -
    have "(j + (m * ?n + i)) = (j + i) + m * ?n" by simp
    then show ?thesis by (simp only: mod_mult_self1)
  qed
  then have "map ?f (map (\<lambda>i. m * ?n + i) [0..<?n]) = rotate j xs"
    using round_rotate [of xs j] by (simp add: comp_def)
  ultimately have "count_list (map ?f [0..<Suc m * ?n]) y = count_list (map ?f [0..<m * ?n]) y + count_list (rotate j xs) y"
    by (simp only: map_append count_list_append)
  then show ?case using Suc by (simp add: count_rotate)
qed simp

section \<open>The thread of a loop\<close>

text \<open>
  \<open>EventLoopThread\<close>: the creating thread in \<open>startLoop\<close>, the new thread in \<open>threadFunc\<close>. Critical
  sections are single steps; waiting on the condition is being unable to step while \<open>loop_\<close> is null.
  \<open>et_addr\<close> is the address of the loop on the new thread's stack.
\<close>

datatype starter_pc = BeforeStart | Waiting | Reading | Returned "nat option"

datatype worker_pc = NotRunning | Constructed | Publishing | Looping | Leaving | Finished

record loop_thread =
  et_loop :: "nat option"
  et_exiting :: bool
  et_callback :: bool
  et_inited :: bool               \<comment> \<open>the callback has run\<close>
  et_addr :: nat
  et_starter :: starter_pc
  et_worker :: worker_pc

definition new_EventLoopThread :: "bool \<Rightarrow> nat \<Rightarrow> loop_thread" where
  "new_EventLoopThread cb addr =
     \<lparr>et_loop = None, et_exiting = False, et_callback = cb, et_inited = False, et_addr = addr,
      et_starter = BeforeStart, et_worker = NotRunning\<rparr>"

text \<open>The destructor; the second component tells whether it asks the loop to quit and joins the thread.\<close>

definition destroy_EventLoopThread :: "loop_thread \<Rightarrow> loop_thread \<times> bool" where
  "destroy_EventLoopThread t = (t\<lparr>et_exiting := True\<rparr>, et_loop t \<noteq> None)"

inductive startLoop_step :: "loop_thread \<Rightarrow> loop_thread \<Rightarrow> bool" where
  thread_start: "et_starter t = BeforeStart \<Longrightarrow> startLoop_step t (t\<lparr>et_starter := Waiting, et_worker := Constructed\<rparr>)"
| wait_over: "et_starter t = Waiting \<Longrightarrow> et_loop t \<noteq> None \<Longrightarrow> startLoop_step t (t\<lparr>et_starter := Reading\<rparr>)"
| return_loop: "et_starter t = Reading \<Longrightarrow> startLoop_step t (t\<lparr>et_starter := Returned (et_loop t)\<rparr>)"

inductive threadFunc_step :: "loop_thread \<Rightarrow> loop_thread \<Rightarrow> bool" where
  run_callback: "et_worker t = Constructed \<Longrightarrow>
    threadFunc_step t (t\<lparr>et_worker := Publishing, et_inited := et_callback t \<or> et_inited t\<rparr>)"
| publish: "et_worker t = Publishing \<Longrightarrow> threadFunc_step t (t\<lparr>et_worker := Looping, et_loop := Some (et_addr t)\<rparr>)"
| loop_returns: "et_worker t = Looping \<Longrightarrow> threadFunc_step t (t\<lparr>et_worker := Leaving\<rparr>)"
| clear_loop: "et_worker t = Leaving \<Longrightarrow> threadFunc_step t (t\<lparr>et_worker := Finished, et_loop := None\<rparr>)"

inductive thread_reach :: "loop_thread \<Rightarrow> loop_thread \<Rightarrow> bool" where
  thread_refl: "thread_reach s s"
| thread_starter: "thread_reach s t \<Longrightarrow> startLoop_step t u \<Longrightarrow> thread_reach s u"
| thread_worker: "thread_reach s t \<Longrightarrow> threadFunc_step t u \<Longrightarrow> thread_reach s u"

inductive_cases startLoop_stepE: "startLoop_step t u"
inductive_cases threadFunc_stepE: "threadFunc_step t u"

inductive_simps startLoop_step_iff: "startLoop_step t u"

definition thread_inv :: "loop_thread \<Rightarrow> bool" where
  "thread_inv t \<longleftrightarrow>
     et_loop t = (if et_worker t \<in> {Looping, Leaving} then Some (et_addr t) else None) \<and>
     (et_starter t = BeforeStart \<longleftrightarrow> et_worker t = NotRunning) \<and>
     (et_callback t \<and> et_worker t \<in> {Publishing, Looping, Leaving, Finished} \<longrightarrow> et_inited t) \<and>
     (case et_starter t of
        Reading \<Rightarrow> et_worker t \<in> {Looping, Leaving, Finished}
      | Returned r \<Rightarrow> et_worker t \<in> {Looping, Leaving, Finished} \<and> (r = Some (et_addr t) \<or> r = None \<and> et_worker t = Finished)
      | _ \<Rightarrow> True)"

lemma startLoop_step_inv: "startLoop_step t u \<Longrightarrow> thread_inv t \<Longrightarrow> thread_inv u"
  by (erule startLoop_stepE) (auto simp: thread_inv_def split: if_splits)

lemma threadFunc_step_inv: "threadFunc_step t u \<Longrightarrow> thread_inv t \<Longrightarrow> thread_inv u"
  by (erule threadFunc_stepE; cases "et_starter t") (auto simp: thread_inv_def)

lemma thread_inv_reach: "thread_reach s t \<Longrightarrow> thread_inv s \<Longrightarrow> thread_inv t"
proof (induction rule: thread_reach.induct)
  case (thread_starter s t u)
  then have "thread_inv t" by simp
  from thread_starter(2) this show ?case by (rule startLoop_step_inv)
next
  case (thread_worker s t u)
  then have "thread_inv t" by simp
  from thread_worker(2) this show ?case by (rule threadFunc_step_inv)
qed simp

lemma thread_reach_const: "thread_reach s t \<Longrightarrow> et_addr t = et_addr s \<and> et_callback t = et_callback s"
  by (induction rule: thread_reach.induct) (auto elim!: startLoop_stepE threadFunc_stepE)

section \<open>Properties\<close>

text \<open>A started pool of \<open>n > 0\<close> threads hands out its loops in turn: \<open>m\<close> times \<open>n\<close> consecutive calls of
  \<open>getNextLoop\<close>, from whatever position, succeed and return every loop exactly \<open>m\<close> times. Each thread has
  its own name and the initial callback has run once on every loop.\<close>

theorem pool_round_robin:
  assumes "pool_start True cb startLoop (pool_setThreadNum (int n) (new_EventLoopThreadPool base name)) = Inr pl" "0 < n"
    "inj_on startLoop {0..<n}" "n < 10 ^ 31" "next_loops k pl = Inr (ls0, pl0)"
  shows "\<exists>ls pl'. next_loops (m * n) pl0 = Inr (ls, pl') \<and> (\<forall>i<n. count_list ls (startLoop i) = m) \<and>
    lp_loops pl = map startLoop [0..<n] \<and> lp_inits pl = (if cb then map startLoop [0..<n] else []) \<and> distinct (lp_threads pl)"
proof -
  have len: "length (name @ dec_nat i) < length name + 32" if "i < n" for i
    using that assms(4) length_dec_nat [of i 31] by simp
  have pl: "pl = \<lparr>lp_baseLoop = base, lp_name = name, lp_started = True, lp_numThreads = int n, lp_next = 0,
      lp_threads = map (\<lambda>i. snprintf_text (length name + 32) (name @ dec_nat i)) [0..<n],
      lp_loops = map startLoop [0..<n], lp_inits = (if cb then map startLoop [0..<n] else [])\<rparr>"
    using assms(1,2) by (auto simp: pool_start_def assert_loop_def pool_start_fold pool_setThreadNum_def new_EventLoopThreadPool_def)
  have names: "lp_threads pl = map (\<lambda>i. name @ dec_nat i) [0..<n]" using len by (simp add: pl)
  have ne: "lp_loops pl \<noteq> []" and n: "length (lp_loops pl) = n" using assms(2) by (simp_all add: pl)
  have "pool_ok pl" using assms(2) by (simp add: pl pool_ok_def)
  from next_loops_ok [OF this ne, of k] assms(5) have pl0: "pl0 = pl\<lparr>lp_next := int ((nat (lp_next pl) + k) mod n)\<rparr>"
    by (simp add: n)
  then have "pool_ok pl0" "lp_loops pl0 = lp_loops pl" using assms(2) ne n by (simp_all add: pool_ok_def pl)
  with next_loops_ok [of pl0 "m * n"] ne n obtain pl' where
    nl: "next_loops (m * n) pl0 = Inr (map (\<lambda>i. lp_loops pl ! ((nat (lp_next pl0) + i) mod length (lp_loops pl))) [0..<m * length (lp_loops pl)], pl')"
    by auto
  have cnt: "count_list (lp_loops pl) (startLoop i) = 1" if "i < n" for i
  proof -
    have "distinct (lp_loops pl)" using assms(3) by (simp add: pl distinct_map)
    moreover have "startLoop i \<in> set (lp_loops pl)" using that by (simp add: pl)
    ultimately show ?thesis by (simp add: count_list_distinct)
  qed
  have "distinct (lp_threads pl)" by (simp add: names distinct_map inj_on_def)
  then show ?thesis using nl cnt count_rounds [OF ne] by (auto simp: pl)
qed

text \<open>\<open>EventLoopThread::startLoop\<close>: whatever the interleaving with the new thread, it waits only as long as
  the loop has not been published, and the loop it returns is the thread's loop, on which the initial
  callback has run; only if that loop has already ended can it return null.\<close>

theorem startLoop_returns_loop:
  assumes "thread_reach (new_EventLoopThread cb addr) t"
  shows "(et_starter t = Waiting \<and> et_worker t = Looping \<longrightarrow> (\<exists>u. startLoop_step t u)) \<and>
    (\<forall>r. et_starter t = Returned r \<longrightarrow> (cb \<longrightarrow> et_inited t) \<and> (r = Some addr \<or> r = None \<and> et_worker t = Finished))"
proof -
  have "thread_inv t"
    by (rule thread_inv_reach [OF assms]) (simp add: thread_inv_def new_EventLoopThread_def)
  moreover have "et_addr t = addr" "et_callback t = cb"
    using thread_reach_const [OF assms] by (simp_all add: new_EventLoopThread_def)
  ultimately show ?thesis
    by (auto simp: thread_inv_def startLoop_step_iff split: starter_pc.splits)
qed

text \<open>\<open>startLoop\<close> reads \<open>loop_\<close> a second time after its critical section: if the new loop ends in between,
  null is returned although the loop had been published.\<close>

theorem startLoop_may_return_null:
  "\<exists>t. thread_reach (new_EventLoopThread cb addr) t \<and> et_starter t = Returned None"
proof -
  let ?t0 = "new_EventLoopThread cb addr"
  let ?t1 = "?t0\<lparr>et_starter := Waiting, et_worker := Constructed\<rparr>"
  let ?t2 = "?t1\<lparr>et_worker := Publishing, et_inited := et_callback ?t1 \<or> et_inited ?t1\<rparr>"
  let ?t3 = "?t2\<lparr>et_worker := Looping, et_loop := Some (et_addr ?t2)\<rparr>"
  let ?t4 = "?t3\<lparr>et_starter := Reading\<rparr>"
  let ?t5 = "?t4\<lparr>et_worker := Leaving\<rparr>"
  let ?t6 = "?t5\<lparr>et_worker := Finished, et_loop := None\<rparr>"
  let ?t7 = "?t6\<lparr>et_starter := Returned (et_loop ?t6)\<rparr>"
  have "thread_reach ?t0 ?t1"
    by (rule thread_starter [OF thread_refl thread_start]) (simp add: new_EventLoopThread_def)
  from thread_worker [OF this run_callback] have "thread_reach ?t0 ?t2" by simp
  from thread_worker [OF this publish] have "thread_reach ?t0 ?t3" by simp
  from thread_starter [OF this wait_over] have "thread_reach ?t0 ?t4" by simp
  from thread_worker [OF this loop_returns] have "thread_reach ?t0 ?t5" by simp
  from thread_worker [OF this clear_loop] have "thread_reach ?t0 ?t6" by simp
  from thread_starter [OF this return_loop] have "thread_reach ?t0 ?t7" by simp
  then show ?thesis by (intro exI [of _ ?t7]) simp
qed

subsection \<open>Witnesses\<close>

theorem pool_round_robin_witness:
  "\<exists>pl ls pl'. pool_start True True (\<lambda>i. 100 + i) (pool_setThreadNum 3 (new_EventLoopThreadPool 1 ''io'')) = Inr pl \<and>
     next_loops 6 pl = Inr (ls, pl') \<and> (\<forall>i<3. count_list ls (100 + i) = 2) \<and> distinct (lp_threads pl)"
proof -
  obtain pl where pl: "pool_start True True (\<lambda>i. 100 + i) (pool_setThreadNum (int 3) (new_EventLoopThreadPool 1 ''io'')) = Inr pl"
    by (simp add: pool_start_def assert_loop_def pool_setThreadNum_def new_EventLoopThreadPool_def)
  from pool_round_robin [OF pl, of 0 "[]" pl 2] pl show ?thesis by auto
qed

text \<open>The thread has published its loop and \<open>startLoop\<close> has returned it.\<close>

theorem startLoop_returns_loop_witness:
  "\<exists>t. thread_reach (new_EventLoopThread True 9) t \<and> et_starter t = Returned (Some 9) \<and> et_inited t"
proof -
  let ?t0 = "new_EventLoopThread True 9"
  let ?t1 = "?t0\<lparr>et_starter := Waiting, et_worker := Constructed\<rparr>"
  let ?t2 = "?t1\<lparr>et_worker := Publishing, et_inited := et_callback ?t1 \<or> et_inited ?t1\<rparr>"
  let ?t3 = "?t2\<lparr>et_worker := Looping, et_loop := Some (et_addr ?t2)\<rparr>"
  let ?t4 = "?t3\<lparr>et_starter := Reading\<rparr>"
  let ?t5 = "?t4\<lparr>et_starter := Returned (et_loop ?t4)\<rparr>"
  have "thread_reach ?t0 ?t1"
    by (rule thread_starter [OF thread_refl thread_start]) (simp add: new_EventLoopThread_def)
  from thread_worker [OF this run_callback] have "thread_reach ?t0 ?t2" by simp
  from thread_worker [OF this publish] have "thread_reach ?t0 ?t3" by simp
  from thread_starter [OF this wait_over] have "thread_reach ?t0 ?t4" by simp
  from thread_starter [OF this return_loop] have r: "thread_reach ?t0 ?t5" by simp
  have "et_starter ?t5 = Returned (Some 9)" by (simp add: new_EventLoopThread_def)
  then show ?thesis using startLoop_returns_loop [OF r] r by (intro exI [of _ ?t5]) simp
qed

end
