(* ===== verification/Endian.thy ===== *)
theory Endian
  imports Muduo_Prelude
begin

text \<open>
  Byte order conversion (\<open>src/muduo/net/Endian.h\<close>) over the object representation of an integer.
  The host order is a parameter, since \<open>htobe32\<close> and its kin depend on it; the theorems show that
  the bytes the library puts on the wire do not.
\<close>

unbundle bit_operations_syntax

datatype host_order = LittleEndian | BigEndian

section \<open>Object representations\<close>

definition le_bytes :: "'a::len word \<Rightarrow> byte list" where
  "le_bytes x = map (\<lambda>i. ucast (drop_bit (8 * i) x)) [0..<LENGTH('a) div 8]"

fun le_word :: "byte list \<Rightarrow> 'a::len word" where
  "le_word [] = 0"
| "le_word (b # bs) = ucast b OR push_bit 8 (le_word bs)"

text \<open>What \<open>memcpy\<close> reads from and writes to an integer object on the host.\<close>

definition obj_bytes :: "host_order \<Rightarrow> 'a::len word \<Rightarrow> byte list" where
  "obj_bytes h x = (case h of LittleEndian \<Rightarrow> le_bytes x | BigEndian \<Rightarrow> rev (le_bytes x))"

definition obj_word :: "host_order \<Rightarrow> byte list \<Rightarrow> 'a::len word" where
  "obj_word h bs = (case h of LittleEndian \<Rightarrow> le_word bs | BigEndian \<Rightarrow> le_word (rev bs))"

text \<open>\<open>htobe16/32/64\<close> and \<open>be16/32/64toh\<close>: a byte swap on a little-endian host.\<close>

definition swap_to_be :: "host_order \<Rightarrow> 'a::len word \<Rightarrow> 'a word" where
  "swap_to_be h x = (case h of LittleEndian \<Rightarrow> le_word (rev (le_bytes x)) | BigEndian \<Rightarrow> x)"

definition hostToNetwork64 :: "host_order \<Rightarrow> 64 word \<Rightarrow> 64 word" where
  "hostToNetwork64 h host64 = swap_to_be h host64"

definition hostToNetwork32 :: "host_order \<Rightarrow> 32 word \<Rightarrow> 32 word" where
  "hostToNetwork32 h host32 = swap_to_be h host32"

definition hostToNetwork16 :: "host_order \<Rightarrow> 16 word \<Rightarrow> 16 word" where
  "hostToNetwork16 h host16 = swap_to_be h host16"

definition networkToHost64 :: "host_order \<Rightarrow> 64 word \<Rightarrow> 64 word" where
  "networkToHost64 h net64 = swap_to_be h net64"

definition networkToHost32 :: "host_order \<Rightarrow> 32 word \<Rightarrow> 32 word" where
  "networkToHost32 h net32 = swap_to_be h net32"

definition networkToHost16 :: "host_order \<Rightarrow> 16 word \<Rightarrow> 16 word" where
  "networkToHost16 h net16 = swap_to_be h net16"

lemmas endian_defs = hostToNetwork64_def hostToNetwork32_def hostToNetwork16_def
  networkToHost64_def networkToHost32_def networkToHost16_def

section \<open>Round trips\<close>

lemma length_le_bytes [simp]: "length (le_bytes (x :: 'a::len word)) = LENGTH('a) div 8"
  by (simp add: le_bytes_def)

lemma bit_le_word:
  "bit (le_word bs :: 'a::len word) k \<longleftrightarrow>
     k < LENGTH('a) \<and> k div 8 < length bs \<and> bit (bs ! (k div 8)) (k mod 8)"
proof (induction bs arbitrary: k)
  case Nil
  then show ?case by simp
next
  case (Cons b bs)
  show ?case
  proof (cases "k < 8")
    case True
    then show ?thesis
      by (auto simp: bit_or_iff bit_push_bit_iff bit_ucast_iff)
  next
    case False
    then obtain j where j: "k = 8 + j" using le_Suc_ex not_less by blast
    have "\<not> bit b k" using False bit_imp_le_length [of b k] by auto
    moreover have "k div 8 = Suc (j div 8)" "k mod 8 = j mod 8" using j by simp_all
    ultimately show ?thesis using Cons.IH [of j] j
      by (auto simp: bit_or_iff bit_push_bit_iff bit_ucast_iff)
  qed
qed

lemma le_word_le_bytes:
  assumes "8 dvd LENGTH('a)"
  shows "le_word (le_bytes x) = (x :: 'a::len word)"
proof (rule bit_word_eqI)
  fix k assume k: "k < LENGTH('a)"
  have "k div 8 < LENGTH('a) div 8"
    using assms k by (auto simp: dvd_def less_mult_imp_div_less mult.commute)
  then show "bit (le_word (le_bytes x) :: 'a word) k = bit x k"
    using k by (simp add: bit_le_word le_bytes_def bit_ucast_iff bit_drop_bit_eq)
qed

lemma le_bytes_le_word:
  assumes "length bs = LENGTH('a) div 8"
  shows "le_bytes (le_word bs :: 'a::len word) = bs"
proof (rule nth_equalityI)
  show "length (le_bytes (le_word bs :: 'a word)) = length bs" using assms by simp
  fix i assume "i < length (le_bytes (le_word bs :: 'a word))"
  then have i: "i < LENGTH('a) div 8" by simp
  show "le_bytes (le_word bs :: 'a word) ! i = bs ! i"
  proof (rule bit_word_eqI)
    fix k assume k: "k < LENGTH(8)"
    then have "8 * i + k < LENGTH('a)" using i by auto
    with k i assms show "bit (le_bytes (le_word bs :: 'a word) ! i) k = bit (bs ! i) k"
      by (simp add: le_bytes_def bit_ucast_iff bit_drop_bit_eq bit_le_word)
  qed
qed

lemma obj_word_obj_bytes: "8 dvd LENGTH('a) \<Longrightarrow> obj_word h (obj_bytes h (x :: 'a::len word)) = x"
  by (cases h) (simp_all add: obj_word_def obj_bytes_def le_word_le_bytes)

lemma length_obj_bytes [simp]: "length (obj_bytes h (x :: 'a::len word)) = LENGTH('a) div 8"
  by (cases h) (simp_all add: obj_bytes_def)

text \<open>The network representation: most significant byte first.\<close>

definition be_bytes :: "'a::len word \<Rightarrow> byte list" where
  "be_bytes x = rev (le_bytes x)"

lemma length_be_bytes [simp]: "length (be_bytes (x :: 'a::len word)) = LENGTH('a) div 8"
  by (simp add: be_bytes_def)

lemma obj_bytes_swap: "8 dvd LENGTH('a) \<Longrightarrow> obj_bytes h (swap_to_be h (x :: 'a::len word)) = be_bytes x"
  by (simp add: obj_bytes_def swap_to_be_def be_bytes_def le_bytes_le_word split: host_order.split)

lemma swap_obj_word:
  "8 dvd LENGTH('a) \<Longrightarrow> swap_to_be h (obj_word h (be_bytes x)) = (x :: 'a::len word)"
  by (simp add: obj_word_def swap_to_be_def be_bytes_def le_bytes_le_word le_word_le_bytes
      split: host_order.split)

lemma swap_to_be_involutive:
  "8 dvd LENGTH('a) \<Longrightarrow> swap_to_be h (swap_to_be h x) = (x :: 'a::len word)"
  by (simp add: swap_to_be_def le_bytes_le_word le_word_le_bytes split: host_order.split)

lemma be_bytes_obj_word:
  "8 dvd LENGTH('a) \<Longrightarrow> length bs = LENGTH('a) div 8 \<Longrightarrow>
     be_bytes (swap_to_be h (obj_word h bs :: 'a::len word)) = bs"
  by (simp add: obj_word_def swap_to_be_def be_bytes_def le_bytes_le_word split: host_order.split)

lemma be_bytes_inject:
  "8 dvd LENGTH('a) \<Longrightarrow> be_bytes x = be_bytes y \<longleftrightarrow> x = (y :: 'a::len word)"
  by (metis be_bytes_def le_word_le_bytes rev_is_rev_conv)

end
