(* ===== verification/Net_Buffer.thy ===== *)
theory Net_Buffer
  imports Endian
begin

text \<open>
  The growable byte buffer of \<open>src/muduo/net/Buffer.h\<close> and \<open>Buffer.cc\<close>: a vector with a reader
  and a writer index. Pointers into the vector are indices. Every \<open>assert\<close> is a branch, and
  \<open>vector::resize\<close> throws beyond \<open>max_size\<close>. The abstract view of a buffer is the list of its
  readable bytes; each operation is specified by its effect on that list, and the interface the
  rest of the library relies on is the locale \<open>byte_fifo\<close>.
\<close>

section \<open>State\<close>

record buffer =
  buffer_data :: "byte list"   \<comment> \<open>\<open>buffer_\<close>, a \<open>std::vector<char>\<close>\<close>
  readerIndex :: nat
  writerIndex :: nat

definition kCheapPrepend :: nat where "kCheapPrepend = 8"
definition kInitialSize :: nat where "kInitialSize = 1024"
definition kCRLF :: "byte list" where "kCRLF = [13, 10]"

text \<open>\<open>vector<char>::max_size\<close>: the largest positive \<open>ptrdiff_t\<close>.\<close>

definition vec_max :: nat where "vec_max = 2 ^ 63 - 1"

definition vec_resize :: "nat \<Rightarrow> byte list \<Rightarrow> byte list result" where
  "vec_resize n v =
     (if n \<le> vec_max then Inr (take n v @ replicate (n - length v) 0) else Inl LengthError)"

definition new_buffer_sized :: "nat \<Rightarrow> buffer result" where
  "new_buffer_sized initialSize =
     rbind (vec_resize (size_wrap (kCheapPrepend + initialSize)) [])
       (\<lambda>v. let b = \<lparr>buffer_data = v, readerIndex = kCheapPrepend, writerIndex = kCheapPrepend\<rparr>
        in assert_ok (writerIndex b - readerIndex b = 0)
             (assert_ok (length (buffer_data b) - writerIndex b = initialSize)
               (assert_ok (readerIndex b = kCheapPrepend) (Inr b))))"

definition new_buffer :: buffer where
  "new_buffer = \<lparr>buffer_data = replicate (kCheapPrepend + kInitialSize) 0,
     readerIndex = kCheapPrepend, writerIndex = kCheapPrepend\<rparr>"

definition buffer_swap :: "buffer \<Rightarrow> buffer \<Rightarrow> buffer \<times> buffer" where
  "buffer_swap self rhs =
     (\<lparr>buffer_data = buffer_data rhs, readerIndex = readerIndex rhs, writerIndex = writerIndex rhs\<rparr>,
      \<lparr>buffer_data = buffer_data self, readerIndex = readerIndex self, writerIndex = writerIndex self\<rparr>)"

definition readableBytes :: "buffer \<Rightarrow> nat" where
  "readableBytes b = writerIndex b - readerIndex b"

definition writableBytes :: "buffer \<Rightarrow> nat" where
  "writableBytes b = length (buffer_data b) - writerIndex b"

definition prependableBytes :: "buffer \<Rightarrow> nat" where
  "prependableBytes b = readerIndex b"

definition peek :: "buffer \<Rightarrow> nat" where
  "peek b = readerIndex b"

definition beginWrite :: "buffer \<Rightarrow> nat" where
  "beginWrite b = writerIndex b"

text \<open>The readable bytes, the part of the vector between the two indices.\<close>

definition contents :: "buffer \<Rightarrow> byte list" where
  "contents b = subrange (readerIndex b) (writerIndex b) (buffer_data b)"

section \<open>Searching\<close>

definition findCRLF :: "buffer \<Rightarrow> nat option" where
  "findCRLF b =
     (let crlf = peek b + std_search kCRLF (subrange (peek b) (beginWrite b) (buffer_data b))
      in if crlf = beginWrite b then None else Some crlf)"

definition findCRLF_from :: "nat \<Rightarrow> buffer \<Rightarrow> nat option result" where
  "findCRLF_from start b =
     assert_ok (peek b \<le> start) (assert_ok (start \<le> beginWrite b)
       (let crlf = start + std_search kCRLF (subrange start (beginWrite b) (buffer_data b))
        in Inr (if crlf = beginWrite b then None else Some crlf)))"

definition findEOL :: "buffer \<Rightarrow> nat option" where
  "findEOL b =
     (let eol = std_find 10 (subrange (peek b) (beginWrite b) (buffer_data b))
      in if eol = readableBytes b then None else Some (peek b + eol))"

definition findEOL_from :: "nat \<Rightarrow> buffer \<Rightarrow> nat option result" where
  "findEOL_from start b =
     assert_ok (peek b \<le> start) (assert_ok (start \<le> beginWrite b)
       (let eol = std_find 10 (subrange start (beginWrite b) (buffer_data b))
        in Inr (if eol = beginWrite b - start then None else Some (start + eol))))"

section \<open>Consuming\<close>

definition retrieveAll :: "buffer \<Rightarrow> buffer" where
  "retrieveAll b = b\<lparr>readerIndex := kCheapPrepend, writerIndex := kCheapPrepend\<rparr>"

definition retrieve :: "nat \<Rightarrow> buffer \<Rightarrow> buffer result" where
  "retrieve len b =
     assert_ok (len \<le> readableBytes b)
       (if len < readableBytes b then Inr (b\<lparr>readerIndex := readerIndex b + len\<rparr>)
        else Inr (retrieveAll b))"

definition retrieveUntil :: "nat \<Rightarrow> buffer \<Rightarrow> buffer result" where
  "retrieveUntil end_ptr b =
     assert_ok (peek b \<le> end_ptr) (assert_ok (end_ptr \<le> beginWrite b)
       (retrieve (end_ptr - peek b) b))"

definition retrieveInt64 :: "buffer \<Rightarrow> buffer result" where "retrieveInt64 b = retrieve 8 b"
definition retrieveInt32 :: "buffer \<Rightarrow> buffer result" where "retrieveInt32 b = retrieve 4 b"
definition retrieveInt16 :: "buffer \<Rightarrow> buffer result" where "retrieveInt16 b = retrieve 2 b"
definition retrieveInt8 :: "buffer \<Rightarrow> buffer result" where "retrieveInt8 b = retrieve 1 b"

definition retrieveAsString :: "nat \<Rightarrow> buffer \<Rightarrow> (byte list \<times> buffer) result" where
  "retrieveAsString len b =
     assert_ok (len \<le> readableBytes b)
       (let result = subrange (peek b) (peek b + len) (buffer_data b)
        in rbind (retrieve len b) (\<lambda>b'. Inr (result, b')))"

definition retrieveAllAsString :: "buffer \<Rightarrow> (byte list \<times> buffer) result" where
  "retrieveAllAsString b = retrieveAsString (readableBytes b) b"

text \<open>A \<open>StringPiece\<close> is a pointer and an \<open>int\<close> length; the pointer is the memory it points to.\<close>

definition toStringPiece :: "buffer \<Rightarrow> byte list \<times> int" where
  "toStringPiece b =
     (subrange (peek b) (beginWrite b) (buffer_data b), sint (of_nat (readableBytes b) :: 32 word))"

section \<open>Growing and writing\<close>

definition makeSpace :: "nat \<Rightarrow> buffer \<Rightarrow> buffer result" where
  "makeSpace len b =
     (if size_wrap (writableBytes b + prependableBytes b) < size_wrap (len + kCheapPrepend) then
        rbind (vec_resize (size_wrap (writerIndex b + len)) (buffer_data b))
          (\<lambda>v. Inr (b\<lparr>buffer_data := v\<rparr>))
      else
        assert_ok (kCheapPrepend < readerIndex b)
          (let readable = readableBytes b;
               b' = b\<lparr>buffer_data :=
                       overwrite kCheapPrepend
                         (subrange (readerIndex b) (writerIndex b) (buffer_data b)) (buffer_data b),
                     readerIndex := kCheapPrepend,
                     writerIndex := kCheapPrepend + readable\<rparr>
           in assert_ok (readable = readableBytes b') (Inr b')))"

definition ensureWritableBytes :: "nat \<Rightarrow> buffer \<Rightarrow> buffer result" where
  "ensureWritableBytes len b =
     rbind (if writableBytes b < len then makeSpace len b else Inr b)
       (\<lambda>b'. assert_ok (len \<le> writableBytes b') (Inr b'))"

definition hasWritten :: "nat \<Rightarrow> buffer \<Rightarrow> buffer result" where
  "hasWritten len b =
     assert_ok (len \<le> writableBytes b) (Inr (b\<lparr>writerIndex := writerIndex b + len\<rparr>))"

definition unwrite :: "nat \<Rightarrow> buffer \<Rightarrow> buffer result" where
  "unwrite len b =
     assert_ok (len \<le> readableBytes b) (Inr (b\<lparr>writerIndex := writerIndex b - len\<rparr>))"

text \<open>\<open>append(data, len)\<close>; \<open>data\<close> is the memory at the pointer, reading past it is an error.\<close>

definition append_len :: "byte list \<Rightarrow> nat \<Rightarrow> buffer \<Rightarrow> buffer result" where
  "append_len data len b =
     rbind (ensureWritableBytes len b)
       (\<lambda>b'. if length data < len then Inl OutOfBounds
             else hasWritten len
               (b'\<lparr>buffer_data := overwrite (beginWrite b') (take len data) (buffer_data b')\<rparr>))"

definition append :: "byte list \<Rightarrow> buffer \<Rightarrow> buffer result" where
  "append data b = append_len data (length data) b"

text \<open>\<open>append(const StringPiece&)\<close>: the \<open>int\<close> size is converted to \<open>size_t\<close>.\<close>

definition append_piece :: "byte list \<times> int \<Rightarrow> buffer \<Rightarrow> buffer result" where
  "append_piece str b = append_len (fst str) (nat (snd str mod 2 ^ 64)) b"

definition prepend :: "byte list \<Rightarrow> buffer \<Rightarrow> buffer result" where
  "prepend data b =
     assert_ok (length data \<le> prependableBytes b)
       (let r = readerIndex b - length data
        in Inr (b\<lparr>readerIndex := r, buffer_data := overwrite r data (buffer_data b)\<rparr>))"

definition shrink :: "nat \<Rightarrow> buffer \<Rightarrow> buffer result" where
  "shrink reserve b =
     rbind (ensureWritableBytes (size_wrap (readableBytes b + reserve)) new_buffer)
       (\<lambda>other. rbind (append_piece (toStringPiece b) other)
         (\<lambda>other'. Inr (fst (buffer_swap b other'))))"

section \<open>Integers in network order\<close>

definition appendInt64 :: "host_order \<Rightarrow> 64 word \<Rightarrow> buffer \<Rightarrow> buffer result" where
  "appendInt64 h x b = append (obj_bytes h (hostToNetwork64 h x)) b"

definition appendInt32 :: "host_order \<Rightarrow> 32 word \<Rightarrow> buffer \<Rightarrow> buffer result" where
  "appendInt32 h x b = append (obj_bytes h (hostToNetwork32 h x)) b"

definition appendInt16 :: "host_order \<Rightarrow> 16 word \<Rightarrow> buffer \<Rightarrow> buffer result" where
  "appendInt16 h x b = append (obj_bytes h (hostToNetwork16 h x)) b"

definition appendInt8 :: "8 word \<Rightarrow> buffer \<Rightarrow> buffer result" where
  "appendInt8 x b = append [x] b"

definition peekInt64 :: "host_order \<Rightarrow> buffer \<Rightarrow> 64 word result" where
  "peekInt64 h b =
     assert_ok (8 \<le> readableBytes b)
       (Inr (networkToHost64 h (obj_word h (subrange (peek b) (peek b + 8) (buffer_data b)))))"

definition peekInt32 :: "host_order \<Rightarrow> buffer \<Rightarrow> 32 word result" where
  "peekInt32 h b =
     assert_ok (4 \<le> readableBytes b)
       (Inr (networkToHost32 h (obj_word h (subrange (peek b) (peek b + 4) (buffer_data b)))))"

definition peekInt16 :: "host_order \<Rightarrow> buffer \<Rightarrow> 16 word result" where
  "peekInt16 h b =
     assert_ok (2 \<le> readableBytes b)
       (Inr (networkToHost16 h (obj_word h (subrange (peek b) (peek b + 2) (buffer_data b)))))"

definition peekInt8 :: "buffer \<Rightarrow> 8 word result" where
  "peekInt8 b = assert_ok (1 \<le> readableBytes b) (Inr (buffer_data b ! peek b))"

definition readInt64 :: "host_order \<Rightarrow> buffer \<Rightarrow> (64 word \<times> buffer) result" where
  "readInt64 h b = rbind (peekInt64 h b) (\<lambda>r. rbind (retrieveInt64 b) (\<lambda>b'. Inr (r, b')))"

definition readInt32 :: "host_order \<Rightarrow> buffer \<Rightarrow> (32 word \<times> buffer) result" where
  "readInt32 h b = rbind (peekInt32 h b) (\<lambda>r. rbind (retrieveInt32 b) (\<lambda>b'. Inr (r, b')))"

definition readInt16 :: "host_order \<Rightarrow> buffer \<Rightarrow> (16 word \<times> buffer) result" where
  "readInt16 h b = rbind (peekInt16 h b) (\<lambda>r. rbind (retrieveInt16 b) (\<lambda>b'. Inr (r, b')))"

definition readInt8 :: "buffer \<Rightarrow> (8 word \<times> buffer) result" where
  "readInt8 b = rbind (peekInt8 b) (\<lambda>r. rbind (retrieveInt8 b) (\<lambda>b'. Inr (r, b')))"

definition prependInt64 :: "host_order \<Rightarrow> 64 word \<Rightarrow> buffer \<Rightarrow> buffer result" where
  "prependInt64 h x b = prepend (obj_bytes h (hostToNetwork64 h x)) b"

definition prependInt32 :: "host_order \<Rightarrow> 32 word \<Rightarrow> buffer \<Rightarrow> buffer result" where
  "prependInt32 h x b = prepend (obj_bytes h (hostToNetwork32 h x)) b"

definition prependInt16 :: "host_order \<Rightarrow> 16 word \<Rightarrow> buffer \<Rightarrow> buffer result" where
  "prependInt16 h x b = prepend (obj_bytes h (hostToNetwork16 h x)) b"

definition prependInt8 :: "8 word \<Rightarrow> buffer \<Rightarrow> buffer result" where
  "prependInt8 x b = prepend [x] b"

section \<open>Reading from a descriptor\<close>

text \<open>
  The result of the \<open>readv\<close> system call: an error number, or the bytes it delivered, which fill
  the given areas in order. The kernel delivers no more than the areas hold (\<open>readv_ok\<close>).
\<close>

datatype readv_result = ReadvErr int | ReadvData "byte list"

definition extrabuf_size :: nat where "extrabuf_size = 65536"

definition readFd_areas :: "buffer \<Rightarrow> nat list" where
  "readFd_areas b =
     (let writable = writableBytes b
      in if writable < extrabuf_size then [writable, extrabuf_size] else [writable])"

definition readv_ok :: "nat list \<Rightarrow> readv_result \<Rightarrow> bool" where
  "readv_ok areas r = (case r of ReadvErr e \<Rightarrow> True | ReadvData d \<Rightarrow> length d \<le> sum_list areas)"

text \<open>Result: the return value, the saved \<open>errno\<close> and the buffer.\<close>

definition readFd :: "readv_result \<Rightarrow> buffer \<Rightarrow> (int \<times> int option \<times> buffer) result" where
  "readFd r b =
     (case r of
        ReadvErr e \<Rightarrow> Inr (-1, Some e, b)
      | ReadvData d \<Rightarrow>
          let writable = writableBytes b;
              b1 = b\<lparr>buffer_data := overwrite (writerIndex b) (take writable d) (buffer_data b)\<rparr>;
              n = length d
          in if n \<le> writable then Inr (int n, None, b1\<lparr>writerIndex := writerIndex b1 + n\<rparr>)
             else rbind (append_len (drop writable d) (n - writable)
                          (b1\<lparr>writerIndex := length (buffer_data b1)\<rparr>))
                    (\<lambda>b2. Inr (int n, None, b2)))"

section \<open>The invariant and the abstract view\<close>

definition buf_wf :: "buffer \<Rightarrow> bool" where
  "buf_wf b \<longleftrightarrow> readerIndex b \<le> writerIndex b \<and> writerIndex b \<le> length (buffer_data b) \<and>
     kCheapPrepend \<le> length (buffer_data b) \<and> length (buffer_data b) \<le> vec_max"

lemmas size_defs = readableBytes_def writableBytes_def prependableBytes_def peek_def beginWrite_def

lemma size_wrap_vec [simp]:
  "n \<le> vec_max \<Longrightarrow> size_wrap n = n"
  "n \<le> vec_max \<Longrightarrow> size_wrap (n + kCheapPrepend) = n + kCheapPrepend"
  "m \<le> vec_max \<Longrightarrow> n \<le> vec_max \<Longrightarrow> size_wrap (m + n) = m + n"
  by (simp_all add: vec_max_def size_wrap_def kCheapPrepend_def)

lemma buf_wf_new [simp]: "buf_wf new_buffer"
  by (simp add: buf_wf_def new_buffer_def kCheapPrepend_def kInitialSize_def vec_max_def)

lemma contents_new [simp]: "contents new_buffer = []"
  by (simp add: contents_def new_buffer_def)

lemma new_buffer_sized_default: "new_buffer_sized kInitialSize = Inr new_buffer"
  by (simp add: new_buffer_sized_def new_buffer_def vec_resize_def kInitialSize_def
      kCheapPrepend_def vec_max_def Let_def)

lemma length_contents [simp]: "buf_wf b \<Longrightarrow> length (contents b) = readableBytes b"
  by (simp add: contents_def buf_wf_def readableBytes_def)

lemma contents_subrange: "subrange (peek b) (beginWrite b) (buffer_data b) = contents b"
  by (simp add: contents_def size_defs)

lemma contents_take:
  "buf_wf b \<Longrightarrow> n \<le> readableBytes b \<Longrightarrow>
     subrange (peek b) (peek b + n) (buffer_data b) = take n (contents b)"
  by (simp add: contents_def size_defs subrange_def min_def buf_wf_def)

lemma contents_nonempty_nth:
  "buf_wf b \<Longrightarrow> 1 \<le> readableBytes b \<Longrightarrow> buffer_data b ! peek b = contents b ! 0"
  by (simp add: contents_def size_defs subrange_def buf_wf_def)

section \<open>Growing keeps the contents\<close>

lemma vec_resize_Inr:
  "vec_resize n v = Inr v' \<longleftrightarrow> n \<le> vec_max \<and> v' = take n v @ replicate (n - length v) 0"
  by (auto simp: vec_resize_def)

text \<open>A buffer after \<open>makeSpace\<close>: same contents, well formed, room for \<open>len\<close> more bytes.\<close>

definition has_room :: "nat \<Rightarrow> buffer \<Rightarrow> buffer \<Rightarrow> bool" where
  "has_room len b b' \<longleftrightarrow> buf_wf b' \<and> contents b' = contents b \<and> len \<le> writableBytes b'"

lemma has_room_resize:
  assumes "buf_wf b" "writableBytes b < len" "writerIndex b + len \<le> vec_max"
  shows "has_room len b (b\<lparr>buffer_data :=
           buffer_data b @ replicate (writerIndex b + len - length (buffer_data b)) 0\<rparr>)"
  using assms by (auto simp: has_room_def buf_wf_def contents_def size_defs subrange_append_left)

lemma has_room_compact:
  assumes "buf_wf b" "len + kCheapPrepend \<le> writableBytes b + prependableBytes b"
    and "kCheapPrepend < readerIndex b"
  shows "has_room len b
    (b\<lparr>buffer_data := overwrite kCheapPrepend (contents b) (buffer_data b),
       readerIndex := kCheapPrepend, writerIndex := kCheapPrepend + readableBytes b\<rparr>)"
proof -
  have fit: "kCheapPrepend + length (contents b) \<le> length (buffer_data b)"
    using assms by (auto simp: buf_wf_def size_defs)
  have "subrange kCheapPrepend (kCheapPrepend + length (contents b))
          (overwrite kCheapPrepend (contents b) (buffer_data b)) = contents b"
    by (rule subrange_overwrite_hit [OF fit])
  moreover have "length (overwrite kCheapPrepend (contents b) (buffer_data b)) = length (buffer_data b)"
    using fit by simp
  ultimately show ?thesis
    using assms by (auto simp: has_room_def buf_wf_def contents_def size_defs)
qed

text \<open>\<open>makeSpace\<close> fails only where the vector would have to grow beyond its maximal size.\<close>

definition must_grow :: "nat \<Rightarrow> buffer \<Rightarrow> bool" where
  "must_grow len b \<longleftrightarrow> writableBytes b + prependableBytes b < len + kCheapPrepend"

lemma makeSpace_grow:
  assumes "buf_wf b" "writableBytes b < len" "len \<le> vec_max" "must_grow len b"
  shows "makeSpace len b =
    (if writerIndex b + len \<le> vec_max then Inr (b\<lparr>buffer_data :=
       buffer_data b @ replicate (writerIndex b + len - length (buffer_data b)) 0\<rparr>)
     else Inl LengthError)"
proof -
  have "writerIndex b \<le> vec_max" "writableBytes b + prependableBytes b \<le> vec_max"
    "length (buffer_data b) \<le> writerIndex b + len"
    using assms by (auto simp: buf_wf_def size_defs)
  then show ?thesis using assms(3,4) by (simp add: makeSpace_def vec_resize_def must_grow_def)
qed

lemma makeSpace_compact:
  assumes "buf_wf b" "writableBytes b < len" "len \<le> vec_max" "\<not> must_grow len b"
  shows "makeSpace len b = Inr (b\<lparr>buffer_data := overwrite kCheapPrepend (contents b) (buffer_data b),
       readerIndex := kCheapPrepend, writerIndex := kCheapPrepend + readableBytes b\<rparr>)"
proof -
  have "writableBytes b + prependableBytes b \<le> vec_max" "kCheapPrepend < readerIndex b"
    using assms by (auto simp: buf_wf_def size_defs must_grow_def)
  then show ?thesis using assms(3,4)
    by (simp add: makeSpace_def Let_def contents_def readableBytes_def must_grow_def)
qed

lemma makeSpace_room:
  assumes "buf_wf b" "writableBytes b < len" "len \<le> vec_max"
    and "must_grow len b \<Longrightarrow> writerIndex b + len \<le> vec_max"
  shows "\<exists>b'. makeSpace len b = Inr b' \<and> has_room len b b'"
proof (cases "must_grow len b")
  case True
  then show ?thesis using assms by (simp add: makeSpace_grow has_room_resize)
next
  case False
  then have "kCheapPrepend < readerIndex b" using assms(2) by (simp add: size_defs must_grow_def)
  then show ?thesis using False assms
    by (simp add: makeSpace_compact has_room_compact must_grow_def)
qed

lemma ensureWritable_room:
  assumes "buf_wf b" "writableBytes b < len \<Longrightarrow> len \<le> vec_max"
    and "writableBytes b < len \<Longrightarrow> must_grow len b \<Longrightarrow> writerIndex b + len \<le> vec_max"
  shows "\<exists>b'. ensureWritableBytes len b = Inr b' \<and> has_room len b b'"
proof (cases "writableBytes b < len")
  case True
  with makeSpace_room [OF assms(1) True] assms(2,3) show ?thesis
    by (auto simp: ensureWritableBytes_def has_room_def)
next
  case False
  then show ?thesis using assms(1) by (simp add: ensureWritableBytes_def has_room_def)
qed

text \<open>Conversely, whatever \<open>ensureWritableBytes\<close> returns has the room it promises.\<close>

lemma ensureWritable_Inr:
  assumes wf: "buf_wf b" and "len \<le> vec_max" and r: "ensureWritableBytes len b = Inr b'"
  shows "has_room len b b'"
proof (cases "writableBytes b < len \<and> must_grow len b \<and> vec_max < writerIndex b + len")
  case True
  then have "makeSpace len b = Inl LengthError" using makeSpace_grow [OF wf] assms(2) by simp
  with r True show ?thesis by (simp add: ensureWritableBytes_def)
next
  case False
  then have "\<exists>b'. ensureWritableBytes len b = Inr b' \<and> has_room len b b'"
    using ensureWritable_room [OF wf] assms(2) by force
  with r show ?thesis by auto
qed

section \<open>Every operation on the abstract view\<close>

definition writes_ok :: "byte list \<Rightarrow> buffer \<Rightarrow> buffer \<Rightarrow> bool" where
  "writes_ok d b b' \<longleftrightarrow> buf_wf b' \<and> contents b' = contents b @ d"

lemma copy_and_advance:
  assumes "buf_wf b" "length d \<le> writableBytes b"
  shows "writes_ok d b
    (b\<lparr>buffer_data := overwrite (writerIndex b) d (buffer_data b),
       writerIndex := writerIndex b + length d\<rparr>)"
proof -
  let ?v = "overwrite (writerIndex b) d (buffer_data b)"
  have fit: "writerIndex b + length d \<le> length (buffer_data b)"
    using assms by (auto simp: buf_wf_def size_defs)
  then have len: "length ?v = length (buffer_data b)" by simp
  have "subrange (readerIndex b) (writerIndex b + length d) ?v =
     subrange (readerIndex b) (writerIndex b) ?v @ subrange (writerIndex b) (writerIndex b + length d) ?v"
    using assms by (intro subrange_split) (auto simp: buf_wf_def)
  also have "\<dots> = contents b @ d"
    using fit by (simp add: subrange_overwrite_hit subrange_overwrite_before contents_def)
  finally show ?thesis using assms fit len by (simp add: writes_ok_def buf_wf_def contents_def)
qed

lemma append_after_room:
  assumes "has_room (length d) b b'"
  shows "\<exists>b''. hasWritten (length d)
      (b'\<lparr>buffer_data := overwrite (beginWrite b') (take (length d) d) (buffer_data b')\<rparr>) = Inr b'' \<and>
    writes_ok d b b''"
proof -
  from assms have wf: "buf_wf b'" and room: "length d \<le> writableBytes b'" and c: "contents b' = contents b"
    by (simp_all add: has_room_def)
  have "length (overwrite (writerIndex b') d (buffer_data b')) = length (buffer_data b')"
    using wf room by (intro length_overwrite) (auto simp: buf_wf_def size_defs)
  then show ?thesis using copy_and_advance [OF wf room] room c
    by (simp add: hasWritten_def writes_ok_def size_defs)
qed

text \<open>The condition under which appending \<open>len\<close> bytes cannot fail.\<close>

definition append_fits :: "nat \<Rightarrow> buffer \<Rightarrow> bool" where
  "append_fits len b \<longleftrightarrow> len \<le> vec_max \<and>
     (writableBytes b < len \<and> must_grow len b \<longrightarrow> writerIndex b + len \<le> vec_max)"

lemma append_total:
  assumes "buf_wf b" "append_fits (length d) b"
  shows "\<exists>b'. append d b = Inr b' \<and> writes_ok d b b'"
proof -
  have "\<exists>b1. ensureWritableBytes (length d) b = Inr b1 \<and> has_room (length d) b b1"
    using assms by (intro ensureWritable_room) (auto simp: append_fits_def)
  then obtain b1 where "ensureWritableBytes (length d) b = Inr b1" "has_room (length d) b b1" by auto
  then show ?thesis using append_after_room [of d b b1] by (simp add: append_def append_len_def)
qed

lemma append_Inr:
  assumes "buf_wf b" "length d \<le> vec_max" "append d b = Inr b'"
  shows "writes_ok d b b'"
proof -
  from assms(3) obtain b1 where "ensureWritableBytes (length d) b = Inr b1"
    by (auto simp: append_def append_len_def res_simps)
  with assms(1,2) have "has_room (length d) b b1" by (rule ensureWritable_Inr)
  from append_after_room [OF this] \<open>ensureWritableBytes (length d) b = Inr b1\<close> assms(3)
  show ?thesis by (auto simp: append_def append_len_def)
qed

lemma append_fits_small:
  assumes "buf_wf b" "readableBytes b + 2 * n + kCheapPrepend \<le> vec_max"
  shows "append_fits n b"
  using assms by (auto simp: append_fits_def must_grow_def buf_wf_def size_defs)

lemma retrieve_ok:
  assumes "buf_wf b" "n \<le> readableBytes b"
  shows "\<exists>b'. retrieve n b = Inr b' \<and> buf_wf b' \<and> contents b' = drop n (contents b)"
proof (cases "n < readableBytes b")
  case True
  then show ?thesis using assms
    by (auto simp: retrieve_def buf_wf_def contents_def size_defs subrange_drop)
next
  case False
  then have "drop n (contents b) = []" using assms by simp
  then show ?thesis using False assms
    by (auto simp: retrieve_def retrieveAll_def buf_wf_def contents_def)
qed

lemma retrieve_too_much: "readableBytes b < n \<Longrightarrow> retrieve n b = Inl AssertFail"
  by (simp add: retrieve_def)

lemma retrieveAll_ok: "buf_wf b \<Longrightarrow> buf_wf (retrieveAll b) \<and> contents (retrieveAll b) = []"
  by (auto simp: buf_wf_def retrieveAll_def contents_def)

lemma retrieveAsString_ok:
  assumes "buf_wf b" "n \<le> readableBytes b"
  shows "\<exists>b'. retrieveAsString n b = Inr (take n (contents b), b') \<and> buf_wf b' \<and>
     contents b' = drop n (contents b)"
  using retrieve_ok [OF assms] assms by (auto simp: retrieveAsString_def Let_def contents_take)

lemma retrieveUntil_ok:
  assumes "buf_wf b" "peek b + n \<le> beginWrite b"
  shows "\<exists>b'. retrieveUntil (peek b + n) b = Inr b' \<and> buf_wf b' \<and> contents b' = drop n (contents b)"
  using retrieve_ok [OF assms(1), of n] assms by (simp add: retrieveUntil_def size_defs)

lemma unwrite_ok:
  assumes "buf_wf b" "n \<le> readableBytes b"
  shows "\<exists>b'. unwrite n b = Inr b' \<and> buf_wf b' \<and>
     contents b' = take (readableBytes b - n) (contents b)"
  using assms
  by (auto simp: unwrite_def buf_wf_def contents_def size_defs subrange_def min_def intro!: arg_cong2 [where f = take])

lemma prepend_ok:
  assumes "buf_wf b" "length d \<le> prependableBytes b"
  shows "\<exists>b'. prepend d b = Inr b' \<and> buf_wf b' \<and> contents b' = d @ contents b"
proof -
  let ?r = "readerIndex b - length d" and ?v = "overwrite (readerIndex b - length d) d (buffer_data b)"
  have r: "?r + length d = readerIndex b" using assms(2) by (simp add: size_defs)
  then have fit: "?r + length d \<le> length (buffer_data b)" using assms(1) by (simp add: buf_wf_def)
  then have len: "length ?v = length (buffer_data b)" by simp
  have "subrange ?r (writerIndex b) ?v = subrange ?r (?r + length d) ?v @ subrange (?r + length d) (writerIndex b) ?v"
    using assms(1) r by (intro subrange_split) (auto simp: buf_wf_def)
  also have "subrange ?r (?r + length d) ?v = d" by (rule subrange_overwrite_hit [OF fit])
  also have "subrange (?r + length d) (writerIndex b) ?v = contents b"
    using subrange_overwrite_after [of ?r d "?r + length d" "buffer_data b" "writerIndex b"] fit r
    by (simp add: contents_def)
  finally show ?thesis using assms len
    by (auto simp: prepend_def Let_def buf_wf_def contents_def size_defs)
qed

section \<open>Integers\<close>

lemma obj_bytes_network [simp]:
  "obj_bytes h (hostToNetwork64 h x64) = be_bytes x64"
  "obj_bytes h (hostToNetwork32 h x32) = be_bytes x32"
  "obj_bytes h (hostToNetwork16 h x16) = be_bytes x16"
  by (simp_all add: endian_defs obj_bytes_swap)

lemma network_obj_word [simp]:
  "networkToHost64 h (obj_word h (be_bytes x64)) = x64"
  "networkToHost32 h (obj_word h (be_bytes x32)) = x32"
  "networkToHost16 h (obj_word h (be_bytes x16)) = x16"
  by (simp_all add: endian_defs swap_obj_word)

lemma network_obj_word_inv:
  "length bs = 4 \<Longrightarrow> be_bytes (networkToHost32 h (obj_word h bs)) = bs"
  by (simp add: endian_defs be_bytes_obj_word)

lemma readable_contents: "buf_wf b \<Longrightarrow> contents b = d @ rest \<Longrightarrow> length d \<le> readableBytes b"
  by (metis length_append length_contents le_add1)

lemma peekInt32_contents:
  assumes "buf_wf b" "4 \<le> readableBytes b"
  shows "peekInt32 h b = Inr (networkToHost32 h (obj_word h (take 4 (contents b))))"
  using assms by (simp add: peekInt32_def contents_take)

lemma readInt_head:
  assumes "buf_wf b"
  shows "contents b = be_bytes x64 @ rest \<Longrightarrow>
      \<exists>b'. readInt64 h b = Inr (x64, b') \<and> buf_wf b' \<and> contents b' = rest"
    and "contents b = be_bytes x32 @ rest \<Longrightarrow>
      \<exists>b'. readInt32 h b = Inr (x32, b') \<and> buf_wf b' \<and> contents b' = rest"
    and "contents b = be_bytes x16 @ rest \<Longrightarrow>
      \<exists>b'. readInt16 h b = Inr (x16, b') \<and> buf_wf b' \<and> contents b' = rest"
    and "contents b = [x8] @ rest \<Longrightarrow>
      \<exists>b'. readInt8 b = Inr (x8, b') \<and> buf_wf b' \<and> contents b' = rest"
proof -
  show "\<exists>b'. readInt64 h b = Inr (x64, b') \<and> buf_wf b' \<and> contents b' = rest"
    if "contents b = be_bytes x64 @ rest"
    using readable_contents [OF assms that] retrieve_ok [OF assms, of 8] that assms
    by (auto simp: readInt64_def peekInt64_def retrieveInt64_def contents_take)
  show "\<exists>b'. readInt32 h b = Inr (x32, b') \<and> buf_wf b' \<and> contents b' = rest"
    if "contents b = be_bytes x32 @ rest"
    using readable_contents [OF assms that] retrieve_ok [OF assms, of 4] that assms
    by (auto simp: readInt32_def peekInt32_def retrieveInt32_def contents_take)
  show "\<exists>b'. readInt16 h b = Inr (x16, b') \<and> buf_wf b' \<and> contents b' = rest"
    if "contents b = be_bytes x16 @ rest"
    using readable_contents [OF assms that] retrieve_ok [OF assms, of 2] that assms
    by (auto simp: readInt16_def peekInt16_def retrieveInt16_def contents_take
        simp del: add_2_eq_Suc add_2_eq_Suc')
  show "\<exists>b'. readInt8 b = Inr (x8, b') \<and> buf_wf b' \<and> contents b' = rest"
    if "contents b = [x8] @ rest"
    using readable_contents [OF assms that] retrieve_ok [OF assms, of 1] that assms
    by (auto simp: readInt8_def peekInt8_def retrieveInt8_def contents_nonempty_nth)
qed

section \<open>Reading from a descriptor\<close>

lemma readFd_data:
  assumes wf: "buf_wf b" and ok: "readv_ok (readFd_areas b) (ReadvData d)"
    and room: "length (buffer_data b) + 2 * extrabuf_size + kCheapPrepend \<le> vec_max"
  shows "\<exists>b'. readFd (ReadvData d) b = Inr (int (length d), None, b') \<and> writes_ok d b b'"
proof (cases "length d \<le> writableBytes b")
  case True
  then show ?thesis using copy_and_advance [OF wf True] by (simp add: readFd_def Let_def)
next
  case False
  let ?w = "writableBytes b"
  let ?b1 = "b\<lparr>buffer_data := overwrite (writerIndex b) (take ?w d) (buffer_data b),
               writerIndex := writerIndex b + length (take ?w d)\<rparr>"
  have tk: "length (take ?w d) = ?w" using False by simp
  then have "writes_ok (take ?w d) b ?b1" by (intro copy_and_advance [OF wf]) simp
  moreover have full: "writerIndex b + ?w = length (buffer_data b)"
    using wf by (auto simp: size_defs buf_wf_def)
  moreover have lenv: "length (overwrite (writerIndex b) (take ?w d) (buffer_data b)) = length (buffer_data b)"
    using tk full by (intro length_overwrite) simp
  ultimately have w1: "buf_wf ?b1" "contents ?b1 = contents b @ take ?w d"
    by (simp_all add: writes_ok_def)
  have "length d \<le> ?w + extrabuf_size"
    using ok False by (auto simp: readv_ok_def readFd_areas_def Let_def split: if_splits)
  then have "append_fits (length (drop ?w d)) ?b1"
    using room lenv w1(1) by (intro append_fits_small) (auto simp: buf_wf_def size_defs)
  from append_total [OF w1(1) this] obtain b2
    where "append (drop ?w d) ?b1 = Inr b2" "writes_ok (drop ?w d) ?b1 b2" by auto
  with w1 False tk full lenv show ?thesis
    by (auto simp: readFd_def Let_def append_def writes_ok_def)
qed

section \<open>The byte queue interface\<close>

text \<open>
  What the connection, the codecs and the protocol parsers rely on: a queue of bytes with an
  invariant, appending at the end and taking from the front. \<open>limit\<close> bounds what can be stored.
\<close>

locale byte_fifo =
  fixes inv :: "'b \<Rightarrow> bool" and bytes :: "'b \<Rightarrow> byte list" and limit :: nat
    and put :: "byte list \<Rightarrow> 'b \<Rightarrow> 'b result"
    and get :: "nat \<Rightarrow> 'b \<Rightarrow> (byte list \<times> 'b) result"
    and drop_front :: "nat \<Rightarrow> 'b \<Rightarrow> 'b result"
  assumes put_ok: "inv b \<Longrightarrow> length d \<le> limit \<Longrightarrow> put d b = Inr b' \<Longrightarrow> inv b' \<and> bytes b' = bytes b @ d"
    and put_total: "inv b \<Longrightarrow> length (bytes b) + 2 * length d \<le> limit \<Longrightarrow> \<exists>b'. put d b = Inr b'"
    and get_ok: "inv b \<Longrightarrow> n \<le> length (bytes b) \<Longrightarrow>
      \<exists>b'. get n b = Inr (take n (bytes b), b') \<and> inv b' \<and> bytes b' = drop n (bytes b)"
    and get_short: "inv b \<Longrightarrow> length (bytes b) < n \<Longrightarrow> get n b = Inl AssertFail"
    and drop_ok: "inv b \<Longrightarrow> n \<le> length (bytes b) \<Longrightarrow>
      \<exists>b'. drop_front n b = Inr b' \<and> inv b' \<and> bytes b' = drop n (bytes b)"
    and drop_short: "inv b \<Longrightarrow> length (bytes b) < n \<Longrightarrow> drop_front n b = Inl AssertFail"

text \<open>A client of the queue: a sequence of writes and reads, collecting what is read.\<close>

datatype fifo_op = Put "byte list" | Get nat

fun fifo_run :: "(byte list \<Rightarrow> 'b \<Rightarrow> 'b result) \<Rightarrow> (nat \<Rightarrow> 'b \<Rightarrow> (byte list \<times> 'b) result) \<Rightarrow>
    fifo_op list \<Rightarrow> 'b \<Rightarrow> (byte list \<times> 'b) result" where
  "fifo_run put get [] b = Inr ([], b)"
| "fifo_run put get (Put d # ops) b = rbind (put d b) (fifo_run put get ops)"
| "fifo_run put get (Get n # ops) b =
     rbind (get n b) (\<lambda>(x, b'). rbind (fifo_run put get ops b') (\<lambda>(xs, b''). Inr (x @ xs, b'')))"

primrec put_bytes :: "fifo_op list \<Rightarrow> byte list" where
  "put_bytes [] = []"
| "put_bytes (p # ops) = (case p of Put d \<Rightarrow> d @ put_bytes ops | Get n \<Rightarrow> put_bytes ops)"

text \<open>Reads stay within what is stored (\<open>k\<close> bytes at first) and writes within the limit.\<close>

fun fifo_within :: "nat \<Rightarrow> nat \<Rightarrow> fifo_op list \<Rightarrow> bool" where
  "fifo_within limit k [] = True"
| "fifo_within limit k (Put d # ops) =
     (k + 2 * length d \<le> limit \<and> fifo_within limit (k + length d) ops)"
| "fifo_within limit k (Get n # ops) = (n \<le> k \<and> fifo_within limit (k - n) ops)"

context byte_fifo
begin

lemma put_total_ok:
  assumes "inv b" "length (bytes b) + 2 * length d \<le> limit"
  shows "\<exists>b'. put d b = Inr b' \<and> inv b' \<and> bytes b' = bytes b @ d"
proof -
  have "length d \<le> limit" using assms(2) by linarith
  with put_total [OF assms] put_ok [OF assms(1)] show ?thesis by blast
qed

text \<open>A message written piece by piece.\<close>

lemma put_all:
  assumes "inv b" "length (bytes b) + 2 * length (concat ds) \<le> limit"
  shows "\<exists>b'. rfold put ds b = Inr b' \<and> inv b' \<and> bytes b' = bytes b @ concat ds"
  using assms
proof (induction ds arbitrary: b)
  case (Cons d ds)
  have "length (bytes b) + 2 * length d \<le> limit" using Cons.prems(2) by simp
  from put_total_ok [OF Cons.prems(1) this] obtain b1 where
    b1: "put d b = Inr b1" "inv b1" "bytes b1 = bytes b @ d" by blast
  from Cons.IH [OF b1(2)] Cons.prems(2) b1 show ?case by auto
qed simp

lemma fifo_run_total:
  assumes "inv b" "fifo_within limit (length (bytes b)) ops"
  shows "\<exists>out b'. fifo_run put get ops b = Inr (out, b') \<and> inv b' \<and>
     out @ bytes b' = bytes b @ put_bytes ops"
  using assms
proof (induction ops arbitrary: b)
  case Nil
  then show ?case by simp
next
  case (Cons p ops)
  show ?case
  proof (cases p)
    case (Put d)
    with Cons.prems put_total_ok [OF Cons.prems(1), of d] Cons.IH show ?thesis by fastforce
  next
    case (Get n)
    with Cons.prems have n: "n \<le> length (bytes b)" by simp
    from get_ok [OF Cons.prems(1) n] obtain b1 where b1:
      "get n b = Inr (take n (bytes b), b1)" "inv b1" "bytes b1 = drop n (bytes b)" by blast
    with Cons.IH [of b1] Cons.prems Get obtain xs b2 where
      "fifo_run put get ops b1 = Inr (xs, b2)" "inv b2" "xs @ bytes b2 = drop n (bytes b) @ put_bytes ops"
      by auto
    moreover from this have "(take n (bytes b) @ xs) @ bytes b2 = bytes b @ put_bytes ops"
      by (metis append_assoc append_take_drop_id)
    ultimately show ?thesis using Get b1 by simp
  qed
qed

end

text \<open>The buffer provides the interface.\<close>

interpretation net_buf: byte_fifo buf_wf contents "vec_max - kCheapPrepend" append retrieveAsString retrieve
proof unfold_locales
  fix b d b' n
  assume wf: "buf_wf b"
  show "append d b = Inr b' \<Longrightarrow> buf_wf b' \<and> contents b' = contents b @ d"
    if "length d \<le> vec_max - kCheapPrepend"
    using append_Inr [OF wf, of d b'] that by (simp add: writes_ok_def)
  show "\<exists>b'. append d b = Inr b'" if "length (contents b) + 2 * length d \<le> vec_max - kCheapPrepend"
  proof -
    have "kCheapPrepend \<le> vec_max" by (simp add: kCheapPrepend_def vec_max_def)
    then have "append_fits (length d) b" using that wf by (intro append_fits_small) auto
    from append_total [OF wf this] show ?thesis by blast
  qed
  show "\<exists>b'. retrieveAsString n b = Inr (take n (contents b), b') \<and> buf_wf b' \<and> contents b' = drop n (contents b)"
    if "n \<le> length (contents b)" using retrieveAsString_ok [OF wf] that wf by simp
  show "retrieveAsString n b = Inl AssertFail" if "length (contents b) < n"
    using that wf by (simp add: retrieveAsString_def)
  show "\<exists>b'. retrieve n b = Inr b' \<and> buf_wf b' \<and> contents b' = drop n (contents b)"
    if "n \<le> length (contents b)" using retrieve_ok [OF wf] that wf by simp
  show "retrieve n b = Inl AssertFail" if "length (contents b) < n"
    using that wf by (simp add: retrieve_too_much)
qed

section \<open>Properties\<close>

text \<open>C1. The buffer is a byte queue: any sequence of \<open>append\<close> and \<open>retrieveAsString\<close> calls that
  never asks for more than is readable and stays below the maximal vector size succeeds on a
  well-formed buffer; the bytes handed out followed by the bytes still readable are the bytes
  readable at first followed by all appended bytes, in order, and the indices stay ordered.
  Growing and compacting the vector in \<open>makeSpace\<close> never loses, repeats or reorders a byte, and
  no assertion fails.\<close>

theorem buffer_is_fifo:
  assumes "buf_wf b" "fifo_within (vec_max - kCheapPrepend) (readableBytes b) ops"
  shows "\<exists>out b'. fifo_run append retrieveAsString ops b = Inr (out, b') \<and> buf_wf b' \<and>
     out @ contents b' = contents b @ put_bytes ops"
  using net_buf.fifo_run_total [of b ops] assms by simp

theorem buffer_is_fifo_witness:
  "\<exists>out b'. fifo_run append retrieveAsString [Put [1, 2, 3], Get 2, Put [4]] new_buffer = Inr (out, b') \<and>
     buf_wf b' \<and> out @ contents b' = [1, 2, 3, 4]"
proof -
  have "fifo_within (vec_max - kCheapPrepend) (readableBytes new_buffer) [Put [1, 2, 3], Get 2, Put [4]]"
    by (simp add: vec_max_def kCheapPrepend_def readableBytes_def new_buffer_def)
  from buffer_is_fifo [OF buf_wf_new this] show ?thesis by simp
qed

text \<open>\<open>readFd\<close> with one \<open>readv\<close> into the free space and a 64 KiB stack area: whenever the
  kernel keeps its contract (it delivers no more than the areas hold), the call succeeds, returns
  the number of bytes delivered and appends exactly these bytes; on a kernel error the buffer is
  unchanged and the error number is saved.\<close>

theorem readFd_appends:
  assumes "buf_wf b" "readv_ok (readFd_areas b) r"
    and "length (buffer_data b) + 2 * extrabuf_size + kCheapPrepend \<le> vec_max"
  shows "case r of
      ReadvErr e \<Rightarrow> readFd r b = Inr (-1, Some e, b)
    | ReadvData d \<Rightarrow> \<exists>b'. readFd r b = Inr (int (length d), None, b') \<and> buf_wf b' \<and>
        contents b' = contents b @ d"
proof (cases r)
  case (ReadvErr e)
  then show ?thesis by (simp add: readFd_def)
next
  case (ReadvData d)
  then show ?thesis using readFd_data [of b d] assms by (auto simp: writes_ok_def)
qed

theorem readFd_appends_witness:
  "\<exists>b'. readFd (ReadvData (replicate 2000 7)) new_buffer = Inr (2000, None, b') \<and> buf_wf b' \<and>
     contents b' = replicate 2000 7"
proof -
  have "readv_ok (readFd_areas new_buffer) (ReadvData (replicate 2000 7))"
    by (simp add: readv_ok_def readFd_areas_def new_buffer_def writableBytes_def extrabuf_size_def
        kCheapPrepend_def kInitialSize_def)
  moreover have "length (buffer_data new_buffer) + 2 * extrabuf_size + kCheapPrepend \<le> vec_max"
    by (simp add: new_buffer_def extrabuf_size_def kCheapPrepend_def kInitialSize_def vec_max_def)
  ultimately show ?thesis using readFd_appends [OF buf_wf_new, of "ReadvData (replicate 2000 7)"] by simp
qed

text \<open>Integers cross the buffer unchanged and in network order, on hosts of either byte
  order: appending a 64, 32, 16 and 8 bit integer to an empty buffer and reading them back in that
  order returns the four values and leaves the buffer empty, and the bytes in between are the
  big-endian representations.\<close>

theorem int_round_trip:
  assumes "buf_wf b" "contents b = []"
  shows "\<exists>b1 b2 b3 b4.
     appendInt64 h x64 b = Inr b1 \<and> appendInt32 h x32 b1 = Inr b2 \<and>
     appendInt16 h x16 b2 = Inr b3 \<and> appendInt8 x8 b3 = Inr b4 \<and>
     contents b4 = be_bytes x64 @ be_bytes x32 @ be_bytes x16 @ [x8] \<and>
     (\<exists>c1 c2 c3 c4. readInt64 h' b4 = Inr (x64, c1) \<and> readInt32 h' c1 = Inr (x32, c2) \<and>
        readInt16 h' c2 = Inr (x16, c3) \<and> readInt8 c3 = Inr (x8, c4) \<and> contents c4 = [])"
proof -
  note lim = vec_max_def kCheapPrepend_def
  from assms obtain b1 where b1: "append (be_bytes x64) b = Inr b1" "buf_wf b1" "contents b1 = be_bytes x64"
    using net_buf.put_total_ok [of b "be_bytes x64"] by (auto simp: lim)
  then obtain b2 where b2: "append (be_bytes x32) b1 = Inr b2" "buf_wf b2"
    "contents b2 = be_bytes x64 @ be_bytes x32"
    using net_buf.put_total_ok [of b1 "be_bytes x32"] by (auto simp: lim simp del: length_contents)
  then obtain b3 where b3: "append (be_bytes x16) b2 = Inr b3" "buf_wf b3"
    "contents b3 = be_bytes x64 @ be_bytes x32 @ be_bytes x16"
    using net_buf.put_total_ok [of b2 "be_bytes x16"] by (auto simp: lim simp del: length_contents)
  then obtain b4 where b4: "append [x8] b3 = Inr b4" "buf_wf b4"
    "contents b4 = be_bytes x64 @ be_bytes x32 @ be_bytes x16 @ [x8]"
    using net_buf.put_total_ok [of b3 "[x8]"] by (auto simp: lim simp del: length_contents)
  from readInt_head(1) [OF b4(2,3)] obtain c1 where c1: "readInt64 h' b4 = Inr (x64, c1)"
    "buf_wf c1" "contents c1 = be_bytes x32 @ be_bytes x16 @ [x8]" by blast
  from readInt_head(2) [OF c1(2,3)] obtain c2 where c2: "readInt32 h' c1 = Inr (x32, c2)"
    "buf_wf c2" "contents c2 = be_bytes x16 @ [x8]" by blast
  from readInt_head(3) [OF c2(2,3)] obtain c3 where c3: "readInt16 h' c2 = Inr (x16, c3)"
    "buf_wf c3" "contents c3 = [x8]" by blast
  from readInt_head(4) [OF c3(2), of x8 "[]"] c3(3) obtain c4 where
    "readInt8 c3 = Inr (x8, c4)" "contents c4 = []" by auto
  with b1 b2 b3 b4 c1 c2 c3 show ?thesis
    by (auto simp: appendInt64_def appendInt32_def appendInt16_def appendInt8_def)
qed

theorem int_round_trip_witness:
  "\<exists>b1 b2 b3 b4.
     appendInt64 LittleEndian 258 new_buffer = Inr b1 \<and> appendInt32 LittleEndian 7 b1 = Inr b2 \<and>
     appendInt16 LittleEndian 513 b2 = Inr b3 \<and> appendInt8 9 b3 = Inr b4 \<and>
     contents b4 = [0, 0, 0, 0, 0, 0, 1, 2, 0, 0, 0, 7, 2, 1, 9] \<and>
     (\<exists>c1 c2 c3 c4. readInt64 BigEndian b4 = Inr (258, c1) \<and> readInt32 BigEndian c1 = Inr (7, c2) \<and>
        readInt16 BigEndian c2 = Inr (513, c3) \<and> readInt8 c3 = Inr (9, c4) \<and> contents c4 = [])"
proof -
  have "be_bytes (258 :: 64 word) @ be_bytes (7 :: 32 word) @ be_bytes (513 :: 16 word) @ [9] =
      [0, 0, 0, 0, 0, 0, 1, 2, 0, 0, 0, 7, 2, 1, 9]"
    by code_simp
  with int_round_trip [OF buf_wf_new contents_new, of LittleEndian 258 7 513 9 BigEndian]
  show ?thesis by simp
qed

text \<open>\<open>prepend\<close> puts bytes in front of the readable bytes exactly when they fit into the
  prependable area and aborts otherwise; a fresh buffer has room for an eight byte header.\<close>

theorem prepend_in_front:
  assumes "buf_wf b"
  shows "if length d \<le> prependableBytes b
     then \<exists>b'. prepend d b = Inr b' \<and> buf_wf b' \<and> contents b' = d @ contents b \<and>
       prependableBytes b' = prependableBytes b - length d
     else prepend d b = Inl AssertFail"
  using prepend_ok [OF assms, of d]
  by (auto simp: prepend_def Let_def size_defs split: if_splits)

theorem prepend_in_front_witness:
  "\<exists>b'. prepend [0, 0, 0, 5] new_buffer = Inr b' \<and> buf_wf b' \<and> contents b' = [0, 0, 0, 5] \<and>
     prependableBytes b' = 4"
  using prepend_in_front [OF buf_wf_new, of "[0, 0, 0, 5]"]
  by (simp add: prependableBytes_def new_buffer_def kCheapPrepend_def contents_def)

lemma findCRLF_contents:
  assumes "buf_wf b"
  shows "findCRLF b =
     (let i = std_search kCRLF (contents b)
      in if i = length (contents b) then None else Some (peek b + i))"
  using assms
  by (auto simp: findCRLF_def Let_def contents_subrange buf_wf_def size_defs contents_def)

text \<open>\<open>findCRLF\<close> finds the first line end: it returns the position of a carriage return that
  is followed by a line feed with no earlier such pair among the readable bytes, and \<open>NULL\<close> only
  if there is none.\<close>

theorem findCRLF_first:
  assumes "buf_wf b"
  shows "case findCRLF b of
      None \<Rightarrow> \<forall>i. take 2 (drop i (contents b)) \<noteq> kCRLF
    | Some p \<Rightarrow> peek b \<le> p \<and> p + 2 \<le> beginWrite b \<and>
        take 2 (drop (p - peek b) (contents b)) = kCRLF \<and>
        (\<forall>i < p - peek b. take 2 (drop i (contents b)) \<noteq> kCRLF)"
proof (cases "std_search kCRLF (contents b) = length (contents b)")
  case True
  have two: "length kCRLF = 2" by (simp add: kCRLF_def)
  have "take 2 (drop i (contents b)) \<noteq> kCRLF" for i
  proof (cases "i < length (contents b)")
    case True
    then show ?thesis
      using std_search_first [of i kCRLF "contents b"] \<open>std_search _ _ = _\<close> two by simp
  next
    case False
    then show ?thesis by (simp add: kCRLF_def)
  qed
  then show ?thesis using True assms by (simp add: findCRLF_contents)
next
  case False
  let ?i = "std_search kCRLF (contents b)"
  have two: "length kCRLF = 2" by (simp add: kCRLF_def)
  have lt: "?i < length (contents b)" using False std_search_le [of kCRLF "contents b"] by simp
  from std_search_found [OF lt] two have hit: "take 2 (drop ?i (contents b)) = kCRLF" by simp
  from arg_cong [OF hit, of length] two have "?i + 2 \<le> length (contents b)" by simp
  moreover have "take 2 (drop j (contents b)) \<noteq> kCRLF" if "j < ?i" for j
    using std_search_first [OF that] two by simp
  ultimately show ?thesis using False hit assms
    by (auto simp: findCRLF_contents Let_def size_defs buf_wf_def)
qed

theorem findCRLF_first_witness:
  "\<exists>b. append (ascii ''a'' @ [13, 13, 10]) new_buffer = Inr b \<and>
     (case findCRLF b of
      None \<Rightarrow> \<forall>i. take 2 (drop i (contents b)) \<noteq> kCRLF
    | Some p \<Rightarrow> peek b \<le> p \<and> p + 2 \<le> beginWrite b \<and>
        take 2 (drop (p - peek b) (contents b)) = kCRLF \<and>
        (\<forall>i < p - peek b. take 2 (drop i (contents b)) \<noteq> kCRLF))"
proof -
  obtain b where "append (ascii ''a'' @ [13, 13, 10]) new_buffer = Inr b" "buf_wf b"
    using net_buf.put_total_ok [OF buf_wf_new, of "ascii ''a'' @ [13, 13, 10]"]
    by (auto simp: vec_max_def kCheapPrepend_def)
  then show ?thesis using findCRLF_first [of b] by blast
qed

lemma toStringPiece_small:
  assumes "buf_wf b" "readableBytes b < 2 ^ 31"
  shows "toStringPiece b = (contents b, int (readableBytes b))"
proof -
  have "sint (word_of_nat (readableBytes b) :: 32 word) = int (readableBytes b)"
    using assms(2) by (simp add: signed_of_nat signed_take_bit_int_eq_self)
  then show ?thesis by (simp add: toStringPiece_def contents_subrange)
qed

lemma buffer_swap_eq: "buffer_swap a b = (b, a)"
  by (cases a; cases b) (simp add: buffer_swap_def)

text \<open>Appending into a buffer that already has the room does not move anything.\<close>

lemma append_direct:
  assumes "buf_wf b" "length d \<le> writableBytes b"
  shows "\<exists>b'. append d b = Inr b' \<and> writes_ok d b b' \<and> writableBytes b' = writableBytes b - length d"
proof -
  have "length (overwrite (writerIndex b) d (buffer_data b)) = length (buffer_data b)"
    using assms by (intro length_overwrite) (auto simp: buf_wf_def size_defs)
  then show ?thesis using copy_and_advance [OF assms] assms
    by (simp add: append_def append_len_def ensureWritableBytes_def hasWritten_def size_defs)
qed

text \<open>\<open>shrink\<close> replaces the storage and keeps the readable bytes: below 2 GiB of content it
  succeeds, the contents are unchanged and at least \<open>reserve\<close> bytes are writable afterwards.\<close>

theorem shrink_keeps_contents:
  assumes "buf_wf b" "readableBytes b < 2 ^ 31" "reserve < 2 ^ 62"
  shows "\<exists>b'. shrink reserve b = Inr b' \<and> buf_wf b' \<and> contents b' = contents b \<and>
     reserve \<le> writableBytes b'"
proof -
  let ?n = "readableBytes b + reserve"
  have n: "?n + kCheapPrepend + kInitialSize \<le> vec_max" "size_wrap ?n = ?n"
    using assms by (simp_all add: vec_max_def kCheapPrepend_def kInitialSize_def)
  have "\<exists>o1. ensureWritableBytes ?n new_buffer = Inr o1 \<and> has_room ?n new_buffer o1"
    using n(1) by (intro ensureWritable_room buf_wf_new) (auto simp: new_buffer_def)
  then obtain o1 where o1: "ensureWritableBytes ?n new_buffer = Inr o1" "has_room ?n new_buffer o1" by auto
  then have "buf_wf o1" "contents o1 = []" "?n \<le> writableBytes o1" by (simp_all add: has_room_def)
  with append_direct [of o1 "contents b"] assms(1) obtain o2 where
    o2: "append (contents b) o1 = Inr o2" "writes_ok (contents b) o1 o2" "reserve \<le> writableBytes o2"
    by auto
  have "append_piece (toStringPiece b) o1 = append (contents b) o1"
    using assms by (simp add: toStringPiece_small append_piece_def append_def nat_mod_as_int)
  with o1 o2 n(2) show ?thesis
    using \<open>contents o1 = []\<close> by (simp add: shrink_def buffer_swap_eq writes_ok_def)
qed

theorem shrink_keeps_contents_witness:
  "\<exists>b'. shrink 16 new_buffer = Inr b' \<and> buf_wf b' \<and> contents b' = contents new_buffer \<and>
     16 \<le> writableBytes b'"
  using shrink_keeps_contents [OF buf_wf_new, of 16]
  by (simp add: readableBytes_def new_buffer_def kCheapPrepend_def)

end
