(* ===== verification/Tcp_Connection.thy ===== *)
theory Tcp_Connection
  imports Event_Loop Net_Buffer Timestamps
begin

text \<open>
  A TCP connection (\<open>src/muduo/net/TcpConnection.h\<close>, \<open>TcpConnection.cpp\<close>): its state machine, sending
  with an output buffer behind the socket, and receiving. The connection runs on its loop: the
  record extends the loop's state, the channel lives in the loop's heap, and callbacks deferred
  with \<open>queueInLoop\<close> are tasks of the loop's queue. The results of the system calls are arguments,
  user callbacks are a parameter.
\<close>

section \<open>State\<close>

datatype conn_state = kDisconnected | kConnecting | kConnected | kDisconnecting

datatype conn_task = SendTask "byte list" | ShutdownTask | ForceCloseTask | StartReadTask | StopReadTask
  | WriteCompleteTask | HighWaterMarkTask nat

text \<open>
  \<open>tc_written\<close> collects the bytes the kernel has accepted and \<open>tc_shutdownWrite\<close> records that the
  writing side of the socket has been shut down.
\<close>

record tcp_conn = "conn_task event_loop" +
  tc_state :: conn_state
  tc_reading :: bool
  tc_channel :: nat
  tc_highWaterMark :: nat
  tc_writeCompleteCallback :: bool
  tc_highWaterMarkCallback :: bool
  tc_inputBuffer :: buffer
  tc_outputBuffer :: buffer
  tc_written :: "byte list"
  tc_shutdownWrite :: bool

datatype user_cb = OnConnection | OnMessage int | OnClose

type_synonym user_code = "user_cb \<Rightarrow> tcp_conn \<Rightarrow> tcp_conn result"

text \<open>The result of \<open>write(2)\<close>: an error number, or the number of bytes taken.\<close>

type_synonym write_result = "int + nat"

definition EWOULDBLOCK :: int where "EWOULDBLOCK = 11"
definition EPIPE :: int where "EPIPE = 32"
definition ECONNRESET :: int where "ECONNRESET = 104"

definition stateToString :: "conn_state \<Rightarrow> string" where
  "stateToString st = (case st of kDisconnected \<Rightarrow> ''kDisconnected'' | kConnecting \<Rightarrow> ''kConnecting''
     | kConnected \<Rightarrow> ''kConnected'' | kDisconnecting \<Rightarrow> ''kDisconnecting'')"

definition connected :: "tcp_conn \<Rightarrow> bool" where
  "connected s \<longleftrightarrow> tc_state s = kConnected"

definition setHighWaterMarkCallback :: "nat \<Rightarrow> tcp_conn \<Rightarrow> tcp_conn" where
  "setHighWaterMarkCallback mark s = s\<lparr>tc_highWaterMarkCallback := True, tc_highWaterMark := mark\<rparr>"

text \<open>The constructor on a loop \<open>l\<close>: the channel of the socket \<open>fd\<close> is created at the free address \<open>p\<close>.\<close>

definition conn_channel_object :: "nat \<Rightarrow> int \<Rightarrow> channel" where
  "conn_channel_object this fd =
     setErrorCallback (setCloseCallback (setWriteCallback (setReadCallback (new_channel this fd))))"

definition new_TcpConnection :: "nat \<Rightarrow> int \<Rightarrow> conn_task event_loop \<Rightarrow> tcp_conn" where
  "new_TcpConnection p fd l =
     event_loop.extend (create_channel p (conn_channel_object (lw_this l) fd) l)
       \<lparr>tc_state = kConnecting, tc_reading = True, tc_channel = p, tc_highWaterMark = 64 * 1024 * 1024,
        tc_writeCompleteCallback = False, tc_highWaterMarkCallback = False, tc_inputBuffer = new_buffer,
        tc_outputBuffer = new_buffer, tc_written = [], tc_shutdownWrite = False\<rparr>"

section \<open>Sending\<close>

definition conn_channel :: "tcp_conn \<Rightarrow> channel result" where
  "conn_channel s = chan_at (tc_channel s) (lw_heap s)"

definition size_sub :: "nat \<Rightarrow> nat \<Rightarrow> nat" where
  "size_sub a b = nat ((int a - int b) mod 2 ^ 64)"

text \<open>The direct write: bytes taken, bytes left, whether the error is fatal, and the new state.\<close>

definition try_write :: "write_result \<Rightarrow> byte list \<Rightarrow> tcp_conn \<Rightarrow> nat \<times> nat \<times> bool \<times> tcp_conn" where
  "try_write w data s =
     (case w of
        Inr n \<Rightarrow>
          let remaining = size_sub (length data) n; s1 = s\<lparr>tc_written := tc_written s @ take n data\<rparr> in
          (n, remaining, False,
           if remaining = 0 \<and> tc_writeCompleteCallback s1 then queueInLoop (lw_inLoop s1) WriteCompleteTask s1 else s1)
      | Inl errno \<Rightarrow> (0, length data, errno \<noteq> EWOULDBLOCK \<and> (errno = EPIPE \<or> errno = ECONNRESET), s))"

text \<open>What is left goes to the output buffer, and the channel starts to watch for room to write.\<close>

definition queue_rest :: "channel \<Rightarrow> byte list \<Rightarrow> nat \<Rightarrow> tcp_conn \<Rightarrow> tcp_conn result" where
  "queue_rest c rest remaining s =
     (let oldLen = readableBytes (tc_outputBuffer s);
          s1 = (if tc_highWaterMark s \<le> oldLen + remaining \<and> oldLen < tc_highWaterMark s \<and> tc_highWaterMarkCallback s
                then queueInLoop (lw_inLoop s) (HighWaterMarkTask (oldLen + remaining)) s else s)
      in rbind (append rest (tc_outputBuffer s1)) (\<lambda>b.
           let s2 = s1\<lparr>tc_outputBuffer := b\<rparr> in
           if \<not> isWriting c then enableWriting (tc_channel s2) s2 else Inr s2))"

definition sendInLoop :: "write_result \<Rightarrow> byte list \<Rightarrow> tcp_conn \<Rightarrow> tcp_conn result" where
  "sendInLoop w data s =
     assert_loop (lw_inLoop s)
      (if tc_state s = kDisconnected then Inr s
       else rbind (conn_channel s) (\<lambda>c.
         let (nwrote, remaining, faultError, s1) =
               (if \<not> isWriting c \<and> readableBytes (tc_outputBuffer s) = 0 then try_write w data s
                else (0, length data, False, s))
         in assert_ok (remaining \<le> length data)
             (if \<not> faultError \<and> 0 < remaining then queue_rest c (drop nwrote data) remaining s1 else Inr s1)))"

definition send :: "write_result \<Rightarrow> byte list \<Rightarrow> tcp_conn \<Rightarrow> tcp_conn result" where
  "send w message s =
     (if tc_state s = kConnected then
        if lw_inLoop s then sendInLoop w message s else Inr (queueInLoop (lw_inLoop s) (SendTask message) s)
      else Inr s)"

definition send_buffer :: "write_result \<Rightarrow> buffer \<Rightarrow> tcp_conn \<Rightarrow> (buffer \<times> tcp_conn) result" where
  "send_buffer w buf s =
     (if tc_state s = kConnected then
        if lw_inLoop s then rbind (sendInLoop w (contents buf) s) (\<lambda>s'. Inr (retrieveAll buf, s'))
        else rbind (retrieveAllAsString buf) (\<lambda>(str, buf'). Inr (buf', queueInLoop (lw_inLoop s) (SendTask str) s))
      else Inr (buf, s))"

definition shutdownInLoop :: "tcp_conn \<Rightarrow> tcp_conn result" where
  "shutdownInLoop s =
     assert_loop (lw_inLoop s) (rbind (conn_channel s) (\<lambda>c.
       Inr (if \<not> isWriting c then s\<lparr>tc_shutdownWrite := True\<rparr> else s)))"

definition shutdown :: "tcp_conn \<Rightarrow> tcp_conn result" where
  "shutdown s =
     (if tc_state s = kConnected then
        let s1 = s\<lparr>tc_state := kDisconnecting\<rparr> in
        if lw_inLoop s1 then shutdownInLoop s1 else Inr (queueInLoop (lw_inLoop s1) ShutdownTask s1)
      else Inr s)"

definition handleWrite :: "write_result \<Rightarrow> tcp_conn \<Rightarrow> tcp_conn result" where
  "handleWrite w s =
     assert_loop (lw_inLoop s) (rbind (conn_channel s) (\<lambda>c.
       if isWriting c then
         (case w of
            Inl errno \<Rightarrow> Inr s
          | Inr n \<Rightarrow>
              if 0 < n then
                rbind (retrieve n (tc_outputBuffer s)) (\<lambda>b.
                let s1 = s\<lparr>tc_written := tc_written s @ take n (contents (tc_outputBuffer s)), tc_outputBuffer := b\<rparr> in
                if readableBytes b = 0 then
                  rbind (disableWriting (tc_channel s1) s1) (\<lambda>s2.
                  let s3 = (if tc_writeCompleteCallback s2 then queueInLoop (lw_inLoop s2) WriteCompleteTask s2 else s2) in
                  if tc_state s3 = kDisconnecting then shutdownInLoop s3 else Inr s3)
                else Inr s1)
              else Inr s)
       else Inr s))"

section \<open>Receiving, closing and the life cycle\<close>

definition handleClose :: "user_code \<Rightarrow> tcp_conn \<Rightarrow> tcp_conn result" where
  "handleClose user s =
     assert_loop (lw_inLoop s) (assert_ok (tc_state s = kConnected \<or> tc_state s = kDisconnecting)
       (rbind (disableAll (tc_channel s) (s\<lparr>tc_state := kDisconnected\<rparr>)) (\<lambda>s1.
        rbind (user OnConnection s1) (user OnClose))))"

text \<open>\<open>handleError\<close> only reads the pending socket error and logs it.\<close>

definition handleError :: "tcp_conn \<Rightarrow> tcp_conn result" where
  "handleError s = Inr s"

definition conn_handleRead :: "user_code \<Rightarrow> readv_result \<Rightarrow> int \<Rightarrow> tcp_conn \<Rightarrow> tcp_conn result" where
  "conn_handleRead user r receiveTime s =
     assert_loop (lw_inLoop s) (rbind (readFd r (tc_inputBuffer s)) (\<lambda>(n, savedErrno, b).
       let s1 = s\<lparr>tc_inputBuffer := b\<rparr> in
       if 0 < n then user (OnMessage receiveTime) s1
       else if n = 0 then handleClose user s1
       else handleError s1))"

definition forceCloseInLoop :: "user_code \<Rightarrow> tcp_conn \<Rightarrow> tcp_conn result" where
  "forceCloseInLoop user s =
     assert_loop (lw_inLoop s)
       (if tc_state s = kConnected \<or> tc_state s = kDisconnecting then handleClose user s else Inr s)"

definition forceClose :: "tcp_conn \<Rightarrow> tcp_conn" where
  "forceClose s =
     (if tc_state s = kConnected \<or> tc_state s = kDisconnecting
      then queueInLoop (lw_inLoop s) ForceCloseTask (s\<lparr>tc_state := kDisconnecting\<rparr>) else s)"

text \<open>The second component is the timer it starts, whose callback is \<open>forceClose\<close> on a weak pointer.\<close>

definition forceCloseWithDelay :: "rat \<Rightarrow> tcp_conn \<Rightarrow> tcp_conn \<times> rat option" where
  "forceCloseWithDelay seconds s =
     (if tc_state s = kConnected \<or> tc_state s = kDisconnecting
      then (s\<lparr>tc_state := kDisconnecting\<rparr>, Some seconds) else (s, None))"

definition startReadInLoop :: "tcp_conn \<Rightarrow> tcp_conn result" where
  "startReadInLoop s =
     assert_loop (lw_inLoop s) (rbind (conn_channel s) (\<lambda>c.
       if \<not> tc_reading s \<or> \<not> isReading c
       then rbind (enableReading (tc_channel s) s) (\<lambda>s1. Inr (s1\<lparr>tc_reading := True\<rparr>)) else Inr s))"

definition stopReadInLoop :: "tcp_conn \<Rightarrow> tcp_conn result" where
  "stopReadInLoop s =
     assert_loop (lw_inLoop s) (rbind (conn_channel s) (\<lambda>c.
       if tc_reading s \<or> isReading c
       then rbind (disableReading (tc_channel s) s) (\<lambda>s1. Inr (s1\<lparr>tc_reading := False\<rparr>)) else Inr s))"

definition startRead :: "tcp_conn \<Rightarrow> tcp_conn result" where
  "startRead s = (if lw_inLoop s then startReadInLoop s else Inr (queueInLoop (lw_inLoop s) StartReadTask s))"

definition stopRead :: "tcp_conn \<Rightarrow> tcp_conn result" where
  "stopRead s = (if lw_inLoop s then stopReadInLoop s else Inr (queueInLoop (lw_inLoop s) StopReadTask s))"

text \<open>\<open>me\<close> is the address of the connection object the channel is tied to.\<close>

definition connectEstablished :: "user_code \<Rightarrow> nat \<Rightarrow> tcp_conn \<Rightarrow> tcp_conn result" where
  "connectEstablished user me s =
     assert_loop (lw_inLoop s) (assert_ok (tc_state s = kConnecting)
       (rbind (conn_channel s) (\<lambda>c.
        let s1 = s\<lparr>tc_state := kConnected, lw_heap := (lw_heap s)(tc_channel s \<mapsto> tie_to me c)\<rparr> in
        rbind (enableReading (tc_channel s1) s1) (user OnConnection))))"

definition connectDestroyed :: "user_code \<Rightarrow> tcp_conn \<Rightarrow> tcp_conn result" where
  "connectDestroyed user s =
     assert_loop (lw_inLoop s)
      (rbind
        (if tc_state s = kConnected
         then rbind (disableAll (tc_channel s) (s\<lparr>tc_state := kDisconnected\<rparr>)) (user OnConnection)
         else Inr s)
        (\<lambda>s1. channel_remove (tc_channel s1) s1))"

text \<open>The destructor, then the destruction of the channel it owns.\<close>

definition destroy_TcpConnection :: "tcp_conn \<Rightarrow> tcp_conn result" where
  "destroy_TcpConnection s = assert_ok (tc_state s = kDisconnected) (destroy_channel (tc_channel s) s)"

text \<open>Running a task of the loop's queue that belongs to the connection.\<close>

definition run_conn_task :: "user_code \<Rightarrow> write_result \<Rightarrow> conn_task \<Rightarrow> tcp_conn \<Rightarrow> tcp_conn result" where
  "run_conn_task user w t s =
     (case t of SendTask d \<Rightarrow> sendInLoop w d s | ShutdownTask \<Rightarrow> shutdownInLoop s
      | ForceCloseTask \<Rightarrow> forceCloseInLoop user s | StartReadTask \<Rightarrow> startReadInLoop s
      | StopReadTask \<Rightarrow> stopReadInLoop s | WriteCompleteTask \<Rightarrow> Inr s | HighWaterMarkTask n \<Rightarrow> Inr s)"

definition defaultMessageCallback :: "buffer \<Rightarrow> buffer" where
  "defaultMessageCallback buf = retrieveAll buf"

section \<open>The invariant of a live connection\<close>

definition conn_ok :: "tcp_conn \<Rightarrow> channel \<Rightarrow> bool" where
  "conn_ok s c \<longleftrightarrow> loop_wf s \<and> lw_heap s (tc_channel s) = Some c \<and> ownerLoop c = lw_this s \<and> 0 \<le> chan_fd c \<and>
     valid_events (events c) \<and> registered (tc_channel s) s \<and>
     buf_wf (tc_inputBuffer s) \<and> buf_wf (tc_outputBuffer s) \<and>
     (isWriting c \<longleftrightarrow> contents (tc_outputBuffer s) \<noteq> [])"

text \<open>Bytes given to the connection and not lost: those the kernel has, then those waiting.\<close>

definition stream :: "tcp_conn \<Rightarrow> byte list" where
  "stream s = tc_written s @ contents (tc_outputBuffer s)"

lemma isWriting_events: "isWriting c \<longleftrightarrow> events c AND kWriteEvent \<noteq> 0" "isReading c \<longleftrightarrow> events c AND kReadEvent \<noteq> 0"
  by (simp_all add: isWriting_def isReading_def)

text \<open>The mask operations on a live connection; \<open>s1\<close> may already differ in its output buffer.\<close>

lemma conn_mask:
  assumes "loop_wf s" "lw_heap s (tc_channel s) = Some c" "ownerLoop c = lw_this s" "0 \<le> chan_fd c"
    "valid_events (events c)" "registered (tc_channel s) s"
    and "valid_events (f c)" "f c AND kWriteEvent \<noteq> 0 \<longleftrightarrow> contents (tc_outputBuffer s) \<noteq> []"
    "buf_wf (tc_inputBuffer s)" "buf_wf (tc_outputBuffer s)"
  shows "\<exists>s' c'. set_mask f (tc_channel s) s = Inr s' \<and> conn_ok s' c' \<and> events c' = f c \<and>
    (\<exists>h ps. s' = s\<lparr>lw_heap := h, lw_poller := ps\<rparr>)"
proof -
  from set_mask_upd [of s "tc_channel s" c f] assms obtain s' c' h ps where
    *: "set_mask f (tc_channel s) s = Inr s'" "loop_wf s'" "registered (tc_channel s) s'" "lw_heap s' (tc_channel s) = Some c'"
    "events c' = f c" "ownerLoop c' = lw_this s'" "chan_fd c' = chan_fd c" "s' = s\<lparr>lw_heap := h, lw_poller := ps\<rparr>" by blast
  then have "conn_ok s' c'" using assms by (simp add: conn_ok_def isWriting_events)
  with * show ?thesis by blast
qed

lemma queueInLoop_parts [simp]:
  fixes s :: tcp_conn
  shows "lw_heap (queueInLoop b t s) = lw_heap s" "lw_poller (queueInLoop b t s) = lw_poller s"
    "lw_this (queueInLoop b t s) = lw_this s" "lw_inLoop (queueInLoop b t s) = lw_inLoop s"
    "tc_channel (queueInLoop b t s) = tc_channel s" "tc_state (queueInLoop b t s) = tc_state s"
    "tc_inputBuffer (queueInLoop b t s) = tc_inputBuffer s" "tc_outputBuffer (queueInLoop b t s) = tc_outputBuffer s"
    "tc_written (queueInLoop b t s) = tc_written s" "tc_shutdownWrite (queueInLoop b t s) = tc_shutdownWrite s"
    "tc_highWaterMark (queueInLoop b t s) = tc_highWaterMark s"
    "tc_highWaterMarkCallback (queueInLoop b t s) = tc_highWaterMarkCallback s"
    "tc_writeCompleteCallback (queueInLoop b t s) = tc_writeCompleteCallback s"
    "el_pendingFunctors (queueInLoop b t s) = el_pendingFunctors s @ [t]"
  by (simp_all add: queueInLoop_def push_functor_def wakeup_def Let_def)

lemma loop_wf_cong:
  "lw_heap s' = lw_heap s \<Longrightarrow> lw_poller s' = lw_poller s \<Longrightarrow> lw_this s' = lw_this s \<Longrightarrow> lw_inLoop s' = lw_inLoop s \<Longrightarrow>
     loop_wf s' \<longleftrightarrow> loop_wf s"
  "lw_heap s' = lw_heap s \<Longrightarrow> lw_poller s' = lw_poller s \<Longrightarrow> registered p s' \<longleftrightarrow> registered p s"
  by (simp_all add: loop_wf_def registered_def)

lemma size_sub_le: "b \<le> a \<Longrightarrow> a < 2 ^ 64 \<Longrightarrow> size_sub a b = a - b"
  by (simp add: size_sub_def flip: of_nat_diff)

lemma readable_empty: "buf_wf b \<Longrightarrow> readableBytes b = 0 \<longleftrightarrow> contents b = []"
  by (metis length_contents length_0_conv)

section \<open>Sending keeps the stream\<close>

definition high_water_tasks :: "tcp_conn \<Rightarrow> nat \<Rightarrow> conn_task list" where
  "high_water_tasks s n =
     (let old = length (contents (tc_outputBuffer s)) in
      if tc_highWaterMark s \<le> old + n \<and> old < tc_highWaterMark s \<and> tc_highWaterMarkCallback s
      then [HighWaterMarkTask (old + n)] else [])"

definition same_setup :: "tcp_conn \<Rightarrow> tcp_conn \<Rightarrow> bool" where
  "same_setup s s' \<longleftrightarrow> tc_state s' = tc_state s \<and> tc_channel s' = tc_channel s \<and>
     tc_shutdownWrite s' = tc_shutdownWrite s \<and> tc_highWaterMark s' = tc_highWaterMark s \<and>
     tc_highWaterMarkCallback s' = tc_highWaterMarkCallback s \<and>
     tc_writeCompleteCallback s' = tc_writeCompleteCallback s \<and> tc_inputBuffer s' = tc_inputBuffer s"

lemma same_setup_refl [simp]: "same_setup s s"
  by (simp add: same_setup_def)

lemma same_setup_trans: "same_setup s t \<Longrightarrow> same_setup t u \<Longrightarrow> same_setup s u"
  by (simp add: same_setup_def)

lemma queue_rest_ok:
  assumes ok: "conn_ok s c" and rest: "rest \<noteq> []"
    and fits: "length (contents (tc_outputBuffer s)) + 2 * length rest \<le> vec_max - kCheapPrepend"
  shows "\<exists>s' c'. queue_rest c rest (length rest) s = Inr s' \<and> conn_ok s' c' \<and> same_setup s s' \<and>
    tc_written s' = tc_written s \<and> contents (tc_outputBuffer s') = contents (tc_outputBuffer s) @ rest \<and>
    el_pendingFunctors s' = el_pendingFunctors s @ high_water_tasks s (length rest)"
proof -
  let ?old = "length (contents (tc_outputBuffer s))"
  define s1 where "s1 = (if tc_highWaterMark s \<le> ?old + length rest \<and> ?old < tc_highWaterMark s \<and> tc_highWaterMarkCallback s
     then queueInLoop (lw_inLoop s) (HighWaterMarkTask (?old + length rest)) s else s)"
  have out: "tc_outputBuffer s1 = tc_outputBuffer s" and wf: "buf_wf (tc_outputBuffer s)"
    using ok by (auto simp: s1_def conn_ok_def)
  from net_buf.put_total_ok [OF wf fits] obtain b where b: "append rest (tc_outputBuffer s) = Inr b" "buf_wf b"
    "contents b = contents (tc_outputBuffer s) @ rest" by blast
  define s2 where "s2 = s1\<lparr>tc_outputBuffer := b\<rparr>"
  have base: "loop_wf s2" "lw_heap s2 (tc_channel s2) = Some c" "ownerLoop c = lw_this s2" "0 \<le> chan_fd c"
    "valid_events (events c)" "registered (tc_channel s2) s2" "buf_wf (tc_inputBuffer s2)" "tc_channel s2 = tc_channel s"
    using ok by (auto simp: s2_def s1_def conn_ok_def loop_wf_def registered_def)
  have eq: "queue_rest c rest (length rest) s = (if \<not> isWriting c then enableWriting (tc_channel s2) s2 else Inr s2)"
    using b(1) out wf by (auto simp: queue_rest_def s1_def s2_def Let_def)
  have pend: "el_pendingFunctors s2 = el_pendingFunctors s @ high_water_tasks s (length rest)" "same_setup s s2"
    "tc_written s2 = tc_written s"
    by (auto simp: s2_def s1_def high_water_tasks_def same_setup_def Let_def)
  show ?thesis
  proof (cases "isWriting c")
    case True
    then have "conn_ok s2 c" using base b rest by (simp add: conn_ok_def s2_def)
    with True eq pend b(3) show ?thesis by (auto simp: s2_def)
  next
    case False
    have "mask_enableWriting c AND kWriteEvent \<noteq> 0"
      using base(5) mask_effects(3) [of c] by (simp add: isWriting_events)
    with conn_mask [OF base(1-6), of mask_enableWriting] base(5,7) b rest obtain s' c' h ps where
      "set_mask mask_enableWriting (tc_channel s2) s2 = Inr s'" "conn_ok s' c'" "s' = s2\<lparr>lw_heap := h, lw_poller := ps\<rparr>"
      by (auto simp: s2_def)
    with False eq pend b(3) show ?thesis
      by (intro exI [of _ s'] exI [of _ c']) (auto simp: enableWriting_def s2_def same_setup_def)
  qed
qed

text \<open>The kernel's answer to a \<open>write\<close> of \<open>n\<close> bytes that does not break the connection.\<close>

definition write_ok :: "nat \<Rightarrow> write_result \<Rightarrow> bool" where
  "write_ok n w = (case w of Inr k \<Rightarrow> k \<le> n | Inl e \<Rightarrow> e \<noteq> EPIPE \<and> e \<noteq> ECONNRESET)"

definition accepted :: "write_result \<Rightarrow> nat" where
  "accepted w = (case w of Inr k \<Rightarrow> k | Inl e \<Rightarrow> 0)"

text \<open>What \<open>sendInLoop\<close> queues: the write-complete task when the kernel took everything at once, the
  high-water task when the buffer crosses the mark.\<close>

definition send_tasks :: "write_result \<Rightarrow> byte list \<Rightarrow> tcp_conn \<Rightarrow> conn_task list" where
  "send_tasks w data s =
     (let direct = (contents (tc_outputBuffer s) = []); n = (if direct then accepted w else 0) in
      (if direct \<and> \<not> isl w \<and> n = length data \<and> tc_writeCompleteCallback s then [WriteCompleteTask] else []) @
      (if n < length data then high_water_tasks s (length data - n) else []))"

lemma sendInLoop_ok:
  assumes ok: "conn_ok s c" "tc_state s \<noteq> kDisconnected" "write_ok (length data) w"
    and fits: "length (contents (tc_outputBuffer s)) + 2 * length data \<le> vec_max - kCheapPrepend"
  shows "\<exists>s' c'. sendInLoop w data s = Inr s' \<and> conn_ok s' c' \<and> same_setup s s' \<and> stream s' = stream s @ data \<and>
    length (tc_written s) \<le> length (tc_written s') \<and> el_pendingFunctors s' = el_pendingFunctors s @ send_tasks w data s"
proof -
  have c: "conn_channel s = Inr c" "lw_inLoop s" "buf_wf (tc_outputBuffer s)"
    "isWriting c \<longleftrightarrow> contents (tc_outputBuffer s) \<noteq> []"
    using ok(1) by (auto simp: conn_ok_def conn_channel_def loop_wf_def)
  let ?direct = "contents (tc_outputBuffer s) = []"
  define n where "n = (if ?direct then accepted w else 0)"
  define s1 where "s1 = (if ?direct \<and> \<not> isl w then (let t = s\<lparr>tc_written := tc_written s @ take n data\<rparr> in
     if n = length data \<and> tc_writeCompleteCallback s then queueInLoop (lw_inLoop s) WriteCompleteTask t else t) else s)"
  have len: "length data < 2 ^ 64" using fits by (simp add: vec_max_def)
  have n: "n \<le> length data" using ok(3) by (auto simp: n_def write_ok_def accepted_def split: sum.splits)
  have s1: "conn_ok s1 c" "same_setup s s1" "tc_outputBuffer s1 = tc_outputBuffer s"
    "tc_written s1 = tc_written s @ take n data" "high_water_tasks s1 k = high_water_tasks s k" for k
    using ok(1) by (auto simp: s1_def Let_def conn_ok_def loop_wf_def registered_def same_setup_def
        high_water_tasks_def n_def accepted_def split: sum.splits)
  have tw: "(if \<not> isWriting c \<and> readableBytes (tc_outputBuffer s) = 0 then try_write w data s
      else (0, length data, False, s)) = (n, length data - n, False, s1)"
    using c n len ok(3)
    by (auto simp: readable_empty n_def s1_def try_write_def accepted_def write_ok_def size_sub_le Let_def split: sum.splits)
  have pend1: "el_pendingFunctors s1 = el_pendingFunctors s @
      (if ?direct \<and> \<not> isl w \<and> n = length data \<and> tc_writeCompleteCallback s then [WriteCompleteTask] else [])"
    by (simp add: s1_def Let_def)
  have eq: "sendInLoop w data s = (if n < length data then queue_rest c (drop n data) (length (drop n data)) s1 else Inr s1)"
    unfolding sendInLoop_def c(1) c(2) [THEN eqTrueI] assert_loop_True ok(2) [THEN eq_False [THEN iffD2]]
      if_False rbind_simps tw Let_def prod.case by simp
  show ?thesis
  proof (cases "n < length data")
    case True
    have "length (contents (tc_outputBuffer s1)) + 2 * length (drop n data) \<le> vec_max - kCheapPrepend"
      using fits s1(3) by simp
    from queue_rest_ok [OF s1(1) _ this] True obtain s' c' where
      s': "queue_rest c (drop n data) (length (drop n data)) s1 = Inr s'" "conn_ok s' c'" "same_setup s1 s'"
      "tc_written s' = tc_written s1" "contents (tc_outputBuffer s') = contents (tc_outputBuffer s1) @ drop n data"
      "el_pendingFunctors s' = el_pendingFunctors s1 @ high_water_tasks s1 (length (drop n data))" by auto
    have "stream s' = stream s @ data"
      using s'(4,5) s1(3,4) by (auto simp: stream_def n_def)
    with True eq s' s1 pend1 show ?thesis
      by (intro exI [of _ s'] exI [of _ c']) (auto simp: send_tasks_def n_def Let_def intro: same_setup_trans)
  next
    case False
    then have "n = length data" using n by simp
    moreover from this have "stream s1 = stream s @ data"
      using s1(3,4) by (auto simp: stream_def n_def split: if_splits)
    ultimately show ?thesis using eq s1 pend1
      by (intro exI [of _ s1] exI [of _ c]) (auto simp: send_tasks_def n_def Let_def)
  qed
qed

lemma shutdownInLoop_ok:
  assumes "conn_ok s c"
  shows "shutdownInLoop s = Inr (if contents (tc_outputBuffer s) = [] then s\<lparr>tc_shutdownWrite := True\<rparr> else s)"
  using assms by (auto simp: shutdownInLoop_def conn_ok_def conn_channel_def loop_wf_def)

lemma conn_ok_shut: "conn_ok s c \<Longrightarrow> conn_ok (s\<lparr>tc_shutdownWrite := b\<rparr>) c" "conn_ok s c \<Longrightarrow> conn_ok (s\<lparr>tc_state := st\<rparr>) c"
  "conn_ok s c \<Longrightarrow> conn_ok (queueInLoop i t s) c" "conn_ok s c \<Longrightarrow> conn_ok (s\<lparr>tc_reading := b\<rparr>) c"
  by (auto simp: conn_ok_def loop_wf_def registered_def)

text \<open>\<open>handleWrite\<close> when the kernel takes everything that is waiting.\<close>

lemma handleWrite_drains:
  assumes ok: "conn_ok s c" and d: "contents (tc_outputBuffer s) = d" "d \<noteq> []"
  shows "\<exists>s' c'. handleWrite (Inr (length d)) s = Inr s' \<and> conn_ok s' c' \<and> tc_written s' = tc_written s @ d \<and>
    contents (tc_outputBuffer s') = [] \<and> tc_state s' = tc_state s \<and> tc_channel s' = tc_channel s \<and>
    tc_shutdownWrite s' = (tc_shutdownWrite s \<or> tc_state s = kDisconnecting) \<and>
    el_pendingFunctors s' = el_pendingFunctors s @ (if tc_writeCompleteCallback s then [WriteCompleteTask] else [])"
proof -
  from ok have base: "loop_wf s" "lw_heap s (tc_channel s) = Some c" "ownerLoop c = lw_this s" "0 \<le> chan_fd c"
    "valid_events (events c)" "registered (tc_channel s) s" "buf_wf (tc_inputBuffer s)" "buf_wf (tc_outputBuffer s)"
    "isWriting c" using d by (auto simp: conn_ok_def)
  from retrieve_ok [OF base(8), of "length d"] d base(8) obtain b where
    b: "retrieve (length d) (tc_outputBuffer s) = Inr b" "buf_wf b" "contents b = []" by (auto simp flip: length_contents)
  define s1 where "s1 = s\<lparr>tc_written := tc_written s @ d, tc_outputBuffer := b\<rparr>"
  have base1: "loop_wf s1" "lw_heap s1 (tc_channel s1) = Some c" "ownerLoop c = lw_this s1" "0 \<le> chan_fd c"
    "valid_events (events c)" "registered (tc_channel s1) s1" "buf_wf (tc_inputBuffer s1)" "buf_wf (tc_outputBuffer s1)"
    using base b by (auto simp: s1_def loop_wf_def registered_def)
  have "\<not> mask_disableWriting c AND kWriteEvent \<noteq> 0"
    using base(5) mask_effects(4) [of c] by (simp add: isWriting_events)
  with conn_mask [OF base1(1-6), of mask_disableWriting] base1 b obtain s2 c2 h ps where
    2: "set_mask mask_disableWriting (tc_channel s1) s1 = Inr s2" "conn_ok s2 c2" "s2 = s1\<lparr>lw_heap := h, lw_poller := ps\<rparr>"
    by (auto simp: s1_def)
  define s3 where "s3 = (if tc_writeCompleteCallback s2 then queueInLoop (lw_inLoop s2) WriteCompleteTask s2 else s2)"
  have 3: "conn_ok s3 c2" "contents (tc_outputBuffer s3) = []" "tc_written s3 = tc_written s @ d"
    "tc_state s3 = tc_state s" "tc_channel s3 = tc_channel s" "tc_shutdownWrite s3 = tc_shutdownWrite s"
    "el_pendingFunctors s3 = el_pendingFunctors s @ (if tc_writeCompleteCallback s then [WriteCompleteTask] else [])"
    using 2 b by (auto simp: s3_def s1_def conn_ok_shut)
  have "handleWrite (Inr (length d)) s = (if tc_state s3 = kDisconnecting then shutdownInLoop s3 else Inr s3)"
    using base d b 2(1) by (simp add: handleWrite_def conn_channel_def loop_wf_def s1_def s3_def readable_empty disableWriting_def Let_def)
  then show ?thesis
    using 3 shutdownInLoop_ok [OF 3(1)] conn_ok_shut(1) [OF 3(1), of True] by auto
qed

lemma handleWrite_partial:
  assumes ok: "conn_ok s c" and n: "0 < n" "n < length (contents (tc_outputBuffer s))"
  shows "\<exists>s'. handleWrite (Inr n) s = Inr s' \<and> conn_ok s' c \<and> same_setup s s' \<and> stream s' = stream s \<and>
    tc_written s' = tc_written s @ take n (contents (tc_outputBuffer s)) \<and> el_pendingFunctors s' = el_pendingFunctors s"
proof -
  have ne: "contents (tc_outputBuffer s) \<noteq> []" using n by auto
  with ok have base: "lw_heap s (tc_channel s) = Some c" "buf_wf (tc_outputBuffer s)" "isWriting c" "lw_inLoop s"
    by (auto simp: conn_ok_def loop_wf_def)
  from retrieve_ok [OF base(2), of n] n base(2) obtain b where
    b: "retrieve n (tc_outputBuffer s) = Inr b" "buf_wf b" "contents b = drop n (contents (tc_outputBuffer s))" by auto
  let ?s = "s\<lparr>tc_written := tc_written s @ take n (contents (tc_outputBuffer s)), tc_outputBuffer := b\<rparr>"
  have "handleWrite (Inr n) s = Inr ?s"
    using base b n by (simp add: handleWrite_def conn_channel_def readable_empty Let_def)
  moreover have "conn_ok ?s c" using ok b n ne by (auto simp: conn_ok_def loop_wf_def registered_def)
  ultimately show ?thesis using b by (auto simp: stream_def same_setup_def)
qed

lemma handleWrite_nothing:
  assumes "conn_ok s c" "contents (tc_outputBuffer s) = [] \<or> accepted w = 0"
  shows "handleWrite w s = Inr s"
  using assms
  by (auto simp: handleWrite_def conn_ok_def conn_channel_def loop_wf_def accepted_def split: sum.splits)

section \<open>The connection as a byte stream\<close>

text \<open>
  The calls and events of a connection in its loop thread. The kernel's willingness to take bytes
  is a number, or \<open>None\<close> when its buffer is full.
\<close>

datatype conn_op = ConnSend "nat option" "byte list" | ConnWritable "nat option" | ConnShutdown | ConnStartRead | ConnStopRead

definition kernel_write :: "nat option \<Rightarrow> nat \<Rightarrow> write_result" where
  "kernel_write cap n = (case cap of None \<Rightarrow> Inl EWOULDBLOCK | Some k \<Rightarrow> Inr (min k n))"

definition conn_do :: "conn_op \<Rightarrow> tcp_conn \<Rightarrow> tcp_conn result" where
  "conn_do op s =
     (case op of
        ConnSend cap d \<Rightarrow> send (kernel_write cap (length d)) d s
      | ConnWritable cap \<Rightarrow> handleWrite (kernel_write cap (readableBytes (tc_outputBuffer s))) s
      | ConnShutdown \<Rightarrow> shutdown s
      | ConnStartRead \<Rightarrow> startRead s
      | ConnStopRead \<Rightarrow> stopRead s)"

text \<open>The abstract connection: whether it still accepts data, and the bytes accepted so far.\<close>

fun conn_spec :: "conn_op \<Rightarrow> bool \<times> byte list \<Rightarrow> bool \<times> byte list" where
  "conn_spec (ConnSend cap d) (up, bs) = (up, if up then bs @ d else bs)"
| "conn_spec ConnShutdown (up, bs) = (False, bs)"
| "conn_spec _ a = a"

definition conn_abs :: "tcp_conn \<Rightarrow> bool \<times> byte list" where
  "conn_abs s = (tc_state s = kConnected, stream s)"

definition op_size :: "conn_op \<Rightarrow> nat" where
  "op_size op = (case op of ConnSend cap d \<Rightarrow> length d | _ \<Rightarrow> 0)"

text \<open>A connection that is up or shutting down; once the writing side is shut down nothing is left to write.\<close>

definition conn_live :: "tcp_conn \<Rightarrow> bool" where
  "conn_live s \<longleftrightarrow> (\<exists>c. conn_ok s c) \<and> tc_state s \<in> {kConnected, kDisconnecting} \<and>
     (tc_shutdownWrite s \<longrightarrow> tc_state s = kDisconnecting \<and> contents (tc_outputBuffer s) = [])"

lemma kernel_write_ok [simp]: "write_ok n (kernel_write cap n)"
  by (simp add: write_ok_def kernel_write_def EWOULDBLOCK_def EPIPE_def ECONNRESET_def split: option.split)

lemma conn_mask_reading:
  assumes ok: "conn_ok s c" and f: "f = mask_enableReading \<or> f = mask_disableReading"
  shows "\<exists>s' c'. set_mask f (tc_channel s) s = Inr s' \<and> conn_ok s' c' \<and> (\<exists>h ps. s' = s\<lparr>lw_heap := h, lw_poller := ps\<rparr>)"
proof -
  have v: "valid_events (events c)" using ok by (simp add: conn_ok_def)
  have w: "f c AND kWriteEvent \<noteq> 0 \<longleftrightarrow> contents (tc_outputBuffer s) \<noteq> []"
    using f mask_effects(5,6) [OF v] ok by (auto simp: isWriting_events conn_ok_def)
  from conn_mask [of s c f] ok v w f show ?thesis unfolding conn_ok_def by force
qed

lemma read_switch_ok:
  assumes "conn_ok s c"
  shows "\<exists>s' c'. startRead s = Inr s' \<and> conn_ok s' c' \<and> same_setup s s' \<and> tc_written s' = tc_written s \<and>
      tc_outputBuffer s' = tc_outputBuffer s \<and> tc_reading s'"
    and "\<exists>s' c'. stopRead s = Inr s' \<and> conn_ok s' c' \<and> same_setup s s' \<and> tc_written s' = tc_written s \<and>
      tc_outputBuffer s' = tc_outputBuffer s \<and> \<not> tc_reading s'"
proof -
  have c: "conn_channel s = Inr c" "lw_inLoop s" using assms by (auto simp: conn_ok_def conn_channel_def loop_wf_def)
  from conn_mask_reading [OF assms, of mask_enableReading] obtain s1 c1 h ps where
    1: "set_mask mask_enableReading (tc_channel s) s = Inr s1" "conn_ok s1 c1" "s1 = s\<lparr>lw_heap := h, lw_poller := ps\<rparr>" by blast
  show "\<exists>s' c'. startRead s = Inr s' \<and> conn_ok s' c' \<and> same_setup s s' \<and> tc_written s' = tc_written s \<and>
      tc_outputBuffer s' = tc_outputBuffer s \<and> tc_reading s'"
  proof (cases "\<not> tc_reading s \<or> \<not> isReading c")
    case True
    with c 1 have "startRead s = Inr (s1\<lparr>tc_reading := True\<rparr>)" by (simp add: startRead_def startReadInLoop_def enableReading_def)
    with conn_ok_shut(4) [OF 1(2), of True] 1(3) show ?thesis
      by (intro exI [of _ "s1\<lparr>tc_reading := True\<rparr>"] exI [of _ c1]) (simp add: same_setup_def)
  next
    case False
    with c assms show ?thesis by (intro exI [of _ s] exI [of _ c]) (simp add: startRead_def startReadInLoop_def)
  qed
  from conn_mask_reading [OF assms, of mask_disableReading] obtain s2 c2 h ps where
    2: "set_mask mask_disableReading (tc_channel s) s = Inr s2" "conn_ok s2 c2" "s2 = s\<lparr>lw_heap := h, lw_poller := ps\<rparr>" by blast
  show "\<exists>s' c'. stopRead s = Inr s' \<and> conn_ok s' c' \<and> same_setup s s' \<and> tc_written s' = tc_written s \<and>
      tc_outputBuffer s' = tc_outputBuffer s \<and> \<not> tc_reading s'"
  proof (cases "tc_reading s \<or> isReading c")
    case True
    with c 2 have "stopRead s = Inr (s2\<lparr>tc_reading := False\<rparr>)" by (simp add: stopRead_def stopReadInLoop_def disableReading_def)
    with conn_ok_shut(4) [OF 2(2), of False] 2(3) show ?thesis
      by (intro exI [of _ "s2\<lparr>tc_reading := False\<rparr>"] exI [of _ c2]) (simp add: same_setup_def)
  next
    case False
    with c assms show ?thesis by (intro exI [of _ s] exI [of _ c]) (simp add: stopRead_def stopReadInLoop_def)
  qed
qed

text \<open>One operation refines the abstract connection; the waiting bytes grow by at most what is sent.\<close>

definition refines_op :: "conn_op \<Rightarrow> tcp_conn \<Rightarrow> bool" where
  "refines_op op s \<longleftrightarrow> (\<exists>s'. conn_do op s = Inr s' \<and> conn_live s' \<and> conn_abs s' = conn_spec op (conn_abs s) \<and>
     length (contents (tc_outputBuffer s')) \<le> length (contents (tc_outputBuffer s)) + op_size op)"

lemma refines_send:
  assumes "conn_live s" "length (contents (tc_outputBuffer s)) + 2 * length d \<le> vec_max - kCheapPrepend"
  shows "refines_op (ConnSend cap d) s"
proof (cases "tc_state s = kConnected")
  case True
  from assms(1) obtain c where c: "conn_ok s c" by (auto simp: conn_live_def)
  have inl: "lw_inLoop s" using c by (simp add: conn_ok_def loop_wf_def)
  from sendInLoop_ok [OF c _ kernel_write_ok [of "length d" cap] assms(2)] True obtain s' c' where
    s': "sendInLoop (kernel_write cap (length d)) d s = Inr s'" "conn_ok s' c'" "same_setup s s'" "stream s' = stream s @ d"
    "length (tc_written s) \<le> length (tc_written s')" by auto
  have "length (contents (tc_outputBuffer s')) \<le> length (contents (tc_outputBuffer s)) + length d"
    using s'(5) arg_cong [OF s'(4), of length] by (simp add: stream_def)
  moreover have "conn_live s'" using s'(2,3) True assms(1) by (auto simp: conn_live_def same_setup_def)
  ultimately show ?thesis using True inl s'(1,3,4)
    by (auto simp: refines_op_def conn_do_def send_def conn_abs_def same_setup_def op_size_def)
qed (use assms(1) in \<open>auto simp: refines_op_def conn_do_def send_def conn_abs_def op_size_def\<close>)

lemma refines_writable:
  assumes "conn_live s"
  shows "refines_op (ConnWritable cap) s"
proof -
  from assms obtain c where c: "conn_ok s c" by (auto simp: conn_live_def)
  let ?d = "contents (tc_outputBuffer s)"
  let ?w = "kernel_write cap (readableBytes (tc_outputBuffer s))"
  have len: "readableBytes (tc_outputBuffer s) = length ?d" using c by (simp add: conn_ok_def)
  consider "?d = [] \<or> accepted ?w = 0" | n where "?w = Inr n" "0 < n" "n < length ?d" | "?w = Inr (length ?d)" "?d \<noteq> []"
  proof (cases cap)
    case None
    then show ?thesis using that(1) by (simp add: kernel_write_def accepted_def)
  next
    case (Some k)
    have w: "?w = Inr (min k (length ?d))" using Some len by (simp add: kernel_write_def)
    consider "k = 0 \<or> ?d = []" | "0 < k" "k < length ?d" | "length ?d \<le> k" "?d \<noteq> []" by linarith
    then show ?thesis using w that by cases (auto simp: accepted_def)
  qed
  then show ?thesis
  proof cases
    case 1
    from handleWrite_nothing [OF c 1] assms show ?thesis
      by (auto simp: refines_op_def conn_do_def conn_abs_def)
  next
    case (2 n)
    from handleWrite_partial [OF c 2(2,3)] obtain s' where
      s': "handleWrite ?w s = Inr s'" "conn_ok s' c" "same_setup s s'" "stream s' = stream s"
      "tc_written s' = tc_written s @ take n ?d" unfolding 2(1) by blast
    have "length (contents (tc_outputBuffer s')) \<le> length ?d"
      using arg_cong [OF s'(4), of length] s'(5) by (simp add: stream_def)
    moreover have "?d \<noteq> []" using 2(3) by auto
    ultimately show ?thesis using s'(1-4) assms
      by (auto simp: refines_op_def conn_do_def conn_abs_def same_setup_def conn_live_def)
  next
    case 3
    from handleWrite_drains [OF c refl 3(2)] obtain s' c' where
      s': "handleWrite ?w s = Inr s'" "conn_ok s' c'" "tc_written s' = tc_written s @ ?d" "contents (tc_outputBuffer s') = []"
      "tc_state s' = tc_state s" "tc_shutdownWrite s' = (tc_shutdownWrite s \<or> tc_state s = kDisconnecting)"
      unfolding 3(1) by blast
    then show ?thesis using assms
      by (auto simp: refines_op_def conn_do_def conn_abs_def conn_live_def stream_def)
  qed
qed

lemma refines_shutdown:
  assumes "conn_live s"
  shows "refines_op ConnShutdown s"
proof (cases "tc_state s = kConnected")
  case True
  from assms obtain c where c: "conn_ok s c" by (auto simp: conn_live_def)
  have inl: "lw_inLoop s" using c by (simp add: conn_ok_def loop_wf_def)
  let ?s = "s\<lparr>tc_state := kDisconnecting\<rparr>"
  have "conn_ok ?s c" using conn_ok_shut(2) [OF c] .
  with shutdownInLoop_ok [OF this] conn_ok_shut(1) [OF this, of True] True inl assms show ?thesis
    by (auto simp: refines_op_def conn_do_def shutdown_def conn_abs_def conn_live_def stream_def op_size_def Let_def)
qed (use assms in \<open>auto simp: refines_op_def conn_do_def shutdown_def conn_abs_def conn_live_def\<close>)

lemma refines_reading:
  assumes "conn_live s"
  shows "refines_op ConnStartRead s" "refines_op ConnStopRead s"
proof -
  from assms obtain c where c: "conn_ok s c" by (auto simp: conn_live_def)
  from read_switch_ok [OF c] assms show "refines_op ConnStartRead s" "refines_op ConnStopRead s"
    by (auto simp: refines_op_def conn_do_def conn_abs_def conn_live_def stream_def same_setup_def)
qed

lemma refines_any:
  "conn_live s \<Longrightarrow> length (contents (tc_outputBuffer s)) + 2 * op_size op \<le> vec_max - kCheapPrepend \<Longrightarrow> refines_op op s"
  by (cases op) (simp_all add: op_size_def refines_send refines_writable refines_shutdown refines_reading)

section \<open>Closing\<close>

text \<open>User callbacks that succeed and touch nothing but the input buffer.\<close>

definition quiet_user :: "user_code \<Rightarrow> bool" where
  "quiet_user user \<longleftrightarrow> (\<forall>k s. \<exists>b. user k s = Inr (s\<lparr>tc_inputBuffer := b\<rparr>))"

text \<open>A closed connection: nothing is watched, the poller still knows the channel.\<close>

definition conn_closed :: "tcp_conn \<Rightarrow> channel \<Rightarrow> bool" where
  "conn_closed s c \<longleftrightarrow> loop_wf s \<and> lw_heap s (tc_channel s) = Some c \<and> ownerLoop c = lw_this s \<and> 0 \<le> chan_fd c \<and>
     events c = 0 \<and> registered (tc_channel s) s \<and> tc_state s = kDisconnected"

lemma conn_closed_input [simp]: "conn_closed (s\<lparr>tc_inputBuffer := b\<rparr>) c = conn_closed s c"
  by (simp add: conn_closed_def loop_wf_def registered_def)

lemma disableAll_closes:
  assumes "conn_ok s c"
  shows "\<exists>s' c'. disableAll (tc_channel s) (s\<lparr>tc_state := kDisconnected\<rparr>) = Inr s' \<and> conn_closed s' c' \<and>
    tc_channel s' = tc_channel s \<and> chan_fd c' = chan_fd c \<and> eventHandling c' = eventHandling c \<and>
    lw_eventHandling s' = lw_eventHandling s \<and> stream s' = stream s"
proof -
  let ?s = "s\<lparr>tc_state := kDisconnected\<rparr>"
  have "loop_wf ?s" "lw_heap ?s (tc_channel s) = Some c" "ownerLoop c = lw_this ?s" "0 \<le> chan_fd c" "registered (tc_channel s) ?s"
    using assms by (auto simp: conn_ok_def loop_wf_def registered_def)
  with set_mask_upd [of ?s "tc_channel s" c "\<lambda>_. kNoneEvent"] obtain s' c' h ps where
    *: "set_mask (\<lambda>_. kNoneEvent) (tc_channel s) ?s = Inr s'" "loop_wf s'" "registered (tc_channel s) s'"
    "lw_heap s' (tc_channel s) = Some c'" "events c' = kNoneEvent" "ownerLoop c' = lw_this s'" "chan_fd c' = chan_fd c"
    "eventHandling c' = eventHandling c" "s' = ?s\<lparr>lw_heap := h, lw_poller := ps\<rparr>" by (auto simp: kNoneEvent_def)
  then show ?thesis using \<open>0 \<le> chan_fd c\<close>
    by (intro exI [of _ s'] exI [of _ c']) (auto simp: disableAll_def conn_closed_def kNoneEvent_def stream_def)
qed

lemma quiet_userE:
  assumes "quiet_user user"
  obtains b where "user k s = Inr (s\<lparr>tc_inputBuffer := b\<rparr>)"
  using assms unfolding quiet_user_def by blast

lemma handleClose_ok:
  assumes "conn_ok s c" "tc_state s = kConnected \<or> tc_state s = kDisconnecting" "quiet_user user"
  shows "\<exists>s' c'. handleClose user s = Inr s' \<and> conn_closed s' c' \<and> tc_channel s' = tc_channel s \<and>
    chan_fd c' = chan_fd c \<and> eventHandling c' = eventHandling c \<and> lw_eventHandling s' = lw_eventHandling s \<and>
    stream s' = stream s"
proof -
  from disableAll_closes [OF assms(1)] obtain s1 c1 where
    1: "disableAll (tc_channel s) (s\<lparr>tc_state := kDisconnected\<rparr>) = Inr s1" "conn_closed s1 c1" "tc_channel s1 = tc_channel s"
    "chan_fd c1 = chan_fd c" "eventHandling c1 = eventHandling c" "lw_eventHandling s1 = lw_eventHandling s" "stream s1 = stream s"
    by blast
  obtain b where b: "user OnConnection s1 = Inr (s1\<lparr>tc_inputBuffer := b\<rparr>)" using assms(3) by (rule quiet_userE)
  obtain b' where b': "user OnClose (s1\<lparr>tc_inputBuffer := b\<rparr>) = Inr (s1\<lparr>tc_inputBuffer := b, tc_inputBuffer := b'\<rparr>)"
    using assms(3) by (rule quiet_userE)
  have "handleClose user s = Inr (s1\<lparr>tc_inputBuffer := b'\<rparr>)"
    using assms(1,2) 1(1) b b' by (auto simp: handleClose_def conn_ok_def loop_wf_def)
  then show ?thesis using 1 by (intro exI [of _ "s1\<lparr>tc_inputBuffer := b'\<rparr>"] exI [of _ c1]) (simp add: stream_def)
qed

lemma closed_destroy_ok:
  assumes "conn_closed s c" "quiet_user user" "\<not> lw_eventHandling s" "\<not> eventHandling c"
  shows "\<exists>s' s''. connectDestroyed user s = Inr s' \<and> destroy_TcpConnection s' = Inr s'' \<and> loop_wf s'' \<and>
    lw_heap s'' (tc_channel s) = None \<and>
    poller_interest (lw_poller s'') = (poller_interest (lw_poller s))(chan_fd c := 0)"
proof -
  have c: "loop_wf s" "lw_heap s (tc_channel s) = Some c" "ownerLoop c = lw_this s" "events c = 0"
    "registered (tc_channel s) s" "tc_state s = kDisconnected" "lw_inLoop s"
    using assms(1) by (auto simp: conn_closed_def loop_wf_def)
  from channel_remove_upd [OF c(1,2,5,4)] assms(3) obtain s' c' h ps where
    r: "channel_remove (tc_channel s) s = Inr s'" "loop_wf s'" "s' = s\<lparr>lw_heap := h, lw_poller := ps\<rparr>"
    "lw_heap s' (tc_channel s) = Some c'" "\<not> addedToLoop c'" "ownerLoop c' = ownerLoop c" "eventHandling c' = eventHandling c"
    "poller_interest (lw_poller s') = (poller_interest (lw_poller s))(chan_fd c := 0)" by blast
  then have st: "tc_state s' = kDisconnected" "tc_channel s' = tc_channel s" "lw_this s' = lw_this s"
    using c(6) by simp_all
  from destroy_channel_ok [OF r(2,4)] r st assms(4) c(3)
  have "destroy_channel (tc_channel s) s' = Inr (s'\<lparr>lw_heap := (lw_heap s')(tc_channel s := None)\<rparr>)"
    "loop_wf (s'\<lparr>lw_heap := (lw_heap s')(tc_channel s := None)\<rparr>)" by auto
  moreover have "connectDestroyed user s = Inr s'" using c r(1) by (simp add: connectDestroyed_def)
  ultimately show ?thesis using st r(8) by (simp add: destroy_TcpConnection_def)
qed

lemma conn_channel_object_simps [simp]:
  "chan_fd (conn_channel_object l fd) = fd" "events (conn_channel_object l fd) = 0" "index (conn_channel_object l fd) = -1"
  "ownerLoop (conn_channel_object l fd) = l" "eventHandling (conn_channel_object l fd) = False"
  by (simp_all add: conn_channel_object_def new_channel_def setReadCallback_def setWriteCallback_def
      setCloseCallback_def setErrorCallback_def)

lemma new_TcpConnection_simps [simp]:
  "lw_heap (new_TcpConnection p fd l) = (lw_heap l)(p \<mapsto> conn_channel_object (lw_this l) fd)"
  "lw_poller (new_TcpConnection p fd l) = lw_poller l" "lw_this (new_TcpConnection p fd l) = lw_this l"
  "lw_inLoop (new_TcpConnection p fd l) = lw_inLoop l" "tc_channel (new_TcpConnection p fd l) = p"
  "tc_state (new_TcpConnection p fd l) = kConnecting" "tc_outputBuffer (new_TcpConnection p fd l) = new_buffer"
  "tc_inputBuffer (new_TcpConnection p fd l) = new_buffer" "tc_written (new_TcpConnection p fd l) = []"
  "tc_shutdownWrite (new_TcpConnection p fd l) = False" "lw_eventHandling (new_TcpConnection p fd l) = lw_eventHandling l"
  by (simp_all add: new_TcpConnection_def event_loop.defs create_channel_def)

text \<open>A new connection whose descriptor the poller does not know becomes live.\<close>

lemma connectEstablished_ok:
  assumes "loop_wf l" "lw_heap l p = None" "0 \<le> fd" "map_of (poller_channels (lw_poller l)) fd = None" "quiet_user user"
    "\<forall>k s b. user k s = Inr (s\<lparr>tc_inputBuffer := b\<rparr>) \<longrightarrow> buf_wf (tc_inputBuffer s) \<longrightarrow> buf_wf b"
  shows "\<exists>s c. connectEstablished user me (new_TcpConnection p fd l) = Inr s \<and> conn_ok s c \<and> tc_state s = kConnected \<and>
    isReading c \<and> stream s = [] \<and> tc_channel s = p \<and> \<not> eventHandling c \<and> \<not> tc_shutdownWrite s \<and> chan_fd c = fd \<and>
    lw_eventHandling s = lw_eventHandling l"
proof -
  let ?c = "tie_to me (conn_channel_object (lw_this l) fd)"
  define s0 where "s0 = (new_TcpConnection p fd l)\<lparr>tc_state := kConnected, lw_heap := (lw_heap l)(p \<mapsto> ?c)\<rparr>"
  have none: "map_of (poller_channels (lw_poller l)) f \<noteq> Some p" for f
    using assms(1,2) unfolding loop_wf_def by force
  have "poller_inv (lw_heap s0) (lw_poller l)"
    by (rule plr.inv_frame [of "lw_heap l"]) (use assms(1) none in \<open>auto simp: s0_def loop_wf_def same_poll_view_def\<close>)
  then have wf: "loop_wf s0" using assms(1) none by (auto simp: loop_wf_def s0_def)
  have fr: "fresh_chan p s0" using assms(4) by (simp add: fresh_chan_def s0_def tie_to_def)
  have ev: "mask_enableReading ?c = 3" by (simp add: mask_enableReading_def tie_to_def event_consts)
  from set_mask_upd [OF wf, of p ?c mask_enableReading] fr ev assms(3) obtain s1 c1 h ps where
    1: "set_mask mask_enableReading p s0 = Inr s1" "loop_wf s1" "registered p s1" "lw_heap s1 p = Some c1"
    "events c1 = 3" "ownerLoop c1 = lw_this s1" "chan_fd c1 = fd" "\<not> eventHandling c1"
    "s1 = s0\<lparr>lw_heap := h, lw_poller := ps\<rparr>" by (auto simp: s0_def tie_to_def)
  obtain b where b: "user OnConnection s1 = Inr (s1\<lparr>tc_inputBuffer := b\<rparr>)" using assms(5) by (rule quiet_userE)
  have bwf: "buf_wf b" using assms(6) b 1(9) by (auto simp: s0_def)
  let ?s = "s1\<lparr>tc_inputBuffer := b\<rparr>"
  have "connectEstablished user me (new_TcpConnection p fd l) = Inr ?s"
    using 1(1) b assms(1) by (simp add: connectEstablished_def conn_channel_def enableReading_def s0_def loop_wf_def Let_def)
  moreover have "conn_ok ?s c1"
    using 1 bwf assms(3) by (auto simp: conn_ok_def loop_wf_def registered_def s0_def isWriting_events event_consts)
  ultimately show ?thesis
    using 1 by (intro exI [of _ ?s] exI [of _ c1]) (auto simp: s0_def stream_def isWriting_events event_consts)
qed

text \<open>The refinement of a run, from the refinement of each operation.\<close>

lemma conn_run_refines:
  assumes "conn_live s"
    "length (contents (tc_outputBuffer s)) + 2 * sum_list (map op_size ops) \<le> vec_max - kCheapPrepend"
  shows "\<exists>s'. rfold conn_do ops s = Inr s' \<and> conn_live s' \<and> conn_abs s' = fold conn_spec ops (conn_abs s)"
  using assms
proof (induction ops arbitrary: s)
  case Nil
  then show ?case by simp
next
  case (Cons op ops)
  from refines_any [OF Cons.prems(1), of op] Cons.prems(2) obtain s1 where
    1: "conn_do op s = Inr s1" "conn_live s1" "conn_abs s1 = conn_spec op (conn_abs s)"
    "length (contents (tc_outputBuffer s1)) \<le> length (contents (tc_outputBuffer s)) + op_size op"
    by (auto simp: refines_op_def)
  from Cons.IH [OF 1(2)] 1(4) Cons.prems(2) obtain s' where
    "rfold conn_do ops s1 = Inr s'" "conn_live s'" "conn_abs s' = fold conn_spec ops (conn_abs s1)" by auto
  with 1 show ?case by simp
qed

section \<open>Properties\<close>

text \<open>C2. A live connection is a reliable byte stream: under any sequence of sends, writability
  events, shutdown and read switches, whatever the kernel is willing to take each time, no assertion
  fails, and the bytes the kernel has followed by the bytes in the output buffer are exactly the
  bytes accepted so far, in order: everything sent before \<open>shutdown\<close> and nothing after it.\<close>

theorem connection_is_stream:
  assumes "conn_live s"
    "length (contents (tc_outputBuffer s)) + 2 * sum_list (map op_size ops) \<le> vec_max - kCheapPrepend"
  shows "\<exists>s'. rfold conn_do ops s = Inr s' \<and> conn_live s' \<and> conn_abs s' = fold conn_spec ops (conn_abs s)"
  using assms by (rule conn_run_refines)

text \<open>The deferred callbacks of \<open>sendInLoop\<close>: the write-complete callback is queued exactly when the
  kernel took the whole message at once, the high-water callback exactly when the output buffer
  crosses the mark from below, with the new size; and the message is appended to the stream.\<close>

theorem send_callbacks:
  assumes "conn_ok s c" "tc_state s \<noteq> kDisconnected" "write_ok (length data) w"
    "length (contents (tc_outputBuffer s)) + 2 * length data \<le> vec_max - kCheapPrepend"
  shows "\<exists>s'. sendInLoop w data s = Inr s' \<and> stream s' = stream s @ data \<and>
    el_pendingFunctors s' = el_pendingFunctors s @ send_tasks w data s"
  using sendInLoop_ok [OF assms] by blast

text \<open>Graceful close: \<open>shutdown\<close> with bytes still waiting leaves the socket open for writing; when the
  kernel has taken all of them in \<open>handleWrite\<close> the writing side is shut down, after the last byte.\<close>

theorem shutdown_after_flush:
  assumes "conn_ok s c" "tc_state s = kConnected" "\<not> tc_shutdownWrite s" "contents (tc_outputBuffer s) = d" "d \<noteq> []"
  shows "\<exists>s1 s2. shutdown s = Inr s1 \<and> tc_state s1 = kDisconnecting \<and> \<not> tc_shutdownWrite s1 \<and>
    handleWrite (Inr (length d)) s1 = Inr s2 \<and> tc_shutdownWrite s2 \<and> tc_written s2 = tc_written s @ d \<and>
    contents (tc_outputBuffer s2) = []"
proof -
  let ?s = "s\<lparr>tc_state := kDisconnecting\<rparr>"
  have ok: "conn_ok ?s c" using conn_ok_shut(2) [OF assms(1)] .
  have "lw_inLoop s" using assms(1) by (simp add: conn_ok_def loop_wf_def)
  then have "shutdown s = Inr ?s" using assms(2,4,5) shutdownInLoop_ok [OF ok] by (simp add: shutdown_def Let_def)
  with handleWrite_drains [OF ok, of d] assms(3-5) show ?thesis by auto
qed

text \<open>C6. Life cycle: a new connection is established and live; when the peer closes it, the connection
  is disconnected and watches nothing; \<open>connectDestroyed\<close> then takes its channel out of the poller
  and the destructors run without a failed assertion, leaving the loop well formed and the
  multiplexer watching nothing for the descriptor.\<close>

theorem connection_lifecycle:
  assumes "loop_wf l" "lw_heap l p = None" "0 \<le> fd" "map_of (poller_channels (lw_poller l)) fd = None"
    "\<not> lw_eventHandling l" "quiet_user user"
    "\<forall>k s b. user k s = Inr (s\<lparr>tc_inputBuffer := b\<rparr>) \<longrightarrow> buf_wf (tc_inputBuffer s) \<longrightarrow> buf_wf b"
  shows "\<exists>s1 s2 s3 s4. connectEstablished user me (new_TcpConnection p fd l) = Inr s1 \<and> conn_live s1 \<and> connected s1 \<and>
    conn_handleRead user (ReadvData []) t s1 = Inr s2 \<and> tc_state s2 = kDisconnected \<and>
    connectDestroyed user s2 = Inr s3 \<and> destroy_TcpConnection s3 = Inr s4 \<and> loop_wf s4 \<and> lw_heap s4 p = None \<and>
    poller_interest (lw_poller s4) fd = 0"
proof -
  from connectEstablished_ok [OF assms(1-4,6,7), of me] obtain s1 c1 where
    1: "connectEstablished user me (new_TcpConnection p fd l) = Inr s1" "conn_ok s1 c1" "tc_state s1 = kConnected"
    "tc_channel s1 = p" "\<not> eventHandling c1" "\<not> tc_shutdownWrite s1" "chan_fd c1 = fd" "lw_eventHandling s1 = lw_eventHandling l"
    by blast
  have live: "conn_live s1" using 1 by (auto simp: conn_live_def)
  from handleClose_ok [OF 1(2) _ assms(6)] 1(3) obtain s2 c2 where
    2: "handleClose user s1 = Inr s2" "conn_closed s2 c2" "tc_channel s2 = p" "chan_fd c2 = fd" "\<not> eventHandling c2"
    "\<not> lw_eventHandling s2" using 1(4,5,7,8) assms(5) by auto
  have "readFd (ReadvData []) (tc_inputBuffer s1) = Inr (0, None, tc_inputBuffer s1)"
    by (simp add: readFd_def overwrite_def Let_def)
  then have "conn_handleRead user (ReadvData []) t s1 = Inr s2"
    using 2(1) 1(2) by (simp add: conn_handleRead_def conn_ok_def loop_wf_def)
  with closed_destroy_ok [OF 2(2) assms(6) 2(6,5)] 1 2 live show ?thesis
    by (auto simp: connected_def conn_closed_def)
qed

text \<open>\<open>connectDestroyed\<close> on a connection that is shutting down (what \<open>TcpServer::~TcpServer\<close> does to every
  connection it still has) aborts: only \<open>kConnected\<close> is handled there, so the channel still watches
  its events when it is removed.\<close>

theorem connectDestroyed_disconnecting_aborts:
  assumes "conn_ok s c" "tc_state s = kDisconnecting" "events c \<noteq> 0"
  shows "connectDestroyed user s = Inl AssertFail"
  using assms by (simp add: connectDestroyed_def conn_ok_def loop_wf_def channel_remove_def isNoneEvent_def kNoneEvent_def)

text \<open>\<open>startRead\<close> after the connection was closed switches reading on again, and the pending
  \<open>connectDestroyed\<close> then aborts.\<close>

theorem startRead_after_close_aborts:
  assumes "conn_ok s c" "tc_state s = kConnected" "quiet_user user"
  shows "\<exists>s1 s2. handleClose user s = Inr s1 \<and> startRead s1 = Inr s2 \<and> connectDestroyed user s2 = Inl AssertFail"
proof -
  from handleClose_ok [OF assms(1) _ assms(3)] assms(2) obtain s1 c1 where
    1: "handleClose user s = Inr s1" "conn_closed s1 c1" by blast
  have c1: "loop_wf s1" "lw_heap s1 (tc_channel s1) = Some c1" "ownerLoop c1 = lw_this s1" "0 \<le> chan_fd c1"
    "events c1 = 0" "registered (tc_channel s1) s1" "tc_state s1 = kDisconnected" "lw_inLoop s1"
    using 1(2) by (auto simp: conn_closed_def loop_wf_def)
  have ev: "mask_enableReading c1 = 3" "\<not> isReading c1" using c1(5) by (simp_all add: mask_enableReading_def event_consts isReading_def)
  from set_mask_upd [OF c1(1-4), of mask_enableReading] ev c1(6) obtain s2 c2 h ps where
    2: "set_mask mask_enableReading (tc_channel s1) s1 = Inr s2" "lw_heap s2 (tc_channel s1) = Some c2" "events c2 = 3"
    "s2 = s1\<lparr>lw_heap := h, lw_poller := ps\<rparr>" by auto
  have "startRead s1 = Inr (s2\<lparr>tc_reading := True\<rparr>)"
    using c1 ev 2(1) by (simp add: startRead_def startReadInLoop_def conn_channel_def enableReading_def)
  moreover have "connectDestroyed user (s2\<lparr>tc_reading := True\<rparr>) = Inl AssertFail"
    using 2 c1(7,8) by (simp add: connectDestroyed_def channel_remove_def isNoneEvent_def kNoneEvent_def)
  ultimately show ?thesis using 1(1) by blast
qed

subsection \<open>Witnesses\<close>

definition demo_loop :: "conn_task event_loop" where
  "demo_loop = \<lparr>lw_this = 1, lw_inLoop = True, lw_heap = Map.empty, lw_poller = newDefaultPoller False,
     lw_eventHandling = False, lw_active = [], lw_current = None, el_looping = True, el_quit = False,
     el_callingPendingFunctors = False, el_iteration = 0, el_pollReturnTime = 0, el_pendingFunctors = [],
     el_eventfd = 0\<rparr>"

lemma demo_loop_ok: "loop_wf demo_loop" "lw_heap demo_loop p = None" "\<not> lw_eventHandling demo_loop"
  "map_of (poller_channels (lw_poller demo_loop)) fd = None"
proof -
  have "poller_channels (newDefaultPoller False) = []"
    by (simp add: newDefaultPoller_def poller_channels_def new_epoll_poller_def)
  then show "loop_wf demo_loop" "lw_heap demo_loop p = None" "\<not> lw_eventHandling demo_loop"
    "map_of (poller_channels (lw_poller demo_loop)) fd = None"
    by (simp_all add: demo_loop_def loop_wf_def newDefaultPoller_inv)
qed

lemma silent_user: "quiet_user (\<lambda>k. Inr)"
  "\<forall>k s b. (\<lambda>k. Inr) k s = (Inr (s\<lparr>tc_inputBuffer := b\<rparr>) :: tcp_conn result) \<longrightarrow> buf_wf (tc_inputBuffer s) \<longrightarrow> buf_wf b"
proof -
  have "s = s\<lparr>tc_inputBuffer := tc_inputBuffer s\<rparr>" for s :: tcp_conn by simp
  then show "quiet_user (\<lambda>k. Inr)" unfolding quiet_user_def by (metis sum.inject(2))
  show "\<forall>k s b. (\<lambda>k. Inr) k s = (Inr (s\<lparr>tc_inputBuffer := b\<rparr>) :: tcp_conn result) \<longrightarrow> buf_wf (tc_inputBuffer s) \<longrightarrow> buf_wf b"
  proof (intro allI impI)
    fix k :: user_cb and s :: tcp_conn and b
    assume "(\<lambda>k. Inr) k s = (Inr (s\<lparr>tc_inputBuffer := b\<rparr>) :: tcp_conn result)" "buf_wf (tc_inputBuffer s)"
    then have "tc_inputBuffer s = tc_inputBuffer (s\<lparr>tc_inputBuffer := b\<rparr>)" by simp
    with \<open>buf_wf (tc_inputBuffer s)\<close> show "buf_wf b" by simp
  qed
qed

lemma demo_connection:
  obtains s c where "connectEstablished (\<lambda>k. Inr) 9 (new_TcpConnection 7 5 demo_loop) = Inr s" "conn_ok s c"
    "tc_state s = kConnected" "stream s = []" "\<not> tc_shutdownWrite s" "isReading c"
  using connectEstablished_ok [OF demo_loop_ok(1,2) _ demo_loop_ok(4) silent_user, of 5 9 7] by auto

theorem connection_is_stream_witness:
  "\<exists>s s'. connectEstablished (\<lambda>k. Inr) 9 (new_TcpConnection 7 5 demo_loop) = Inr s \<and>
     rfold conn_do [ConnSend (Some 2) [1, 2, 3], ConnShutdown, ConnSend None [9], ConnWritable (Some 8)] s = Inr s' \<and>
     conn_abs s' = (False, [1, 2, 3])"
proof -
  obtain s c where s: "connectEstablished (\<lambda>k. Inr) 9 (new_TcpConnection 7 5 demo_loop) = Inr s" "conn_ok s c"
    "tc_state s = kConnected" "stream s = []" "\<not> tc_shutdownWrite s" by (rule demo_connection)
  let ?ops = "[ConnSend (Some 2) [1, 2, 3], ConnShutdown, ConnSend None [9], ConnWritable (Some 8)]"
  have "conn_live s" using s by (auto simp: conn_live_def)
  moreover have "length (contents (tc_outputBuffer s)) + 2 * sum_list (map op_size ?ops) \<le> vec_max - kCheapPrepend"
    using s(4) by (simp add: stream_def op_size_def vec_max_def kCheapPrepend_def)
  ultimately show ?thesis
    using connection_is_stream [of s ?ops] s by (auto simp: conn_abs_def)
qed

theorem send_callbacks_witness:
  "\<exists>s s'. sendInLoop (Inr 1) [5, 6] s = Inr s' \<and> stream s' = [5, 6]"
proof -
  obtain s c where s: "conn_ok s c" "tc_state s = kConnected" "stream s = []" by (rule demo_connection)
  then show ?thesis
    using send_callbacks [of s c "[5, 6]" "Inr 1"] by (auto simp: write_ok_def stream_def vec_max_def kCheapPrepend_def)
qed

theorem shutdown_after_flush_witness:
  "\<exists>s1 s2. shutdown s1 = Inr s2 \<and> contents (tc_outputBuffer s2) = [6] \<and>
     (\<exists>s3. handleWrite (Inr 1) s2 = Inr s3 \<and> tc_shutdownWrite s3)"
proof -
  obtain s c where s: "conn_ok s c" "tc_state s = kConnected" "stream s = []" "\<not> tc_shutdownWrite s" by (rule demo_connection)
  then have "tc_written s = []" "contents (tc_outputBuffer s) = []" by (auto simp: stream_def)
  with sendInLoop_ok [of s c "[6]" "Inl EWOULDBLOCK"] s obtain s1 c1 where
    1: "conn_ok s1 c1" "same_setup s s1" "stream s1 = [6]" "sendInLoop (Inl EWOULDBLOCK) [6] s = Inr s1"
    by (auto simp: write_ok_def EWOULDBLOCK_def EPIPE_def ECONNRESET_def vec_max_def kCheapPrepend_def)
  have "contents (tc_outputBuffer s1) = [6]"
  proof -
    have "sendInLoop (Inl EWOULDBLOCK) [6] s = queue_rest c [6] 1 s"
      using s(1,2) \<open>contents (tc_outputBuffer s) = []\<close>
      by (auto simp: sendInLoop_def try_write_def conn_ok_def conn_channel_def loop_wf_def readable_empty EWOULDBLOCK_def)
    with queue_rest_ok [OF s(1), of "[6]"] 1(4) \<open>contents (tc_outputBuffer s) = []\<close> show ?thesis
      by (auto simp: vec_max_def kCheapPrepend_def)
  qed
  with shutdown_after_flush [OF 1(1), of "[6]"] 1(2) s(2,4) obtain s2 s3 where
    "shutdown s1 = Inr s2" "handleWrite (Inr 1) s2 = Inr s3" "tc_shutdownWrite s3" by (auto simp: same_setup_def)
  moreover have "tc_outputBuffer s2 = tc_outputBuffer s1"
    using \<open>shutdown s1 = Inr s2\<close> shutdownInLoop_ok [OF conn_ok_shut(2) [OF 1(1)]] \<open>contents (tc_outputBuffer s1) = [6]\<close> 1(1)
    by (auto simp: shutdown_def Let_def conn_ok_def loop_wf_def split: if_splits)
  ultimately show ?thesis using \<open>contents (tc_outputBuffer s1) = [6]\<close> by metis
qed

theorem connection_lifecycle_witness:
  "\<exists>s1 s2 s3 s4. connectEstablished (\<lambda>k. Inr) 9 (new_TcpConnection 7 5 demo_loop) = Inr s1 \<and>
    conn_handleRead (\<lambda>k. Inr) (ReadvData []) 0 s1 = Inr s2 \<and> connectDestroyed (\<lambda>k. Inr) s2 = Inr s3 \<and>
    destroy_TcpConnection s3 = Inr s4 \<and> lw_heap s4 7 = None"
  using connection_lifecycle [OF demo_loop_ok(1,2) _ demo_loop_ok(4,3) silent_user, of 5 9 7 0] by auto

theorem connectDestroyed_disconnecting_aborts_witness:
  "\<exists>s. tc_state s = kDisconnecting \<and> connectDestroyed (\<lambda>k. Inr) s = Inl AssertFail"
proof -
  obtain s c where s: "conn_ok s c" "isReading c" by (rule demo_connection)
  then have "events c \<noteq> 0" by (auto simp: isReading_def)
  with connectDestroyed_disconnecting_aborts [OF conn_ok_shut(2) [OF s(1), of kDisconnecting]] show ?thesis
    by (intro exI [of _ "s\<lparr>tc_state := kDisconnecting\<rparr>"]) simp
qed

theorem startRead_after_close_aborts_witness:
  "\<exists>s s1 s2. handleClose (\<lambda>k. Inr) s = Inr s1 \<and> startRead s1 = Inr s2 \<and> connectDestroyed (\<lambda>k. Inr) s2 = Inl AssertFail"
proof -
  obtain s c where "conn_ok s c" "tc_state s = kConnected" by (rule demo_connection)
  from startRead_after_close_aborts [OF this silent_user(1)] show ?thesis by blast
qed

end
