(* ===== verification/Tcp_Server.thy ===== *)
theory Tcp_Server
  imports Loop_Pool Tcp_Connection
begin

text \<open>
  The server (\<open>src/muduo/net/TcpServer.h\<close>, \<open>TcpServer.cpp\<close>): it spreads accepted connections over the
  loops of its pool, keeps them in a map by name, and takes them apart again when they close. Several
  threads take part: the server's own loop and the loops of the pool. Each has a queue of functors
  (\<open>queueInLoop\<close>), which it runs in order; an operation is run by the thread of some loop, its first
  argument. A connection is seen here through its life cycle only; \<open>Tcp_Connection\<close> has the rest,
  and the lemmas at the end of this theory relate the two.
\<close>

section \<open>State\<close>

record server_conn =
  sc_name :: string
  sc_loop :: nat
  sc_fd :: int
  sc_state :: conn_state
  sc_registered :: bool           \<comment> \<open>the channel has not been removed from its loop yet\<close>

datatype server_task = ConnectEstablished nat | ConnectDestroyed nat | RemoveConnectionInLoop nat | AcceptorListen

record tcp_server =
  sv_loop :: nat
  sv_ipPort :: string
  sv_name :: string
  sv_pool :: loop_pool
  sv_started :: int
  sv_listenning :: bool
  sv_nextConnId :: int
  sv_connections :: "string \<rightharpoonup> nat"
  sv_alive :: bool                \<comment> \<open>the server object has not been destroyed\<close>
  sv_heap :: "nat \<rightharpoonup> server_conn"
  sv_queue :: "nat \<Rightarrow> server_task list"

definition new_TcpServer :: "nat \<Rightarrow> string \<Rightarrow> string \<Rightarrow> tcp_server" where
  "new_TcpServer baseLoop ipPort nameArg =
     \<lparr>sv_loop = baseLoop, sv_ipPort = ipPort, sv_name = nameArg, sv_pool = new_EventLoopThreadPool baseLoop nameArg,
      sv_started = 0, sv_listenning = False, sv_nextConnId = 1, sv_connections = Map.empty, sv_alive = True,
      sv_heap = Map.empty, sv_queue = (\<lambda>_. [])\<rparr>"

section \<open>The life cycle of a connection, as the server sees it\<close>

definition conn_at :: "nat \<Rightarrow> tcp_server \<Rightarrow> server_conn result" where
  "conn_at p s = (case sv_heap s p of None \<Rightarrow> Inl UseAfterFree | Some c \<Rightarrow> Inr c)"

definition put_conn :: "nat \<Rightarrow> server_conn \<Rightarrow> tcp_server \<Rightarrow> tcp_server" where
  "put_conn p c s = s\<lparr>sv_heap := (sv_heap s)(p \<mapsto> c)\<rparr>"

definition enqueue :: "nat \<Rightarrow> server_task \<Rightarrow> tcp_server \<Rightarrow> tcp_server" where
  "enqueue l t s = s\<lparr>sv_queue := (sv_queue s)(l := sv_queue s l @ [t])\<rparr>"

text \<open>The effect on the state of the connection; \<open>None\<close> is a failed assertion.\<close>

definition life_established :: "conn_state \<Rightarrow> conn_state option" where
  "life_established st = (if st = kConnecting then Some kConnected else None)"

definition life_closed :: "conn_state \<Rightarrow> conn_state option" where
  "life_closed st = (if st = kConnected \<or> st = kDisconnecting then Some kDisconnected else None)"

text \<open>\<open>connectDestroyed\<close> removes the channel, which must not watch any event: a connection still in
  \<open>kDisconnecting\<close> does.\<close>

definition life_destroyed :: "conn_state \<Rightarrow> conn_state option" where
  "life_destroyed st = (case st of kConnected \<Rightarrow> Some kDisconnected | kDisconnected \<Rightarrow> Some kDisconnected | _ \<Rightarrow> None)"

definition run_established :: "nat \<Rightarrow> nat \<Rightarrow> tcp_server \<Rightarrow> tcp_server result" where
  "run_established me p s =
     rbind (conn_at p s) (\<lambda>c. assert_loop (me = sc_loop c)
       (case life_established (sc_state c) of None \<Rightarrow> Inl AssertFail | Some st \<Rightarrow> Inr (put_conn p (c\<lparr>sc_state := st\<rparr>) s)))"

definition run_destroyed :: "nat \<Rightarrow> nat \<Rightarrow> tcp_server \<Rightarrow> tcp_server result" where
  "run_destroyed me p s =
     rbind (conn_at p s) (\<lambda>c. assert_loop (me = sc_loop c)
       (case life_destroyed (sc_state c) of None \<Rightarrow> Inl AssertFail
        | Some st \<Rightarrow> Inr (put_conn p (c\<lparr>sc_state := st, sc_registered := False\<rparr>) s)))"

section \<open>Operations of the server\<close>

definition server_setThreadNum :: "int \<Rightarrow> tcp_server \<Rightarrow> tcp_server result" where
  "server_setThreadNum n s = assert_ok (0 \<le> n) (Inr (s\<lparr>sv_pool := pool_setThreadNum n (sv_pool s)\<rparr>))"

definition removeConnectionInLoop :: "nat \<Rightarrow> nat \<Rightarrow> tcp_server \<Rightarrow> tcp_server result" where
  "removeConnectionInLoop me p s =
     (if \<not> sv_alive s then Inl UseAfterFree
      else assert_loop (me = sv_loop s)
        (rbind (conn_at p s) (\<lambda>c.
           assert_ok (sv_connections s (sc_name c) \<noteq> None)
             (Inr (enqueue (sc_loop c) (ConnectDestroyed p)
                (s\<lparr>sv_connections := (sv_connections s)(sc_name c := None)\<rparr>))))))"

definition run_server_task :: "nat \<Rightarrow> server_task \<Rightarrow> tcp_server \<Rightarrow> tcp_server result" where
  "run_server_task me t s =
     (case t of
        ConnectEstablished p \<Rightarrow> run_established me p s
      | ConnectDestroyed p \<Rightarrow> run_destroyed me p s
      | RemoveConnectionInLoop p \<Rightarrow> removeConnectionInLoop me p s
      | AcceptorListen \<Rightarrow> assert_loop (me = sv_loop s) (Inr (s\<lparr>sv_listenning := True\<rparr>)))"

text \<open>\<open>EventLoop::runInLoop\<close> of the loop \<open>l\<close>, called by the thread of the loop \<open>me\<close>.\<close>

definition run_in :: "nat \<Rightarrow> nat \<Rightarrow> server_task \<Rightarrow> tcp_server \<Rightarrow> tcp_server result" where
  "run_in me l t s = (if me = l then run_server_task me t s else Inr (enqueue l t s))"

definition server_start :: "nat \<Rightarrow> bool \<Rightarrow> (nat \<Rightarrow> nat) \<Rightarrow> tcp_server \<Rightarrow> tcp_server result" where
  "server_start me cb startLoop s =
     (if sv_started s = 0 then
        rbind (pool_start (me = sv_loop s) cb startLoop (sv_pool s)) (\<lambda>pl.
          assert_ok (\<not> sv_listenning s)
            (run_in me (sv_loop s) AcceptorListen (s\<lparr>sv_started := 1, sv_pool := pl\<rparr>)))
      else Inr (s\<lparr>sv_started := 1\<rparr>))"

definition conn_name :: "tcp_server \<Rightarrow> string" where
  "conn_name s = sv_name s @ snprintf_text 64 (''-'' @ sv_ipPort s @ ''#'' @ dec_int (sv_nextConnId s))"

text \<open>\<open>newConnection\<close>, with the new connection object at the free address \<open>p\<close>. The counter is a C int.\<close>

definition server_newConnection :: "nat \<Rightarrow> nat \<Rightarrow> int \<Rightarrow> tcp_server \<Rightarrow> tcp_server result" where
  "server_newConnection me p sockfd s =
     assert_loop (me = sv_loop s)
       (rbind (getNextLoop (me = lp_baseLoop (sv_pool s)) (sv_pool s)) (\<lambda>(ioLoop, pl).
          let name = conn_name s;
              c = \<lparr>sc_name = name, sc_loop = ioLoop, sc_fd = sockfd, sc_state = kConnecting, sc_registered = True\<rparr>;
              s1 = s\<lparr>sv_pool := pl, sv_nextConnId := sint (of_int (sv_nextConnId s + 1) :: 32 word)\<rparr>;
              s2 = (put_conn p c s1)\<lparr>sv_connections := (sv_connections s)(name \<mapsto> p)\<rparr>
          in run_in me ioLoop (ConnectEstablished p) s2))"

definition server_removeConnection :: "nat \<Rightarrow> nat \<Rightarrow> tcp_server \<Rightarrow> tcp_server result" where
  "server_removeConnection me p s =
     (if \<not> sv_alive s then Inl UseAfterFree else run_in me (sv_loop s) (RemoveConnectionInLoop p) s)"

text \<open>\<open>handleClose\<close> of a connection, whose close callback is \<open>removeConnection\<close>.\<close>

definition conn_close :: "nat \<Rightarrow> nat \<Rightarrow> tcp_server \<Rightarrow> tcp_server result" where
  "conn_close me p s =
     rbind (conn_at p s) (\<lambda>c. assert_loop (me = sc_loop c)
       (case life_closed (sc_state c) of None \<Rightarrow> Inl AssertFail
        | Some st \<Rightarrow> server_removeConnection me p (put_conn p (c\<lparr>sc_state := st\<rparr>) s)))"

text \<open>The destructor over the connections of the map, in the order of their names.\<close>

definition server_destroy :: "nat \<Rightarrow> string list \<Rightarrow> tcp_server \<Rightarrow> tcp_server result" where
  "server_destroy me names s =
     assert_loop (me = sv_loop s)
       (rbind (rfold (\<lambda>n s. case sv_connections s n of
            None \<Rightarrow> Inr s
          | Some p \<Rightarrow> rbind (conn_at p s) (\<lambda>c.
              run_in me (sc_loop c) (ConnectDestroyed p) (s\<lparr>sv_connections := (sv_connections s)(n := None)\<rparr>))) names s)
        (\<lambda>s'. Inr (s'\<lparr>sv_alive := False\<rparr>)))"

section \<open>The server among its loops\<close>

text \<open>
  Steps of the system: the server's loop accepts a connection, some loop runs the functor at the head of
  its queue, a connection is closed by its loop, or a user calls \<open>shutdown\<close> on a connection. An
  operation that fails is no step; that none fails is a theorem.
\<close>

inductive server_step :: "tcp_server \<Rightarrow> tcp_server \<Rightarrow> bool" where
  accept: "sv_heap s p = None \<Longrightarrow> sv_nextConnId s < 2 ^ 31 - 1 \<Longrightarrow>
    server_newConnection (sv_loop s) p fd s = Inr s' \<Longrightarrow> server_step s s'"
| run_functor: "sv_queue s l = t # ts \<Longrightarrow> run_server_task l t (s\<lparr>sv_queue := (sv_queue s)(l := ts)\<rparr>) = Inr s' \<Longrightarrow>
    server_step s s'"
| close: "sv_heap s p = Some c \<Longrightarrow> sc_state c = kConnected \<or> sc_state c = kDisconnecting \<Longrightarrow>
    conn_close (sc_loop c) p s = Inr s' \<Longrightarrow> server_step s s'"
| user_shutdown: "sv_heap s p = Some c \<Longrightarrow> sc_state c = kConnected \<Longrightarrow>
    server_step s (put_conn p (c\<lparr>sc_state := kDisconnecting\<rparr>) s)"

inductive server_reach :: "tcp_server \<Rightarrow> tcp_server \<Rightarrow> bool" where
  server_refl: "server_reach s s"
| server_more: "server_reach s t \<Longrightarrow> server_step t u \<Longrightarrow> server_reach s u"

section \<open>Invariant\<close>

fun mentions :: "nat \<Rightarrow> server_task \<Rightarrow> bool" where
  "mentions p (ConnectEstablished q) = (q = p)"
| "mentions p (ConnectDestroyed q) = (q = p)"
| "mentions p (RemoveConnectionInLoop q) = (q = p)"
| "mentions p AcceptorListen = False"

definition pending :: "nat \<Rightarrow> tcp_server \<Rightarrow> nat \<Rightarrow> server_task list" where
  "pending p s = (\<lambda>l. filter (mentions p) (sv_queue s l))"

definition only_at :: "nat \<Rightarrow> server_task \<Rightarrow> nat \<Rightarrow> server_task list" where
  "only_at l t = (\<lambda>_. [])(l := [t])"

text \<open>Where a connection stands: its state, its place in the map, and the one functor that moves it on.\<close>

definition life_ok :: "nat \<Rightarrow> server_conn \<Rightarrow> tcp_server \<Rightarrow> bool" where
  "life_ok p c s \<longleftrightarrow>
     (case sc_state c of
        kConnecting \<Rightarrow> sc_registered c \<and> sv_connections s (sc_name c) = Some p \<and>
          pending p s = only_at (sc_loop c) (ConnectEstablished p)
      | kDisconnected \<Rightarrow>
          sc_registered c \<and> sv_connections s (sc_name c) = Some p \<and> pending p s = only_at (sv_loop s) (RemoveConnectionInLoop p)
        \<or> sc_registered c \<and> sv_connections s (sc_name c) = None \<and> pending p s = only_at (sc_loop c) (ConnectDestroyed p)
        \<or> \<not> sc_registered c \<and> sv_connections s (sc_name c) = None \<and> pending p s = (\<lambda>_. [])
      | _ \<Rightarrow> sc_registered c \<and> sv_connections s (sc_name c) = Some p \<and> pending p s = (\<lambda>_. []))"

definition id_name :: "tcp_server \<Rightarrow> int \<Rightarrow> string" where
  "id_name s i = sv_name s @ ''-'' @ sv_ipPort s @ ''#'' @ dec_int i"

definition server_const :: "tcp_server \<Rightarrow> bool" where
  "server_const s \<longleftrightarrow> sv_alive s \<and> pool_ok (sv_pool s) \<and> lp_baseLoop (sv_pool s) = sv_loop s \<and> length (sv_ipPort s) \<le> 51 \<and>
     1 \<le> sv_nextConnId s \<and> sv_nextConnId s < 2 ^ 31 \<and> (\<forall>l. AcceptorListen \<notin> set (sv_queue s l))"

definition server_inv :: "tcp_server \<Rightarrow> bool" where
  "server_inv s \<longleftrightarrow> server_const s \<and>
     (\<forall>p c. sv_heap s p = Some c \<longrightarrow> life_ok p c s \<and> (\<exists>i. 1 \<le> i \<and> i < sv_nextConnId s \<and> sc_name c = id_name s i)) \<and>
     (\<forall>p. sv_heap s p = None \<longrightarrow> pending p s = (\<lambda>_. [])) \<and>
     (\<forall>p q c d. sv_heap s p = Some c \<and> sv_heap s q = Some d \<and> sc_name c = sc_name d \<longrightarrow> p = q) \<and>
     (\<forall>n p. sv_connections s n = Some p \<longrightarrow> (\<exists>c. sv_heap s p = Some c \<and> sc_name c = n))"

lemma server_inv_parts:
  assumes "server_inv s"
  shows "sv_alive s" "pool_ok (sv_pool s)" "lp_baseLoop (sv_pool s) = sv_loop s"
    "\<And>p c. sv_heap s p = Some c \<Longrightarrow> life_ok p c s" "\<And>p. sv_heap s p = None \<Longrightarrow> pending p s = (\<lambda>_. [])"
    "\<And>l. AcceptorListen \<notin> set (sv_queue s l)"
  using assms by (auto simp: server_inv_def server_const_def)

lemma inv_unique: "server_inv s \<Longrightarrow> sv_heap s p = Some c \<Longrightarrow> sv_heap s q = Some d \<Longrightarrow> sc_name c = sc_name d \<Longrightarrow> p = q"
  unfolding server_inv_def by blast

lemma inv_map:
  assumes "server_inv s" "sv_connections s n = Some p"
  obtains c where "sv_heap s p = Some c" "sc_name c = n"
  using assms unfolding server_inv_def by blast

lemma inv_id:
  assumes "server_inv s" "sv_heap s p = Some c"
  obtains i where "1 \<le> i" "i < sv_nextConnId s" "sc_name c = id_name s i"
  using assms unfolding server_inv_def by blast

lemma server_invI:
  assumes "server_const s" "\<And>p c. sv_heap s p = Some c \<Longrightarrow> life_ok p c s"
    "\<And>p c. sv_heap s p = Some c \<Longrightarrow> \<exists>i. 1 \<le> i \<and> i < sv_nextConnId s \<and> sc_name c = id_name s i"
    "\<And>p. sv_heap s p = None \<Longrightarrow> pending p s = (\<lambda>_. [])"
    "\<And>p q c d. sv_heap s p = Some c \<Longrightarrow> sv_heap s q = Some d \<Longrightarrow> sc_name c = sc_name d \<Longrightarrow> p = q"
    "\<And>n p. sv_connections s n = Some p \<Longrightarrow> \<exists>c. sv_heap s p = Some c \<and> sc_name c = n"
  shows "server_inv s"
  unfolding server_inv_def using assms by (intro conjI allI impI; (elim conjE)?; blast)

lemma life_ok_frame:
  assumes "life_ok q d s" "sv_connections s' (sc_name d) = sv_connections s (sc_name d)" "pending q s' = pending q s"
    "sv_loop s' = sv_loop s"
  shows "life_ok q d s'"
  using assms by (cases "sc_state d") (simp_all add: life_ok_def)

text \<open>A step that concerns one connection keeps the invariant if it leaves that connection in order.\<close>

lemma server_inv_update:
  assumes "server_inv s" "sv_heap s p = Some c" "sc_name c' = sc_name c"
    and "sv_heap s' = (sv_heap s)(p \<mapsto> c')" "server_const s'" "sv_loop s' = sv_loop s" "sv_name s' = sv_name s"
      "sv_ipPort s' = sv_ipPort s" "sv_nextConnId s' = sv_nextConnId s"
    and "\<And>n. n \<noteq> sc_name c \<Longrightarrow> sv_connections s' n = sv_connections s n"
    and "sv_connections s' (sc_name c) \<in> {None, Some p}"
    and "\<And>q. q \<noteq> p \<Longrightarrow> pending q s' = pending q s" "life_ok p c' s'"
  shows "server_inv s'"
proof (rule server_invI)
  have heap: "\<exists>e. sv_heap s q = Some e \<and> sc_name e = sc_name d \<and> (q \<noteq> p \<longrightarrow> e = d)" if "sv_heap s' q = Some d" for q d
    using that assms(2-4) by (cases "q = p") auto
  fix q d
  assume d: "sv_heap s' q = Some d"
  show "life_ok q d s'"
  proof (cases "q = p")
    case True
    then show ?thesis using d assms(4,13) by simp
  next
    case False
    then have sq: "sv_heap s q = Some d" using d assms(4) by simp
    then have "sc_name d \<noteq> sc_name c" using inv_unique [OF assms(1) sq assms(2)] False by blast
    then show ?thesis
      by (intro life_ok_frame [OF server_inv_parts(4) [OF assms(1) sq]] assms(6,10,12) False)
  qed
  from heap [OF d] obtain e where e: "sv_heap s q = Some e" "sc_name e = sc_name d" by blast
  from inv_id [OF assms(1) e(1)] e(2) show "\<exists>i. 1 \<le> i \<and> i < sv_nextConnId s' \<and> sc_name d = id_name s' i"
    using assms(7-9) by (metis id_name_def)
  fix r x assume x: "sv_heap s' r = Some x" "sc_name d = sc_name x"
  from heap [OF x(1)] e x(2) inv_unique [OF assms(1) e(1), of r] show "q = r" by auto
next
  fix q assume "sv_heap s' q = None"
  then show "pending q s' = (\<lambda>_. [])"
    using server_inv_parts(5) [OF assms(1), of q] assms(4,12) by (cases "q = p") auto
next
  fix n q assume q: "sv_connections s' n = Some q"
  show "\<exists>d. sv_heap s' q = Some d \<and> sc_name d = n"
  proof (cases "n = sc_name c")
    case True
    then show ?thesis using q assms(3,4,11) by auto
  next
    case False
    then have "sv_connections s n = Some q" using q assms(10) by simp
    from inv_map [OF assms(1) this] obtain d where "sv_heap s q = Some d" "sc_name d = n" .
    then show ?thesis using False assms(2-4) by (cases "q = p") auto
  qed
qed (rule assms(5))

lemma put_conn_simps [simp]:
  "sv_heap (put_conn p c s) = (sv_heap s)(p \<mapsto> c)" "sv_loop (put_conn p c s) = sv_loop s" "sv_name (put_conn p c s) = sv_name s"
  "sv_ipPort (put_conn p c s) = sv_ipPort s" "sv_nextConnId (put_conn p c s) = sv_nextConnId s" "sv_pool (put_conn p c s) = sv_pool s"
  "sv_connections (put_conn p c s) = sv_connections s" "sv_alive (put_conn p c s) = sv_alive s" "sv_queue (put_conn p c s) = sv_queue s"
  by (simp_all add: put_conn_def)

lemma enqueue_simps [simp]:
  "sv_heap (enqueue l t s) = sv_heap s" "sv_loop (enqueue l t s) = sv_loop s" "sv_name (enqueue l t s) = sv_name s"
  "sv_ipPort (enqueue l t s) = sv_ipPort s" "sv_nextConnId (enqueue l t s) = sv_nextConnId s" "sv_pool (enqueue l t s) = sv_pool s"
  "sv_connections (enqueue l t s) = sv_connections s" "sv_alive (enqueue l t s) = sv_alive s"
  "sv_queue (enqueue l t s) = (sv_queue s)(l := sv_queue s l @ [t])"
  by (simp_all add: enqueue_def)

lemma pending_simps [simp]:
  "pending q (put_conn p c s) = pending q s" "pending q (s\<lparr>sv_connections := m\<rparr>) = pending q s"
  "pending q (enqueue l t s) = (if mentions q t then (pending q s)(l := pending q s l @ [t]) else pending q s)"
  by (auto simp: pending_def put_conn_def enqueue_def)

lemma pending_pop:
  assumes "sv_queue s l = t # ts"
  shows "pending q s = (if mentions q t then (pending q (s\<lparr>sv_queue := (sv_queue s)(l := ts)\<rparr>))(l := t # pending q (s\<lparr>sv_queue := (sv_queue s)(l := ts)\<rparr>) l)
    else pending q (s\<lparr>sv_queue := (sv_queue s)(l := ts)\<rparr>))"
  using assms by (auto simp: pending_def)

lemma only_at_simps [simp]: "only_at l t l' = (if l' = l then [t] else [])"
  "(only_at l t)(l := []) = (\<lambda>_. [])" "(\<lambda>_. [])(l := [t]) = only_at l t" "only_at l t = only_at l' t' \<longleftrightarrow> l = l' \<and> t = t'"
  "only_at l t \<noteq> (\<lambda>_. [])" "(\<lambda>_. []) \<noteq> only_at l t"
  by (auto simp: only_at_def fun_eq_iff)

text \<open>The functor at the head of a queue, and what is left when it is taken out.\<close>

lemma popped:
  assumes "server_inv s" "sv_queue s l = t # ts" "mentions p t"
  defines "u \<equiv> s\<lparr>sv_queue := (sv_queue s)(l := ts)\<rparr>"
  shows "\<exists>c. sv_heap s p = Some c \<and> pending p s = only_at l t \<and> pending p u = (\<lambda>_. []) \<and> (\<forall>q. q \<noteq> p \<longrightarrow> pending q u = pending q s)"
proof -
  have pop: "pending p s = (pending p u)(l := t # pending p u l)"
    using pending_pop [OF assms(2), of p] assms(3) by (simp add: u_def)
  obtain c where c: "sv_heap s p = Some c"
    using server_inv_parts(5) [OF assms(1), of p] pop by (cases "sv_heap s p") (auto simp: fun_eq_iff split: if_splits)
  then have "life_ok p c s" by (rule server_inv_parts(4) [OF assms(1)])
  then obtain l' t' where only: "pending p s = only_at l' t' \<or> pending p s = (\<lambda>_. [])"
    by (auto simp: life_ok_def split: conn_state.splits)
  have "t # pending p u l = pending p s l" using pop by simp
  with only have lt: "l' = l" "t' = t" "pending p s = only_at l t" "pending p u l = []" by (auto split: if_splits)
  have "pending p u k = []" for k
    using lt fun_cong [OF pop, of k] by (cases "k = l") auto
  moreover have "pending q u = pending q s" if "q \<noteq> p" for q
    using pending_pop [OF assms(2), of q] assms(3) that by (cases t) (auto simp: u_def)
  ultimately show ?thesis using c lt(3) by auto
qed

lemma const_frame:
  assumes "server_const s" "sv_alive s' = sv_alive s" "sv_pool s' = sv_pool s" "sv_loop s' = sv_loop s"
    "sv_ipPort s' = sv_ipPort s" "sv_nextConnId s' = sv_nextConnId s"
    "\<And>k t. t \<in> set (sv_queue s' k) \<Longrightarrow> t \<in> set (sv_queue s k) \<or> t \<noteq> AcceptorListen"
  shows "server_const s'"
  using assms by (auto simp: server_const_def)

lemma run_established_ok:
  assumes "server_inv s" "sv_queue s l = ConnectEstablished p # ts"
  shows "\<exists>s'. run_server_task l (ConnectEstablished p) (s\<lparr>sv_queue := (sv_queue s)(l := ts)\<rparr>) = Inr s' \<and> server_inv s'"
proof -
  let ?u = "s\<lparr>sv_queue := (sv_queue s)(l := ts)\<rparr>"
  obtain c where c: "sv_heap s p = Some c" "pending p s = only_at l (ConnectEstablished p)" "pending p ?u = (\<lambda>_. [])"
    "\<And>q. q \<noteq> p \<Longrightarrow> pending q ?u = pending q s" using popped [OF assms, of p] by auto
  have "life_ok p c s" using c(1) by (rule server_inv_parts(4) [OF assms(1)])
  with c(2) have st: "sc_state c = kConnecting" "sc_loop c = l" "sc_registered c" "sv_connections s (sc_name c) = Some p"
    by (auto simp: life_ok_def split: conn_state.splits)
  let ?c = "c\<lparr>sc_state := kConnected\<rparr>"
  let ?s = "put_conn p ?c ?u"
  have "run_server_task l (ConnectEstablished p) ?u = Inr ?s"
    using c(1) st by (simp add: run_server_task_def run_established_def conn_at_def assert_loop_def life_established_def)
  moreover have "server_inv ?s"
  proof (rule server_inv_update [OF assms(1) c(1), of ?c])
    show "server_const ?s" by (rule const_frame [of s]) (use assms in \<open>auto simp: put_conn_def server_inv_def split: if_splits\<close>)
    show "life_ok p ?c ?s" using st c(3) by (simp add: life_ok_def)
  qed (use st c(4) in auto)
  ultimately show ?thesis by blast
qed

lemma run_destroyed_ok:
  assumes "server_inv s" "sv_queue s l = ConnectDestroyed p # ts"
  shows "\<exists>s'. run_server_task l (ConnectDestroyed p) (s\<lparr>sv_queue := (sv_queue s)(l := ts)\<rparr>) = Inr s' \<and> server_inv s'"
proof -
  let ?u = "s\<lparr>sv_queue := (sv_queue s)(l := ts)\<rparr>"
  obtain c where c: "sv_heap s p = Some c" "pending p s = only_at l (ConnectDestroyed p)" "pending p ?u = (\<lambda>_. [])"
    "\<And>q. q \<noteq> p \<Longrightarrow> pending q ?u = pending q s" using popped [OF assms, of p] by auto
  have "life_ok p c s" using c(1) by (rule server_inv_parts(4) [OF assms(1)])
  with c(2) have st: "sc_state c = kDisconnected" "sc_loop c = l" "sv_connections s (sc_name c) = None"
    by (auto simp: life_ok_def split: conn_state.splits)
  let ?c = "c\<lparr>sc_state := kDisconnected, sc_registered := False\<rparr>"
  let ?s = "put_conn p ?c ?u"
  have "run_server_task l (ConnectDestroyed p) ?u = Inr ?s"
    using c(1) st by (simp add: run_server_task_def run_destroyed_def conn_at_def assert_loop_def life_destroyed_def)
  moreover have "server_inv ?s"
  proof (rule server_inv_update [OF assms(1) c(1), of ?c])
    show "server_const ?s" by (rule const_frame [of s]) (use assms in \<open>auto simp: server_inv_def split: if_splits\<close>)
    show "life_ok p ?c ?s" using st c(3) by (simp add: life_ok_def)
  qed (use st c(4) in auto)
  ultimately show ?thesis by blast
qed

text \<open>Removing a connection that has just been closed: by a functor of the server's loop, or at once.\<close>

lemma remove_ok:
  assumes "server_inv s" "sv_heap s p = Some c" "sc_registered c" "sv_connections s (sc_name c) = Some p"
    and u: "sv_heap u = (sv_heap s)(p \<mapsto> c')" "sc_name c' = sc_name c" "sc_loop c' = sc_loop c" "sc_registered c'"
      "sc_state c' = kDisconnected" "sv_connections u = sv_connections s" "server_const u" "sv_loop u = sv_loop s"
      "sv_name u = sv_name s" "sv_ipPort u = sv_ipPort s" "sv_nextConnId u = sv_nextConnId s"
      "pending p u = (\<lambda>_. [])" "\<And>q. q \<noteq> p \<Longrightarrow> pending q u = pending q s"
  shows "\<exists>s'. removeConnectionInLoop (sv_loop s) p u = Inr s' \<and> server_inv s'"
proof -
  let ?s = "enqueue (sc_loop c) (ConnectDestroyed p) (u\<lparr>sv_connections := (sv_connections s)(sc_name c := None)\<rparr>)"
  have "removeConnectionInLoop (sv_loop s) p u = Inr ?s"
    using assms(4) u by (simp add: removeConnectionInLoop_def conn_at_def assert_loop_def server_const_def)
  moreover have "server_inv ?s"
  proof (rule server_inv_update [OF assms(1,2), of c'])
    show "server_const ?s"
      by (rule const_frame [of u]) (use u in \<open>auto split: if_splits\<close>)
    show "life_ok p c' ?s" using u by (simp add: life_ok_def)
  qed (use u in auto)
  ultimately show ?thesis by blast
qed

lemma run_remove_ok:
  assumes "server_inv s" "sv_queue s l = RemoveConnectionInLoop p # ts"
  shows "\<exists>s'. run_server_task l (RemoveConnectionInLoop p) (s\<lparr>sv_queue := (sv_queue s)(l := ts)\<rparr>) = Inr s' \<and> server_inv s'"
proof -
  let ?u = "s\<lparr>sv_queue := (sv_queue s)(l := ts)\<rparr>"
  obtain c where c: "sv_heap s p = Some c" "pending p s = only_at l (RemoveConnectionInLoop p)" "pending p ?u = (\<lambda>_. [])"
    "\<And>q. q \<noteq> p \<Longrightarrow> pending q ?u = pending q s" using popped [OF assms, of p] by auto
  have "life_ok p c s" using c(1) by (rule server_inv_parts(4) [OF assms(1)])
  with c(2) have st: "sc_state c = kDisconnected" "l = sv_loop s" "sc_registered c" "sv_connections s (sc_name c) = Some p"
    by (auto simp: life_ok_def split: conn_state.splits)
  have "server_const ?u"
    by (rule const_frame [of s]) (use assms in \<open>auto simp: server_inv_def split: if_splits\<close>)
  with remove_ok [OF assms(1) c(1) st(3,4), of ?u c] st c show ?thesis
    by (simp add: run_server_task_def fun_upd_idem)
qed

lemma run_task_ok:
  assumes "server_inv s" "sv_queue s l = t # ts"
  shows "\<exists>s'. run_server_task l t (s\<lparr>sv_queue := (sv_queue s)(l := ts)\<rparr>) = Inr s' \<and> server_inv s'"
proof (cases t)
  case AcceptorListen
  then show ?thesis using server_inv_parts(6) [OF assms(1), of l] assms(2) by simp
qed (use assms run_established_ok run_destroyed_ok run_remove_ok in blast)+

lemma close_ok:
  assumes "server_inv s" "sv_heap s p = Some c" "sc_state c = kConnected \<or> sc_state c = kDisconnecting"
  shows "\<exists>s'. conn_close (sc_loop c) p s = Inr s' \<and> server_inv s'"
proof -
  have "life_ok p c s" using assms(2) by (rule server_inv_parts(4) [OF assms(1)])
  with assms(3) have st: "sc_registered c" "sv_connections s (sc_name c) = Some p" "pending p s = (\<lambda>_. [])"
    by (auto simp: life_ok_def)
  let ?c = "c\<lparr>sc_state := kDisconnected\<rparr>"
  let ?u = "put_conn p ?c s"
  have cl: "conn_close (sc_loop c) p s = run_in (sc_loop c) (sv_loop s) (RemoveConnectionInLoop p) ?u"
    using assms(2,3) server_inv_parts(1) [OF assms(1)]
    by (auto simp: conn_close_def conn_at_def assert_loop_def life_closed_def server_removeConnection_def)
  have const: "server_const ?u"
    by (rule const_frame [of s]) (use assms(1) in \<open>auto simp: server_inv_def\<close>)
  show ?thesis
  proof (cases "sc_loop c = sv_loop s")
    case True
    then show ?thesis
      using remove_ok [OF assms(1,2) st(1,2), of ?u ?c] const st cl by (simp add: run_in_def run_server_task_def)
  next
    case False
    let ?s = "enqueue (sv_loop s) (RemoveConnectionInLoop p) ?u"
    have "server_inv ?s"
    proof (rule server_inv_update [OF assms(1,2), of ?c])
      show "server_const ?s" by (rule const_frame [of ?u]) (use const in \<open>auto split: if_splits\<close>)
      show "life_ok p ?c ?s" using st by (simp add: life_ok_def)
    qed (use st in auto)
    then show ?thesis using False cl by (simp add: run_in_def)
  qed
qed

lemma shutdown_ok:
  assumes "server_inv s" "sv_heap s p = Some c" "sc_state c = kConnected"
  shows "server_inv (put_conn p (c\<lparr>sc_state := kDisconnecting\<rparr>) s)"
proof -
  let ?c = "c\<lparr>sc_state := kDisconnecting\<rparr>"
  have "life_ok p c s" using assms(2) by (rule server_inv_parts(4) [OF assms(1)])
  with assms(3) have st: "sc_registered c" "sv_connections s (sc_name c) = Some p" "pending p s = (\<lambda>_. [])"
    by (auto simp: life_ok_def)
  show ?thesis
  proof (rule server_inv_update [OF assms(1,2), of ?c])
    show "server_const (put_conn p ?c s)" by (rule const_frame [of s]) (use assms(1) in \<open>auto simp: server_inv_def\<close>)
    show "life_ok p ?c (put_conn p ?c s)" using st by (simp add: life_ok_def)
  qed (use st in auto)
qed

text \<open>A new connection: its name is new because its number is.\<close>

lemma id_name_inject: "0 \<le> i \<Longrightarrow> 0 \<le> j \<Longrightarrow> id_name s i = id_name s j \<longleftrightarrow> i = j"
  by (auto simp: id_name_def dec_int_def)

lemma conn_name_fits:
  assumes "length (sv_ipPort s) \<le> 51" "1 \<le> sv_nextConnId s" "sv_nextConnId s < 2 ^ 31"
  shows "conn_name s = id_name s (sv_nextConnId s)"
proof -
  have "nat (sv_nextConnId s) < 10 ^ 10" using assms(3) by (simp add: nat_less_iff)
  then have "length (dec_int (sv_nextConnId s)) \<le> 10" using length_dec_nat [of "nat (sv_nextConnId s)" 10] assms(2) by (simp add: dec_int_def)
  then show ?thesis using assms(1) by (simp add: conn_name_def id_name_def)
qed

lemma new_name:
  assumes "server_inv s" "sv_heap s q = Some d"
  shows "sc_name d \<noteq> id_name s (sv_nextConnId s)"
proof -
  from inv_id [OF assms] obtain i where "1 \<le> i" "i < sv_nextConnId s" "sc_name d = id_name s i" .
  then show ?thesis using id_name_inject [of i "sv_nextConnId s" s] by simp
qed

lemma server_inv_add:
  assumes "server_inv s" "sv_heap s p = None" "sc_name c = id_name s (sv_nextConnId s)"
    and "sv_heap s' = (sv_heap s)(p \<mapsto> c)" "server_const s'" "sv_loop s' = sv_loop s" "sv_name s' = sv_name s"
      "sv_ipPort s' = sv_ipPort s" "sv_nextConnId s' = sv_nextConnId s + 1"
      "sv_connections s' = (sv_connections s)(sc_name c \<mapsto> p)"
    and "\<And>q. q \<noteq> p \<Longrightarrow> pending q s' = pending q s" "life_ok p c s'"
  shows "server_inv s'"
proof (rule server_invI)
  have name: "sc_name d \<noteq> sc_name c" if "sv_heap s q = Some d" for q d
    using new_name [OF assms(1) that] assms(3) by simp
  have id: "id_name s' = id_name s" using assms(7,8) by (auto simp: id_name_def)
  fix q d
  assume d: "sv_heap s' q = Some d"
  show "life_ok q d s'"
  proof (cases "q = p")
    case True
    then show ?thesis using d assms(4,12) by simp
  next
    case False
    then have sq: "sv_heap s q = Some d" using d assms(4) by simp
    have "sv_connections s' (sc_name d) = sv_connections s (sc_name d)" using name [OF sq] assms(10) by simp
    then show ?thesis
      by (intro life_ok_frame [OF server_inv_parts(4) [OF assms(1) sq]] assms(6,11) False)
  qed
  show "\<exists>i. 1 \<le> i \<and> i < sv_nextConnId s' \<and> sc_name d = id_name s' i"
  proof (cases "q = p")
    case True
    then show ?thesis using d assms(1,3,4,9) id
      by (intro exI [of _ "sv_nextConnId s"]) (auto simp: server_inv_def server_const_def)
  next
    case False
    then have "sv_heap s q = Some d" using d assms(4) by simp
    from inv_id [OF assms(1) this] obtain i where "1 \<le> i" "i < sv_nextConnId s" "sc_name d = id_name s i" .
    then show ?thesis using assms(9) id by (intro exI [of _ i]) auto
  qed
  fix r x assume x: "sv_heap s' r = Some x" "sc_name d = sc_name x"
  show "q = r"
    using d x name inv_unique [OF assms(1), of q d r x] assms(4) by (cases "q = p"; cases "r = p") auto
next
  fix q assume "sv_heap s' q = None"
  then show "pending q s' = (\<lambda>_. [])"
    using server_inv_parts(5) [OF assms(1), of q] assms(4,11) by (cases "q = p") auto
next
  fix n q assume q: "sv_connections s' n = Some q"
  show "\<exists>d. sv_heap s' q = Some d \<and> sc_name d = n"
  proof (cases "n = sc_name c")
    case False
    then have "sv_connections s n = Some q" using q assms(10) by simp
    from inv_map [OF assms(1) this] obtain d where "sv_heap s q = Some d" "sc_name d = n" .
    then show ?thesis using assms(2,4) by (cases "q = p") auto
  qed (use q assms(4,10) in auto)
qed (rule assms(5))

lemma accept_ok:
  assumes "server_inv s" "sv_heap s p = None" "sv_nextConnId s < 2 ^ 31 - 1"
  shows "\<exists>s'. server_newConnection (sv_loop s) p fd s = Inr s' \<and> server_inv s'"
proof -
  note parts = server_inv_parts [OF assms(1)]
  have b: "length (sv_ipPort s) \<le> 51" "1 \<le> sv_nextConnId s" "sv_nextConnId s < 2 ^ 31"
    using assms(1) by (auto simp: server_inv_def server_const_def)
  obtain ioLoop pl where nl: "getNextLoop True (sv_pool s) = Inr (ioLoop, pl)" "pool_ok pl" "lp_baseLoop pl = sv_loop s"
  proof (cases "lp_loops (sv_pool s) = []")
    case True
    then show ?thesis using that [of "sv_loop s" "sv_pool s"] parts(2,3) by (simp add: getNextLoop_def assert_loop_def pool_ok_def)
  next
    case False
    let ?pl = "(sv_pool s)\<lparr>lp_next := int ((nat (lp_next (sv_pool s)) + 1) mod length (lp_loops (sv_pool s)))\<rparr>"
    show ?thesis using getNextLoop_ok [OF parts(2) False] False parts(2,3)
      by (intro that [of "lp_loops (sv_pool s) ! nat (lp_next (sv_pool s))" ?pl]) (auto simp: pool_ok_def)
  qed
  have wrap: "sint (of_int (sv_nextConnId s + 1) :: 32 word) = sv_nextConnId s + 1"
    using b assms(3) by (intro int32_id) auto
  let ?c = "\<lparr>sc_name = id_name s (sv_nextConnId s), sc_loop = ioLoop, sc_fd = fd, sc_state = kConnecting, sc_registered = True\<rparr>"
  let ?t = "(put_conn p ?c (s\<lparr>sv_pool := pl, sv_nextConnId := sv_nextConnId s + 1\<rparr>))
     \<lparr>sv_connections := (sv_connections s)(id_name s (sv_nextConnId s) \<mapsto> p)\<rparr>"
  have new: "server_newConnection (sv_loop s) p fd s = run_in (sv_loop s) ioLoop (ConnectEstablished p) ?t"
    using nl(1) parts(3) conn_name_fits [OF b] wrap by (simp add: server_newConnection_def assert_loop_def Let_def)
  have pend: "pending p ?t = (\<lambda>_. [])" "\<And>q. pending q ?t = pending q s"
    using parts(5) [OF assms(2)] by (simp_all add: pending_def)
  have const: "server_const ?t"
    using assms(1,3) nl by (auto simp: server_inv_def server_const_def)
  show ?thesis
  proof (cases "ioLoop = sv_loop s")
    case True
    let ?s = "put_conn p (?c\<lparr>sc_state := kConnected\<rparr>) ?t"
    have "server_inv ?s"
    proof (rule server_inv_add [OF assms(1,2), of "?c\<lparr>sc_state := kConnected\<rparr>"])
      show "server_const ?s" by (rule const_frame [OF const]) auto
      show "life_ok p (?c\<lparr>sc_state := kConnected\<rparr>) ?s" using pend(1) by (simp add: life_ok_def)
    qed (use pend(2) in auto)
    then show ?thesis using True new
      by (simp add: run_in_def run_server_task_def run_established_def conn_at_def assert_loop_def life_established_def)
  next
    case False
    let ?s = "enqueue ioLoop (ConnectEstablished p) ?t"
    have "server_inv ?s"
    proof (rule server_inv_add [OF assms(1,2), of ?c])
      show "server_const ?s" by (rule const_frame [OF const]) (auto split: if_splits)
      show "life_ok p ?c ?s" using pend(1) by (simp add: life_ok_def)
    qed (use pend(2) in auto)
    then show ?thesis using False new by (simp add: run_in_def)
  qed
qed

lemma server_step_inv: "server_step s t \<Longrightarrow> server_inv s \<Longrightarrow> server_inv t"
proof (induction rule: server_step.induct)
  case (accept s p fd s')
  then show ?case using accept_ok [of s p fd] by force
next
  case (run_functor s l t ts s')
  then show ?case using run_task_ok [of s l t ts] by force
next
  case (close s p c s')
  then show ?case using close_ok [of s p c] by force
next
  case (user_shutdown s p c)
  then show ?case by (rule shutdown_ok [rotated])
qed

lemma server_reach_inv: "server_reach s t \<Longrightarrow> server_inv s \<Longrightarrow> server_inv t"
  by (induction rule: server_reach.induct) (auto intro: server_step_inv)

text \<open>A server with \<open>n\<close> threads, started on the thread of its loop.\<close>

definition started_server :: "nat \<Rightarrow> string \<Rightarrow> string \<Rightarrow> int \<Rightarrow> (nat \<Rightarrow> nat) \<Rightarrow> tcp_server result" where
  "started_server base ipPort name n startLoop =
     rbind (server_setThreadNum n (new_TcpServer base ipPort name)) (server_start base False startLoop)"

lemma started_server_inv:
  assumes "started_server base ipPort name n startLoop = Inr s" "length ipPort \<le> 51"
  shows "server_inv s" "sv_loop s = base" "sv_listenning s"
proof -
  let ?pl = "new_EventLoopThreadPool base name\<lparr>lp_numThreads := n, lp_started := True,
      lp_threads := map (\<lambda>i. snprintf_text (length name + 32) (name @ dec_nat i)) [0..<nat n], lp_loops := map startLoop [0..<nat n]\<rparr>"
  have "s = (new_TcpServer base ipPort name)\<lparr>sv_pool := ?pl, sv_started := 1, sv_listenning := True\<rparr>"
    using assms(1) by (auto simp: started_server_def server_setThreadNum_def server_start_def pool_start_def assert_loop_def
        pool_start_fold pool_setThreadNum_def new_TcpServer_def new_EventLoopThreadPool_def run_in_def run_server_task_def
        res_simps)
  moreover from this show "sv_loop s = base" "sv_listenning s" by (simp_all add: new_TcpServer_def)
  ultimately show "server_inv s" using assms(2)
    by (auto simp: server_inv_def server_const_def new_TcpServer_def pool_ok_def pending_def new_EventLoopThreadPool_def)
qed

section \<open>Properties\<close>


text \<open>C24. A connection outlives its registration with a loop: whenever its channel is still registered, the
  server's map or a queued functor holds it, so it is destroyed only after \<open>connectDestroyed\<close> has run.
  Connections never share a name, and the map holds exactly those that have not been removed.\<close>

theorem server_keeps_connections:
  assumes "started_server base ipPort name n startLoop = Inr s0" "length ipPort \<le> 51" "server_reach s0 s"
    "sv_heap s p = Some c"
  shows "(sc_registered c \<longrightarrow> sv_connections s (sc_name c) = Some p \<or> ConnectDestroyed p \<in> set (sv_queue s (sc_loop c))) \<and>
    (sc_state c \<noteq> kDisconnected \<longrightarrow> sv_connections s (sc_name c) = Some p) \<and>
    (\<forall>q d. sv_heap s q = Some d \<and> sc_name d = sc_name c \<longrightarrow> q = p)"
proof -
  have inv: "server_inv s" using server_reach_inv [OF assms(3)] started_server_inv(1) [OF assms(1,2)] by blast
  have "life_ok p c s" using server_inv_parts(4) [OF inv assms(4)] .
  moreover have "ConnectDestroyed p \<in> set (sv_queue s (sc_loop c))" if "pending p s = only_at (sc_loop c) (ConnectDestroyed p)"
    using fun_cong [OF that, of "sc_loop c"] by (metis filter_is_subset list.set_intros(1) only_at_simps(1) pending_def subsetD)
  ultimately show ?thesis
    using inv_unique [OF inv _ assms(4)] by (cases "sc_state c") (auto simp: life_ok_def)
qed

text \<open>\<open>TcpServer::start\<close> is not thread safe, although its comment says so: called from a thread other than
  that of the server's loop, the first call aborts in the pool.\<close>

theorem server_start_other_thread:
  assumes "me \<noteq> sv_loop s" "sv_started s = 0" "\<not> lp_started (sv_pool s)"
  shows "server_start me cb startLoop s = Inl FatalLog"
  using assms by (simp add: server_start_def pool_start_def assert_loop_def)

text \<open>Destroying the server under a connection that lives on another loop: the connection is not told.
  When it closes before its queued \<open>connectDestroyed\<close> runs, its close callback reaches the destroyed server.\<close>

theorem server_destroyed_then_close:
  assumes "sv_heap s p = Some c" "sv_connections s (sc_name c) = Some p" "sc_loop c \<noteq> sv_loop s" "sc_state c = kConnected"
  shows "\<exists>s'. server_destroy (sv_loop s) [sc_name c] s = Inr s' \<and> ConnectDestroyed p \<in> set (sv_queue s' (sc_loop c)) \<and>
    conn_close (sc_loop c) p s' = Inl UseAfterFree"
  using assms
  by (simp add: server_destroy_def assert_loop_def conn_at_def run_in_def conn_close_def life_closed_def server_removeConnection_def)

section \<open>The life cycle is that of the connection\<close>

text \<open>
  What the server relies on of a connection: its three life-cycle operations move its state the way the
  \<open>life_\<close> functions say.
\<close>

locale conn_life =
  fixes established closed destroyed :: "'c \<Rightarrow> 'c result" and st :: "'c \<Rightarrow> conn_state"
  assumes established_life: "established s = Inr s' \<Longrightarrow> life_established (st s) = Some (st s')"
    and closed_life: "closed s = Inr s' \<Longrightarrow> life_closed (st s) = Some (st s')"
    and destroyed_life: "st s \<in> {kConnected, kDisconnected} \<Longrightarrow> destroyed s = Inr s' \<Longrightarrow> life_destroyed (st s) = Some (st s')"
begin

lemma whole_life:
  assumes "established s = Inr s1" "closed s1 = Inr s2" "destroyed s2 = Inr s3"
  shows "st s = kConnecting \<and> st s1 = kConnected \<and> st s2 = kDisconnected \<and> st s3 = kDisconnected"
  using established_life [OF assms(1)] closed_life [OF assms(2)] destroyed_life [OF _ assms(3)]
  by (auto simp: life_established_def life_closed_def life_destroyed_def split: if_splits)

lemma once_closed: "closed s = Inr s' \<Longrightarrow> closed s' = Inr s'' \<Longrightarrow> False"
  using closed_life [of s s'] closed_life [of s' s''] by (auto simp: life_closed_def split: if_splits)

end

lemma loop_ops_frame:
  "set_mask f p w = Inr w' \<Longrightarrow> \<exists>h ps. w' = w\<lparr>lw_heap := h, lw_poller := ps\<rparr>"
  "channel_remove p w = Inr w' \<Longrightarrow> \<exists>h ps. w' = w\<lparr>lw_heap := h, lw_poller := ps\<rparr>"
  by (auto simp: set_mask_def channel_update_def loop_updateChannel_def channel_remove_def loop_removeChannel_def
      res_simps assert_loop_def split: if_splits)

text \<open>With the default callbacks, which only log, \<open>TcpConnection\<close> is such a connection.\<close>

interpretation tcl: conn_life "connectEstablished (\<lambda>_. Inr) me" "handleClose (\<lambda>_. Inr)" "connectDestroyed (\<lambda>_. Inr)" tc_state
proof
  fix s s' :: tcp_conn
  show "connectEstablished (\<lambda>_. Inr) me s = Inr s' \<Longrightarrow> life_established (tc_state s) = Some (tc_state s')"
    by (auto simp: connectEstablished_def res_simps assert_loop_def life_established_def enableReading_def Let_def
        dest!: loop_ops_frame split: if_splits)
  show "handleClose (\<lambda>_. Inr) s = Inr s' \<Longrightarrow> life_closed (tc_state s) = Some (tc_state s')"
    by (auto simp: handleClose_def res_simps assert_loop_def life_closed_def disableAll_def
        dest!: loop_ops_frame split: if_splits)
  show "tc_state s \<in> {kConnected, kDisconnected} \<Longrightarrow> connectDestroyed (\<lambda>_. Inr) s = Inr s' \<Longrightarrow>
      life_destroyed (tc_state s) = Some (tc_state s')"
    by (auto simp: connectDestroyed_def res_simps assert_loop_def life_destroyed_def disableAll_def
        dest!: loop_ops_frame split: if_splits)
qed

text \<open>A connection is closed at most once: after \<open>handleClose\<close> has run through, a second \<open>handleClose\<close>
  fails its assertion, so the server is asked to remove a connection only once.\<close>

theorem connection_closed_once:
  assumes "handleClose (\<lambda>_. Inr) s = Inr s'" "lw_inLoop s'"
  shows "handleClose (\<lambda>_. Inr) s' = Inl AssertFail"
proof (cases "handleClose (\<lambda>_. Inr) s'")
  case (Inl e)
  moreover have "tc_state s' = kDisconnected"
    using tcl.closed_life [OF assms(1)] by (auto simp: life_closed_def split: if_splits)
  ultimately show ?thesis using assms(2) by (simp add: handleClose_def assert_loop_def)
next
  case (Inr s'')
  then show ?thesis using tcl.once_closed [OF assms(1)] by blast
qed

subsection \<open>Witnesses\<close>

definition demo_server :: tcp_server where
  "demo_server = (new_TcpServer 1 ''0.0.0.0:80'' ''echo'')\<lparr>sv_started := 1, sv_listenning := True,
     sv_pool := (new_EventLoopThreadPool 1 ''echo'')\<lparr>lp_started := True, lp_numThreads := 2,
       lp_threads := [''echo0'', ''echo1''], lp_loops := [10, 11]\<rparr>\<rparr>"

lemma demo_server_started: "started_server 1 ''0.0.0.0:80'' ''echo'' 2 (\<lambda>i. 10 + i) = Inr demo_server"
  by (simp add: started_server_def server_setThreadNum_def server_start_def pool_start_def assert_loop_def
      pool_setThreadNum_def new_TcpServer_def new_EventLoopThreadPool_def run_in_def run_server_task_def demo_server_def
      pool_start_one_def upt_rec [of 0 2] upt_rec [of 1 2] dec_nat_digit snprintf_text_def numeral_2_eq_2)

text \<open>The server with one connection, accepted for its first thread, whose loop has yet to establish it.\<close>

definition demo_conn :: server_conn where
  "demo_conn = \<lparr>sc_name = ''echo-0.0.0.0:80#1'', sc_loop = 10, sc_fd = 5, sc_state = kConnecting, sc_registered = True\<rparr>"

definition busy_server :: tcp_server where
  "busy_server = demo_server\<lparr>sv_nextConnId := 2, sv_connections := [''echo-0.0.0.0:80#1'' \<mapsto> 7], sv_heap := [7 \<mapsto> demo_conn],
     sv_pool := (sv_pool demo_server)\<lparr>lp_next := 1\<rparr>, sv_queue := (\<lambda>_. [])(10 := [ConnectEstablished 7])\<rparr>"

lemma busy_server_reached: "server_reach demo_server busy_server"
proof -
  have "server_newConnection (sv_loop demo_server) 7 5 demo_server = Inr busy_server"
    by (simp add: demo_server_def busy_server_def demo_conn_def new_TcpServer_def server_newConnection_def assert_loop_def
        getNextLoop_def new_EventLoopThreadPool_def run_in_def enqueue_def put_conn_def conn_name_def dec_int_def
        dec_nat_digit snprintf_text_def Let_def)
  then have "server_step demo_server busy_server"
    by (intro server_step.accept) (simp_all add: demo_server_def new_TcpServer_def)
  then show ?thesis using server_reach.intros by blast
qed


theorem server_keeps_connections_witness:
  "sv_connections busy_server (sc_name demo_conn) = Some 7"
  using server_keeps_connections [OF demo_server_started _ busy_server_reached, of 7 demo_conn]
  by (simp add: busy_server_def demo_conn_def)

theorem server_start_other_thread_witness:
  "server_start 2 False (\<lambda>i. 10 + i) (new_TcpServer 1 ''0.0.0.0:80'' ''echo'') = Inl FatalLog"
  using server_start_other_thread [of 2 "new_TcpServer 1 ''0.0.0.0:80'' ''echo''"]
  by (simp add: new_TcpServer_def new_EventLoopThreadPool_def)

theorem server_destroyed_then_close_witness:
  "\<exists>s'. server_destroy 1 [''echo-0.0.0.0:80#1''] (put_conn 7 (demo_conn\<lparr>sc_state := kConnected\<rparr>) busy_server) = Inr s' \<and>
     conn_close 10 7 s' = Inl UseAfterFree"
  using server_destroyed_then_close [of "put_conn 7 (demo_conn\<lparr>sc_state := kConnected\<rparr>) busy_server" 7 "demo_conn\<lparr>sc_state := kConnected\<rparr>"]
  by (auto simp: busy_server_def demo_conn_def demo_server_def new_TcpServer_def)

theorem connection_closed_once_witness:
  "\<exists>s s'. connectEstablished (\<lambda>k. Inr) 9 (new_TcpConnection 7 5 demo_loop) = Inr s \<and>
     handleClose (\<lambda>_. Inr) s = Inr s' \<and> handleClose (\<lambda>_. Inr) s' = Inl AssertFail"
proof -
  obtain s c where s: "connectEstablished (\<lambda>k. Inr) 9 (new_TcpConnection 7 5 demo_loop) = Inr s" "conn_ok s c" "tc_state s = kConnected"
    by (rule demo_connection)
  from handleClose_ok [OF s(2) _ silent_user(1)] s(3) obtain s' c' where
    s': "handleClose (\<lambda>k. Inr) s = Inr s'" "conn_closed s' c'" by auto
  then have "lw_inLoop s'" by (simp add: conn_closed_def loop_wf_def)
  with connection_closed_once [OF s'(1)] s(1) s'(1) show ?thesis by blast
qed

end
