(* ===== verification/Tcp_Client.thy ===== *)
theory Tcp_Client
  imports Connector Tcp_Server
begin

text \<open>
  The client (\<open>src/muduo/net/TcpClient.h\<close>, \<open>TcpClient.cpp\<close>): a connector and at most one connection on
  the same loop, and the decision to reconnect. The connector is the model of \<open>Connector\<close>; the connection
  is its life cycle, as in \<open>Tcp_Server\<close>. \<open>tl_destroy\<close> holds the connections whose \<open>connectDestroyed\<close> is
  queued in the loop, \<open>tl_hold\<close> the timers that keep the connector alive after the destructor.
\<close>

record tcp_client =
  tl_connector :: connector
  tl_name :: string
  tl_retry :: bool
  tl_connect :: bool
  tl_nextConnId :: int
  tl_connection :: "nat option"
  tl_heap :: "nat \<rightharpoonup> server_conn"
  tl_detached :: bool             \<comment> \<open>the close callback is \<open>detail::removeConnection\<close>\<close>
  tl_destroy :: "nat list"
  tl_hold :: "rat list"

section \<open>Operations\<close>

definition new_TcpClient :: "connector_task event_loop \<Rightarrow> string \<Rightarrow> tcp_client" where
  "new_TcpClient l nameArg =
     \<lparr>tl_connector = new_Connector l, tl_name = nameArg, tl_retry = False, tl_connect = True, tl_nextConnId = 1,
      tl_connection = None, tl_heap = Map.empty, tl_detached = False, tl_destroy = [], tl_hold = []\<rparr>"

definition client_inLoop :: "tcp_client \<Rightarrow> bool" where
  "client_inLoop s = lw_inLoop (tl_connector s)"

definition client_conn_at :: "nat \<Rightarrow> tcp_client \<Rightarrow> server_conn result" where
  "client_conn_at p s = (case tl_heap s p of None \<Rightarrow> Inl UseAfterFree | Some c \<Rightarrow> Inr c)"

definition enableRetry :: "tcp_client \<Rightarrow> tcp_client" where
  "enableRetry s = s\<lparr>tl_retry := True\<rparr>"

definition client_connect :: "nat \<Rightarrow> int \<times> int \<Rightarrow> tcp_client \<Rightarrow> tcp_client result" where
  "client_connect q att s =
     rbind (connector_start q att (tl_connector s)) (\<lambda>cn. Inr (s\<lparr>tl_connect := True, tl_connector := cn\<rparr>))"

definition client_disconnect :: "tcp_client \<Rightarrow> tcp_client result" where
  "client_disconnect s =
     (let s1 = s\<lparr>tl_connect := False\<rparr> in
      case tl_connection s1 of
        None \<Rightarrow> Inr s1
      | Some p \<Rightarrow> rbind (client_conn_at p s1) (\<lambda>c.
          Inr (if sc_state c = kConnected then s1\<lparr>tl_heap := (tl_heap s1)(p \<mapsto> c\<lparr>sc_state := kDisconnecting\<rparr>)\<rparr> else s1)))"

definition client_stop :: "tcp_client \<Rightarrow> tcp_client" where
  "client_stop s = s\<lparr>tl_connect := False, tl_connector := connector_stop (tl_connector s)\<rparr>"

text \<open>\<open>newConnection\<close> with the new object at the free address \<open>p\<close>; \<open>peer\<close> is the text of the peer's address.\<close>

definition client_newConnection :: "nat \<Rightarrow> string \<Rightarrow> int \<Rightarrow> tcp_client \<Rightarrow> tcp_client result" where
  "client_newConnection p peer sockfd s =
     assert_loop (client_inLoop s)
       (let name = tl_name s @ snprintf_text 32 ('':'' @ peer @ ''#'' @ dec_int (tl_nextConnId s));
            c = \<lparr>sc_name = name, sc_loop = lw_this (tl_connector s), sc_fd = sockfd, sc_state = kConnecting, sc_registered = True\<rparr>;
            s1 = s\<lparr>tl_nextConnId := sint (of_int (tl_nextConnId s + 1) :: 32 word), tl_connection := Some p\<rparr>
        in case life_established (sc_state c) of
             None \<Rightarrow> Inl AssertFail
           | Some st \<Rightarrow> Inr (s1\<lparr>tl_heap := (tl_heap s1)(p \<mapsto> c\<lparr>sc_state := st\<rparr>)\<rparr>))"

definition client_removeConnection :: "nat \<Rightarrow> nat \<Rightarrow> int \<times> int \<Rightarrow> tcp_client \<Rightarrow> tcp_client result" where
  "client_removeConnection p q att s =
     assert_loop (client_inLoop s)
       (rbind (client_conn_at p s) (\<lambda>c.
        assert_ok (lw_this (tl_connector s) = sc_loop c) (assert_ok (tl_connection s = Some p)
          (let s1 = s\<lparr>tl_connection := None, tl_destroy := tl_destroy s @ [p]\<rparr> in
           if tl_retry s1 \<and> tl_connect s1
           then rbind (connector_restart q att (tl_connector s1)) (\<lambda>cn. Inr (s1\<lparr>tl_connector := cn\<rparr>))
           else Inr s1))))"

text \<open>\<open>handleClose\<close> of the connection with its close callback; a detached one only queues \<open>connectDestroyed\<close>.\<close>

definition client_close :: "nat \<Rightarrow> nat \<Rightarrow> int \<times> int \<Rightarrow> tcp_client \<Rightarrow> tcp_client result" where
  "client_close p q att s =
     rbind (client_conn_at p s) (\<lambda>c.
       case life_closed (sc_state c) of
         None \<Rightarrow> Inl AssertFail
       | Some st \<Rightarrow>
           let s1 = s\<lparr>tl_heap := (tl_heap s)(p \<mapsto> c\<lparr>sc_state := st\<rparr>)\<rparr> in
           if tl_detached s1 then Inr (s1\<lparr>tl_destroy := tl_destroy s1 @ [p]\<rparr>)
           else client_removeConnection p q att s1)"

text \<open>The connector's write event, whose callback is \<open>newConnection\<close>.\<close>

definition client_handleWrite :: "int \<Rightarrow> bool \<Rightarrow> nat \<Rightarrow> string \<Rightarrow> tcp_client \<Rightarrow> tcp_client result" where
  "client_handleWrite err self p peer s =
     rbind (connector_handleWrite err self (\<lambda>_. Inr) (tl_connector s)) (\<lambda>cn.
       let s1 = s\<lparr>tl_connector := cn\<rparr> in
       if length (cn_handed (tl_connector s)) < length (cn_handed cn)
       then client_newConnection p peer (last (cn_handed cn)) s1 else Inr s1)"

text \<open>
  The destructor. \<open>unique\<close> is whether nobody else holds the connection, which is then forced to close;
  the second component is the timer that keeps the connector for another second.
\<close>

definition destroy_TcpClient :: "bool \<Rightarrow> tcp_client \<Rightarrow> tcp_client result" where
  "destroy_TcpClient unique s =
     (case tl_connection s of
        Some p \<Rightarrow> rbind (client_conn_at p s) (\<lambda>c.
          assert_ok (lw_this (tl_connector s) = sc_loop c)
            (let s1 = s\<lparr>tl_detached := True\<rparr> in
             Inr (if unique \<and> (sc_state c = kConnected \<or> sc_state c = kDisconnecting)
                  then s1\<lparr>tl_heap := (tl_heap s1)(p \<mapsto> c\<lparr>sc_state := kDisconnecting\<rparr>)\<rparr> else s1)))
      | None \<Rightarrow> Inr (s\<lparr>tl_connector := connector_stop (tl_connector s), tl_hold := tl_hold s @ [1]\<rparr>))"

text \<open>The queued \<open>connectDestroyed\<close>.\<close>

definition client_connectDestroyed :: "nat \<Rightarrow> tcp_client \<Rightarrow> tcp_client result" where
  "client_connectDestroyed p s =
     rbind (client_conn_at p s) (\<lambda>c.
       case life_destroyed (sc_state c) of
         None \<Rightarrow> Inl AssertFail
       | Some st \<Rightarrow> Inr (s\<lparr>tl_heap := (tl_heap s)(p \<mapsto> c\<lparr>sc_state := st, sc_registered := False\<rparr>), tl_destroy := remove1 p (tl_destroy s)\<rparr>))"

section \<open>Properties\<close>

text \<open>The client with its connection \<open>p\<close> up and the connector idle.\<close>

definition client_up :: "tcp_client \<Rightarrow> nat \<Rightarrow> server_conn \<Rightarrow> bool" where
  "client_up s p c \<longleftrightarrow> cn_idle (tl_connector s) \<and> \<not> lw_eventHandling (tl_connector s) \<and> tl_connection s = Some p \<and>
     tl_heap s p = Some c \<and> sc_loop c = lw_this (tl_connector s) \<and> (sc_state c = kConnected \<or> sc_state c = kDisconnecting) \<and>
     sc_registered c \<and> \<not> tl_detached s"

lemma cn_idle_restart:
  assumes "cn_idle cn"
  shows "cn_idle (cn\<lparr>cn_state := kcDisconnected, cn_retryDelayMs := kInitRetryDelayMs, cn_connect := True\<rparr>)"
  using assms by (auto simp: cn_defs loop_wf_def kInitRetryDelayMs_def kMaxRetryDelayMs_def)

text \<open>When the connection of a client closes, it is forgotten and its destruction queued, and the client
  reconnects exactly if retrying is enabled and \<open>disconnect\<close> or \<open>stop\<close> has not been called: then a new
  attempt is made at once with the shortest delay, and it either waits for the socket or leaves the
  connector idle. The queued destruction succeeds.\<close>

theorem client_reconnects:
  assumes "client_up s p c" "lw_heap (tl_connector s) q = None" "0 \<le> fd"
    "map_of (poller_channels (lw_poller (tl_connector s))) fd = None"
  shows "\<exists>s' s''. client_close p q (fd, e) s = Inr s' \<and> tl_connection s' = None \<and> tl_destroy s' = tl_destroy s @ [p] \<and>
    (if tl_retry s \<and> tl_connect s
     then if connect_proceeds e then \<exists>d. cn_waiting (tl_connector s') q d \<and> chan_fd d = fd
       else cn_idle (tl_connector s') \<and> cn_closed (tl_connector s') = cn_closed (tl_connector s) @ [fd]
     else tl_connector s' = tl_connector s) \<and>
    client_connectDestroyed p s' = Inr s'' \<and> \<not> sc_registered (the (tl_heap s'' p))"
proof -
  let ?cn = "(tl_connector s)\<lparr>cn_state := kcDisconnected, cn_retryDelayMs := kInitRetryDelayMs, cn_connect := True\<rparr>"
  let ?c = "c\<lparr>sc_state := kDisconnected\<rparr>"
  let ?s = "s\<lparr>tl_heap := (tl_heap s)(p \<mapsto> ?c), tl_connection := None, tl_destroy := tl_destroy s @ [p]\<rparr>"
  have up: "cn_idle (tl_connector s)" "lw_inLoop (tl_connector s)" "tl_connection s = Some p" "tl_heap s p = Some c"
    "sc_loop c = lw_this (tl_connector s)" "sc_state c = kConnected \<or> sc_state c = kDisconnecting" "\<not> tl_detached s"
    "\<not> lw_eventHandling (tl_connector s)" using assms(1) by (auto simp: client_up_def cn_idle_def loop_wf_def)
  have "\<exists>cn. startInLoop q (fd, e) ?cn = Inr cn \<and> (if connect_proceeds e then (\<exists>d. cn_waiting cn q d \<and> chan_fd d = fd)
     else cn_idle cn \<and> cn_closed cn = cn_closed (tl_connector s) @ [fd])"
    using startInLoop_ok [OF cn_idle_restart [OF up(1)], of q fd e] assms(2-4) up(8)
    by (cases "connect_proceeds e") (simp; blast)+
  then obtain cn where cn: "startInLoop q (fd, e) ?cn = Inr cn"
    "if connect_proceeds e then (\<exists>d. cn_waiting cn q d \<and> chan_fd d = fd)
     else cn_idle cn \<and> cn_closed cn = cn_closed (tl_connector s) @ [fd]" by blast
  define s' where "s' = (if tl_retry s \<and> tl_connect s then ?s\<lparr>tl_connector := cn\<rparr> else ?s)"
  have "client_close p q (fd, e) s = Inr s'"
    using up cn(1) by (auto simp: s'_def client_close_def client_conn_at_def life_closed_def client_removeConnection_def
        client_inLoop_def assert_loop_def connector_restart_def)
  moreover have "\<exists>s''. client_connectDestroyed p s' = Inr s'' \<and> \<not> sc_registered (the (tl_heap s'' p))"
    by (simp add: s'_def client_connectDestroyed_def client_conn_at_def life_destroyed_def)
  ultimately show ?thesis using cn(2) by (auto simp: s'_def)
qed

text \<open>Dropping the client: destroying it under a connection detaches the connection from it, so that a later
  close no longer touches the client, and forces the close if nobody else holds the connection; a
  connection in that state is still closed and destroyed without an assertion failing.\<close>

theorem client_destroyed_safely:
  assumes "client_up s p c"
  shows "\<exists>s1 s2 s3. destroy_TcpClient unique s = Inr s1 \<and> tl_connector s1 = tl_connector s \<and>
    (unique \<longrightarrow> sc_state (the (tl_heap s1 p)) = kDisconnecting) \<and> client_close p q att s1 = Inr s2 \<and>
    tl_connector s2 = tl_connector s \<and> client_connectDestroyed p s2 = Inr s3 \<and> \<not> sc_registered (the (tl_heap s3 p))"
proof -
  have up: "tl_connection s = Some p" "tl_heap s p = Some c" "sc_loop c = lw_this (tl_connector s)"
    "sc_state c = kConnected \<or> sc_state c = kDisconnecting" using assms by (auto simp: client_up_def)
  let ?c = "if unique then c\<lparr>sc_state := kDisconnecting\<rparr> else c"
  define s1 where "s1 = s\<lparr>tl_detached := True, tl_heap := (tl_heap s)(p \<mapsto> ?c)\<rparr>"
  define s2 where "s2 = s1\<lparr>tl_heap := (tl_heap s1)(p \<mapsto> ?c\<lparr>sc_state := kDisconnected\<rparr>), tl_destroy := tl_destroy s @ [p]\<rparr>"
  have "destroy_TcpClient unique s = Inr s1"
    using up by (auto simp: destroy_TcpClient_def client_conn_at_def fun_upd_idem s1_def)
  moreover have "client_close p q att s1 = Inr s2"
    using up(4) by (auto simp: client_close_def client_conn_at_def life_closed_def s1_def s2_def)
  moreover have "\<exists>s3. client_connectDestroyed p s2 = Inr s3 \<and> \<not> sc_registered (the (tl_heap s3 p))"
    by (simp add: client_connectDestroyed_def client_conn_at_def life_destroyed_def s2_def)
  moreover have "tl_connector s1 = tl_connector s" "tl_connector s2 = tl_connector s"
    "unique \<longrightarrow> sc_state (the (tl_heap s1 p)) = kDisconnecting" by (simp_all add: s1_def s2_def)
  ultimately show ?thesis by blast
qed

subsection \<open>Witnesses\<close>

definition demo_client :: tcp_client where
  "demo_client = \<lparr>tl_connector = idle_connector, tl_name = ''client'', tl_retry = True, tl_connect = True, tl_nextConnId = 2,
     tl_connection = Some 4, tl_heap = [4 \<mapsto> \<lparr>sc_name = ''client:10.0.0.1:80#1'', sc_loop = lw_this idle_connector, sc_fd = 5,
       sc_state = kConnected, sc_registered = True\<rparr>], tl_detached = False, tl_destroy = [], tl_hold = []\<rparr>"

lemma demo_client_up:
  "client_up demo_client 4 \<lparr>sc_name = ''client:10.0.0.1:80#1'', sc_loop = lw_this idle_connector, sc_fd = 5,
     sc_state = kConnected, sc_registered = True\<rparr>"
  using idle_connector_ok by (simp add: client_up_def demo_client_def)

theorem client_reconnects_witness:
  "\<exists>s' d. client_close 4 7 (9, 115) demo_client = Inr s' \<and> tl_connection s' = None \<and> tl_destroy s' = [4] \<and>
     cn_waiting (tl_connector s') 7 d"
  using client_reconnects [OF demo_client_up, of 7 9 115] idle_connector_ok(4,5)
  by (auto simp: demo_client_def connect_proceeds_def)

theorem client_destroyed_safely_witness:
  "\<exists>s1 s2 s3. destroy_TcpClient True demo_client = Inr s1 \<and> client_close 4 7 (9, 115) s1 = Inr s2 \<and>
     client_connectDestroyed 4 s2 = Inr s3"
  using client_destroyed_safely [OF demo_client_up, of True 7 "(9, 115)"] by blast

end
