(* ===== verification/Acceptor.thy ===== *)
theory Acceptor
  imports Loop_Channels
begin

text \<open>
  The acceptor (\<open>src/muduo/net/Acceptor.h\<close>, \<open>Acceptor.cc\<close>): the listening socket, its channel, and
  the reserve descriptor \<open>idleFd_\<close> that lets the server refuse a connection when the process has no
  descriptor left. The record extends the loop's channels with what the code uses of the operating
  system: the descriptors the process has open, its limit, and the number of connections waiting in
  the backlog. As POSIX prescribes, a new descriptor is the lowest one that is free.
\<close>

record acceptor = loop_world +
  ac_socket :: int                \<comment> \<open>\<open>acceptSocket_.fd()\<close>\<close>
  ac_channel :: nat               \<comment> \<open>the address of \<open>acceptChannel_\<close>\<close>
  ac_listenning :: bool
  ac_idleFd :: int
  os_fds :: "int list"            \<comment> \<open>open descriptors of the process\<close>
  os_limit :: nat                 \<comment> \<open>\<open>RLIMIT_NOFILE\<close>\<close>
  os_backlog :: nat               \<comment> \<open>connections waiting to be accepted\<close>

definition EAGAIN :: int where "EAGAIN = 11"
definition EMFILE :: int where "EMFILE = 24"

section \<open>Descriptors\<close>

definition lowest_free :: "int list \<Rightarrow> int" where
  "lowest_free fds = hd (filter (\<lambda>n. n \<notin> set fds) (map int [0..<length fds + 1]))"

definition os_open :: "acceptor \<Rightarrow> int \<times> acceptor" where
  "os_open s =
     (if length (os_fds s) < os_limit s
      then let fd = lowest_free (os_fds s) in (fd, s\<lparr>os_fds := fd # os_fds s\<rparr>) else (-1, s))"

definition os_close :: "int \<Rightarrow> acceptor \<Rightarrow> acceptor" where
  "os_close fd s = s\<lparr>os_fds := removeAll fd (os_fds s)\<rparr>"

text \<open>\<open>accept\<close> with the error number it leaves; a failed call leaves the connection in the backlog.\<close>

definition os_accept :: "acceptor \<Rightarrow> int \<times> int \<times> acceptor" where
  "os_accept s =
     (if os_backlog s = 0 then (-1, EAGAIN, s)
      else if length (os_fds s) < os_limit s
      then let (fd, s1) = os_open s in (fd, 0, s1\<lparr>os_backlog := os_backlog s1 - 1\<rparr>)
      else (-1, EMFILE, s))"

section \<open>Operations\<close>

text \<open>
  The constructor on the loop \<open>w\<close>, with the member channel at the free address \<open>p\<close> and \<open>bind_ok\<close> the
  outcome of \<open>bindOrDie\<close>.
\<close>

definition new_Acceptor :: "nat \<Rightarrow> bool \<Rightarrow> int list \<Rightarrow> nat \<Rightarrow> loop_world \<Rightarrow> acceptor result" where
  "new_Acceptor p bind_ok fds limit w =
     (let s0 = loop_world.extend w \<lparr>ac_socket = -1, ac_channel = p, ac_listenning = False, ac_idleFd = -1,
                 os_fds = fds, os_limit = limit, os_backlog = 0\<rparr>;
          (sockfd, s1) = os_open s0 in
      if sockfd < 0 then Inl FatalLog
      else
        let s2 = create_channel p (new_channel (lw_this s1) sockfd) (s1\<lparr>ac_socket := sockfd\<rparr>);
            (idle, s3) = os_open s2 in
        assert_ok (0 \<le> idle)
          (if bind_ok
           then rbind (chan_at p (lw_heap s3)) (\<lambda>c.
             Inr (s3\<lparr>ac_idleFd := idle, lw_heap := (lw_heap s3)(p \<mapsto> setReadCallback c)\<rparr>))
           else Inl FatalLog))"

definition acceptor_listen :: "bool \<Rightarrow> acceptor \<Rightarrow> acceptor result" where
  "acceptor_listen listen_ok s =
     assert_loop (lw_inLoop s)
       (let s1 = s\<lparr>ac_listenning := True\<rparr> in
        if listen_ok then enableReading (ac_channel s1) s1 else Inl FatalLog)"

definition accept_refuse :: "acceptor \<Rightarrow> acceptor" where
  "accept_refuse s =
     (let s1 = os_close (ac_idleFd s) s;
          (fd, _, s2) = os_accept s1;
          s3 = os_close fd (s2\<lparr>ac_idleFd := fd\<rparr>);
          (idle, s4) = os_open s3
      in s4\<lparr>ac_idleFd := idle\<rparr>)"

definition acceptor_handleRead :: "(int \<Rightarrow> acceptor \<Rightarrow> acceptor result) option \<Rightarrow> acceptor \<Rightarrow> acceptor result" where
  "acceptor_handleRead newConnectionCallback s =
     assert_loop (lw_inLoop s)
       (let (connfd, errno, s1) = os_accept s in
        if 0 \<le> connfd then
          (case newConnectionCallback of Some cb \<Rightarrow> cb connfd s1 | None \<Rightarrow> Inr (os_close connfd s1))
        else if errno = EMFILE then Inr (accept_refuse s1) else Inr s1)"

text \<open>The destructor, and those of the members \<open>acceptChannel_\<close> and \<open>acceptSocket_\<close> after it.\<close>

definition destroy_Acceptor :: "acceptor \<Rightarrow> acceptor result" where
  "destroy_Acceptor s =
     rbind (disableAll (ac_channel s) s) (\<lambda>s1.
     rbind (channel_remove (ac_channel s) s1) (\<lambda>s2.
     rbind (destroy_channel (ac_channel s) (os_close (ac_idleFd s2) s2)) (\<lambda>s3.
       Inr (os_close (ac_socket s3) s3))))"

section \<open>Invariant\<close>

definition fds_ok :: "acceptor \<Rightarrow> bool" where
  "fds_ok s \<longleftrightarrow> distinct (os_fds s) \<and> (\<forall>fd\<in>set (os_fds s). 0 \<le> fd) \<and> length (os_fds s) \<le> os_limit s \<and>
     ac_idleFd s \<in> set (os_fds s) \<and> ac_socket s \<in> set (os_fds s) \<and> ac_idleFd s \<noteq> ac_socket s"

lemma lowest_free_ok: "lowest_free fds \<notin> set fds" "0 \<le> lowest_free fds"
proof -
  let ?xs = "map int [0..<length fds + 1]"
  have "filter (\<lambda>n. n \<notin> set fds) ?xs \<noteq> []"
  proof
    assume "filter (\<lambda>n. n \<notin> set fds) ?xs = []"
    then have "set ?xs \<subseteq> set fds" by (simp only: filter_empty_conv subset_iff) blast
    then have "card (set ?xs) \<le> length fds" using card_mono [of "set fds" "set ?xs"] card_length [of fds] by force
    moreover have "card (set ?xs) = length fds + 1" by (subst distinct_card) (auto simp: distinct_map)
    ultimately show False by simp
  qed
  then have "lowest_free fds \<in> set (filter (\<lambda>n. n \<notin> set fds) ?xs)" unfolding lowest_free_def by (rule hd_in_set)
  then show "lowest_free fds \<notin> set fds" "0 \<le> lowest_free fds"
    by (simp_all only: set_filter mem_Collect_eq set_map image_iff) auto
qed

lemma remove_one_length: "distinct xs \<Longrightarrow> x \<in> set xs \<Longrightarrow> Suc (length (removeAll x xs)) = length xs"
  by (induction xs) auto

lemma accept_refuse_ok:
  assumes "fds_ok s" "0 < os_backlog s" "length (os_fds s) = os_limit s"
  shows "fds_ok (accept_refuse s) \<and> os_backlog (accept_refuse s) = os_backlog s - 1 \<and>
    length (os_fds (accept_refuse s)) = length (os_fds s) \<and> lw_inLoop (accept_refuse s) = lw_inLoop s"
proof -
  let ?fds = "removeAll (ac_idleFd s) (os_fds s)"
  have len: "Suc (length ?fds) = length (os_fds s)" using assms(1) by (simp add: fds_ok_def remove_one_length)
  have new: "lowest_free ?fds \<notin> set ?fds" "0 \<le> lowest_free ?fds" by (rule lowest_free_ok)+
  then have again: "removeAll (lowest_free ?fds) ?fds = ?fds" by (meson removeAll_id)
  have "accept_refuse s = s\<lparr>os_fds := lowest_free ?fds # ?fds, os_backlog := os_backlog s - 1, ac_idleFd := lowest_free ?fds\<rparr>"
    using assms(2,3) len again by (simp add: accept_refuse_def os_close_def os_accept_def os_open_def Let_def)
  then show ?thesis using assms len new by (auto simp: fds_ok_def distinct_removeAll)
qed

text \<open>What the acceptor relies on between events: its descriptors are open and its channel belongs to the loop.\<close>

definition acceptor_ok :: "acceptor \<Rightarrow> bool" where
  "acceptor_ok s \<longleftrightarrow> fds_ok s \<and> loop_wf s \<and> (\<exists>c. lw_heap s (ac_channel s) = Some c \<and> ownerLoop c = lw_this s \<and>
     chan_fd c = ac_socket s \<and> \<not> eventHandling c \<and> events c = (if ac_listenning s then kReadEvent else 0) \<and>
     (if ac_listenning s then registered (ac_channel s) s else fresh_chan (ac_channel s) s))"

lemma loop_wf_extend: "loop_wf (loop_world.extend w x) = loop_wf w"
  by (simp add: loop_wf_def loop_world.defs)

lemma new_Acceptor_ok:
  assumes "loop_wf w" "lw_heap w p = None" "distinct fds" "\<forall>fd\<in>set fds. 0 \<le> fd" "length fds + 2 \<le> limit"
    "\<forall>fd. fd \<notin> set fds \<longrightarrow> map_of (poller_channels (lw_poller w)) fd = None"
  shows "\<exists>s. new_Acceptor p True fds limit w = Inr s \<and> acceptor_ok s \<and> \<not> ac_listenning s \<and>
    lw_active s = lw_active w \<and> lw_eventHandling s = lw_eventHandling w \<and>
    ac_channel s = p \<and> set (os_fds s) = {ac_socket s, ac_idleFd s} \<union> set fds \<and> ac_socket s \<notin> set fds \<and> ac_idleFd s \<notin> set fds"
proof -
  let ?fd = "lowest_free fds" and ?id = "lowest_free (lowest_free fds # fds)"
  let ?c = "setReadCallback (new_channel (lw_this w) ?fd)"
  define s where "s = loop_world.extend w \<lparr>ac_socket = ?fd, ac_channel = p, ac_listenning = False, ac_idleFd = ?id,
      os_fds = ?id # ?fd # fds, os_limit = limit, os_backlog = 0\<rparr>"
  let ?s = "create_channel p ?c s"
  have fd: "?fd \<notin> set fds" "0 \<le> ?fd" "?id \<notin> set (?fd # fds)" "0 \<le> ?id" using lowest_free_ok by blast+
  have "new_Acceptor p True fds limit w = Inr ?s"
    using assms(5) fd by (simp add: new_Acceptor_def os_open_def s_def loop_world.defs create_channel_def Let_def)
  moreover have "acceptor_ok ?s"
  proof -
    have "loop_wf s" using assms(1) by (simp add: s_def loop_wf_extend)
    moreover have "lw_heap s p = None" "map_of (poller_channels (lw_poller s)) (chan_fd ?c) = None" "index ?c = -1"
      using assms(2,6) fd by (simp_all add: s_def loop_world.defs setReadCallback_def new_channel_def)
    ultimately have "loop_wf ?s" "fresh_chan p ?s" using create_channel_ok [of s p ?c] by auto
    moreover have "fds_ok ?s"
      using assms(3,4,5) fd by (auto simp: fds_ok_def s_def create_channel_def loop_world.defs)
    ultimately show ?thesis
      by (simp add: acceptor_ok_def s_def create_channel_def loop_world.defs setReadCallback_def new_channel_def)
  qed
  ultimately show ?thesis using fd by (intro exI [of _ ?s]) (auto simp: s_def create_channel_def loop_world.defs)
qed

lemma acceptor_listen_ok:
  assumes "acceptor_ok s" "\<not> ac_listenning s" "ac_socket s \<ge> 0"
  shows "\<exists>s'. acceptor_listen True s = Inr s' \<and> acceptor_ok s' \<and> ac_listenning s' \<and>
    poller_interest (lw_poller s') (ac_socket s) = kReadEvent \<and>
    (\<exists>h ps. s' = s\<lparr>ac_listenning := True, lw_heap := h, lw_poller := ps\<rparr>)"
proof -
  let ?s = "s\<lparr>ac_listenning := True\<rparr>" and ?p = "ac_channel s"
  from assms(1) obtain c where c: "lw_heap ?s ?p = Some c" "ownerLoop c = lw_this ?s" "chan_fd c = ac_socket s"
    "\<not> eventHandling c" "events c = 0" "fresh_chan ?p ?s" "loop_wf ?s"
    using assms(2) by (auto simp: acceptor_ok_def loop_wf_def fresh_chan_def)
  have m: "mask_enableReading c = kReadEvent" using c(5) by (simp add: mask_enableReading_def)
  have k: "valid_events kReadEvent" "kReadEvent \<noteq> 0" by (simp_all add: event_consts)
  from set_mask_ok [OF c(7,1,2), of mask_enableReading] c(3,6) m k assms(3) obtain u i where
    u: "set_mask mask_enableReading ?p ?s = Inr u" "loop_wf u" "same_rest ?s u" "registered ?p u"
    "lw_heap u ?p = Some (set_index i (c\<lparr>events := kReadEvent, addedToLoop := True\<rparr>))"
    "poller_interest (lw_poller u) = (poller_interest (lw_poller ?s))(ac_socket s := kReadEvent)" by auto
  have eq: "u = ?s\<lparr>lw_heap := lw_heap u, lw_poller := lw_poller u\<rparr>" using u(3) by (simp add: same_rest_def)
  have parts: "ac_channel u = ?p" "ac_listenning u" "ac_socket u = ac_socket s" "lw_this u = lw_this s" "fds_ok u = fds_ok s"
    by (subst eq, simp add: fds_ok_def)+
  have "acceptor_listen True s = Inr u"
    using u(1) c(7) by (simp add: acceptor_listen_def assert_loop_def loop_wf_def enableReading_def)
  moreover have "acceptor_ok u"
    using u(2,4,5) parts c(2-4) assms(1) by (auto simp: acceptor_ok_def set_index_def)
  ultimately show ?thesis using u(6) parts eq by auto
qed

lemma destroy_Acceptor_ok:
  assumes "acceptor_ok s" "ac_listenning s" "\<not> lw_eventHandling s"
  shows "\<exists>s'. destroy_Acceptor s = Inr s' \<and> loop_wf s' \<and> lw_heap s' (ac_channel s) = None \<and>
    poller_interest (lw_poller s') (ac_socket s) = 0 \<and>
    set (os_fds s') = set (os_fds s) - {ac_socket s, ac_idleFd s}"
proof -
  let ?p = "ac_channel s"
  from assms(1,2) obtain c where c: "loop_wf s" "lw_heap s ?p = Some c" "ownerLoop c = lw_this s" "chan_fd c = ac_socket s"
    "\<not> eventHandling c" "registered ?p s" "fds_ok s" by (auto simp: acceptor_ok_def)
  have "0 \<le> chan_fd c" using c(4,7) by (simp add: fds_ok_def)
  from set_mask_upd [OF c(1-3) this, of "\<lambda>_. kNoneEvent"] c(6) obtain s1 c1 h1 ps1 where
    1: "disableAll ?p s = Inr s1" "loop_wf s1" "registered ?p s1" "lw_heap s1 ?p = Some c1" "events c1 = 0"
    "ownerLoop c1 = lw_this s1" "chan_fd c1 = chan_fd c" "eventHandling c1 = eventHandling c"
    "s1 = s\<lparr>lw_heap := h1, lw_poller := ps1\<rparr>" by (auto simp: disableAll_def kNoneEvent_def)
  have "\<not> lw_eventHandling s1" using assms(3) 1(9) by simp
  with channel_remove_upd [OF 1(2,4,3,5)] obtain s2 c2 h ps where
    2: "channel_remove ?p s1 = Inr s2" "loop_wf s2" "lw_heap s2 ?p = Some c2" "\<not> addedToLoop c2" "ownerLoop c2 = ownerLoop c1"
    "chan_fd c2 = chan_fd c1" "eventHandling c2 = eventHandling c1"
    "poller_interest (lw_poller s2) = (poller_interest (lw_poller s1))(chan_fd c1 := 0)"
    "s2 = s1\<lparr>lw_heap := h, lw_poller := ps\<rparr>" by auto
  let ?s = "os_close (ac_idleFd s2) s2"
  have "loop_wf ?s" "lw_heap ?s ?p = Some c2" "ownerLoop c2 = lw_this ?s" "\<not> eventHandling c2" "\<not> addedToLoop c2"
    using 1(6,8,9) 2 c(5) by (simp_all add: os_close_def loop_wf_def)
  from destroy_channel_ok [OF this] obtain s3 where
    3: "destroy_channel ?p ?s = Inr s3" "loop_wf s3" "s3 = ?s\<lparr>lw_heap := (lw_heap ?s)(?p := None)\<rparr>" by blast
  then have "destroy_Acceptor s = Inr (os_close (ac_socket s3) s3)"
    using 1(1) 2(1) by (simp add: destroy_Acceptor_def)
  moreover have "poller_interest (lw_poller s3) (ac_socket s) = 0"
    using 1(7) 2(8) c(4) 3(3) by (simp add: os_close_def)
  ultimately show ?thesis using 3(2) 1(9) 2(9) 3(3)
    by (intro exI [of _ "os_close (ac_socket s3) s3"]) (auto simp: os_close_def loop_wf_def)
qed

section \<open>Properties\<close>

text \<open>An acceptor never spins on a connection it cannot take: whenever connections are waiting,
  \<open>handleRead\<close> takes one out of the backlog. With a descriptor to spare it goes to the callback;
  with none left the reserve descriptor is given up for it, the connection is closed, and the reserve is
  open again afterwards.\<close>

theorem acceptor_takes_one:
  assumes "fds_ok s" "lw_inLoop s" "0 < os_backlog s"
  shows "if length (os_fds s) < os_limit s
    then \<exists>fd s1. acceptor_handleRead (Some cb) s = cb fd s1 \<and> fds_ok s1 \<and> 0 \<le> fd \<and> fd \<notin> set (os_fds s) \<and>
      os_fds s1 = fd # os_fds s \<and> os_backlog s1 = os_backlog s - 1 \<and> ac_idleFd s1 = ac_idleFd s
    else \<exists>s1. acceptor_handleRead (Some cb) s = Inr s1 \<and> fds_ok s1 \<and> os_backlog s1 = os_backlog s - 1 \<and>
      length (os_fds s1) = length (os_fds s)"
proof (cases "length (os_fds s) < os_limit s")
  case True
  let ?fd = "lowest_free (os_fds s)"
  have "?fd \<notin> set (os_fds s)" "0 \<le> ?fd" by (rule lowest_free_ok)+
  moreover have "acceptor_handleRead (Some cb) s = cb ?fd (s\<lparr>os_fds := ?fd # os_fds s, os_backlog := os_backlog s - 1\<rparr>)"
    using True assms(2,3) calculation by (simp add: acceptor_handleRead_def assert_loop_def os_accept_def os_open_def Let_def)
  ultimately show ?thesis using True assms(1)
    by (simp del: ex_simps) (rule exI [of _ ?fd],
      rule exI [of _ "s\<lparr>os_fds := ?fd # os_fds s, os_backlog := os_backlog s - 1\<rparr>"], simp add: fds_ok_def)
next
  case False
  then have "acceptor_handleRead (Some cb) s = Inr (accept_refuse s)"
    using assms(2,3) by (simp add: acceptor_handleRead_def assert_loop_def os_accept_def EMFILE_def)
  moreover have "length (os_fds s) = os_limit s" using False assms(1) by (simp add: fds_ok_def)
  ultimately show ?thesis using False accept_refuse_ok [OF assms(1,3)] by simp
qed

text \<open>The life of an acceptor: constructed on a well-formed loop, listening, destroyed. Every step
  succeeds, while listening the loop watches the socket for reading, and afterwards the channel is gone,
  nothing is watched for the socket and the descriptors the acceptor opened are closed.\<close>

theorem acceptor_lifecycle:
  assumes "loop_wf w" "lw_heap w p = None" "\<not> lw_eventHandling w" "distinct fds" "\<forall>fd\<in>set fds. 0 \<le> fd"
    "length fds + 2 \<le> limit" "\<forall>fd. fd \<notin> set fds \<longrightarrow> map_of (poller_channels (lw_poller w)) fd = None"
  shows "\<exists>s s1 s2. new_Acceptor p True fds limit w = Inr s \<and> acceptor_listen True s = Inr s1 \<and>
    poller_interest (lw_poller s1) (ac_socket s) = kReadEvent \<and> destroy_Acceptor s1 = Inr s2 \<and>
    loop_wf s2 \<and> lw_heap s2 p = None \<and> poller_interest (lw_poller s2) (ac_socket s) = 0 \<and> set (os_fds s2) = set fds"
proof -
  from new_Acceptor_ok [OF assms(1,2,4-7)] obtain s where
    s: "new_Acceptor p True fds limit w = Inr s" "acceptor_ok s" "\<not> ac_listenning s" "lw_eventHandling s = lw_eventHandling w"
    "ac_channel s = p" "set (os_fds s) = {ac_socket s, ac_idleFd s} \<union> set fds" "ac_socket s \<notin> set fds" "ac_idleFd s \<notin> set fds"
    by blast
  have "0 \<le> ac_socket s" using s(2) by (simp add: acceptor_ok_def fds_ok_def)
  from acceptor_listen_ok [OF s(2,3) this] obtain s1 h ps where
    s1: "acceptor_listen True s = Inr s1" "acceptor_ok s1" "ac_listenning s1"
    "poller_interest (lw_poller s1) (ac_socket s) = kReadEvent"
    "s1 = s\<lparr>ac_listenning := True, lw_heap := h, lw_poller := ps\<rparr>" by blast
  have "\<not> lw_eventHandling s1" using assms(3) s(4) s1(5) by simp
  from destroy_Acceptor_ok [OF s1(2,3) this] obtain s2 where
    "destroy_Acceptor s1 = Inr s2" "loop_wf s2" "lw_heap s2 (ac_channel s1) = None"
    "poller_interest (lw_poller s2) (ac_socket s1) = 0" "set (os_fds s2) = set (os_fds s1) - {ac_socket s1, ac_idleFd s1}"
    by blast
  then show ?thesis using s s1 by auto
qed

subsection \<open>Witnesses\<close>

definition empty_world :: loop_world where
  "empty_world = \<lparr>lw_this = 1, lw_inLoop = True, lw_heap = Map.empty, lw_poller = newDefaultPoller False,
     lw_eventHandling = False, lw_active = [], lw_current = None\<rparr>"

lemma empty_world_ok: "loop_wf empty_world" "map_of (poller_channels (lw_poller empty_world)) fd = None"
  using newDefaultPoller_inv [of Map.empty False]
  by (simp_all add: empty_world_def loop_wf_def newDefaultPoller_def poller_channels_def new_epoll_poller_def)

text \<open>All eight descriptors are in use, two connections wait; one of them is turned away.\<close>

theorem acceptor_takes_one_witness:
  "\<exists>s1. acceptor_handleRead (Some (\<lambda>_. Inr)) (loop_world.extend empty_world \<lparr>ac_socket = 3, ac_channel = 7, ac_listenning = True,
       ac_idleFd = 4, os_fds = [0, 1, 2, 3, 4, 5, 6, 7], os_limit = 8, os_backlog = 2\<rparr>) = Inr s1 \<and> fds_ok s1 \<and> os_backlog s1 = 1"
proof -
  define s where "s = loop_world.extend empty_world \<lparr>ac_socket = 3, ac_channel = 7, ac_listenning = True,
       ac_idleFd = 4, os_fds = [0, 1, 2, 3, 4, 5, 6, 7], os_limit = 8, os_backlog = 2\<rparr>"
  have "fds_ok s" "lw_inLoop s" "os_backlog s = 2" "\<not> length (os_fds s) < os_limit s"
    by (simp_all add: s_def fds_ok_def loop_world.defs empty_world_def)
  then show ?thesis using acceptor_takes_one [of s "\<lambda>_. Inr"] unfolding s_def [symmetric] by auto
qed

theorem acceptor_lifecycle_witness:
  "\<exists>s s1 s2. new_Acceptor 7 True [0, 1, 2] 16 empty_world = Inr s \<and> acceptor_listen True s = Inr s1 \<and>
     destroy_Acceptor s1 = Inr s2 \<and> set (os_fds s2) = {0, 1, 2}"
  using acceptor_lifecycle [OF empty_world_ok(1), of 7 "[0, 1, 2]" 16] empty_world_ok(2)
  by (auto simp: empty_world_def)

end
