(* ===== verification/Addresses.thy ===== *)
theory Addresses
  imports Acceptor Endian
begin

text \<open>
  Socket addresses and the wrappers of socket calls (\<open>src/muduo/net/InetAddress.h\<close>, \<open>InetAddress.cc\<close>, \<open>SocketsOps.cc\<close>,
  \<open>Socket.cc\<close>). An \<open>InetAddress\<close> is a union of \<open>sockaddr_in\<close> and \<open>sockaddr_in6\<close> and is modelled as the 28 bytes of its
  storage, so that every member is a range of bytes, the order of the host matters where the code converts, and a
  write through one member of the union is seen through the other. Text of IPv4 addresses is read and printed as
  the C library does it; the conversions of IPv6 addresses and the results of system calls are parameters.
  Shown: addresses and their text correspond, on either host and whatever the storage held before; a connection to
  itself is recognised exactly; \<open>accept\<close> assigns the peer address exactly on success.
\<close>

section \<open>The storage of an address\<close>

type_synonym inet_address = "byte list"

definition sizeof_sockaddr_in :: nat where "sizeof_sockaddr_in = 16"
definition sizeof_sockaddr_in6 :: nat where "sizeof_sockaddr_in6 = 28"

definition AF_INET :: "16 word" where "AF_INET = 2"
definition AF_INET6 :: "16 word" where "AF_INET6 = 10"

text \<open>The members. \<open>sin_family\<close> and \<open>sin_port\<close> lie at the same place in both structures.\<close>

definition family :: "host_order \<Rightarrow> inet_address \<Rightarrow> 16 word" where
  "family h a = obj_word h (subrange 0 2 a)"

definition portNetEndian :: "host_order \<Rightarrow> inet_address \<Rightarrow> 16 word" where
  "portNetEndian h a = obj_word h (subrange 2 4 a)"

definition sin_addr :: "inet_address \<Rightarrow> byte list" where
  "sin_addr a = subrange 4 8 a"

definition sin6_flowinfo :: "inet_address \<Rightarrow> byte list" where
  "sin6_flowinfo a = subrange 4 8 a"

definition sin6_addr :: "inet_address \<Rightarrow> byte list" where
  "sin6_addr a = subrange 8 24 a"

definition set_family :: "host_order \<Rightarrow> 16 word \<Rightarrow> inet_address \<Rightarrow> inet_address" where
  "set_family h f a = overwrite 0 (obj_bytes h f) a"

definition set_port :: "host_order \<Rightarrow> 16 word \<Rightarrow> inet_address \<Rightarrow> inet_address" where
  "set_port h p a = overwrite 2 (obj_bytes h p) a"

definition set_sin_addr :: "byte list \<Rightarrow> inet_address \<Rightarrow> inet_address" where
  "set_sin_addr bs a = overwrite 4 bs a"

definition set_sin6_addr :: "byte list \<Rightarrow> inet_address \<Rightarrow> inet_address" where
  "set_sin6_addr bs a = overwrite 8 bs a"

definition setScopeId :: "host_order \<Rightarrow> 32 word \<Rightarrow> inet_address \<Rightarrow> inet_address" where
  "setScopeId h scope_id a = (if family h a = AF_INET6 then overwrite 24 (obj_bytes h scope_id) a else a)"

definition bzero :: "nat \<Rightarrow> byte list \<Rightarrow> byte list" where
  "bzero n a = overwrite 0 (replicate n 0) a"

section \<open>Text of addresses\<close>

text \<open>\<open>inet_ntop\<close> and \<open>inet_pton\<close> for \<open>AF_INET\<close>. The reader goes over the text once, with the octets that are complete and
  the one being read; an octet has no leading zero and is at most 255.\<close>

fun inet_ntop4 :: "byte list \<Rightarrow> string" where
  "inet_ntop4 [] = []"
| "inet_ntop4 [b] = dec_nat (unat b)"
| "inet_ntop4 (b # bs) = dec_nat (unat b) @ ''.'' @ inet_ntop4 bs"

definition is_digit :: "char \<Rightarrow> bool" where
  "is_digit c \<longleftrightarrow> 48 \<le> (of_char c :: nat) \<and> (of_char c :: nat) \<le> 57"

fun pton4_loop :: "string \<Rightarrow> nat list \<Rightarrow> nat option \<Rightarrow> nat list option" where
  "pton4_loop [] octets cur = (case cur of Some v \<Rightarrow> if length octets = 3 then Some (octets @ [v]) else None | None \<Rightarrow> None)"
| "pton4_loop (c # cs) octets cur =
     (if is_digit c then
        let v = 10 * (case cur of Some v \<Rightarrow> v | None \<Rightarrow> 0) + (of_char c - 48)
        in if cur = Some 0 \<or> 255 < v then None else pton4_loop cs octets (Some v)
      else if c = CHR ''.'' then
        (case cur of Some v \<Rightarrow> if length octets = 3 then None else pton4_loop cs (octets @ [v]) None | None \<Rightarrow> None)
      else None)"

definition inet_pton4 :: "string \<Rightarrow> byte list option" where
  "inet_pton4 str = map_option (map of_nat) (pton4_loop str [] None)"

text \<open>The conversions for \<open>AF_INET6\<close>, and what POSIX says of them: the text fits into \<open>INET6_ADDRSTRLEN\<close> characters with
  its final zero and denotes the address.\<close>

record inet_lib =
  ntop6 :: "byte list \<Rightarrow> string"
  pton6 :: "string \<Rightarrow> byte list option"

definition INET_ADDRSTRLEN :: nat where "INET_ADDRSTRLEN = 16"
definition INET6_ADDRSTRLEN :: nat where "INET6_ADDRSTRLEN = 46"

definition inet_lib_ok :: "inet_lib \<Rightarrow> bool" where
  "inet_lib_ok lib \<longleftrightarrow> (\<forall>bs. length bs = 16 \<longrightarrow> length (ntop6 lib bs) < INET6_ADDRSTRLEN \<and> CHR 0x00 \<notin> set (ntop6 lib bs) \<and>
     pton6 lib (ntop6 lib bs) = Some bs)"

text \<open>\<open>sockets::toIp\<close> and \<open>toIpPort\<close> write into an array that holds the text \<open>buf\<close>; other families leave it as it is.\<close>

definition sockets_toIp :: "inet_lib \<Rightarrow> host_order \<Rightarrow> string \<Rightarrow> nat \<Rightarrow> inet_address \<Rightarrow> string result" where
  "sockets_toIp lib h buf sz a =
     (if family h a = AF_INET then assert_ok (INET_ADDRSTRLEN \<le> sz) (Inr (inet_ntop4 (sin_addr a)))
      else if family h a = AF_INET6 then assert_ok (INET6_ADDRSTRLEN \<le> sz) (Inr (ntop6 lib (sin6_addr a)))
      else Inr buf)"

definition sockets_toIpPort :: "inet_lib \<Rightarrow> host_order \<Rightarrow> string \<Rightarrow> nat \<Rightarrow> inet_address \<Rightarrow> string result" where
  "sockets_toIpPort lib h buf sz a =
     rbind (sockets_toIp lib h buf sz a) (\<lambda>ip.
       let port = networkToHost16 h (portNetEndian h a)
       in assert_ok (length ip < sz) (Inr (ip @ snprintf_text (sz - length ip) ('':'' @ dec_nat (unat port)))))"

text \<open>\<open>fromIpPort\<close> for either structure; text that is no address is only logged.\<close>

definition fromIpPort4 :: "host_order \<Rightarrow> string \<Rightarrow> 16 word \<Rightarrow> inet_address \<Rightarrow> inet_address" where
  "fromIpPort4 h ip port a =
     (let a1 = set_port h (hostToNetwork16 h port) (set_family h AF_INET a)
      in case inet_pton4 ip of Some bs \<Rightarrow> set_sin_addr bs a1 | None \<Rightarrow> a1)"

definition fromIpPort6 :: "inet_lib \<Rightarrow> host_order \<Rightarrow> string \<Rightarrow> 16 word \<Rightarrow> inet_address \<Rightarrow> inet_address" where
  "fromIpPort6 lib h ip port a =
     (let a1 = set_port h (hostToNetwork16 h port) (set_family h AF_INET6 a)
      in case pton6 lib ip of Some bs \<Rightarrow> set_sin6_addr bs a1 | None \<Rightarrow> a1)"

section \<open>InetAddress\<close>

text \<open>The constructors. \<open>mem\<close> is what the storage of the object held before; for an IPv4 address its last twelve bytes stay.\<close>

definition kInaddrAny :: "32 word" where "kInaddrAny = 0"
definition kInaddrLoopback :: "32 word" where "kInaddrLoopback = 0x7f000001"

definition in6addr_any :: "byte list" where "in6addr_any = replicate 16 0"
definition in6addr_loopback :: "byte list" where "in6addr_loopback = replicate 15 0 @ [1]"

definition new_InetAddress_port :: "host_order \<Rightarrow> byte list \<Rightarrow> 16 word \<Rightarrow> bool \<Rightarrow> bool \<Rightarrow> inet_address" where
  "new_InetAddress_port h mem port loopbackOnly ipv6 =
     (if ipv6 then
        set_port h (hostToNetwork16 h port) (set_sin6_addr (if loopbackOnly then in6addr_loopback else in6addr_any)
          (set_family h AF_INET6 (bzero sizeof_sockaddr_in6 mem)))
      else
        set_port h (hostToNetwork16 h port) (set_sin_addr (obj_bytes h (hostToNetwork32 h (if loopbackOnly then kInaddrLoopback else kInaddrAny)))
          (set_family h AF_INET (bzero sizeof_sockaddr_in mem))))"

text \<open>A \<open>StringArg\<close> is read as a C string.\<close>

definition c_str :: "string \<Rightarrow> string" where
  "c_str ip = takeWhile (\<lambda>c. c \<noteq> CHR 0x00) ip"

definition new_InetAddress_ip :: "inet_lib \<Rightarrow> host_order \<Rightarrow> byte list \<Rightarrow> string \<Rightarrow> 16 word \<Rightarrow> bool \<Rightarrow> inet_address" where
  "new_InetAddress_ip lib h mem ip port ipv6 =
     (if ipv6 then fromIpPort6 lib h (c_str ip) port (bzero sizeof_sockaddr_in6 mem)
      else fromIpPort4 h (c_str ip) port (bzero sizeof_sockaddr_in mem))"

definition toIp :: "inet_lib \<Rightarrow> host_order \<Rightarrow> inet_address \<Rightarrow> string result" where
  "toIp lib h a = sockets_toIp lib h '''' 64 a"

definition toIpPort :: "inet_lib \<Rightarrow> host_order \<Rightarrow> inet_address \<Rightarrow> string result" where
  "toIpPort lib h a = sockets_toIpPort lib h '''' 64 a"

definition toPort :: "host_order \<Rightarrow> inet_address \<Rightarrow> 16 word" where
  "toPort h a = networkToHost16 h (portNetEndian h a)"

definition ipNetEndian :: "host_order \<Rightarrow> inet_address \<Rightarrow> 32 word result" where
  "ipNetEndian h a = assert_ok (family h a = AF_INET) (Inr (obj_word h (sin_addr a)))"

text \<open>\<open>resolve\<close>: the entry \<open>gethostbyname_r\<close> found is its address type, its length and its bytes.\<close>

definition resolve :: "int \<Rightarrow> (16 word \<times> nat \<times> byte list) option \<Rightarrow> inet_address \<Rightarrow> (bool \<times> inet_address) result" where
  "resolve ret he a =
     (case he of
        Some (addrtype, len, bs) \<Rightarrow>
          if ret = 0 then assert_ok (addrtype = AF_INET \<and> len = 4) (Inr (True, set_sin_addr (take 4 bs) a)) else Inr (False, a)
      | None \<Rightarrow> Inr (False, a))"

section \<open>Socket calls\<close>

text \<open>A descriptor or error, and the error number of a failed call.\<close>

definition createNonblockingOrDie :: "int \<Rightarrow> int result" where
  "createNonblockingOrDie sockfd = (if sockfd < 0 then Inl FatalLog else Inr sockfd)"

definition bindOrDie :: "int \<Rightarrow> unit result" where
  "bindOrDie ret = (if ret < 0 then Inl FatalLog else Inr ())"

definition listenOrDie :: "int \<Rightarrow> unit result" where
  "listenOrDie ret = (if ret < 0 then Inl FatalLog else Inr ())"

definition EPERM :: int where "EPERM = 1"
definition EINTR :: int where "EINTR = 4"
definition EPROTO :: int where "EPROTO = 71"
definition ECONNABORTED :: int where "ECONNABORTED = 103"

definition sockets_accept :: "int \<Rightarrow> int \<Rightarrow> int result" where
  "sockets_accept connfd savedErrno =
     (if connfd < 0 then
        if savedErrno \<in> {EAGAIN, ECONNABORTED, EINTR, EPROTO, EPERM, EMFILE} then Inr connfd else Inl FatalLog
      else Inr connfd)"

text \<open>\<open>addr\<close> are the bytes the kernel stores, at most the size it was given.\<close>

definition socket_accept :: "int \<Rightarrow> int \<Rightarrow> byte list \<Rightarrow> inet_address \<Rightarrow> (int \<times> inet_address) result" where
  "socket_accept connfd savedErrno addr peeraddr =
     rbind (sockets_accept connfd savedErrno) (\<lambda>connfd.
       Inr (connfd, if 0 \<le> connfd then overwrite 0 addr (replicate sizeof_sockaddr_in6 0) else peeraddr))"

definition getSocketError :: "int \<Rightarrow> int \<Rightarrow> int \<Rightarrow> int" where
  "getSocketError ret errno optval = (if ret < 0 then errno else optval)"

definition getLocalAddr :: "byte list option \<Rightarrow> inet_address" where
  "getLocalAddr name = (case name of Some addr \<Rightarrow> overwrite 0 addr (replicate sizeof_sockaddr_in6 0) | None \<Rightarrow> replicate sizeof_sockaddr_in6 0)"

definition getPeerAddr :: "byte list option \<Rightarrow> inet_address" where
  "getPeerAddr name = (case name of Some addr \<Rightarrow> overwrite 0 addr (replicate sizeof_sockaddr_in6 0) | None \<Rightarrow> replicate sizeof_sockaddr_in6 0)"

definition isSelfConnect :: "host_order \<Rightarrow> byte list option \<Rightarrow> byte list option \<Rightarrow> bool" where
  "isSelfConnect h sockname peername =
     (let localaddr = getLocalAddr sockname; peeraddr = getPeerAddr peername
      in if family h localaddr = AF_INET then
           portNetEndian h localaddr = portNetEndian h peeraddr \<and>
           (obj_word h (sin_addr localaddr) :: 32 word) = obj_word h (sin_addr peeraddr)
         else if family h localaddr = AF_INET6 then
           portNetEndian h localaddr = portNetEndian h peeraddr \<and> sin6_addr localaddr = sin6_addr peeraddr
         else False)"

section \<open>Fields\<close>

lemmas addr_ops = family_def portNetEndian_def sin_addr_def sin6_flowinfo_def sin6_addr_def set_family_def set_port_def set_sin_addr_def
  set_sin6_addr_def bzero_def sizeof_sockaddr_in_def sizeof_sockaddr_in6_def

lemma addr_length [simp]:
  assumes "length a = 28"
  shows "length (set_family h f a) = 28" "length (set_port h p a) = 28" "length bs = 4 \<Longrightarrow> length (set_sin_addr bs a) = 28"
    "length bs = 16 \<Longrightarrow> length (set_sin6_addr bs a) = 28" "n \<le> 28 \<Longrightarrow> length (bzero n a) = 28"
  using assms by (simp_all add: addr_ops)

lemma range_hit: "i + length ys \<le> length xs \<Longrightarrow> j = i + length ys \<Longrightarrow> subrange i j (overwrite i ys xs) = ys"
  by (simp add: subrange_overwrite_hit)

lemmas range_ops = range_hit subrange_overwrite_before subrange_overwrite_after obj_word_obj_bytes

lemma addr_fields [simp]:
  assumes "length a = 28"
  shows "family h (set_family h f a) = f" "portNetEndian h (set_family h f a) = portNetEndian h a" "sin_addr (set_family h f a) = sin_addr a"
    "sin6_addr (set_family h f a) = sin6_addr a" "family h (set_port h p a) = family h a" "portNetEndian h (set_port h p a) = p"
    "sin_addr (set_port h p a) = sin_addr a" "sin6_addr (set_port h p a) = sin6_addr a"
  using assms by (simp_all add: addr_ops range_ops)

lemma addr_fields4 [simp]:
  assumes "length a = 28" "length bs = 4"
  shows "family h (set_sin_addr bs a) = family h a" "portNetEndian h (set_sin_addr bs a) = portNetEndian h a" "sin_addr (set_sin_addr bs a) = bs"
    "sin6_addr (set_sin_addr bs a) = sin6_addr a"
  using assms by (simp_all add: addr_ops range_ops)

lemma addr_fields6 [simp]:
  assumes "length a = 28" "length bs = 16"
  shows "family h (set_sin6_addr bs a) = family h a" "portNetEndian h (set_sin6_addr bs a) = portNetEndian h a" "sin_addr (set_sin6_addr bs a) = sin_addr a"
    "sin6_addr (set_sin6_addr bs a) = bs"
  using assms by (simp_all add: addr_ops range_ops)

lemma sin_addr_bzero [simp]: "length a = 28 \<Longrightarrow> sin_addr (bzero 16 a) = replicate 4 0"
  by (simp add: addr_ops subrange_def overwrite_def)

lemma port_round_trip [simp]: "networkToHost16 h (hostToNetwork16 h p) = p"
  by (simp add: endian_defs swap_to_be_involutive)

section \<open>The text of IPv4 addresses\<close>

lemma digit_facts: "(d :: nat) < 10 \<Longrightarrow> is_digit (char_of (48 + d))" "\<not> is_digit (CHR ''.'')"
  by (simp_all add: is_digit_def)

lemma dec_nat_snoc: "0 < v \<Longrightarrow> d < 10 \<Longrightarrow> dec_nat (10 * v + d) = dec_nat v @ [char_of (48 + d)]"
  using dec_nat_rec [of "10 * v + d"] by simp

text \<open>Reading a numeral, and what has been read when the reader is anywhere in the text.\<close>

lemma pton4_numeral: "v < 256 \<Longrightarrow> pton4_loop (dec_nat v @ rest) octets None = pton4_loop rest octets (Some v)"
proof (induction v arbitrary: rest rule: dec_nat.induct)
  case (1 v)
  show ?case
  proof (cases "v < 10")
    case True
    then show ?thesis using digit_facts(1) [OF True] by (simp add: dec_nat_digit)
  next
    case False
    have *: "10 * (v div 10) + v mod 10 = v" by simp
    have "pton4_loop (dec_nat (v div 10) @ char_of (48 + v mod 10) # rest) octets None =
        pton4_loop (char_of (48 + v mod 10) # rest) octets (Some (v div 10))"
      using 1 False by simp
    also have "\<dots> = pton4_loop rest octets (Some v)" using 1(2) False digit_facts(1) [of "v mod 10"] * by (simp add: Let_def div_eq_0_iff)
    finally show ?thesis using False by (simp add: dec_nat_rec)
  qed
qed

lemma pton4_dot: "pton4_loop (CHR ''.'' # rest) octets (Some v) = (if length octets = 3 then None else pton4_loop rest (octets @ [v]) None)"
  by (simp add: digit_facts)

definition read_text :: "nat list \<Rightarrow> nat option \<Rightarrow> string" where
  "read_text octets cur = concat (map (\<lambda>v. dec_nat v @ ''.'') octets) @ (case cur of Some v \<Rightarrow> dec_nat v | None \<Rightarrow> [])"

lemma pton4_sound:
  assumes "pton4_loop str octets cur = Some r" "\<forall>v\<in>set octets. v < 256" "length octets \<le> 3" "\<forall>v. cur = Some v \<longrightarrow> v < 256"
  shows "\<exists>a b c d. r = [a, b, c, d] \<and> a < 256 \<and> b < 256 \<and> c < 256 \<and> d < 256 \<and>
    read_text octets cur @ str = dec_nat a @ ''.'' @ dec_nat b @ ''.'' @ dec_nat c @ ''.'' @ dec_nat d"
  using assms
proof (induction str octets cur rule: pton4_loop.induct)
  case (1 octets cur)
  then obtain v where v: "cur = Some v" "length octets = 3" "r = octets @ [v]" by (auto split: option.splits if_splits)
  then obtain a b c where "octets = [a, b, c]" by (auto simp: length_Suc_conv numeral_3_eq_3)
  with v 1 show ?case by (simp add: read_text_def)
next
  case (2 ch cs octets cur)
  show ?case
  proof (cases "is_digit ch")
    case True
    let ?d = "of_char ch - 48 :: nat" and ?v = "10 * (case cur of Some v \<Rightarrow> v | None \<Rightarrow> 0) + (of_char ch - 48)"
    have d: "?d < 10" "ch = char_of (48 + ?d)" using True by (auto simp: is_digit_def)
    have g: "cur \<noteq> Some 0" "?v \<le> 255" "pton4_loop cs octets (Some ?v) = Some r" using 2(3) True by (auto simp: Let_def split: if_splits)
    have "read_text octets (Some ?v) = read_text octets cur @ [ch]"
      using g(1) d dec_nat_snoc [of _ ?d] by (auto simp: read_text_def dec_nat_digit split: option.splits)
    with 2(1) [OF True refl _ g(3)] g 2(4,5) show ?thesis by auto
  next
    case False
    with 2(3) obtain v where v: "ch = CHR ''.''" "cur = Some v" "length octets \<noteq> 3" "pton4_loop cs (octets @ [v]) None = Some r"
      by (auto split: if_splits option.splits)
    have "read_text (octets @ [v]) None = read_text octets cur @ ''.''" using v by (simp add: read_text_def)
    with 2(2) [OF False v(1,2) v(3,4)] v 2(4,5,6) show ?thesis by auto
  qed
qed

lemma unat_byte: "unat (b :: byte) < 256"
  using unsigned_less [of b] by simp

lemma ntop4_quad: "length bs = 4 \<Longrightarrow> \<exists>a b c d. bs = [a, b, c, d] \<and>
    inet_ntop4 bs = dec_nat (unat a) @ ''.'' @ dec_nat (unat b) @ ''.'' @ dec_nat (unat c) @ ''.'' @ dec_nat (unat d)"
  by (auto simp: length_Suc_conv numeral_eq_Suc)

text \<open>The reader accepts exactly the text the printer writes, and reads it back.\<close>

lemma inet_pton4_iff: "inet_pton4 str = Some bs \<longleftrightarrow> length bs = 4 \<and> str = inet_ntop4 bs"
proof
  assume "inet_pton4 str = Some bs"
  then obtain r where r: "pton4_loop str [] None = Some r" "bs = map of_nat r" by (auto simp: inet_pton4_def)
  have "(unat (of_nat v :: byte)) = v" if "v < 256" for v :: nat using that by (simp add: unat_of_nat)
  with pton4_sound [OF r(1)] r(2) show "length bs = 4 \<and> str = inet_ntop4 bs" by (auto simp: read_text_def)
next
  assume a: "length bs = 4 \<and> str = inet_ntop4 bs"
  from a ntop4_quad obtain a' b c d where "bs = [a', b, c, d]"
    "str = dec_nat (unat a') @ ''.'' @ dec_nat (unat b) @ ''.'' @ dec_nat (unat c) @ ''.'' @ dec_nat (unat d)" by blast
  then show "inet_pton4 str = Some bs"
    using pton4_numeral [OF unat_byte] pton4_numeral [OF unat_byte, of _ "[]"] by (simp add: inet_pton4_def pton4_dot del: pton4_loop.simps(2))
qed

lemma ntop4_text:
  assumes "length q = 4"
  shows "length (inet_ntop4 q) \<le> 15" "c_str (inet_ntop4 q) = inet_ntop4 q"
proof -
  have len: "length (dec_nat (unat b)) \<le> 3" for b :: byte
    using length_dec_nat [of "unat b" 3] unat_byte [of b] by simp
  have nz: "CHR 0x00 \<notin> set (dec_nat n)" for n by (rule no_digit_dec_nat) simp
  obtain a b c d where q: "q = [a, b, c, d]"
    "inet_ntop4 q = dec_nat (unat a) @ ''.'' @ dec_nat (unat b) @ ''.'' @ dec_nat (unat c) @ ''.'' @ dec_nat (unat d)"
    using ntop4_quad [OF assms] by blast
  show "length (inet_ntop4 q) \<le> 15" using len [of a] len [of b] len [of c] len [of d] q by simp
  have "\<forall>x\<in>set (inet_ntop4 q). x \<noteq> CHR 0x00" using nz q by auto
  then show "c_str (inet_ntop4 q) = inet_ntop4 q" by (simp add: c_str_def takeWhile_eq_all_conv)
qed

lemma port_text: "length (dec_nat (unat (p :: 16 word))) \<le> 5"
proof -
  have "unat p < 65536" using unsigned_less [of p] by simp
  then show ?thesis by (intro length_dec_nat) simp_all
qed

text \<open>Printing, from the fields.\<close>

lemma print_address:
  assumes "if family h a = AF_INET then ip = inet_ntop4 (sin_addr a) \<and> length ip \<le> 15 else family h a = AF_INET6 \<and> ip = ntop6 lib (sin6_addr a) \<and> length ip < 46"
  shows "toIp lib h a = Inr ip \<and> toIpPort lib h a = Inr (ip @ '':'' @ dec_nat (unat (toPort h a)))"
  using assms port_text [of "toPort h a"]
  by (auto simp: toIp_def toIpPort_def sockets_toIp_def sockets_toIpPort_def toPort_def INET_ADDRSTRLEN_def INET6_ADDRSTRLEN_def AF_INET_def AF_INET6_def
      Let_def split: if_splits)

lemma address_of_quad:
  fixes lib :: inet_lib and h :: host_order and port :: "16 word"
  assumes "length mem = 28" "length q = 4"
  defines "a \<equiv> new_InetAddress_ip lib h mem (inet_ntop4 q) port False"
  shows "family h a = AF_INET \<and> sin_addr a = q \<and> toPort h a = port \<and>
    toIp lib h a = Inr (inet_ntop4 q) \<and> toIpPort lib h a = Inr (inet_ntop4 q @ '':'' @ dec_nat (unat port))"
proof -
  have "inet_pton4 (inet_ntop4 q) = Some q" using assms(2) by (simp add: inet_pton4_iff)
  then have "family h a = AF_INET" "sin_addr a = q" "toPort h a = port" using assms(1,2) ntop4_text(2) [OF assms(2)]
    by (simp_all add: a_def new_InetAddress_ip_def fromIpPort4_def Let_def toPort_def sizeof_sockaddr_in_def)
  then show ?thesis using print_address [of h a "inet_ntop4 q" lib] ntop4_text(1) [OF assms(2)] by simp
qed

lemma address_of_other_text:
  fixes lib :: inet_lib and h :: host_order and port :: "16 word"
  assumes "length mem = 28" "\<nexists>q. length q = 4 \<and> c_str ip = inet_ntop4 q"
  defines "a \<equiv> new_InetAddress_ip lib h mem ip port False"
  shows "toPort h a = port \<and> toIp lib h a = Inr ''0.0.0.0''"
proof -
  have "inet_pton4 (c_str ip) = None" using assms(2) inet_pton4_iff by (metis not_Some_eq)
  then have "family h a = AF_INET" "sin_addr a = replicate 4 0" "toPort h a = port" using assms(1)
    by (simp_all add: a_def new_InetAddress_ip_def fromIpPort4_def Let_def toPort_def sizeof_sockaddr_in_def)
  moreover have "replicate 4 (0 :: byte) = [0, 0, 0, 0]" by (simp add: numeral_eq_Suc)
  then have "inet_ntop4 (replicate 4 0) = ''0.0.0.0''" by (simp add: dec_nat_digit)
  ultimately show ?thesis using print_address [of h a "''0.0.0.0''" lib] by simp
qed

lemma address_of_text6:
  fixes h :: host_order and port :: "16 word"
  assumes "length mem = 28" "inet_lib_ok lib" "length q = 16"
  defines "a \<equiv> new_InetAddress_ip lib h mem (ntop6 lib q) port True"
  shows "family h a = AF_INET6 \<and> sin6_addr a = q \<and> toPort h a = port \<and>
    toIp lib h a = Inr (ntop6 lib q) \<and> toIpPort lib h a = Inr (ntop6 lib q @ '':'' @ dec_nat (unat port))"
proof -
  have lib: "length (ntop6 lib q) < 46" "CHR 0x00 \<notin> set (ntop6 lib q)" "pton6 lib (ntop6 lib q) = Some q"
    using assms(2,3) by (simp_all add: inet_lib_ok_def INET6_ADDRSTRLEN_def)
  have "c_str (ntop6 lib q) = ntop6 lib q" using lib(2) unfolding c_str_def by (subst takeWhile_eq_all_conv) auto
  then have "family h a = AF_INET6" "sin6_addr a = q" "toPort h a = port" using assms(1,3) lib(3)
    by (simp_all add: a_def new_InetAddress_ip_def fromIpPort6_def Let_def toPort_def sizeof_sockaddr_in6_def)
  then show ?thesis using print_address [of h a "ntop6 lib q" lib] lib(1) by (simp add: AF_INET_def AF_INET6_def)
qed

text \<open>The addresses the kernel reports, by their parts.\<close>

datatype endpoint =
    is_Inet4: Inet4 (ep_ip: "byte list") (ep_port: "16 word")
  | Inet6 (ep_ip: "byte list") (ep_port: "16 word") (ep_flow: "byte list") (ep_scope: "byte list")

definition endpoint_bytes :: "host_order \<Rightarrow> endpoint \<Rightarrow> byte list" where
  "endpoint_bytes h e =
     (case e of Inet4 ip port \<Rightarrow> obj_bytes h AF_INET @ be_bytes port @ ip @ replicate 8 0
      | Inet6 ip port flow scope \<Rightarrow> obj_bytes h AF_INET6 @ be_bytes port @ flow @ ip @ scope)"

definition endpoint_wf :: "endpoint \<Rightarrow> bool" where
  "endpoint_wf e \<longleftrightarrow> (case e of Inet4 ip port \<Rightarrow> length ip = 4 | Inet6 ip port flow scope \<Rightarrow> length ip = 16 \<and> length flow = 4 \<and> length scope = 4)"

lemma endpoint_fields:
  fixes h :: host_order
  assumes "endpoint_wf e"
  defines "a \<equiv> getLocalAddr (Some (endpoint_bytes h e))"
  shows "family h a = (case e of Inet4 _ _ \<Rightarrow> AF_INET | Inet6 _ _ _ _ \<Rightarrow> AF_INET6)" "toPort h a = ep_port e"
    "(case e of Inet4 ip _ \<Rightarrow> sin_addr a = ip | Inet6 ip _ _ _ \<Rightarrow> sin6_addr a = ip)"
  using assms(1)
  by (cases e; simp add: a_def endpoint_wf_def getLocalAddr_def endpoint_bytes_def addr_ops overwrite_def subrange_def obj_word_obj_bytes
      toPort_def networkToHost16_def swap_obj_word)+

lemma port_eq_iff: "portNetEndian h a = portNetEndian h b \<longleftrightarrow> toPort h a = toPort h b"
proof -
  have "networkToHost16 h (networkToHost16 h x) = x" for x by (simp add: networkToHost16_def swap_to_be_involutive)
  then show ?thesis unfolding toPort_def by metis
qed

lemma addr_word_eq:
  assumes "length x = 4" "length y = 4"
  shows "(obj_word h x :: 32 word) = obj_word h y \<longleftrightarrow> x = y"
proof -
  have "be_bytes (swap_to_be h (obj_word h z :: 32 word)) = z" if "length z = 4" for z using that by (intro be_bytes_obj_word) simp_all
  then show ?thesis using assms by metis
qed

lemma no_address: "family h (getLocalAddr None) = 0" "toPort h (getLocalAddr None) = 0"
proof -
  have r: "replicate 2 (0 :: byte) = [0, 0]" by (simp add: numeral_2_eq_2)
  have "subrange 0 2 (getLocalAddr None) = [0, 0]" "subrange 2 4 (getLocalAddr None) = [0, 0]"
    unfolding r [symmetric] by (simp_all add: getLocalAddr_def sizeof_sockaddr_in6_def subrange_def)
  moreover have "obj_word h [0, 0] = (0 :: 16 word)" by (cases h) (simp_all add: obj_word_def)
  moreover have "swap_to_be h (0 :: 16 word) = 0" by (cases h) (simp_all add: swap_to_be_def le_bytes_def upt_rec)
  ultimately show "family h (getLocalAddr None) = 0" "toPort h (getLocalAddr None) = 0"
    by (simp_all add: family_def toPort_def portNetEndian_def networkToHost16_def)
qed

section \<open>Properties\<close>

text \<open>C26. Addresses and their text correspond: on either host, and whatever the storage of the object held before, an address made from
  dotted text and a port has these four bytes and this port and prints as the same text, alone and with the port; text
  that is no IPv4 address gives the address \<open>0.0.0.0\<close> with the port; and an IPv6 address made from the text of sixteen bytes
  prints as this text, complete within the 64 characters of the array.\<close>

theorem address_text_round_trip:
  assumes "length mem = 28" "inet_lib_ok lib"
  shows "(\<forall>port q. length q = 4 \<longrightarrow> (let a = new_InetAddress_ip lib h mem (inet_ntop4 q) port False in
      family h a = AF_INET \<and> sin_addr a = q \<and> toPort h a = port \<and>
      toIp lib h a = Inr (inet_ntop4 q) \<and> toIpPort lib h a = Inr (inet_ntop4 q @ '':'' @ dec_nat (unat port)))) \<and>
    (\<forall>port ip. (\<nexists>q. length q = 4 \<and> c_str ip = inet_ntop4 q) \<longrightarrow> (let a = new_InetAddress_ip lib h mem ip port False in
      toPort h a = port \<and> toIp lib h a = Inr ''0.0.0.0'')) \<and>
    (\<forall>port q. length q = 16 \<longrightarrow> (let a = new_InetAddress_ip lib h mem (ntop6 lib q) port True in
      family h a = AF_INET6 \<and> sin6_addr a = q \<and> toPort h a = port \<and>
      toIp lib h a = Inr (ntop6 lib q) \<and> toIpPort lib h a = Inr (ntop6 lib q @ '':'' @ dec_nat (unat port))))"
  unfolding Let_def using address_of_quad [OF assms(1)] address_of_other_text [OF assms(1)] address_of_text6 [OF assms] by blast

text \<open>C27. A connection to itself is recognised exactly: for the addresses of the two ends, which have one family, \<open>isSelfConnect\<close> says
  whether address and port are the same; flow information and scope do not count. When the kernel refuses the local
  address the answer is no, and so it is when it refuses the peer's and the local port is not zero.\<close>

theorem self_connect_exact:
  assumes "endpoint_wf l" "endpoint_wf r" "is_Inet4 l = is_Inet4 r"
  shows "(isSelfConnect h (Some (endpoint_bytes h l)) (Some (endpoint_bytes h r)) \<longleftrightarrow> ep_ip l = ep_ip r \<and> ep_port l = ep_port r) \<and>
    \<not> isSelfConnect h None peername \<and> (ep_port l \<noteq> 0 \<longrightarrow> \<not> isSelfConnect h (Some (endpoint_bytes h l)) None)"
proof -
  have same: "getPeerAddr = getLocalAddr" by (simp add: fun_eq_iff getPeerAddr_def getLocalAddr_def)
  note z = no_address [of h]
  note fl = endpoint_fields [OF assms(1), of h] and fr = endpoint_fields [OF assms(2), of h]
  have "isSelfConnect h (Some (endpoint_bytes h l)) (Some (endpoint_bytes h r)) \<longleftrightarrow> ep_ip l = ep_ip r \<and> ep_port l = ep_port r"
    using fl fr assms by (cases l; cases r) (auto simp: isSelfConnect_def same port_eq_iff addr_word_eq endpoint_wf_def AF_INET_def AF_INET6_def Let_def)
  moreover have "\<not> isSelfConnect h None peername" using z by (simp add: isSelfConnect_def AF_INET_def AF_INET6_def Let_def)
  moreover have "ep_port l \<noteq> 0 \<Longrightarrow> \<not> isSelfConnect h (Some (endpoint_bytes h l)) None"
    using fl z by (auto simp: isSelfConnect_def same port_eq_iff Let_def)
  ultimately show ?thesis by blast
qed

text \<open>\<open>resolve\<close> keeps port and family, as its comment says, and gives an IPv4 address the address of the host. An IPv6 address
  keeps its old address although the call reports success: the four bytes go where its flow information is.\<close>

theorem resolve_sets_address:
  assumes "length a = 28" "length bs = 4"
  shows "\<exists>a'. resolve 0 (Some (AF_INET, 4, bs)) a = Inr (True, a') \<and> family h a' = family h a \<and> toPort h a' = toPort h a \<and> sin_addr a' = bs \<and>
    (family h a = AF_INET6 \<longrightarrow> sin6_flowinfo a' = bs \<and> toIp lib h a' = toIp lib h a)"
proof -
  have "resolve 0 (Some (AF_INET, 4, bs)) a = Inr (True, set_sin_addr bs a)" using assms(2) by (simp add: resolve_def)
  moreover have "sin6_flowinfo (set_sin_addr bs a) = bs" using assms addr_fields4(3) by (simp add: sin6_flowinfo_def sin_addr_def)
  moreover have "family h a = AF_INET6 \<Longrightarrow> toIp lib h (set_sin_addr bs a) = toIp lib h a" using assms by (simp add: toIp_def sockets_toIp_def AF_INET_def AF_INET6_def)
  ultimately show ?thesis using assms by (auto simp: toPort_def)
qed

section \<open>Instances\<close>

text \<open>Conversions of IPv6 addresses that satisfy \<open>inet_lib_ok\<close>: eight groups of four hexadecimal digits.\<close>

definition hex_text :: "byte \<Rightarrow> string" where
  "hex_text b = map (\<lambda>n. char_of (if n < 10 then 48 + n else 87 + n)) [unat b div 16, unat b mod 16]"

definition hex_byte :: "char \<Rightarrow> char \<Rightarrow> byte" where
  "hex_byte c d = (let v = \<lambda>c. if (of_char c :: nat) < 58 then of_char c - 48 else of_char c - 87 in of_nat (16 * v c + v d))"

fun groups6 :: "byte list \<Rightarrow> string" where
  "groups6 (a # b # c # bs) = hex_text a @ hex_text b @ '':'' @ groups6 (c # bs)"
| "groups6 [a, b] = hex_text a @ hex_text b"
| "groups6 _ = []"

fun read6 :: "string \<Rightarrow> byte list" where
  "read6 (p # q # r # t # c # cs) = hex_byte p q # hex_byte r t # read6 cs"
| "read6 [p, q, r, t] = [hex_byte p q, hex_byte r t]"
| "read6 _ = []"

definition groups_lib :: inet_lib where
  "groups_lib = \<lparr>ntop6 = groups6, pton6 = (\<lambda>cs. Some (read6 cs))\<rparr>"

lemma hex_round_trip: "\<exists>c d. hex_text b = [c, d] \<and> hex_byte c d = b \<and> c \<noteq> CHR 0x00 \<and> d \<noteq> CHR 0x00"
proof -
  let ?c = "\<lambda>n. char_of (if n < 10 then 48 + n else 87 + n :: nat) :: char"
  have v: "(if (of_char (?c n) :: nat) < 58 then of_char (?c n) - 48 else of_char (?c n) - 87 :: nat) = n \<and> (of_char (?c n) :: nat) \<noteq> 0" if "n < 16" for n
    using that by simp
  have n: "unat b div 16 < 16" "unat b mod 16 < 16" "16 * (unat b div 16) + unat b mod 16 = unat b" using unat_byte [of b] by simp_all
  have "hex_byte (?c (unat b div 16)) (?c (unat b mod 16)) = of_nat (unat b)"
    unfolding hex_byte_def Let_def using v [OF n(1)] v [OF n(2)] n(3) by presburger
  moreover have "?c n \<noteq> CHR 0x00" if "n < 16" for n
  proof
    assume "?c n = CHR 0x00"
    then have "of_char (?c n) = (0 :: nat)" by simp
    with v [OF that] show False by blast
  qed
  ultimately show ?thesis using n by (auto simp: hex_text_def)
qed

lemma groups6_ok:
  assumes "length bs = 2 * n" "0 < n"
  shows "read6 (groups6 bs) = bs \<and> length (groups6 bs) = 5 * n - 1 \<and> CHR 0x00 \<notin> set (groups6 bs)"
  using assms
proof (induction bs arbitrary: n rule: groups6.induct)
  case (1 a b c bs)
  then obtain m where m: "n = Suc m" "length (c # bs) = 2 * m" "0 < m" by (cases n) auto
  with 1 hex_round_trip [of a] hex_round_trip [of b] show ?case by auto
next
  case (2 a b)
  with hex_round_trip [of a] hex_round_trip [of b] show ?case by auto
qed auto

lemma groups_lib_ok: "inet_lib_ok groups_lib"
  using groups6_ok [where n = 8] by (simp add: inet_lib_ok_def groups_lib_def INET6_ADDRSTRLEN_def)

theorem address_text_round_trip_witness:
  "inet_lib_ok groups_lib \<and>
   toIpPort groups_lib BigEndian (new_InetAddress_ip groups_lib BigEndian (replicate 28 0xFF) ''127.0.0.1'' 8080 False) = Inr ''127.0.0.1:8080'' \<and>
   toIp groups_lib LittleEndian (new_InetAddress_ip groups_lib LittleEndian (replicate 28 0xFF) (groups6 in6addr_loopback) 80 True) = Inr (groups6 in6addr_loopback)"
proof -
  have t: "inet_ntop4 [127, 0, 0, 1] = ''127.0.0.1''" "dec_nat (unat (8080 :: 16 word)) = ''8080''" by (simp_all add: dec_nat.simps)
  have l: "length in6addr_loopback = 16" "ntop6 groups_lib = groups6" "length (replicate 28 (0xFF :: byte)) = 28"
    by (simp_all add: in6addr_loopback_def groups_lib_def)
  note rt = address_text_round_trip [OF l(3) groups_lib_ok]
  have q: "length [127, 0, 0, 1 :: byte] = 4" by simp
  have "toIpPort groups_lib BigEndian (new_InetAddress_ip groups_lib BigEndian (replicate 28 0xFF) (inet_ntop4 [127, 0, 0, 1]) 8080 False) =
      Inr (inet_ntop4 [127, 0, 0, 1] @ '':'' @ dec_nat (unat (8080 :: 16 word)))"
    using rt [of BigEndian] q unfolding Let_def by blast
  moreover have "toIp groups_lib LittleEndian (new_InetAddress_ip groups_lib LittleEndian (replicate 28 0xFF) (groups6 in6addr_loopback) 80 True) = Inr (groups6 in6addr_loopback)"
    using rt [of LittleEndian] l unfolding Let_def by metis
  ultimately show ?thesis using groups_lib_ok unfolding t by simp
qed

theorem self_connect_exact_witness:
  "isSelfConnect LittleEndian (Some (endpoint_bytes LittleEndian (Inet4 [127, 0, 0, 1] 8080))) (Some (endpoint_bytes LittleEndian (Inet4 [127, 0, 0, 1] 8080))) \<and>
   \<not> isSelfConnect BigEndian (Some (endpoint_bytes BigEndian (Inet4 [127, 0, 0, 1] 8080))) (Some (endpoint_bytes BigEndian (Inet4 [127, 0, 0, 1] 80)))"
  using self_connect_exact [of "Inet4 [127, 0, 0, 1] 8080" "Inet4 [127, 0, 0, 1] 8080" LittleEndian]
    self_connect_exact [of "Inet4 [127, 0, 0, 1] 8080" "Inet4 [127, 0, 0, 1] 80" BigEndian]
  by (simp add: endpoint_wf_def)

theorem resolve_sets_address_witness:
  "\<exists>a'. resolve 0 (Some (AF_INET, 4, [10, 0, 0, 1])) (new_InetAddress_port LittleEndian (replicate 28 0) 80 True True) = Inr (True, a') \<and>
     sin6_flowinfo a' = [10, 0, 0, 1] \<and> toIp groups_lib LittleEndian a' = toIp groups_lib LittleEndian (new_InetAddress_port LittleEndian (replicate 28 0) 80 True True)"
proof -
  let ?a = "new_InetAddress_port LittleEndian (replicate 28 0) 80 True True"
  have "length ?a = 28" "family LittleEndian ?a = AF_INET6" by (simp_all add: new_InetAddress_port_def sizeof_sockaddr_in6_def in6addr_loopback_def)
  with resolve_sets_address [of ?a "[10, 0, 0, 1]" LittleEndian groups_lib] show ?thesis by auto
qed

end
