(* ===== verification/Http.thy ===== *)
theory Http
  imports Net_Buffer
begin

text \<open>
  The HTTP server's parsing and answering (\<open>src/muduo/net/http\<close>): \<open>HttpRequest.h\<close>, the incremental
  parser \<open>HttpContext\<close>, \<open>HttpResponse\<close> and the message handling of \<open>HttpServer\<close>. Text is a list of
  bytes. The parser works on the buffer of \<open>Net_Buffer\<close>; the functions on plain byte lists that it
  refines carry the proofs. The parse loop takes fuel, and running out of it is \<open>None\<close>.
\<close>

section \<open>Requests\<close>

datatype http_method = kInvalid | kGet | kPost | kHead | kPut | kDelete
datatype http_version = kUnknown | kHttp10 | kHttp11

text \<open>\<open>std::map\<close> from strings to strings: the entries in the order of their keys.\<close>

type_synonym str_map = "(byte list \<times> byte list) list"

fun str_less :: "byte list \<Rightarrow> byte list \<Rightarrow> bool" where
  "str_less _ [] = False"
| "str_less [] (_ # _) = True"
| "str_less (x # xs) (y # ys) = (x < y \<or> x = y \<and> str_less xs ys)"

fun str_map_put :: "byte list \<Rightarrow> byte list \<Rightarrow> str_map \<Rightarrow> str_map" where
  "str_map_put k v [] = [(k, v)]"
| "str_map_put k v ((k', v') # m) =
     (if k = k' then (k, v) # m else if str_less k k' then (k, v) # (k', v') # m else (k', v') # str_map_put k v m)"

record http_request =
  hr_method :: http_method
  hr_version :: http_version
  hr_path :: "byte list"
  hr_query :: "byte list"
  hr_receiveTime :: int
  hr_headers :: str_map

definition new_HttpRequest :: http_request where
  "new_HttpRequest = \<lparr>hr_method = kInvalid, hr_version = kUnknown, hr_path = [], hr_query = [], hr_receiveTime = 0,
     hr_headers = []\<rparr>"

definition setMethod :: "byte list \<Rightarrow> http_request \<Rightarrow> (bool \<times> http_request) result" where
  "setMethod m r =
     assert_ok (hr_method r = kInvalid)
       (let k = (if m = ascii ''GET'' then kGet else if m = ascii ''POST'' then kPost
                 else if m = ascii ''HEAD'' then kHead else if m = ascii ''PUT'' then kPut
                 else if m = ascii ''DELETE'' then kDelete else kInvalid)
        in Inr (k \<noteq> kInvalid, r\<lparr>hr_method := k\<rparr>))"

definition methodString :: "http_method \<Rightarrow> byte list" where
  "methodString m = (case m of kGet \<Rightarrow> ascii ''GET'' | kPost \<Rightarrow> ascii ''POST'' | kHead \<Rightarrow> ascii ''HEAD''
     | kPut \<Rightarrow> ascii ''PUT'' | kDelete \<Rightarrow> ascii ''DELETE'' | kInvalid \<Rightarrow> ascii ''UNKNOWN'')"

text \<open>\<open>isspace\<close> in the C locale.\<close>

definition is_space :: "byte \<Rightarrow> bool" where
  "is_space b \<longleftrightarrow> b \<in> {9, 10, 11, 12, 13, 32}"

definition trim_right :: "byte list \<Rightarrow> byte list" where
  "trim_right v = rev (dropWhile is_space (rev v))"

definition addHeader :: "byte list \<Rightarrow> nat \<Rightarrow> http_request \<Rightarrow> http_request" where
  "addHeader line colon r =
     r\<lparr>hr_headers := str_map_put (take colon line) (trim_right (dropWhile is_space (drop (colon + 1) line))) (hr_headers r)\<rparr>"

definition getHeader :: "byte list \<Rightarrow> http_request \<Rightarrow> byte list" where
  "getHeader field r = (case map_of (hr_headers r) field of None \<Rightarrow> [] | Some v \<Rightarrow> v)"

section \<open>The parser\<close>

datatype parse_state = kExpectRequestLine | kExpectHeaders | kExpectBody | kGotAll

record http_context =
  hx_state :: parse_state
  hx_request :: http_request

definition new_HttpContext :: http_context where
  "new_HttpContext = \<lparr>hx_state = kExpectRequestLine, hx_request = new_HttpRequest\<rparr>"

definition gotAll :: "http_context \<Rightarrow> bool" where
  "gotAll c \<longleftrightarrow> hx_state c = kGotAll"

definition context_reset :: "http_context \<Rightarrow> http_context" where
  "context_reset c = c\<lparr>hx_state := kExpectRequestLine, hx_request := new_HttpRequest\<rparr>"

text \<open>The part of a request line after the method: path and query, then the version.\<close>

definition processPath :: "byte list \<Rightarrow> http_request \<Rightarrow> http_request" where
  "processPath target r =
     (let question = std_find 63 target in
      if question \<noteq> length target then r\<lparr>hr_path := take question target, hr_query := drop question target\<rparr>
      else r\<lparr>hr_path := target\<rparr>)"

definition processVersion :: "byte list \<Rightarrow> http_request \<Rightarrow> bool \<times> http_request" where
  "processVersion version r =
     (if length version = 8 \<and> take 7 version = ascii ''HTTP/1.'' then
        if version ! 7 = 49 then (True, r\<lparr>hr_version := kHttp11\<rparr>)
        else if version ! 7 = 48 then (True, r\<lparr>hr_version := kHttp10\<rparr>)
        else (False, r)
      else (False, r))"

definition processTarget :: "byte list \<Rightarrow> http_request \<Rightarrow> bool \<times> http_request" where
  "processTarget line r =
     (let space = std_find 32 line in
      if space \<noteq> length line then processVersion (drop (space + 1) line) (processPath (take space line) r) else (False, r))"

definition processRequestLine :: "byte list \<Rightarrow> http_request \<Rightarrow> (bool \<times> http_request) result" where
  "processRequestLine line r =
     (let space = std_find 32 line in
      if space \<noteq> length line then
        rbind (setMethod (take space line) r) (\<lambda>(ok, r1).
          Inr (if ok then processTarget (drop (space + 1) line) r1 else (False, r1)))
      else Inr (False, r))"

text \<open>\<open>parseRequest\<close> on the buffer.\<close>

fun parse_loop :: "nat \<Rightarrow> int \<Rightarrow> http_context \<Rightarrow> buffer \<Rightarrow> ((bool \<times> http_context \<times> buffer) result) option" where
  "parse_loop 0 receiveTime c b = None"
| "parse_loop (Suc n) receiveTime c b =
     (case hx_state c of
        kExpectRequestLine \<Rightarrow>
          (case findCRLF b of
             None \<Rightarrow> Some (Inr (True, c, b))
           | Some crlf \<Rightarrow>
               (case processRequestLine (subrange (peek b) crlf (buffer_data b)) (hx_request c) of
                  Inl e \<Rightarrow> Some (Inl e)
                | Inr (ok, r) \<Rightarrow>
                    if ok then
                      (case retrieveUntil (crlf + 2) b of
                         Inl e \<Rightarrow> Some (Inl e)
                       | Inr b' \<Rightarrow> parse_loop n receiveTime
                           (c\<lparr>hx_state := kExpectHeaders, hx_request := r\<lparr>hr_receiveTime := receiveTime\<rparr>\<rparr>) b')
                    else Some (Inr (False, c\<lparr>hx_request := r\<rparr>, b))))
      | kExpectHeaders \<Rightarrow>
          (case findCRLF b of
             None \<Rightarrow> Some (Inr (True, c, b))
           | Some crlf \<Rightarrow>
               let line = subrange (peek b) crlf (buffer_data b); colon = std_find 58 line in
               (case retrieveUntil (crlf + 2) b of
                  Inl e \<Rightarrow> Some (Inl e)
                | Inr b' \<Rightarrow>
                    if colon \<noteq> length line
                    then parse_loop n receiveTime (c\<lparr>hx_request := addHeader line colon (hx_request c)\<rparr>) b'
                    else Some (Inr (True, c\<lparr>hx_state := kGotAll\<rparr>, b'))))
      | _ \<Rightarrow> parse_loop n receiveTime c b)"

text \<open>Every turn but the last consumes a line, so the readable bytes bound the turns.\<close>

definition parseRequest :: "buffer \<Rightarrow> int \<Rightarrow> http_context \<Rightarrow> ((bool \<times> http_context \<times> buffer) result) option" where
  "parseRequest b receiveTime c = parse_loop (readableBytes b + 1) receiveTime c b"

section \<open>Responses\<close>

record http_response =
  hp_headers :: str_map
  hp_statusCode :: int
  hp_statusMessage :: "byte list"
  hp_closeConnection :: bool
  hp_body :: "byte list"

definition new_HttpResponse :: "bool \<Rightarrow> http_response" where
  "new_HttpResponse cl = \<lparr>hp_headers = [], hp_statusCode = 0, hp_statusMessage = [], hp_closeConnection = cl, hp_body = []\<rparr>"

definition response_addHeader :: "byte list \<Rightarrow> byte list \<Rightarrow> http_response \<Rightarrow> http_response" where
  "response_addHeader key v p = p\<lparr>hp_headers := str_map_put key v (hp_headers p)\<rparr>"

definition setContentType :: "byte list \<Rightarrow> http_response \<Rightarrow> http_response" where
  "setContentType ty p = response_addHeader (ascii ''Content-Type'') ty p"

text \<open>The pieces \<open>appendToBuffer\<close> appends, one by one.\<close>

definition response_pieces :: "http_response \<Rightarrow> byte list list" where
  "response_pieces p =
     [ascii (snprintf_text 32 (''HTTP/1.1 '' @ dec_int (hp_statusCode p) @ '' '')), hp_statusMessage p, kCRLF] @
     (if hp_closeConnection p then [ascii ''Connection: close'' @ kCRLF]
      else [take 31 (ascii (''Content-Length: '' @ dec_int (sint (of_nat (length (hp_body p)) :: 64 word))) @ kCRLF),
            ascii ''Connection: Keep-Alive'' @ kCRLF]) @
     concat (map (\<lambda>(k, v). [k, ascii '': '', v, kCRLF]) (hp_headers p)) @ [kCRLF, hp_body p]"

definition appendToBuffer :: "http_response \<Rightarrow> buffer \<Rightarrow> buffer result" where
  "appendToBuffer p b = rfold append (response_pieces p) b"

section \<open>The server\<close>

text \<open>
  A connection of the server: its context, input buffer, the bytes sent and whether it is still
  connected (\<open>send\<close> and \<open>shutdown\<close> do nothing once it is not).
\<close>

record http_conn =
  hc_context :: http_context
  hc_input :: buffer
  hc_sent :: "byte list"
  hc_connected :: bool

type_synonym http_callback = "http_request \<Rightarrow> http_response \<Rightarrow> http_response"

definition defaultHttpCallback :: http_callback where
  "defaultHttpCallback r p =
     p\<lparr>hp_statusCode := 404, hp_statusMessage := ascii ''Not Found'', hp_closeConnection := True\<rparr>"

definition http_send :: "byte list \<Rightarrow> http_conn \<Rightarrow> http_conn" where
  "http_send d s = (if hc_connected s then s\<lparr>hc_sent := hc_sent s @ d\<rparr> else s)"

definition http_shutdown :: "http_conn \<Rightarrow> http_conn" where
  "http_shutdown s = s\<lparr>hc_connected := False\<rparr>"

definition http_onConnection :: "http_conn \<Rightarrow> http_conn" where
  "http_onConnection s = (if hc_connected s then s\<lparr>hc_context := new_HttpContext\<rparr> else s)"

definition request_close :: "http_request \<Rightarrow> bool" where
  "request_close r \<longleftrightarrow> getHeader (ascii ''Connection'') r = ascii ''close'' \<or>
     hr_version r = kHttp10 \<and> getHeader (ascii ''Connection'') r \<noteq> ascii ''Keep-Alive''"

definition http_onRequest :: "http_callback \<Rightarrow> http_request \<Rightarrow> http_conn \<Rightarrow> http_conn result" where
  "http_onRequest cb r s =
     (let response = cb r (new_HttpResponse (request_close r)) in
      rbind (appendToBuffer response new_buffer) (\<lambda>b.
        let s1 = http_send (contents b) s in
        Inr (if hp_closeConnection response then http_shutdown s1 else s1)))"

definition bad_request :: "byte list" where
  "bad_request = ascii ''HTTP/1.1 400 Bad Request'' @ kCRLF @ kCRLF"

definition http_onMessage :: "http_callback \<Rightarrow> int \<Rightarrow> http_conn \<Rightarrow> (http_conn result) option" where
  "http_onMessage cb receiveTime s =
     (case parseRequest (hc_input s) receiveTime (hc_context s) of
        None \<Rightarrow> None
      | Some (Inl e) \<Rightarrow> Some (Inl e)
      | Some (Inr (ok, c, b)) \<Rightarrow>
          let s1 = s\<lparr>hc_context := c, hc_input := b\<rparr>;
              s2 = (if ok then s1 else http_shutdown (http_send bad_request s1))
          in if gotAll c
             then Some (rbind (http_onRequest cb (hx_request c) s2) (\<lambda>s3. Inr (s3\<lparr>hc_context := context_reset (hc_context s3)\<rparr>)))
             else Some (Inr s2))"

section \<open>Parsing bytes\<close>

text \<open>The first line of a byte list and what follows it.\<close>

definition split_line :: "byte list \<Rightarrow> (byte list \<times> byte list) option" where
  "split_line xs = (let i = std_search kCRLF xs in if i = length xs then None else Some (take i xs, drop (i + 2) xs))"

text \<open>One turn of the loop: stop with a result, or go on with a new context and the rest.\<close>

definition parse_turn :: "int \<Rightarrow> http_context \<Rightarrow> byte list \<Rightarrow>
    ((bool \<times> http_context \<times> byte list) result) + (http_context \<times> byte list)" where
  "parse_turn t c xs =
     (case hx_state c of
        kExpectRequestLine \<Rightarrow>
          (case split_line xs of
             None \<Rightarrow> Inl (Inr (True, c, xs))
           | Some (line, rest) \<Rightarrow>
               (case processRequestLine line (hx_request c) of
                  Inl e \<Rightarrow> Inl (Inl e)
                | Inr (ok, r) \<Rightarrow>
                    if ok then Inr (c\<lparr>hx_state := kExpectHeaders, hx_request := r\<lparr>hr_receiveTime := t\<rparr>\<rparr>, rest)
                    else Inl (Inr (False, c\<lparr>hx_request := r\<rparr>, xs))))
      | kExpectHeaders \<Rightarrow>
          (case split_line xs of
             None \<Rightarrow> Inl (Inr (True, c, xs))
           | Some (line, rest) \<Rightarrow>
               let colon = std_find 58 line in
               if colon \<noteq> length line then Inr (c\<lparr>hx_request := addHeader line colon (hx_request c)\<rparr>, rest)
               else Inl (Inr (True, c\<lparr>hx_state := kGotAll\<rparr>, rest)))
      | _ \<Rightarrow> Inr (c, xs))"

fun parse_bytes :: "nat \<Rightarrow> int \<Rightarrow> http_context \<Rightarrow> byte list \<Rightarrow> ((bool \<times> http_context \<times> byte list) result) option" where
  "parse_bytes 0 t c xs = None"
| "parse_bytes (Suc n) t c xs = (case parse_turn t c xs of Inl r \<Rightarrow> Some r | Inr (c', xs') \<Rightarrow> parse_bytes n t c' xs')"

lemma split_line_Some:
  assumes "split_line xs = Some (line, rest)"
  shows "xs = line @ kCRLF @ rest"
proof -
  let ?i = "std_search kCRLF xs"
  have lt: "?i < length xs" using assms std_search_le [of kCRLF xs] by (auto simp: split_line_def Let_def split: if_splits)
  from std_search_found [OF lt] have hit: "take 2 (drop ?i xs) = kCRLF" by (simp add: kCRLF_def numeral_2_eq_2)
  have "xs = take ?i xs @ take 2 (drop ?i xs) @ drop 2 (drop ?i xs)" by (simp only: append_take_drop_id)
  with hit assms lt show ?thesis by (auto simp: split_line_def Let_def add.commute)
qed

lemma split_line_append: "split_line xs = Some (line, rest) \<Longrightarrow> split_line (xs @ ys) = Some (line, rest @ ys)"
proof -
  assume s: "split_line xs = Some (line, rest)"
  let ?i = "std_search kCRLF xs"
  have lt: "?i < length xs" using s std_search_le [of kCRLF xs] by (auto simp: split_line_def Let_def split: if_splits)
  from std_search_length [OF lt] have "?i + 2 \<le> length xs" by (simp add: kCRLF_def)
  with s lt std_search_append [OF lt, of ys] show ?thesis by (auto simp: split_line_def Let_def)
qed

lemma split_line_length: "split_line xs = Some (line, rest) \<Longrightarrow> length rest + 2 \<le> length xs"
  by (drule split_line_Some) (simp add: kCRLF_def)

text \<open>The buffer's version of a line.\<close>

lemma findCRLF_split:
  assumes "buf_wf b"
  shows "case split_line (contents b) of
      None \<Rightarrow> findCRLF b = None
    | Some (line, rest) \<Rightarrow> \<exists>crlf b'. findCRLF b = Some crlf \<and> subrange (peek b) crlf (buffer_data b) = line \<and>
        retrieveUntil (crlf + 2) b = Inr b' \<and> buf_wf b' \<and> contents b' = rest"
proof (cases "split_line (contents b)")
  case None
  then show ?thesis using assms by (simp add: findCRLF_contents split_line_def Let_def split: if_splits)
next
  case (Some lr)
  obtain line rest where lr: "lr = (line, rest)" by force
  let ?i = "std_search kCRLF (contents b)"
  have lt: "?i < length (contents b)" and line: "line = take ?i (contents b)" "rest = drop (?i + 2) (contents b)"
    using Some lr std_search_le [of kCRLF "contents b"] by (auto simp: split_line_def Let_def split: if_splits)
  from std_search_length [OF lt] assms have two: "?i + 2 \<le> readableBytes b" by (simp add: kCRLF_def)
  have crlf: "findCRLF b = Some (peek b + ?i)" using assms lt by (simp add: findCRLF_contents)
  have "subrange (peek b) (peek b + ?i) (buffer_data b) = line"
    using line two assms subrange_take [of "peek b" ?i "beginWrite b" "buffer_data b"]
    unfolding contents_subrange by (simp add: size_defs buf_wf_def)
  moreover obtain b' where "retrieveUntil (peek b + ?i + 2) b = Inr b'" "buf_wf b'" "contents b' = drop (?i + 2) (contents b)"
  proof -
    have "peek b + (?i + 2) \<le> beginWrite b" using two assms by (simp add: size_defs buf_wf_def)
    from retrieveUntil_ok [OF assms this] show ?thesis by (auto intro: that simp: add.assoc)
  qed
  ultimately show ?thesis using Some lr crlf line by auto
qed

text \<open>The loop on the buffer is the loop on its contents.\<close>

definition on_contents :: "(bool \<times> http_context \<times> buffer) result \<Rightarrow> (bool \<times> http_context \<times> byte list) result \<Rightarrow> bool" where
  "on_contents r r' \<longleftrightarrow> (case r of Inl e \<Rightarrow> r' = Inl e | Inr (ok, c, b) \<Rightarrow> buf_wf b \<and> r' = Inr (ok, c, contents b))"

lemma parse_loop_refines:
  assumes "buf_wf b"
  shows "rel_option on_contents (parse_loop n t c b) (parse_bytes n t c (contents b))"
  using assms
proof (induction n arbitrary: c b)
  case (Suc n)
  note line = findCRLF_split [OF Suc.prems]
  show ?case
  proof (cases "split_line (contents b)")
    case None
    with line Suc show ?thesis
      by (auto simp: parse_turn_def on_contents_def split: parse_state.splits)
  next
    case (Some lr)
    obtain l rest where lr: "lr = (l, rest)" by force
    with Some line obtain crlf b' where b': "findCRLF b = Some crlf" "subrange (peek b) crlf (buffer_data b) = l"
      "retrieveUntil (crlf + 2) b = Inr b'" "buf_wf b'" "contents b' = rest" by auto
    note IH = Suc.IH [OF b'(4), unfolded b'(5)] Suc.IH [OF Suc.prems]
    show ?thesis using IH Some lr b' Suc.prems
      by (cases "hx_state c")
        (auto simp: parse_turn_def on_contents_def Let_def split: sum.splits)
  qed
qed simp

section \<open>Fuel\<close>

definition wants_line :: "http_context \<Rightarrow> bool" where
  "wants_line c \<longleftrightarrow> hx_state c = kExpectRequestLine \<or> hx_state c = kExpectHeaders"

lemma parse_turn_more:
  assumes "parse_turn t c xs = Inr (c', xs')" "wants_line c"
  shows "wants_line c'" "length xs' + 2 \<le> length xs"
  using assms
  by (auto simp: parse_turn_def wants_line_def Let_def split: parse_state.splits option.splits sum.splits if_splits
      dest!: split_line_length)

lemma parse_bytes_enough:
  assumes "wants_line c" "length xs < n"
  shows "\<exists>r. parse_bytes n t c xs = Some r"
  using assms
proof (induction n arbitrary: c xs)
  case (Suc n)
  show ?case
  proof (cases "parse_turn t c xs")
    case (Inr cx)
    then obtain c' xs' where "parse_turn t c xs = Inr (c', xs')" by (cases cx) auto
    with parse_turn_more [OF this Suc.prems(1)] Suc show ?thesis by auto
  qed simp
qed simp

lemma parse_bytes_mono: "parse_bytes n t c xs = Some r \<Longrightarrow> n \<le> m \<Longrightarrow> parse_bytes m t c xs = Some r"
proof (induction n arbitrary: c xs m)
  case (Suc n)
  then obtain k where "m = Suc k" "n \<le> k" by (cases m) auto
  with Suc show ?case by (auto split: sum.splits)
qed simp

lemma parse_bytes_stuck: "\<not> wants_line c \<Longrightarrow> parse_bytes n t c xs = None"
  by (induction n) (auto simp: parse_turn_def wants_line_def split: parse_state.splits)

lemma parseRequest_bytes:
  assumes "buf_wf b" "wants_line c"
  shows "\<exists>r r'. parseRequest b t c = Some r \<and> on_contents r r' \<and>
    (\<forall>n. length (contents b) < n \<longrightarrow> parse_bytes n t c (contents b) = Some r')"
proof -
  let ?n = "readableBytes b + 1"
  have len: "length (contents b) < ?n" using assms(1) by simp
  from parse_bytes_enough [OF assms(2) len] obtain r' where r': "parse_bytes ?n t c (contents b) = Some r'" by blast
  with parse_loop_refines [OF assms(1), of ?n t c] obtain r where "parse_loop ?n t c b = Some r" "on_contents r r'"
    by (auto simp: option_rel_Some2)
  moreover have "parse_bytes n t c (contents b) = Some r'" if "length (contents b) < n" for n
    using parse_bytes_mono [OF r', of n] that assms(1) by simp
  ultimately show ?thesis by (auto simp: parseRequest_def)
qed

section \<open>Requests in pieces\<close>

text \<open>The receive time aside, a turn that finds its line does not depend on what follows the line.\<close>

definition untimed :: "http_context \<Rightarrow> http_context" where
  "untimed c = c\<lparr>hx_request := (hx_request c)\<lparr>hr_receiveTime := 0\<rparr>\<rparr>"

fun untimed_res :: "(bool \<times> http_context \<times> byte list) result \<Rightarrow> (bool \<times> http_context \<times> byte list) result" where
  "untimed_res (Inl e) = Inl e"
| "untimed_res (Inr (ok, c, xs)) = Inr (ok, untimed c, xs)"

lemma setMethod_untimed:
  "setMethod m (r\<lparr>hr_receiveTime := t\<rparr>) = rbind (setMethod m r) (\<lambda>(ok, r'). Inr (ok, r'\<lparr>hr_receiveTime := t\<rparr>))"
  by (simp add: setMethod_def assert_ok_def Let_def)

lemma processTarget_untimed:
  "processTarget line (r\<lparr>hr_receiveTime := t\<rparr>) = (fst (processTarget line r), (snd (processTarget line r))\<lparr>hr_receiveTime := t\<rparr>)"
  by (simp add: processTarget_def processPath_def processVersion_def Let_def)

lemma processRequestLine_untimed:
  "processRequestLine line (r\<lparr>hr_receiveTime := t\<rparr>) =
     rbind (processRequestLine line r) (\<lambda>(ok, r'). Inr (ok, r'\<lparr>hr_receiveTime := t\<rparr>))"
proof (cases "setMethod (take (std_find 32 line) line) r")
  case (Inr x)
  then show ?thesis by (cases x) (simp add: processRequestLine_def setMethod_untimed processTarget_untimed Let_def split_def)
qed (simp add: processRequestLine_def setMethod_untimed Let_def)

lemma untimed_simps [simp]: "hx_state (untimed c) = hx_state c" "gotAll (untimed c) = gotAll c"
  "wants_line (untimed c) = wants_line c" "untimed (untimed c) = untimed c"
  by (simp_all add: untimed_def gotAll_def wants_line_def)

lemma parse_turn_untimed:
  "parse_turn 0 (untimed c) xs = (case parse_turn t c xs of Inl r \<Rightarrow> Inl (untimed_res r) | Inr (c', xs') \<Rightarrow> Inr (untimed c', xs'))"
  using processRequestLine_untimed [where r = "hx_request c" and t = 0]
  by (auto simp: parse_turn_def untimed_def addHeader_def Let_def split: parse_state.splits option.splits sum.splits)

lemma parse_bytes_untimed: "parse_bytes n 0 (untimed c) xs = map_option untimed_res (parse_bytes n t c xs)"
proof (induction n arbitrary: c xs)
  case (Suc n)
  then show ?case using parse_turn_untimed [of c xs t] by (auto split: sum.splits)
qed simp

lemma parse_turn_append:
  assumes "wants_line c"
  shows "case parse_turn t c xs of
      Inr (c', xs') \<Rightarrow> parse_turn t c (xs @ ys) = Inr (c', xs' @ ys)
    | Inl (Inr (ok, c', xs')) \<Rightarrow> ok \<and> \<not> gotAll c' \<longrightarrow> c' = c \<and> xs' = xs
    | Inl (Inl e) \<Rightarrow> parse_turn t c (xs @ ys) = Inl (Inl e)"
proof (cases "split_line xs")
  case None
  then show ?thesis using assms by (auto simp: parse_turn_def wants_line_def)
next
  case (Some lr)
  then obtain line rest where lr: "split_line xs = Some (line, rest)" by (cases lr) auto
  note split_line_append [OF this, of ys]
  then show ?thesis using assms lr
    by (auto simp: parse_turn_def wants_line_def gotAll_def Let_def split: sum.splits if_splits)
qed

lemma parse_bytes_resume:
  assumes "wants_line c" "parse_bytes n t c xs = Some (Inr (True, c1, rest))" "\<not> gotAll c1"
    "parse_bytes m t c1 (rest @ ys) = Some r"
  shows "parse_bytes (n + m) t c (xs @ ys) = Some r"
  using assms
proof (induction n arbitrary: c xs)
  case (Suc n)
  note turn = parse_turn_append [OF Suc.prems(1), of t xs ys]
  show ?case
  proof (cases "parse_turn t c xs")
    case (Inl res)
    then have "res = Inr (True, c1, rest)" using Suc.prems(2) by simp
    with Inl turn Suc.prems(3) have "c1 = c" "rest = xs" by auto
    then have "parse_bytes m t c (xs @ ys) = Some r" using Suc.prems(4) by simp
    then show ?thesis by (rule parse_bytes_mono) simp
  next
    case (Inr cx)
    then obtain c' xs' where cx: "parse_turn t c xs = Inr (c', xs')" by (cases cx) auto
    with turn have "parse_turn t c (xs @ ys) = Inr (c', xs' @ ys)" by simp
    then show ?thesis
      using Suc.IH [of c' xs'] parse_turn_more(1) [OF cx Suc.prems(1)] Suc.prems cx by simp
  qed
qed simp

text \<open>A context that stops in the middle still wants lines.\<close>

lemma parse_bytes_wants:
  "wants_line c \<Longrightarrow> parse_bytes n t c xs = Some (Inr (True, c1, rest)) \<Longrightarrow> \<not> gotAll c1 \<Longrightarrow> wants_line c1"
proof (induction n arbitrary: c xs)
  case (Suc n)
  then show ?case
    using parse_turn_append [OF Suc.prems(1), of t xs "[]"] parse_turn_more(1) [of t c xs]
    by (fastforce split: sum.splits)
qed simp

text \<open>Outcomes are the same up to the receive time and the layout of the buffer.\<close>

definition same_outcome :: "(bool \<times> http_context \<times> buffer) result \<Rightarrow> (bool \<times> http_context \<times> buffer) result \<Rightarrow> bool" where
  "same_outcome r r' \<longleftrightarrow>
     (case (r, r') of
        (Inl e, Inl e') \<Rightarrow> e = e'
      | (Inr (ok, c, b), Inr (ok', c', b')) \<Rightarrow> ok = ok' \<and> untimed c = untimed c' \<and> contents b = contents b'
      | _ \<Rightarrow> False)"

lemma same_outcomeI:
  "on_contents r x \<Longrightarrow> on_contents r' x' \<Longrightarrow> untimed_res x = untimed_res x' \<Longrightarrow> same_outcome r r'"
  by (cases r; cases r') (auto simp: on_contents_def same_outcome_def)

section \<open>Printing requests\<close>

text \<open>How a client writes a request, and when the text is unambiguous.\<close>

definition print_version :: "http_version \<Rightarrow> byte list" where
  "print_version v = ascii (if v = kHttp11 then ''HTTP/1.1'' else ''HTTP/1.0'')"

definition print_line :: "http_request \<Rightarrow> byte list" where
  "print_line r = methodString (hr_method r) @ 32 # (hr_path r @ hr_query r) @ 32 # print_version (hr_version r)"

definition print_header :: "byte list \<times> byte list \<Rightarrow> byte list" where
  "print_header kv = fst kv @ 58 # 32 # snd kv @ kCRLF"

definition print_request :: "http_request \<Rightarrow> byte list" where
  "print_request r = print_line r @ kCRLF @ concat (map print_header (hr_headers r)) @ kCRLF"

definition header_ok :: "byte list \<times> byte list \<Rightarrow> bool" where
  "header_ok kv \<longleftrightarrow> 58 \<notin> set (fst kv) \<and> 13 \<notin> set (fst kv) \<and> 13 \<notin> set (snd kv) \<and>
     (snd kv \<noteq> [] \<longrightarrow> \<not> is_space (hd (snd kv)) \<and> \<not> is_space (last (snd kv)))"

definition request_ok :: "http_request \<Rightarrow> bool" where
  "request_ok r \<longleftrightarrow> hr_method r \<noteq> kInvalid \<and> hr_version r \<noteq> kUnknown \<and> set (hr_path r) \<inter> {13, 32, 63} = {} \<and>
     set (hr_query r) \<inter> {13, 32} = {} \<and> (hr_query r \<noteq> [] \<longrightarrow> hd (hr_query r) = 63) \<and>
     (\<forall>kv\<in>set (hr_headers r). header_ok kv) \<and> sorted_wrt str_less (map fst (hr_headers r))"

lemma str_less_irrefl [simp]: "\<not> str_less x x"
  by (induction x) auto

lemma str_less_asym: "str_less x y \<Longrightarrow> \<not> str_less y x"
  by (induction x y rule: str_less.induct) auto

lemma str_map_put_last: "\<forall>k'\<in>set (map fst m). str_less k' k \<Longrightarrow> str_map_put k v m = m @ [(k, v)]"
  by (induction m) (auto dest: str_less_asym)

lemma search_no_cr: "13 \<notin> set line \<Longrightarrow> std_search kCRLF (line @ kCRLF @ rest) = length line"
  by (induction line) (auto simp: kCRLF_def)

lemma split_line_printed: "13 \<notin> set line \<Longrightarrow> split_line (line @ kCRLF @ rest) = Some (line, rest)"
  by (simp add: split_line_def search_no_cr) (simp add: kCRLF_def)

lemma trim_right_id: "v = [] \<or> \<not> is_space (last v) \<Longrightarrow> trim_right v = v"
  by (cases v rule: rev_cases) (simp_all add: trim_right_def)

lemma addHeader_printed:
  assumes "header_ok (k, v)"
  shows "std_find 58 (k @ 58 # 32 # v) = length k"
    "addHeader (k @ 58 # 32 # v) (length k) r = r\<lparr>hr_headers := str_map_put k v (hr_headers r)\<rparr>"
proof -
  show "std_find 58 (k @ 58 # 32 # v) = length k" using assms by (simp add: header_ok_def std_find_append)
  have "dropWhile is_space (32 # v) = v" using assms by (cases v) (simp_all add: header_ok_def is_space_def)
  moreover have "trim_right v = v" using trim_right_id [of v] assms by (auto simp: header_ok_def)
  ultimately show "addHeader (k @ 58 # 32 # v) (length k) r = r\<lparr>hr_headers := str_map_put k v (hr_headers r)\<rparr>"
    by (simp add: addHeader_def del: dropWhile.simps)
qed

lemma parse_headers_printed:
  assumes "\<forall>kv\<in>set hs. header_ok kv" "sorted_wrt str_less (map fst (hr_headers r @ hs))"
  shows "parse_bytes (Suc (length hs)) t \<lparr>hx_state = kExpectHeaders, hx_request = r\<rparr> (concat (map print_header hs) @ kCRLF @ rest) =
    Some (Inr (True, \<lparr>hx_state = kGotAll, hx_request = r\<lparr>hr_headers := hr_headers r @ hs\<rparr>\<rparr>, rest))"
  using assms
proof (induction hs arbitrary: r)
  case Nil
  then show ?case using split_line_printed [of "[]" rest] by (simp add: parse_turn_def Let_def)
next
  case (Cons kv hs)
  obtain k v where kv: "kv = (k, v)" by force
  let ?line = "k @ 58 # 32 # v" and ?r = "r\<lparr>hr_headers := hr_headers r @ [(k, v)]\<rparr>"
  have ok: "header_ok (k, v)" using Cons.prems(1) kv by simp
  have shape: "concat (map print_header (kv # hs)) @ kCRLF @ rest = ?line @ kCRLF @ (concat (map print_header hs) @ kCRLF @ rest)"
    by (simp add: kv print_header_def)
  have "13 \<notin> set ?line" using ok by (auto simp: header_ok_def)
  note split = split_line_printed [OF this, of "concat (map print_header hs) @ kCRLF @ rest"]
  have put: "str_map_put k v (hr_headers r) = hr_headers r @ [(k, v)]"
    by (rule str_map_put_last) (use Cons.prems(2) kv in \<open>auto simp: sorted_wrt_append\<close>)
  have "parse_turn t \<lparr>hx_state = kExpectHeaders, hx_request = r\<rparr> (concat (map print_header (kv # hs)) @ kCRLF @ rest) =
      Inr (\<lparr>hx_state = kExpectHeaders, hx_request = ?r\<rparr>, concat (map print_header hs) @ kCRLF @ rest)"
    unfolding shape using split addHeader_printed [OF ok] put by (simp add: parse_turn_def)
  then show ?case using Cons.IH [of ?r] Cons.prems kv by simp
qed

lemma methodString_plain: "32 \<notin> set (methodString m)" "13 \<notin> set (methodString m)"
  by (cases m; simp add: methodString_def)+

lemma setMethod_printed:
  "m \<noteq> kInvalid \<Longrightarrow> hr_method r = kInvalid \<Longrightarrow> setMethod (methodString m) r = Inr (True, r\<lparr>hr_method := m\<rparr>)"
  by (cases m) (simp_all add: setMethod_def methodString_def)

lemma processPath_printed:
  assumes "63 \<notin> set path" "query \<noteq> [] \<longrightarrow> hd query = 63" "hr_query r = []"
  shows "processPath (path @ query) r = r\<lparr>hr_path := path, hr_query := query\<rparr>"
proof (cases query)
  case Nil
  have "std_find 63 path = length path" using assms(1) std_find_less [of 63 path] std_find_le [of 63 path] by auto
  then show ?thesis using Nil assms(3) by (simp add: processPath_def)
next
  case (Cons q qs)
  then have "std_find 63 (path @ query) = length path" using assms(1,2) by (simp add: std_find_append)
  then show ?thesis using Cons by (simp add: processPath_def)
qed

lemma processVersion_printed: "v \<noteq> kUnknown \<Longrightarrow> processVersion (print_version v) r = (True, r\<lparr>hr_version := v\<rparr>)"
  by (cases v) (simp_all add: processVersion_def print_version_def)

lemma processRequestLine_printed:
  assumes "request_ok r"
  shows "processRequestLine (print_line r) new_HttpRequest = Inr (True, new_HttpRequest
    \<lparr>hr_method := hr_method r, hr_path := hr_path r, hr_query := hr_query r, hr_version := hr_version r\<rparr>)"
proof -
  let ?m = "methodString (hr_method r)" and ?t = "hr_path r @ hr_query r" and ?v = "print_version (hr_version r)"
  have sp: "std_find 32 (?m @ 32 # ?t @ 32 # ?v) = length ?m" using methodString_plain by (simp add: std_find_append)
  have "32 \<notin> set ?t" using assms by (auto simp: request_ok_def)
  then have tg: "std_find 32 (?t @ 32 # ?v) = length ?t" using std_find_append [of 32 ?t "32 # ?v"] by simp
  have "processTarget (?t @ 32 # ?v) r' = (True, r'\<lparr>hr_path := hr_path r, hr_query := hr_query r, hr_version := hr_version r\<rparr>)"
    if "hr_query r' = []" for r'
    using tg assms that processPath_printed [of "hr_path r" "hr_query r" r'] processVersion_printed [of "hr_version r"]
    by (simp add: processTarget_def request_ok_def)
  then show ?thesis
    using sp setMethod_printed [of "hr_method r" new_HttpRequest] assms
    by (simp add: processRequestLine_def print_line_def request_ok_def new_HttpRequest_def)
qed

lemma parse_request_printed:
  assumes "request_ok r"
  shows "parse_bytes (length (hr_headers r) + 2) t new_HttpContext (print_request r @ rest) =
    Some (Inr (True, \<lparr>hx_state = kGotAll, hx_request = r\<lparr>hr_receiveTime := t\<rparr>\<rparr>, rest))"
proof -
  let ?body = "concat (map print_header (hr_headers r)) @ kCRLF @ rest"
  let ?r = "new_HttpRequest\<lparr>hr_method := hr_method r, hr_path := hr_path r, hr_query := hr_query r, hr_version := hr_version r\<rparr>"
  have "13 \<notin> set (print_version (hr_version r))" by (simp add: print_version_def)
  then have "13 \<notin> set (print_line r)" using assms methodString_plain by (auto simp: print_line_def request_ok_def)
  from split_line_printed [OF this] have "split_line (print_request r @ rest) = Some (print_line r, ?body)"
    by (simp add: print_request_def)
  then have turn: "parse_turn t new_HttpContext (print_request r @ rest) =
      Inr (\<lparr>hx_state = kExpectHeaders, hx_request = ?r\<lparr>hr_receiveTime := t\<rparr>\<rparr>, ?body)"
    using processRequestLine_printed [OF assms] by (simp add: parse_turn_def new_HttpContext_def)
  moreover have "parse_bytes (Suc (length (hr_headers r))) t \<lparr>hx_state = kExpectHeaders, hx_request = ?r\<lparr>hr_receiveTime := t\<rparr>\<rparr> ?body =
      Some (Inr (True, \<lparr>hx_state = kGotAll, hx_request = r\<lparr>hr_receiveTime := t\<rparr>\<rparr>, rest))"
    using parse_headers_printed [of "hr_headers r" "?r\<lparr>hr_receiveTime := t\<rparr>" t rest] assms
    by (simp add: request_ok_def new_HttpRequest_def)
  ultimately show ?thesis by (simp add: numeral_2_eq_2)
qed

lemma parseRequest_printed:
  assumes "request_ok r" "buf_wf b" "contents b = print_request r @ rest"
  shows "\<exists>b'. parseRequest b t new_HttpContext =
      Some (Inr (True, \<lparr>hx_state = kGotAll, hx_request = r\<lparr>hr_receiveTime := t\<rparr>\<rparr>, b')) \<and> buf_wf b' \<and> contents b' = rest"
proof -
  have "wants_line new_HttpContext" by (simp add: wants_line_def new_HttpContext_def)
  from parseRequest_bytes [OF assms(2) this, of t] obtain x x' where x: "parseRequest b t new_HttpContext = Some x"
    "on_contents x x'" "\<And>n. length (contents b) < n \<Longrightarrow> parse_bytes n t new_HttpContext (contents b) = Some x'" by blast
  let ?n = "length (contents b) + length (hr_headers r) + 2"
  have "parse_bytes ?n t new_HttpContext (contents b) =
      Some (Inr (True, \<lparr>hx_state = kGotAll, hx_request = r\<lparr>hr_receiveTime := t\<rparr>\<rparr>, rest))"
    using parse_bytes_mono [OF parse_request_printed [OF assms(1), of t rest], of ?n] assms(3) by simp
  with x(3) [of ?n] have "x' = Inr (True, \<lparr>hx_state = kGotAll, hx_request = r\<lparr>hr_receiveTime := t\<rparr>\<rparr>, rest)" by simp
  with x(1,2) show ?thesis by (auto simp: on_contents_def split: sum.splits)
qed

lemma appendToBuffer_ok:
  assumes "2 * length (concat (response_pieces p)) \<le> vec_max - kCheapPrepend"
  shows "\<exists>b. appendToBuffer p new_buffer = Inr b \<and> contents b = concat (response_pieces p)"
  using net_buf.put_all [of new_buffer "response_pieces p"] assms by (auto simp: appendToBuffer_def)

section \<open>Properties\<close>


text \<open>C28. Parsing ends: while a request line or headers are expected, \<open>parseRequest\<close> returns on every buffer,
  after at most one turn per readable byte and one more. In the states \<open>kExpectBody\<close> and \<open>kGotAll\<close> the
  loop has no exit and never returns, whatever the buffer holds.\<close>

theorem http_parse_terminates:
  assumes "buf_wf b"
  shows "if hx_state c = kExpectRequestLine \<or> hx_state c = kExpectHeaders then parseRequest b t c \<noteq> None
    else \<forall>n. parse_loop n t c b = None"
proof (cases "wants_line c")
  case True
  then show ?thesis using parseRequest_bytes [OF assms True, of t] by (auto simp: wants_line_def)
next
  case False
  then have "parse_loop n t c b = None" for n
    using parse_loop_refines [OF assms, of n t c] parse_bytes_stuck [OF False] by simp
  then show ?thesis using False by (simp add: wants_line_def)
qed

text \<open>C29. Parsing inverts printing: a well-formed request in its wire format, followed by any bytes, is read back
  with its method, path, query, version and headers, and exactly the bytes after it are left in the
  buffer.\<close>

theorem http_request_roundtrip:
  assumes "request_ok r" "buf_wf b" "contents b = print_request r @ rest"
  shows "\<exists>c b'. parseRequest b t new_HttpContext = Some (Inr (True, c, b')) \<and> gotAll c \<and>
    hx_request c = r\<lparr>hr_receiveTime := t\<rparr> \<and> buf_wf b' \<and> contents b' = rest"
  using parseRequest_printed [OF assms, of t] by (auto simp: gotAll_def)

text \<open>One message, one request: \<open>onMessage\<close> answers the first complete request of the buffer with the bytes
  of the response, and leaves everything after it unread. A second request that arrived in the same
  message stays in the buffer, unanswered until more input arrives.\<close>

theorem http_answers_first:
  assumes "request_ok r" "buf_wf (hc_input s)" "contents (hc_input s) = print_request r @ rest"
    "hc_context s = new_HttpContext" "hc_connected s"
    "p = cb (r\<lparr>hr_receiveTime := t\<rparr>) (new_HttpResponse (request_close (r\<lparr>hr_receiveTime := t\<rparr>)))"
    "2 * length (concat (response_pieces p)) \<le> vec_max - kCheapPrepend"
  shows "\<exists>s'. http_onMessage cb t s = Some (Inr s') \<and> hc_sent s' = hc_sent s @ concat (response_pieces p) \<and>
    hc_connected s' = (\<not> hp_closeConnection p) \<and> contents (hc_input s') = rest \<and> hc_context s' = new_HttpContext"
proof -
  from parseRequest_printed [OF assms(1-3), of t] obtain b' where
    b': "parseRequest (hc_input s) t new_HttpContext =
      Some (Inr (True, \<lparr>hx_state = kGotAll, hx_request = r\<lparr>hr_receiveTime := t\<rparr>\<rparr>, b'))" "contents b' = rest" by blast
  from appendToBuffer_ok [OF assms(7)] obtain d where d: "appendToBuffer p new_buffer = Inr d" "contents d = concat (response_pieces p)"
    by blast
  show ?thesis using b' d assms(4,5) unfolding assms(6)
    by (auto simp: http_onMessage_def http_onRequest_def gotAll_def http_send_def http_shutdown_def context_reset_def
        new_HttpContext_def Let_def)
qed

text \<open>A client can abort the server: a request line with a known method but a malformed rest (say
  \<open>GET / HTTP/2.0\<close>) is answered with 400 and stays in the buffer, while the context keeps the method.
  Any further bytes on the connection make \<open>setMethod\<close> run again on the same line, and its assertion
  that no method has been set fails.\<close>

theorem http_bad_line_aborts:
  assumes "buf_wf (hc_input s)" "contents (hc_input s) = line @ kCRLF @ rest" "13 \<notin> set line" "hc_context s = new_HttpContext"
    "processRequestLine line new_HttpRequest = Inr (False, r)" "hr_method r \<noteq> kInvalid"
    "buf_wf b" "contents b = line @ kCRLF @ rest @ extra"
  shows "\<exists>s'. http_onMessage cb t s = Some (Inr s') \<and> hc_input s' = hc_input s \<and> \<not> hc_connected s' \<and>
    http_onMessage cb t' (s'\<lparr>hc_input := b\<rparr>) = Some (Inl AssertFail)"
proof -
  have line: "findCRLF x \<noteq> None \<and> subrange (peek x) (the (findCRLF x)) (buffer_data x) = line"
    if "buf_wf x" "contents x = line @ kCRLF @ ys" for x ys
    using findCRLF_split [OF that(1)] split_line_printed [OF assms(3), of ys] that(2) by auto
  let ?c = "\<lparr>hx_state = kExpectRequestLine, hx_request = r\<rparr>"
  let ?s = "http_shutdown (http_send bad_request (s\<lparr>hc_context := ?c\<rparr>))"
  have "parseRequest (hc_input s) t new_HttpContext = Some (Inr (False, ?c, hc_input s))"
    using line [OF assms(1,2)] assms(5) by (auto simp: parseRequest_def new_HttpContext_def)
  then have 1: "http_onMessage cb t s = Some (Inr ?s)"
    using assms(4) by (simp add: http_onMessage_def gotAll_def)
  have space: "std_find 32 line \<noteq> length line"
    using assms(5,6) by (auto simp: processRequestLine_def Let_def new_HttpRequest_def split: if_splits)
  have "processRequestLine line r = Inl AssertFail"
    using space assms(6) by (simp add: processRequestLine_def setMethod_def)
  then have "parseRequest b t' ?c = Some (Inl AssertFail)"
    using line [of b "rest @ extra"] assms(7,8) by (auto simp: parseRequest_def)
  moreover have "hc_context ?s = ?c" "hc_input ?s = hc_input s" "\<not> hc_connected ?s"
    by (simp_all add: http_shutdown_def http_send_def)
  ultimately show ?thesis using 1 by (intro exI [of _ ?s]) (simp add: http_onMessage_def)
qed

text \<open>The response on the wire: the status line, for a connection that stays open a \<open>Content-Length\<close> that is
  the exact size of the body, the headers in the order of their names, an empty line and the body. The
  fixed buffer of 32 bytes holds each formatted line for bodies below \<open>10^13\<close> bytes.\<close>

theorem http_response_format:
  assumes "length (hp_body p) < 10 ^ 13" "\<bar>hp_statusCode p\<bar> < 2 ^ 31 + 1"
  shows "concat (response_pieces p) = ascii (''HTTP/1.1 '' @ dec_int (hp_statusCode p) @ '' '') @ hp_statusMessage p @ kCRLF @
    (if hp_closeConnection p then ascii ''Connection: close'' @ kCRLF
     else ascii (''Content-Length: '' @ dec_nat (length (hp_body p))) @ kCRLF @ ascii ''Connection: Keep-Alive'' @ kCRLF) @
    concat (map print_header (hp_headers p)) @ kCRLF @ hp_body p"
proof -
  let ?n = "length (hp_body p)"
  have "length (dec_int (hp_statusCode p)) \<le> 11" using assms(2) by (rule length_dec_int)
  then have 1: "snprintf_text 32 (''HTTP/1.1 '' @ dec_int (hp_statusCode p) @ '' '') = ''HTTP/1.1 '' @ dec_int (hp_statusCode p) @ '' ''"
    by (intro snprintf_text_fits) simp
  have "sint (of_nat ?n :: 64 word) = int ?n"
    using assms(1) by (intro ssize_id) simp
  moreover have "length (dec_nat ?n) \<le> 13" using assms(1) by (rule length_dec_nat) simp
  moreover have "concat (concat (map (\<lambda>(k, v). [k, ascii '': '', v, kCRLF]) hs)) = concat (map print_header hs)" for hs
    by (induction hs) (auto simp: print_header_def)
  ultimately show ?thesis using 1 by (simp add: response_pieces_def dec_int_def kCRLF_def)
qed

subsection \<open>Witnesses\<close>

definition demo_request :: http_request where
  "demo_request = \<lparr>hr_method = kGet, hr_version = kHttp11, hr_path = ascii ''/index'', hr_query = ascii ''?x=1'', hr_receiveTime = 0,
     hr_headers = [(ascii ''Accept'', ascii ''text/plain''), (ascii ''Host'', ascii ''a.org'')]\<rparr>"

lemma demo_request_ok: "request_ok demo_request"
  by (simp add: request_ok_def demo_request_def header_ok_def is_space_def)

lemma filled_buffer:
  assumes "2 * length d \<le> vec_max - kCheapPrepend"
  obtains b where "append d new_buffer = Inr b" "buf_wf b" "contents b = d"
  using net_buf.put_total_ok [of new_buffer d] assms by auto

lemma demo_request_length: "length (print_request demo_request) \<le> 100"
  by (simp add: print_request_def print_line_def print_version_def print_header_def demo_request_def methodString_def kCRLF_def)

theorem http_request_roundtrip_witness:
  "\<exists>b c b'. append (print_request demo_request @ [1, 2]) new_buffer = Inr b \<and>
     parseRequest b 7 new_HttpContext = Some (Inr (True, c, b')) \<and> hx_request c = demo_request\<lparr>hr_receiveTime := 7\<rparr> \<and> contents b' = [1, 2]"
proof -
  obtain b where b: "append (print_request demo_request @ [1, 2]) new_buffer = Inr b" "buf_wf b" "contents b = print_request demo_request @ [1, 2]"
    by (rule filled_buffer [of "print_request demo_request @ [1, 2]"])
      (use demo_request_length in \<open>simp_all add: vec_max_def kCheapPrepend_def\<close>)
  from http_request_roundtrip [OF demo_request_ok b(2,3), of 7] b(1) show ?thesis by blast
qed


theorem http_parse_terminates_witness:
  "parseRequest new_buffer 0 new_HttpContext \<noteq> None \<and> parse_loop 5 0 (new_HttpContext\<lparr>hx_state := kGotAll\<rparr>) new_buffer = None"
  using http_parse_terminates [of new_buffer new_HttpContext 0]
    http_parse_terminates [of new_buffer "new_HttpContext\<lparr>hx_state := kGotAll\<rparr>" 0]
  by (simp add: new_HttpContext_def)

text \<open>Two requests in one message; the second one waits.\<close>

theorem http_answers_first_witness:
  "\<exists>b s'. append (print_request demo_request @ print_request demo_request) new_buffer = Inr b \<and>
     http_onMessage defaultHttpCallback 7 \<lparr>hc_context = new_HttpContext, hc_input = b, hc_sent = [], hc_connected = True\<rparr> = Some (Inr s') \<and>
     contents (hc_input s') = print_request demo_request"
proof -
  obtain b where b: "append (print_request demo_request @ print_request demo_request) new_buffer = Inr b" "buf_wf b"
    "contents b = print_request demo_request @ print_request demo_request"
    by (rule filled_buffer [of "print_request demo_request @ print_request demo_request"])
      (use demo_request_length in \<open>simp_all add: vec_max_def kCheapPrepend_def\<close>)
  let ?s = "\<lparr>hc_context = new_HttpContext, hc_input = b, hc_sent = [], hc_connected = True\<rparr>"
  let ?r = "demo_request\<lparr>hr_receiveTime := 7\<rparr>"
  let ?p = "defaultHttpCallback ?r (new_HttpResponse (request_close ?r))"
  have "dec_int 404 = ''404''" by (simp add: dec_int_def dec_nat_rec dec_nat_digit)
  then have "length (concat (response_pieces ?p)) \<le> 100"
    by (simp add: response_pieces_def defaultHttpCallback_def new_HttpResponse_def snprintf_text_def kCRLF_def)
  then have "2 * length (concat (response_pieces ?p)) \<le> vec_max - kCheapPrepend" by (simp add: vec_max_def kCheapPrepend_def)
  from http_answers_first [of demo_request ?s _ ?p defaultHttpCallback 7, OF demo_request_ok _ _ _ _ refl this] b show ?thesis by auto
qed

theorem http_bad_line_aborts_witness:
  "\<exists>b1 b2 s'. append (ascii ''GET / HTTP/2.0'' @ kCRLF) new_buffer = Inr b1 \<and> append (ascii ''GET / HTTP/2.0'' @ kCRLF @ [65]) new_buffer = Inr b2 \<and>
     http_onMessage defaultHttpCallback 7 \<lparr>hc_context = new_HttpContext, hc_input = b1, hc_sent = [], hc_connected = True\<rparr> = Some (Inr s') \<and>
     http_onMessage defaultHttpCallback 8 (s'\<lparr>hc_input := b2\<rparr>) = Some (Inl AssertFail)"
proof -
  let ?line = "ascii ''GET / HTTP/2.0''"
  obtain b1 where b1: "append (?line @ kCRLF) new_buffer = Inr b1" "buf_wf b1" "contents b1 = ?line @ kCRLF"
    by (rule filled_buffer [of "?line @ kCRLF"]) (simp_all add: vec_max_def kCheapPrepend_def kCRLF_def)
  obtain b2 where b2: "append (?line @ kCRLF @ [65]) new_buffer = Inr b2" "buf_wf b2" "contents b2 = ?line @ kCRLF @ [65]"
    by (rule filled_buffer [of "?line @ kCRLF @ [65]"]) (simp_all add: vec_max_def kCheapPrepend_def kCRLF_def)
  let ?s = "\<lparr>hc_context = new_HttpContext, hc_input = b1, hc_sent = [], hc_connected = True\<rparr>"
  have "processRequestLine ?line new_HttpRequest = Inr (False, new_HttpRequest\<lparr>hr_method := kGet, hr_path := ascii ''/''\<rparr>)"
    by (simp add: processRequestLine_def processTarget_def processPath_def processVersion_def setMethod_def new_HttpRequest_def)
  from http_bad_line_aborts [of ?s ?line "[]" _ b2 "[65]" defaultHttpCallback 7 8, OF _ _ _ _ this] b1 b2 show ?thesis by auto
qed

theorem http_response_format_witness:
  "concat (response_pieces ((new_HttpResponse False)\<lparr>hp_statusCode := 200, hp_statusMessage := ascii ''OK'', hp_body := [65, 66]\<rparr>)) =
     ascii ''HTTP/1.1 200 OK'' @ kCRLF @ ascii ''Content-Length: 2'' @ kCRLF @ ascii ''Connection: Keep-Alive'' @ kCRLF @ kCRLF @ [65, 66]"
  using http_response_format [of "(new_HttpResponse False)\<lparr>hp_statusCode := 200, hp_statusMessage := ascii ''OK'', hp_body := [65, 66]\<rparr>"]
  by (simp add: new_HttpResponse_def dec_int_def dec_nat_rec dec_nat_digit)

end
