(* ===== verification/Protobuf_Codec.thy ===== *)
theory Protobuf_Codec
  imports Tcp_Connection "HOL-Library.Sublist"
begin

text \<open>
  The framing of protobuf messages (\<open>src/muduo/net/protobuf/ProtobufCodecLite.h\<close> and \<open>.cc\<close>): a length, a
  tag, the payload and a checksum, written to and read from the buffer of \<open>Net_Buffer\<close>. The protobuf
  library and zlib's \<open>adler32\<close> are parameters, gathered in a record.
\<close>

section \<open>Parameters and constants\<close>

record 'm protobuf_lib =
  pb_initialized :: "'m \<Rightarrow> bool"             \<comment> \<open>\<open>IsInitialized\<close>\<close>
  pb_byteSize :: "'m \<Rightarrow> nat"                \<comment> \<open>\<open>ByteSizeLong\<close>\<close>
  pb_serialize :: "'m \<Rightarrow> byte list"           \<comment> \<open>\<open>SerializeWithCachedSizesToArray\<close>\<close>
  pb_parse :: "byte list \<Rightarrow> 'm option"        \<comment> \<open>\<open>ParseFromArray\<close>\<close>
  zlib_adler32 :: "byte list \<Rightarrow> 32 word"

datatype codec_error = kNoError | kInvalidLength | kCheckSumError | kInvalidNameLen | kUnknownMessageType | kParseError

definition kHeaderLen :: nat where "kHeaderLen = 4"
definition kChecksumLen :: nat where "kChecksumLen = 4"
definition kMaxMessageLen :: int where "kMaxMessageLen = 64 * 1024 * 1024"

text \<open>The codec: its tag, the raw callback if set, and whether the error callback is set.\<close>

record codec =
  cd_tag :: "byte list"
  cd_rawCb :: "(byte list \<Rightarrow> bool) option"
  cd_errorCallback :: bool

definition kMinMessageLen :: "codec \<Rightarrow> nat" where
  "kMinMessageLen cd = length (cd_tag cd) + kChecksumLen"

text \<open>
  The constructors: \<open>ProtobufCodecLite\<close> falls back to \<open>defaultErrorCallback\<close>; the template
  \<open>ProtobufCodecLiteT\<close> passes an empty function on when it is given no error callback.
\<close>

definition new_codec :: "byte list \<Rightarrow> codec" where
  "new_codec tag = \<lparr>cd_tag = tag, cd_rawCb = None, cd_errorCallback = True\<rparr>"

definition new_codecT :: "byte list \<Rightarrow> bool \<Rightarrow> codec" where
  "new_codecT tag errorCb = \<lparr>cd_tag = tag, cd_rawCb = None, cd_errorCallback = errorCb\<rparr>"

definition errorCodeToString :: "codec_error \<Rightarrow> string" where
  "errorCodeToString e = (case e of kNoError \<Rightarrow> ''NoError'' | kInvalidLength \<Rightarrow> ''InvalidLength''
     | kCheckSumError \<Rightarrow> ''CheckSumError'' | kInvalidNameLen \<Rightarrow> ''InvalidNameLen''
     | kUnknownMessageType \<Rightarrow> ''UnknownMessageType'' | kParseError \<Rightarrow> ''ParseError'')"

section \<open>Writing\<close>

text \<open>
  \<open>serializeToBuffer\<close>: the check of required fields and \<open>ByteSizeConsistencyError\<close> are fatal; bytes
  beyond the vector are out of bounds.
\<close>

definition serializeToBuffer :: "'m protobuf_lib \<Rightarrow> 'm \<Rightarrow> buffer \<Rightarrow> (int \<times> buffer) result" where
  "serializeToBuffer lib m b =
     (if \<not> pb_initialized lib m then Inl FatalLog else
      let byte_size = sint (of_nat (pb_byteSize lib m) :: 32 word);
          need = sint (of_int (byte_size + int kChecksumLen) :: 32 word) in
      rbind (ensureWritableBytes (nat (need mod 2 ^ 64)) b) (\<lambda>b1.
        let d = pb_serialize lib m in
        if writableBytes b1 < length d then Inl OutOfBounds
        else if int (length d) \<noteq> byte_size then Inl FatalLog
        else rbind (hasWritten (nat (byte_size mod 2 ^ 64))
                (b1\<lparr>buffer_data := overwrite (beginWrite b1) d (buffer_data b1)\<rparr>)) (\<lambda>b2.
          Inr (byte_size, b2))))"

definition codec_checksum :: "'m protobuf_lib \<Rightarrow> byte list \<Rightarrow> 32 word" where
  "codec_checksum lib bs = zlib_adler32 lib bs"

definition fillEmptyBuffer :: "host_order \<Rightarrow> 'm protobuf_lib \<Rightarrow> codec \<Rightarrow> 'm \<Rightarrow> buffer \<Rightarrow> buffer result" where
  "fillEmptyBuffer h lib cd m b =
     assert_ok (readableBytes b = 0)
       (rbind (append (cd_tag cd) b) (\<lambda>b1.
        rbind (serializeToBuffer lib m b1) (\<lambda>(byte_size, b2).
        rbind (appendInt32 h (codec_checksum lib (contents b2)) b2) (\<lambda>b3.
        assert_ok (int (readableBytes b3) = int (length (cd_tag cd)) + byte_size + int kChecksumLen)
          (prepend (obj_bytes h (hostToNetwork32 h (of_nat (readableBytes b3)))) b3)))))"

definition codec_send :: "host_order \<Rightarrow> 'm protobuf_lib \<Rightarrow> codec \<Rightarrow> write_result \<Rightarrow> 'm \<Rightarrow> tcp_conn \<Rightarrow> tcp_conn result" where
  "codec_send h lib cd w m s =
     rbind (fillEmptyBuffer h lib cd m new_buffer) (\<lambda>buf. rbind (send_buffer w buf s) (\<lambda>(buf', s'). Inr s'))"

section \<open>Reading\<close>

definition defaultErrorCallback :: "codec_error \<Rightarrow> tcp_conn \<Rightarrow> tcp_conn result" where
  "defaultErrorCallback e s = (if tc_state s = kConnected then shutdown s else Inr s)"

definition asInt32 :: "host_order \<Rightarrow> byte list \<Rightarrow> 32 word" where
  "asInt32 h bs = networkToHost32 h (obj_word h bs)"

definition validateChecksum :: "host_order \<Rightarrow> 'm protobuf_lib \<Rightarrow> byte list \<Rightarrow> bool" where
  "validateChecksum h lib bs =
     (asInt32 h (drop (length bs - kChecksumLen) bs) = codec_checksum lib (take (length bs - kChecksumLen) bs))"

definition codec_parse :: "host_order \<Rightarrow> 'm protobuf_lib \<Rightarrow> codec \<Rightarrow> byte list \<Rightarrow> codec_error + 'm" where
  "codec_parse h lib cd bs =
     (if validateChecksum h lib bs then
        if take (length (cd_tag cd)) bs = cd_tag cd then
          (let data = drop (length (cd_tag cd)) bs;
               datalen = length bs - kChecksumLen - length (cd_tag cd)
           in case pb_parse lib (take datalen data) of Some m \<Rightarrow> Inr m | None \<Rightarrow> Inl kParseError)
        else Inl kUnknownMessageType
      else Inl kCheckSumError)"

text \<open>\<open>errorCallback_\<close>: calling an empty \<open>boost::function\<close> throws.\<close>

definition report :: "codec \<Rightarrow> codec_error \<Rightarrow> 'm list \<Rightarrow> buffer \<Rightarrow> ('m list \<times> codec_error option \<times> buffer) result" where
  "report cd e ms b = (if cd_errorCallback cd then Inr (ms, Some e, b) else Inl BadCallback)"

text \<open>
  \<open>onMessage\<close>: the messages handed to the callback are collected in \<open>ms\<close>; the error, if the error
  callback has been called, and the buffer are returned.
\<close>

lemma retrieve_smaller:
  "retrieve (kHeaderLen + n) b = Inr b' \<Longrightarrow> kHeaderLen + n \<le> readableBytes b \<Longrightarrow> readableBytes b' < readableBytes b"
  by (auto simp: retrieve_def retrieveAll_def readableBytes_def kHeaderLen_def split: if_splits)

function codec_onMessage :: "host_order \<Rightarrow> 'm protobuf_lib \<Rightarrow> codec \<Rightarrow> 'm list \<Rightarrow> buffer \<Rightarrow>
    ('m list \<times> codec_error option \<times> buffer) result" where
  "codec_onMessage h lib cd ms b =
     (if kMinMessageLen cd + kHeaderLen \<le> readableBytes b then
        rbind (peekInt32 h b) (\<lambda>w.
        if kMaxMessageLen < sint w \<or> sint w < int (kMinMessageLen cd) then report cd kInvalidLength ms b
        else if kHeaderLen + nat (sint w) \<le> readableBytes b then
          let frame = take (kHeaderLen + nat (sint w)) (contents b) in
          if (case cd_rawCb cd of None \<Rightarrow> True | Some raw \<Rightarrow> raw frame) then
            (case codec_parse h lib cd (drop kHeaderLen frame) of
               Inr m \<Rightarrow> rbind (retrieve (kHeaderLen + nat (sint w)) b) (codec_onMessage h lib cd (ms @ [m]))
             | Inl e \<Rightarrow> report cd e ms b)
          else rbind (retrieve (kHeaderLen + nat (sint w)) b) (\<lambda>b'. Inr (ms, None, b'))
        else Inr (ms, None, b))
      else Inr (ms, None, b))"
  by pat_completeness auto

termination
  by (relation "measure (\<lambda>(h, lib, cd, ms, b). readableBytes b)") (auto dest: retrieve_smaller)

declare codec_onMessage.simps [simp del]

section \<open>The wire format\<close>

definition codec_body :: "'m protobuf_lib \<Rightarrow> codec \<Rightarrow> 'm \<Rightarrow> byte list" where
  "codec_body lib cd m = cd_tag cd @ pb_serialize lib m"

definition codec_frame :: "'m protobuf_lib \<Rightarrow> codec \<Rightarrow> 'm \<Rightarrow> byte list" where
  "codec_frame lib cd m =
     be_bytes (of_nat (length (codec_body lib cd m) + kChecksumLen) :: 32 word) @ codec_body lib cd m @
     be_bytes (codec_checksum lib (codec_body lib cd m))"

definition sendable :: "'m protobuf_lib \<Rightarrow> codec \<Rightarrow> 'm \<Rightarrow> bool" where
  "sendable lib cd m \<longleftrightarrow> int (length (codec_body lib cd m) + kChecksumLen) \<le> kMaxMessageLen \<and>
     pb_initialized lib m \<and> pb_byteSize lib m = length (pb_serialize lib m) \<and>
     pb_parse lib (pb_serialize lib m) = Some m"

lemma be_bytes_32 [simp]: "length (be_bytes (x :: 32 word)) = 4"
  by simp

lemma parse_frame:
  assumes "sendable lib cd m"
  shows "codec_parse h lib cd (codec_body lib cd m @ be_bytes (codec_checksum lib (codec_body lib cd m))) = Inr m"
  using assms
  by (simp add: codec_parse_def validateChecksum_def asInt32_def kChecksumLen_def codec_body_def sendable_def Let_def)


text \<open>The header room of a buffer is not given up by writing to it.\<close>

lemma ensureWritable_header:
  "ensureWritableBytes n b = Inr b' \<Longrightarrow> kCheapPrepend \<le> readerIndex b \<Longrightarrow> kCheapPrepend \<le> readerIndex b'"
  by (auto simp: ensureWritableBytes_def makeSpace_def Let_def res_simps split: if_splits)

lemma append_header:
  "append d b = Inr b' \<Longrightarrow> kCheapPrepend \<le> readerIndex b \<Longrightarrow> kCheapPrepend \<le> readerIndex b'"
  by (auto simp: append_def append_len_def hasWritten_def res_simps dest: ensureWritable_header split: if_splits)

lemma serializeToBuffer_ok:
  assumes "sendable lib cd m" "buf_wf b" "readableBytes b \<le> 2 ^ 26" "kCheapPrepend \<le> readerIndex b"
  shows "\<exists>b'. serializeToBuffer lib m b = Inr (int (length (pb_serialize lib m)), b') \<and>
    writes_ok (pb_serialize lib m) b b' \<and> kCheapPrepend \<le> readerIndex b'"
proof -
  let ?d = "pb_serialize lib m"
  have n: "length ?d \<le> 2 ^ 26"
    using assms(1) by (simp add: sendable_def codec_body_def kMaxMessageLen_def)
  have sz: "sint (of_nat (pb_byteSize lib m) :: 32 word) = int (length ?d)"
    using int32_id [of "int (length ?d)"] n assms(1) by (simp add: sendable_def)
  have need: "sint (of_int (int (length ?d) + int kChecksumLen) :: 32 word) = int (length ?d + kChecksumLen)"
    using int32_id [of "int (length ?d + kChecksumLen)"] n by (simp add: kChecksumLen_def)
  let ?n = "length ?d + kChecksumLen"
  have "append_fits ?n b" using n assms
    by (intro append_fits_small) (simp_all add: kChecksumLen_def vec_max_def kCheapPrepend_def)
  then obtain b1 where b1: "ensureWritableBytes ?n b = Inr b1" "has_room ?n b b1"
    using ensureWritable_room [OF assms(2), of ?n] by (auto simp: append_fits_def)
  then have room: "has_room (length ?d) b b1" by (simp add: has_room_def)
  from append_after_room [OF room] obtain b2 where b2: "hasWritten (length ?d)
      (b1\<lparr>buffer_data := overwrite (beginWrite b1) ?d (buffer_data b1)\<rparr>) = Inr b2" "writes_ok ?d b b2" by auto
  have "kCheapPrepend \<le> readerIndex b2"
    using ensureWritable_header [OF b1(1) assms(4)] b2(1) by (auto simp: hasWritten_def res_simps split: if_splits)
  moreover have wrap: "nat (int ?n mod 2 ^ 64) = ?n" "nat (int (length ?d) mod 2 ^ 64) = length ?d"
    using n by (simp_all add: kChecksumLen_def nat_mod_distrib)
  moreover have "pb_initialized lib m" "length ?d \<le> writableBytes b1"
    using assms(1) room by (simp_all add: sendable_def has_room_def)
  ultimately show ?thesis using b1(1) b2
    unfolding serializeToBuffer_def Let_def sz need wrap by simp
qed

lemma fillEmptyBuffer_frame:
  assumes "sendable lib cd m"
  shows "\<exists>b. fillEmptyBuffer h lib cd m new_buffer = Inr b \<and> buf_wf b \<and> contents b = codec_frame lib cd m"
proof -
  note lim = vec_max_def kCheapPrepend_def
  have n: "length (cd_tag cd) + length (pb_serialize lib m) + 4 \<le> 2 ^ 26"
    using assms by (simp add: sendable_def codec_body_def kMaxMessageLen_def kChecksumLen_def)
  obtain b1 where b1: "append (cd_tag cd) new_buffer = Inr b1" "buf_wf b1" "contents b1 = cd_tag cd"
    using net_buf.put_total_ok [OF buf_wf_new, of "cd_tag cd"] n by (auto simp: lim)
  have h1: "kCheapPrepend \<le> readerIndex b1" using append_header [OF b1(1)] by (simp add: new_buffer_def)
  have r1: "readableBytes b1 = length (cd_tag cd)" using length_contents [OF b1(2)] b1(3) by simp
  then obtain b2 where b2: "serializeToBuffer lib m b1 = Inr (int (length (pb_serialize lib m)), b2)"
    "buf_wf b2" "contents b2 = codec_body lib cd m" "kCheapPrepend \<le> readerIndex b2"
    using serializeToBuffer_ok [OF assms b1(2) _ h1] n b1(3) by (auto simp: writes_ok_def codec_body_def)
  let ?sum = "be_bytes (codec_checksum lib (codec_body lib cd m))"
  have "length (contents b2) + 2 * length ?sum \<le> vec_max - kCheapPrepend"
    unfolding b2(3) using n by (simp add: codec_body_def lim)
  then obtain b3 where b3: "append ?sum b2 = Inr b3" "buf_wf b3" "contents b3 = codec_body lib cd m @ ?sum"
    using net_buf.put_total_ok [OF b2(2), of ?sum] b2(3) by auto
  have h3: "kCheapPrepend \<le> readerIndex b3" by (rule append_header [OF b3(1) b2(4)])
  have r3: "readableBytes b3 = length (codec_body lib cd m) + kChecksumLen"
    using length_contents [OF b3(2)] b3(3) by (simp add: kChecksumLen_def)
  let ?len = "be_bytes (of_nat (readableBytes b3) :: 32 word)"
  have "length ?len \<le> prependableBytes b3" using h3 by (simp add: prependableBytes_def kCheapPrepend_def)
  from prepend_ok [OF b3(2) this] obtain b4 where
    "prepend ?len b3 = Inr b4" "buf_wf b4" "contents b4 = codec_frame lib cd m"
    by (auto simp: b3(3) r3 codec_frame_def)
  moreover have "readableBytes new_buffer = 0" by (simp add: readableBytes_def new_buffer_def)
  ultimately show ?thesis using b1 b2 b3 r3
    by (simp add: fillEmptyBuffer_def appendInt32_def codec_body_def)
qed

text \<open>One turn of the loop of \<open>onMessage\<close> on a complete frame.\<close>

lemma frame_len:
  assumes "sendable lib cd m"
  shows "sint (of_nat (length (codec_body lib cd m) + kChecksumLen) :: 32 word) =
    int (length (codec_body lib cd m) + kChecksumLen)"
  using int32_id [of "int (length (codec_body lib cd m) + kChecksumLen)"] assms
  by (simp add: sendable_def kMaxMessageLen_def)

lemma length_frame:
  "length (codec_frame lib cd m) = kHeaderLen + (length (codec_body lib cd m) + kChecksumLen)"
  by (simp add: codec_frame_def kHeaderLen_def kChecksumLen_def)

lemma onMessage_frame:
  assumes wf: "buf_wf b" and c: "contents b = codec_frame lib cd m @ rest" and ok: "sendable lib cd m"
    and raw: "cd_rawCb cd = None"
  shows "\<exists>b'. buf_wf b' \<and> contents b' = rest \<and>
    codec_onMessage h lib cd ms b = codec_onMessage h lib cd (ms @ [m]) b'"
proof -
  let ?n = "length (codec_body lib cd m) + kChecksumLen"
  have len: "readableBytes b = kHeaderLen + ?n + length rest"
    using length_contents [OF wf] c by (simp add: length_frame)
  have head: "peekInt32 h b = Inr (of_nat ?n)"
    using peekInt32_contents [OF wf, of h] c len by (simp add: codec_frame_def kHeaderLen_def)
  have body: "drop kHeaderLen (take (kHeaderLen + ?n) (contents b)) =
      codec_body lib cd m @ be_bytes (codec_checksum lib (codec_body lib cd m))"
    using c by (simp add: codec_frame_def kHeaderLen_def kChecksumLen_def)
  have room: "kMinMessageLen cd + kHeaderLen \<le> readableBytes b" "kMinMessageLen cd \<le> ?n"
    using len by (simp_all add: kMinMessageLen_def codec_body_def)
  have small: "int ?n \<le> kMaxMessageLen" using ok by (simp add: sendable_def)
  from retrieve_ok [OF wf, of "kHeaderLen + ?n"] len c obtain b' where
    b': "retrieve (kHeaderLen + ?n) b = Inr b'" "buf_wf b'" "contents b' = rest"
    by (auto simp: length_frame)
  have "codec_onMessage h lib cd ms b = codec_onMessage h lib cd (ms @ [m]) b'"
    using room small len b'(1) raw
    by (subst codec_onMessage.simps) (simp only: head frame_len [OF ok] body parse_frame [OF ok]
        Let_def nat_int rbind_simps sum.case option.case if_True if_False, simp)
  with b' show ?thesis by blast
qed

lemma onMessage_partial:
  assumes wf: "buf_wf b" and c: "strict_prefix (contents b) (codec_frame lib cd m)" and ok: "sendable lib cd m"
  shows "codec_onMessage h lib cd ms b = Inr (ms, None, b)"
proof (cases "kMinMessageLen cd + kHeaderLen \<le> readableBytes b")
  case True
  let ?n = "length (codec_body lib cd m) + kChecksumLen"
  have len: "readableBytes b < kHeaderLen + ?n"
    using prefix_length_less [OF c] wf by (simp add: length_frame)
  have "take 4 (contents b) = take 4 (codec_frame lib cd m)"
    using c True length_contents [OF wf] by (auto simp: strict_prefix_def prefix_def kHeaderLen_def)
  then have head: "peekInt32 h b = Inr (of_nat ?n)"
    using peekInt32_contents [OF wf, of h] True by (simp add: codec_frame_def kHeaderLen_def)
  have "kMinMessageLen cd \<le> ?n" "int ?n \<le> kMaxMessageLen"
    using ok by (simp_all add: kMinMessageLen_def codec_body_def sendable_def)
  then show ?thesis using True len
    by (subst codec_onMessage.simps) (simp only: head frame_len [OF ok] nat_int rbind_simps, simp)
next
  case False
  then show ?thesis by (subst codec_onMessage.simps) simp
qed

text \<open>Bytes that are not yet a frame.\<close>

definition incomplete :: "'m protobuf_lib \<Rightarrow> codec \<Rightarrow> byte list \<Rightarrow> bool" where
  "incomplete lib cd rest \<longleftrightarrow> rest = [] \<or> (\<exists>m. sendable lib cd m \<and> strict_prefix rest (codec_frame lib cd m))"

lemma onMessage_incomplete:
  assumes "buf_wf b" "incomplete lib cd (contents b)"
  shows "codec_onMessage h lib cd ms b = Inr (ms, None, b)"
proof (cases "contents b = []")
  case True
  then have "readableBytes b = 0" using length_contents [OF assms(1)] by simp
  then show ?thesis by (subst codec_onMessage.simps) (simp add: kHeaderLen_def)
next
  case False
  then show ?thesis using assms onMessage_partial [OF assms(1)] by (auto simp: incomplete_def)
qed

lemma onMessage_frames:
  assumes "buf_wf b" "contents b = concat (map (codec_frame lib cd) ms) @ rest" "\<forall>m\<in>set ms. sendable lib cd m"
    "cd_rawCb cd = None" "incomplete lib cd rest"
  shows "\<exists>b'. codec_onMessage h lib cd acc b = Inr (acc @ ms, None, b') \<and> buf_wf b' \<and> contents b' = rest"
  using assms(1-3)
proof (induction ms arbitrary: acc b)
  case Nil
  then show ?case using onMessage_incomplete [of b lib cd] assms(5) by simp
next
  case (Cons m ms)
  then obtain b1 where "buf_wf b1" "contents b1 = concat (map (codec_frame lib cd) ms) @ rest"
    "codec_onMessage h lib cd acc b = codec_onMessage h lib cd (acc @ [m]) b1"
    using onMessage_frame [of b lib cd m "concat (map (codec_frame lib cd) ms) @ rest" h acc] assms(4) by auto
  with Cons.IH [of b1 "acc @ [m]"] Cons.prems(3) show ?case by simp
qed

section \<open>Properties\<close>

text \<open>A concrete library for the witnesses: messages are byte lists, a constant checksum.\<close>

definition bytes_lib :: "byte list protobuf_lib" where
  "bytes_lib = \<lparr>pb_initialized = (\<lambda>_. True), pb_byteSize = length, pb_serialize = id, pb_parse = Some,
     zlib_adler32 = (\<lambda>bs. of_nat (length bs))\<rparr>"

definition rpc_tag :: "byte list" where "rpc_tag = ascii ''RPC0''"

lemma bytes_lib_sendable: "length m \<le> 1000 \<Longrightarrow> sendable bytes_lib (new_codec rpc_tag) m"
  by (simp add: sendable_def bytes_lib_def new_codec_def codec_body_def rpc_tag_def kMaxMessageLen_def kChecksumLen_def)

text \<open>C7. Messages cross the wire: every sendable message can be framed (no assertion fails, the length
  fits into the reserved header room), and a receiver that finds these frames in its buffer, followed
  by any incomplete part of a further frame, hands exactly these messages to the callback, in order,
  reports no error and leaves the incomplete part in the buffer; sender and receiver may have
  different byte orders.\<close>

theorem codec_roundtrip:
  assumes "\<forall>m\<in>set ms. sendable lib cd m" "cd_rawCb cd = None"
    and "strict_prefix rest (codec_frame lib cd m')" "sendable lib cd m'"
  shows "\<exists>bufs. list_all2 (\<lambda>m buf. fillEmptyBuffer h lib cd m new_buffer = Inr buf) ms bufs \<and>
    (\<forall>b. buf_wf b \<and> contents b = concat (map contents bufs) @ rest \<longrightarrow>
      (\<exists>b'. codec_onMessage h' lib cd [] b = Inr (ms, None, b') \<and> buf_wf b' \<and> contents b' = rest))"
proof -
  from assms(1) have "\<exists>bufs. list_all2 (\<lambda>m buf. fillEmptyBuffer h lib cd m new_buffer = Inr buf) ms bufs \<and>
      map contents bufs = map (codec_frame lib cd) ms"
  proof (induction ms)
    case (Cons m ms)
    then obtain bufs where "list_all2 (\<lambda>m buf. fillEmptyBuffer h lib cd m new_buffer = Inr buf) ms bufs"
      "map contents bufs = map (codec_frame lib cd) ms" by auto
    moreover obtain b where "fillEmptyBuffer h lib cd m new_buffer = Inr b" "contents b = codec_frame lib cd m"
      using fillEmptyBuffer_frame [of lib cd m h] Cons.prems by auto
    ultimately show ?case by (intro exI [of _ "b # bufs"]) simp
  qed simp
  then show ?thesis using onMessage_frames [of _ lib cd ms rest h' "[]"] assms by (fastforce simp: incomplete_def)
qed

theorem codec_roundtrip_witness:
  "\<exists>bufs. list_all2 (\<lambda>m buf. fillEmptyBuffer LittleEndian bytes_lib (new_codec rpc_tag) m new_buffer = Inr buf)
      [[1, 2], [3]] bufs \<and>
    (\<forall>b. buf_wf b \<and> contents b = concat (map contents bufs) @ [0, 0, 0] \<longrightarrow>
      (\<exists>b'. codec_onMessage BigEndian bytes_lib (new_codec rpc_tag) [] b = Inr ([[1, 2], [3]], None, b') \<and>
        buf_wf b' \<and> contents b' = [0, 0, 0]))"
proof (rule codec_roundtrip)
  show "\<forall>m\<in>set [[1, 2], [3]]. sendable bytes_lib (new_codec rpc_tag) m" by (simp add: bytes_lib_sendable)
  show "cd_rawCb (new_codec rpc_tag) = None" by (simp add: new_codec_def)
  have "codec_frame bytes_lib (new_codec rpc_tag) [] = [0, 0, 0] @ [8] @ rpc_tag @ [0, 0, 0, 4]" by code_simp
  then show "strict_prefix [0, 0, 0] (codec_frame bytes_lib (new_codec rpc_tag) [])"
    by (simp add: strict_prefix_def)
  show "sendable bytes_lib (new_codec rpc_tag) []" by (simp add: bytes_lib_sendable)
qed

text \<open>A frame that \<open>onMessage\<close> may consume: its length field is in range and covers it, and it parses.\<close>

definition frame_of :: "host_order \<Rightarrow> 'm protobuf_lib \<Rightarrow> codec \<Rightarrow> byte list \<Rightarrow> 'm \<Rightarrow> bool" where
  "frame_of h lib cd f m \<longleftrightarrow>
     (let n = sint (asInt32 h (take kHeaderLen f)) in
      int (kMinMessageLen cd) \<le> n \<and> n \<le> kMaxMessageLen \<and> length f = kHeaderLen + nat n \<and>
      codec_parse h lib cd (drop kHeaderLen f) = Inr m)"

lemma peek_frame:
  assumes "buf_wf b" "peekInt32 h b = Inr w" "kHeaderLen + nat (sint w) \<le> readableBytes b"
  shows "asInt32 h (take kHeaderLen (take (kHeaderLen + nat (sint w)) (contents b))) = w"
  using assms peekInt32_contents [OF assms(1), of h]
  by (auto simp: asInt32_def kHeaderLen_def peekInt32_def min_def split: if_splits)



lemma onMessage_bad_length:
  assumes "buf_wf b" "kMinMessageLen cd + kHeaderLen \<le> readableBytes b" "cd_tag cd = tag"
    and "sint (asInt32 h (take kHeaderLen (contents b))) < int (kMinMessageLen cd) \<or>
      kMaxMessageLen < sint (asInt32 h (take kHeaderLen (contents b)))"
  shows "codec_onMessage h lib cd ms b = report cd kInvalidLength ms b"
  using assms peekInt32_contents [OF assms(1), of h]
  by (subst codec_onMessage.simps) (auto simp: asInt32_def kHeaderLen_def)

text \<open>What a length out of range does: the codec itself (with its default error callback) reports
  \<open>kInvalidLength\<close> and keeps the buffer, so that the connection can be shut down; the template that
  the RPC channel uses passes an empty error callback on when it is given none, and the same bytes
  make it throw out of the message callback.\<close>

theorem codec_bad_length:
  assumes "buf_wf b" "length tag + kChecksumLen + kHeaderLen \<le> readableBytes b"
    and "let n = sint (asInt32 h (take kHeaderLen (contents b))) in
      n < int (length tag + kChecksumLen) \<or> kMaxMessageLen < n"
  shows "codec_onMessage h lib (new_codec tag) [] b = Inr ([], Some kInvalidLength, b) \<and>
    codec_onMessage h lib (new_codecT tag False) [] b = Inl BadCallback"
  using assms onMessage_bad_length [of b "new_codec tag" tag h lib "[]"]
    onMessage_bad_length [of b "new_codecT tag False" tag h lib "[]"]
  by (simp_all add: kMinMessageLen_def new_codec_def new_codecT_def report_def Let_def)

theorem codec_bad_length_witness:
  "\<exists>b. append (replicate 12 0) new_buffer = Inr b \<and>
    codec_onMessage LittleEndian bytes_lib (new_codec rpc_tag) [] b = Inr ([], Some kInvalidLength, b) \<and>
    codec_onMessage LittleEndian bytes_lib (new_codecT rpc_tag False) [] b = Inl BadCallback"
proof -
  obtain b where b: "append (replicate 12 0) new_buffer = Inr b" "buf_wf b" "contents b = replicate 12 0"
    using net_buf.put_total_ok [OF buf_wf_new, of "replicate 12 0"] by (auto simp: vec_max_def kCheapPrepend_def)
  have tag: "length rpc_tag = 4" by (simp add: rpc_tag_def)
  have "readableBytes b = 12" using length_contents [OF b(2)] b(3) by simp
  then have room: "length rpc_tag + kChecksumLen + kHeaderLen \<le> readableBytes b"
    by (simp add: tag kChecksumLen_def kHeaderLen_def)
  have "sint (asInt32 LittleEndian (take kHeaderLen (contents b))) = 0" unfolding b(3) by code_simp
  then show ?thesis using codec_bad_length [OF b(2) room, of LittleEndian bytes_lib] b(1)
    by (simp add: Let_def tag kChecksumLen_def)
qed

end
