(* ===== verification/Message_Transport.thy ===== *)
theory Message_Transport
  imports Protobuf_Codec
begin

text \<open>
  Codec and connection together: messages sent with \<open>ProtobufCodecLite::send\<close> on a \<open>TcpConnection\<close> and
  received by a peer, over the buffer, the connection and the framing modelled in \<open>Net_Buffer\<close>,
  \<open>Tcp_Connection\<close> and \<open>Protobuf_Codec\<close>.
\<close>

section \<open>Messages over a connection\<close>

text \<open>
  The sending side: messages handed to \<open>ProtobufCodecLite::send\<close> and events that the socket is writable,
  in the loop of a \<open>TcpConnection\<close>. The receiving side: the bytes the sender's kernel has taken arrive in
  chunks; \<open>onMessage\<close> runs after each.
\<close>

datatype 'm wire_op = WireSend "nat option" 'm | WireFlush "nat option"

definition wire_do :: "host_order \<Rightarrow> 'm protobuf_lib \<Rightarrow> codec \<Rightarrow> 'm wire_op \<Rightarrow> tcp_conn \<Rightarrow> tcp_conn result" where
  "wire_do h lib cd op s =
     (case op of
        WireSend cap m \<Rightarrow> codec_send h lib cd (kernel_write cap (length (codec_frame lib cd m))) m s
      | WireFlush cap \<Rightarrow> conn_do (ConnWritable cap) s)"

fun wire_sent :: "'m wire_op list \<Rightarrow> 'm list" where
  "wire_sent [] = []"
| "wire_sent (WireSend cap m # ops) = m # wire_sent ops"
| "wire_sent (WireFlush cap # ops) = wire_sent ops"

definition receive_chunk :: "host_order \<Rightarrow> 'm protobuf_lib \<Rightarrow> codec \<Rightarrow> byte list \<Rightarrow>
    'm list \<times> buffer \<Rightarrow> ('m list \<times> buffer) result" where
  "receive_chunk h lib cd chunk st =
     rbind (append chunk (snd st)) (\<lambda>b.
     rbind (codec_onMessage h lib cd (fst st) b) (\<lambda>(ms, err, b').
       if err = None then Inr (ms, b') else Inl FatalLog))"

lemma codec_send_frame:
  assumes "sendable lib cd m"
  shows "codec_send h lib cd w m s = send w (codec_frame lib cd m) s"
proof -
  obtain b where b: "fillEmptyBuffer h lib cd m new_buffer = Inr b" "buf_wf b" "contents b = codec_frame lib cd m"
    using fillEmptyBuffer_frame [OF assms] by blast
  obtain b' where "retrieveAllAsString b = Inr (codec_frame lib cd m, b')"
    using retrieveAsString_ok [OF b(2), of "readableBytes b"] b(2,3) by (auto simp: retrieveAllAsString_def simp flip: length_contents)
  then show ?thesis using b(1,3)
    by (cases "sendInLoop w (codec_frame lib cd m) s") (auto simp: codec_send_def send_buffer_def send_def)
qed

text \<open>A prefix of a sequence of pieces: some whole pieces and a proper part of the next.\<close>

lemma prefix_pieces:
  assumes "prefix p (concat (map f xs))" "\<And>x. x \<in> set xs \<Longrightarrow> f x \<noteq> []"
  shows "\<exists>k rest. k \<le> length xs \<and> p = concat (map f (take k xs)) @ rest \<and>
    (if k = length xs then rest = [] else strict_prefix rest (f (xs ! k)))"
  using assms
proof (induction xs arbitrary: p)
  case Nil
  then show ?case by simp
next
  case (Cons x xs)
  show ?case
  proof (cases "strict_prefix p (f x)")
    case True
    then show ?thesis by (intro exI [of _ 0] exI [of _ p]) simp
  next
    case False
    with Cons.prems(1) obtain q where q: "p = f x @ q" "prefix q (concat (map f xs))"
      by (auto simp: prefix_append strict_prefix_def)
    from Cons.IH [OF q(2)] Cons.prems(2) obtain k rest where "k \<le> length xs" "q = concat (map f (take k xs)) @ rest"
      "if k = length xs then rest = [] else strict_prefix rest (f (xs ! k))" by auto
    then show ?thesis using q(1) by (intro exI [of _ "Suc k"] exI [of _ rest]) auto
  qed
qed

lemma frame_nonempty: "codec_frame lib cd m \<noteq> []"
  using length_frame [of lib cd m] by (auto simp: kHeaderLen_def)

text \<open>The sending side is a run of the connection on the frames.\<close>

fun wire_conn :: "'m protobuf_lib \<Rightarrow> codec \<Rightarrow> 'm wire_op \<Rightarrow> conn_op" where
  "wire_conn lib cd (WireSend cap m) = ConnSend cap (codec_frame lib cd m)"
| "wire_conn lib cd (WireFlush cap) = ConnWritable cap"

lemma wire_run:
  assumes "\<forall>m\<in>set (wire_sent ops). sendable lib cd m"
  shows "rfold (wire_do h lib cd) ops = rfold conn_do (map (wire_conn lib cd) ops)"
  using assms
proof (induction ops rule: wire_sent.induct)
  case (2 cap m ops)
  then have "wire_do h lib cd (WireSend cap m) s = conn_do (ConnSend cap (codec_frame lib cd m)) s" for s
    by (simp add: wire_do_def conn_do_def codec_send_frame)
  with 2 show ?case by (intro ext) simp
next
  case (3 cap ops)
  have "wire_do h lib cd (WireFlush cap) s = conn_do (ConnWritable cap) s" for s by (simp add: wire_do_def)
  with 3 show ?case by (intro ext) simp
qed (intro ext, simp)

lemma wire_stream:
  "fold conn_spec (map (wire_conn lib cd) ops) (True, bs) = (True, bs @ concat (map (codec_frame lib cd) (wire_sent ops)))"
  by (induction ops arbitrary: bs rule: wire_sent.induct) simp_all

lemma wire_size:
  "sum_list (map op_size (map (wire_conn lib cd) ops)) = length (concat (map (codec_frame lib cd) (wire_sent ops)))"
  by (induction ops rule: wire_sent.induct) (simp_all add: op_size_def)

text \<open>A part of the next message, or nothing.\<close>

definition part_of :: "'m protobuf_lib \<Rightarrow> codec \<Rightarrow> 'm list \<Rightarrow> byte list \<Rightarrow> bool" where
  "part_of lib cd sent rest = (case sent of [] \<Rightarrow> rest = [] | m # _ \<Rightarrow> strict_prefix rest (codec_frame lib cd m))"

lemma part_incomplete: "\<forall>m\<in>set sent. sendable lib cd m \<Longrightarrow> part_of lib cd sent rest \<Longrightarrow> incomplete lib cd rest"
  by (auto simp: part_of_def incomplete_def split: list.splits)

text \<open>One chunk: the messages it completes are handed out, the part of the next one stays.\<close>

lemma receive_one:
  assumes "\<forall>m\<in>set sent. sendable lib cd m" "cd_rawCb cd = None" "buf_wf b"
    and "prefix (contents b @ chunk) (concat (map (codec_frame lib cd) sent))"
    and "2 * length (concat (map (codec_frame lib cd) sent)) \<le> vec_max - kCheapPrepend"
  shows "\<exists>k b'. receive_chunk h lib cd chunk (acc, b) = Inr (acc @ take k sent, b') \<and> buf_wf b' \<and>
    contents b @ chunk = concat (map (codec_frame lib cd) (take k sent)) @ contents b' \<and> part_of lib cd (drop k sent) (contents b')"
proof -
  obtain k rest where k: "k \<le> length sent" "contents b @ chunk = concat (map (codec_frame lib cd) (take k sent)) @ rest"
    "if k = length sent then rest = [] else strict_prefix rest (codec_frame lib cd (sent ! k))"
    using prefix_pieces [OF assms(4)] frame_nonempty by metis
  have part: "part_of lib cd (drop k sent) rest"
    using k(1,3) by (cases "k = length sent") (auto simp: part_of_def Cons_nth_drop_Suc [symmetric] le_less)
  have "length (contents b) + 2 * length chunk \<le> vec_max - kCheapPrepend"
    using prefix_length_le [OF assms(4)] assms(5) by simp
  then obtain b1 where b1: "append chunk b = Inr b1" "buf_wf b1" "contents b1 = contents b @ chunk"
    using net_buf.put_total_ok [OF assms(3)] by blast
  have "\<forall>m\<in>set (take k sent). sendable lib cd m" "\<forall>m\<in>set (drop k sent). sendable lib cd m"
    using assms(1) by (auto dest: in_set_takeD in_set_dropD)
  with onMessage_frames [OF b1(2), of lib cd "take k sent" rest h acc] b1(3) k(2) part_incomplete [OF _ part] assms(2)
  obtain b' where "codec_onMessage h lib cd acc b1 = Inr (acc @ take k sent, None, b')" "buf_wf b'" "contents b' = rest" by auto
  with b1(1) k(2) part show ?thesis by (intro exI [of _ k] exI [of _ b']) (simp add: receive_chunk_def)
qed

lemma receive_chunks:
  assumes "\<forall>m\<in>set sent. sendable lib cd m" "cd_rawCb cd = None" "buf_wf b" "part_of lib cd sent (contents b)"
    and "prefix (contents b @ concat chunks) (concat (map (codec_frame lib cd) sent))"
    and "2 * length (concat (map (codec_frame lib cd) sent)) \<le> vec_max - kCheapPrepend"
  shows "\<exists>k b'. rfold (receive_chunk h lib cd) chunks (acc, b) = Inr (acc @ take k sent, b') \<and>
    contents b @ concat chunks = concat (map (codec_frame lib cd) (take k sent)) @ contents b' \<and>
    part_of lib cd (drop k sent) (contents b')"
  using assms
proof (induction chunks arbitrary: acc b sent)
  case Nil
  then show ?case by (intro exI [of _ 0] exI [of _ b]) simp
next
  case (Cons chunk chunks)
  let ?f = "codec_frame lib cd"
  have "prefix (contents b @ chunk) (concat (map ?f sent))"
    using Cons.prems(5) by (auto simp: prefix_def)
  from receive_one [OF Cons.prems(1-3) this Cons.prems(6)] obtain k b1 where
    b1: "receive_chunk h lib cd chunk (acc, b) = Inr (acc @ take k sent, b1)" "buf_wf b1"
    "contents b @ chunk = concat (map ?f (take k sent)) @ contents b1" "part_of lib cd (drop k sent) (contents b1)" by blast
  have split: "concat (map ?f sent) = concat (map ?f (take k sent)) @ concat (map ?f (drop k sent))"
    by (metis append_take_drop_id concat_append map_append)
  have eq: "contents b @ concat (chunk # chunks) = concat (map ?f (take k sent)) @ (contents b1 @ concat chunks)"
    using b1(3) by (metis append_assoc concat.simps(2))
  have "prefix (contents b1 @ concat chunks) (concat (map ?f (drop k sent)))"
    using Cons.prems(5) unfolding eq split same_prefix_prefix .
  moreover have "\<forall>m\<in>set (drop k sent). sendable lib cd m" using Cons.prems(1) by (auto dest: in_set_dropD)
  moreover have "2 * length (concat (map ?f (drop k sent))) \<le> vec_max - kCheapPrepend" using Cons.prems(6) unfolding split by simp
  ultimately obtain j b' where j: "rfold (receive_chunk h lib cd) chunks (acc @ take k sent, b1) = Inr ((acc @ take k sent) @ take j (drop k sent), b')"
    "contents b1 @ concat chunks = concat (map ?f (take j (drop k sent))) @ contents b'"
    "part_of lib cd (drop j (drop k sent)) (contents b')"
    using Cons.IH [of "drop k sent" b1 "acc @ take k sent"] Cons.prems(2) b1(2,4) by blast
  have "contents b @ concat (chunk # chunks) = concat (map ?f (take (k + j) sent)) @ contents b'"
    unfolding eq j(2) by (simp add: take_add)
  moreover have "drop j (drop k sent) = drop (k + j) sent" by (simp add: add.commute)
  ultimately show ?case using b1(1) j(1,3) by (intro exI [of _ "k + j"] exI [of _ b']) (simp add: take_add)
qed

lemma part_of_all:
  assumes "part_of lib cd ms (concat (map (codec_frame lib cd) ms))"
  shows "ms = []"
  using assms by (cases ms) (auto simp: part_of_def strict_prefix_def prefix_def)

section \<open>Properties\<close>

text \<open>C8. Message transport, end to end: any messages the codec accepts, sent over a connected
  \<open>TcpConnection\<close> with the kernel taking each time as much or as little as it likes, never fail an
  assertion on the way out; and however the bytes the kernel took are cut into chunks, the peer's codec
  hands out exactly the first messages sent, complete, in order, each once, without an error, all that
  have arrived whole, and keeps the part of the next one. When the sender's output buffer has drained it
  has handed out all of them.\<close>

theorem messages_cross_connection:
  assumes "conn_live s" "tc_state s = kConnected" "stream s = []"
    and "\<forall>m\<in>set (wire_sent ops). sendable lib cd m" "cd_rawCb cd = None"
    and "2 * length (concat (map (codec_frame lib cd) (wire_sent ops))) \<le> vec_max - kCheapPrepend"
  shows "\<exists>s'. rfold (wire_do h lib cd) ops s = Inr s' \<and>
    (\<forall>chunks. concat chunks = tc_written s' \<longrightarrow>
      (\<exists>k b. rfold (receive_chunk h' lib cd) chunks ([], new_buffer) = Inr (take k (wire_sent ops), b) \<and>
         tc_written s' = concat (map (codec_frame lib cd) (take k (wire_sent ops))) @ contents b \<and>
         part_of lib cd (drop k (wire_sent ops)) (contents b) \<and> (contents (tc_outputBuffer s') = [] \<longrightarrow> k \<ge> length (wire_sent ops))))"
proof -
  let ?frames = "concat (map (codec_frame lib cd) (wire_sent ops))"
  have "length (contents (tc_outputBuffer s)) + 2 * sum_list (map op_size (map (wire_conn lib cd) ops)) \<le> vec_max - kCheapPrepend"
    using assms(3,6) unfolding wire_size by (simp add: stream_def)
  from conn_run_refines [OF assms(1) this] obtain s' where
    s': "rfold (wire_do h lib cd) ops s = Inr s'" "conn_abs s' = fold conn_spec (map (wire_conn lib cd) ops) (conn_abs s)"
    unfolding wire_run [OF assms(4), of h] by blast
  have all: "tc_written s' @ contents (tc_outputBuffer s') = ?frames"
    using s'(2) assms(2,3) wire_stream [of lib cd ops "[]"] by (simp add: conn_abs_def stream_def)
  have part: "part_of lib cd (wire_sent ops) []"
    by (auto simp: part_of_def strict_prefix_def frame_nonempty [THEN not_sym] split: list.splits)
  have "\<exists>k b. rfold (receive_chunk h' lib cd) chunks ([], new_buffer) = Inr (take k (wire_sent ops), b) \<and>
         tc_written s' = concat (map (codec_frame lib cd) (take k (wire_sent ops))) @ contents b \<and>
         part_of lib cd (drop k (wire_sent ops)) (contents b) \<and> (contents (tc_outputBuffer s') = [] \<longrightarrow> k \<ge> length (wire_sent ops))"
    if eq: "concat chunks = tc_written s'" for chunks
  proof -
    have "prefix (contents new_buffer @ concat chunks) ?frames" unfolding all [symmetric] eq by simp
    from receive_chunks [OF assms(4,5) _ _ this assms(6), of h' "[]"] part obtain k b where
      k: "rfold (receive_chunk h' lib cd) chunks ([], new_buffer) = Inr (take k (wire_sent ops), b)"
      "concat chunks = concat (map (codec_frame lib cd) (take k (wire_sent ops))) @ contents b"
      "part_of lib cd (drop k (wire_sent ops)) (contents b)" by auto
    have "drop k (wire_sent ops) = []" if "contents (tc_outputBuffer s') = []"
    proof (rule part_of_all [of lib cd])
      have "?frames = concat (map (codec_frame lib cd) (take k (wire_sent ops))) @ concat (map (codec_frame lib cd) (drop k (wire_sent ops)))"
        by (metis append_take_drop_id concat_append map_append)
      then have "contents b = concat (map (codec_frame lib cd) (drop k (wire_sent ops)))"
        using that all eq k(2) by simp
      then show "part_of lib cd (drop k (wire_sent ops)) (concat (map (codec_frame lib cd) (drop k (wire_sent ops))))"
        using k(3) by simp
    qed
    with k eq show ?thesis by auto
  qed
  with s'(1) show ?thesis by blast
qed

text \<open>Two messages sent by a little-endian host through a slow socket and read by a big-endian one.\<close>

theorem messages_cross_connection_witness:
  "\<exists>s s'. connectEstablished (\<lambda>k. Inr) 9 (new_TcpConnection 7 5 demo_loop) = Inr s \<and>
     rfold (wire_do LittleEndian bytes_lib (new_codec rpc_tag)) [WireSend (Some 3) [1, 2], WireSend None [3], WireFlush (Some 9)] s = Inr s' \<and>
     (\<exists>k b. rfold (receive_chunk BigEndian bytes_lib (new_codec rpc_tag)) [take 5 (tc_written s'), drop 5 (tc_written s')] ([], new_buffer) =
        Inr (take k [[1, 2], [3]], b))"
proof -
  obtain s c where s: "connectEstablished (\<lambda>k. Inr) 9 (new_TcpConnection 7 5 demo_loop) = Inr s" "conn_ok s c"
    "tc_state s = kConnected" "stream s = []" "\<not> tc_shutdownWrite s" by (rule demo_connection)
  let ?cd = "new_codec rpc_tag"
  let ?ops = "[WireSend (Some 3) [1, 2], WireSend None [3], WireFlush (Some 9)] :: byte list wire_op list"
  have live: "conn_live s" using s by (auto simp: conn_live_def)
  have raw: "cd_rawCb ?cd = None" by (simp add: new_codec_def)
  have ok: "\<forall>m\<in>set (wire_sent ?ops). sendable bytes_lib ?cd m" by (simp add: bytes_lib_sendable)
  have len: "length (concat (map (codec_frame bytes_lib ?cd) (wire_sent ?ops))) = 27" by code_simp
  have "2 * length (concat (map (codec_frame bytes_lib ?cd) (wire_sent ?ops))) \<le> vec_max - kCheapPrepend"
    unfolding len by (simp add: vec_max_def kCheapPrepend_def)
  from messages_cross_connection [OF live s(3,4) ok raw this, of LittleEndian BigEndian] obtain s' where
    s': "rfold (wire_do LittleEndian bytes_lib ?cd) ?ops s = Inr s'" and
    rx: "\<forall>chunks. concat chunks = tc_written s' \<longrightarrow>
      (\<exists>k b. rfold (receive_chunk BigEndian bytes_lib ?cd) chunks ([], new_buffer) = Inr (take k (wire_sent ?ops), b) \<and>
         tc_written s' = concat (map (codec_frame bytes_lib ?cd) (take k (wire_sent ?ops))) @ contents b \<and>
         part_of bytes_lib ?cd (drop k (wire_sent ?ops)) (contents b) \<and> (contents (tc_outputBuffer s') = [] \<longrightarrow> k \<ge> length (wire_sent ?ops)))" by blast
  have "concat [take 5 (tc_written s'), drop 5 (tc_written s')] = tc_written s'" by simp
  with rx obtain k b where "rfold (receive_chunk BigEndian bytes_lib ?cd) [take 5 (tc_written s'), drop 5 (tc_written s')] ([], new_buffer) =
    Inr (take k (wire_sent ?ops), b)" by blast
  then show ?thesis using s(1) s' by auto
qed

end
