(* ===== verification/Rpc_Channel.thy ===== *)
theory Rpc_Channel
  imports Muduo_Prelude "HOL-Library.Multiset"
begin

text \<open>
  Remote procedure calls (\<open>src/muduo/net/protorpc/RpcChannel.cc\<close>, \<open>RpcChannel.h\<close>, \<open>RpcServer.cc\<close>, messages of
  \<open>rpc.proto\<close>). A channel numbers its calls and keeps the outstanding ones; the peer dispatches to its
  services, which answer now or later and in any order. Messages cross the connection in order and
  unchanged (\<open>Protobuf_Codec\<close>). A service is the function from service name, method name and request
  to the response; a request that does not parse has no response.
\<close>

section \<open>Messages and channels\<close>

datatype rpc_type = REQUEST | RESPONSE | ERROR

datatype rpc_error = NO_ERROR | WRONG_PROTO | NO_SERVICE | NO_METHOD | INVALID_REQUEST | INVALID_RESPONSE | TIMEOUT

record rpc_message =
  msg_type :: rpc_type
  msg_id :: "64 word"
  msg_service :: string
  msg_method :: string
  msg_request :: "byte list"
  msg_response :: "byte list option"
  msg_error :: "rpc_error option"

text \<open>\<open>OutstandingCall\<close>: whether there is a response object, and the closure (a name) if there is one.\<close>

record outstanding =
  oc_response :: bool
  oc_done :: "nat option"

type_synonym services = "string \<Rightarrow> (string \<Rightarrow> (byte list \<Rightarrow> byte list option) option) option"

record rpc_channel =
  rc_id :: "64 word"
  rc_outstandings :: "64 word \<Rightarrow> outstanding option"
  rc_services :: "services option"

definition new_RpcChannel :: rpc_channel where
  "new_RpcChannel = \<lparr>rc_id = 0, rc_outstandings = Map.empty, rc_services = None\<rparr>"

definition setServices :: "services \<Rightarrow> rpc_channel \<Rightarrow> rpc_channel" where
  "setServices sv ch = ch\<lparr>rc_services := Some sv\<rparr>"

definition request_message :: "64 word \<Rightarrow> string \<Rightarrow> string \<Rightarrow> byte list \<Rightarrow> rpc_message" where
  "request_message i service method request =
     \<lparr>msg_type = REQUEST, msg_id = i, msg_service = service, msg_method = method, msg_request = request,
      msg_response = None, msg_error = None\<rparr>"

definition response_message :: "64 word \<Rightarrow> byte list option \<Rightarrow> rpc_error option \<Rightarrow> rpc_message" where
  "response_message i response err =
     \<lparr>msg_type = RESPONSE, msg_id = i, msg_service = '''', msg_method = '''', msg_request = [],
      msg_response = response, msg_error = err\<rparr>"

definition CallMethod :: "string \<Rightarrow> string \<Rightarrow> byte list \<Rightarrow> outstanding \<Rightarrow> rpc_channel \<Rightarrow> rpc_message \<times> rpc_channel" where
  "CallMethod service method request out ch =
     (let i = rc_id ch + 1
      in (request_message i service method request, ch\<lparr>rc_id := i, rc_outstandings := (rc_outstandings ch)(i \<mapsto> out)\<rparr>))"

text \<open>
  What handling a message leads to: nothing, a closure run with the bytes of the response (if any),
  a message sent back, or a service called whose closure will send the response for the id.
\<close>

datatype rpc_effect = RpcNothing | RpcDone nat "byte list option" | RpcSend rpc_message | RpcServe "64 word" "byte list"

definition dispatch :: "services option \<Rightarrow> rpc_message \<Rightarrow> rpc_error + byte list" where
  "dispatch services m =
     (case services of
        None \<Rightarrow> Inl NO_SERVICE
      | Some sv \<Rightarrow> (case sv (msg_service m) of
          None \<Rightarrow> Inl NO_SERVICE
        | Some methods \<Rightarrow> (case methods (msg_method m) of
            None \<Rightarrow> Inl NO_METHOD
          | Some f \<Rightarrow> (case f (msg_request m) of None \<Rightarrow> Inl INVALID_REQUEST | Some response \<Rightarrow> Inr response))))"

definition onRpcMessage :: "rpc_message \<Rightarrow> rpc_channel \<Rightarrow> (rpc_effect \<times> rpc_channel) result" where
  "onRpcMessage m ch =
     (case msg_type m of
        RESPONSE \<Rightarrow> assert_ok (msg_response m \<noteq> None \<or> msg_error m \<noteq> None)
          (case rc_outstandings ch (msg_id m) of
             None \<Rightarrow> Inr (RpcNothing, ch)
           | Some out \<Rightarrow>
               let ch' = ch\<lparr>rc_outstandings := (rc_outstandings ch)(msg_id m := None)\<rparr>
               in Inr (case (oc_response out, oc_done out) of
                         (True, Some done) \<Rightarrow> RpcDone done (msg_response m) | _ \<Rightarrow> RpcNothing, ch'))
      | REQUEST \<Rightarrow>
          (case dispatch (rc_services ch) m of
             Inr response \<Rightarrow> Inr (RpcServe (msg_id m) response, ch)
           | Inl err \<Rightarrow> Inr (RpcSend (response_message (msg_id m) None (Some err)), ch))
      | ERROR \<Rightarrow> Inr (RpcNothing, ch))"

definition doneCallback :: "byte list \<Rightarrow> 64 word \<Rightarrow> rpc_message" where
  "doneCallback response i = response_message i (Some response) None"

section \<open>A client and a server\<close>

text \<open>
  \<open>rs_up\<close> and \<open>rs_down\<close> are the messages on the way, \<open>rs_pending\<close> the calls a service has not answered
  yet, \<open>rs_calls\<close> the calls made (service, method, request) and \<open>rs_done\<close> the closures run, with the
  number of the call and the response.
\<close>

record rpc_system =
  rs_client :: rpc_channel
  rs_server :: rpc_channel
  rs_up :: "rpc_message list"
  rs_pending :: "(64 word \<times> byte list) list"
  rs_down :: "rpc_message list"
  rs_calls :: "(string \<times> string \<times> byte list) list"
  rs_done :: "(nat \<times> byte list option) list"

definition new_rpc_system :: "services \<Rightarrow> rpc_system" where
  "new_rpc_system sv = \<lparr>rs_client = new_RpcChannel, rs_server = setServices sv new_RpcChannel, rs_up = [], rs_pending = [],
     rs_down = [], rs_calls = [], rs_done = []\<rparr>"

definition rpc_call :: "string \<times> string \<times> byte list \<Rightarrow> rpc_system \<Rightarrow> rpc_system" where
  "rpc_call c s =
     (let (m, ch) = CallMethod (fst c) (fst (snd c)) (snd (snd c)) \<lparr>oc_response = True, oc_done = Some (length (rs_calls s))\<rparr> (rs_client s)
      in s\<lparr>rs_client := ch, rs_up := rs_up s @ [m], rs_calls := rs_calls s @ [c]\<rparr>)"

definition rpc_effect_at_server :: "rpc_effect \<Rightarrow> rpc_system \<Rightarrow> rpc_system" where
  "rpc_effect_at_server ef s =
     (case ef of RpcServe i r \<Rightarrow> s\<lparr>rs_pending := rs_pending s @ [(i, r)]\<rparr>
      | RpcSend m \<Rightarrow> s\<lparr>rs_down := rs_down s @ [m]\<rparr> | _ \<Rightarrow> s)"

definition rpc_effect_at_client :: "rpc_effect \<Rightarrow> rpc_system \<Rightarrow> rpc_system" where
  "rpc_effect_at_client ef s =
     (case ef of RpcDone k r \<Rightarrow> s\<lparr>rs_done := rs_done s @ [(k, r)]\<rparr>
      | RpcSend m \<Rightarrow> s\<lparr>rs_up := rs_up s @ [m]\<rparr> | _ \<Rightarrow> s)"

text \<open>The steps; a pending call is answered at any time, in any order.\<close>

datatype rpc_action = Call "string \<times> string \<times> byte list" | AtServer | Answer nat | AtClient

definition rpc_act :: "rpc_action \<Rightarrow> rpc_system \<Rightarrow> rpc_system result" where
  "rpc_act a s =
     (case a of
        Call c \<Rightarrow> Inr (rpc_call c s)
      | AtServer \<Rightarrow> (case rs_up s of [] \<Rightarrow> Inr s
          | m # ms \<Rightarrow> rbind (onRpcMessage m (rs_server s))
              (\<lambda>(ef, ch). Inr (rpc_effect_at_server ef (s\<lparr>rs_server := ch, rs_up := ms\<rparr>))))
      | Answer j \<Rightarrow> if j < length (rs_pending s) then
          let (i, r) = rs_pending s ! j
          in Inr (s\<lparr>rs_pending := take j (rs_pending s) @ drop (Suc j) (rs_pending s), rs_down := rs_down s @ [doneCallback r i]\<rparr>)
          else Inr s
      | AtClient \<Rightarrow> (case rs_down s of [] \<Rightarrow> Inr s
          | m # ms \<Rightarrow> rbind (onRpcMessage m (rs_client s))
              (\<lambda>(ef, ch). Inr (rpc_effect_at_client ef (s\<lparr>rs_client := ch, rs_down := ms\<rparr>)))))"

text \<open>The specification: what the service answers, or nothing for an error.\<close>

definition answer :: "services \<Rightarrow> string \<times> string \<times> byte list \<Rightarrow> byte list option" where
  "answer sv c = (case sv (fst c) of None \<Rightarrow> None
     | Some ms \<Rightarrow> (case ms (fst (snd c)) of None \<Rightarrow> None | Some f \<Rightarrow> f (snd (snd c))))"

definition call_id :: "nat \<Rightarrow> 64 word" where
  "call_id k = of_nat (Suc k)"

text \<open>The ids on their way, and the invariant: every call is in exactly one place, with its data.\<close>

definition in_flight :: "rpc_system \<Rightarrow> 64 word multiset" where
  "in_flight s = mset (map msg_id (rs_up s)) + mset (map fst (rs_pending s)) + mset (map msg_id (rs_down s))"

definition about :: "rpc_system \<Rightarrow> 64 word \<Rightarrow> (string \<times> string \<times> byte list \<Rightarrow> bool) \<Rightarrow> bool" where
  "about s i P \<longleftrightarrow> (\<exists>k < length (rs_calls s). i = call_id k \<and> P (rs_calls s ! k) \<and>
     rc_outstandings (rs_client s) i = Some \<lparr>oc_response = True, oc_done = Some k\<rparr>)"

definition rpc_inv :: "services \<Rightarrow> rpc_system \<Rightarrow> bool" where
  "rpc_inv sv s \<longleftrightarrow>
     rc_id (rs_client s) = of_nat (length (rs_calls s)) \<and> rc_services (rs_server s) = Some sv \<and>
     mset (map call_id [0..<length (rs_calls s)]) = in_flight s + mset (map (call_id \<circ> fst) (rs_done s)) \<and>
     (\<forall>m\<in>set (rs_up s). msg_type m = REQUEST \<and> about s (msg_id m) (\<lambda>c. c = (msg_service m, msg_method m, msg_request m))) \<and>
     (\<forall>p\<in>set (rs_pending s). about s (fst p) (\<lambda>c. answer sv c = Some (snd p))) \<and>
     (\<forall>m\<in>set (rs_down s). msg_type m = RESPONSE \<and> (msg_response m \<noteq> None \<or> msg_error m \<noteq> None) \<and>
        about s (msg_id m) (\<lambda>c. answer sv c = msg_response m)) \<and>
     (\<forall>p\<in>set (rs_done s). fst p < length (rs_calls s) \<and> answer sv (rs_calls s ! fst p) = snd p)"

section \<open>Ids\<close>

lemma unat_call_id: "Suc k < 2 ^ 64 \<Longrightarrow> unat (call_id k) = Suc k"
  unfolding call_id_def unat_of_nat by (rule mod_less) simp

lemma call_id_inject: "Suc j < 2 ^ 64 \<Longrightarrow> Suc k < 2 ^ 64 \<Longrightarrow> call_id j = call_id k \<longleftrightarrow> j = k"
  by (metis unat_call_id Suc_inject)

lemma distinct_call_ids: "n < 2 ^ 64 \<Longrightarrow> distinct (map call_id [0..<n])"
  by (auto simp: distinct_map inj_on_def call_id_inject)

lemma count_ids: "n < 2 ^ 64 \<Longrightarrow> count (mset (map call_id [0..<n])) i \<le> 1"
  using distinct_call_ids [of n] unfolding distinct_count_atmost_1 by (simp split: if_splits)

lemma distinct_count:
  assumes "\<And>x. count (mset xs) x \<le> 1"
  shows "distinct xs"
  unfolding distinct_count_atmost_1
proof
  fix x
  consider "count (mset xs) x = 0" | "count (mset xs) x = 1" using assms [of x] by linarith
  then show "count (mset xs) x = (if x \<in> set xs then 1 else 0)"
  proof cases
    case 1
    then show ?thesis by simp
  next
    case 2
    then have "x \<in> set xs" using count_mset_0_iff [of xs x] by auto
    with 2 show ?thesis by simp
  qed
qed

lemma about_update [simp]:
  "about (s\<lparr>rs_up := us\<rparr>) i P = about s i P" "about (s\<lparr>rs_pending := ps\<rparr>) i P = about s i P"
  "about (s\<lparr>rs_down := ds\<rparr>) i P = about s i P" "about (s\<lparr>rs_server := ch\<rparr>) i P = about s i P"
  by (simp_all add: about_def)

lemma about_erase:
  assumes "about s i P" "i \<noteq> j"
    and "rs_calls s' = rs_calls s" "rs_client s' = (rs_client s)\<lparr>rc_outstandings := (rc_outstandings (rs_client s))(j := None)\<rparr>"
  shows "about s' i P"
  using assms by (auto simp: about_def)

lemma about_call:
  assumes "about s i P" "Suc (length (rs_calls s)) < 2 ^ 64" "rc_id (rs_client s) = of_nat (length (rs_calls s))"
  shows "about (rpc_call c s) i P"
proof -
  obtain k where k: "k < length (rs_calls s)" "i = call_id k" "P (rs_calls s ! k)"
    "rc_outstandings (rs_client s) i = Some \<lparr>oc_response = True, oc_done = Some k\<rparr>" using assms(1) by (auto simp: about_def)
  then have "i \<noteq> call_id (length (rs_calls s))" using assms(2) call_id_inject [of k "length (rs_calls s)"] by simp
  then have "i \<noteq> rc_id (rs_client s) + 1" using assms(3) by (simp add: call_id_def add.commute)
  then show ?thesis using k
    by (auto simp: about_def rpc_call_def CallMethod_def Let_def nth_append intro!: exI [of _ k])
qed

section \<open>The invariant\<close>

lemma rpc_inv_call:
  assumes "rpc_inv sv s" "Suc (length (rs_calls s)) < 2 ^ 64"
  shows "rpc_inv sv (rpc_call c s)"
proof -
  let ?n = "length (rs_calls s)"
  have idn: "rc_id (rs_client s) = of_nat ?n" using assms(1) by (simp add: rpc_inv_def)
  note keep = about_call [OF _ assms(2) idn, of _ _ c]
  have new: "about (rpc_call c s) (call_id ?n) (\<lambda>d. d = c)"
    by (auto simp: about_def rpc_call_def CallMethod_def Let_def idn call_id_def add.commute)
  have up: "rs_up (rpc_call c s) = rs_up s @ [request_message (call_id ?n) (fst c) (fst (snd c)) (snd (snd c))]"
    by (simp add: rpc_call_def CallMethod_def Let_def idn call_id_def add.commute)
  have same: "rs_pending (rpc_call c s) = rs_pending s" "rs_down (rpc_call c s) = rs_down s" "rs_done (rpc_call c s) = rs_done s"
    "rs_calls (rpc_call c s) = rs_calls s @ [c]" "rs_server (rpc_call c s) = rs_server s"
    "rc_id (rs_client (rpc_call c s)) = of_nat (Suc ?n)"
    by (simp_all add: rpc_call_def CallMethod_def Let_def idn add.commute)
  have ids: "mset (map call_id [0..<length (rs_calls s @ [c])]) =
      in_flight (rpc_call c s) + mset (map (call_id \<circ> fst) (rs_done s))"
    using assms(1) by (simp add: rpc_inv_def in_flight_def up same request_message_def)
  have "\<forall>m\<in>set (rs_up (rpc_call c s)). msg_type m = REQUEST \<and>
      about (rpc_call c s) (msg_id m) (\<lambda>c. c = (msg_service m, msg_method m, msg_request m))"
    using assms(1) keep new by (auto simp: rpc_inv_def up request_message_def)
  moreover have "\<forall>p\<in>set (rs_done s). fst p < length (rs_calls s @ [c]) \<and> answer sv ((rs_calls s @ [c]) ! fst p) = snd p"
    using assms(1) by (auto simp: rpc_inv_def nth_append)
  ultimately show ?thesis using assms(1) keep ids unfolding rpc_inv_def same by simp
qed

lemma rpc_inv_parts:
  assumes "rpc_inv sv s"
  shows "rc_id (rs_client s) = of_nat (length (rs_calls s))" "rc_services (rs_server s) = Some sv"
    and "mset (map call_id [0..<length (rs_calls s)]) = in_flight s + mset (map (call_id \<circ> fst) (rs_done s))"
    and "m \<in> set (rs_up s) \<Longrightarrow> msg_type m = REQUEST \<and> about s (msg_id m) (\<lambda>c. c = (msg_service m, msg_method m, msg_request m))"
    and "p \<in> set (rs_pending s) \<Longrightarrow> about s (fst p) (\<lambda>c. answer sv c = Some (snd p))"
    and "m \<in> set (rs_down s) \<Longrightarrow> msg_type m = RESPONSE \<and> (msg_response m \<noteq> None \<or> msg_error m \<noteq> None) \<and>
        about s (msg_id m) (\<lambda>c. answer sv c = msg_response m)"
    and "q \<in> set (rs_done s) \<Longrightarrow> fst q < length (rs_calls s) \<and> answer sv (rs_calls s ! fst q) = snd q"
  using assms by (simp_all add: rpc_inv_def)

text \<open>A request at the server: it is refused with an error or becomes pending.\<close>

lemma about_weaken: "about s i P \<Longrightarrow> (\<And>c. P c \<Longrightarrow> Q c) \<Longrightarrow> about s i Q"
  unfolding about_def by blast

lemma rpc_inv_server:
  assumes inv: "rpc_inv sv s" and up: "rs_up s = m # ms"
  shows "\<exists>s'. rpc_act AtServer s = Inr s' \<and> rpc_inv sv s' \<and> rs_calls s' = rs_calls s"
proof -
  note P = rpc_inv_parts [OF inv]
  have m: "msg_type m = REQUEST" "about s (msg_id m) (\<lambda>c. c = (msg_service m, msg_method m, msg_request m))"
    using P(4) [of m] up by simp_all
  let ?s1 = "s\<lparr>rs_server := rs_server s, rs_up := ms\<rparr>"
  have flight: "in_flight s = add_mset (msg_id m) (in_flight ?s1)" by (simp add: in_flight_def up)
  show ?thesis
  proof (cases "dispatch (Some sv) m")
    case (Inr r)
    let ?s' = "?s1\<lparr>rs_pending := rs_pending s @ [(msg_id m, r)]\<rparr>"
    have ans: "answer sv (msg_service m, msg_method m, msg_request m) = Some r"
      using Inr by (auto simp: dispatch_def answer_def split: option.splits)
    have "about s (msg_id m) (\<lambda>c. answer sv c = Some r)" by (rule about_weaken [OF m(2)]) (simp add: ans)
    then have "rpc_inv sv ?s'" using P up flight unfolding rpc_inv_def
      by (auto simp: in_flight_def)
    moreover have "rpc_act AtServer s = Inr ?s'"
      using Inr m(1) P(2) by (simp add: rpc_act_def up onRpcMessage_def rpc_effect_at_server_def)
    ultimately show ?thesis by (intro exI [of _ ?s']) simp
  next
    case (Inl e)
    let ?r = "response_message (msg_id m) None (Some e)"
    let ?s' = "?s1\<lparr>rs_down := rs_down s @ [?r]\<rparr>"
    have ans: "answer sv (msg_service m, msg_method m, msg_request m) = None"
      using Inl by (auto simp: dispatch_def answer_def split: option.splits)
    have "about s (msg_id m) (\<lambda>c. answer sv c = None)" by (rule about_weaken [OF m(2)]) (simp add: ans)
    then have "rpc_inv sv ?s'" using P up flight unfolding rpc_inv_def
      by (auto simp: in_flight_def response_message_def)
    moreover have "rpc_act AtServer s = Inr ?s'"
      using Inl m(1) P(2) by (simp add: rpc_act_def up onRpcMessage_def rpc_effect_at_server_def)
    ultimately show ?thesis by (intro exI [of _ ?s']) simp
  qed
qed

lemma rpc_inv_answer:
  assumes inv: "rpc_inv sv s" and j: "j < length (rs_pending s)"
  shows "\<exists>s'. rpc_act (Answer j) s = Inr s' \<and> rpc_inv sv s' \<and> rs_calls s' = rs_calls s"
proof -
  note P = rpc_inv_parts [OF inv]
  obtain i r where p: "rs_pending s ! j = (i, r)" by (cases "rs_pending s ! j")
  let ?rest = "take j (rs_pending s) @ drop (Suc j) (rs_pending s)"
  let ?s' = "s\<lparr>rs_pending := ?rest, rs_down := rs_down s @ [doneCallback r i]\<rparr>"
  have split: "rs_pending s = take j (rs_pending s) @ (i, r) # drop (Suc j) (rs_pending s)"
    using id_take_nth_drop [OF j] p by simp
  have "(i, r) \<in> set (rs_pending s)" using p j nth_mem by metis
  then have ab: "about s i (\<lambda>c. answer sv c = Some r)" using P(5) by force
  have sub: "set ?rest \<subseteq> set (rs_pending s)" by (auto dest: in_set_takeD in_set_dropD)
  have flight: "in_flight ?s' = in_flight s"
    unfolding in_flight_def by (subst (2) split) (simp add: doneCallback_def response_message_def)
  have "rpc_inv sv ?s'" using P ab sub flight unfolding rpc_inv_def
    by (auto simp: doneCallback_def response_message_def dest!: in_set_takeD in_set_dropD)
  moreover have "rpc_act (Answer j) s = Inr ?s'" using j p by (simp add: rpc_act_def)
  ultimately show ?thesis by (intro exI [of _ ?s']) simp
qed

text \<open>A response at the client: the call is outstanding, and no other message carries its id.\<close>

lemma rpc_inv_client:
  assumes inv: "rpc_inv sv s" and down: "rs_down s = m # ms" and n: "length (rs_calls s) < 2 ^ 64"
  shows "\<exists>s'. rpc_act AtClient s = Inr s' \<and> rpc_inv sv s' \<and> rs_calls s' = rs_calls s"
proof -
  note P = rpc_inv_parts [OF inv]
  have m: "msg_type m = RESPONSE" "msg_response m \<noteq> None \<or> msg_error m \<noteq> None" "about s (msg_id m) (\<lambda>c. answer sv c = msg_response m)"
    using P(6) [of m] down by simp_all
  then obtain k where k: "k < length (rs_calls s)" "msg_id m = call_id k" "answer sv (rs_calls s ! k) = msg_response m"
    "rc_outstandings (rs_client s) (msg_id m) = Some \<lparr>oc_response = True, oc_done = Some k\<rparr>" by (auto simp: about_def)
  let ?ch = "(rs_client s)\<lparr>rc_outstandings := (rc_outstandings (rs_client s))(msg_id m := None)\<rparr>"
  let ?s' = "s\<lparr>rs_client := ?ch, rs_down := ms, rs_done := rs_done s @ [(k, msg_response m)]\<rparr>"
  have flight: "in_flight s = add_mset (msg_id m) (in_flight ?s')" by (simp add: in_flight_def down)
  have "count (in_flight s) (msg_id m) \<le> 1"
    using count_ids [OF n, of "msg_id m"] unfolding P(3) by simp
  then have "msg_id m \<notin># in_flight ?s'" using flight by (simp add: count_eq_zero_iff [symmetric])
  then have other: "i \<noteq> msg_id m" if "i \<in># in_flight ?s'" for i using that by auto
  have keep: "about ?s' i Q" if "about s i Q" "i \<in># in_flight ?s'" for i Q
    by (rule about_erase [OF that(1) other [OF that(2)]]) simp_all
  have "rpc_inv sv ?s'" unfolding rpc_inv_def
  proof (intro conjI)
    show "\<forall>m\<in>set (rs_up ?s'). msg_type m = REQUEST \<and> about ?s' (msg_id m) (\<lambda>c. c = (msg_service m, msg_method m, msg_request m))"
      using P(4) keep by (auto simp: in_flight_def)
    show "\<forall>p\<in>set (rs_pending ?s'). about ?s' (fst p) (\<lambda>c. answer sv c = Some (snd p))"
      using P(5) keep by (force simp: in_flight_def)
    show "\<forall>m\<in>set (rs_down ?s'). msg_type m = RESPONSE \<and> (msg_response m \<noteq> None \<or> msg_error m \<noteq> None) \<and>
        about ?s' (msg_id m) (\<lambda>c. answer sv c = msg_response m)"
      using P(6) keep down by (auto simp: in_flight_def)
  qed (use P flight k in auto)
  moreover have "rpc_act AtClient s = Inr ?s'"
    using m k(4) by (simp add: rpc_act_def down onRpcMessage_def rpc_effect_at_client_def)
  ultimately show ?thesis by (intro exI [of _ ?s']) simp
qed

lemma rpc_inv_act:
  assumes "rpc_inv sv s" "Suc (length (rs_calls s)) < 2 ^ 64"
  shows "\<exists>s'. rpc_act a s = Inr s' \<and> rpc_inv sv s' \<and> length (rs_calls s') \<le> Suc (length (rs_calls s))"
proof (cases a)
  case (Call c)
  then show ?thesis using rpc_inv_call [OF assms, of c] by (simp add: rpc_act_def) (simp add: rpc_call_def CallMethod_def Let_def)
next
  case AtServer
  then show ?thesis using rpc_inv_server [OF assms(1)] assms(1) by (cases "rs_up s") (fastforce simp: rpc_act_def)+
next
  case (Answer j)
  then show ?thesis using rpc_inv_answer [OF assms(1), of j] assms(1)
    by (cases "j < length (rs_pending s)") (fastforce simp: rpc_act_def)+
next
  case AtClient
  then show ?thesis using rpc_inv_client [OF assms(1)] assms by (cases "rs_down s") (fastforce simp: rpc_act_def)+
qed

lemma rpc_inv_new: "rpc_inv sv (new_rpc_system sv)"
  by (simp add: rpc_inv_def new_rpc_system_def new_RpcChannel_def setServices_def in_flight_def)

lemma rpc_inv_run:
  assumes "rpc_inv sv s" "length (rs_calls s) + length as < 2 ^ 64 - 1"
  shows "\<exists>s'. rfold rpc_act as s = Inr s' \<and> rpc_inv sv s' \<and> length (rs_calls s') < 2 ^ 64"
  using assms
proof (induction as arbitrary: s)
  case (Cons a as)
  then obtain s1 where "rpc_act a s = Inr s1" "rpc_inv sv s1" "length (rs_calls s1) \<le> Suc (length (rs_calls s))"
    using rpc_inv_act [of sv s a] by auto
  with Cons.IH [of s1] Cons.prems(2) show ?case by simp
qed simp

section \<open>Properties\<close>

text \<open>C10. Every call gets its own answer, once: for any schedule of calls, deliveries and answers (the
  services may answer late and in any order), as long as fewer than about \<open>2 ^ 64\<close> steps are made so
  that no id repeats, no assertion fails; a closure that has been run belongs to a call that was made
  and received exactly what the service answers to that call's request (nothing, if the service, the
  method or the request is unknown); no closure is run twice; and a call whose closure has not been
  run is still on its way, in exactly one place.\<close>

theorem rpc_answers_calls:
  assumes "length as < 2 ^ 64 - 1"
  shows "\<exists>s. rfold rpc_act as (new_rpc_system sv) = Inr s \<and>
    (\<forall>(k, r)\<in>set (rs_done s). k < length (rs_calls s) \<and> r = answer sv (rs_calls s ! k)) \<and>
    distinct (map fst (rs_done s)) \<and>
    (\<forall>k < length (rs_calls s). count (in_flight s) (call_id k) = (if k \<in> fst ` set (rs_done s) then 0 else 1))"
proof -
  obtain s where s: "rfold rpc_act as (new_rpc_system sv) = Inr s" "rpc_inv sv s" "length (rs_calls s) < 2 ^ 64"
    using rpc_inv_run [OF rpc_inv_new, of sv as] assms by (auto simp: new_rpc_system_def)
  note P = rpc_inv_parts [OF s(2)]
  let ?ids = "mset (map call_id [0..<length (rs_calls s)])" and ?done = "mset (map (call_id \<circ> fst) (rs_done s))"
  have one: "count ?ids (call_id k) = 1" if "k < length (rs_calls s)" for k
    using distinct_call_ids [OF s(3)] that unfolding distinct_count_atmost_1 by auto
  have "count ?done i \<le> 1" for i using count_ids [OF s(3), of i] unfolding P(3) by simp
  then have "distinct (map (call_id \<circ> fst) (rs_done s))" by (rule distinct_count)
  then have dist: "distinct (map fst (rs_done s))" by (auto simp: distinct_map inj_on_def)
  have "count (in_flight s) (call_id k) = (if k \<in> fst ` set (rs_done s) then 0 else 1)" if k: "k < length (rs_calls s)" for k
  proof -
    have "call_id k \<in> set (map (call_id \<circ> fst) (rs_done s)) \<longleftrightarrow> k \<in> fst ` set (rs_done s)"
    proof -
      have inj: "inj_on call_id {..<length (rs_calls s)}" using s(3) by (auto simp: inj_on_def call_id_inject)
      have "fst ` set (rs_done s) \<subseteq> {..<length (rs_calls s)}" using P(7) by auto
      from inj_on_image_mem_iff [OF inj _ this, of k] k show ?thesis by (simp add: image_comp)
    qed
    then have "count ?done (call_id k) = (if k \<in> fst ` set (rs_done s) then 1 else 0)"
      using \<open>distinct (map (call_id \<circ> fst) (rs_done s))\<close> unfolding distinct_count_atmost_1 by simp
    then show ?thesis using one [OF k] unfolding P(3) by (simp split: if_splits)
  qed
  then show ?thesis using s(1) P(7) dist by (intro exI [of _ s]) auto
qed

text \<open>A server with one echo method, used with two calls that are answered in reverse order.\<close>

definition echo_services :: services where
  "echo_services = [''S'' \<mapsto> [''echo'' \<mapsto> (\<lambda>request. Some request)]]"

theorem rpc_answers_calls_witness:
  "\<exists>s. rfold rpc_act [Call (''S'', ''echo'', [1]), Call (''S'', ''none'', [2]), AtServer, AtServer, Answer 0, AtClient, AtClient]
      (new_rpc_system echo_services) = Inr s \<and> distinct (map fst (rs_done s)) \<and>
    (\<forall>(k, r)\<in>set (rs_done s). k < length (rs_calls s) \<and> r = answer echo_services (rs_calls s ! k)) \<and>
    (\<forall>k < length (rs_calls s). count (in_flight s) (call_id k) = (if k \<in> fst ` set (rs_done s) then 0 else 1))"
  using rpc_answers_calls [of "[Call (''S'', ''echo'', [1]), Call (''S'', ''none'', [2]), AtServer, AtServer, Answer 0, AtClient, AtClient]"
    echo_services] by auto

end
