(* ===== verification/Rpc_Server.thy ===== *)
theory Rpc_Server
  imports Rpc_Channel
begin

text \<open>
  The RPC server (\<open>src/muduo/net/protorpc/RpcServer.h\<close>, \<open>RpcServer.cc\<close>): the table of services, and a channel for every
  connection. A channel lives on a heap; the context of its connection owns it and the message callback holds its bare
  address, as does the closure of every service that has not answered yet. The channels read the table of the server, so a
  service that is registered later is found too. Accepting and closing are those of \<open>Tcp_Server\<close>; here a connection is
  its callback and its context.
  Shown: while closures run only on live connections no dangling address is used, and every request is answered exactly
  once, on its own connection and by its own outcome; a closure that runs after the connection went down uses a
  channel that is gone.
\<close>

section \<open>State\<close>

record rpc_conn =
  rv_up :: bool
  rv_messageCallback :: "nat option"      \<comment> \<open>the channel \<open>onMessage\<close> is bound to\<close>
  rv_context :: "nat option"              \<comment> \<open>the channel the context owns\<close>

record rpc_server =
  rv_service :: services                                 \<comment> \<open>\<open>service_\<close>\<close>
  rv_conns :: "nat \<Rightarrow> rpc_conn option"
  rv_heap :: "nat \<Rightarrow> (nat \<times> rpc_channel) option"        \<comment> \<open>a channel and its \<open>conn_\<close>\<close>
  rv_fresh :: nat
  rv_pending :: "(nat \<times> nat \<times> 64 word \<times> byte list) list"  \<comment> \<open>closures: channel, connection, id, response\<close>
  rv_sent :: "(nat \<times> rpc_message) list"                  \<comment> \<open>what was sent on each connection\<close>
  rv_received :: "(nat \<times> rpc_message \<times> (rpc_error + byte list)) list"  \<comment> \<open>requests with what the table had for them\<close>

definition new_RpcServer :: rpc_server where
  "new_RpcServer = \<lparr>rv_service = Map.empty, rv_conns = Map.empty, rv_heap = Map.empty, rv_fresh = 0, rv_pending = [], rv_sent = [], rv_received = []\<rparr>"

section \<open>Operations\<close>

definition registerService :: "string \<Rightarrow> (string \<Rightarrow> (byte list \<Rightarrow> byte list option) option) \<Rightarrow> rpc_server \<Rightarrow> rpc_server" where
  "registerService full_name service s = s\<lparr>rv_service := (rv_service s)(full_name \<mapsto> service)\<rparr>"

text \<open>Assigning the context releases the channel it owned.\<close>

definition release_context :: "rpc_conn \<Rightarrow> rpc_server \<Rightarrow> rpc_server" where
  "release_context c s = (case rv_context c of Some ch \<Rightarrow> s\<lparr>rv_heap := (rv_heap s)(ch := None)\<rparr> | None \<Rightarrow> s)"

definition rpc_onConnection :: "nat \<Rightarrow> rpc_conn \<Rightarrow> rpc_server \<Rightarrow> rpc_server" where
  "rpc_onConnection k c s =
     (if rv_up c then
        let channel = rv_fresh s;
            s1 = s\<lparr>rv_heap := (rv_heap s)(channel \<mapsto> (k, setServices (rv_service s) new_RpcChannel)), rv_fresh := channel + 1\<rparr>
        in (release_context c s1)\<lparr>rv_conns := (rv_conns s)(k \<mapsto> c\<lparr>rv_messageCallback := Some channel, rv_context := Some channel\<rparr>)\<rparr>
      else (release_context c s)\<lparr>rv_conns := (rv_conns s)(k \<mapsto> c\<lparr>rv_context := None\<rparr>)\<rparr>)"

text \<open>A message of connection \<open>k\<close> goes to the channel its callback is bound to, which looks into the table of the server.\<close>

definition rpc_onMessage :: "nat \<Rightarrow> rpc_message \<Rightarrow> rpc_server \<Rightarrow> rpc_server result" where
  "rpc_onMessage k m s =
     (case Option.bind (rv_conns s k) rv_messageCallback of None \<Rightarrow> Inl BadCallback
      | Some ch \<Rightarrow>
     (case rv_heap s ch of None \<Rightarrow> Inl UseAfterFree
      | Some (conn, channel) \<Rightarrow>
          assert_ok (k = conn)
            (rbind (onRpcMessage m (setServices (rv_service s) channel)) (\<lambda>(ef, channel').
               let s1 = s\<lparr>rv_heap := (rv_heap s)(ch \<mapsto> (conn, channel')),
                     rv_received := (if msg_type m = REQUEST then rv_received s @ [(k, m, dispatch (Some (rv_service s)) m)] else rv_received s)\<rparr>
               in Inr (case ef of RpcServe i response \<Rightarrow> s1\<lparr>rv_pending := rv_pending s1 @ [(ch, conn, i, response)]\<rparr>
                       | RpcSend r \<Rightarrow> s1\<lparr>rv_sent := rv_sent s1 @ [(conn, r)]\<rparr> | _ \<Rightarrow> s1)))))"

text \<open>The service runs the closure of the \<open>n\<close>th call that waits: \<open>doneCallback\<close> of the channel, through its address.\<close>

definition rpc_answer :: "nat \<Rightarrow> rpc_server \<Rightarrow> rpc_server result" where
  "rpc_answer n s =
     (if n < length (rv_pending s) then
        let (ch, k, i, response) = rv_pending s ! n
        in (case rv_heap s ch of None \<Rightarrow> Inl UseAfterFree
            | Some (conn, channel) \<Rightarrow> Inr (s\<lparr>rv_pending := take n (rv_pending s) @ drop (n + 1) (rv_pending s), rv_sent := rv_sent s @ [(conn, doneCallback response i)]\<rparr>))
      else Inr s)"

datatype rpc_server_action = Register string "string \<Rightarrow> (byte list \<Rightarrow> byte list option) option"
  | ConnUp nat | ConnDown nat | Message nat rpc_message | AnswerCall nat

definition rpc_server_act :: "rpc_server_action \<Rightarrow> rpc_server \<Rightarrow> rpc_server result" where
  "rpc_server_act a s =
     (case a of
        Register name service \<Rightarrow> Inr (registerService name service s)
      | ConnUp k \<Rightarrow> Inr (rpc_onConnection k \<lparr>rv_up = True, rv_messageCallback = None, rv_context = None\<rparr> s)
      | ConnDown k \<Rightarrow> (case rv_conns s k of Some c \<Rightarrow> Inr (rpc_onConnection k (c\<lparr>rv_up := False\<rparr>) s) | None \<Rightarrow> Inr s)
      | Message k m \<Rightarrow> rpc_onMessage k m s
      | AnswerCall n \<Rightarrow> rpc_answer n s)"

section \<open>Invariant\<close>

definition conn_live :: "rpc_server \<Rightarrow> nat \<Rightarrow> bool" where
  "conn_live s k \<longleftrightarrow> (case rv_conns s k of Some c \<Rightarrow> rv_up c | None \<Rightarrow> False)"

text \<open>What the TCP layer guarantees: a connection comes up once and goes down once, messages arrive in between; and what the services
  have to guarantee: closures run on live connections.\<close>

fun act_allowed :: "rpc_server_action \<Rightarrow> rpc_server \<Rightarrow> bool" where
  "act_allowed (Register name service) s = True"
| "act_allowed (ConnUp k) s = (rv_conns s k = None)"
| "act_allowed (ConnDown k) s = conn_live s k"
| "act_allowed (Message k m) s = (conn_live s k \<and> (msg_type m = RESPONSE \<longrightarrow> msg_response m \<noteq> None \<or> msg_error m \<noteq> None))"
| "act_allowed (AnswerCall n) s = (n < length (rv_pending s) \<and> conn_live s (fst (snd (rv_pending s ! n))))"

definition rpc_reply :: "64 word \<Rightarrow> rpc_error + byte list \<Rightarrow> rpc_message" where
  "rpc_reply i out = (case out of Inr response \<Rightarrow> doneCallback response i | Inl err \<Rightarrow> response_message i None (Some err))"

definition rpc_server_inv :: "rpc_server \<Rightarrow> bool" where
  "rpc_server_inv s \<longleftrightarrow>
     (\<forall>k c. rv_conns s k = Some c \<and> rv_up c \<longrightarrow>
        (\<exists>ch channel. rv_messageCallback c = Some ch \<and> rv_context c = Some ch \<and> rv_heap s ch = Some (k, channel))) \<and>
     (\<forall>ch v. rv_heap s ch = Some v \<longrightarrow> ch < rv_fresh s \<and> rv_conns s (fst v) \<noteq> None) \<and>
     (\<forall>ch k i r. (ch, k, i, r) \<in> set (rv_pending s) \<longrightarrow> rv_conns s k \<noteq> None \<and>
        (conn_live s k \<longrightarrow> (\<exists>c. rv_conns s k = Some c \<and> rv_context c = Some ch))) \<and>
     mset (map (\<lambda>(k, m, out). (k, rpc_reply (msg_id m) out)) (rv_received s)) =
       mset (rv_sent s) + mset (map (\<lambda>(ch, k, i, r). (k, doneCallback r i)) (rv_pending s))"

lemma inv_parts:
  assumes "rpc_server_inv s"
  shows "rv_conns s k = Some c \<Longrightarrow> rv_up c \<Longrightarrow> \<exists>ch channel. rv_messageCallback c = Some ch \<and> rv_context c = Some ch \<and> rv_heap s ch = Some (k, channel)"
    "rv_heap s ch = Some v \<Longrightarrow> ch < rv_fresh s \<and> rv_conns s (fst v) \<noteq> None"
    "(ch, k, i, r) \<in> set (rv_pending s) \<Longrightarrow> conn_live s k \<Longrightarrow> \<exists>c. rv_conns s k = Some c \<and> rv_context c = Some ch"
    "(ch, k, i, r) \<in> set (rv_pending s) \<Longrightarrow> rv_conns s k \<noteq> None"
    "mset (map (\<lambda>(k, m, out). (k, rpc_reply (msg_id m) out)) (rv_received s)) =
       mset (rv_sent s) + mset (map (\<lambda>(ch, k, i, r). (k, doneCallback r i)) (rv_pending s))"
  using assms unfolding rpc_server_inv_def by blast+

lemma inv_intro:
  assumes "\<And>k c. rv_conns s k = Some c \<Longrightarrow> rv_up c \<Longrightarrow> \<exists>ch channel. rv_messageCallback c = Some ch \<and> rv_context c = Some ch \<and> rv_heap s ch = Some (k, channel)"
    and "\<And>ch v. rv_heap s ch = Some v \<Longrightarrow> ch < rv_fresh s \<and> rv_conns s (fst v) \<noteq> None"
    and "\<And>ch k i r. (ch, k, i, r) \<in> set (rv_pending s) \<Longrightarrow> conn_live s k \<Longrightarrow> \<exists>c. rv_conns s k = Some c \<and> rv_context c = Some ch"
    and "\<And>ch k i r. (ch, k, i, r) \<in> set (rv_pending s) \<Longrightarrow> rv_conns s k \<noteq> None"
    and "mset (map (\<lambda>(k, m, out). (k, rpc_reply (msg_id m) out)) (rv_received s)) =
       mset (rv_sent s) + mset (map (\<lambda>(ch, k, i, r). (k, doneCallback r i)) (rv_pending s))"
  shows "rpc_server_inv s"
  unfolding rpc_server_inv_def using assms by blast

lemma up_ok:
  assumes "rpc_server_inv s" "rv_conns s k = None"
  shows "rpc_server_inv (rpc_onConnection k \<lparr>rv_up = True, rv_messageCallback = None, rv_context = None\<rparr> s)"
proof -
  let ?c = "\<lparr>rv_up = True, rv_messageCallback = Some (rv_fresh s), rv_context = Some (rv_fresh s)\<rparr>"
  let ?s = "rpc_onConnection k \<lparr>rv_up = True, rv_messageCallback = None, rv_context = None\<rparr> s"
  note p = inv_parts [OF assms(1)]
  have f: "rv_conns ?s = (rv_conns s)(k \<mapsto> ?c)" "rv_heap ?s = (rv_heap s)(rv_fresh s \<mapsto> (k, setServices (rv_service s) new_RpcChannel))"
    "rv_fresh ?s = rv_fresh s + 1" "rv_pending ?s = rv_pending s" "rv_sent ?s = rv_sent s" "rv_received ?s = rv_received s"
    by (simp_all add: rpc_onConnection_def release_context_def Let_def)
  have nf: "rv_heap s ch \<noteq> None \<Longrightarrow> ch \<noteq> rv_fresh s" for ch using p(2) by blast
  show ?thesis
  proof (rule inv_intro, unfold f, goal_cases)
    case (1 k' c)
    then show ?case using p(1) [of k' c] nf by (cases "k' = k") fastforce+
  next
    case (2 ch v)
    then show ?case using p(2) [of ch v] by (auto split: if_splits)
  next
    case (3 ch k' i r)
    then have "k' \<noteq> k" using p(4) assms(2) by metis
    with 3 have "conn_live s k'" by (simp add: conn_live_def f)
    with 3 p(3) \<open>k' \<noteq> k\<close> show ?case by auto
  next
    case (4 ch k' i r)
    then show ?case using p(4) by auto
  next
    case 5
    then show ?case by (rule p(5))
  qed
qed

lemma down_ok:
  assumes "rpc_server_inv s" "conn_live s k"
  shows "\<exists>s'. rpc_server_act (ConnDown k) s = Inr s' \<and> rpc_server_inv s'"
proof -
  note p = inv_parts [OF assms(1)]
  from assms(2) obtain c where c: "rv_conns s k = Some c" "rv_up c" by (auto simp: conn_live_def split: option.splits)
  from p(1) [OF c] obtain ch channel where ch: "rv_context c = Some ch" "rv_heap s ch = Some (k, channel)" by blast
  let ?c = "c\<lparr>rv_up := False, rv_context := None\<rparr>" and ?s = "rpc_onConnection k (c\<lparr>rv_up := False\<rparr>) s"
  have f: "rv_conns ?s = (rv_conns s)(k \<mapsto> ?c)" "rv_heap ?s = (rv_heap s)(ch := None)" "rv_fresh ?s = rv_fresh s"
    "rv_pending ?s = rv_pending s" "rv_sent ?s = rv_sent s" "rv_received ?s = rv_received s"
    using ch(1) by (simp_all add: rpc_onConnection_def release_context_def)
  have "rpc_server_inv ?s"
  proof (rule inv_intro, unfold f, goal_cases)
    case (1 k' c')
    then show ?case using p(1) [of k' c'] ch(2) by (cases "k' = k") fastforce+
  next
    case (2 ch' v)
    then show ?case using p(2) [of ch' v] by (auto split: if_splits)
  next
    case (3 ch' k' i r)
    then have "k' \<noteq> k" "conn_live s k'" by (auto simp: conn_live_def f split: if_splits)
    with 3 p(3) show ?case by auto
  next
    case (4 ch' k' i r)
    then show ?case using p(4) by auto
  next
    case 5
    then show ?case by (rule p(5))
  qed
  then show ?thesis using c by (simp add: rpc_server_act_def)
qed

lemma onRpc_effect:
  assumes "msg_type m = RESPONSE \<Longrightarrow> msg_response m \<noteq> None \<or> msg_error m \<noteq> None"
  shows "\<exists>ef ch'. onRpcMessage m ch = Inr (ef, ch') \<and> (if msg_type m = REQUEST
    then ef = (case dispatch (rc_services ch) m of Inr r \<Rightarrow> RpcServe (msg_id m) r | Inl err \<Rightarrow> RpcSend (response_message (msg_id m) None (Some err)))
    else ef = RpcNothing \<or> (\<exists>d r. ef = RpcDone d r))"
proof (cases "msg_type m")
  case REQUEST
  then show ?thesis by (cases "dispatch (rc_services ch) m") (simp_all add: onRpcMessage_def)
next
  case RESPONSE
  with assms show ?thesis by (cases "rc_outstandings ch (msg_id m)") (simp_all add: onRpcMessage_def assert_ok_I Let_def split: option.split bool.split)
next
  case ERROR
  then show ?thesis by (simp add: onRpcMessage_def)
qed

lemma message_ok:
  assumes "rpc_server_inv s" "act_allowed (Message k m) s"
  shows "\<exists>s'. rpc_onMessage k m s = Inr s' \<and> rpc_server_inv s'"
proof -
  note p = inv_parts [OF assms(1)]
  from assms(2) obtain c where c: "rv_conns s k = Some c" "rv_up c" by (auto simp: conn_live_def split: option.splits)
  from p(1) [OF c] obtain ch channel where ch: "rv_messageCallback c = Some ch" "rv_context c = Some ch" "rv_heap s ch = Some (k, channel)" by blast
  have t: "msg_type m = RESPONSE \<Longrightarrow> msg_response m \<noteq> None \<or> msg_error m \<noteq> None" using assms(2) by simp
  obtain ef channel' where e: "onRpcMessage m (setServices (rv_service s) channel) = Inr (ef, channel')"
    "msg_type m = REQUEST \<Longrightarrow> ef = (case dispatch (Some (rv_service s)) m of Inr r \<Rightarrow> RpcServe (msg_id m) r | Inl err \<Rightarrow> RpcSend (response_message (msg_id m) None (Some err)))"
    "msg_type m \<noteq> REQUEST \<Longrightarrow> ef = RpcNothing \<or> (\<exists>d r. ef = RpcDone d r)"
    using onRpc_effect [of m "setServices (rv_service s) channel", OF t] by (auto simp: setServices_def)
  define s' where "s' = (let s1 = s\<lparr>rv_heap := (rv_heap s)(ch \<mapsto> (k, channel')),
      rv_received := (if msg_type m = REQUEST then rv_received s @ [(k, m, dispatch (Some (rv_service s)) m)] else rv_received s)\<rparr>
    in case ef of RpcServe i response \<Rightarrow> s1\<lparr>rv_pending := rv_pending s1 @ [(ch, k, i, response)]\<rparr>
                       | RpcSend r \<Rightarrow> s1\<lparr>rv_sent := rv_sent s1 @ [(k, r)]\<rparr> | _ \<Rightarrow> s1)"
  have f: "rv_conns s' = rv_conns s" "rv_heap s' = (rv_heap s)(ch \<mapsto> (k, channel'))" "rv_fresh s' = rv_fresh s"
    by (cases ef; simp add: s'_def)+
  have pend: "set (rv_pending s') \<subseteq> set (rv_pending s) \<union> {(ch, k, i, r) | i r. True}" by (cases ef) (auto simp: s'_def)
  have live: "conn_live s' = conn_live s" by (simp add: fun_eq_iff conn_live_def f)
  have acc: "mset (map (\<lambda>(k, m, out). (k, rpc_reply (msg_id m) out)) (rv_received s')) =
       mset (rv_sent s') + mset (map (\<lambda>(ch, k, i, r). (k, doneCallback r i)) (rv_pending s'))"
    using p(5) e(2,3) by (cases "msg_type m = REQUEST") (auto simp: s'_def rpc_reply_def split: sum.splits)
  have "rpc_server_inv s'"
  proof (rule inv_intro, unfold live f, goal_cases)
    case (1 k' c')
    then show ?case using p(1) [of k' c'] ch(3) by auto
  next
    case (2 ch' v)
    then show ?case using p(2) [of ch' v] p(2) [OF ch(3)] c by (auto split: if_splits)
  next
    case (3 ch' k' i r)
    then show ?case using p(3) pend c(1) ch(2) by blast
  next
    case (4 ch' k' i r)
    then show ?case using p(4) pend c(1) by blast
  next
    case 5
    then show ?case by (rule acc)
  qed
  moreover have "rpc_onMessage k m s = Inr s'" using c ch e(1) by (simp add: rpc_onMessage_def s'_def Let_def)
  ultimately show ?thesis by blast
qed

lemma answer_ok:
  assumes "rpc_server_inv s" "act_allowed (AnswerCall n) s"
  shows "\<exists>s'. rpc_answer n s = Inr s' \<and> rpc_server_inv s'"
proof -
  note p = inv_parts [OF assms(1)]
  obtain ch k i r where x: "rv_pending s ! n = (ch, k, i, r)" by (metis prod_cases4)
  from assms(2) x have n: "n < length (rv_pending s)" and live: "conn_live s k" by auto
  have m: "(ch, k, i, r) \<in> set (rv_pending s)" using n x by (metis nth_mem)
  from p(3) [OF m live] obtain c where c: "rv_conns s k = Some c" "rv_context c = Some ch" by blast
  moreover have "rv_up c" using live c by (simp add: conn_live_def)
  ultimately obtain channel where ch: "rv_heap s ch = Some (k, channel)" using p(1) by fastforce
  let ?s = "s\<lparr>rv_pending := take n (rv_pending s) @ drop (n + 1) (rv_pending s), rv_sent := rv_sent s @ [(k, doneCallback r i)]\<rparr>"
  have split: "rv_pending s = take n (rv_pending s) @ (ch, k, i, r) # drop (n + 1) (rv_pending s)" using id_take_nth_drop [OF n] x by simp
  have sub: "x \<in> set (rv_pending ?s) \<Longrightarrow> x \<in> set (rv_pending s)" for x by (auto dest: in_set_takeD in_set_dropD)
  have lv: "conn_live ?s = conn_live s" by (simp add: fun_eq_iff conn_live_def)
  have "rpc_server_inv ?s"
  proof (rule inv_intro, unfold lv, goal_cases)
    case (1 k' c')
    then show ?case using p(1) by simp
  next
    case (2 ch' v)
    then show ?case using p(2) by simp
  next
    case (3 ch' k' i' r')
    then show ?case using p(3) [OF sub] by simp
  next
    case (4 ch' k' i' r')
    then show ?case using p(4) [OF sub] by simp
  next
    case 5
    show ?case using p(5) by (subst (asm) split) simp
  qed
  then show ?thesis using n x ch by (simp add: rpc_answer_def)
qed

lemma rpc_server_act_ok:
  assumes "rpc_server_inv s" "act_allowed a s"
  shows "\<exists>s'. rpc_server_act a s = Inr s' \<and> rpc_server_inv s'"
proof (cases a)
  case (Register name service)
  have "rpc_server_inv (registerService name service s)" using assms(1) by (simp add: rpc_server_inv_def registerService_def conn_live_def)
  then show ?thesis by (simp add: rpc_server_act_def Register)
next
  case (ConnUp k)
  then show ?thesis using up_ok [OF assms(1)] assms(2) by (simp add: rpc_server_act_def)
next
  case (ConnDown k)
  then show ?thesis using down_ok [OF assms(1)] assms(2) by simp
next
  case (Message k m)
  then show ?thesis using message_ok assms by (simp add: rpc_server_act_def)
next
  case (AnswerCall n)
  then show ?thesis using answer_ok assms by (simp add: rpc_server_act_def)
qed

section \<open>Runs\<close>

inductive rpc_server_reach :: "rpc_server \<Rightarrow> bool" where
  start: "rpc_server_reach new_RpcServer"
| step: "rpc_server_reach s \<Longrightarrow> act_allowed a s \<Longrightarrow> rpc_server_act a s = Inr s' \<Longrightarrow> rpc_server_reach s'"

lemma rpc_server_reach_inv: "rpc_server_reach s \<Longrightarrow> rpc_server_inv s"
proof (induction rule: rpc_server_reach.induct)
  case start
  show ?case by (simp add: rpc_server_inv_def new_RpcServer_def)
next
  case (step s a s')
  then show ?case using rpc_server_act_ok [of s a] by auto
qed

text \<open>A run of several actions, each allowed where it happens.\<close>

lemma rpc_server_run:
  assumes "rpc_server_reach s" "act_allowed a s"
  shows "\<exists>s'. rpc_server_act a s = Inr s' \<and> rpc_server_reach s'"
  using rpc_server_act_ok [OF rpc_server_reach_inv [OF assms(1)] assms(2)] rpc_server_reach.step [OF assms] by blast

section \<open>Properties\<close>

text \<open>C11. The server accounts for every request: under any sequence of registrations, connections that come and go, messages, and closures that
  run on live connections in any order, the next such action succeeds; and at any time the replies sent and the closures that
  still wait are, one for one, the replies to the requests received, each on the connection of its request, with its
  identifier and with what the table of services had for it when it arrived.\<close>

theorem rpc_server_accounts:
  assumes "rpc_server_reach s" "act_allowed a s"
  shows "\<exists>s'. rpc_server_act a s = Inr s' \<and>
    mset (map (\<lambda>(k, m, out). (k, rpc_reply (msg_id m) out)) (rv_received s')) =
      mset (rv_sent s') + mset (map (\<lambda>(ch, k, i, r). (k, doneCallback r i)) (rv_pending s'))"
  using rpc_server_run [OF assms] rpc_server_reach_inv inv_parts(5) by blast

text \<open>A closure that runs after its connection went down uses a channel that is gone: \<open>onConnection\<close> drops the only owner of the
  channel, and the closure keeps the bare address.\<close>

theorem rpc_late_answer_dangles:
  assumes "rpc_server_reach s" "n < length (rv_pending s)" "rv_pending s ! n = (ch, k, i, r)" "conn_live s k"
  shows "\<exists>s'. rpc_server_act (ConnDown k) s = Inr s' \<and> rpc_server_act (AnswerCall n) s' = Inl UseAfterFree"
proof -
  have m: "(ch, k, i, r) \<in> set (rv_pending s)" using assms(2,3) by (metis nth_mem)
  obtain c where c: "rv_conns s k = Some c" "rv_context c = Some ch" using inv_parts(3) [OF rpc_server_reach_inv [OF assms(1)] m assms(4)] by blast
  let ?s = "rpc_onConnection k (c\<lparr>rv_up := False\<rparr>) s"
  have "rpc_server_act (ConnDown k) s = Inr ?s" "rv_heap ?s ch = None" "rv_pending ?s = rv_pending s"
    using c by (simp_all add: rpc_server_act_def rpc_onConnection_def release_context_def)
  then show ?thesis using assms(2,3) by (simp add: rpc_server_act_def rpc_answer_def)
qed

text \<open>A service is registered, a connection comes up, and a request arrives.\<close>

definition sample_request :: rpc_message where
  "sample_request = request_message 7 ''S'' ''echo'' [1, 2]"

lemma sample_rpc_server:
  "\<exists>s. rpc_server_reach s \<and> rv_pending s = [(0, 3, 7, [1, 2])] \<and> conn_live s 3"
proof -
  let ?e = "[''echo'' \<mapsto> (\<lambda>request. Some request)]"
  define s1 where "s1 = registerService ''S'' ?e new_RpcServer"
  define s2 where "s2 = rpc_onConnection 3 \<lparr>rv_up = True, rv_messageCallback = None, rv_context = None\<rparr> s1"
  have a1: "rpc_server_act (Register ''S'' ?e) new_RpcServer = Inr s1" by (simp add: rpc_server_act_def s1_def)
  have r1: "rpc_server_reach s1" by (rule rpc_server_reach.step [OF start _ a1]) simp
  have a2: "rpc_server_act (ConnUp 3) s1 = Inr s2" by (simp add: rpc_server_act_def s2_def)
  have "rv_conns s1 3 = None" by (simp add: s1_def registerService_def new_RpcServer_def)
  then have r2: "rpc_server_reach s2" by (intro rpc_server_reach.step [OF r1 _ a2]) simp
  obtain s3 where a3: "rpc_server_act (Message 3 sample_request) s2 = Inr s3" "rv_pending s3 = [(0, 3, 7, [1, 2])]" "conn_live s3 3"
    by (simp add: rpc_server_act_def rpc_onMessage_def s2_def rpc_onConnection_def release_context_def Let_def s1_def registerService_def new_RpcServer_def
        onRpcMessage_def dispatch_def setServices_def sample_request_def request_message_def conn_live_def new_RpcChannel_def)
  have "act_allowed (Message 3 sample_request) s2"
    by (simp add: s2_def rpc_onConnection_def release_context_def Let_def conn_live_def sample_request_def request_message_def)
  then have "rpc_server_reach s3" using rpc_server_reach.step [OF r2 _ a3(1)] by blast
  with a3 show ?thesis by blast
qed

theorem rpc_server_accounts_witness:
  "\<exists>s s'. rpc_server_reach s \<and> rpc_server_act (AnswerCall 0) s = Inr s' \<and>
     mset (map (\<lambda>(k, m, out). (k, rpc_reply (msg_id m) out)) (rv_received s')) =
       mset (rv_sent s') + mset (map (\<lambda>(ch, k, i, r). (k, doneCallback r i)) (rv_pending s'))"
proof -
  obtain s where s: "rpc_server_reach s" "rv_pending s = [(0, 3, 7, [1, 2])]" "conn_live s 3" using sample_rpc_server by blast
  have "act_allowed (AnswerCall 0) s" using s by simp
  from rpc_server_accounts [OF s(1) this] s(1) show ?thesis by blast
qed

theorem rpc_late_answer_dangles_witness:
  "\<exists>s s'. rpc_server_reach s \<and> rpc_server_act (ConnDown 3) s = Inr s' \<and> rpc_server_act (AnswerCall 0) s' = Inl UseAfterFree"
proof -
  obtain s where s: "rpc_server_reach s" "rv_pending s = [(0, 3, 7, [1, 2])]" "conn_live s 3" using sample_rpc_server by blast
  from rpc_late_answer_dangles [OF s(1), of 0 0 3 7 "[1, 2]"] s show ?thesis by auto
qed

end
