(* ===== verification/Monitors.thy ===== *)
theory Monitors
  imports Muduo_Prelude
begin

text \<open>
  Threads that share a mutex and condition variables (\<open>src/muduo/base/Mutex.h\<close>, \<open>Condition.h\<close>), for the
  classes of \<open>src/muduo/base\<close> built on them. The threads of a system are a list of program points; a
  critical section is one step; a thread in \<open>wait()\<close> stands at a waiting program point and holds no
  lock. \<open>notify\<close> moves one waiting thread, any of them, back to the head of its loop, \<open>notifyAll\<close> all of
  them. The locale \<open>signalling\<close> holds the argument why waking a single thread is enough.
\<close>

section \<open>Condition variables\<close>

text \<open>\<open>notify_ok waits ts w\<close>: \<open>w\<close> is a possible choice of the thread woken by \<open>notify\<close>.\<close>

definition notify_ok :: "('p \<Rightarrow> bool) \<Rightarrow> 'p list \<Rightarrow> nat option \<Rightarrow> bool" where
  "notify_ok waits ts w =
     (case w of None \<Rightarrow> list_all (\<lambda>p. \<not> waits p) ts | Some j \<Rightarrow> j < length ts \<and> waits (ts ! j))"

definition notify :: "('p \<Rightarrow> 'p) \<Rightarrow> nat option \<Rightarrow> 'p list \<Rightarrow> 'p list" where
  "notify wake w ts = (case w of None \<Rightarrow> ts | Some j \<Rightarrow> ts[j := wake (ts ! j)])"

definition notifyAll :: "('p \<Rightarrow> bool) \<Rightarrow> ('p \<Rightarrow> 'p) \<Rightarrow> 'p list \<Rightarrow> 'p list" where
  "notifyAll waits wake ts = map (\<lambda>p. if waits p then wake p else p) ts"

section \<open>Counting threads\<close>

definition count_at :: "('p \<Rightarrow> bool) \<Rightarrow> 'p list \<Rightarrow> nat" where
  "count_at P ts = length (filter P ts)"

lemma count_at_Nil [simp]: "count_at P [] = 0"
  by (simp add: count_at_def)

lemma count_at_Cons [simp]: "count_at P (t # ts) = (if P t then 1 else 0) + count_at P ts"
  by (simp add: count_at_def)

lemma count_at_update:
  "i < length ts \<Longrightarrow>
     count_at P (ts[i := p]) + (if P (ts ! i) then 1 else 0) = count_at P ts + (if P p then 1 else 0)"
proof (induction ts arbitrary: i)
  case (Cons t ts)
  then show ?case by (cases i) auto
qed simp

lemma count_at_pos: "0 < count_at P ts \<longleftrightarrow> (\<exists>i < length ts. P (ts ! i))"
  by (auto simp: count_at_def filter_empty_conv set_conv_nth)

lemma count_at_ex: "0 < count_at P ts \<longleftrightarrow> (\<exists>p\<in>set ts. P p)"
  by (auto simp: count_at_def filter_empty_conv)

lemma count_at_mem: "0 < count_at ((=) p) ts \<longleftrightarrow> p \<in> set ts"
  by (auto simp: count_at_def filter_empty_conv)

lemma count_at_zero: "count_at P ts = 0 \<longleftrightarrow> list_all (\<lambda>p. \<not> P p) ts"
  by (simp add: count_at_def filter_empty_conv list_all_iff)

lemma in_set_update: "q \<in> set (ts[i := p]) \<Longrightarrow> q = p \<or> q \<in> set ts"
  using set_update_subset_insert [of ts i p] by auto

lemma length_notify [simp]: "length (notify wake w ts) = length ts"
  by (simp add: notify_def split: option.split)

lemma length_notifyAll [simp]: "length (notifyAll waits wake ts) = length ts"
  by (simp add: notifyAll_def)

text \<open>The moves of a single thread, by what they do to the number of threads at \<open>P\<close>.\<close>

lemma count_at_leave: "i < length ts \<Longrightarrow> P (ts ! i) \<Longrightarrow> \<not> P p \<Longrightarrow> Suc (count_at P (ts[i := p])) = count_at P ts"
  using count_at_update [of i ts P p] by simp

lemma count_at_enter: "i < length ts \<Longrightarrow> \<not> P (ts ! i) \<Longrightarrow> P p \<Longrightarrow> count_at P (ts[i := p]) = Suc (count_at P ts)"
  using count_at_update [of i ts P p] by simp

lemma count_at_same: "i < length ts \<Longrightarrow> P (ts ! i) = P p \<Longrightarrow> count_at P (ts[i := p]) = count_at P ts"
  using count_at_update [of i ts P p] by (simp split: if_splits)

text \<open>A move that neither starts waiting nor stops being active.\<close>

lemma count_at_plain:
  assumes "i < length ts" "active (ts ! i) \<Longrightarrow> active p" "waits p \<Longrightarrow> waits (ts ! i)"
  shows "count_at waits (ts[i := p]) = 0 \<or>
    0 < count_at waits ts \<and> count_at active ts \<le> count_at active (ts[i := p])"
  using assms count_at_update [of i ts waits p] count_at_update [of i ts active p] by (auto split: if_splits)

lemma notify_None: "notify_ok waits ts None \<Longrightarrow> count_at waits ts = 0"
  by (simp add: notify_ok_def count_at_zero)

lemma notify_nobody: "notify_ok ((=) p) ts w \<Longrightarrow> p \<notin> set ts \<Longrightarrow> w = None"
  by (auto simp: notify_ok_def split: option.splits)

text \<open>The choice does not depend on where the notifying thread goes.\<close>

lemma notify_ok_update:
  assumes "notify_ok waits (ts[i := p]) w" "\<not> waits p" "\<not> waits q" "i < length ts"
  shows "notify_ok waits (ts[i := q]) w"
proof (cases w)
  case None
  then show ?thesis using assms(1) count_at_same [of i "ts[i := p]" waits q] assms(2-4)
    by (simp add: notify_ok_def flip: count_at_zero)
next
  case (Some j)
  then show ?thesis using assms by (auto simp: notify_ok_def nth_list_update split: if_splits)
qed

text \<open>A notification leaves nobody waiting, or makes one waiting thread active.\<close>

lemma notify_wakes:
  assumes "notify_ok waits ts w" "\<And>p. waits p \<Longrightarrow> active (wake p) \<and> \<not> active p"
  shows "w = None \<and> count_at waits ts = 0 \<or>
    0 < count_at waits ts \<and> count_at active (notify wake w ts) = Suc (count_at active ts)"
proof (cases w)
  case None
  then show ?thesis using assms(1) notify_None [of waits ts] by simp
next
  case (Some j)
  then have "j < length ts" "waits (ts ! j)" using assms(1) by (simp_all add: notify_ok_def)
  then show ?thesis using Some assms(2) [of "ts ! j"] count_at_enter [of j ts active "wake (ts ! j)"] count_at_pos [of waits ts]
    by (auto simp: notify_def)
qed

text \<open>Threads at other program points are not concerned.\<close>

lemma notify_other:
  assumes "notify_ok waits ts w" "\<And>p. waits p \<Longrightarrow> P (wake p) = P p"
  shows "count_at P (notify wake w ts) = count_at P ts"
proof (cases w)
  case (Some j)
  then have "j < length ts" "waits (ts ! j)" using assms(1) by (simp_all add: notify_ok_def)
  then show ?thesis using Some assms(2) [of "ts ! j"] count_at_same [of j ts P "wake (ts ! j)"] by (simp add: notify_def)
qed (simp add: notify_def)

lemma notifyAll_nobody: "p \<notin> set ts \<Longrightarrow> notifyAll ((=) p) wake ts = ts"
  by (auto simp: notifyAll_def intro!: map_idI)

lemma notifyAll_none:
  assumes "\<And>p. waits p \<Longrightarrow> \<not> waits (wake p)"
  shows "count_at waits (notifyAll waits wake ts) = 0"
  using assms by (auto simp: count_at_zero notifyAll_def list_all_iff)

lemma notifyAll_other:
  assumes "\<And>p. waits p \<Longrightarrow> P (wake p) = P p"
  shows "count_at P (notifyAll waits wake ts) = count_at P ts"
  using assms by (induction ts) (auto simp: notifyAll_def)

section \<open>Waking one thread is enough\<close>

text \<open>
  \<open>items\<close> counts what the waiting threads wait for, \<open>waiting\<close> the threads in \<open>wait()\<close> and \<open>active\<close> the
  threads that are about to test the condition. The law of every step: afterwards nobody waits, or
  there is nothing to wait for, or there was someone waiting before and the step has made at least as
  many threads active as it has provided items.
\<close>

locale signalling =
  fixes step :: "'s \<Rightarrow> 's \<Rightarrow> bool" and items waiting active :: "'s \<Rightarrow> nat"
  assumes signals: "step s s' \<Longrightarrow> waiting s' = 0 \<or> items s' = 0 \<or>
    0 < waiting s \<and> items s' + active s \<le> items s + active s'"
begin

definition attended :: "'s \<Rightarrow> bool" where
  "attended s \<longleftrightarrow> waiting s = 0 \<or> items s \<le> active s"

lemma attended_step: "step s s' \<Longrightarrow> attended s \<Longrightarrow> attended s'"
  using signals [of s s'] by (auto simp: attended_def)

lemma attended_reach: "step\<^sup>*\<^sup>* s s' \<Longrightarrow> waiting s = 0 \<Longrightarrow> attended s'"
  by (induction rule: rtranclp_induct) (auto simp: attended_def dest: attended_step [unfolded attended_def])

text \<open>Nobody sleeps beside an item that no active thread is going to look at.\<close>

lemma no_lost_wakeup:
  assumes "step\<^sup>*\<^sup>* s s'" "waiting s = 0" "0 < items s'" "0 < waiting s'"
  shows "0 < active s'"
  using attended_reach [OF assms(1,2)] assms(3,4) by (simp add: attended_def)

end

section \<open>Executing a schedule\<close>

text \<open>
  \<open>exec act as s\<close> follows a schedule of actions; if every action is a step of the system the schedule
  leads to a reachable state, so that concrete runs can be computed.
\<close>

fun exec :: "('act \<Rightarrow> 's \<Rightarrow> 's option) \<Rightarrow> 'act list \<Rightarrow> 's \<Rightarrow> 's option" where
  "exec act [] s = Some s"
| "exec act (a # as) s = (case act a s of None \<Rightarrow> None | Some s' \<Rightarrow> exec act as s')"

lemma exec_reach:
  assumes "exec act as s = Some s'" "\<And>a t t'. act a t = Some t' \<Longrightarrow> step t t'"
  shows "step\<^sup>*\<^sup>* s s'"
  using assms(1)
proof (induction as arbitrary: s)
  case (Cons a as)
  then obtain t where "act a s = Some t" "exec act as t = Some s'" by (auto split: option.splits)
  with Cons.IH [of t] assms(2) show ?case by (auto intro: converse_rtranclp_into_rtranclp)
qed simp

end
