(* ===== verification/Thread_Pool.thy ===== *)
theory Thread_Pool
  imports Monitors "HOL-Library.Multiset"
begin

text \<open>
  The thread pool of \<open>src/muduo/base/ThreadPool.h\<close> and \<open>ThreadPool.cc\<close>: clients that submit tasks and
  stop the pool, and the worker threads, as one system of threads over the pool's mutex and its two
  condition variables. Tasks are abstract and return; \<open>threadInitCallback_\<close> is user code that does
  not touch the pool. Histories record the tasks submitted, taken from the queue and executed.
\<close>

section \<open>State\<close>

datatype 't tp_point =
    TpIdle                          \<comment> \<open>a client outside the pool\<close>
  | is_TpRun: TpRun 't              \<comment> \<open>in \<open>run()\<close>, before the test\<close>
  | is_TpRunWait: TpRunWait 't      \<comment> \<open>in \<open>run()\<close>, waiting for \<open>notFull_\<close>\<close>
  | TpJoin                          \<comment> \<open>in \<open>stop()\<close>, joining the workers\<close>
  | TpLoop                          \<comment> \<open>a worker before \<open>while (running_)\<close>\<close>
  | TpTake                          \<comment> \<open>a worker in \<open>take()\<close>, before the test\<close>
  | TpTakeWait                      \<comment> \<open>a worker waiting for \<open>notEmpty_\<close>\<close>
  | TpExec 't                       \<comment> \<open>a worker that executes a task\<close>
  | TpDone                          \<comment> \<open>a worker that has returned\<close>

record 't thread_pool =
  tp_maxQueueSize :: nat
  tp_running :: bool
  tp_numThreads :: nat              \<comment> \<open>\<open>threads_.size()\<close>\<close>
  tp_queue :: "'t list"
  tp_points :: "'t tp_point list"   \<comment> \<open>the clients and, once started, the workers\<close>
  tp_submitted :: "'t list"
  tp_taken :: "'t list"
  tp_executed :: "'t list"
  tp_direct :: "'t list"            \<comment> \<open>tasks executed by their callers\<close>

definition new_ThreadPool :: "nat \<Rightarrow> 't thread_pool" where
  "new_ThreadPool clients = \<lparr>tp_maxQueueSize = 0, tp_running = False, tp_numThreads = 0, tp_queue = [],
     tp_points = replicate clients TpIdle, tp_submitted = [], tp_taken = [], tp_executed = [], tp_direct = []\<rparr>"

definition setMaxQueueSize :: "nat \<Rightarrow> 't thread_pool \<Rightarrow> 't thread_pool" where
  "setMaxQueueSize n s = s\<lparr>tp_maxQueueSize := n\<rparr>"

definition tp_start :: "nat \<Rightarrow> 't thread_pool \<Rightarrow> 't thread_pool result" where
  "tp_start numThreads s =
     assert_ok (tp_numThreads s = 0)
       (Inr (s\<lparr>tp_running := True, tp_numThreads := numThreads,
               tp_points := tp_points s @ replicate numThreads TpLoop\<rparr>))"

definition tp_queueSize :: "'t thread_pool \<Rightarrow> nat" where
  "tp_queueSize s = length (tp_queue s)"

definition isFull :: "'t thread_pool \<Rightarrow> bool" where
  "isFull s \<longleftrightarrow> 0 < tp_maxQueueSize s \<and> tp_maxQueueSize s \<le> length (tp_queue s)"

section \<open>Operations\<close>

text \<open>Waking a thread sends it back to the test of its loop.\<close>

fun tp_wake :: "'t tp_point \<Rightarrow> 't tp_point" where
  "tp_wake (TpRunWait t) = TpRun t"
| "tp_wake TpTakeWait = TpTake"
| "tp_wake p = p"

text \<open>The entry of \<open>run\<close>: without threads the task is executed by the caller.\<close>

definition tp_run_enter :: "nat \<Rightarrow> 't \<Rightarrow> 't thread_pool \<Rightarrow> 't thread_pool" where
  "tp_run_enter i t s =
     (if tp_numThreads s = 0 then s\<lparr>tp_direct := tp_direct s @ [t]\<rparr>
      else s\<lparr>tp_points := (tp_points s)[i := TpRun t]\<rparr>)"

text \<open>One pass of the loop of \<open>run\<close>.\<close>

definition tp_run :: "nat \<Rightarrow> 't \<Rightarrow> nat option \<Rightarrow> 't thread_pool \<Rightarrow> 't thread_pool" where
  "tp_run i t w s =
     (if isFull s then s\<lparr>tp_points := (tp_points s)[i := TpRunWait t]\<rparr>
      else s\<lparr>tp_queue := tp_queue s @ [t], tp_submitted := tp_submitted s @ [t],
             tp_points := notify tp_wake w ((tp_points s)[i := TpIdle])\<rparr>)"

text \<open>
  One pass of the loop of \<open>take\<close>: wait, take the front of the queue, or return the empty task, which
  sends the worker back to its loop.
\<close>

definition tp_take :: "nat \<Rightarrow> nat option \<Rightarrow> 't thread_pool \<Rightarrow> 't thread_pool" where
  "tp_take i w s =
     (case tp_queue s of
        [] \<Rightarrow> s\<lparr>tp_points := (tp_points s)[i := if tp_running s then TpTakeWait else TpLoop]\<rparr>
      | t # q \<Rightarrow>
          let s1 = s\<lparr>tp_queue := q, tp_taken := tp_taken s @ [t], tp_points := (tp_points s)[i := TpExec t]\<rparr>
          in if 0 < tp_maxQueueSize s then s1\<lparr>tp_points := notify tp_wake w (tp_points s1)\<rparr> else s1)"

text \<open>The loop of \<open>runInThread\<close>: the test of \<open>running_\<close>, and the execution of a task.\<close>

definition tp_loop :: "nat \<Rightarrow> 't thread_pool \<Rightarrow> 't thread_pool" where
  "tp_loop i s = s\<lparr>tp_points := (tp_points s)[i := if tp_running s then TpTake else TpDone]\<rparr>"

definition tp_exec :: "nat \<Rightarrow> 't \<Rightarrow> 't thread_pool \<Rightarrow> 't thread_pool" where
  "tp_exec i t s = s\<lparr>tp_executed := tp_executed s @ [t], tp_points := (tp_points s)[i := TpLoop]\<rparr>"

text \<open>\<open>stop\<close>: the critical section, and the joins, which return once every worker has ended.\<close>

definition tp_stop :: "nat \<Rightarrow> 't thread_pool \<Rightarrow> 't thread_pool" where
  "tp_stop i s = s\<lparr>tp_running := False, tp_points := notifyAll ((=) TpTakeWait) tp_wake ((tp_points s)[i := TpJoin])\<rparr>"

fun is_worker :: "'t tp_point \<Rightarrow> bool" where
  "is_worker TpLoop = True"
| "is_worker TpTake = True"
| "is_worker TpTakeWait = True"
| "is_worker (TpExec t) = True"
| "is_worker p = False"

definition tp_joined :: "nat \<Rightarrow> 't thread_pool \<Rightarrow> 't thread_pool" where
  "tp_joined i s = s\<lparr>tp_points := (tp_points s)[i := TpIdle]\<rparr>"

text \<open>The destructor, called by client \<open>i\<close>.\<close>

definition tp_destroy :: "nat \<Rightarrow> 't thread_pool \<Rightarrow> 't thread_pool" where
  "tp_destroy i s = (if tp_running s then tp_stop i s else s)"

inductive tp_step :: "'t thread_pool \<Rightarrow> 't thread_pool \<Rightarrow> bool" where
  enters: "i < length (tp_points s) \<Longrightarrow> tp_points s ! i = TpIdle \<Longrightarrow> tp_step s (tp_run_enter i t s)"
| runs: "i < length (tp_points s) \<Longrightarrow> tp_points s ! i = TpRun t \<Longrightarrow>
    notify_ok ((=) TpTakeWait) ((tp_points s)[i := TpIdle]) w \<Longrightarrow> tp_step s (tp_run i t w s)"
| takes: "i < length (tp_points s) \<Longrightarrow> tp_points s ! i = TpTake \<Longrightarrow>
    notify_ok is_TpRunWait ((tp_points s)[i := TpLoop]) w \<Longrightarrow> tp_step s (tp_take i w s)"
| loops: "i < length (tp_points s) \<Longrightarrow> tp_points s ! i = TpLoop \<Longrightarrow> tp_step s (tp_loop i s)"
| executes: "i < length (tp_points s) \<Longrightarrow> tp_points s ! i = TpExec t \<Longrightarrow> tp_step s (tp_exec i t s)"
| stops: "i < length (tp_points s) \<Longrightarrow> tp_points s ! i = TpIdle \<Longrightarrow> tp_step s (tp_stop i s)"
| joins: "i < length (tp_points s) \<Longrightarrow> tp_points s ! i = TpJoin \<Longrightarrow> \<not> (\<exists>p\<in>set (tp_points s). is_worker p) \<Longrightarrow>
    tp_step s (tp_joined i s)"
| spurious_run: "i < length (tp_points s) \<Longrightarrow> tp_points s ! i = TpRunWait t \<Longrightarrow>
    tp_step s (s\<lparr>tp_points := (tp_points s)[i := TpRun t]\<rparr>)"
| spurious_take: "i < length (tp_points s) \<Longrightarrow> tp_points s ! i = TpTakeWait \<Longrightarrow>
    tp_step s (s\<lparr>tp_points := (tp_points s)[i := TpTake]\<rparr>)"

lemmas tp_ops = tp_run_enter_def tp_run_def tp_take_def tp_loop_def tp_exec_def tp_stop_def tp_joined_def

section \<open>No lost wake-up\<close>

interpretation tp_workers: signalling tp_step "\<lambda>s. length (tp_queue s)"
    "\<lambda>s. count_at ((=) TpTakeWait) (tp_points s)" "\<lambda>s. count_at ((=) TpTake) (tp_points s)"
proof
  fix s s' :: "'t thread_pool"
  let ?w = "count_at ((=) TpTakeWait)" and ?a = "count_at ((=) TpTake)"
  assume "tp_step s s'"
  then show "?w (tp_points s') = 0 \<or> length (tp_queue s') = 0 \<or>
    0 < ?w (tp_points s) \<and> length (tp_queue s') + ?a (tp_points s) \<le> length (tp_queue s) + ?a (tp_points s')"
  proof cases
    case (enters i t)
    then show ?thesis using count_at_plain [of i "tp_points s" "(=) TpTake" "TpRun t" "(=) TpTakeWait"]
      by (auto simp: tp_run_enter_def)
  next
    case (runs i t w)
    have same: "?w ((tp_points s)[i := p]) = ?w (tp_points s)" "?a ((tp_points s)[i := p]) = ?a (tp_points s)"
      if "p \<noteq> TpTakeWait" "p \<noteq> TpTake" for p
      using runs that by (auto simp: count_at_same)
    have "notify tp_wake w ((tp_points s)[i := TpIdle]) = (tp_points s)[i := TpIdle]" if "w = None"
      using that by (simp add: notify_def)
    with notify_wakes [OF runs(4), of "(=) TpTake" tp_wake] same [of TpIdle] same [of "TpRunWait t"] runs(1)
    show ?thesis by (auto simp: tp_run_def)
  next
    case (takes i w)
    show ?thesis
    proof (cases "tp_queue s")
      case (Cons t q)
      have "?w ((tp_points s)[i := TpExec t]) = ?w (tp_points s)" "Suc (?a ((tp_points s)[i := TpExec t])) = ?a (tp_points s)"
        using takes by (simp_all add: count_at_same count_at_leave)
      moreover have "notify_ok is_TpRunWait ((tp_points s)[i := TpExec t]) w"
        using notify_ok_update [OF takes(4), of "TpExec t"] takes(2) by simp
      then have "?w (notify tp_wake w ((tp_points s)[i := TpExec t])) = ?w ((tp_points s)[i := TpExec t])"
        "?a (notify tp_wake w ((tp_points s)[i := TpExec t])) = ?a ((tp_points s)[i := TpExec t])"
        by (auto intro!: notify_other simp: is_TpRunWait_def)
      ultimately show ?thesis using takes(1) Cons by (auto simp: tp_take_def Let_def)
    qed (use takes(1) in \<open>simp add: tp_take_def\<close>)
  next
    case (loops i)
    then show ?thesis using count_at_plain [of i "tp_points s" "(=) TpTake" "if tp_running s then TpTake else TpDone" "(=) TpTakeWait"]
      by (auto simp: tp_loop_def split: if_splits)
  next
    case (executes i t)
    then show ?thesis using count_at_plain [of i "tp_points s" "(=) TpTake" TpLoop "(=) TpTakeWait"] by (auto simp: tp_exec_def)
  next
    case (stops i)
    then show ?thesis using notifyAll_none [of "(=) TpTakeWait" tp_wake "(tp_points s)[i := TpJoin]"] by (auto simp: tp_stop_def)
  next
    case (joins i)
    then show ?thesis using count_at_plain [of i "tp_points s" "(=) TpTake" TpIdle "(=) TpTakeWait"] by (auto simp: tp_joined_def)
  next
    case (spurious_run i t)
    then show ?thesis using count_at_plain [of i "tp_points s" "(=) TpTake" "TpRun t" "(=) TpTakeWait"] by auto
  next
    case (spurious_take i)
    then show ?thesis using count_at_plain [of i "tp_points s" "(=) TpTake" TpTake "(=) TpTakeWait"] by auto
  qed
qed

interpretation tp_clients: signalling tp_step "\<lambda>s. tp_maxQueueSize s - length (tp_queue s)"
    "\<lambda>s. count_at is_TpRunWait (tp_points s)" "\<lambda>s. count_at is_TpRun (tp_points s)"
proof
  fix s s' :: "'t thread_pool"
  let ?w = "count_at is_TpRunWait" and ?a = "count_at is_TpRun"
  assume "tp_step s s'"
  then show "?w (tp_points s') = 0 \<or> tp_maxQueueSize s' - length (tp_queue s') = 0 \<or>
    0 < ?w (tp_points s) \<and> tp_maxQueueSize s' - length (tp_queue s') + ?a (tp_points s)
      \<le> tp_maxQueueSize s - length (tp_queue s) + ?a (tp_points s')"
  proof cases
    case (enters i t)
    then show ?thesis using count_at_plain [of i "tp_points s" is_TpRun "TpRun t" is_TpRunWait]
      by (auto simp: tp_run_enter_def)
  next
    case (runs i t w)
    have "?w ((tp_points s)[i := TpIdle]) = ?w (tp_points s)" "Suc (?a ((tp_points s)[i := TpIdle])) = ?a (tp_points s)"
      using runs by (simp_all add: count_at_same count_at_leave)
    moreover have "?w (notify tp_wake w ((tp_points s)[i := TpIdle])) = ?w ((tp_points s)[i := TpIdle])"
      "?a (notify tp_wake w ((tp_points s)[i := TpIdle])) = ?a ((tp_points s)[i := TpIdle])"
      using runs(4) by (auto intro!: notify_other)
    ultimately show ?thesis using runs(1) by (auto simp: tp_run_def isFull_def)
  next
    case (takes i w)
    have same: "?w ((tp_points s)[i := p]) = ?w (tp_points s)" "?a ((tp_points s)[i := p]) = ?a (tp_points s)"
      if "\<not> is_TpRunWait p" "\<not> is_TpRun p" for p
      using takes that by (auto simp: count_at_same)
    have wake: "is_TpRun (tp_wake p) \<and> \<not> is_TpRun p" if "is_TpRunWait p" for p :: "'t tp_point"
      using that by (cases p) auto
    show ?thesis
    proof (cases "tp_queue s")
      case Nil
      then show ?thesis using same [of TpTakeWait] same [of TpLoop] takes(1) by (auto simp: tp_take_def)
    next
      case (Cons t q)
      have ok: "notify_ok is_TpRunWait ((tp_points s)[i := TpExec t]) w"
        using notify_ok_update [OF takes(4), of "TpExec t"] takes(2) by simp
      have "notify tp_wake w ((tp_points s)[i := TpExec t]) = (tp_points s)[i := TpExec t]" if "w = None"
        using that by (simp add: notify_def)
      then show ?thesis using notify_wakes [OF ok, of is_TpRun tp_wake] wake same [of "TpExec t"] Cons takes(1)
        by (auto simp: tp_take_def Let_def)
    qed
  next
    case (loops i)
    then show ?thesis using count_at_plain [of i "tp_points s" is_TpRun "if tp_running s then TpTake else TpDone" is_TpRunWait]
      by (auto simp: tp_loop_def split: if_splits)
  next
    case (executes i t)
    then show ?thesis using count_at_plain [of i "tp_points s" is_TpRun TpLoop is_TpRunWait] by (auto simp: tp_exec_def)
  next
    case (stops i)
    have "?w (tp_points s') = ?w ((tp_points s)[i := TpJoin])" "?a (tp_points s') = ?a ((tp_points s)[i := TpJoin])"
      using stops(1) by (auto simp: tp_stop_def intro!: notifyAll_other)
    then show ?thesis using stops count_at_plain [of i "tp_points s" is_TpRun TpJoin is_TpRunWait] by (auto simp: tp_stop_def)
  next
    case (joins i)
    then show ?thesis using count_at_plain [of i "tp_points s" is_TpRun TpIdle is_TpRunWait] by (auto simp: tp_joined_def)
  next
    case (spurious_run i t)
    then show ?thesis using count_at_plain [of i "tp_points s" is_TpRun "TpRun t" is_TpRunWait] by auto
  next
    case (spurious_take i)
    then show ?thesis using count_at_plain [of i "tp_points s" is_TpRun TpTake is_TpRunWait] by auto
  qed
qed

section \<open>Invariants\<close>

text \<open>The tasks being executed.\<close>

primrec in_hand :: "'t tp_point list \<Rightarrow> 't list" where
  "in_hand [] = []"
| "in_hand (p # ps) = (case p of TpExec t \<Rightarrow> t # in_hand ps | _ \<Rightarrow> in_hand ps)"

definition tp_hand :: "'t tp_point \<Rightarrow> 't multiset" where
  "tp_hand p = (case p of TpExec t \<Rightarrow> {#t#} | _ \<Rightarrow> {#})"

lemma tp_hand_simps [simp]:
  "tp_hand (TpExec t) = {#t#}" "tp_hand TpIdle = {#}" "tp_hand (TpRun t) = {#}" "tp_hand (TpRunWait t) = {#}"
  "tp_hand TpJoin = {#}" "tp_hand TpLoop = {#}" "tp_hand TpTake = {#}" "tp_hand TpTakeWait = {#}" "tp_hand TpDone = {#}"
  by (simp_all add: tp_hand_def)

lemma mset_in_hand: "mset (in_hand (p # ps)) = tp_hand p + mset (in_hand ps)"
  by (simp add: tp_hand_def split: tp_point.split)

lemma in_hand_update:
  "i < length ps \<Longrightarrow> mset (in_hand (ps[i := p])) + tp_hand (ps ! i) = mset (in_hand ps) + tp_hand p"
proof (induction ps arbitrary: i)
  case (Cons q ps)
  then show ?case by (cases i) (auto simp: mset_in_hand simp del: in_hand.simps)
qed simp

lemma tp_hand_wake [simp]: "tp_hand (tp_wake p) = tp_hand p"
  by (cases p) simp_all

lemma in_hand_notify [simp]: "mset (in_hand (notify tp_wake w ps)) = mset (in_hand ps)"
proof (cases w)
  case (Some j)
  then show ?thesis using in_hand_update [of j ps "tp_wake (ps ! j)"] by (cases "j < length ps") (simp_all add: notify_def list_update_beyond)
qed (simp add: notify_def)

lemma in_hand_notifyAll [simp]: "mset (in_hand (notifyAll waits tp_wake ps)) = mset (in_hand ps)"
proof (induction ps)
  case (Cons p ps)
  then show ?case by (simp add: notifyAll_def mset_in_hand del: in_hand.simps)
qed (simp add: notifyAll_def)

definition tp_inv :: "nat \<Rightarrow> nat \<Rightarrow> 't thread_pool \<Rightarrow> bool" where
  "tp_inv m n s \<longleftrightarrow> tp_maxQueueSize s = m \<and> tp_numThreads s = n \<and> (0 < m \<longrightarrow> length (tp_queue s) \<le> m) \<and>
     tp_submitted s = tp_taken s @ tp_queue s \<and> mset (tp_taken s) = mset (tp_executed s) + mset (in_hand (tp_points s)) \<and>
     (tp_running s \<or> TpTakeWait \<notin> set (tp_points s))"

lemma no_wait_update: "TpTakeWait \<notin> set ps \<Longrightarrow> p \<noteq> TpTakeWait \<Longrightarrow> TpTakeWait \<notin> set (ps[i := p])"
  using in_set_update [of TpTakeWait ps i p] by auto

lemma tp_wake_awake [simp]: "tp_wake p \<noteq> TpTakeWait"
  by (cases p) simp_all

lemma no_wait_notify: "TpTakeWait \<notin> set ps \<Longrightarrow> TpTakeWait \<notin> set (notify tp_wake w ps)"
  by (auto simp: notify_def no_wait_update split: option.split)

lemma no_wait_notifyAll: "TpTakeWait \<notin> set (notifyAll ((=) TpTakeWait) tp_wake ps)"
  by (auto simp: notifyAll_def)

lemma tp_inv_step: "tp_step s s' \<Longrightarrow> tp_inv m n s \<Longrightarrow> tp_inv m n s'"
proof (induction rule: tp_step.induct)
  case (takes i s w)
  show ?case
  proof (cases "tp_queue s")
    case Nil
    then show ?thesis using takes in_hand_update [of i "tp_points s" TpTakeWait] in_hand_update [of i "tp_points s" TpLoop]
      by (auto simp: tp_inv_def tp_take_def no_wait_update)
  next
    case (Cons t q)
    then show ?thesis using takes in_hand_update [of i "tp_points s" "TpExec t"]
      by (auto simp: tp_inv_def tp_take_def Let_def no_wait_update no_wait_notify)
  qed
next
  case (runs i s t w)
  then show ?case using in_hand_update [of i "tp_points s" "TpRunWait t"] in_hand_update [of i "tp_points s" TpIdle]
    by (auto simp: tp_inv_def tp_run_def isFull_def no_wait_update no_wait_notify)
next
  case (loops i s)
  then show ?case using in_hand_update [of i "tp_points s" TpTake] in_hand_update [of i "tp_points s" TpDone]
    by (auto simp: tp_inv_def tp_loop_def no_wait_update)
next
  case (executes i s t)
  then show ?case using in_hand_update [of i "tp_points s" TpLoop] by (auto simp: tp_inv_def tp_exec_def no_wait_update)
next
  case (stops i s)
  then show ?case using in_hand_update [of i "tp_points s" TpJoin]
    by (auto simp: tp_inv_def tp_stop_def no_wait_notifyAll)
next
  case (enters i s t)
  then show ?case using in_hand_update [of i "tp_points s" "TpRun t"]
    by (auto simp: tp_inv_def tp_run_enter_def no_wait_update)
next
  case (joins i s)
  then show ?case using in_hand_update [of i "tp_points s" TpIdle] by (auto simp: tp_inv_def tp_joined_def no_wait_update)
next
  case (spurious_run i s t)
  then show ?case using in_hand_update [of i "tp_points s" "TpRun t"] by (auto simp: tp_inv_def no_wait_update)
next
  case (spurious_take i s)
  then show ?case using in_hand_update [of i "tp_points s" TpTake] by (auto simp: tp_inv_def no_wait_update)
qed

lemma tp_inv_reach: "tp_step\<^sup>*\<^sup>* s s' \<Longrightarrow> tp_inv m n s \<Longrightarrow> tp_inv m n s'"
  by (induction rule: rtranclp_induct) (auto dest: tp_inv_step)

section \<open>Stopping\<close>

text \<open>How many more steps a worker takes once the pool has been stopped.\<close>

fun tp_rank :: "'t tp_point \<Rightarrow> nat" where
  "tp_rank TpTake = 3"
| "tp_rank TpTakeWait = 4"
| "tp_rank (TpExec t) = 2"
| "tp_rank TpLoop = 1"
| "tp_rank p = 0"

definition work_left :: "'t thread_pool \<Rightarrow> nat" where
  "work_left s = sum_list (map tp_rank (tp_points s))"

lemma sum_rank_update:
  "i < length ps \<Longrightarrow> sum_list (map tp_rank (ps[i := p])) + tp_rank (ps ! i) = sum_list (map tp_rank ps) + tp_rank p"
proof (induction ps arbitrary: i)
  case (Cons q ps)
  then show ?case by (cases i) auto
qed simp

text \<open>Waking a client in \<open>run\<close> does not change the work of the workers.\<close>

lemma sum_rank_notify:
  assumes "notify_ok is_TpRunWait ps w"
  shows "sum_list (map tp_rank (notify tp_wake w ps)) = sum_list (map tp_rank ps)"
proof (cases w)
  case (Some j)
  then have "j < length ps" "is_TpRunWait (ps ! j)" using assms by (simp_all add: notify_ok_def)
  then show ?thesis using Some sum_rank_update [of j ps "tp_wake (ps ! j)"] by (auto simp: notify_def is_TpRunWait_def)
qed (simp add: notify_def)

lemma notify_choice: "\<exists>w. notify_ok waits ts w"
proof (cases "list_all (\<lambda>p. \<not> waits p) ts")
  case True
  then show ?thesis by (intro exI [of _ None]) (simp add: notify_ok_def)
next
  case False
  then obtain j where "j < length ts" "waits (ts ! j)" by (auto simp: list_all_length)
  then show ?thesis by (intro exI [of _ "Some j"]) (simp add: notify_ok_def)
qed

text \<open>A worker that has not returned has a step, and it brings it closer to its end.\<close>

lemma worker_progress:
  assumes "\<not> tp_running s" "i < length (tp_points s)" "is_worker (tp_points s ! i)" "tp_points s ! i \<noteq> TpTakeWait"
  shows "\<exists>s'. tp_step s s' \<and> \<not> tp_running s' \<and> work_left s' < work_left s"
proof -
  note rank = sum_rank_update [OF assms(2)]
  consider "tp_points s ! i = TpLoop" | "tp_points s ! i = TpTake" | t where "tp_points s ! i = TpExec t"
    using assms(3,4) by (cases "tp_points s ! i") auto
  then show ?thesis
  proof cases
    case 1
    then show ?thesis using assms rank [of TpDone] loops [OF assms(2)]
      by (intro exI [of _ "tp_loop i s"]) (simp add: tp_loop_def work_left_def)
  next
    case 2
    obtain w where w: "notify_ok is_TpRunWait ((tp_points s)[i := TpLoop]) w" using notify_choice by blast
    have "sum_list (map tp_rank (notify tp_wake w ((tp_points s)[i := TpExec t]))) =
        sum_list (map tp_rank ((tp_points s)[i := TpExec t]))" for t
      by (intro sum_rank_notify notify_ok_update [OF w]) (simp_all add: assms(2))
    then have "work_left (tp_take i w s) < work_left s \<and> \<not> tp_running (tp_take i w s)"
      using 2 assms(1) rank [of TpLoop] rank [of "TpExec (hd (tp_queue s))"]
      by (cases "tp_queue s") (auto simp: tp_take_def Let_def work_left_def)
    with takes [OF assms(2) 2 w] show ?thesis by blast
  next
    case 3
    then show ?thesis using assms rank [of TpLoop] executes [OF assms(2)]
      by (intro exI [of _ "tp_exec i t s"]) (simp add: tp_exec_def work_left_def)
  qed
qed

text \<open>No step of any thread adds work or starts the pool again.\<close>

lemma stopped_step:
  assumes "tp_step s s'" "\<not> tp_running s" "TpTakeWait \<notin> set (tp_points s)"
  shows "\<not> tp_running s' \<and> work_left s' \<le> work_left s"
  using assms
proof (induction rule: tp_step.induct)
  case (enters i s t)
  then show ?case using sum_rank_update [of i "tp_points s" "TpRun t"] by (simp add: tp_run_enter_def work_left_def)
next
  case (runs i s t w)
  then have "w = None" by (intro notify_nobody [OF runs(3)] no_wait_update) simp_all
  then show ?case using runs sum_rank_update [of i "tp_points s" "TpRunWait t"] sum_rank_update [of i "tp_points s" TpIdle]
    by (simp add: tp_run_def work_left_def notify_def)
next
  case (takes i s w)
  have "sum_list (map tp_rank (notify tp_wake w ((tp_points s)[i := TpExec t]))) =
      sum_list (map tp_rank ((tp_points s)[i := TpExec t]))" for t
    by (intro sum_rank_notify notify_ok_update [OF takes(3)]) (simp_all add: takes(1))
  then show ?case using takes sum_rank_update [of i "tp_points s" TpLoop] sum_rank_update [of i "tp_points s" "TpExec (hd (tp_queue s))"]
    by (cases "tp_queue s") (auto simp: tp_take_def Let_def work_left_def)
next
  case (stops i s)
  then have "notifyAll ((=) TpTakeWait) tp_wake ((tp_points s)[i := TpJoin]) = (tp_points s)[i := TpJoin]"
    by (intro notifyAll_nobody no_wait_update) simp_all
  then show ?case using stops sum_rank_update [of i "tp_points s" TpJoin] by (simp add: tp_stop_def work_left_def)
next
  case (loops i s)
  then show ?case using sum_rank_update [of i "tp_points s" TpDone] by (simp add: tp_loop_def work_left_def)
next
  case (executes i s t)
  then show ?case using sum_rank_update [of i "tp_points s" TpLoop] by (simp add: tp_exec_def work_left_def)
next
  case (joins i s)
  then show ?case using sum_rank_update [of i "tp_points s" TpIdle] by (simp add: tp_joined_def work_left_def)
next
  case (spurious_run i s t)
  then show ?case using sum_rank_update [of i "tp_points s" "TpRun t"] by (simp add: work_left_def)
next
  case (spurious_take i s)
  then show ?case by (auto dest!: nth_mem)
qed

section \<open>Schedules\<close>

datatype 't tp_action = TpSubmit nat 't | TpGo nat "nat option" | TpStop nat

definition tp_act :: "'t tp_action \<Rightarrow> 't thread_pool \<Rightarrow> 't thread_pool option" where
  "tp_act a s =
     (case a of
        TpSubmit i t \<Rightarrow> if i < length (tp_points s) \<and> tp_points s ! i = TpIdle then Some (tp_run_enter i t s) else None
      | TpStop i \<Rightarrow> if i < length (tp_points s) \<and> tp_points s ! i = TpIdle then Some (tp_stop i s) else None
      | TpGo i w \<Rightarrow> if i < length (tp_points s) then
          (case tp_points s ! i of
             TpRun t \<Rightarrow> if notify_ok ((=) TpTakeWait) ((tp_points s)[i := TpIdle]) w then Some (tp_run i t w s) else None
           | TpTake \<Rightarrow> if notify_ok is_TpRunWait ((tp_points s)[i := TpLoop]) w then Some (tp_take i w s) else None
           | TpLoop \<Rightarrow> Some (tp_loop i s)
           | TpExec t \<Rightarrow> Some (tp_exec i t s)
           | TpJoin \<Rightarrow> if list_all (\<lambda>p. \<not> is_worker p) (tp_points s) then Some (tp_joined i s) else None
           | _ \<Rightarrow> None) else None)"

lemma tp_act_step: "tp_act a s = Some s' \<Longrightarrow> tp_step s s'"
  by (auto simp: tp_act_def list_all_iff intro: tp_step.intros split: tp_action.splits tp_point.splits if_splits)

section \<open>Properties\<close>

lemma tp_started:
  assumes "tp_start n (setMaxQueueSize m (new_ThreadPool c)) = Inr s0"
  shows "tp_inv m n s0 \<and> count_at ((=) TpTakeWait) (tp_points s0) = 0 \<and> count_at is_TpRunWait (tp_points s0) = 0"
proof -
  have "in_hand (replicate c TpIdle @ replicate n TpLoop) = []"
  proof (induction c)
    case 0
    show ?case by (induction n) simp_all
  qed simp
  with assms show ?thesis
    by (auto simp: tp_start_def setMaxQueueSize_def new_ThreadPool_def tp_inv_def count_at_zero list_all_iff)
qed

text \<open>C12. The pool executes what it is given, each task once, and sleeps beside no work: for any number
  of clients and workers and any interleaving, the submitted tasks are those taken by workers followed
  by those still queued; each task taken has been executed or is being executed, once; a bounded queue
  never exceeds its bound; and while a task is queued beside a waiting worker some worker is about to
  take it, while a place is free beside a waiting client some client is about to use it.\<close>

theorem pool_executes_submitted:
  assumes "tp_start n (setMaxQueueSize m (new_ThreadPool c)) = Inr s0" "tp_step\<^sup>*\<^sup>* s0 s"
  shows "tp_submitted s = tp_taken s @ tp_queue s \<and>
    mset (tp_taken s) = mset (tp_executed s) + mset (in_hand (tp_points s)) \<and>
    (0 < m \<longrightarrow> tp_queueSize s \<le> m) \<and>
    (tp_queue s \<noteq> [] \<and> TpTakeWait \<in> set (tp_points s) \<longrightarrow> TpTake \<in> set (tp_points s)) \<and>
    (tp_queueSize s < m \<and> (\<exists>t. TpRunWait t \<in> set (tp_points s)) \<longrightarrow> (\<exists>t. TpRun t \<in> set (tp_points s)))"
proof -
  have start: "tp_inv m n s0" "count_at ((=) TpTakeWait) (tp_points s0) = 0" "count_at is_TpRunWait (tp_points s0) = 0"
    using tp_started [OF assms(1)] by simp_all
  have "tp_inv m n s" using tp_inv_reach [OF assms(2) start(1)] .
  moreover have "TpTake \<in> set (tp_points s)" if "tp_queue s \<noteq> []" "TpTakeWait \<in> set (tp_points s)"
    using tp_workers.no_lost_wakeup [OF assms(2) start(2)] that by (simp add: count_at_mem)
  moreover have "\<exists>t. TpRun t \<in> set (tp_points s)"
    if "length (tp_queue s) < tp_maxQueueSize s" "TpRunWait t \<in> set (tp_points s)" for t
    using tp_clients.no_lost_wakeup [OF assms(2) start(3)] that by (force simp: count_at_ex is_TpRun_def)
  ultimately show ?thesis by (auto simp: tp_inv_def tp_queueSize_def)
qed

text \<open>A pool with one client and two workers: both wait, then one is woken for a task.\<close>

definition tp_pool :: "nat \<Rightarrow> nat \<Rightarrow> nat \<Rightarrow> nat thread_pool" where
  "tp_pool m c n = \<lparr>tp_maxQueueSize = m, tp_running = True, tp_numThreads = n, tp_queue = [],
     tp_points = replicate c TpIdle @ replicate n TpLoop, tp_submitted = [], tp_taken = [], tp_executed = [], tp_direct = []\<rparr>"

lemma tp_pool_start: "tp_start n (setMaxQueueSize m (new_ThreadPool c)) = Inr (tp_pool m c n)"
  by (simp add: tp_start_def setMaxQueueSize_def new_ThreadPool_def tp_pool_def)

theorem pool_executes_submitted_witness:
  "\<exists>s. tp_step\<^sup>*\<^sup>* (tp_pool 2 1 2) s \<and> tp_queue s = [5] \<and> TpTakeWait \<in> set (tp_points s) \<and> TpTake \<in> set (tp_points s)"
proof -
  let ?run = "[TpGo 1 None, TpGo 1 None, TpGo 2 None, TpGo 2 None, TpSubmit 0 (5 :: nat), TpGo 0 (Some 1)]"
  let ?s = "\<lparr>tp_maxQueueSize = 2, tp_running = True, tp_numThreads = 2, tp_queue = [5], tp_points = [TpIdle, TpTake, TpTakeWait],
    tp_submitted = [5], tp_taken = [], tp_executed = [], tp_direct = []\<rparr> :: nat thread_pool"
  have "exec tp_act ?run (tp_pool 2 1 2) = Some ?s" by code_simp
  then have r: "tp_step\<^sup>*\<^sup>* (tp_pool 2 1 2) ?s" by (rule exec_reach) (rule tp_act_step)
  with pool_executes_submitted [OF tp_pool_start r] show ?thesis by (intro exI [of _ ?s]) simp
qed

text \<open>\<open>stop()\<close> terminates for the workers: once \<open>running_\<close> is false no worker waits any more, every
  worker that has not returned can run and each of its steps reduces the steps left for all workers
  (at most three for each), and no step of any thread adds to them or starts the pool again; hence
  the joins return.\<close>

theorem pool_stop_ends_workers:
  assumes "tp_start n (setMaxQueueSize m (new_ThreadPool c)) = Inr s0" "tp_step\<^sup>*\<^sup>* s0 s" "\<not> tp_running s"
  shows "(\<forall>i < length (tp_points s). is_worker (tp_points s ! i) \<longrightarrow>
      (\<exists>s'. tp_step s s' \<and> \<not> tp_running s' \<and> work_left s' < work_left s)) \<and>
    (\<forall>s'. tp_step s s' \<longrightarrow> \<not> tp_running s' \<and> work_left s' \<le> work_left s) \<and>
    work_left s \<le> 3 * length (tp_points s)"
proof -
  have "tp_inv m n s0" using tp_started [OF assms(1)] by simp
  from tp_inv_reach [OF assms(2) this] have awake: "TpTakeWait \<notin> set (tp_points s)"
    using assms(3) by (simp add: tp_inv_def)
  have "\<exists>s'. tp_step s s' \<and> \<not> tp_running s' \<and> work_left s' < work_left s"
    if "i < length (tp_points s)" "is_worker (tp_points s ! i)" for i
    using worker_progress [OF assms(3) that] awake nth_mem [OF that(1)] by metis
  moreover have "sum_list (map tp_rank ps) \<le> 3 * length ps" if "TpTakeWait \<notin> set ps" for ps :: "'a tp_point list"
    using that
  proof (induction ps)
    case (Cons p ps)
    then show ?case by (cases p) auto
  qed simp
  ultimately show ?thesis using stopped_step [OF _ assms(3) awake] awake by (auto simp: work_left_def)
qed

theorem pool_stop_ends_workers_witness:
  "\<exists>s s'. tp_step\<^sup>*\<^sup>* (tp_pool 2 1 1) s \<and> \<not> tp_running s \<and> tp_points s = [TpJoin, TpTake] \<and> tp_step s s' \<and> work_left s' < work_left s"
proof -
  let ?run = "[TpGo 1 None, TpGo 1 None, TpStop 0] :: nat tp_action list"
  let ?s = "\<lparr>tp_maxQueueSize = 2, tp_running = False, tp_numThreads = 1, tp_queue = [], tp_points = [TpJoin, TpTake],
    tp_submitted = [], tp_taken = [], tp_executed = [], tp_direct = []\<rparr> :: nat thread_pool"
  have "exec tp_act ?run (tp_pool 2 1 1) = Some ?s" by code_simp
  then have r: "tp_step\<^sup>*\<^sup>* (tp_pool 2 1 1) ?s" by (rule exec_reach) (rule tp_act_step)
  obtain s' where "tp_step ?s s'" "work_left s' < work_left ?s"
    using pool_stop_ends_workers [OF tp_pool_start r] by (auto dest: spec [of _ 1])
  with r show ?thesis by (intro exI [of _ ?s] exI [of _ s']) simp
qed

text \<open>A client that waits in \<open>run()\<close> for a place in a queue nobody empties any more.\<close>

definition stranded :: "nat \<Rightarrow> 't \<Rightarrow> 't thread_pool \<Rightarrow> bool" where
  "stranded i t s \<longleftrightarrow> \<not> tp_running s \<and> isFull s \<and> (\<forall>p\<in>set (tp_points s). \<not> is_worker p) \<and>
     i < length (tp_points s) \<and> (tp_points s ! i = TpRunWait t \<or> tp_points s ! i = TpRun t)"

lemma stranded_update:
  assumes "stranded i t s" "j < length (tp_points s)" "\<not> is_worker p" "i = j \<Longrightarrow> p = TpRunWait t \<or> p = TpRun t"
  shows "stranded i t (s\<lparr>tp_points := (tp_points s)[j := p]\<rparr>)"
  using assms by (auto simp: stranded_def isFull_def nth_list_update dest: in_set_update)

lemma stranded_step:
  assumes "tp_step s s'" "stranded i t s"
  shows "stranded i t s' \<and> tp_queue s' = tp_queue s"
  using assms
proof (induction rule: tp_step.induct)
  case (enters j s u)
  then have "stranded i t (s\<lparr>tp_points := (tp_points s)[j := TpRun u]\<rparr>)"
    by (intro stranded_update) (auto simp: stranded_def)
  then show ?case using enters(3) by (auto simp: tp_run_enter_def) (simp add: stranded_def isFull_def)
next
  case (runs j s u w)
  then have "stranded i t (s\<lparr>tp_points := (tp_points s)[j := TpRunWait u]\<rparr>)"
    by (intro stranded_update) (auto simp: stranded_def)
  moreover have "isFull s" using runs by (simp add: stranded_def)
  ultimately show ?case by (simp add: tp_run_def)
next
  case (stops j s)
  then have "notifyAll ((=) TpTakeWait) tp_wake ((tp_points s)[j := TpJoin]) = (tp_points s)[j := TpJoin]"
    by (intro notifyAll_nobody no_wait_update) (auto simp: stranded_def)
  moreover have "stranded i t (s\<lparr>tp_points := (tp_points s)[j := TpJoin]\<rparr>)"
    using stops by (intro stranded_update) (auto simp: stranded_def)
  ultimately show ?case by (simp add: tp_stop_def stranded_def isFull_def)
next
  case (joins j s)
  then have "stranded i t (s\<lparr>tp_points := (tp_points s)[j := TpIdle]\<rparr>)"
    by (intro stranded_update) (auto simp: stranded_def)
  then show ?case by (simp add: tp_joined_def)
next
  case (spurious_run j s u)
  then have "stranded i t (s\<lparr>tp_points := (tp_points s)[j := TpRun u]\<rparr>)"
    by (intro stranded_update) (auto simp: stranded_def)
  then show ?case by simp
qed (fastforce simp: stranded_def dest!: nth_mem)+

lemma stranded_reach: "tp_step\<^sup>*\<^sup>* s s' \<Longrightarrow> stranded i t s \<Longrightarrow> stranded i t s' \<and> tp_queue s' = tp_queue s"
  by (induction rule: rtranclp_induct) (auto dest: stranded_step)

text \<open>A client that waits in \<open>run()\<close> for a place in a full queue when the pool is stopped is never
  released: \<open>stop()\<close> notifies only \<open>notEmpty_\<close>. There is a run of a pool with a bound of one, two
  clients and one worker after which \<open>stop()\<close> has returned and the other client waits, and whatever
  happens afterwards, wake-ups without cause included, that client never leaves \<open>run()\<close>, its task is
  never queued, and the task submitted before is never executed.\<close>

theorem pool_stop_strands_client:
  "\<exists>s. tp_step\<^sup>*\<^sup>* (tp_pool 1 2 1) s \<and> \<not> tp_running s \<and> tp_points s = [TpIdle, TpRunWait 8, TpDone] \<and>
     (\<forall>s'. tp_step\<^sup>*\<^sup>* s s' \<longrightarrow> tp_queue s' = [7] \<and> tp_points s' ! 1 \<in> {TpRunWait 8, TpRun 8})"
proof -
  let ?run = "[TpSubmit 0 7, TpGo 0 None, TpSubmit 1 8, TpGo 1 None, TpStop 0, TpGo 2 None, TpGo 0 None] :: nat tp_action list"
  let ?s = "\<lparr>tp_maxQueueSize = 1, tp_running = False, tp_numThreads = 1, tp_queue = [7], tp_points = [TpIdle, TpRunWait 8, TpDone],
    tp_submitted = [7], tp_taken = [], tp_executed = [], tp_direct = []\<rparr> :: nat thread_pool"
  have "exec tp_act ?run (tp_pool 1 2 1) = Some ?s" by code_simp
  then have r: "tp_step\<^sup>*\<^sup>* (tp_pool 1 2 1) ?s" by (rule exec_reach) (rule tp_act_step)
  have "stranded 1 8 ?s" by (simp add: stranded_def isFull_def)
  then have "tp_queue s' = [7] \<and> tp_points s' ! 1 \<in> {TpRunWait 8, TpRun 8}" if "tp_step\<^sup>*\<^sup>* ?s s'" for s'
    using stranded_reach [OF that, of 1 8] by (auto simp: stranded_def)
  with r show ?thesis by (intro exI [of _ ?s]) simp
qed

theorem pool_stop_strands_client_witness:
  "\<exists>s s'. tp_step\<^sup>*\<^sup>* (tp_pool 1 2 1) s \<and> tp_step s s' \<and> tp_points s' ! 1 = TpRun 8 \<and> tp_queue s' = [7]"
proof -
  obtain s where s: "tp_step\<^sup>*\<^sup>* (tp_pool 1 2 1) s" "tp_points s = [TpIdle, TpRunWait 8, TpDone]"
    and stuck: "\<forall>s'. tp_step\<^sup>*\<^sup>* s s' \<longrightarrow> tp_queue s' = [7] \<and> tp_points s' ! 1 \<in> {TpRunWait 8, TpRun 8}"
    using pool_stop_strands_client by blast
  let ?s' = "s\<lparr>tp_points := (tp_points s)[1 := TpRun 8]\<rparr>"
  have step: "tp_step s ?s'" by (rule spurious_run) (simp_all add: s(2))
  then have "tp_queue ?s' = [7]" using stuck r_into_rtranclp [of tp_step s ?s'] by blast
  moreover have "tp_points ?s' ! 1 = TpRun 8" by (simp add: s(2))
  ultimately show ?thesis using s(1) step by blast
qed

end
