(* ===== verification/Blocking_Queues.thy ===== *)
theory Blocking_Queues
  imports Monitors
begin

text \<open>
  The blocking queues of \<open>src/muduo/base/BlockingQueue.h\<close> and \<open>BoundedBlockingQueue.h\<close> and the latch of
  \<open>CountDownLatch.cc\<close>, as systems of threads that call them in any order. The histories \<open>_put\<close> and
  \<open>_taken\<close> collect what has been stored and handed out.
\<close>

section \<open>BlockingQueue\<close>

text \<open>Where a thread can be: outside, in \<open>put\<close> or \<open>take\<close> before it has the lock, or waiting in \<open>take\<close>.\<close>

datatype 'a bq_point = BqIdle | BqPut 'a | BqTake | BqTakeWait

record 'a blocking_queue =
  bq_queue :: "'a list"
  bq_threads :: "'a bq_point list"
  bq_put :: "'a list"
  bq_taken :: "'a list"

definition new_BlockingQueue :: "nat \<Rightarrow> 'a blocking_queue" where
  "new_BlockingQueue n = \<lparr>bq_queue = [], bq_threads = replicate n BqIdle, bq_put = [], bq_taken = []\<rparr>"

definition blocking_put :: "nat \<Rightarrow> 'a \<Rightarrow> nat option \<Rightarrow> 'a blocking_queue \<Rightarrow> 'a blocking_queue" where
  "blocking_put i x w s =
     s\<lparr>bq_queue := bq_queue s @ [x], bq_put := bq_put s @ [x],
       bq_threads := notify (\<lambda>_. BqTake) w ((bq_threads s)[i := BqIdle])\<rparr>"

text \<open>One pass of \<open>take\<close>: wait if the queue is empty, else hand out its front.\<close>

definition blocking_take :: "nat \<Rightarrow> 'a blocking_queue \<Rightarrow> 'a blocking_queue" where
  "blocking_take i s =
     (case bq_queue s of
        [] \<Rightarrow> s\<lparr>bq_threads := (bq_threads s)[i := BqTakeWait]\<rparr>
      | x # q \<Rightarrow> s\<lparr>bq_queue := q, bq_taken := bq_taken s @ [x], bq_threads := (bq_threads s)[i := BqIdle]\<rparr>)"

definition blocking_size :: "'a blocking_queue \<Rightarrow> nat" where
  "blocking_size s = length (bq_queue s)"

text \<open>
  What a thread does outside the critical sections: it calls \<open>put\<close> or \<open>take\<close>, or returns from \<open>wait()\<close>
  without a notification.
\<close>

fun bq_move :: "'a bq_point \<Rightarrow> 'a bq_point \<Rightarrow> bool" where
  "bq_move BqIdle (BqPut x) = True"
| "bq_move BqIdle BqTake = True"
| "bq_move BqTakeWait BqTake = True"
| "bq_move _ _ = False"

inductive bq_step :: "'a blocking_queue \<Rightarrow> 'a blocking_queue \<Rightarrow> bool" where
  bq_moves: "i < length (bq_threads s) \<Longrightarrow> bq_move (bq_threads s ! i) p \<Longrightarrow>
     bq_step s (s\<lparr>bq_threads := (bq_threads s)[i := p]\<rparr>)"
| bq_puts: "i < length (bq_threads s) \<Longrightarrow> bq_threads s ! i = BqPut x \<Longrightarrow>
     notify_ok ((=) BqTakeWait) ((bq_threads s)[i := BqIdle]) w \<Longrightarrow> bq_step s (blocking_put i x w s)"
| bq_takes: "i < length (bq_threads s) \<Longrightarrow> bq_threads s ! i = BqTake \<Longrightarrow> bq_step s (blocking_take i s)"

lemma bq_move_dir:
  "bq_move p q \<Longrightarrow> p \<noteq> BqTake" "bq_move p q \<Longrightarrow> q \<noteq> BqTakeWait"
  by (cases "(p, q)" rule: bq_move.cases; simp)+

interpretation bq_takers: signalling bq_step "\<lambda>s. length (bq_queue s)"
    "\<lambda>s. count_at ((=) BqTakeWait) (bq_threads s)" "\<lambda>s. count_at ((=) BqTake) (bq_threads s)"
proof
  fix s s' :: "'a blocking_queue"
  let ?w = "count_at ((=) BqTakeWait)" and ?a = "count_at ((=) BqTake)"
  assume "bq_step s s'"
  then show "?w (bq_threads s') = 0 \<or> length (bq_queue s') = 0 \<or>
    0 < ?w (bq_threads s) \<and> length (bq_queue s') + ?a (bq_threads s) \<le> length (bq_queue s) + ?a (bq_threads s')"
  proof cases
    case (bq_moves i p)
    then show ?thesis
      using count_at_plain [of i "bq_threads s" "(=) BqTake" p "(=) BqTakeWait"] bq_move_dir [of "bq_threads s ! i" p] by auto
  next
    case (bq_puts i x w)
    let ?ts = "(bq_threads s)[i := BqIdle]"
    have same: "?w ?ts = ?w (bq_threads s)" "?a ?ts = ?a (bq_threads s)"
      using bq_puts by (simp_all add: count_at_same)
    from notify_wakes [OF bq_puts(4), of "(=) BqTake" "\<lambda>_. BqTake"] show ?thesis
      using bq_puts(1) same by (auto simp: blocking_put_def notify_def)
  next
    case (bq_takes i)
    then show ?thesis
      using count_at_leave [of i "bq_threads s" "(=) BqTake" BqIdle] count_at_same [of i "bq_threads s" "(=) BqTakeWait" BqIdle]
      by (auto simp: blocking_take_def split: list.split)
  qed
qed

lemma bq_history: "bq_step s s' \<Longrightarrow> bq_put s = bq_taken s @ bq_queue s \<Longrightarrow> bq_put s' = bq_taken s' @ bq_queue s'"
  by (induction rule: bq_step.induct) (auto simp: blocking_put_def blocking_take_def split: list.split)

lemma bq_history_reach:
  "bq_step\<^sup>*\<^sup>* s s' \<Longrightarrow> bq_put s = bq_taken s @ bq_queue s \<Longrightarrow> bq_put s' = bq_taken s' @ bq_queue s'"
  by (induction rule: rtranclp_induct) (auto dest: bq_history)

section \<open>BoundedBlockingQueue\<close>

datatype 'a bb_point = BbIdle | is_BbPut: BbPut 'a | is_BbPutWait: BbPutWait 'a | BbTake | BbTakeWait

record 'a bounded_queue =
  bb_queue :: "'a list"       \<comment> \<open>a \<open>boost::circular_buffer\<close>\<close>
  bb_capacity :: nat
  bb_threads :: "'a bb_point list"
  bb_put :: "'a list"
  bb_taken :: "'a list"

definition new_BoundedBlockingQueue :: "nat \<Rightarrow> nat \<Rightarrow> 'a bounded_queue" where
  "new_BoundedBlockingQueue maxSize n =
     \<lparr>bb_queue = [], bb_capacity = maxSize, bb_threads = replicate n BbIdle, bb_put = [], bb_taken = []\<rparr>"

definition bounded_full :: "'a bounded_queue \<Rightarrow> bool" where
  "bounded_full s \<longleftrightarrow> length (bb_queue s) = bb_capacity s"

definition bounded_empty :: "'a bounded_queue \<Rightarrow> bool" where
  "bounded_empty s \<longleftrightarrow> bb_queue s = []"

definition bounded_size :: "'a bounded_queue \<Rightarrow> nat" where
  "bounded_size s = length (bb_queue s)"

text \<open>Waking a thread sends it back to the test of its loop.\<close>

fun bb_wake :: "'a bb_point \<Rightarrow> 'a bb_point" where
  "bb_wake (BbPutWait x) = BbPut x"
| "bb_wake BbTakeWait = BbTake"
| "bb_wake p = p"

text \<open>One pass of \<open>put\<close> and of \<open>take\<close> by thread \<open>i\<close>; \<open>w\<close> is the thread a notification wakes.\<close>

definition bounded_put :: "nat \<Rightarrow> 'a \<Rightarrow> nat option \<Rightarrow> 'a bounded_queue \<Rightarrow> 'a bounded_queue" where
  "bounded_put i x w s =
     (if bounded_full s then s\<lparr>bb_threads := (bb_threads s)[i := BbPutWait x]\<rparr>
      else s\<lparr>bb_queue := bb_queue s @ [x], bb_put := bb_put s @ [x],
             bb_threads := notify bb_wake w ((bb_threads s)[i := BbIdle])\<rparr>)"

definition bounded_take :: "nat \<Rightarrow> nat option \<Rightarrow> 'a bounded_queue \<Rightarrow> 'a bounded_queue" where
  "bounded_take i w s =
     (if bounded_empty s then s\<lparr>bb_threads := (bb_threads s)[i := BbTakeWait]\<rparr>
      else s\<lparr>bb_queue := tl (bb_queue s), bb_taken := bb_taken s @ [hd (bb_queue s)],
             bb_threads := notify bb_wake w ((bb_threads s)[i := BbIdle])\<rparr>)"

fun bb_move :: "'a bb_point \<Rightarrow> 'a bb_point \<Rightarrow> bool" where
  "bb_move BbIdle (BbPut x) = True"
| "bb_move BbIdle BbTake = True"
| "bb_move BbTakeWait BbTake = True"
| "bb_move (BbPutWait x) (BbPut y) = (x = y)"
| "bb_move _ _ = False"

inductive bb_step :: "'a bounded_queue \<Rightarrow> 'a bounded_queue \<Rightarrow> bool" where
  bb_moves: "i < length (bb_threads s) \<Longrightarrow> bb_move (bb_threads s ! i) p \<Longrightarrow>
     bb_step s (s\<lparr>bb_threads := (bb_threads s)[i := p]\<rparr>)"
| bb_puts: "i < length (bb_threads s) \<Longrightarrow> bb_threads s ! i = BbPut x \<Longrightarrow>
     notify_ok ((=) BbTakeWait) ((bb_threads s)[i := BbIdle]) w \<Longrightarrow> bb_step s (bounded_put i x w s)"
| bb_takes: "i < length (bb_threads s) \<Longrightarrow> bb_threads s ! i = BbTake \<Longrightarrow>
     notify_ok is_BbPutWait ((bb_threads s)[i := BbIdle]) w \<Longrightarrow> bb_step s (bounded_take i w s)"

text \<open>The same steps as an executable function of the thread and the woken thread.\<close>

datatype 'a bb_action = BbMove nat "'a bb_point" | BbRun nat "nat option"

definition bb_act :: "'a bb_action \<Rightarrow> 'a bounded_queue \<Rightarrow> 'a bounded_queue option" where
  "bb_act a s =
     (case a of
        BbMove i p \<Rightarrow> if i < length (bb_threads s) \<and> bb_move (bb_threads s ! i) p
          then Some (s\<lparr>bb_threads := (bb_threads s)[i := p]\<rparr>) else None
      | BbRun i w \<Rightarrow> if i < length (bb_threads s) then
          (case bb_threads s ! i of
             BbPut x \<Rightarrow> if notify_ok ((=) BbTakeWait) ((bb_threads s)[i := BbIdle]) w then Some (bounded_put i x w s) else None
           | BbTake \<Rightarrow> if notify_ok is_BbPutWait ((bb_threads s)[i := BbIdle]) w then Some (bounded_take i w s) else None
           | _ \<Rightarrow> None) else None)"

lemma bb_act_step: "bb_act a s = Some s' \<Longrightarrow> bb_step s s'"
  by (auto simp: bb_act_def intro: bb_step.intros split: bb_action.splits bb_point.splits if_splits)

lemma bb_move_dir:
  "bb_move p q \<Longrightarrow> p \<noteq> BbTake" "bb_move p q \<Longrightarrow> q \<noteq> BbTakeWait"
  "bb_move p q \<Longrightarrow> \<not> is_BbPut p" "bb_move p q \<Longrightarrow> \<not> is_BbPutWait q"
  by (cases "(p, q)" rule: bb_move.cases; simp)+

interpretation bb_takers: signalling bb_step "\<lambda>s. length (bb_queue s)"
    "\<lambda>s. count_at ((=) BbTakeWait) (bb_threads s)" "\<lambda>s. count_at ((=) BbTake) (bb_threads s)"
proof
  fix s s' :: "'a bounded_queue"
  let ?w = "count_at ((=) BbTakeWait)" and ?a = "count_at ((=) BbTake)"
  assume "bb_step s s'"
  then show "?w (bb_threads s') = 0 \<or> length (bb_queue s') = 0 \<or>
    0 < ?w (bb_threads s) \<and> length (bb_queue s') + ?a (bb_threads s) \<le> length (bb_queue s) + ?a (bb_threads s')"
  proof cases
    case (bb_moves i p)
    then show ?thesis
      using count_at_plain [of i "bb_threads s" "(=) BbTake" p "(=) BbTakeWait"] bb_move_dir [of "bb_threads s ! i" p] by auto
  next
    case (bb_puts i x w)
    have same: "?w ((bb_threads s)[i := p]) = ?w (bb_threads s)" "?a ((bb_threads s)[i := p]) = ?a (bb_threads s)"
      if "p \<noteq> BbTakeWait" "p \<noteq> BbTake" for p
      using bb_puts that by (auto simp: count_at_same)
    have "notify bb_wake w ((bb_threads s)[i := BbIdle]) = (bb_threads s)[i := BbIdle]" if "w = None"
      using that by (simp add: notify_def)
    with notify_wakes [OF bb_puts(4), of "(=) BbTake" bb_wake] same [of BbIdle] same [of "BbPutWait x"] bb_puts(1)
    show ?thesis by (auto simp: bounded_put_def)
  next
    case (bb_takes i w)
    have "?w ((bb_threads s)[i := BbIdle]) = ?w (bb_threads s)" "Suc (?a ((bb_threads s)[i := BbIdle])) = ?a (bb_threads s)"
      using bb_takes by (simp_all add: count_at_same count_at_leave)
    moreover have "?w (notify bb_wake w ((bb_threads s)[i := BbIdle])) = ?w ((bb_threads s)[i := BbIdle])"
      "?a (notify bb_wake w ((bb_threads s)[i := BbIdle])) = ?a ((bb_threads s)[i := BbIdle])"
      using bb_takes(4) by (auto intro!: notify_other simp: is_BbPutWait_def)
    ultimately show ?thesis using bb_takes(1) by (cases "bb_queue s") (auto simp: bounded_take_def bounded_empty_def)
  qed
qed

interpretation bb_putters: signalling bb_step "\<lambda>s. bb_capacity s - length (bb_queue s)"
    "\<lambda>s. count_at is_BbPutWait (bb_threads s)" "\<lambda>s. count_at is_BbPut (bb_threads s)"
proof
  fix s s' :: "'a bounded_queue"
  let ?w = "count_at is_BbPutWait" and ?a = "count_at is_BbPut"
  assume "bb_step s s'"
  then show "?w (bb_threads s') = 0 \<or> bb_capacity s' - length (bb_queue s') = 0 \<or>
    0 < ?w (bb_threads s) \<and> bb_capacity s' - length (bb_queue s') + ?a (bb_threads s)
      \<le> bb_capacity s - length (bb_queue s) + ?a (bb_threads s')"
  proof cases
    case (bb_moves i p)
    then show ?thesis
      using count_at_plain [of i "bb_threads s" is_BbPut p is_BbPutWait] bb_move_dir [of "bb_threads s ! i" p] by auto
  next
    case (bb_puts i x w)
    have "?w ((bb_threads s)[i := BbIdle]) = ?w (bb_threads s)" "Suc (?a ((bb_threads s)[i := BbIdle])) = ?a (bb_threads s)"
      using bb_puts by (simp_all add: count_at_same count_at_leave)
    moreover have "?w (notify bb_wake w ((bb_threads s)[i := BbIdle])) = ?w ((bb_threads s)[i := BbIdle])"
      "?a (notify bb_wake w ((bb_threads s)[i := BbIdle])) = ?a ((bb_threads s)[i := BbIdle])"
      using bb_puts(4) by (auto intro!: notify_other)
    ultimately show ?thesis using bb_puts(1) by (auto simp: bounded_put_def bounded_full_def)
  next
    case (bb_takes i w)
    have same: "?w ((bb_threads s)[i := p]) = ?w (bb_threads s)" "?a ((bb_threads s)[i := p]) = ?a (bb_threads s)"
      if "\<not> is_BbPutWait p" "\<not> is_BbPut p" for p
      using bb_takes that by (auto simp: count_at_same)
    have "is_BbPut (bb_wake p) \<and> \<not> is_BbPut p" if "is_BbPutWait p" for p :: "'a bb_point"
      using that by (cases p) auto
    moreover have "notify bb_wake w ((bb_threads s)[i := BbIdle]) = (bb_threads s)[i := BbIdle]" if "w = None"
      using that by (simp add: notify_def)
    ultimately show ?thesis
      using notify_wakes [OF bb_takes(4), of is_BbPut bb_wake] same [of BbIdle] same [of BbTakeWait] bb_takes(1)
      by (auto simp: bounded_take_def bounded_empty_def neq_Nil_conv)
  qed
qed

lemma bb_history:
  "bb_step s s' \<Longrightarrow> bb_put s = bb_taken s @ bb_queue s \<and> length (bb_queue s) \<le> bb_capacity s \<Longrightarrow>
     bb_put s' = bb_taken s' @ bb_queue s' \<and> length (bb_queue s') \<le> bb_capacity s' \<and> bb_capacity s' = bb_capacity s"
  by (induction rule: bb_step.induct)
    (auto simp: bounded_put_def bounded_take_def bounded_full_def bounded_empty_def)

lemma bb_history_reach:
  "bb_step\<^sup>*\<^sup>* s s' \<Longrightarrow> bb_put s = bb_taken s @ bb_queue s \<and> length (bb_queue s) \<le> bb_capacity s \<Longrightarrow>
     bb_put s' = bb_taken s' @ bb_queue s' \<and> length (bb_queue s') \<le> bb_capacity s' \<and> bb_capacity s' = bb_capacity s"
  by (induction rule: rtranclp_induct) (auto dest: bb_history)

section \<open>CountDownLatch\<close>

text \<open>\<open>LtWait\<close>: in \<open>wait()\<close> before the test; \<open>LtSleep\<close>: waiting for the condition; \<open>LtPassed\<close>: returned.\<close>

datatype latch_point = LtIdle | LtCountDown | LtWait | LtSleep | LtPassed

record latch =
  cl_count :: int
  cl_threads :: "latch_point list"
  cl_downs :: nat          \<comment> \<open>how often \<open>countDown\<close> has been executed\<close>

definition new_CountDownLatch :: "int \<Rightarrow> nat \<Rightarrow> latch" where
  "new_CountDownLatch c n = \<lparr>cl_count = c, cl_threads = replicate n LtIdle, cl_downs = 0\<rparr>"

definition latch_wait :: "nat \<Rightarrow> latch \<Rightarrow> latch" where
  "latch_wait i s = s\<lparr>cl_threads := (cl_threads s)[i := if 0 < cl_count s then LtSleep else LtPassed]\<rparr>"

definition latch_countDown :: "nat \<Rightarrow> latch \<Rightarrow> latch" where
  "latch_countDown i s =
     (let s1 = s\<lparr>cl_count := cl_count s - 1, cl_downs := Suc (cl_downs s), cl_threads := (cl_threads s)[i := LtIdle]\<rparr>
      in if cl_count s1 = 0 then s1\<lparr>cl_threads := notifyAll ((=) LtSleep) (\<lambda>_. LtWait) (cl_threads s1)\<rparr> else s1)"

definition latch_getCount :: "latch \<Rightarrow> int" where
  "latch_getCount s = cl_count s"

fun latch_move :: "latch_point \<Rightarrow> latch_point \<Rightarrow> bool" where
  "latch_move LtIdle LtCountDown = True"
| "latch_move LtIdle LtWait = True"
| "latch_move LtSleep LtWait = True"
| "latch_move _ _ = False"

inductive latch_step :: "latch \<Rightarrow> latch \<Rightarrow> bool" where
  latch_moves: "i < length (cl_threads s) \<Longrightarrow> latch_move (cl_threads s ! i) p \<Longrightarrow>
     latch_step s (s\<lparr>cl_threads := (cl_threads s)[i := p]\<rparr>)"
| latch_counts: "i < length (cl_threads s) \<Longrightarrow> cl_threads s ! i = LtCountDown \<Longrightarrow> latch_step s (latch_countDown i s)"
| latch_waits: "i < length (cl_threads s) \<Longrightarrow> cl_threads s ! i = LtWait \<Longrightarrow> latch_step s (latch_wait i s)"

definition latch_inv :: "int \<Rightarrow> latch \<Rightarrow> bool" where
  "latch_inv c s \<longleftrightarrow> cl_count s = c - int (cl_downs s) \<and>
     (if 0 < cl_count s then LtPassed \<notin> set (cl_threads s) else LtSleep \<notin> set (cl_threads s))"

lemma latch_inv_move: "latch_move q p \<Longrightarrow> p \<noteq> LtPassed \<and> p \<noteq> LtSleep"
  by (cases "(q, p)" rule: latch_move.cases) simp_all

lemma latch_inv_step: "latch_step s s' \<Longrightarrow> latch_inv c s \<Longrightarrow> latch_inv c s'"
proof (induction rule: latch_step.induct)
  case (latch_moves i s p)
  then show ?case using latch_inv_move [of "cl_threads s ! i" p]
    by (auto simp: latch_inv_def dest: in_set_update split: if_splits)
next
  case (latch_counts i s)
  consider "cl_count s > 1" | "cl_count s = 1" | "cl_count s < 1" by linarith
  then show ?case using latch_counts.prems
    by cases (auto simp: latch_inv_def latch_countDown_def Let_def notifyAll_def dest: in_set_update)
next
  case (latch_waits i s)
  then show ?case by (auto simp: latch_inv_def latch_wait_def dest: in_set_update split: if_splits)
qed

lemma latch_inv_reach: "latch_step\<^sup>*\<^sup>* s s' \<Longrightarrow> latch_inv c s \<Longrightarrow> latch_inv c s'"
  by (induction rule: rtranclp_induct) (auto dest: latch_inv_step)

section \<open>Properties\<close>

text \<open>The unbounded queue hands out everything once and in order and forgets no waiting thread:
  for any number of threads that call \<open>put\<close> and \<open>take\<close> in any order and with any choice of the
  thread a notification wakes, what has been stored is what has been handed out followed by what is
  still queued, and whenever something is queued while a thread waits in \<open>take\<close>, some other thread is
  about to take the lock in \<open>take\<close> and its next step hands out the front of the queue.\<close>

theorem blocking_queue_serves:
  assumes "bq_step\<^sup>*\<^sup>* (new_BlockingQueue n) s"
  shows "bq_put s = bq_taken s @ bq_queue s \<and>
    (bq_queue s \<noteq> [] \<and> BqTakeWait \<in> set (bq_threads s) \<longrightarrow>
      (\<exists>i < length (bq_threads s). bq_threads s ! i = BqTake \<and> bq_step s (blocking_take i s) \<and>
        bq_taken (blocking_take i s) = bq_taken s @ [hd (bq_queue s)]))"
proof -
  have "bq_put s = bq_taken s @ bq_queue s"
    using bq_history_reach [OF assms] by (simp add: new_BlockingQueue_def)
  moreover have "\<exists>i < length (bq_threads s). bq_threads s ! i = BqTake"
    if "bq_queue s \<noteq> []" "BqTakeWait \<in> set (bq_threads s)"
  proof -
    have "0 < count_at ((=) BqTakeWait) (bq_threads s)" using that(2) by (auto simp: count_at_pos in_set_conv_nth)
    moreover have "count_at ((=) BqTakeWait) (bq_threads (new_BlockingQueue n)) = 0"
      by (simp add: new_BlockingQueue_def count_at_zero list_all_iff)
    ultimately have "0 < count_at ((=) BqTake) (bq_threads s)"
      using bq_takers.no_lost_wakeup [OF assms] that(1) by simp
    then show ?thesis by (auto simp: count_at_pos)
  qed
  moreover have "bq_step s (blocking_take i s) \<and> bq_taken (blocking_take i s) = bq_taken s @ [hd (bq_queue s)]"
    if "i < length (bq_threads s)" "bq_threads s ! i = BqTake" "bq_queue s \<noteq> []" for i
    using bq_takes [OF that(1,2)] that(3) by (auto simp: blocking_take_def neq_Nil_conv)
  ultimately show ?thesis by blast
qed

text \<open>A run: two threads wait, a third stores an item and wakes the first.\<close>

definition bq_run_end :: "nat blocking_queue" where
  "bq_run_end = \<lparr>bq_queue = [7], bq_threads = [BqTake, BqTakeWait, BqIdle], bq_put = [7], bq_taken = []\<rparr>"

lemma bq_run: "bq_step\<^sup>*\<^sup>* (new_BlockingQueue 3) bq_run_end"
proof -
  let ?s = "\<lambda>q ts p. \<lparr>bq_queue = q, bq_threads = ts, bq_put = p, bq_taken = []\<rparr> :: nat blocking_queue"
  have 1: "bq_step (?s [] [BqIdle, BqIdle, BqIdle] []) (?s [] [BqTake, BqIdle, BqIdle] [])"
    using bq_moves [of 0 "?s [] [BqIdle, BqIdle, BqIdle] []" BqTake] by simp
  have 2: "bq_step (?s [] [BqTake, BqIdle, BqIdle] []) (?s [] [BqTakeWait, BqIdle, BqIdle] [])"
    using bq_takes [of 0 "?s [] [BqTake, BqIdle, BqIdle] []"] by (simp add: blocking_take_def)
  have 3: "bq_step (?s [] [BqTakeWait, BqIdle, BqIdle] []) (?s [] [BqTakeWait, BqTake, BqIdle] [])"
    using bq_moves [of 1 "?s [] [BqTakeWait, BqIdle, BqIdle] []" BqTake] by simp
  have 4: "bq_step (?s [] [BqTakeWait, BqTake, BqIdle] []) (?s [] [BqTakeWait, BqTakeWait, BqIdle] [])"
    using bq_takes [of 1 "?s [] [BqTakeWait, BqTake, BqIdle] []"] by (simp add: blocking_take_def)
  have 5: "bq_step (?s [] [BqTakeWait, BqTakeWait, BqIdle] []) (?s [] [BqTakeWait, BqTakeWait, BqPut 7] [])"
    using bq_moves [of 2 "?s [] [BqTakeWait, BqTakeWait, BqIdle] []" "BqPut 7"] by simp
  have 6: "bq_step (?s [] [BqTakeWait, BqTakeWait, BqPut 7] []) (?s [7] [BqTake, BqTakeWait, BqIdle] [7])"
    using bq_puts [of 2 "?s [] [BqTakeWait, BqTakeWait, BqPut 7] []" 7 "Some 0"]
    by (simp add: blocking_put_def notify_def notify_ok_def)
  have "new_BlockingQueue 3 = ?s [] [BqIdle, BqIdle, BqIdle] []" by (simp add: new_BlockingQueue_def numeral_3_eq_3)
  with 1 2 3 4 5 6 show ?thesis unfolding bq_run_end_def by (auto intro: converse_rtranclp_into_rtranclp)
qed

theorem blocking_queue_serves_witness:
  "\<exists>i < length (bq_threads bq_run_end). bq_threads bq_run_end ! i = BqTake \<and>
     bq_step bq_run_end (blocking_take i bq_run_end) \<and> bq_taken (blocking_take i bq_run_end) = [7]"
proof -
  have "bq_queue bq_run_end \<noteq> [] \<and> BqTakeWait \<in> set (bq_threads bq_run_end)" "hd (bq_queue bq_run_end) = 7"
    "bq_taken bq_run_end = []" by (simp_all add: bq_run_end_def)
  with blocking_queue_serves [OF bq_run] show ?thesis by auto
qed

text \<open>The bounded queue in addition never holds more than its capacity, and it forgets neither
  side: while a thread waits in \<open>take\<close> beside a queued item some thread is about to run in \<open>take\<close>, and
  while a thread waits in \<open>put\<close> beside a free place some thread is about to run in \<open>put\<close>; so with one
  item and one free place the system cannot be stuck.\<close>

theorem bounded_queue_serves:
  assumes "bb_step\<^sup>*\<^sup>* (new_BoundedBlockingQueue maxSize n) s"
  shows "bb_put s = bb_taken s @ bb_queue s \<and> length (bb_queue s) \<le> maxSize \<and>
    (bb_queue s \<noteq> [] \<and> BbTakeWait \<in> set (bb_threads s) \<longrightarrow> BbTake \<in> set (bb_threads s)) \<and>
    (length (bb_queue s) < maxSize \<and> (\<exists>x. BbPutWait x \<in> set (bb_threads s)) \<longrightarrow>
      (\<exists>x. BbPut x \<in> set (bb_threads s)))"
proof -
  have hist: "bb_put s = bb_taken s @ bb_queue s" "length (bb_queue s) \<le> maxSize" "bb_capacity s = maxSize"
    using bb_history_reach [OF assms] by (simp_all add: new_BoundedBlockingQueue_def)
  have none: "count_at ((=) BbTakeWait) (bb_threads (new_BoundedBlockingQueue maxSize n)) = 0"
    "count_at is_BbPutWait (bb_threads (new_BoundedBlockingQueue maxSize n)) = 0"
    by (simp_all add: new_BoundedBlockingQueue_def count_at_zero list_all_iff)
  have "BbTake \<in> set (bb_threads s)" if "bb_queue s \<noteq> []" "BbTakeWait \<in> set (bb_threads s)"
    using bb_takers.no_lost_wakeup [OF assms none(1)] that by (simp add: count_at_mem)
  moreover have "\<exists>x. BbPut x \<in> set (bb_threads s)"
    if "length (bb_queue s) < maxSize" "BbPutWait x \<in> set (bb_threads s)" for x
    using bb_putters.no_lost_wakeup [OF assms none(2)] that hist(3) by (force simp: count_at_ex is_BbPut_def)
  ultimately show ?thesis using hist by blast
qed

theorem bounded_queue_serves_witness:
  "\<exists>s :: nat bounded_queue. bb_step\<^sup>*\<^sup>* (new_BoundedBlockingQueue 1 3) s \<and> length (bb_queue s) < 1 \<and>
     BbPutWait 3 \<in> set (bb_threads s) \<and> (\<exists>x. BbPut x \<in> set (bb_threads s))"
proof -
  let ?run = "[BbMove 0 (BbPut (1 :: nat)), BbRun 0 None, BbMove 0 (BbPut 2), BbRun 0 None,
    BbMove 1 (BbPut 3), BbRun 1 None, BbMove 2 BbTake, BbRun 2 (Some 0)]"
  let ?s = "\<lparr>bb_queue = [], bb_capacity = 1, bb_threads = [BbPut 2, BbPutWait 3, BbIdle],
    bb_put = [1], bb_taken = [1]\<rparr> :: nat bounded_queue"
  have "exec bb_act ?run (new_BoundedBlockingQueue 1 3) = Some ?s" by code_simp
  then have r: "bb_step\<^sup>*\<^sup>* (new_BoundedBlockingQueue 1 3) ?s" by (rule exec_reach) (rule bb_act_step)
  with bounded_queue_serves [OF r] show ?thesis by (intro exI [of _ ?s]) simp
qed

text \<open>The latch opens exactly when it should: a thread has passed \<open>wait()\<close> only after at least
  \<open>count\<close> calls of \<open>countDown\<close>, and after that many calls no thread is left sleeping, however many
  threads wait and however often \<open>countDown\<close> is called beyond the count.\<close>

theorem latch_opens:
  assumes "latch_step\<^sup>*\<^sup>* (new_CountDownLatch c n) s"
  shows "latch_getCount s = c - int (cl_downs s) \<and>
    (LtPassed \<in> set (cl_threads s) \<longrightarrow> c \<le> int (cl_downs s)) \<and>
    (c \<le> int (cl_downs s) \<longrightarrow> LtSleep \<notin> set (cl_threads s))"
proof -
  have "latch_inv c (new_CountDownLatch c n)" by (auto simp: latch_inv_def new_CountDownLatch_def)
  from latch_inv_reach [OF assms this] show ?thesis
    by (auto simp: latch_inv_def latch_getCount_def split: if_splits)
qed

theorem latch_opens_witness:
  "latch_step\<^sup>*\<^sup>* (new_CountDownLatch 1 1) \<lparr>cl_count = 0, cl_threads = [LtIdle], cl_downs = 1\<rparr> \<and>
    LtSleep \<notin> set (cl_threads \<lparr>cl_count = 0, cl_threads = [LtIdle], cl_downs = 1\<rparr>)"
proof -
  let ?s = "\<lparr>cl_count = 1, cl_threads = [LtCountDown], cl_downs = 0\<rparr>"
  have "latch_step (new_CountDownLatch 1 1) ?s"
    using latch_moves [of 0 "new_CountDownLatch 1 1" LtCountDown] by (simp add: new_CountDownLatch_def)
  moreover have "latch_step ?s \<lparr>cl_count = 0, cl_threads = [LtIdle], cl_downs = 1\<rparr>"
    using latch_counts [of 0 ?s] by (simp add: latch_countDown_def Let_def notifyAll_def)
  ultimately have r: "latch_step\<^sup>*\<^sup>* (new_CountDownLatch 1 1) \<lparr>cl_count = 0, cl_threads = [LtIdle], cl_downs = 1\<rparr>"
    by (auto intro: converse_rtranclp_into_rtranclp)
  from latch_opens [OF r] r show ?thesis by simp
qed

end
