(* ===== verification/Dates.thy ===== *)
theory Dates
  imports Muduo_Prelude
begin

text \<open>
  Calendar dates (\<open>src/muduo/base/Date.h\<close> and \<open>Date.cc\<close>): conversion between a date of the Gregorian
  calendar and its Julian day number. Arithmetic on \<open>int\<close> wraps at 32 bits (\<open>i32\<close>) and divides towards
  zero. The calendar itself (leap years, lengths of months) is the specification.
\<close>

section \<open>The code\<close>

record ymd =
  ymd_year :: int
  ymd_month :: int
  ymd_day :: int

definition i32 :: "int \<Rightarrow> int" where
  "i32 x = sint (of_int x :: 32 word)"

definition getJulianDayNumber :: "int \<Rightarrow> int \<Rightarrow> int \<Rightarrow> int" where
  "getJulianDayNumber year month day =
     (let a = cdiv (i32 (14 - month)) 12;
          y = i32 (year + 4800 - a);
          m = i32 (month + 12 * a - 3)
      in i32 (day + cdiv (i32 (153 * m + 2)) 5 + i32 (y * 365) + cdiv y 4 - cdiv y 100 + cdiv y 400 - 32045))"

definition getYearMonthDay :: "int \<Rightarrow> ymd" where
  "getYearMonthDay julianDayNumber =
     (let a = i32 (julianDayNumber + 32044);
          b = cdiv (i32 (4 * a + 3)) 146097;
          c = i32 (a - cdiv (i32 (b * 146097)) 4);
          d = cdiv (i32 (4 * c + 3)) 1461;
          e = i32 (c - cdiv (i32 (1461 * d)) 4);
          m = cdiv (i32 (5 * e + 2)) 153
      in \<lparr>ymd_year = i32 (b * 100 + d - 4800 + cdiv m 10),
          ymd_month = i32 (m + 3 - 12 * cdiv m 10),
          ymd_day = i32 (e - cdiv (i32 (153 * m + 2)) 5 + 1)\<rparr>)"

definition kJulianDayOf1970_01_01 :: int where
  "kJulianDayOf1970_01_01 = getJulianDayNumber 1970 1 1"

definition date_valid :: "int \<Rightarrow> bool" where
  "date_valid j \<longleftrightarrow> 0 < j"

definition weekDay :: "int \<Rightarrow> int" where
  "weekDay j = cmod (i32 (j + 1)) 7"

definition date_less :: "int \<Rightarrow> int \<Rightarrow> bool" where
  "date_less x y \<longleftrightarrow> x < y"

text \<open>\<open>%4d\<close> and \<open>%02d\<close>.\<close>

definition pad :: "char \<Rightarrow> nat \<Rightarrow> string \<Rightarrow> string" where
  "pad c n str = replicate (n - length str) c @ str"

definition print_02d :: "int \<Rightarrow> string" where
  "print_02d i = (if i < 0 then ''-'' @ pad (CHR ''0'') 1 (dec_nat (nat (- i))) else pad (CHR ''0'') 2 (dec_nat (nat i)))"

definition toIsoString :: "int \<Rightarrow> string" where
  "toIsoString j =
     (let d = getYearMonthDay j in
      snprintf_text 32 (pad (CHR '' '') 4 (dec_int (ymd_year d)) @ ''-'' @ print_02d (ymd_month d) @ ''-'' @ print_02d (ymd_day d)))"

section \<open>The calendar\<close>

definition leap_year :: "int \<Rightarrow> bool" where
  "leap_year y \<longleftrightarrow> 4 dvd y \<and> (\<not> 100 dvd y \<or> 400 dvd y)"

definition month_length :: "int \<Rightarrow> int \<Rightarrow> int" where
  "month_length y m =
     (if m = 2 then (if leap_year y then 29 else 28) else if m \<in> {4, 6, 9, 11} then 30 else 31)"

definition calendar_date :: "ymd \<Rightarrow> bool" where
  "calendar_date d \<longleftrightarrow> 1 \<le> ymd_month d \<and> ymd_month d \<le> 12 \<and> 1 \<le> ymd_day d \<and>
     ymd_day d \<le> month_length (ymd_year d) (ymd_month d)"

text \<open>The day after a date.\<close>

definition next_date :: "ymd \<Rightarrow> ymd" where
  "next_date d =
     (if ymd_day d < month_length (ymd_year d) (ymd_month d) then d\<lparr>ymd_day := ymd_day d + 1\<rparr>
      else if ymd_month d < 12 then d\<lparr>ymd_month := ymd_month d + 1, ymd_day := 1\<rparr>
      else d\<lparr>ymd_year := ymd_year d + 1, ymd_month := 1, ymd_day := 1\<rparr>)"

section \<open>Removing the wrap-around\<close>

lemma i32_id: "- 2147483648 \<le> x \<Longrightarrow> x < 2147483648 \<Longrightarrow> i32 x = x"
  unfolding i32_def by (rule int32_id) simp_all

text \<open>
  Days are counted from 1 March of the year -4800. A cycle of \<open>K\<close> days per four units (\<open>K = 146097\<close>
  days in four centuries, \<open>K = 1461\<close> days in four years): the unit of day \<open>n\<close> is \<open>(4 n + 3) div K\<close>.
\<close>

lemma cycle_start:
  fixes K x :: int
  assumes "K mod 4 = 1"
  shows "4 * (K * x div 4) = K * x - x mod 4"
proof -
  have "K * x mod 4 = x mod 4" using mod_mult_left_eq [of K 4 x] assms by simp
  then show ?thesis using minus_mod_eq_mult_div [of "K * x" 4] by simp
qed

lemma cycle_div:
  fixes K x r :: int
  assumes "K mod 4 = 1" "0 \<le> r" "4 * r + 3 - x mod 4 < K"
  shows "(4 * (K * x div 4 + r) + 3) div K = x"
proof -
  define s where "s = 4 * r + 3 - x mod 4"
  have "x mod 4 < 4" by simp
  then have s: "0 \<le> s" "s < K" using assms by (simp_all add: s_def)
  have "4 * (K * x div 4 + r) + 3 = s + K * x"
    unfolding distrib_left cycle_start [OF assms(1)] by (simp add: s_def)
  also have "(s + K * x) div K = x" using s by (simp add: div_pos_pos_trivial)
  finally show ?thesis .
qed

lemma cycle_split:
  fixes K n :: int
  assumes "K mod 4 = 1" "0 < K" "x = (4 * n + 3) div K"
  shows "0 \<le> n - K * x div 4 \<and> 4 * (n - K * x div 4) + 3 - x mod 4 < K"
proof -
  define q where "q = K * x div 4"
  have q: "4 * q = K * x - x mod 4" unfolding q_def by (rule cycle_start [OF assms(1)])
  define r where "r = (4 * n + 3) mod K"
  have "K * x + r = 4 * n + 3" using assms(3) by (simp add: r_def)
  moreover have "0 \<le> r" "r < K" using assms(2) by (simp_all add: r_def)
  moreover have "0 \<le> x mod 4" "x mod 4 < 4" by simp_all
  ultimately have "- 3 \<le> 4 * (n - q)" "4 * (n - q) + 3 - x mod 4 < K" using q by (simp_all add: algebra_simps)
  then show ?thesis unfolding q_def by (intro conjI) arith+
qed

section \<open>Both conversions without wrap-around\<close>

text \<open>
  A date in the March-based calendar: \<open>y\<close> years since -4800, month \<open>m\<close> from 0 (March) to 11 (February)
  and day \<open>e\<close> of the month from 0.
\<close>

definition march_days :: "int \<Rightarrow> int \<Rightarrow> int \<Rightarrow> int" where
  "march_days y m e = e + (153 * m + 2) div 5 + 365 * y + y div 4 - y div 100 + y div 400"

definition march_leap :: "int \<Rightarrow> bool" where
  "march_leap y \<longleftrightarrow> leap_year (y + 1)"

lemma march_days_cycles:
  assumes "0 \<le> D" "D < 100"
  shows "march_days (100 * B + D) m e = 146097 * B div 4 + (1461 * D div 4 + ((153 * m + 2) div 5 + e))"
proof -
  have eqs: "(100 * B + D) div 4 = 25 * B + D div 4" "(100 * B + D) div 100 = B" "(100 * B + D) div 400 = B div 4"
    "146097 * B div 4 = 36524 * B + B div 4" "1461 * D div 4 = 365 * D + D div 4"
  proof -
    have "(D + 4 * (25 * B)) div 4 = 25 * B + D div 4" by (subst div_mult_self2) simp_all
    then show "(100 * B + D) div 4 = 25 * B + D div 4" by (simp add: add.commute)
    show c: "(100 * B + D) div 100 = B" using assms by (simp add: div_pos_pos_trivial)
    have "(100 * B + D) div (100 * 4) = B div 4" by (subst zdiv_zmult2_eq) (simp_all add: c)
    then show "(100 * B + D) div 400 = B div 4" by simp
    have "(B + 4 * (36524 * B)) div 4 = 36524 * B + B div 4" by (subst div_mult_self2) simp_all
    then show "146097 * B div 4 = 36524 * B + B div 4" by simp
    have "(D + 4 * (365 * D)) div 4 = 365 * D + D div 4" by (subst div_mult_self2) simp_all
    then show "1461 * D div 4 = 365 * D + D div 4" by simp
  qed
  show ?thesis unfolding march_days_def eqs by simp
qed

lemma julian_march:
  assumes "1 \<le> month" "month \<le> 12" "- 4800 < year" "year \<le> 1000000" "1 \<le> day" "day \<le> 31"
  shows "getJulianDayNumber year month day =
    (if month \<le> 2 then march_days (year + 4799) (month + 9) (day - 1) else march_days (year + 4800) (month - 3) (day - 1)) - 32044"
proof -
  define a :: int where "a = (if month \<le> 2 then 1 else 0)"
  define y where "y = year + 4800 - a"
  define m where "m = month + 12 * a - 3"
  have a: "cdiv (i32 (14 - month)) 12 = a"
    using assms(1,2) by (subst i32_id) (auto simp: a_def cdiv_nonneg)
  have y: "0 \<le> y" "y \<le> 1004800" and m: "0 \<le> m" "m \<le> 11" using assms by (auto simp: y_def m_def a_def)
  have w: "i32 y = y" "i32 m = m" "i32 (153 * m + 2) = 153 * m + 2" "i32 (y * 365) = y * 365"
    using y m by (simp_all add: i32_id)
  have q: "0 \<le> (153 * m + 2) div 5" "(153 * m + 2) div 5 \<le> 340" "0 \<le> y div 4" "y div 4 \<le> y" "0 \<le> y div 100" "y div 100 \<le> y"
    "0 \<le> y div 400" "y div 400 \<le> y"
    using y m zdiv_mono2 [of y 1] by (simp_all add: pos_imp_zdiv_nonneg_iff)
  have "getJulianDayNumber year month day =
      i32 (day + (153 * m + 2) div 5 + y * 365 + y div 4 - y div 100 + y div 400 - 32045)"
    unfolding getJulianDayNumber_def Let_def a y_def [symmetric] m_def [symmetric] w
    using y m by (simp add: cdiv_nonneg)
  also have "\<dots> = day + (153 * m + 2) div 5 + y * 365 + y div 4 - y div 100 + y div 400 - 32045"
    using q y assms(5,6) by (intro i32_id) linarith+
  also have "\<dots> = march_days y m (day - 1) - 32044" by (simp add: march_days_def)
  finally show ?thesis by (auto simp: y_def m_def a_def add.commute)
qed

text \<open>The other direction: the two divisions recover century and year, the third the month.\<close>

definition of_march :: "int \<Rightarrow> int \<Rightarrow> int \<Rightarrow> ymd" where
  "of_march y m e = \<lparr>ymd_year = y - 4800 + m div 10, ymd_month = m + 3 - 12 * (m div 10), ymd_day = e + 1\<rparr>"

lemma ymd_march:
  fixes a :: int
  assumes "0 \<le> a" "a \<le> 500000000"
  defines "b \<equiv> (4 * a + 3) div 146097"
  defines "c \<equiv> a - 146097 * b div 4"
  defines "d \<equiv> (4 * c + 3) div 1461"
  defines "e \<equiv> c - 1461 * d div 4"
  defines "m \<equiv> (5 * e + 2) div 153"
  shows "getYearMonthDay (a - 32044) = of_march (100 * b + d) m (e - (153 * m + 2) div 5)"
    and "0 \<le> b" "0 \<le> c" "4 * c + 3 - b mod 4 < 146097" "0 \<le> d" "d < 100" "0 \<le> e" "4 * e + 3 - d mod 4 < 1461" "0 \<le> m" "m \<le> 11"
proof -
  show b0: "0 \<le> b" using assms(1) by (simp add: b_def)
  have b1: "b \<le> 13690" unfolding b_def using zdiv_mono1 [of "4 * a + 3" 2000000003 146097] assms(2) by simp
  show c: "0 \<le> c" "4 * c + 3 - b mod 4 < 146097" using cycle_split [of 146097 b a] by (simp_all add: b_def c_def)
  have bm: "b mod 4 < 4" "0 \<le> b mod 4" by simp_all
  show d0: "0 \<le> d" using c by (simp add: d_def)
  have "4 * c + 3 \<le> 146099" using c bm by linarith
  then have "d \<le> 146099 div 1461" unfolding d_def by (rule zdiv_mono1) simp
  then show d1: "d < 100" by simp
  show e: "0 \<le> e" "4 * e + 3 - d mod 4 < 1461" using cycle_split [of 1461 d c] by (simp_all add: d_def e_def)
  have dm: "d mod 4 < 4" "0 \<le> d mod 4" by simp_all
  show m0: "0 \<le> m" using e by (simp add: m_def)
  have "5 * e + 2 \<le> 1829" using e dm by linarith
  then have "m \<le> 1829 div 153" unfolding m_def by (rule zdiv_mono1) simp
  then show m1: "m \<le> 11" by simp
  have q: "0 \<le> 146097 * b" "146097 * b \<le> 2000100930" "0 \<le> 1461 * d" "1461 * d \<le> 146100" "c \<le> 40000" "e \<le> 400"
    using b0 b1 d0 d1 c bm e dm by - linarith+
  have cdivs: "cdiv (4 * a + 3) 146097 = b" "cdiv (146097 * b) 4 = 146097 * b div 4" "cdiv (4 * c + 3) 1461 = d"
    "cdiv (1461 * d) 4 = 1461 * d div 4" "cdiv (5 * e + 2) 153 = m" "cdiv m 10 = m div 10"
    "cdiv (153 * m + 2) 5 = (153 * m + 2) div 5"
    using assms(1) q c(1) e(1) m0 by (simp_all add: cdiv_nonneg b_def d_def m_def)
  have m10: "0 \<le> m div 10" "m div 10 \<le> 1" and mq: "0 \<le> (153 * m + 2) div 5" "(153 * m + 2) div 5 \<le> 340"
    using m0 m1 by (simp_all add: pos_imp_zdiv_nonneg_iff)
  have wraps: "i32 a = a" "i32 (4 * a + 3) = 4 * a + 3" "i32 (146097 * b) = 146097 * b" "i32 (4 * c + 3) = 4 * c + 3"
    "i32 c = c" "i32 (1461 * d) = 1461 * d" "i32 e = e" "i32 (5 * e + 2) = 5 * e + 2" "i32 (153 * m + 2) = 153 * m + 2"
    using assms(1,2) q c(1) e(1) m0 m1 b0 d0 by (simp_all add: i32_id)
  have wrap2: "i32 (b * 100 + d - 4800 + m div 10) = b * 100 + d - 4800 + m div 10"
    "i32 (m + 3 - 12 * (m div 10)) = m + 3 - 12 * (m div 10)"
    "i32 (e - (153 * m + 2) div 5 + 1) = e - (153 * m + 2) div 5 + 1"
    using b0 b1 d0 d1 m0 m1 m10 mq e(1) q by (simp_all add: i32_id)
  have "a - 32044 + 32044 = a" "b * 146097 = 146097 * b" by simp_all
  then show "getYearMonthDay (a - 32044) = of_march (100 * b + d) m (e - (153 * m + 2) div 5)"
    by (simp only: getYearMonthDay_def Let_def of_march_def wraps wrap2 cdivs c_def [symmetric] e_def [symmetric]) (simp add: mult.commute)
qed

section \<open>The March-based calendar\<close>

definition march_length :: "int \<Rightarrow> int \<Rightarrow> int" where
  "march_length y m = (if m = 11 then (if leap_year (y + 1) then 29 else 28) else if m \<in> {1, 3, 6, 8} then 30 else 31)"

lemma month_cases:
  fixes m :: int
  assumes "0 \<le> m" "m \<le> 11"
  obtains "m = 0" | "m = 1" | "m = 2" | "m = 3" | "m = 4" | "m = 5" | "m = 6" | "m = 7" | "m = 8" | "m = 9" | "m = 10" | "m = 11"
proof -
  have "m = 0 \<or> m = 1 \<or> m = 2 \<or> m = 3 \<or> m = 4 \<or> m = 5 \<or> m = 6 \<or> m = 7 \<or> m = 8 \<or> m = 9 \<or> m = 10 \<or> m = 11"
    using assms by presburger
  then show thesis using that by blast
qed

lemma leap_shift: "leap_year (y - 4799) \<longleftrightarrow> leap_year (y + 1)"
proof -
  have "k dvd y - 4799 \<longleftrightarrow> k dvd y + 1" if "k dvd 4800" for k :: int
    using dvd_add_left_iff [of k "- 4800" "y + 1"] that by (simp add: algebra_simps)
  then show ?thesis by (simp add: leap_year_def)
qed

lemma calendar_of_march:
  assumes "0 \<le> m" "m \<le> 11"
  shows "calendar_date (of_march y m e) \<longleftrightarrow> 0 \<le> e \<and> e < march_length y m"
  using assms
  by (cases rule: month_cases [OF assms])
    (auto simp: calendar_date_def of_march_def march_length_def month_length_def leap_shift add.commute diff_add_eq)

text \<open>Day of the year and month determine each other.\<close>

lemma month_of_day:
  assumes "0 \<le> m" "m \<le> 11" "0 \<le> e" "e < march_length y m"
  shows "(5 * ((153 * m + 2) div 5 + e) + 2) div 153 = m" "(153 * m + 2) div 5 + e \<le> 365"
    "(153 * m + 2) div 5 + e = 365 \<Longrightarrow> leap_year (y + 1)"
  using assms(3,4)
  by (cases rule: month_cases [OF assms(1,2)]; simp add: march_length_def split: if_splits)+

lemma day_of_month:
  assumes "m = (5 * k + 2) div 153" "0 \<le> k" "k \<le> 365" "k = 365 \<Longrightarrow> leap_year (y + 1)"
  shows "0 \<le> k - (153 * m + 2) div 5 \<and> k - (153 * m + 2) div 5 < march_length y m"
proof -
  have r: "153 * m \<le> 5 * k + 2" "5 * k + 2 < 153 * m + 153" using assms(1) by - presburger+
  then have "0 \<le> m" "m \<le> 11" using assms(2,3) by linarith+
  then show ?thesis using r assms(2-4)
    by (cases rule: month_cases) (auto simp: march_length_def order_le_less)
qed

lemma leap_cycle:
  assumes "0 \<le> D" "D < 100" "leap_year (100 * B + D + 1)"
  shows "D mod 4 = 3 \<and> (D = 99 \<longrightarrow> B mod 4 = 3)"
proof -
  have "4 dvd 100 * B + D + 1" using assms(3) by (simp add: leap_year_def)
  then have "4 dvd D + 1" using dvd_add_right_iff [of 4 "100 * B" "D + 1"] by (simp add: add.assoc)
  moreover have "400 dvd 100 * (B + 1)" if "D = 99"
    using assms(3) that by (auto simp: leap_year_def algebra_simps)
  then have "4 dvd B + 1" if "D = 99" using that dvd_mult_cancel_left [of 100 4 "B + 1"] by simp
  ultimately show ?thesis by presburger
qed

lemma ymd_of_march_days:
  assumes "0 \<le> y" "y \<le> 1100000" "0 \<le> m" "m \<le> 11" "0 \<le> e" "e < march_length y m"
  shows "getYearMonthDay (march_days y m e - 32044) = of_march y m e"
proof -
  define B where "B = y div 100"
  define D where "D = y mod 100"
  define k where "k = (153 * m + 2) div 5 + e"
  define a where "a = march_days y m e"
  have y: "y = 100 * B + D" and D: "0 \<le> D" "D < 100" and B: "0 \<le> B" "B \<le> 11000"
    using assms(1,2) zdiv_mono1 [of y 1100000 100] by (simp_all add: B_def D_def pos_imp_zdiv_nonneg_iff)
  note k = month_of_day [OF assms(3-6), folded k_def]
  have k0: "0 \<le> k" using assms(3,5) by (simp add: k_def)
  have a: "a = 146097 * B div 4 + (1461 * D div 4 + k)"
    unfolding a_def y march_days_cycles [OF D] k_def by simp
  have leap: "D mod 4 = 3 \<and> (D = 99 \<longrightarrow> B mod 4 = 3)" if "k = 365"
    using leap_cycle [OF D, of B] k(3) that y by simp
  have k4: "4 * k + 3 - D mod 4 < 1461" using k(2) leap by (cases "k = 365") simp_all
  have r4: "4 * (1461 * D div 4 + k) + 3 - B mod 4 < 146097"
  proof -
    have start: "4 * (1461 * D div 4) = 1461 * D - D mod 4" by (rule cycle_start) simp
    have bm: "0 \<le> B mod 4" "0 \<le> D mod 4" by simp_all
    show ?thesis
    proof (cases "D = 99")
      case True
      then show ?thesis using leap k(2) bm by (cases "k = 365") simp_all
    next
      case False
      then show ?thesis using start k(2) bm D unfolding distrib_left by linarith
    qed
  qed
  have "0 \<le> 1461 * D div 4 + k" using D k0 by simp
  from cycle_div [OF _ this r4] have b: "(4 * a + 3) div 146097 = B" unfolding a by simp
  from cycle_div [OF _ k0 k4] have d: "(4 * (1461 * D div 4 + k) + 3) div 1461 = D" by simp
  have c: "a - 146097 * B div 4 = 1461 * D div 4 + k" "1461 * D div 4 + k - 1461 * D div 4 = k"
    "k - (153 * m + 2) div 5 = e" unfolding a by (simp_all add: k_def)
  have "0 \<le> a" "a \<le> 500000000"
  proof -
    have "0 \<le> 146097 * B div 4" "146097 * B div 4 \<le> 401766750" "0 \<le> 1461 * D div 4" "1461 * D div 4 \<le> 36524"
      using B D zdiv_mono1 [of "146097 * B" 1607067000 4] zdiv_mono1 [of "1461 * D" 146099 4] by simp_all
    then show "0 \<le> a" "a \<le> 500000000" unfolding a using k(2) k0 by linarith+
  qed
  from ymd_march(1) [OF this] have "getYearMonthDay (a - 32044) = of_march (100 * B + D) m e"
    unfolding b c d k(1) .
  then show ?thesis unfolding a_def y .
qed

text \<open>Every date is one of the March-based calendar.\<close>

lemma to_march:
  assumes "calendar_date d" "- 4800 < ymd_year d"
  obtains y m e where "d = of_march y m e" "0 \<le> y" "y \<le> ymd_year d + 4800" "0 \<le> m" "m \<le> 11" "0 \<le> e" "e < march_length y m"
proof -
  define y where "y = (if ymd_month d \<le> 2 then ymd_year d + 4799 else ymd_year d + 4800)"
  define m where "m = (if ymd_month d \<le> 2 then ymd_month d + 9 else ymd_month d - 3)"
  have mon: "1 \<le> ymd_month d" "ymd_month d \<le> 12" using assms(1) by (simp_all add: calendar_date_def)
  then have m: "0 \<le> m" "m \<le> 11" by (simp_all add: m_def)
  have "m div 10 = (if ymd_month d \<le> 2 then 1 else 0)"
    using mon m by (auto simp: m_def div_pos_pos_trivial)
  then have d: "d = of_march y m (ymd_day d - 1)"
    by (cases d) (auto simp: of_march_def y_def m_def)
  have "0 \<le> ymd_day d - 1" "ymd_day d - 1 < march_length y m"
    using calendar_of_march [OF m, of y "ymd_day d - 1"] assms(1) d by simp_all
  then show thesis using that [of y m "ymd_day d - 1"] d m assms(2) by (simp add: y_def split: if_splits)
qed

lemma julian_of_march:
  assumes "0 \<le> m" "m \<le> 11" "0 \<le> e" "e < march_length y m"
    and "- 4800 < ymd_year (of_march y m e)" "ymd_year (of_march y m e) \<le> 1000000"
  shows "getJulianDayNumber (ymd_year (of_march y m e)) (ymd_month (of_march y m e)) (ymd_day (of_march y m e)) =
    march_days y m e - 32044"
proof -
  have e: "1 \<le> e + 1" "e + 1 \<le> 31" using assms(3,4) by (auto simp: march_length_def split: if_splits)
  show ?thesis
  proof (cases "m \<le> 9")
    case True
    then have "m div 10 = 0" using assms(1) by simp
    then show ?thesis using julian_march [of "m + 3" "y - 4800" "e + 1"] True assms e by (simp add: of_march_def)
  next
    case False
    then have "m div 10 = 1" using assms(2) by simp
    then show ?thesis using julian_march [of "m - 9" "y - 4799" "e + 1"] False assms e by (simp add: of_march_def)
  qed
qed

lemma ymd_julian:
  assumes "calendar_date d" "- 4800 < ymd_year d" "ymd_year d \<le> 1000000"
  shows "getYearMonthDay (getJulianDayNumber (ymd_year d) (ymd_month d) (ymd_day d)) = d"
proof -
  obtain y m e where d: "d = of_march y m e" "0 \<le> y" "y \<le> ymd_year d + 4800" "0 \<le> m" "m \<le> 11" "0 \<le> e" "e < march_length y m"
    using assms(1,2) by (rule to_march)
  then show ?thesis using ymd_of_march_days [of y m e] julian_of_march [of m e y] assms(2,3) by simp
qed

text \<open>A year has 366 days only if the March-based year ends in a leap year's February.\<close>

lemma last_day_leap:
  fixes b c d e :: int
  assumes "0 \<le> b" "0 \<le> c" "4 * c + 3 - b mod 4 < 146097" "0 \<le> d" "d < 100" "0 \<le> e" "4 * e + 3 - d mod 4 < 1461"
    and "c = 1461 * d div 4 + e"
  shows "e \<le> 365" "e = 365 \<Longrightarrow> leap_year (100 * b + d + 1)"
proof -
  have dm: "d mod 4 < 4" "b mod 4 < 4" by simp_all
  then show "e \<le> 365" using assms(7) by linarith
  assume e: "e = 365"
  then have d3: "d mod 4 = 3" using assms(7) dm by linarith
  then have d4: "4 dvd d + 1" by presburger
  have "4 dvd 100 * b + d + 1" using dvd_add [of 4 "100 * b" "d + 1"] d4 by (simp add: add.assoc)
  moreover have "400 dvd 100 * b + d + 1" if "100 dvd 100 * b + d + 1"
  proof -
    have "100 dvd d + 1" using that dvd_add_right_iff [of 100 "100 * b" "d + 1"] by (simp add: add.assoc)
    then have d99: "d = 99" using assms(4,5) zdvd_imp_le [of 100 "d + 1"] by simp
    then have "b mod 4 = 3" using assms(3,8) e dm by simp
    then have "4 dvd b + 1" by presburger
    then have "100 * 4 dvd 100 * (b + 1)" by (rule mult_dvd_mono [OF dvd_refl])
    then show ?thesis using d99 by (simp add: algebra_simps)
  qed
  ultimately show "leap_year (100 * b + d + 1)" by (auto simp: leap_year_def)
qed

lemma julian_ymd:
  assumes "0 \<le> j" "j \<le> 300000000"
  shows "calendar_date (getYearMonthDay j)" "- 4800 < ymd_year (getYearMonthDay j)" "ymd_year (getYearMonthDay j) \<le> 1000000"
    "getJulianDayNumber (ymd_year (getYearMonthDay j)) (ymd_month (getYearMonthDay j)) (ymd_day (getYearMonthDay j)) = j"
proof -
  define a where "a = j + 32044"
  define b where "b = (4 * a + 3) div 146097"
  define c where "c = a - 146097 * b div 4"
  define d where "d = (4 * c + 3) div 1461"
  define e where "e = c - 1461 * d div 4"
  define m where "m = (5 * e + 2) div 153"
  have a: "0 \<le> a" "a \<le> 500000000" using assms by (simp_all add: a_def)
  note f = ymd_march [OF a, folded b_def, folded c_def, folded d_def, folded e_def, folded m_def]
  let ?y = "100 * b + d" and ?e = "e - (153 * m + 2) div 5"
  have ymd: "getYearMonthDay j = of_march ?y m ?e" using f(1) by (simp add: a_def)
  have e365: "e \<le> 365" "e = 365 \<Longrightarrow> leap_year (?y + 1)"
    using last_day_leap [OF f(2-8)] by (simp_all add: c_def e_def)
  have len: "0 \<le> ?e" "?e < march_length ?y m"
    using day_of_month [OF m_def f(7) e365(1), of ?y] e365(2) by simp_all
  show cal: "calendar_date (getYearMonthDay j)" unfolding ymd using calendar_of_march [OF f(9,10)] len by simp
  have "b \<le> 9000" unfolding b_def using zdiv_mono1 [of "4 * a + 3" 1314873000 146097] assms(2) by (simp add: a_def)
  moreover have m10: "0 \<le> m div 10" "m div 10 \<le> 1" using f(9,10) by (simp_all add: pos_imp_zdiv_nonneg_iff)
  ultimately show hi: "ymd_year (getYearMonthDay j) \<le> 1000000" unfolding ymd using f(6) by (simp add: of_march_def)
  show lo: "- 4800 < ymd_year (getYearMonthDay j)" 
  proof (rule ccontr)
    assume "\<not> - 4800 < ymd_year (getYearMonthDay j)"
    then have "b = 0" "d = 0" using f(2,5) m10(1) unfolding ymd by (simp_all add: of_march_def)
    then show False using f(8) assms(1) by (simp add: e_def c_def a_def)
  qed
  have "march_days ?y m ?e = a"
    using march_days_cycles [OF f(5,6), of b m ?e] by (simp add: c_def e_def)
  then show "getJulianDayNumber (ymd_year (getYearMonthDay j)) (ymd_month (getYearMonthDay j)) (ymd_day (getYearMonthDay j)) = j"
    using julian_of_march [OF f(9,10) len] lo hi unfolding ymd by (simp add: a_def)
qed

section \<open>The next day\<close>

lemma div_next: "0 < k \<Longrightarrow> (y + 1) div k = y div k + (if k dvd y + 1 then 1 else 0)" for y k :: int
proof -
  assume k: "0 < k"
  have r: "0 \<le> y mod k" "y mod k < k" using k by simp_all
  have y: "y + 1 = (y mod k + 1) + k * (y div k)" by simp
  show ?thesis
  proof (cases "y mod k + 1 = k")
    case True
    then have "y + 1 = k * (y div k + 1)" using y by (simp add: algebra_simps)
    then show ?thesis using k by simp
  next
    case False
    then have s: "0 \<le> y mod k + 1" "y mod k + 1 < k" using r by linarith+
    have "(y + 1) div k = y div k" using s k by (subst y, subst div_mult_self2) (simp_all add: div_pos_pos_trivial)
    moreover have "(y + 1) mod k = y mod k + 1" using s by (subst y, subst mod_mult_self2) (simp add: mod_pos_pos_trivial)
    ultimately show ?thesis using r by (auto simp: dvd_eq_mod_eq_0)
  qed
qed

lemma march_year_end: "march_days (y + 1) 0 0 = march_days y 11 (march_length y 11 - 1) + 1"
  by (auto simp: march_days_def march_length_def leap_year_def div_next dvd_def; presburger)

lemma next_of_march:
  assumes "0 \<le> m" "m \<le> 11" "0 \<le> e" "e < march_length y m"
  obtains y' m' e' where "next_date (of_march y m e) = of_march y' m' e'" "march_days y' m' e' = march_days y m e + 1"
    "0 \<le> m'" "m' \<le> 11" "0 \<le> e'" "e' < march_length y' m'" "y' \<le> y + 1" "y \<le> y'"
proof -
  have len: "month_length (ymd_year (of_march y m e)) (ymd_month (of_march y m e)) = march_length y m"
    by (cases rule: month_cases [OF assms(1,2)])
      (simp_all add: of_march_def month_length_def march_length_def leap_shift add.commute diff_add_eq)
  consider "e + 1 < march_length y m" | "e + 1 = march_length y m" "m < 11" | "e + 1 = march_length y m" "m = 11"
    using assms(2,4) by linarith
  then show thesis
  proof cases
    case 1
    have "next_date (of_march y m e) = of_march y m (e + 1)"
      using 1 len by (simp add: next_date_def) (simp add: of_march_def)
    then show thesis using that [of y m "e + 1"] assms 1 by (simp add: march_days_def)
  next
    case 2
    have "march_days y (m + 1) 0 = march_days y m e + 1"
      using 2 by (cases rule: month_cases [OF assms(1,2)]) (simp_all add: march_days_def march_length_def split: if_splits)
    moreover have "next_date (of_march y m e) = of_march y (m + 1) 0"
      using 2 len by (cases rule: month_cases [OF assms(1,2)]) (simp_all add: next_date_def, simp_all add: of_march_def)
    moreover have "0 < march_length y (m + 1)" by (simp add: march_length_def)
    ultimately show thesis using that [of y "m + 1" 0] assms(1) 2(2) by simp
  next
    case 3
    then have "e = march_length y 11 - 1" by simp
    then have "march_days (y + 1) 0 0 = march_days y m e + 1" using march_year_end [of y] 3(2) by simp
    moreover have "next_date (of_march y m e) = of_march (y + 1) 0 0"
      using 3 len by (simp add: next_date_def) (simp add: of_march_def)
    moreover have "0 < march_length (y + 1) 0" by (simp add: march_length_def)
    ultimately show thesis using that [of "y + 1" 0 0] by simp
  qed
qed

section \<open>Properties\<close>

text \<open>Dates survive the conversion: every date of the Gregorian calendar from the year -4799 to one
  million, leap days included, is mapped to a Julian day number from which exactly that date is
  computed back; no intermediate value leaves the 32 bit range.\<close>

theorem date_round_trip:
  assumes "calendar_date d" "- 4800 < ymd_year d" "ymd_year d \<le> 1000000"
  shows "getYearMonthDay (getJulianDayNumber (ymd_year d) (ymd_month d) (ymd_day d)) = d"
  using assms by (rule ymd_julian)

theorem date_round_trip_witness:
  "getYearMonthDay (getJulianDayNumber 2000 2 29) = \<lparr>ymd_year = 2000, ymd_month = 2, ymd_day = 29\<rparr>"
proof -
  let ?d = "\<lparr>ymd_year = 2000, ymd_month = 2, ymd_day = 29\<rparr>"
  have "calendar_date ?d" by (simp add: calendar_date_def month_length_def leap_year_def)
  from date_round_trip [OF this] show ?thesis by simp
qed

text \<open>Day numbers count the days of the calendar: for every valid day number up to 300 million the
  code computes a date that exists, maps it back to the number, and computes for the following number
  the following date (end of month, leap day and end of year included) and the following day of the
  week.\<close>

theorem julian_days_in_order:
  assumes "0 \<le> j" "j < 300000000"
  shows "calendar_date (getYearMonthDay j) \<and>
    getJulianDayNumber (ymd_year (getYearMonthDay j)) (ymd_month (getYearMonthDay j)) (ymd_day (getYearMonthDay j)) = j \<and>
    getYearMonthDay (j + 1) = next_date (getYearMonthDay j) \<and> weekDay (j + 1) = (weekDay j + 1) mod 7"
proof -
  define d where "d = getYearMonthDay j"
  note jd = julian_ymd [of j, folded d_def]
  have d: "calendar_date d" "- 4800 < ymd_year d" "ymd_year d \<le> 1000000"
    "getJulianDayNumber (ymd_year d) (ymd_month d) (ymd_day d) = j" using jd assms by simp_all
  obtain y m e where m: "d = of_march y m e" "0 \<le> y" "y \<le> ymd_year d + 4800" "0 \<le> m" "m \<le> 11" "0 \<le> e" "e < march_length y m"
    using d(1,2) by (rule to_march)
  have j: "j = march_days y m e - 32044" using julian_of_march [OF m(4-7)] d m(1) by simp
  obtain y' m' e' where n: "next_date (of_march y m e) = of_march y' m' e'" "march_days y' m' e' = march_days y m e + 1"
    "0 \<le> m'" "m' \<le> 11" "0 \<le> e'" "e' < march_length y' m'" "y' \<le> y + 1" "y \<le> y'"
    using m(4-7) by (rule next_of_march)
  have "getYearMonthDay (j + 1) = next_date d"
    using ymd_of_march_days [of y' m' e'] n m d(3) j by simp
  moreover have "weekDay (j + 1) = (weekDay j + 1) mod 7"
    using assms by (simp add: weekDay_def i32_id cmod_nonneg mod_add_left_eq)
  ultimately show ?thesis using d by (simp add: d_def)
qed

theorem julian_days_in_order_witness:
  "kJulianDayOf1970_01_01 = 2440588 \<and> weekDay 2440588 = 4 \<and>
   getYearMonthDay (2440587 + 1) = next_date (getYearMonthDay 2440587) \<and>
   getYearMonthDay 2440587 = \<lparr>ymd_year = 1969, ymd_month = 12, ymd_day = 31\<rparr>"
proof -
  have "kJulianDayOf1970_01_01 = 2440588 \<and> weekDay 2440588 = 4" by code_simp
  moreover have "getYearMonthDay 2440587 = \<lparr>ymd_year = 1969, ymd_month = 12, ymd_day = 31\<rparr>" by code_simp
  moreover have "getYearMonthDay (2440587 + 1) = next_date (getYearMonthDay 2440587)"
    using julian_days_in_order [of 2440587] by simp
  ultimately show ?thesis by blast
qed

end
