(* ===== verification/Time_Zone.thy ===== *)
theory Time_Zone
  imports Dates Endian
begin

text \<open>
  Time zones (\<open>src/muduo/base/TimeZone.h\<close>, \<open>TimeZone.cc\<close>): broken-down UTC time over \<open>Dates\<close>, the reader
  of zone files, and the conversion of local time in both directions by a binary search among the
  transitions of a zone. \<open>gmtime_r\<close> and \<open>timegm\<close> of the C library are modelled on the same calendar.
  A \<open>time_t\<close> is an unbounded integer; \<open>int\<close> wraps at 32 bits as in \<open>Dates\<close>.
\<close>

section \<open>Broken-down time\<close>

record tm =
  tm_sec :: int
  tm_min :: int
  tm_hour :: int
  tm_mday :: int
  tm_mon :: int
  tm_year :: int
  tm_wday :: int
  tm_yday :: int
  tm_isdst :: int
  tm_gmtoff :: int
  tm_zone :: string

definition zero_tm :: tm where
  "zero_tm = \<lparr>tm_sec = 0, tm_min = 0, tm_hour = 0, tm_mday = 0, tm_mon = 0, tm_year = 0, tm_wday = 0,
     tm_yday = 0, tm_isdst = 0, tm_gmtoff = 0, tm_zone = ''''\<rparr>"

definition kSecondsPerDay :: int where "kSecondsPerDay = 24 * 60 * 60"

text \<open>The parameter is \<open>unsigned\<close> in the code and always below a day.\<close>

definition fillHMS :: "int \<Rightarrow> tm \<Rightarrow> tm" where
  "fillHMS seconds utc =
     (let minutes = cdiv seconds 60
      in utc\<lparr>tm_sec := cmod seconds 60, tm_min := cmod minutes 60, tm_hour := cdiv minutes 60\<rparr>)"

definition toUtcTime :: "bool \<Rightarrow> int \<Rightarrow> tm" where
  "toUtcTime yday secondsSinceEpoch =
     (let s = i32 (cmod secondsSinceEpoch kSecondsPerDay);
          d = i32 (cdiv secondsSinceEpoch kSecondsPerDay);
          seconds = (if s < 0 then s + kSecondsPerDay else s);
          days = (if s < 0 then i32 (d - 1) else d);
          date = i32 (days + kJulianDayOf1970_01_01);
          ymd = getYearMonthDay date;
          utc = (fillHMS seconds (zero_tm\<lparr>tm_zone := ''GMT''\<rparr>))
            \<lparr>tm_year := i32 (ymd_year ymd - 1900), tm_mon := i32 (ymd_month ymd - 1), tm_mday := ymd_day ymd,
             tm_wday := weekDay date\<rparr>
      in if yday then utc\<lparr>tm_yday := i32 (date - getJulianDayNumber (ymd_year ymd) 1 1)\<rparr> else utc)"

definition fromUtcTime_fields :: "int \<Rightarrow> int \<Rightarrow> int \<Rightarrow> int \<Rightarrow> int \<Rightarrow> int \<Rightarrow> int" where
  "fromUtcTime_fields year month day hour minute seconds =
     (let date = getJulianDayNumber year month day;
          secondsInDay = i32 (hour * 3600 + minute * 60 + seconds);
          days = i32 (date - kJulianDayOf1970_01_01)
      in days * kSecondsPerDay + secondsInDay)"

definition fromUtcTime :: "tm \<Rightarrow> int" where
  "fromUtcTime utc =
     fromUtcTime_fields (i32 (tm_year utc + 1900)) (i32 (tm_mon utc + 1)) (tm_mday utc) (tm_hour utc) (tm_min utc) (tm_sec utc)"

text \<open>
  The C library: \<open>gmtime_r\<close> counts days of the calendar from the epoch, with the time of day never
  negative; \<open>timegm\<close> is its inverse on fields in their ranges (months and days out of range carry over).
\<close>

definition gmtime_r :: "int \<Rightarrow> tm" where
  "gmtime_r t =
     (let date = t div kSecondsPerDay + kJulianDayOf1970_01_01; s = t mod kSecondsPerDay; ymd = getYearMonthDay date
      in \<lparr>tm_sec = s mod 60, tm_min = s div 60 mod 60, tm_hour = s div 3600, tm_mday = ymd_day ymd,
          tm_mon = ymd_month ymd - 1, tm_year = ymd_year ymd - 1900, tm_wday = (date + 1) mod 7,
          tm_yday = date - getJulianDayNumber (ymd_year ymd) 1 1, tm_isdst = 0, tm_gmtoff = 0, tm_zone = ''GMT''\<rparr>)"

definition timegm :: "tm \<Rightarrow> int" where
  "timegm t =
     (getJulianDayNumber (tm_year t + 1900 + tm_mon t div 12) (tm_mon t mod 12 + 1) 1 + (tm_mday t - 1) - kJulianDayOf1970_01_01)
       * kSecondsPerDay + tm_hour t * 3600 + tm_min t * 60 + tm_sec t"

section \<open>Zones\<close>

record transition =
  gmttime :: int
  localtime :: int
  localtimeIdx :: nat

record localtime_type =
  gmtOffset :: int
  isDst :: bool
  arrbIdx :: nat

record tz_data =
  transitions :: "transition list"
  localtimes :: "localtime_type list"
  tz_names :: "string list"
  tz_abbreviation :: string

type_synonym time_zone = "tz_data option"     \<comment> \<open>\<open>shared_ptr<Data>\<close>\<close>

definition empty_tz_data :: tz_data where
  "empty_tz_data = \<lparr>transitions = [], localtimes = [], tz_names = [], tz_abbreviation = ''''\<rparr>"

definition tz_valid :: "time_zone \<Rightarrow> bool" where
  "tz_valid z \<longleftrightarrow> z \<noteq> None"

text \<open>\<open>Comp\<close>: transitions compared by UTC or by local time.\<close>

definition tz_key :: "bool \<Rightarrow> transition \<Rightarrow> int" where
  "tz_key compareGmt t = (if compareGmt then gmttime t else localtime t)"

definition comp_less :: "bool \<Rightarrow> transition \<Rightarrow> transition \<Rightarrow> bool" where
  "comp_less compareGmt lhs rhs \<longleftrightarrow> tz_key compareGmt lhs < tz_key compareGmt rhs"

definition comp_equal :: "bool \<Rightarrow> transition \<Rightarrow> transition \<Rightarrow> bool" where
  "comp_equal compareGmt lhs rhs \<longleftrightarrow> tz_key compareGmt lhs = tz_key compareGmt rhs"

text \<open>\<open>std::lower_bound\<close>: the binary search of the C++ library, on the range of \<open>len\<close> elements at \<open>first\<close>.\<close>

function lower_bound_loop :: "('a \<Rightarrow> bool) \<Rightarrow> 'a list \<Rightarrow> nat \<Rightarrow> nat \<Rightarrow> nat" where
  "lower_bound_loop before xs first len =
     (if len = 0 then first
      else let half = len div 2; middle = first + half
           in if before (xs ! middle) then lower_bound_loop before xs (middle + 1) (len - half - 1)
              else lower_bound_loop before xs first half)"
  by pat_completeness auto

termination by (relation "measure (\<lambda>(before, xs, first, len). len)") auto

declare lower_bound_loop.simps [simp del]

definition lower_bound :: "('a \<Rightarrow> 'a \<Rightarrow> bool) \<Rightarrow> 'a list \<Rightarrow> 'a \<Rightarrow> nat" where
  "lower_bound lt xs v = lower_bound_loop (\<lambda>x. lt x v) xs 0 (length xs)"

definition vec_at :: "'a list \<Rightarrow> nat \<Rightarrow> 'a result" where
  "vec_at xs i = (if i < length xs then Inr (xs ! i) else Inl OutOfBounds)"

definition findLocaltime :: "tz_data \<Rightarrow> transition \<Rightarrow> bool \<Rightarrow> localtime_type result" where
  "findLocaltime data sentry compareGmt =
     (if transitions data = [] \<or> comp_less compareGmt sentry (hd (transitions data)) then vec_at (localtimes data) 0
      else let transI = lower_bound (comp_less compareGmt) (transitions data) sentry
           in if transI \<noteq> length (transitions data)
              then if \<not> comp_equal compareGmt sentry (transitions data ! transI)
                   then assert_ok (transI \<noteq> 0) (vec_at (localtimes data) (localtimeIdx (transitions data ! (transI - 1))))
                   else vec_at (localtimes data) (localtimeIdx (transitions data ! transI))
              else vec_at (localtimes data) (localtimeIdx (last (transitions data))))"

text \<open>The C string that starts at index \<open>i\<close> of a \<open>std::string\<close>, whose last character is followed by a zero.\<close>

definition c_str_at :: "string \<Rightarrow> nat \<Rightarrow> string result" where
  "c_str_at str i = (if i \<le> length str then Inr (takeWhile (\<lambda>c. c \<noteq> CHR 0x00) (drop i str)) else Inl OutOfBounds)"

definition toLocalTime :: "time_zone \<Rightarrow> int \<Rightarrow> tm result" where
  "toLocalTime z seconds =
     (case z of None \<Rightarrow> Inl AssertFail
      | Some data \<Rightarrow>
          rbind (findLocaltime data \<lparr>gmttime = seconds, localtime = 0, localtimeIdx = 0\<rparr> True) (\<lambda>local.
          rbind (c_str_at (tz_abbreviation data) (arrbIdx local)) (\<lambda>zone.
            Inr ((gmtime_r (seconds + gmtOffset local))
              \<lparr>tm_isdst := (if isDst local then 1 else 0), tm_gmtoff := gmtOffset local, tm_zone := zone\<rparr>))))"

definition fromLocalTime :: "time_zone \<Rightarrow> tm \<Rightarrow> int result" where
  "fromLocalTime z localTm =
     (case z of None \<Rightarrow> Inl AssertFail
      | Some data \<Rightarrow>
          let seconds = timegm localTm in
          rbind (findLocaltime data \<lparr>gmttime = 0, localtime = seconds, localtimeIdx = 0\<rparr> False) (\<lambda>local.
            if tm_isdst localTm \<noteq> 0
            then rbind (toLocalTime z (seconds - gmtOffset local)) (\<lambda>tryTm.
                   Inr ((if tm_isdst tryTm = 0 \<and> tm_hour tryTm = tm_hour localTm \<and> tm_min tryTm = tm_min localTm
                         then seconds - 3600 else seconds) - gmtOffset local))
            else Inr (seconds - gmtOffset local)))"

definition fixed_TimeZone :: "int \<Rightarrow> string \<Rightarrow> time_zone" where
  "fixed_TimeZone eastOfUtc name =
     Some (empty_tz_data\<lparr>localtimes := [\<lparr>gmtOffset = eastOfUtc, isDst = False, arrbIdx = 0\<rparr>], tz_abbreviation := name\<rparr>)"

section \<open>Zone files\<close>

text \<open>
  The reader of \<open>detail::File\<close>: it takes bytes off the front, and \<open>None\<close> is the \<open>logic_error\<close> it throws
  when there are too few.
\<close>

type_synonym 'a file_reader = "byte list \<Rightarrow> ('a \<times> byte list) option"

definition file_readBytes :: "nat \<Rightarrow> byte list file_reader" where
  "file_readBytes n bs = (if n \<le> length bs then Some (take n bs, drop n bs) else None)"

definition file_readInt32 :: "host_order \<Rightarrow> int file_reader" where
  "file_readInt32 h bs =
     (case file_readBytes 4 bs of None \<Rightarrow> None
      | Some (x, rest) \<Rightarrow> Some (sint (swap_to_be h (obj_word h x) :: 32 word), rest))"

definition file_readUInt8 :: "nat file_reader" where
  "file_readUInt8 bs = (case bs of [] \<Rightarrow> None | b # rest \<Rightarrow> Some (unat b, rest))"

fun file_repeat :: "nat \<Rightarrow> 'a file_reader \<Rightarrow> 'a list file_reader" where
  "file_repeat 0 r bs = Some ([], bs)"
| "file_repeat (Suc n) r bs =
     (case r bs of None \<Rightarrow> None
      | Some (x, rest) \<Rightarrow> map_option (\<lambda>(xs, rest'). (x # xs, rest')) (file_repeat n r rest))"

text \<open>One \<open>ttinfo\<close>: offset, daylight saving flag, index of the abbreviation.\<close>

definition read_ttinfo :: "host_order \<Rightarrow> localtime_type file_reader" where
  "read_ttinfo h bs =
     (case file_readInt32 h bs of None \<Rightarrow> None
      | Some (gmtoff, r1) \<Rightarrow>
          (case file_readUInt8 r1 of None \<Rightarrow> None
           | Some (isdst, r2) \<Rightarrow>
               (case file_readUInt8 r2 of None \<Rightarrow> None
                | Some (abbrind, r3) \<Rightarrow> Some (\<lparr>gmtOffset = gmtoff, isDst = isdst \<noteq> 0, arrbIdx = abbrind\<rparr>, r3))))"

text \<open>The loop over the types stores each one as it goes, so what was read before an exception stays.\<close>

fun read_localtimes :: "host_order \<Rightarrow> nat \<Rightarrow> byte list \<Rightarrow> localtime_type list \<times> byte list option" where
  "read_localtimes h 0 bs = ([], Some bs)"
| "read_localtimes h (Suc n) bs =
     (case read_ttinfo h bs of None \<Rightarrow> ([], None)
      | Some (lt, rest) \<Rightarrow> (let (lts, r) = read_localtimes h n rest in (lt # lts, r)))"

definition push_transition :: "int \<times> nat \<Rightarrow> tz_data \<Rightarrow> tz_data result" where
  "push_transition ti data =
     rbind (vec_at (localtimes data) (snd ti)) (\<lambda>lt.
       Inr (data\<lparr>transitions := transitions data @
         [\<lparr>gmttime = fst ti, localtime = fst ti + gmtOffset lt, localtimeIdx = snd ti\<rparr>]\<rparr>))"

text \<open>The magic number, the version, the reserved bytes and the six counts; only three of them are used.\<close>

definition read_tz_header :: "host_order \<Rightarrow> (int \<times> int \<times> int) file_reader" where
  "read_tz_header h bs =
     (case file_readBytes 4 bs of None \<Rightarrow> None
      | Some (head, r1) \<Rightarrow>
          if head \<noteq> ascii ''TZif'' then None
          else (case file_readBytes 1 r1 of None \<Rightarrow> None
            | Some (version, r2) \<Rightarrow>
                (case file_readBytes 15 r2 of None \<Rightarrow> None
                 | Some (_, r3) \<Rightarrow>
                     (case file_repeat 6 (file_readInt32 h) r3 of None \<Rightarrow> None
                      | Some (counts, r4) \<Rightarrow> Some ((counts ! 3, counts ! 4, counts ! 5), r4)))))"

text \<open>
  \<open>readTimeZoneFile\<close> on the bytes of the file, \<open>None\<close> if it cannot be opened. It always reports success; an
  exception leaves what \<open>data\<close> holds by then. A negative count makes \<open>reserve\<close> throw a \<open>length_error\<close>,
  which is a \<open>logic_error\<close> too; a negative length of the abbreviations is an array of negative size.
\<close>

definition readTimeZoneFile :: "host_order \<Rightarrow> byte list option \<Rightarrow> tz_data \<Rightarrow> (bool \<times> tz_data) result" where
  "readTimeZoneFile h zonefile data =
     (case zonefile of None \<Rightarrow> Inr (True, data)
      | Some bs \<Rightarrow>
     (case read_tz_header h bs of None \<Rightarrow> Inr (True, data)
      | Some ((timecnt, typecnt, charcnt), r1) \<Rightarrow>
          if timecnt < 0 then Inr (True, data)
          else
     (case file_repeat (nat timecnt) (file_readInt32 h) r1 of None \<Rightarrow> Inr (True, data)
      | Some (instants, r2) \<Rightarrow>
     (case file_repeat (nat timecnt) file_readUInt8 r2 of None \<Rightarrow> Inr (True, data)
      | Some (idxs, r3) \<Rightarrow>
          let (lts, r4) = read_localtimes h (nat typecnt) r3;
              data1 = data\<lparr>localtimes := localtimes data @ lts\<rparr>
          in
     (case r4 of None \<Rightarrow> Inr (True, data1)
      | Some r5 \<Rightarrow>
          rbind (rfold push_transition (zip instants idxs) data1) (\<lambda>data2.
            if charcnt < 0 then Inl OutOfBounds
            else
     (case file_readBytes (nat charcnt) r5 of None \<Rightarrow> Inr (True, data2)
      | Some (abbr, _) \<Rightarrow> Inr (True, data2\<lparr>tz_abbreviation := map (\<lambda>b. char_of (unat b)) abbr\<rparr>))))))))"

definition new_TimeZone :: "host_order \<Rightarrow> byte list option \<Rightarrow> time_zone result" where
  "new_TimeZone h zonefile =
     rbind (readTimeZoneFile h zonefile empty_tz_data) (\<lambda>(ok, data). Inr (if ok then Some data else None))"

section \<open>UTC time\<close>

text \<open>Truncating division corrected for negative values is division of the mathematicians.\<close>

lemma floor_adjust:
  assumes "0 < b"
  shows "(if cmod a b < 0 then cmod a b + b else cmod a b) = a mod b"
    and "(if cmod a b < 0 then cdiv a b - 1 else cdiv a b) = a div b"
proof -
  have eq: "a = b * cdiv a b + cmod a b" by (simp add: cmod_def)
  have "\<bar>cmod a b\<bar> < b"
  proof (cases "0 \<le> a")
    case True
    then show ?thesis using assms by (simp add: cmod_nonneg)
  next
    case False
    then have "cdiv a b = - ((- a) div b)" using assms cdiv_minus [of b "- a"] by (simp add: cdiv_nonneg)
    then have "cmod a b = - ((- a) mod b)" by (simp add: cmod_def minus_mult_div_eq_mod [symmetric])
    then show ?thesis using assms by simp
  qed
  then have bounds: "- b < cmod a b" "cmod a b < b" by auto
  let ?r = "if cmod a b < 0 then cmod a b + b else cmod a b"
  let ?q = "if cmod a b < 0 then cdiv a b - 1 else cdiv a b"
  have "a = b * ?q + ?r" using eq by (simp add: algebra_simps)
  moreover have "0 \<le> ?r" "?r < b" using bounds by auto
  ultimately show "?r = a mod b" "?q = a div b" using int_mod_pos_eq [of a b ?q ?r] int_div_pos_eq [of a b ?q ?r] by - metis+
qed

lemma epoch_day [simp]: "kJulianDayOf1970_01_01 = 2440588"
  by code_simp

text \<open>The days for which the 32-bit arithmetic of \<open>Dates\<close> is exact.\<close>

definition tz_range :: "int \<Rightarrow> bool" where
  "tz_range t \<longleftrightarrow> 0 \<le> t div kSecondsPerDay + 2440588 \<and> t div kSecondsPerDay + 2440588 \<le> 300000000"

lemma toUtcTime_gmtime:
  assumes "tz_range t"
  shows "toUtcTime True t = gmtime_r t" "toUtcTime False t = (gmtime_r t)\<lparr>tm_yday := 0\<rparr>"
proof -
  define s d where "s = cmod t kSecondsPerDay" and "d = cdiv t kSecondsPerDay"
  define date where "date = t div kSecondsPerDay + 2440588"
  define y where "y = getYearMonthDay date"
  have pos: "0 < kSecondsPerDay" by (simp add: kSecondsPerDay_def)
  note adj = floor_adjust [OF pos, of t, folded s_def d_def]
  have r: "0 \<le> date" "date \<le> 300000000" using assms by (simp_all add: tz_range_def date_def)
  have md: "0 \<le> t mod kSecondsPerDay" "t mod kSecondsPerDay < 86400" using pos by (simp_all add: kSecondsPerDay_def)
  have w: "i32 s = s" "i32 d = d" "i32 (d - 1) = d - 1" "i32 date = date"
    using adj r md by (auto simp: i32_id date_def kSecondsPerDay_def split: if_splits)
  note jd = julian_ymd [OF r, folded y_def]
  have cal: "1 \<le> ymd_month y" "ymd_month y \<le> 12" using jd(1) by (simp_all add: calendar_date_def)
  have jan: "getJulianDayNumber (ymd_year y) 1 1 \<le> 400000000" "- 400000000 \<le> getJulianDayNumber (ymd_year y) 1 1"
    using julian_march [of 1 "ymd_year y" 1] jd(2,3) by (auto simp: march_days_def)
  have f: "i32 (ymd_year y - 1900) = ymd_year y - 1900" "i32 (ymd_month y - 1) = ymd_month y - 1"
    "i32 (date - getJulianDayNumber (ymd_year y) 1 1) = date - getJulianDayNumber (ymd_year y) 1 1" "i32 (date + 1) = date + 1"
    using jd(2,3) cal jan r by (simp_all add: i32_id)
  have hms: "fillHMS (t mod kSecondsPerDay) u = u\<lparr>tm_sec := t mod kSecondsPerDay mod 60,
      tm_min := t mod kSecondsPerDay div 60 mod 60, tm_hour := t mod kSecondsPerDay div 3600\<rparr>" for u
    using md(1) by (simp add: fillHMS_def cdiv_nonneg cmod_nonneg Let_def flip: zdiv_zmult2_eq)
  have day: "(if i32 s < 0 then i32 (i32 d - 1) else i32 d) + kJulianDayOf1970_01_01 = date"
    using adj(2) by (auto simp: w date_def)
  have sec: "(if i32 s < 0 then i32 s + kSecondsPerDay else i32 s) = t mod kSecondsPerDay" unfolding w by (rule adj(1))
  have wd: "weekDay date = (date + 1) mod 7" using r f(4) by (simp add: weekDay_def cmod_nonneg)
  show "toUtcTime True t = gmtime_r t" "toUtcTime False t = (gmtime_r t)\<lparr>tm_yday := 0\<rparr>"
    unfolding toUtcTime_def gmtime_r_def Let_def s_def [symmetric] d_def [symmetric] day sec w(4) hms f wd
    unfolding epoch_day date_def [symmetric] y_def [symmetric]
    by (simp_all add: f zero_tm_def)
qed

lemma julian_month_start:
  assumes "calendar_date d" "- 4800 < ymd_year d" "ymd_year d \<le> 1000000"
  shows "getJulianDayNumber (ymd_year d) (ymd_month d) 1 + (ymd_day d - 1) = getJulianDayNumber (ymd_year d) (ymd_month d) (ymd_day d)"
proof -
  have "ymd_day d \<le> 31" using assms(1) by (auto simp: calendar_date_def month_length_def split: if_splits)
  then show ?thesis using assms
    by (simp add: calendar_date_def julian_march march_days_def)
qed

text \<open>Hours, minutes and seconds make up the time of day.\<close>

lemma hms_sum: "s div 3600 * 3600 + s div 60 mod 60 * 60 + s mod 60 = (s :: int)"
proof -
  have "s div 3600 = s div 60 div 60" by (simp flip: zdiv_zmult2_eq)
  then show ?thesis using div_mult_mod_eq [of "s div 60" 60] div_mult_mod_eq [of s 60] by linarith
qed

lemma gmtime_fields:
  assumes "tz_range t"
  defines "d \<equiv> getYearMonthDay (t div kSecondsPerDay + 2440588)"
  shows "calendar_date d" "- 4800 < ymd_year d" "ymd_year d \<le> 1000000"
    "getJulianDayNumber (ymd_year d) (ymd_month d) (ymd_day d) = t div kSecondsPerDay + 2440588"
    "tm_year (gmtime_r t) = ymd_year d - 1900" "tm_mon (gmtime_r t) = ymd_month d - 1" "tm_mday (gmtime_r t) = ymd_day d"
  using assms julian_ymd [of "t div kSecondsPerDay + 2440588"] by (simp_all add: tz_range_def gmtime_r_def Let_def)

lemma day_seconds: "t div kSecondsPerDay * kSecondsPerDay + t mod kSecondsPerDay = t"
  by simp

lemma timegm_gmtime:
  assumes "tz_range t"
  shows "timegm (gmtime_r t) = t"
proof -
  define d where "d = getYearMonthDay (t div kSecondsPerDay + 2440588)"
  note f = gmtime_fields [OF assms, folded d_def]
  have mon: "tm_mon (gmtime_r t) div 12 = 0" "tm_mon (gmtime_r t) mod 12 = ymd_month d - 1"
    using f(1,6) by (simp_all add: calendar_date_def)
  have "timegm (gmtime_r t) = t div kSecondsPerDay * kSecondsPerDay + (tm_hour (gmtime_r t) * 3600 + tm_min (gmtime_r t) * 60 + tm_sec (gmtime_r t))"
    using julian_month_start [OF f(1-3)] f(4,5,7) mon by (simp add: timegm_def algebra_simps)
  moreover have "tm_hour (gmtime_r t) * 3600 + tm_min (gmtime_r t) * 60 + tm_sec (gmtime_r t) = t mod kSecondsPerDay"
    using hms_sum [of "t mod kSecondsPerDay"] by (simp add: gmtime_r_def Let_def)
  ultimately show ?thesis by simp
qed

lemma fromUtcTime_gmtime:
  assumes "tz_range t"
  shows "fromUtcTime (gmtime_r t) = t"
proof -
  define d where "d = getYearMonthDay (t div kSecondsPerDay + 2440588)"
  note f = gmtime_fields [OF assms, folded d_def]
  have sum: "tm_hour (gmtime_r t) * 3600 + tm_min (gmtime_r t) * 60 + tm_sec (gmtime_r t) = t mod kSecondsPerDay"
    using hms_sum [of "t mod kSecondsPerDay"] by (simp add: gmtime_r_def Let_def)
  have "0 \<le> t mod kSecondsPerDay" "t mod kSecondsPerDay < 86400" by (simp_all add: kSecondsPerDay_def)
  then have w: "i32 (t mod kSecondsPerDay) = t mod kSecondsPerDay" "i32 (t div kSecondsPerDay) = t div kSecondsPerDay"
    "i32 (ymd_year d) = ymd_year d" "i32 (ymd_month d) = ymd_month d"
    using assms f(1-3) by (simp_all add: i32_id tz_range_def calendar_date_def)
  show ?thesis
    using f(4-7) w sum day_seconds [of t] by (simp add: fromUtcTime_def fromUtcTime_fields_def)
qed

section \<open>Search among the transitions\<close>

lemma lower_bound_loop_split:
  assumes "\<And>i j. i < j \<Longrightarrow> j < length xs \<Longrightarrow> before (xs ! j) \<Longrightarrow> before (xs ! i)"
    and "first + len \<le> length xs" "\<And>i. i < first \<Longrightarrow> before (xs ! i)"
    and "\<And>i. first + len \<le> i \<Longrightarrow> i < length xs \<Longrightarrow> \<not> before (xs ! i)"
  shows "lower_bound_loop before xs first len \<le> length xs \<and>
    (\<forall>i < lower_bound_loop before xs first len. before (xs ! i)) \<and>
    (\<forall>i. lower_bound_loop before xs first len \<le> i \<longrightarrow> i < length xs \<longrightarrow> \<not> before (xs ! i))"
  using assms(2-4)
proof (induction len arbitrary: first rule: less_induct)
  case (less len)
  let ?half = "len div 2" and ?mid = "first + len div 2"
  note rec = lower_bound_loop.simps [of before xs first len, unfolded Let_def]
  show ?case
  proof (cases "len = 0")
    case True
    then show ?thesis using less.prems lower_bound_loop.simps [of before xs first 0] by simp
  next
    case False
    then have mid: "?half < len" "?mid < length xs" "?mid + 1 + (len - ?half - 1) = first + len" using less.prems(1) by auto
    show ?thesis
    proof (cases "before (xs ! ?mid)")
      case True
      have "before (xs ! i)" if "i < ?mid + 1" for i
        using that assms(1) [of i ?mid] mid(2) True by (cases "i = ?mid") auto
      with less.IH [of "len - ?half - 1" "?mid + 1"] less.prems(1,3) mid False True show ?thesis by (simp add: rec)
    next
      case False
      have "\<not> before (xs ! i)" if "?mid \<le> i" "i < length xs" for i
        using that assms(1) [of ?mid i] False by (cases "i = ?mid") auto
      with less.IH [of ?half first] less.prems(1,2) mid False \<open>len \<noteq> 0\<close> show ?thesis by (simp add: rec)
    qed
  qed
qed

text \<open>
  The specification of the search: \<open>tz_period gmt data t n\<close> says that exactly the first \<open>n\<close> transitions are not
  later than \<open>t\<close>; \<open>tz_type data n\<close> is the local time type in force after \<open>n\<close> transitions.
\<close>

definition tz_sorted :: "bool \<Rightarrow> tz_data \<Rightarrow> bool" where
  "tz_sorted gmt data \<longleftrightarrow> sorted_wrt (<) (map (tz_key gmt) (transitions data))"

definition tz_period :: "bool \<Rightarrow> tz_data \<Rightarrow> int \<Rightarrow> nat \<Rightarrow> bool" where
  "tz_period gmt data t n \<longleftrightarrow> n \<le> length (transitions data) \<and> (\<forall>i<n. tz_key gmt (transitions data ! i) \<le> t) \<and>
     (\<forall>i. n \<le> i \<longrightarrow> i < length (transitions data) \<longrightarrow> t < tz_key gmt (transitions data ! i))"

definition tz_type :: "tz_data \<Rightarrow> nat \<Rightarrow> localtime_type result" where
  "tz_type data n = vec_at (localtimes data) (if n = 0 then 0 else localtimeIdx (transitions data ! (n - 1)))"

lemma tz_sorted_less: "tz_sorted gmt data \<Longrightarrow> i < j \<Longrightarrow> j < length (transitions data) \<Longrightarrow>
    tz_key gmt (transitions data ! i) < tz_key gmt (transitions data ! j)"
  by (auto simp: tz_sorted_def sorted_wrt_iff_nth_less)

lemma tz_period_unique: "tz_period gmt data t m \<Longrightarrow> tz_period gmt data t n \<Longrightarrow> m = n"
  by (rule antisym; rule ccontr) (auto simp: tz_period_def not_le dest!: spec)

lemma lower_bound_split:
  fixes sentry :: transition
  assumes "tz_sorted gmt data"
  defines "r \<equiv> lower_bound (comp_less gmt) (transitions data) sentry"
  shows "r \<le> length (transitions data)" "\<And>i. i < r \<Longrightarrow> tz_key gmt (transitions data ! i) < tz_key gmt sentry"
    "\<And>i. r \<le> i \<Longrightarrow> i < length (transitions data) \<Longrightarrow> tz_key gmt sentry \<le> tz_key gmt (transitions data ! i)"
proof -
  have mono: "comp_less gmt (transitions data ! i) sentry"
    if "i < j" "j < length (transitions data)" "comp_less gmt (transitions data ! j) sentry" for i j
    using tz_sorted_less [OF assms(1) that(1,2)] that(3) by (simp add: comp_less_def)
  have "r \<le> length (transitions data) \<and> (\<forall>i<r. comp_less gmt (transitions data ! i) sentry) \<and>
    (\<forall>i. r \<le> i \<longrightarrow> i < length (transitions data) \<longrightarrow> \<not> comp_less gmt (transitions data ! i) sentry)"
    unfolding r_def lower_bound_def by (rule lower_bound_loop_split) (auto intro: mono)
  then show "r \<le> length (transitions data)" "\<And>i. i < r \<Longrightarrow> tz_key gmt (transitions data ! i) < tz_key gmt sentry"
    "\<And>i. r \<le> i \<Longrightarrow> i < length (transitions data) \<Longrightarrow> tz_key gmt sentry \<le> tz_key gmt (transitions data ! i)"
    by (auto simp: comp_less_def)
qed

lemma findLocaltime_period:
  assumes "tz_sorted gmt data"
  shows "\<exists>n. tz_period gmt data (tz_key gmt sentry) n \<and> findLocaltime data sentry gmt = tz_type data n"
proof (cases "transitions data = [] \<or> comp_less gmt sentry (hd (transitions data))")
  case True
  have "tz_key gmt sentry < tz_key gmt (transitions data ! i)" if "i < length (transitions data)" for i
    using True that tz_sorted_less [OF assms, of 0 i] by (cases "i = 0"; cases "transitions data = []") (auto simp: comp_less_def hd_conv_nth)
  then have "tz_period gmt data (tz_key gmt sentry) 0" by (simp add: tz_period_def)
  then show ?thesis using True by (intro exI [of _ 0]) (simp add: findLocaltime_def tz_type_def)
next
  case False
  define r where "r = lower_bound (comp_less gmt) (transitions data) sentry"
  note lb = lower_bound_split [where sentry = sentry, OF assms, folded r_def]
  have find: "findLocaltime data sentry gmt = (if r \<noteq> length (transitions data)
      then if \<not> comp_equal gmt sentry (transitions data ! r)
           then assert_ok (r \<noteq> 0) (vec_at (localtimes data) (localtimeIdx (transitions data ! (r - 1))))
           else vec_at (localtimes data) (localtimeIdx (transitions data ! r))
      else vec_at (localtimes data) (localtimeIdx (last (transitions data))))"
    using False by (simp add: findLocaltime_def Let_def r_def)
  have r0: "r \<noteq> 0" if "\<not> (r < length (transitions data) \<and> tz_key gmt sentry = tz_key gmt (transitions data ! r))"
    using False that lb(3) [of 0] by (cases "r = 0") (auto simp: comp_less_def hd_conv_nth)
  show ?thesis
  proof (cases "r < length (transitions data) \<and> tz_key gmt sentry = tz_key gmt (transitions data ! r)")
    case True
    have "tz_key gmt sentry < tz_key gmt (transitions data ! i)" if "Suc r \<le> i" "i < length (transitions data)" for i
      using True that tz_sorted_less [OF assms, of r i] by simp
    then have "tz_period gmt data (tz_key gmt sentry) (Suc r)"
      using True lb(2) by (auto simp: tz_period_def less_Suc_eq le_less)
    then show ?thesis using True by (intro exI [of _ "Suc r"]) (simp add: find tz_type_def comp_equal_def)
  next
    case F: False
    have "tz_key gmt sentry < tz_key gmt (transitions data ! i)" if "r \<le> i" "i < length (transitions data)" for i
      using lb(3) [of r] F that tz_sorted_less [OF assms, of r i] by (cases "i = r") auto
    then have "tz_period gmt data (tz_key gmt sentry) r"
      using lb(1,2) by (auto simp: tz_period_def le_less)
    moreover have "findLocaltime data sentry gmt = tz_type data r"
      using r0 [OF F] F lb(1) False by (auto simp: find tz_type_def comp_equal_def last_conv_nth le_less)
    ultimately show ?thesis by blast
  qed
qed

lemma findLocaltime_type:
  assumes "tz_sorted gmt data" "tz_period gmt data (tz_key gmt sentry) n"
  shows "findLocaltime data sentry gmt = tz_type data n"
  using findLocaltime_period [OF assms(1), of sentry] tz_period_unique [OF assms(2)] by blast

section \<open>Local time\<close>

text \<open>
  A well-formed zone: every index is in range, the local time of a transition is computed with the new
  offset, transitions are at least an hour apart on both clocks, and a clock that is set back is set
  back by one hour at the end of daylight saving time.
\<close>

definition tz_lt :: "tz_data \<Rightarrow> nat \<Rightarrow> localtime_type" where
  "tz_lt data n = localtimes data ! (if n = 0 then 0 else localtimeIdx (transitions data ! (n - 1)))"

definition zone_wf :: "tz_data \<Rightarrow> bool" where
  "zone_wf data \<longleftrightarrow> localtimes data \<noteq> [] \<and>
     list_all (\<lambda>lt. arrbIdx lt \<le> length (tz_abbreviation data)) (localtimes data) \<and>
     list_all (\<lambda>x. localtimeIdx x < length (localtimes data) \<and>
       localtime x = gmttime x + gmtOffset (localtimes data ! localtimeIdx x)) (transitions data) \<and>
     sorted_wrt (\<lambda>x y. gmttime x + 3600 \<le> gmttime y \<and> localtime x + 3600 \<le> localtime y) (transitions data) \<and>
     list_all (\<lambda>i. gmtOffset (tz_lt data i) \<le> gmtOffset (tz_lt data (Suc i)) \<or>
       isDst (tz_lt data i) \<and> \<not> isDst (tz_lt data (Suc i)) \<and> gmtOffset (tz_lt data i) = gmtOffset (tz_lt data (Suc i)) + 3600)
       [0..<length (transitions data)]"

lemma zone_wf_sorted: "zone_wf data \<Longrightarrow> tz_sorted gmt data"
  by (auto simp: zone_wf_def tz_sorted_def tz_key_def sorted_wrt_map elim!: sorted_wrt_mono_rel [rotated])

lemma zone_wf_type:
  assumes "zone_wf data" "n \<le> length (transitions data)"
  shows "tz_type data n = Inr (tz_lt data n)" "arrbIdx (tz_lt data n) \<le> length (tz_abbreviation data)"
proof -
  let ?i = "if n = 0 then 0 else localtimeIdx (transitions data ! (n - 1))"
  have "?i < length (localtimes data)" using assms by (cases n) (auto simp: zone_wf_def list_all_length)
  then show "tz_type data n = Inr (tz_lt data n)" "arrbIdx (tz_lt data n) \<le> length (tz_abbreviation data)"
    using assms(1) by (simp_all add: tz_type_def tz_lt_def vec_at_def zone_wf_def list_all_length)
qed

lemma zone_wf_local: "zone_wf data \<Longrightarrow> i < length (transitions data) \<Longrightarrow>
    localtime (transitions data ! i) = gmttime (transitions data ! i) + gmtOffset (tz_lt data (Suc i))"
  by (simp add: zone_wf_def tz_lt_def list_all_length)

lemma zone_wf_apart: "zone_wf data \<Longrightarrow> i < j \<Longrightarrow> j < length (transitions data) \<Longrightarrow>
    gmttime (transitions data ! i) + 3600 \<le> gmttime (transitions data ! j) \<and>
    localtime (transitions data ! i) + 3600 \<le> localtime (transitions data ! j)"
  by (simp add: zone_wf_def sorted_wrt_iff_nth_less)

lemma zone_wf_back: "zone_wf data \<Longrightarrow> i < length (transitions data) \<Longrightarrow> gmtOffset (tz_lt data (Suc i)) < gmtOffset (tz_lt data i) \<Longrightarrow>
    isDst (tz_lt data i) \<and> \<not> isDst (tz_lt data (Suc i)) \<and> gmtOffset (tz_lt data i) = gmtOffset (tz_lt data (Suc i)) + 3600"
  by (auto simp: zone_wf_def list_all_length)

text \<open>\<open>toLocalTime\<close> in the period after \<open>n\<close> transitions.\<close>

definition local_tm :: "tz_data \<Rightarrow> nat \<Rightarrow> int \<Rightarrow> tm" where
  "local_tm data n t = (gmtime_r (t + gmtOffset (tz_lt data n)))
     \<lparr>tm_isdst := (if isDst (tz_lt data n) then 1 else 0), tm_gmtoff := gmtOffset (tz_lt data n),
      tm_zone := takeWhile (\<lambda>c. c \<noteq> CHR 0x00) (drop (arrbIdx (tz_lt data n)) (tz_abbreviation data))\<rparr>"

lemma toLocalTime_period:
  assumes "zone_wf data" "tz_period True data t n"
  shows "toLocalTime (Some data) t = Inr (local_tm data n t)"
proof -
  have "n \<le> length (transitions data)" using assms(2) by (simp add: tz_period_def)
  then show ?thesis
    using findLocaltime_type [OF zone_wf_sorted [OF assms(1)], of True "\<lparr>gmttime = t, localtime = 0, localtimeIdx = 0\<rparr>" n]
      assms(2) zone_wf_type [OF assms(1)] by (simp add: toLocalTime_def tz_key_def local_tm_def c_str_at_def)
qed

lemma tz_period_exists: "zone_wf data \<Longrightarrow> \<exists>n. tz_period True data t n"
  using findLocaltime_period [OF zone_wf_sorted, of data True "\<lparr>gmttime = t, localtime = 0, localtimeIdx = 0\<rparr>"]
  by (auto simp: tz_key_def)

text \<open>
  A local time is found in the period it was made in, or, when the clock has been set back since, in the
  next one; in that case the same reading occurs again an hour later, without daylight saving.
\<close>

lemma local_period:
  assumes "zone_wf data" "tz_period True data t n"
  defines "s \<equiv> t + gmtOffset (tz_lt data n)"
  shows "tz_period False data s n \<or>
    n < length (transitions data) \<and> tz_period False data s (Suc n) \<and> tz_period True data (t + 3600) (Suc n) \<and>
    isDst (tz_lt data n) \<and> \<not> isDst (tz_lt data (Suc n)) \<and> gmtOffset (tz_lt data n) = gmtOffset (tz_lt data (Suc n)) + 3600"
proof -
  let ?ts = "transitions data"
  have n: "n \<le> length ?ts" "\<And>i. i < n \<Longrightarrow> gmttime (?ts ! i) \<le> t" "\<And>i. n \<le> i \<Longrightarrow> i < length ?ts \<Longrightarrow> t < gmttime (?ts ! i)"
    using assms(2) by (simp_all add: tz_period_def tz_key_def)
  note apart = zone_wf_apart [OF assms(1)]
  have before: "localtime (?ts ! i) \<le> s" if "i < n" for i
  proof -
    have "localtime (?ts ! (n - 1)) \<le> s" using zone_wf_local [OF assms(1), of "n - 1"] n(1,2) that by (simp add: s_def)
    moreover have "i = n - 1 \<or> i < n - 1 \<and> n - 1 < length ?ts" using that n(1) by auto
    ultimately show ?thesis using apart [of i "n - 1"] by auto
  qed
  show ?thesis
  proof (cases "n < length ?ts \<and> localtime (?ts ! n) \<le> s")
    case False
    have "s < localtime (?ts ! i)" if "n \<le> i" "i < length ?ts" for i
      using apart [of n i] that False by (cases "i = n") auto
    then show ?thesis using before n(1) by (simp add: tz_period_def tz_key_def)
  next
    case True
    then have loc: "localtime (?ts ! n) = gmttime (?ts ! n) + gmtOffset (tz_lt data (Suc n))" using zone_wf_local [OF assms(1)] by simp
    with True n(3) [of n] have "gmtOffset (tz_lt data (Suc n)) < gmtOffset (tz_lt data n)" by (simp add: s_def)
    with zone_wf_back [OF assms(1)] True
    have setback: "isDst (tz_lt data n)" "\<not> isDst (tz_lt data (Suc n))" "gmtOffset (tz_lt data n) = gmtOffset (tz_lt data (Suc n)) + 3600" by simp_all
    have late: "s < localtime (?ts ! i)" "t + 3600 < gmttime (?ts ! i)" if "Suc n \<le> i" "i < length ?ts" for i
      using apart [of n i] that n(3) [of n] loc setback(3) by (simp_all add: s_def)
    have "localtime (?ts ! i) \<le> s" if "i < Suc n" for i using before that True by (auto simp: less_Suc_eq)
    moreover have "gmttime (?ts ! i) \<le> t + 3600" if "i < Suc n" for i
      using n(2) [of i] that True loc setback(3) by (auto simp: less_Suc_eq s_def)
    ultimately show ?thesis using late setback True by (simp add: tz_period_def tz_key_def)
  qed
qed

lemma timegm_local_tm: "tz_range (t + gmtOffset (tz_lt data n)) \<Longrightarrow> timegm (local_tm data n t) = t + gmtOffset (tz_lt data n)"
  using timegm_gmtime [of "t + gmtOffset (tz_lt data n)"] by (simp add: local_tm_def timegm_def)

lemma fromLocalTime_period:
  assumes "zone_wf data" "tz_period False data s n" "timegm localTm = s"
  shows "fromLocalTime (Some data) localTm =
    (if tm_isdst localTm \<noteq> 0
     then rbind (toLocalTime (Some data) (s - gmtOffset (tz_lt data n))) (\<lambda>tryTm.
       Inr ((if tm_isdst tryTm = 0 \<and> tm_hour tryTm = tm_hour localTm \<and> tm_min tryTm = tm_min localTm
             then s - 3600 else s) - gmtOffset (tz_lt data n)))
     else Inr (s - gmtOffset (tz_lt data n)))"
proof -
  have "n \<le> length (transitions data)" using assms(2) by (simp add: tz_period_def)
  then show ?thesis
    using findLocaltime_type [OF zone_wf_sorted [OF assms(1)], of False "\<lparr>gmttime = 0, localtime = s, localtimeIdx = 0\<rparr>" n]
      assms(2,3) zone_wf_type [OF assms(1)] by (simp add: fromLocalTime_def tz_key_def Let_def)
qed

lemma local_round_trip_period:
  assumes "zone_wf data" "tz_period True data t n" "tz_range (t + gmtOffset (tz_lt data n))"
  shows "fromLocalTime (Some data) (local_tm data n t) = Inr t"
proof -
  let ?s = "t + gmtOffset (tz_lt data n)"
  note inverse = fromLocalTime_period [OF assms(1) _ timegm_local_tm [OF assms(3)]]
  consider "tz_period False data ?s n" |
    "n < length (transitions data)" "tz_period False data ?s (Suc n)" "tz_period True data (t + 3600) (Suc n)"
    "isDst (tz_lt data n)" "\<not> isDst (tz_lt data (Suc n))" "gmtOffset (tz_lt data n) = gmtOffset (tz_lt data (Suc n)) + 3600"
    using local_period [OF assms(1,2)] by blast
  then show ?thesis
  proof cases
    case 1
    then show ?thesis using inverse [OF 1] toLocalTime_period [OF assms(1,2)] by (simp add: local_tm_def)
  next
    case 2
    then show ?thesis using inverse [OF 2(2)] toLocalTime_period [OF assms(1) 2(3)] by (simp add: local_tm_def algebra_simps)
  qed
qed

section \<open>Reading a zone file\<close>

text \<open>The layout of a zone file (version 1 of RFC 8536), as the specification of the reader.\<close>

definition int32_bytes :: "int \<Rightarrow> byte list" where
  "int32_bytes x = be_bytes (of_int x :: 32 word)"

definition ttinfo_bytes :: "localtime_type \<Rightarrow> byte list" where
  "ttinfo_bytes lt = int32_bytes (gmtOffset lt) @ [if isDst lt then 1 else 0, of_nat (arrbIdx lt)]"

definition zone_file :: "tz_data \<Rightarrow> byte list" where
  "zone_file data = ascii ''TZif'' @ [50] @ replicate 15 0 @
     concat (map int32_bytes [0, 0, 0, int (length (transitions data)), int (length (localtimes data)), int (length (tz_abbreviation data))]) @
     concat (map (\<lambda>x. int32_bytes (gmttime x)) (transitions data)) @
     map (\<lambda>x. of_nat (localtimeIdx x)) (transitions data) @
     concat (map ttinfo_bytes (localtimes data)) @ map of_char (tz_abbreviation data)"

definition int32 :: "int \<Rightarrow> bool" where
  "int32 x \<longleftrightarrow> - (2 ^ 31) \<le> x \<and> x < 2 ^ 31"

definition fits_zone_file :: "tz_data \<Rightarrow> bool" where
  "fits_zone_file data \<longleftrightarrow> tz_names data = [] \<and>
     int32 (int (length (transitions data))) \<and> int32 (int (length (localtimes data))) \<and> int32 (int (length (tz_abbreviation data))) \<and>
     list_all (\<lambda>lt. int32 (gmtOffset lt) \<and> arrbIdx lt < 256) (localtimes data) \<and>
     list_all (\<lambda>x. int32 (gmttime x) \<and> localtimeIdx x < 256 \<and> localtimeIdx x < length (localtimes data) \<and>
       localtime x = gmttime x + gmtOffset (localtimes data ! localtimeIdx x)) (transitions data)"

lemma length_int32_bytes [simp]: "length (int32_bytes x) = 4"
  by (simp add: int32_bytes_def)

lemma readInt32_bytes: "int32 x \<Longrightarrow> file_readInt32 h (int32_bytes x @ rest) = Some (x, rest)"
proof -
  assume "int32 x"
  then have "sint (of_int x :: 32 word) = x" using i32_id [of x] by (simp add: int32_def i32_def)
  then show ?thesis by (simp add: file_readInt32_def file_readBytes_def int32_bytes_def swap_obj_word)
qed

lemma readUInt8_byte: "n < 256 \<Longrightarrow> file_readUInt8 (of_nat n # rest) = Some (n, rest)"
  by (simp add: file_readUInt8_def unat_of_nat)

lemma file_repeat_concat:
  assumes "\<And>x rest. x \<in> set xs \<Longrightarrow> r (enc x @ rest) = Some (g x, rest)"
  shows "file_repeat (length xs) r (concat (map enc xs) @ rest) = Some (map g xs, rest)"
  using assms by (induction xs) simp_all

lemma read_ttinfo_bytes:
  assumes "int32 (gmtOffset lt)" "arrbIdx lt < 256"
  shows "read_ttinfo h (ttinfo_bytes lt @ rest) = Some (lt, rest)"
proof -
  have "file_readUInt8 ((if isDst lt then 1 else 0) # bs) = Some (if isDst lt then 1 else 0, bs)" for bs
    by (simp add: file_readUInt8_def)
  then show ?thesis using assms readUInt8_byte [of "arrbIdx lt" rest]
    by (simp add: read_ttinfo_def ttinfo_bytes_def readInt32_bytes)
qed

lemma read_localtimes_bytes:
  assumes "list_all (\<lambda>lt. int32 (gmtOffset lt) \<and> arrbIdx lt < 256) lts"
  shows "read_localtimes h (length lts) (concat (map ttinfo_bytes lts) @ rest) = (lts, Some rest)"
  using assms by (induction lts) (simp_all add: read_ttinfo_bytes)

lemma push_transitions:
  assumes "list_all (\<lambda>x. localtimeIdx x < length (localtimes data) \<and>
    localtime x = gmttime x + gmtOffset (localtimes data ! localtimeIdx x)) ts"
  shows "rfold push_transition (zip (map gmttime ts) (map localtimeIdx ts)) data = Inr (data\<lparr>transitions := transitions data @ ts\<rparr>)"
  using assms
proof (induction ts arbitrary: data)
  case (Cons x ts)
  let ?d = "data\<lparr>transitions := transitions data @ [x]\<rparr>"
  have "push_transition (gmttime x, localtimeIdx x) data = Inr ?d"
    using Cons.prems by (cases x) (simp add: push_transition_def vec_at_def)
  then show ?case using Cons.IH [of ?d] Cons.prems by simp
qed simp

lemma read_tz_header_bytes:
  assumes "int32 a" "int32 b" "int32 c"
  shows "read_tz_header h (ascii ''TZif'' @ [50] @ replicate 15 0 @ concat (map int32_bytes [0, 0, 0, a, b, c]) @ rest) = Some ((a, b, c), rest)"
proof -
  have "file_repeat (length [0, 0, 0, a, b, c]) (file_readInt32 h) (concat (map int32_bytes [0, 0, 0, a, b, c]) @ rest) =
      Some (map id [0, 0, 0, a, b, c], rest)"
    by (rule file_repeat_concat) (use assms in \<open>auto simp: readInt32_bytes int32_def\<close>)
  moreover have "length [0, 0, 0, a, b, c] = 6" by simp
  ultimately have counts: "file_repeat 6 (file_readInt32 h) (concat (map int32_bytes [0, 0, 0, a, b, c]) @ rest) = Some ([0, 0, 0, a, b, c], rest)"
    by (simp only: list.map_id)
  then show ?thesis
    by (simp add: read_tz_header_def file_readBytes_def)
qed

lemma readTimeZoneFile_zone:
  assumes "fits_zone_file data"
  shows "readTimeZoneFile h (Some (zone_file data @ rest)) empty_tz_data = Inr (True, data)"
proof -
  let ?ts = "transitions data" and ?lts = "localtimes data" and ?ab = "tz_abbreviation data"
  have ok: "tz_names data = []" "int32 (int (length ?ts))" "int32 (int (length ?lts))" "int32 (int (length ?ab))"
    "list_all (\<lambda>lt. int32 (gmtOffset lt) \<and> arrbIdx lt < 256) ?lts"
    "\<And>x. x \<in> set ?ts \<Longrightarrow> int32 (gmttime x) \<and> localtimeIdx x < 256"
    "list_all (\<lambda>x. localtimeIdx x < length ?lts \<and> localtime x = gmttime x + gmtOffset (?lts ! localtimeIdx x)) ?ts"
    using assms by (auto simp: fits_zone_file_def list_all_iff)
  have hdr: "read_tz_header h (zone_file data @ rest) = Some ((int (length ?ts), int (length ?lts), int (length ?ab)),
      concat (map (\<lambda>x. int32_bytes (gmttime x)) ?ts) @ map (\<lambda>x. of_nat (localtimeIdx x)) ?ts @
      concat (map ttinfo_bytes ?lts) @ map of_char ?ab @ rest)"
    using read_tz_header_bytes [OF ok(2-4), of h] by (simp add: zone_file_def)
  have times: "file_repeat (length ?ts) (file_readInt32 h) (concat (map (\<lambda>x. int32_bytes (gmttime x)) ?ts) @ r) = Some (map gmttime ?ts, r)" for r
    by (rule file_repeat_concat) (use ok(6) in \<open>simp add: readInt32_bytes\<close>)
  have idxs: "file_repeat (length ?ts) file_readUInt8 (map (\<lambda>x. of_nat (localtimeIdx x)) ?ts @ r) = Some (map localtimeIdx ?ts, r)" for r
    using file_repeat_concat [of ?ts file_readUInt8 "\<lambda>x. [of_nat (localtimeIdx x)]" localtimeIdx r] ok(6)
    by (simp add: readUInt8_byte concat_map_singleton)
  have "char_of (unat (of_char c :: byte)) = c" for c
  proof -
    have "(of_char c :: byte) = of_nat (of_char c)" by (simp only: of_nat_of_char)
    then show ?thesis by (simp only: unat_of_nat) simp
  qed
  then have ab: "map (\<lambda>b. char_of (unat b)) (map of_char ?ab :: byte list) = ?ab" by (simp add: comp_def)
  show ?thesis
    using push_transitions [of "empty_tz_data\<lparr>localtimes := ?lts\<rparr>" ?ts] ok(1,7) ab
    by (simp add: readTimeZoneFile_def hdr times idxs read_localtimes_bytes [OF ok(5)] file_readBytes_def empty_tz_data_def)
qed

section \<open>Properties\<close>

text \<open>\<open>toUtcTime\<close> breaks a count of seconds down into a date of the calendar and a time of the day, also
  before 1970, agrees with \<open>gmtime_r\<close>, and \<open>fromUtcTime\<close> brings the count back, for all days on which
  the date arithmetic does not overflow.\<close>

theorem utc_round_trip:
  assumes "tz_range t"
  shows "fromUtcTime (toUtcTime yday t) = t \<and> toUtcTime True t = gmtime_r t \<and>
    0 \<le> tm_sec (toUtcTime yday t) \<and> tm_sec (toUtcTime yday t) < 60 \<and> 0 \<le> tm_min (toUtcTime yday t) \<and> tm_min (toUtcTime yday t) < 60 \<and>
    0 \<le> tm_hour (toUtcTime yday t) \<and> tm_hour (toUtcTime yday t) < 24 \<and>
    calendar_date \<lparr>ymd_year = tm_year (toUtcTime yday t) + 1900, ymd_month = tm_mon (toUtcTime yday t) + 1, ymd_day = tm_mday (toUtcTime yday t)\<rparr>"
proof -
  let ?u = "toUtcTime yday t"
  have eq: "fromUtcTime ?u = fromUtcTime (gmtime_r t)" "tm_sec ?u = tm_sec (gmtime_r t)" "tm_min ?u = tm_min (gmtime_r t)"
    "tm_hour ?u = tm_hour (gmtime_r t)" "tm_year ?u = tm_year (gmtime_r t)" "tm_mon ?u = tm_mon (gmtime_r t)" "tm_mday ?u = tm_mday (gmtime_r t)"
    using toUtcTime_gmtime [OF assms] by (cases yday; simp add: fromUtcTime_def)+
  have "0 \<le> tm_hour (gmtime_r t)" "tm_hour (gmtime_r t) < 24"
    by (simp_all add: gmtime_r_def Let_def kSecondsPerDay_def div_less_iff_less_mult)
  moreover have "0 \<le> tm_sec (gmtime_r t)" "tm_sec (gmtime_r t) < 60" "0 \<le> tm_min (gmtime_r t)" "tm_min (gmtime_r t) < 60"
    by (simp_all add: gmtime_r_def Let_def)
  moreover have "calendar_date \<lparr>ymd_year = tm_year (gmtime_r t) + 1900, ymd_month = tm_mon (gmtime_r t) + 1, ymd_day = tm_mday (gmtime_r t)\<rparr>"
    using gmtime_fields(1,5-7) [OF assms] by (simp add: calendar_date_def)
  ultimately show ?thesis
    unfolding eq using fromUtcTime_gmtime [OF assms] toUtcTime_gmtime(1) [OF assms] by blast
qed

theorem utc_round_trip_witness:
  "fromUtcTime (toUtcTime False (- 1)) = - 1 \<and> tm_hour (toUtcTime False (- 1)) = 23 \<and> tm_year (toUtcTime False (- 1)) = 69"
proof -
  have "tz_range (- 1)" by (simp add: tz_range_def kSecondsPerDay_def)
  from utc_round_trip [OF this, of False] have "fromUtcTime (toUtcTime False (- 1)) = - 1" by blast
  moreover have "tm_hour (toUtcTime False (- 1)) = 23 \<and> tm_year (toUtcTime False (- 1)) = 69" by code_simp
  ultimately show ?thesis by blast
qed

text \<open>C36. Local time converts back: in a zone whose clock is set back only by an hour at the end of daylight
  saving time, \<open>fromLocalTime\<close> inverts \<open>toLocalTime\<close> at every instant, also within the hour that occurs
  twice; the binary searches find the right types.\<close>

theorem local_time_round_trip:
  assumes "zone_wf data" "\<forall>lt\<in>set (localtimes data). tz_range (t + gmtOffset lt)"
  shows "\<exists>tm. toLocalTime (Some data) t = Inr tm \<and> timegm tm = t + tm_gmtoff tm \<and> fromLocalTime (Some data) tm = Inr t"
proof -
  obtain n where n: "tz_period True data t n" using tz_period_exists [OF assms(1)] by blast
  then have "n \<le> length (transitions data)" by (simp add: tz_period_def)
  from zone_wf_type(1) [OF assms(1) this] have "tz_lt data n \<in> set (localtimes data)"
    by (auto simp: tz_type_def tz_lt_def vec_at_def split: if_splits)
  then have r: "tz_range (t + gmtOffset (tz_lt data n))" using assms(2) by blast
  show ?thesis
    using toLocalTime_period [OF assms(1) n] timegm_local_tm [OF r] local_round_trip_period [OF assms(1) n r]
    by (auto simp: local_tm_def)
qed

text \<open>New York in 2007: the clock shows 1:30 twice on 4 November.\<close>

definition new_york :: tz_data where
  "new_york = \<lparr>transitions = [\<lparr>gmttime = 1173596400, localtime = 1173582000, localtimeIdx = 1\<rparr>,
       \<lparr>gmttime = 1194156000, localtime = 1194138000, localtimeIdx = 0\<rparr>],
     localtimes = [\<lparr>gmtOffset = - 18000, isDst = False, arrbIdx = 0\<rparr>, \<lparr>gmtOffset = - 14400, isDst = True, arrbIdx = 4\<rparr>],
     tz_names = [], tz_abbreviation = ''EST'' @ [CHR 0x00] @ ''EDT''\<rparr>"

theorem local_time_round_trip_witness:
  "(\<exists>tm. toLocalTime (Some new_york) 1194154200 = Inr tm \<and> fromLocalTime (Some new_york) tm = Inr 1194154200) \<and>
   (\<exists>tm. toLocalTime (Some new_york) 1194157800 = Inr tm \<and> fromLocalTime (Some new_york) tm = Inr 1194157800)"
proof -
  have wf: "zone_wf new_york" by code_simp
  have "\<forall>lt\<in>set (localtimes new_york). tz_range (1194154200 + gmtOffset lt)"
    "\<forall>lt\<in>set (localtimes new_york). tz_range (1194157800 + gmtOffset lt)" by code_simp+
  with local_time_round_trip [OF wf] show ?thesis by metis
qed

text \<open>The reader of zone files gives back every zone from its file.\<close>

theorem zone_file_round_trip:
  assumes "fits_zone_file data"
  shows "new_TimeZone h (Some (zone_file data @ rest)) = Inr (Some data)"
  using readTimeZoneFile_zone [OF assms] by (simp add: new_TimeZone_def)

theorem zone_file_round_trip_witness:
  "new_TimeZone LittleEndian (Some (zone_file new_york @ [])) = Inr (Some new_york)"
proof -
  have "fits_zone_file new_york" by code_simp
  then show ?thesis by (rule zone_file_round_trip)
qed

text \<open>A zone file that cannot be opened or is not a zone file gives a zone that claims to be valid and has
  no local time types: the first conversion reads the front of an empty vector.\<close>

theorem missing_zone_file:
  "\<exists>z. new_TimeZone h None = Inr z \<and> new_TimeZone h (Some [1, 2, 3]) = Inr z \<and> tz_valid z \<and> toLocalTime z t = Inl OutOfBounds"
  by (simp add: new_TimeZone_def readTimeZoneFile_def tz_valid_def toLocalTime_def findLocaltime_def empty_tz_data_def vec_at_def
      read_tz_header_def file_readBytes_def)

end
