(* ===== verification/Log_Files.thy ===== *)
theory Log_Files
  imports Time_Zone Timestamps
begin

text \<open>
  Log files (\<open>src/muduo/base/LogFile.h\<close>, \<open>LogFile.cc\<close>) and the file they write to (\<open>AppendFile\<close> of
  \<open>FileUtil.h\<close>, \<open>FileUtil.cc\<close>). The disk is the list of files in the order of their creation; what \<open>stdio\<close>
  may still hold back is a separate field. The results of \<open>time\<close>, \<open>fopen\<close> and \<open>fwrite_unlocked\<close>, the host name
  and the process id are arguments.
\<close>

section \<open>Formatted time\<close>

text \<open>\<open>%4d%02d%02d %02d:%02d:%02d\<close> and, in the name of a log file, \<open>.%Y%m%d-%H%M%S.\<close>\<close>

definition date_text :: "tm \<Rightarrow> string" where
  "date_text t = pad (CHR '' '') 4 (dec_int (tm_year t + 1900)) @ print_02d (tm_mon t + 1) @ print_02d (tm_mday t)"

definition clock_text :: "tm \<Rightarrow> string" where
  "clock_text t = print_02d (tm_hour t) @ '':'' @ print_02d (tm_min t) @ '':'' @ print_02d (tm_sec t)"

definition strftime_name :: "tm \<Rightarrow> string" where
  "strftime_name t = ''.'' @ dec_int (tm_year t + 1900) @ print_02d (tm_mon t + 1) @ print_02d (tm_mday t) @ ''-'' @
     print_02d (tm_hour t) @ print_02d (tm_min t) @ print_02d (tm_sec t) @ ''.''"

definition toFormattedString :: "bool \<Rightarrow> Timestamp \<Rightarrow> string" where
  "toFormattedString showMicroseconds ts =
     (let seconds = cdiv (microSecondsSinceEpoch ts) kMicroSecondsPerSecond; tm_time = gmtime_r seconds
      in if showMicroseconds
         then let microseconds = i32 (Muduo_Prelude.cmod (microSecondsSinceEpoch ts) kMicroSecondsPerSecond)
              in snprintf_text 32 (date_text tm_time @ '' '' @ clock_text tm_time @ ''.'' @ zero_padded 6 microseconds)
         else snprintf_text 32 (date_text tm_time @ '' '' @ clock_text tm_time))"

section \<open>AppendFile\<close>

type_synonym disk = "(string \<times> string) list"

definition fopen_append :: "string \<Rightarrow> disk \<Rightarrow> disk" where
  "fopen_append name d = (if name \<in> set (map fst d) then d else d @ [(name, '''')])"

definition disk_write :: "string \<Rightarrow> string \<Rightarrow> disk \<Rightarrow> disk" where
  "disk_write name str d = map (\<lambda>(n, c). if n = name then (n, c @ str) else (n, c)) d"

record append_file =
  af_name :: string          \<comment> \<open>the file behind \<open>fp_\<close>\<close>
  af_buffer :: string        \<comment> \<open>\<open>buffer_\<close>: what \<open>stdio\<close> may still hold\<close>
  af_writtenBytes :: nat

text \<open>The constructor asserts that \<open>fopen\<close> succeeded.\<close>

definition new_AppendFile :: "bool \<Rightarrow> string \<Rightarrow> disk \<Rightarrow> (append_file \<times> disk) result" where
  "new_AppendFile opened name d =
     assert_ok opened (Inr (\<lparr>af_name = name, af_buffer = '''', af_writtenBytes = 0\<rparr>, fopen_append name d))"

text \<open>
  The calls of \<open>fwrite_unlocked\<close> in \<open>append\<close>: \<open>caps\<close> bounds what each one takes, and calls beyond the list take
  everything. The loop gives up when a call takes nothing; the first call is not tested.
\<close>

fun append_loop :: "nat list \<Rightarrow> string \<Rightarrow> string" where
  "append_loop [] remain = remain"
| "append_loop (c # caps) remain =
     (if remain = [] then '''' else if c = 0 then '''' else take c remain @ append_loop caps (drop c remain))"

definition append_text :: "nat list \<Rightarrow> string \<Rightarrow> string" where
  "append_text caps logline =
     (case caps of [] \<Rightarrow> logline | c # cs \<Rightarrow> take c logline @ append_loop cs (drop c logline))"

definition af_append :: "nat list \<Rightarrow> string \<Rightarrow> append_file \<Rightarrow> append_file" where
  "af_append caps logline f =
     f\<lparr>af_buffer := af_buffer f @ append_text caps logline, af_writtenBytes := af_writtenBytes f + length logline\<rparr>"

definition af_flush :: "append_file \<times> disk \<Rightarrow> append_file \<times> disk" where
  "af_flush fd = ((fst fd)\<lparr>af_buffer := ''''\<rparr>, disk_write (af_name (fst fd)) (af_buffer (fst fd)) (snd fd))"

text \<open>\<open>fclose\<close> in the destructor.\<close>

definition destroy_AppendFile :: "append_file \<Rightarrow> disk \<Rightarrow> disk" where
  "destroy_AppendFile f d = snd (af_flush (f, d))"

section \<open>LogFile\<close>

record log_os =
  os_hostname :: string
  os_pid :: nat
  os_fopen :: "string \<Rightarrow> bool"

record log_file =
  lf_basename :: string
  lf_rollSize :: int
  lf_flushInterval :: int
  lf_checkEveryN :: int
  lf_count :: int
  lf_startOfPeriod :: int
  lf_lastRoll :: int
  lf_lastFlush :: int
  lf_file :: "append_file option"
  lf_disk :: disk

definition kRollPerSeconds :: int where "kRollPerSeconds = 60 * 60 * 24"

definition getLogFileName :: "log_os \<Rightarrow> string \<Rightarrow> int \<Rightarrow> string" where
  "getLogFileName os basename now =
     basename @ strftime_name (gmtime_r now) @ os_hostname os @ ''.'' @ dec_nat (os_pid os) @ ''.log''"

text \<open>The new file is opened before the old one is closed.\<close>

definition reset_file :: "bool \<Rightarrow> string \<Rightarrow> log_file \<Rightarrow> log_file result" where
  "reset_file opened filename s =
     rbind (new_AppendFile opened filename (lf_disk s)) (\<lambda>(f, d).
       Inr (s\<lparr>lf_file := Some f, lf_disk := (case lf_file s of None \<Rightarrow> d | Some old \<Rightarrow> destroy_AppendFile old d)\<rparr>))"

definition rollFile :: "log_os \<Rightarrow> int \<Rightarrow> log_file \<Rightarrow> (bool \<times> log_file) result" where
  "rollFile os now s =
     (let filename = getLogFileName os (lf_basename s) now; start = cdiv now kRollPerSeconds * kRollPerSeconds
      in if lf_lastRoll s < now
         then rbind (reset_file (os_fopen os filename) filename
                (s\<lparr>lf_lastRoll := now, lf_lastFlush := now, lf_startOfPeriod := start\<rparr>)) (\<lambda>s'. Inr (True, s'))
         else Inr (False, s))"

definition lf_flush :: "log_file \<Rightarrow> log_file result" where
  "lf_flush s =
     (case lf_file s of None \<Rightarrow> Inl UseAfterFree
      | Some f \<Rightarrow> (let (f', d) = af_flush (f, lf_disk s) in Inr (s\<lparr>lf_file := Some f', lf_disk := d\<rparr>)))"

text \<open>\<open>now\<close> is the time of the check, \<open>now'\<close> the time that \<open>rollFile\<close> reads.\<close>

definition append_unlocked :: "log_os \<Rightarrow> nat list \<Rightarrow> int \<Rightarrow> int \<Rightarrow> string \<Rightarrow> log_file \<Rightarrow> log_file result" where
  "append_unlocked os caps now now' logline s =
     (case lf_file s of None \<Rightarrow> Inl UseAfterFree
      | Some f \<Rightarrow>
          let f1 = af_append caps logline f; s1 = s\<lparr>lf_file := Some f1\<rparr> in
          if lf_rollSize s1 < int (af_writtenBytes f1)
          then rbind (rollFile os now' s1) (\<lambda>(_, s'). Inr s')
          else let s2 = s1\<lparr>lf_count := lf_count s1 + 1\<rparr> in
            if lf_checkEveryN s2 \<le> lf_count s2
            then let s3 = s2\<lparr>lf_count := 0\<rparr>; thisPeriod = cdiv now kRollPerSeconds * kRollPerSeconds in
              if thisPeriod \<noteq> lf_startOfPeriod s3 then rbind (rollFile os now' s3) (\<lambda>(_, s'). Inr s')
              else if lf_flushInterval s3 < now - lf_lastFlush s3 then lf_flush (s3\<lparr>lf_lastFlush := now\<rparr>)
              else Inr s3
            else Inr s2)"

text \<open>With and without a mutex \<open>append\<close> does the same; the mutex makes it one step for other threads.\<close>

definition lf_append :: "log_os \<Rightarrow> nat list \<Rightarrow> int \<Rightarrow> int \<Rightarrow> string \<Rightarrow> log_file \<Rightarrow> log_file result" where
  "lf_append os caps now now' logline s = append_unlocked os caps now now' logline s"

definition new_LogFile :: "log_os \<Rightarrow> string \<Rightarrow> int \<Rightarrow> int \<Rightarrow> int \<Rightarrow> int \<Rightarrow> disk \<Rightarrow> log_file result" where
  "new_LogFile os basename rollSize flushInterval checkEveryN now d =
     assert_ok (CHR ''/'' \<notin> set basename)
       (rbind (rollFile os now
          \<lparr>lf_basename = basename, lf_rollSize = rollSize, lf_flushInterval = flushInterval, lf_checkEveryN = checkEveryN,
           lf_count = 0, lf_startOfPeriod = 0, lf_lastRoll = 0, lf_lastFlush = 0, lf_file = None, lf_disk = d\<rparr>)
        (\<lambda>(_, s). Inr s))"

section \<open>Names of log files\<close>

text \<open>Behind the year everything has a fixed width, so that different seconds give different names.\<close>

lemma length_dec_nat_iff: "0 < k \<Longrightarrow> length (dec_nat n) \<le> k \<longleftrightarrow> n < 10 ^ k"
proof (induction n arbitrary: k rule: dec_nat.induct)
  case (1 n)
  show ?case
  proof (cases "n < 10")
    case True
    then show ?thesis using 1(2) power_increasing [of 1 k "10::nat"] by (simp add: dec_nat_digit)
  next
    case False
    then have "length (dec_nat n) \<le> k \<longleftrightarrow> length (dec_nat (n div 10)) \<le> k - 1" using 1(2) by (auto simp: dec_nat_rec)
    also have "\<dots> \<longleftrightarrow> n < 10 ^ k"
    proof (cases "k = 1")
      case True
      then show ?thesis using False by (auto simp: dec_nat.simps)
    next
      case F: False
      then have "length (dec_nat (n div 10)) \<le> k - 1 \<longleftrightarrow> n div 10 < 10 ^ (k - 1)" using 1 False by simp
      also have "\<dots> \<longleftrightarrow> n < 10 ^ k" using 1(2) by (cases k) (simp_all add: div_less_iff_less_mult mult.commute)
      finally show ?thesis .
    qed
    finally show ?thesis .
  qed
qed

lemma length_print_02d: "0 \<le> i \<Longrightarrow> i < 100 \<Longrightarrow> length (print_02d i) = 2"
  using length_dec_nat_iff [of 2 "nat i"] by (simp add: print_02d_def pad_def)

lemma print_02d_inject:
  assumes "0 \<le> i" "i < 100" "0 \<le> j" "j < 100" "print_02d i = print_02d j"
  shows "i = j"
proof -
  have v: "digits_value (print_02d k) = nat k" if "0 \<le> k" for k
  proof -
    have "digits_value (replicate m (CHR ''0'') @ dec_nat n) = n" for m n
      using digits_value_dec_nat [of n] by (induction m) (simp_all add: digits_value_def)
    then show ?thesis using that by (simp add: print_02d_def pad_def)
  qed
  show ?thesis using v [of i] v [of j] assms by simp
qed

lemma gmtime_inject:
  assumes "tz_range a" "tz_range b" "tm_year (gmtime_r a) = tm_year (gmtime_r b)" "tm_mon (gmtime_r a) = tm_mon (gmtime_r b)"
    "tm_mday (gmtime_r a) = tm_mday (gmtime_r b)" "tm_hour (gmtime_r a) = tm_hour (gmtime_r b)"
    "tm_min (gmtime_r a) = tm_min (gmtime_r b)" "tm_sec (gmtime_r a) = tm_sec (gmtime_r b)"
  shows "a = b"
  using timegm_gmtime [OF assms(1)] timegm_gmtime [OF assms(2)] assms(3-) by (simp add: timegm_def)

lemma gmtime_two_digits:
  assumes "tz_range t"
  shows "0 \<le> tm_mon (gmtime_r t) + 1 \<and> tm_mon (gmtime_r t) + 1 < 100" "0 \<le> tm_mday (gmtime_r t) \<and> tm_mday (gmtime_r t) < 100"
    "0 \<le> tm_hour (gmtime_r t) \<and> tm_hour (gmtime_r t) < 100" "0 \<le> tm_min (gmtime_r t) \<and> tm_min (gmtime_r t) < 100"
    "0 \<le> tm_sec (gmtime_r t) \<and> tm_sec (gmtime_r t) < 100"
proof -
  have d: "calendar_date (getYearMonthDay (t div kSecondsPerDay + 2440588))" using gmtime_fields(1) [OF assms] .
  then show "0 \<le> tm_mon (gmtime_r t) + 1 \<and> tm_mon (gmtime_r t) + 1 < 100" "0 \<le> tm_mday (gmtime_r t) \<and> tm_mday (gmtime_r t) < 100"
    using gmtime_fields(6,7) [OF assms] by (auto simp: calendar_date_def month_length_def split: if_splits)
  have "t mod kSecondsPerDay div 3600 < 24" by (simp add: kSecondsPerDay_def div_less_iff_less_mult)
  then show "0 \<le> tm_hour (gmtime_r t) \<and> tm_hour (gmtime_r t) < 100" by (simp add: gmtime_r_def Let_def kSecondsPerDay_def)
  have "x mod 60 < 100" for x :: int using pos_mod_bound [of 60 x] by linarith
  then show "0 \<le> tm_min (gmtime_r t) \<and> tm_min (gmtime_r t) < 100" "0 \<le> tm_sec (gmtime_r t) \<and> tm_sec (gmtime_r t) < 100"
    by (simp_all add: gmtime_r_def Let_def)
qed

lemma getLogFileName_inject:
  assumes "tz_range a" "tz_range b"
    "getLogFileName os base a = getLogFileName os base b"
  shows "a = b"
proof -
  let ?a = "gmtime_r a" and ?b = "gmtime_r b"
  note ra = gmtime_two_digits [OF assms(1)] and rb = gmtime_two_digits [OF assms(2)]
  have eq: "dec_int (tm_year ?a + 1900) @ print_02d (tm_mon ?a + 1) @ print_02d (tm_mday ?a) @ ''-'' @
      print_02d (tm_hour ?a) @ print_02d (tm_min ?a) @ print_02d (tm_sec ?a) =
    dec_int (tm_year ?b + 1900) @ print_02d (tm_mon ?b + 1) @ print_02d (tm_mday ?b) @ ''-'' @
      print_02d (tm_hour ?b) @ print_02d (tm_min ?b) @ print_02d (tm_sec ?b)"
    using assms(3) by (simp add: getLogFileName_def strftime_name_def)
  have split: "xs = ys \<and> us = vs" if "xs @ us = ys @ vs" "length us = length vs" for xs us ys vs :: string
    using that by simp
  have "dec_int (tm_year ?a + 1900) = dec_int (tm_year ?b + 1900) \<and> print_02d (tm_mon ?a + 1) = print_02d (tm_mon ?b + 1) \<and>
    print_02d (tm_mday ?a) = print_02d (tm_mday ?b) \<and> print_02d (tm_hour ?a) = print_02d (tm_hour ?b) \<and>
    print_02d (tm_min ?a) = print_02d (tm_min ?b) \<and> print_02d (tm_sec ?a) = print_02d (tm_sec ?b)"
    using split [OF eq] ra rb by (simp add: length_print_02d)
  then have "tm_year ?a = tm_year ?b" "tm_mon ?a = tm_mon ?b" "tm_mday ?a = tm_mday ?b" "tm_hour ?a = tm_hour ?b"
    "tm_min ?a = tm_min ?b" "tm_sec ?a = tm_sec ?b"
    using ra rb dec_int_inject [of "tm_year ?a + 1900" "tm_year ?b + 1900"]
      print_02d_inject [of "tm_mon ?a + 1" "tm_mon ?b + 1"] print_02d_inject [of "tm_mday ?a" "tm_mday ?b"]
      print_02d_inject [of "tm_hour ?a" "tm_hour ?b"] print_02d_inject [of "tm_min ?a" "tm_min ?b"] print_02d_inject [of "tm_sec ?a" "tm_sec ?b"]
    by simp_all
  then show ?thesis using gmtime_inject [OF assms(1,2)] by blast
qed

section \<open>What the files hold\<close>

lemma append_loop_all: "\<forall>c\<in>set caps. 0 < c \<Longrightarrow> append_loop caps line = line"
  by (induction caps arbitrary: line) auto

lemma append_text_all: "\<forall>c\<in>set caps. 0 < c \<Longrightarrow> append_text caps line = line"
  by (cases caps) (simp_all add: append_text_def append_loop_all)

text \<open>
  The invariant: the open file is the newest one on the disk, its name is that of the last roll, and the
  older files have the names of earlier seconds.
\<close>

definition lf_inv :: "log_os \<Rightarrow> log_file \<Rightarrow> bool" where
  "lf_inv os s \<longleftrightarrow> 0 < lf_lastRoll s \<and> tz_range (lf_lastRoll s) \<and>
     (\<exists>f old c. lf_file s = Some f \<and> lf_disk s = old @ [(af_name f, c)] \<and>
        af_name f = getLogFileName os (lf_basename s) (lf_lastRoll s) \<and> distinct (map fst old) \<and>
        (\<forall>n\<in>set (map fst old). \<exists>t. 0 < t \<and> t < lf_lastRoll s \<and> n = getLogFileName os (lf_basename s) t))"

text \<open>The contents of the files once \<open>stdio\<close> has written everything out.\<close>

definition lf_contents :: "log_file \<Rightarrow> string list" where
  "lf_contents s = map snd (case lf_file s of None \<Rightarrow> lf_disk s | Some f \<Rightarrow> destroy_AppendFile f (lf_disk s))"

lemma tz_range_between: "0 \<le> a \<Longrightarrow> a \<le> b \<Longrightarrow> tz_range b \<Longrightarrow> tz_range a"
proof -
  assume "0 \<le> a" "a \<le> b" "tz_range b"
  moreover have "0 \<le> a div kSecondsPerDay" "a div kSecondsPerDay \<le> b div kSecondsPerDay"
    using \<open>0 \<le> a\<close> \<open>a \<le> b\<close> by (simp_all add: kSecondsPerDay_def zdiv_mono1)
  ultimately show ?thesis by (simp add: tz_range_def)
qed

lemma lf_inv_fresh:
  assumes "lf_inv os s" "lf_disk s = old @ [(af_name f, c)]" "lf_file s = Some f"
  shows "af_name f \<notin> set (map fst old)"
proof
  assume in_old: "af_name f \<in> set (map fst old)"
  then obtain t where t: "0 < t" "t < lf_lastRoll s" "af_name f = getLogFileName os (lf_basename s) t"
    and r: "tz_range (lf_lastRoll s)" "af_name f = getLogFileName os (lf_basename s) (lf_lastRoll s)"
    using assms by (auto simp: lf_inv_def)
  then show False using getLogFileName_inject [of t "lf_lastRoll s" os "lf_basename s"] tz_range_between [of t "lf_lastRoll s"] by simp
qed

lemma disk_write_last: "name \<notin> set (map fst old) \<Longrightarrow> disk_write name str (old @ [(name, c)]) = old @ [(name, c @ str)]"
  by (force simp: disk_write_def intro!: map_idI)

lemma lf_invE:
  assumes "lf_inv os s"
  obtains f old c where "lf_file s = Some f" "lf_disk s = old @ [(af_name f, c)]" "af_name f \<notin> set (map fst old)"
    "lf_contents s = map snd old @ [c @ af_buffer f]" "0 < lf_lastRoll s" "tz_range (lf_lastRoll s)"
    "af_name f = getLogFileName os (lf_basename s) (lf_lastRoll s)" "distinct (map fst old)"
    "\<forall>n\<in>set (map fst old). \<exists>t. 0 < t \<and> t < lf_lastRoll s \<and> n = getLogFileName os (lf_basename s) t"
proof -
  obtain f old c where f: "lf_file s = Some f" "lf_disk s = old @ [(af_name f, c)]" "0 < lf_lastRoll s" "tz_range (lf_lastRoll s)"
    "af_name f = getLogFileName os (lf_basename s) (lf_lastRoll s)" "distinct (map fst old)"
    "\<forall>n\<in>set (map fst old). \<exists>t. 0 < t \<and> t < lf_lastRoll s \<and> n = getLogFileName os (lf_basename s) t"
    using assms by (auto simp: lf_inv_def)
  have fresh: "af_name f \<notin> set (map fst old)" using lf_inv_fresh [OF assms f(2,1)] .
  moreover have "lf_contents s = map snd old @ [c @ af_buffer f]"
    using f(1,2) disk_write_last [OF fresh] by (simp add: lf_contents_def destroy_AppendFile_def af_flush_def)
  ultimately show ?thesis using f that by blast
qed

lemma rollFile_ok:
  assumes "lf_inv os s" "tz_range now" "\<And>n. os_fopen os n"
  shows "\<exists>b s'. rollFile os now s = Inr (b, s') \<and> lf_inv os s' \<and> b = (lf_lastRoll s < now) \<and>
    lf_contents s' = lf_contents s @ (if b then [''''] else [])"
proof (cases "lf_lastRoll s < now")
  case True
  obtain f old c where f: "lf_file s = Some f" "lf_disk s = old @ [(af_name f, c)]" "af_name f \<notin> set (map fst old)"
    "lf_contents s = map snd old @ [c @ af_buffer f]" "0 < lf_lastRoll s" "tz_range (lf_lastRoll s)"
    "af_name f = getLogFileName os (lf_basename s) (lf_lastRoll s)" "distinct (map fst old)"
    "\<forall>n\<in>set (map fst old). \<exists>t. 0 < t \<and> t < lf_lastRoll s \<and> n = getLogFileName os (lf_basename s) t"
    using assms(1) by (rule lf_invE)
  let ?name = "getLogFileName os (lf_basename s) now"
  have older: "\<forall>n\<in>set (map fst (old @ [(af_name f, c)])). \<exists>t. 0 < t \<and> t < now \<and> n = getLogFileName os (lf_basename s) t"
    using f(5,7,9) True by fastforce
  have new: "?name \<notin> set (map fst (old @ [(af_name f, c)]))"
  proof
    assume "?name \<in> set (map fst (old @ [(af_name f, c)]))"
    with older obtain t where "0 < t" "t < now" "?name = getLogFileName os (lf_basename s) t" by blast
    then show False using getLogFileName_inject [of t now os "lf_basename s"] tz_range_between [of t now] assms(2) by simp
  qed
  then have disk: "destroy_AppendFile f (fopen_append ?name (lf_disk s)) = (old @ [(af_name f, c @ af_buffer f)]) @ [(?name, '''')]"
    using f(2,3) disk_write_last [OF f(3), of "af_buffer f" c]
    by (auto simp: destroy_AppendFile_def af_flush_def fopen_append_def disk_write_def)
  define s' where "s' = s\<lparr>lf_lastRoll := now, lf_lastFlush := now, lf_startOfPeriod := cdiv now kRollPerSeconds * kRollPerSeconds,
    lf_file := Some \<lparr>af_name = ?name, af_buffer = '''', af_writtenBytes = 0\<rparr>,
    lf_disk := (old @ [(af_name f, c @ af_buffer f)]) @ [(?name, '''')]\<rparr>"
  have "rollFile os now s = Inr (True, s')"
    using True assms(3) f(1) disk by (simp add: rollFile_def reset_file_def new_AppendFile_def s'_def Let_def)
  moreover have inv: "lf_inv os s'"
    unfolding lf_inv_def using True assms(2) f(3,5,8) older by (simp add: s'_def)
  moreover have "lf_contents s' = lf_contents s @ ['''']"
    unfolding f(4) by (simp add: s'_def lf_contents_def destroy_AppendFile_def af_flush_def disk_write_def case_prod_beta map_idI)
  ultimately show ?thesis using True by (intro exI [of _ True] exI [of _ s']) simp
next
  case False
  then show ?thesis using assms by (intro exI [of _ False] exI [of _ s]) (simp add: rollFile_def)
qed

lemma lf_inv_cong [simp]:
  "lf_inv os (s\<lparr>lf_count := n\<rparr>) = lf_inv os s" "lf_inv os (s\<lparr>lf_lastFlush := t\<rparr>) = lf_inv os s"
  "lf_contents (s\<lparr>lf_count := n\<rparr>) = lf_contents s" "lf_contents (s\<lparr>lf_lastFlush := t\<rparr>) = lf_contents s"
  by (simp_all add: lf_inv_def lf_contents_def split: option.split)

definition add_last :: "'a list \<Rightarrow> 'a list list \<Rightarrow> 'a list list" where
  "add_last x xs = butlast xs @ [last xs @ x]"

lemma add_last_snoc [simp]: "add_last x (xs @ [y]) = xs @ [y @ x]"
  by (simp add: add_last_def)

lemma lf_put:
  fixes caps :: "nat list" and logline :: string
  assumes "lf_inv os s" "lf_file s = Some f"
  defines "s' \<equiv> s\<lparr>lf_file := Some (af_append caps logline f)\<rparr>"
  shows "lf_inv os s'" "lf_contents s' = add_last (append_text caps logline) (lf_contents s)"
proof -
  obtain g old c where g: "lf_file s = Some g" "lf_disk s = old @ [(af_name g, c)]" "af_name g \<notin> set (map fst old)"
    "lf_contents s = map snd old @ [c @ af_buffer g]" using assms(1) by (rule lf_invE)
  then have "f = g" using assms(2) by simp
  show inv: "lf_inv os s'" using assms(1,2) by (simp add: lf_inv_def s'_def af_append_def)
  show "lf_contents s' = add_last (append_text caps logline) (lf_contents s)"
    unfolding g(4) using g(2) \<open>f = g\<close> disk_write_last [OF g(3)]
    by (simp add: lf_contents_def s'_def destroy_AppendFile_def af_flush_def af_append_def)
qed

lemma lf_flush_ok:
  assumes "lf_inv os s"
  shows "\<exists>s' f'. lf_flush s = Inr s' \<and> lf_inv os s' \<and> lf_contents s' = lf_contents s \<and> lf_file s' = Some f' \<and> af_buffer f' = ''''"
proof -
  obtain f old c where f: "lf_file s = Some f" "lf_disk s = old @ [(af_name f, c)]" "af_name f \<notin> set (map fst old)"
    "lf_contents s = map snd old @ [c @ af_buffer f]" using assms by (rule lf_invE)
  let ?s = "s\<lparr>lf_file := Some (f\<lparr>af_buffer := ''''\<rparr>), lf_disk := old @ [(af_name f, c @ af_buffer f)]\<rparr>"
  have "lf_flush s = Inr ?s" using f(1,2) disk_write_last [OF f(3)] by (simp add: lf_flush_def af_flush_def)
  moreover have "lf_inv os ?s" using assms f(1,2) by (simp add: lf_inv_def)
  moreover have "lf_contents ?s = lf_contents s"
    unfolding f(4) using disk_write_last [OF f(3), of "[]"] by (simp add: lf_contents_def destroy_AppendFile_def af_flush_def)
  ultimately show ?thesis by auto
qed

lemma lf_append_ok:
  assumes "lf_inv os s" "tz_range now'" "\<And>n. os_fopen os n" "\<forall>c\<in>set caps. 0 < c"
  shows "\<exists>s' new. lf_append os caps now now' logline s = Inr s' \<and> lf_inv os s' \<and>
    lf_contents s' = add_last logline (lf_contents s) @ new \<and> (new = [] \<or> new = [''''])"
proof -
  obtain f where f: "lf_file s = Some f" using assms(1) by (rule lf_invE)
  define s1 where "s1 = s\<lparr>lf_file := Some (af_append caps logline f)\<rparr>"
  have s1: "lf_inv os s1" "lf_contents s1 = add_last logline (lf_contents s)" "lf_rollSize s1 = lf_rollSize s"
    "lf_checkEveryN s1 = lf_checkEveryN s" "lf_count s1 = lf_count s" "lf_startOfPeriod s1 = lf_startOfPeriod s"
    "lf_flushInterval s1 = lf_flushInterval s" "lf_lastFlush s1 = lf_lastFlush s"
    using lf_put [where caps = caps and logline = logline, OF assms(1) f] append_text_all [OF assms(4)] by (simp_all add: s1_def)
  have roll: "\<exists>s' new. rbind (rollFile os now' t) (\<lambda>(_, s'). Inr s') = Inr s' \<and> lf_inv os s' \<and>
      lf_contents s' = lf_contents t @ new \<and> (new = [] \<or> new = [''''])" if "lf_inv os t" for t
    using rollFile_ok [OF that assms(2,3)] by fastforce
  have flush: "\<exists>s' new. lf_flush t = Inr s' \<and> lf_inv os s' \<and> lf_contents s' = lf_contents t @ new \<and> (new = [] \<or> new = [''''])"
    if "lf_inv os t" for t using lf_flush_ok [OF that] by fastforce
  define s2 where "s2 = s1\<lparr>lf_count := lf_count s1 + 1\<rparr>"
  define s3 where "s3 = s2\<lparr>lf_count := 0\<rparr>"
  have "lf_append os caps now now' logline s =
    (if lf_rollSize s1 < int (af_writtenBytes (af_append caps logline f)) then rbind (rollFile os now' s1) (\<lambda>(_, s'). Inr s')
     else if lf_checkEveryN s2 \<le> lf_count s2
       then if cdiv now kRollPerSeconds * kRollPerSeconds \<noteq> lf_startOfPeriod s3 then rbind (rollFile os now' s3) (\<lambda>(_, s'). Inr s')
         else if lf_flushInterval s3 < now - lf_lastFlush s3 then lf_flush (s3\<lparr>lf_lastFlush := now\<rparr>) else Inr s3
       else Inr s2)"
    using f by (simp add: lf_append_def append_unlocked_def Let_def s1_def s2_def s3_def)
  then show ?thesis
    using roll [of s1] roll [of s3] flush [of "s3\<lparr>lf_lastFlush := now\<rparr>"] s1(1,2)
    by (auto simp: s2_def s3_def split: if_splits)
qed

lemma new_LogFile_ok:
  assumes "CHR ''/'' \<notin> set basename" "0 < now" "tz_range now" "\<And>n. os_fopen os n"
  shows "\<exists>s. new_LogFile os basename rollSize flushInterval checkEveryN now [] = Inr s \<and> lf_inv os s \<and> lf_contents s = ['''']"
  using assms
  by (auto simp: new_LogFile_def rollFile_def reset_file_def new_AppendFile_def Let_def lf_inv_def lf_contents_def
      destroy_AppendFile_def af_flush_def disk_write_def fopen_append_def)

section \<open>Properties\<close>

type_synonym log_call = "nat list \<times> int \<times> int \<times> string"     \<comment> \<open>results of \<open>fwrite\<close>, times, line\<close>

definition lf_call :: "log_os \<Rightarrow> log_call \<Rightarrow> log_file \<Rightarrow> log_file result" where
  "lf_call os c s = (case c of (caps, now, now', logline) \<Rightarrow> lf_append os caps now now' logline s)"

definition call_ok :: "log_call \<Rightarrow> bool" where
  "call_ok c \<longleftrightarrow> (case c of (caps, now, now', logline) \<Rightarrow> tz_range now' \<and> (\<forall>n\<in>set caps. 0 < n))"

definition call_line :: "log_call \<Rightarrow> string" where
  "call_line c = snd (snd (snd c))"

text \<open>The files hold whole lines, in order, each line once.\<close>

definition holds_lines :: "string list \<Rightarrow> string list \<Rightarrow> bool" where
  "holds_lines files ls \<longleftrightarrow> (\<exists>parts. files = map concat parts \<and> concat parts = ls)"

lemma holds_lines_add:
  assumes "holds_lines files ls" "files \<noteq> []" "new = [] \<or> new = ['''']"
  shows "holds_lines (add_last line files @ new) (ls @ [line])"
proof -
  obtain parts where parts: "files = map concat parts" "concat parts = ls" using assms(1) by (auto simp: holds_lines_def)
  then obtain ps p where ps: "parts = ps @ [p]" using assms(2) by (cases parts rule: rev_cases) auto
  have "add_last line files @ new = map concat (ps @ [p @ [line]] @ map (\<lambda>_. []) new)" using parts(1) ps assms(3) by auto
  moreover have "concat (ps @ [p @ [line]] @ map (\<lambda>_. []) new) = ls @ [line]" using parts(2) ps assms(3) by auto
  ultimately show ?thesis unfolding holds_lines_def by blast
qed

lemma lf_calls_ok:
  assumes "lf_inv os s" "\<And>n. os_fopen os n" "\<forall>c\<in>set calls. call_ok c" "holds_lines (lf_contents s) ls"
  shows "\<exists>s'. rfold (lf_call os) calls s = Inr s' \<and> lf_inv os s' \<and> holds_lines (lf_contents s') (ls @ map call_line calls)"
  using assms(1,3,4)
proof (induction calls arbitrary: s ls)
  case (Cons c calls)
  obtain caps now now' line where c: "c = (caps, now, now', line)" by (cases c) auto
  with Cons.prems lf_append_ok [OF Cons.prems(1) _ assms(2), of now' caps now line] obtain s1 new where
    1: "lf_call os c s = Inr s1" "lf_inv os s1" "lf_contents s1 = add_last line (lf_contents s) @ new" "new = [] \<or> new = ['''']"
    by (auto simp: lf_call_def call_ok_def)
  have "lf_contents s \<noteq> []" using Cons.prems(1) by (auto elim: lf_invE)
  then have "holds_lines (lf_contents s1) (ls @ [call_line c])"
    using holds_lines_add [OF Cons.prems(3), of new line] 1(3,4) c by (simp add: call_line_def)
  with Cons.IH [OF 1(2), of "ls @ [call_line c]"] Cons.prems(2) 1(1) show ?case by simp
qed simp

text \<open>C34. A log file loses nothing when it rolls: whatever the clock shows and however \<open>fwrite\<close> cuts the output,
  every appended line is in exactly one of the files, whole, and the files in the order of their creation
  hold the lines in the order they were appended; no two files have the same name, and no file is
  written to through a null pointer.\<close>

theorem log_file_keeps_lines:
  assumes "CHR ''/'' \<notin> set basename" "0 < start" "tz_range start" "\<And>n. os_fopen os n" "\<forall>c\<in>set calls. call_ok c"
  shows "\<exists>s0 s. new_LogFile os basename rollSize flushInterval checkEveryN start [] = Inr s0 \<and>
    rfold (lf_call os) calls s0 = Inr s \<and> holds_lines (lf_contents s) (map call_line calls) \<and> distinct (map fst (lf_disk s))"
proof -
  obtain s0 where s0: "new_LogFile os basename rollSize flushInterval checkEveryN start [] = Inr s0" "lf_inv os s0" "lf_contents s0 = ['''']"
    using new_LogFile_ok [OF assms(1-4)] by blast
  have "holds_lines (lf_contents s0) []" unfolding s0(3) holds_lines_def by (rule exI [of _ "[[]]"]) simp
  from lf_calls_ok [OF s0(2) assms(4,5) this] obtain s where s: "rfold (lf_call os) calls s0 = Inr s" "lf_inv os s"
    "holds_lines (lf_contents s) (map call_line calls)" by auto
  from s(2) have "distinct (map fst (lf_disk s))" by (rule lf_invE) simp
  with s0(1) s show ?thesis by blast
qed

theorem log_file_keeps_lines_witness:
  "\<exists>s0 s. new_LogFile \<lparr>os_hostname = ''host'', os_pid = 7, os_fopen = (\<lambda>_. True)\<rparr> ''app'' 4 3 1 1000000000 [] = Inr s0 \<and>
     rfold (lf_call \<lparr>os_hostname = ''host'', os_pid = 7, os_fopen = (\<lambda>_. True)\<rparr>)
       [([2, 1], 1000000001, 1000000001, ''first''), ([], 1000000002, 1000000002, ''x'')] s0 = Inr s \<and>
     holds_lines (lf_contents s) [''first'', ''x'']"
proof -
  let ?os = "\<lparr>os_hostname = ''host'', os_pid = 7, os_fopen = (\<lambda>_. True)\<rparr>"
  let ?calls = "[([2, 1], 1000000001, 1000000001, ''first''), ([], 1000000002, 1000000002, ''x'')]"
  have "CHR ''/'' \<notin> set ''app''" "tz_range 1000000000" by (simp_all add: tz_range_def kSecondsPerDay_def)
  moreover have "\<forall>c\<in>set ?calls. call_ok c" by (simp add: call_ok_def tz_range_def kSecondsPerDay_def)
  moreover have "map call_line ?calls = [''first'', ''x'']" by (simp add: call_line_def)
  ultimately show ?thesis
    using log_file_keeps_lines [of "''app''" 1000000000 ?os ?calls 4 3 1] by auto
qed

end
