(* ===== verification/Log_Stream.thy ===== *)
theory Log_Stream
  imports Muduo_Prelude
begin

text \<open>
  The log stream of \<open>src/muduo/base/LogStream.h\<close> and \<open>LogStream.cc\<close>: text formatted into a fixed array.
  The integer conversions are compared with plain decimal and hexadecimal numerals, and the array
  with the text that has been written. Writing beyond the array is an error.
\<close>

section \<open>FixedBuffer\<close>

record fixed_buffer =
  fb_data :: string      \<comment> \<open>\<open>data_\<close>, an array of \<open>SIZE\<close> characters\<close>
  fb_cur :: nat          \<comment> \<open>\<open>cur_\<close> as an index\<close>

definition kSmallBuffer :: nat where "kSmallBuffer = 4000"
definition kLargeBuffer :: nat where "kLargeBuffer = 4000 * 1000"

definition new_FixedBuffer :: "nat \<Rightarrow> fixed_buffer" where
  "new_FixedBuffer n = \<lparr>fb_data = replicate n (CHR 0x00), fb_cur = 0\<rparr>"

definition fb_avail :: "fixed_buffer \<Rightarrow> nat" where
  "fb_avail b = length (fb_data b) - fb_cur b"

definition fb_length :: "fixed_buffer \<Rightarrow> nat" where
  "fb_length b = fb_cur b"

definition fb_toString :: "fixed_buffer \<Rightarrow> string" where
  "fb_toString b = take (fb_length b) (fb_data b)"

definition fb_reset :: "fixed_buffer \<Rightarrow> fixed_buffer" where
  "fb_reset b = b\<lparr>fb_cur := 0\<rparr>"

definition fb_add :: "nat \<Rightarrow> fixed_buffer \<Rightarrow> fixed_buffer" where
  "fb_add len b = b\<lparr>fb_cur := fb_cur b + len\<rparr>"

text \<open>\<open>memcpy\<close> or a conversion that stores characters at \<open>current()\<close> plus an offset.\<close>

definition fb_write :: "nat \<Rightarrow> string \<Rightarrow> fixed_buffer \<Rightarrow> fixed_buffer result" where
  "fb_write off str b =
     (if fb_cur b + off + length str \<le> length (fb_data b)
      then Inr (b\<lparr>fb_data := overwrite (fb_cur b + off) str (fb_data b)\<rparr>) else Inl OutOfBounds)"

definition fb_append :: "string \<Rightarrow> fixed_buffer \<Rightarrow> fixed_buffer result" where
  "fb_append str b =
     (if length str < fb_avail b then rbind (fb_write 0 str b) (\<lambda>b'. Inr (fb_add (length str) b')) else Inr b)"

definition fb_debugString :: "fixed_buffer \<Rightarrow> fixed_buffer result" where
  "fb_debugString b = fb_write 0 [CHR 0x00] b"

section \<open>Integer conversions\<close>

definition digits :: string where "digits = ''9876543210123456789''"
definition digitsHex :: string where "digitsHex = ''0123456789ABCDEF''"

lemma cdiv_10_abs: "nat \<bar>cdiv i 10\<bar> = nat \<bar>i\<bar> div 10"
  by (cases "i = 0") (simp_all add: cdiv_def abs_mult nat_div_distrib)

text \<open>The loop of \<open>convert\<close>, least significant digit first; \<open>zero\<close> points at index 9 of \<open>digits\<close>.\<close>

function convert_loop :: "int \<Rightarrow> string" where
  "convert_loop i =
     (let lsd = cmod i 10; i' = cdiv i 10; c = digits ! nat (9 + lsd)
      in if i' \<noteq> 0 then c # convert_loop i' else [c])"
  by pat_completeness auto

termination
proof (relation "measure (\<lambda>i. nat \<bar>i\<bar>)")
  fix i lsd i' :: int and c :: char
  assume "i' = cdiv i 10" "i' \<noteq> 0"
  then show "(i', i) \<in> measure (\<lambda>i. nat \<bar>i\<bar>)" using cdiv_10_abs [of i] by (cases "i = 0") (auto simp: cdiv_def)
qed simp

declare convert_loop.simps [simp del]

text \<open>What \<open>convert\<close> and \<open>convertHex\<close> leave in the array before the terminating zero.\<close>

definition convert :: "int \<Rightarrow> string" where
  "convert v = rev (convert_loop v @ (if v < 0 then ''-'' else ''''))"

fun convertHex_loop :: "nat \<Rightarrow> string" where
  "convertHex_loop i =
     (let c = digitsHex ! (i mod 16); i' = i div 16 in if i' \<noteq> 0 then c # convertHex_loop i' else [c])"

declare convertHex_loop.simps [simp del]

definition convertHex :: "nat \<Rightarrow> string" where
  "convertHex v = rev (convertHex_loop v)"

section \<open>LogStream\<close>

definition kMaxNumericSize :: nat where "kMaxNumericSize = 32"

definition formatInteger :: "int \<Rightarrow> fixed_buffer \<Rightarrow> fixed_buffer result" where
  "formatInteger v b =
     (if kMaxNumericSize \<le> fb_avail b
      then rbind (fb_write 0 (convert v @ [CHR 0x00]) b) (\<lambda>b'. Inr (fb_add (length (convert v)) b')) else Inr b)"

definition put_bool :: "bool \<Rightarrow> fixed_buffer \<Rightarrow> fixed_buffer result" where
  "put_bool v b = fb_append (if v then ''1'' else ''0'') b"

definition put_char :: "char \<Rightarrow> fixed_buffer \<Rightarrow> fixed_buffer result" where
  "put_char c b = fb_append [c] b"

text \<open>A C string pointer may be null.\<close>

definition put_cstr :: "string option \<Rightarrow> fixed_buffer \<Rightarrow> fixed_buffer result" where
  "put_cstr str b = fb_append (case str of Some t \<Rightarrow> t | None \<Rightarrow> ''(null)'') b"

definition put_string :: "string \<Rightarrow> fixed_buffer \<Rightarrow> fixed_buffer result" where
  "put_string str b = fb_append str b"

definition put_ptr :: "nat \<Rightarrow> fixed_buffer \<Rightarrow> fixed_buffer result" where
  "put_ptr v b =
     (if kMaxNumericSize \<le> fb_avail b
      then rbind (fb_write 0 ''0x'' b) (\<lambda>b1. rbind (fb_write 2 (convertHex v @ [CHR 0x00]) b1)
        (\<lambda>b2. Inr (fb_add (length (convertHex v) + 2) b2))) else Inr b)"

text \<open>A double: \<open>text\<close> is what \<open>%.12g\<close> prints; \<open>snprintf\<close> cuts it but returns its full length.\<close>

definition put_double :: "string \<Rightarrow> fixed_buffer \<Rightarrow> fixed_buffer result" where
  "put_double text b =
     (if kMaxNumericSize \<le> fb_avail b
      then rbind (fb_write 0 (snprintf_text kMaxNumericSize text @ [CHR 0x00]) b)
        (\<lambda>b'. Inr (fb_add (length text) b')) else Inr b)"

text \<open>\<open>Fmt\<close>: a numeral formatted into 32 characters, with an assertion that it fits.\<close>

definition new_Fmt :: "string \<Rightarrow> string result" where
  "new_Fmt text = assert_ok (length text < 32) (Inr (snprintf_text 32 text))"

definition put_fmt :: "string \<Rightarrow> fixed_buffer \<Rightarrow> fixed_buffer result" where
  "put_fmt text b = rbind (new_Fmt text) (\<lambda>buf. fb_append buf b)"

section \<open>The conversions are numerals\<close>

lemma digits_nth:
  assumes "n < 10"
  shows "digits ! nat (9 + int n) = char_of (48 + n)" "digits ! nat (9 - int n) = char_of (48 + n)"
proof -
  from assms have "n = 0 \<or> n = 1 \<or> n = 2 \<or> n = 3 \<or> n = 4 \<or> n = 5 \<or> n = 6 \<or> n = 7 \<or> n = 8 \<or> n = 9" by arith
  then show "digits ! nat (9 + int n) = char_of (48 + n)" "digits ! nat (9 - int n) = char_of (48 + n)"
    by (auto simp: digits_def)
qed

text \<open>One turn of the loop, for either sign: the digit characters are the same.\<close>

lemma convert_loop_step:
  "convert_loop (int n) =
     (if n div 10 \<noteq> 0 then char_of (48 + n mod 10) # convert_loop (int (n div 10)) else [char_of (48 + n mod 10)])"
  "convert_loop (- int n) =
     (if n div 10 \<noteq> 0 then char_of (48 + n mod 10) # convert_loop (- int (n div 10)) else [char_of (48 + n mod 10)])"
proof -
  have d: "cdiv (int n) 10 = int (n div 10)" "cmod (int n) 10 = int (n mod 10)"
    by (simp_all add: cdiv_nonneg cmod_nonneg zdiv_int zmod_int)
  then have d': "cdiv (- int n) 10 = - int (n div 10)" "cmod (- int n) 10 = - int (n mod 10)"
    by (simp_all only: cdiv_minus cmod_minus zero_less_numeral)
  have "n mod 10 < 10" by simp
  from digits_nth [OF this] have c: "digits ! nat (9 + int (n mod 10)) = char_of (48 + n mod 10)"
    "digits ! nat (9 + - int (n mod 10)) = char_of (48 + n mod 10)" by (simp_all only: diff_conv_add_uminus)
  show "convert_loop (int n) =
     (if n div 10 \<noteq> 0 then char_of (48 + n mod 10) # convert_loop (int (n div 10)) else [char_of (48 + n mod 10)])"
    by (subst convert_loop.simps) (simp only: d c Let_def of_nat_eq_0_iff)
  show "convert_loop (- int n) =
     (if n div 10 \<noteq> 0 then char_of (48 + n mod 10) # convert_loop (- int (n div 10)) else [char_of (48 + n mod 10)])"
    by (subst convert_loop.simps) (simp only: d' c Let_def neg_equal_0_iff_equal of_nat_eq_0_iff)
qed

lemma convert_loop_nat: "rev (convert_loop (int n)) = dec_nat n" "rev (convert_loop (- int n)) = dec_nat n"
proof (induction n rule: dec_nat.induct)
  case (1 n)
  { case 1
    show ?case using "1.IH" (1) by (cases "n < 10") (simp_all add: convert_loop_step(1) [of n] dec_nat_digit dec_nat_rec) }
  { case 2
    show ?case using "1.IH" (2) by (cases "n < 10") (simp_all add: convert_loop_step(2) [of n] dec_nat_digit dec_nat_rec) }
qed

lemma convert_dec: "convert v = dec_int v"
  using convert_loop_nat [of "nat \<bar>v\<bar>"]
  by (cases "v < 0") (auto simp: convert_def dec_int_def)

text \<open>Reading a hexadecimal numeral back.\<close>

definition hex_value :: "string \<Rightarrow> nat" where
  "hex_value str = foldl (\<lambda>v c. 16 * v + length (takeWhile ((\<noteq>) c) digitsHex)) 0 str"

lemma hex_digit: "d < 16 \<Longrightarrow> length (takeWhile ((\<noteq>) (digitsHex ! d)) digitsHex) = d"
proof -
  have "list_all (\<lambda>d. length (takeWhile ((\<noteq>) (digitsHex ! d)) digitsHex) = d) [0..<16]" by code_simp
  then show "d < 16 \<Longrightarrow> length (takeWhile ((\<noteq>) (digitsHex ! d)) digitsHex) = d" by (simp add: list_all_iff)
qed

lemma hex_value_snoc: "hex_value (str @ [c]) = 16 * hex_value str + length (takeWhile ((\<noteq>) c) digitsHex)"
  by (simp add: hex_value_def)

lemma convertHex_loop_step:
  "convertHex_loop v = (if 16 \<le> v then digitsHex ! (v mod 16) # convertHex_loop (v div 16) else [digitsHex ! v])"
  by (subst convertHex_loop.simps) (auto simp: Let_def)

lemma hex_value_convertHex: "hex_value (convertHex v) = v"
proof (induction v rule: convertHex_loop.induct)
  case (1 v)
  show ?case
  proof (cases "16 \<le> v")
    case True
    with 1 have "hex_value (rev (convertHex_loop (v div 16))) = v div 16" by (simp add: convertHex_def)
    then show ?thesis using True by (simp add: convertHex_def convertHex_loop_step [of v] hex_value_snoc hex_digit)
  next
    case False
    then show ?thesis using hex_digit [of v] hex_value_snoc [of "[]"]
      by (simp add: convertHex_def convertHex_loop_step [of v] hex_value_def)
  qed
qed

lemma length_convertHex: "v < 16 ^ k \<Longrightarrow> 0 < k \<Longrightarrow> length (convertHex v) \<le> k"
proof (induction v arbitrary: k rule: convertHex_loop.induct)
  case (1 v)
  show ?case
  proof (cases "16 \<le> v")
    case True
    have "k \<noteq> 1" using 1(2) True by auto
    with 1(3) obtain j where j: "k = Suc j" "0 < j" by (cases k) auto
    then have "v div 16 < 16 ^ j" using 1(2) by (simp add: less_mult_imp_div_less mult.commute)
    with 1(1) True j show ?thesis by (simp add: convertHex_def convertHex_loop_step [of v])
  next
    case False
    then show ?thesis using 1(3) by (simp add: convertHex_def convertHex_loop_step [of v])
  qed
qed

section \<open>The text in the buffer\<close>

definition fb_wf :: "fixed_buffer \<Rightarrow> bool" where
  "fb_wf b \<longleftrightarrow> fb_cur b < length (fb_data b)"

text \<open>Storing text, possibly with a final zero behind it, and moving on by its length.\<close>

lemma fb_write_add:
  assumes "fb_wf b" "fb_cur b + length str < length (fb_data b)" "fb_cur b + length (str @ rest) \<le> length (fb_data b)"
  shows "\<exists>b'. fb_write 0 (str @ rest) b = Inr b' \<and> fb_wf (fb_add (length str) b') \<and>
    length (fb_data (fb_add (length str) b')) = length (fb_data b) \<and> fb_toString (fb_add (length str) b') = fb_toString b @ str"
  using assms
  by (auto simp: fb_write_def fb_add_def fb_wf_def fb_toString_def fb_length_def overwrite_def)

definition grows_by :: "string \<Rightarrow> fixed_buffer \<Rightarrow> fixed_buffer \<Rightarrow> bool" where
  "grows_by str b b' \<longleftrightarrow> fb_wf b' \<and> length (fb_data b') = length (fb_data b) \<and> fb_toString b' = fb_toString b @ str"

lemma fb_append_text:
  assumes "fb_wf b"
  shows "\<exists>b'. fb_append str b = Inr b' \<and> grows_by (if length str < fb_avail b then str else '''') b b'"
proof (cases "length str < fb_avail b")
  case True
  then have "fb_cur b + length str < length (fb_data b)" by (simp add: fb_avail_def)
  with fb_write_add [OF assms, of str "[]"] True show ?thesis by (auto simp: fb_append_def grows_by_def)
qed (use assms in \<open>simp add: fb_append_def grows_by_def\<close>)

lemma numeric_text:
  assumes "fb_wf b" "kMaxNumericSize \<le> fb_avail b" "length str < kMaxNumericSize"
  shows "\<exists>b'. rbind (fb_write 0 (str @ [CHR 0x00]) b) (\<lambda>b'. Inr (fb_add (length str) b')) = Inr b' \<and> grows_by str b b'"
proof -
  have room: "fb_cur b + length str < length (fb_data b)" "fb_cur b + length (str @ [CHR 0x00]) \<le> length (fb_data b)"
    using assms by (simp_all add: fb_avail_def fb_wf_def)
  from fb_write_add [OF assms(1) room] show ?thesis by (auto simp: grows_by_def)
qed

lemma length_convert: "- (2 ^ 63) \<le> v \<Longrightarrow> v < 2 ^ 64 \<Longrightarrow> length (convert v) < kMaxNumericSize"
proof -
  assume "- (2 ^ 63) \<le> v" "v < 2 ^ 64"
  then have "nat \<bar>v\<bar> < 10 ^ 20" by (simp add: nat_less_iff)
  from length_dec_nat [OF this] show ?thesis by (auto simp: convert_dec dec_int_def kMaxNumericSize_def)
qed

lemma formatInteger_text:
  assumes "fb_wf b" "- (2 ^ 63) \<le> v" "v < 2 ^ 64"
  shows "\<exists>b'. formatInteger v b = Inr b' \<and> grows_by (if kMaxNumericSize \<le> fb_avail b then dec_int v else '''') b b'"
  using numeric_text [OF assms(1), of "dec_int v"] length_convert [OF assms(2,3)] assms(1)
  by (auto simp: formatInteger_def convert_dec grows_by_def)

lemma overwrite_twice:
  assumes "n + length u + length v \<le> length d"
  shows "overwrite (n + length u) v (overwrite n u d) = overwrite n (u @ v) d"
  using assms by (simp add: overwrite_def ac_simps)

lemma put_ptr_text:
  assumes "fb_wf b" "v < 2 ^ 64"
  shows "\<exists>b'. put_ptr v b = Inr b' \<and> grows_by (if kMaxNumericSize \<le> fb_avail b then ''0x'' @ convertHex v else '''') b b'"
proof (cases "kMaxNumericSize \<le> fb_avail b")
  case True
  have len: "length (convertHex v) \<le> 16" using length_convertHex [of v 16] assms(2) by simp
  let ?h = "convertHex v @ [CHR 0x00]"
  have room: "fb_cur b + 2 + length ?h \<le> length (fb_data b)"
    using True len assms(1) by (simp add: fb_avail_def fb_wf_def kMaxNumericSize_def)
  then have "overwrite (fb_cur b + 2) ?h (overwrite (fb_cur b) ''0x'' (fb_data b)) = overwrite (fb_cur b) (''0x'' @ ?h) (fb_data b)"
    using overwrite_twice [of "fb_cur b" "''0x''" ?h "fb_data b"] by simp
  then have "put_ptr v b = rbind (fb_write 0 ((''0x'' @ convertHex v) @ [CHR 0x00]) b)
      (\<lambda>b'. Inr (fb_add (length (''0x'' @ convertHex v)) b'))"
    using room True by (simp add: put_ptr_def fb_write_def)
  with numeric_text [OF assms(1) True, of "''0x'' @ convertHex v"] len True show ?thesis
    by (simp add: kMaxNumericSize_def)
qed (use assms(1) in \<open>auto simp: put_ptr_def grows_by_def\<close>)

section \<open>Sequences of insertions\<close>

datatype log_item = LogBool bool | LogInt int | LogPtr nat | LogDouble string | LogChar char
  | LogCstr "string option" | LogString string | LogFmt string

fun stream_put :: "log_item \<Rightarrow> fixed_buffer \<Rightarrow> fixed_buffer result" where
  "stream_put (LogBool v) b = put_bool v b"
| "stream_put (LogInt v) b = formatInteger v b"
| "stream_put (LogPtr v) b = put_ptr v b"
| "stream_put (LogDouble t) b = put_double t b"
| "stream_put (LogChar c) b = put_char c b"
| "stream_put (LogCstr t) b = put_cstr t b"
| "stream_put (LogString t) b = put_string t b"
| "stream_put (LogFmt t) b = put_fmt t b"

text \<open>What an item prints, whether it is a number, and the values the C++ types can hold.\<close>

fun item_text :: "log_item \<Rightarrow> string" where
  "item_text (LogBool v) = (if v then ''1'' else ''0'')"
| "item_text (LogInt v) = dec_int v"
| "item_text (LogPtr v) = ''0x'' @ convertHex v"
| "item_text (LogDouble t) = t"
| "item_text (LogChar c) = [c]"
| "item_text (LogCstr t) = (case t of Some u \<Rightarrow> u | None \<Rightarrow> ''(null)'')"
| "item_text (LogString t) = t"
| "item_text (LogFmt t) = t"

fun item_numeric :: "log_item \<Rightarrow> bool" where
  "item_numeric (LogInt v) = True"
| "item_numeric (LogPtr v) = True"
| "item_numeric (LogDouble t) = True"
| "item_numeric x = False"

fun item_ok :: "log_item \<Rightarrow> bool" where
  "item_ok (LogInt v) = (- (2 ^ 63) \<le> v \<and> v < 2 ^ 64)"
| "item_ok (LogPtr v) = (v < 2 ^ 64)"
| "item_ok (LogDouble t) = (length t < 32)"
| "item_ok (LogFmt t) = (length t < 32)"
| "item_ok x = True"

text \<open>The reference: an item is printed whole if there is room for it, else not at all.\<close>

definition log_line :: "nat \<Rightarrow> string \<Rightarrow> log_item \<Rightarrow> string" where
  "log_line n acc x =
     (if (if item_numeric x then kMaxNumericSize \<le> n - length acc else length (item_text x) < n - length acc)
      then acc @ item_text x else acc)"

lemma length_toString: "fb_wf b \<Longrightarrow> length (fb_toString b) = fb_cur b"
  by (simp add: fb_wf_def fb_toString_def fb_length_def)

lemma stream_put_plain: "\<not> item_numeric x \<Longrightarrow> item_ok x \<Longrightarrow> stream_put x b = fb_append (item_text x) b"
  by (cases x) (simp_all add: put_bool_def put_char_def put_cstr_def put_string_def put_fmt_def new_Fmt_def)

lemma stream_put_line:
  assumes "fb_wf b" "item_ok x"
  shows "\<exists>b'. stream_put x b = Inr b' \<and> fb_wf b' \<and> length (fb_data b') = length (fb_data b) \<and>
    fb_toString b' = log_line (length (fb_data b)) (fb_toString b) x"
proof -
  have room: "fb_avail b = length (fb_data b) - length (fb_toString b)"
    using length_toString [OF assms(1)] by (simp add: fb_avail_def)
  have "\<exists>b'. stream_put x b = Inr b' \<and> grows_by (if (if item_numeric x then kMaxNumericSize \<le> fb_avail b
      else length (item_text x) < fb_avail b) then item_text x else []) b b'"
  proof (cases "item_numeric x")
    case True
    then show ?thesis using assms formatInteger_text [OF assms(1)] put_ptr_text [OF assms(1)] numeric_text [OF assms(1)]
      by (cases x; cases "kMaxNumericSize \<le> fb_avail b")
        (fastforce simp: put_double_def kMaxNumericSize_def grows_by_def)+
  next
    case False
    then show ?thesis using fb_append_text [OF assms(1), of "item_text x"] stream_put_plain [OF False assms(2)] by simp
  qed
  then show ?thesis by (auto simp: grows_by_def log_line_def room)
qed

text \<open>Any sequence of insertions.\<close>

lemma stream_puts_line:
  assumes "fb_wf b" "\<forall>x\<in>set xs. item_ok x"
  shows "\<exists>b'. rfold stream_put xs b = Inr b' \<and> fb_wf b' \<and> length (fb_data b') = length (fb_data b) \<and>
    fb_toString b' = foldl (log_line (length (fb_data b))) (fb_toString b) xs"
  using assms
proof (induction xs arbitrary: b)
  case Nil
  then show ?case by simp
next
  case (Cons x xs)
  then obtain b1 where "stream_put x b = Inr b1" "fb_wf b1" "length (fb_data b1) = length (fb_data b)"
    "fb_toString b1 = log_line (length (fb_data b)) (fb_toString b) x"
    using stream_put_line [of b x] by auto
  with Cons.IH [of b1] Cons.prems show ?case by simp
qed

text \<open>A line for which there is room in any case is printed completely.\<close>

lemma log_line_fits:
  "length acc + length (concat (map item_text xs)) + kMaxNumericSize \<le> n \<Longrightarrow> foldl (log_line n) acc xs = acc @ concat (map item_text xs)"
proof (induction xs arbitrary: acc)
  case Nil
  then show ?case by simp
next
  case (Cons x xs)
  then have "log_line n acc x = acc @ item_text x" by (auto simp: log_line_def kMaxNumericSize_def)
  with Cons show ?case by simp
qed

section \<open>Properties\<close>

text \<open>\<open>convert\<close> prints every integer as its decimal numeral, the most negative values included
  (it never negates the value), and \<open>convertHex\<close> prints a hexadecimal numeral that denotes the value;
  for every 64 bit value the text and its terminating zero fit into the reserved 32 characters.\<close>

theorem convert_is_decimal:
  "convert v = dec_int v \<and> hex_value (convertHex n) = n \<and>
   (- (2 ^ 63) \<le> v \<and> v < 2 ^ 64 \<longrightarrow> length (convert v) + 1 \<le> kMaxNumericSize) \<and>
   (n < 2 ^ 64 \<longrightarrow> 2 + length (convertHex n) + 1 \<le> kMaxNumericSize)"
  using convert_dec hex_value_convertHex length_convert [of v] length_convertHex [of n 16]
  by (auto simp: kMaxNumericSize_def)

theorem convert_is_decimal_witness:
  "convert (- 9223372036854775808) = dec_int (- 9223372036854775808) \<and>
   length (convert (- 9223372036854775808)) + 1 \<le> kMaxNumericSize \<and> hex_value (convertHex 255) = 255 \<and>
   2 + length (convertHex 255) + 1 \<le> kMaxNumericSize"
proof -
  have "- (2 ^ 63) \<le> (- 9223372036854775808 :: int) \<and> (- 9223372036854775808 :: int) < 2 ^ 64" "(255 :: nat) < 2 ^ 64"
    by simp_all
  with convert_is_decimal [of "- 9223372036854775808" 255] show ?thesis by blast
qed

text \<open>C37. The stream never writes outside its array: any sequence of insertions of values of the C++
  types succeeds, one character always stays free (for \<open>debugString\<close>), and the text is the
  concatenation of the items in order, where an item for which there is no room is left out whole
  and never cut.\<close>

theorem log_stream_text:
  assumes "fb_wf b" "\<forall>x\<in>set xs. item_ok x"
  shows "\<exists>b'. rfold stream_put xs b = Inr b' \<and> fb_cur b' < length (fb_data b') \<and>
    fb_toString b' = foldl (log_line (length (fb_data b))) (fb_toString b) xs"
  using stream_puts_line [OF assms] by (auto simp: fb_wf_def)

theorem log_stream_text_witness:
  "\<exists>b. rfold stream_put [LogString ''fd='', LogInt (- 7), LogCstr None] (new_FixedBuffer 40) = Inr b \<and>
     fb_toString b = ''fd=-7(null)''"
proof -
  have "fb_wf (new_FixedBuffer 40)" by (simp add: fb_wf_def new_FixedBuffer_def)
  moreover have "\<forall>x\<in>set [LogString ''fd='', LogInt (- 7), LogCstr None]. item_ok x" by simp
  moreover have "foldl (log_line (length (fb_data (new_FixedBuffer 40)))) (fb_toString (new_FixedBuffer 40))
      [LogString ''fd='', LogInt (- 7), LogCstr None] = ''fd=-7(null)''" by code_simp
  ultimately show ?thesis
    using log_stream_text [of "new_FixedBuffer 40" "[LogString ''fd='', LogInt (- 7), LogCstr None]"] by auto
qed

end
