(* ===== verification/Async_Logging.thy ===== *)
theory Async_Logging
  imports Log_Files Log_Stream
begin

text \<open>
  Asynchronous logging (\<open>src/muduo/base/AsyncLogging.h\<close>, \<open>AsyncLogging.cc\<close>): front ends append lines to a
  current buffer, a back-end thread swaps buffers and writes them to a log file. A critical section is one
  step; between two of them the back end is at a program point, and any number of threads append.
  A \<open>unique_ptr\<close> is an option. The size of a buffer is a parameter (\<open>kLargeBuffer\<close> in the code).
\<close>

section \<open>The objects\<close>

datatype back_end =
    BkTest      \<comment> \<open>at \<open>while (running_)\<close>\<close>
  | BkLock      \<comment> \<open>before the critical section\<close>
  | BkWait      \<comment> \<open>in \<open>cond_.waitForSeconds\<close>\<close>
  | BkSwap      \<comment> \<open>woken, or buffers were waiting\<close>
  | BkWrite     \<comment> \<open>writing \<open>buffersToWrite\<close>\<close>
  | BkDone      \<comment> \<open>the thread function has returned\<close>

datatype al_event = Written string | Notice string | Dropped string

record async_logging =
  al_size :: nat                              \<comment> \<open>\<open>SIZE\<close> of the buffers\<close>
  al_running :: bool
  al_current :: "fixed_buffer option"
  al_next :: "fixed_buffer option"
  al_buffers :: "fixed_buffer list"
  al_point :: back_end                        \<comment> \<open>the back end and its local variables\<close>
  al_new1 :: "fixed_buffer option"
  al_new2 :: "fixed_buffer option"
  al_toWrite :: "fixed_buffer list"
  al_output :: log_file
  al_accepted :: "string list"                \<comment> \<open>history: the lines that fit a buffer\<close>
  al_history :: "al_event list"               \<comment> \<open>history: what became of the buffers\<close>

section \<open>Front end\<close>

definition al_notify :: "async_logging \<Rightarrow> async_logging" where
  "al_notify s = (if al_point s = BkWait then s\<lparr>al_point := BkSwap\<rparr> else s)"

definition al_append :: "string \<Rightarrow> async_logging \<Rightarrow> async_logging result" where
  "al_append logline s =
     (case al_current s of None \<Rightarrow> Inl UseAfterFree
      | Some cur \<Rightarrow>
          if length logline < fb_avail cur
          then rbind (fb_append logline cur) (\<lambda>cur'.
                 Inr (s\<lparr>al_current := Some cur', al_accepted := al_accepted s @ [logline]\<rparr>))
          else let fresh = (case al_next s of Some b \<Rightarrow> b | None \<Rightarrow> new_FixedBuffer (al_size s)) in
               rbind (fb_append logline fresh) (\<lambda>cur'.
                 Inr (al_notify (s\<lparr>al_buffers := al_buffers s @ [cur], al_next := None, al_current := Some cur',
                   al_accepted := al_accepted s @ (if length logline < fb_avail fresh then [logline] else [])\<rparr>))))"

definition al_stop :: "async_logging \<Rightarrow> async_logging" where
  "al_stop s = al_notify (s\<lparr>al_running := False\<rparr>)"

section \<open>Back end\<close>

definition al_test :: "async_logging \<Rightarrow> async_logging result" where
  "al_test s =
     (if al_running s
      then assert_ok (case al_new1 s of Some b \<Rightarrow> fb_length b = 0 | None \<Rightarrow> False)
          (assert_ok (case al_new2 s of Some b \<Rightarrow> fb_length b = 0 | None \<Rightarrow> False)
            (assert_ok (al_toWrite s = []) (Inr (s\<lparr>al_point := BkLock\<rparr>))))
      else rbind (lf_flush (al_output s)) (\<lambda>out. Inr (s\<lparr>al_output := out, al_point := BkDone\<rparr>)))"

definition al_lock :: "async_logging \<Rightarrow> async_logging" where
  "al_lock s = s\<lparr>al_point := (if al_buffers s = [] then BkWait else BkSwap)\<rparr>"

text \<open>The rest of the critical section; moving from a null pointer would leave a null buffer in the vector.\<close>

definition al_swap :: "async_logging \<Rightarrow> async_logging result" where
  "al_swap s =
     (case al_current s of None \<Rightarrow> Inl UseAfterFree
      | Some cur \<Rightarrow>
          let s1 = s\<lparr>al_toWrite := al_buffers s @ [cur], al_buffers := al_toWrite s, al_current := al_new1 s, al_new1 := None, al_point := BkWrite\<rparr>
          in Inr (if al_next s1 = None then s1\<lparr>al_next := al_new2 s1, al_new2 := None\<rparr> else s1))"

text \<open>The notice written instead of the buffers that are thrown away.\<close>

definition drop_notice :: "Timestamp \<Rightarrow> nat \<Rightarrow> string" where
  "drop_notice ts n = snprintf_text 256
     (''Dropped log messages at '' @ toFormattedString True ts @ '', '' @ dec_nat n @ '' larger buffers'' @ [CHR 0x0A])"

text \<open>\<open>output.append\<close>, with the times its calls read.\<close>

definition al_put :: "log_os \<Rightarrow> nat list \<times> int \<times> int \<Rightarrow> (string \<Rightarrow> al_event) \<Rightarrow> string \<Rightarrow> async_logging \<Rightarrow> async_logging result" where
  "al_put os io ev str s =
     (case io of (caps, now, now') \<Rightarrow>
        rbind (lf_append os caps now now' str (al_output s)) (\<lambda>out.
          Inr (s\<lparr>al_output := out, al_history := al_history s @ [ev str]\<rparr>)))"

text \<open>More than 25 buffers: all but the first two are erased; the result names them.\<close>

definition al_drop :: "log_os \<Rightarrow> nat list \<times> int \<times> int \<Rightarrow> Timestamp \<Rightarrow> async_logging \<Rightarrow> (fixed_buffer list \<times> async_logging) result" where
  "al_drop os io ts s =
     (if 25 < length (al_toWrite s)
      then rbind (al_put os io Notice (drop_notice ts (length (al_toWrite s) - 2)) s) (\<lambda>s1.
             Inr (drop 2 (al_toWrite s1), s1\<lparr>al_toWrite := take 2 (al_toWrite s1)\<rparr>))
      else Inr ([], s))"

text \<open>A missing spare buffer is taken from the end of \<open>buffersToWrite\<close> and reset.\<close>

definition refill1 :: "async_logging \<Rightarrow> async_logging result" where
  "refill1 s =
     (if al_new1 s = None
      then assert_ok (al_toWrite s \<noteq> [])
        (Inr (s\<lparr>al_new1 := Some (fb_reset (last (al_toWrite s))), al_toWrite := butlast (al_toWrite s)\<rparr>))
      else Inr s)"

definition refill2 :: "async_logging \<Rightarrow> async_logging result" where
  "refill2 s =
     (if al_new2 s = None
      then assert_ok (al_toWrite s \<noteq> [])
        (Inr (s\<lparr>al_new2 := Some (fb_reset (last (al_toWrite s))), al_toWrite := butlast (al_toWrite s)\<rparr>))
      else Inr s)"

text \<open>
  From the end of the critical section to the end of the loop body; \<open>io\<close> gives the results of the system calls
  for each text that is written.
\<close>

definition al_write :: "log_os \<Rightarrow> (string \<Rightarrow> nat list \<times> int \<times> int) \<Rightarrow> Timestamp \<Rightarrow> async_logging \<Rightarrow> async_logging result" where
  "al_write os io ts s =
     assert_ok (al_toWrite s \<noteq> [])
       (rbind (al_drop os (io '''') ts s) (\<lambda>(dropped, s1).
        rbind (rfold (\<lambda>b. al_put os (io (fb_toString b)) Written (fb_toString b)) (al_toWrite s1) s1) (\<lambda>s2.
        rbind (refill1 (s2\<lparr>al_toWrite := take 2 (al_toWrite s2), al_history := al_history s2 @ map (Dropped \<circ> fb_toString) dropped\<rparr>)) (\<lambda>s3.
        rbind (refill2 s3) (\<lambda>s4.
        rbind (lf_flush (al_output s4)) (\<lambda>out.
          Inr (s4\<lparr>al_toWrite := [], al_output := out, al_point := BkTest\<rparr>)))))))"

text \<open>
  Construction, \<open>start\<close> and the first lines of \<open>threadFunc\<close>: when \<open>start\<close> returns, the latch has been counted down
  and the back end has its two spare buffers.
\<close>

definition new_AsyncLogging :: "nat \<Rightarrow> log_file \<Rightarrow> async_logging" where
  "new_AsyncLogging n out =
     \<lparr>al_size = n, al_running = True, al_current = Some (new_FixedBuffer n), al_next = Some (new_FixedBuffer n), al_buffers = [],
      al_point = BkTest, al_new1 = Some (new_FixedBuffer n), al_new2 = Some (new_FixedBuffer n), al_toWrite = [],
      al_output = out, al_accepted = [], al_history = []\<rparr>"

section \<open>Interleaving\<close>

text \<open>One action of a front end, of the owner, or of the back end at its program point.\<close>

datatype al_action =
    FrontAppend string
  | OwnerStop
  | BackStep
  | BackTimeout                                     \<comment> \<open>\<open>waitForSeconds\<close> returns without a notification\<close>
  | BackWrite "string \<Rightarrow> nat list \<times> int \<times> int" Timestamp

definition al_act :: "log_os \<Rightarrow> al_action \<Rightarrow> async_logging \<Rightarrow> async_logging result option" where
  "al_act os a s =
     (case a of
        FrontAppend line \<Rightarrow> Some (al_append line s)
      | OwnerStop \<Rightarrow> Some (Inr (al_stop s))
      | BackTimeout \<Rightarrow> if al_point s = BkWait then Some (Inr (s\<lparr>al_point := BkSwap\<rparr>)) else None
      | BackWrite io ts \<Rightarrow> if al_point s = BkWrite then Some (al_write os io ts s) else None
      | BackStep \<Rightarrow>
          (case al_point s of BkTest \<Rightarrow> Some (al_test s) | BkLock \<Rightarrow> Some (Inr (al_lock s)) | BkSwap \<Rightarrow> Some (al_swap s)
           | _ \<Rightarrow> None))"

fun al_run :: "log_os \<Rightarrow> al_action list \<Rightarrow> async_logging \<Rightarrow> async_logging result option" where
  "al_run os [] s = Some (Inr s)"
| "al_run os (a # as) s =
     (case al_act os a s of None \<Rightarrow> None | Some (Inl e) \<Rightarrow> Some (Inl e) | Some (Inr s') \<Rightarrow> al_run os as s')"

section \<open>Invariant\<close>

definition buf_ok :: "nat \<Rightarrow> fixed_buffer \<Rightarrow> bool" where
  "buf_ok n b \<longleftrightarrow> fb_wf b \<and> length (fb_data b) = n"

definition spare_ok :: "nat \<Rightarrow> fixed_buffer \<Rightarrow> bool" where
  "spare_ok n b \<longleftrightarrow> buf_ok n b \<and> fb_length b = 0"

text \<open>What the back end owns at each program point.\<close>

definition back_ok :: "async_logging \<Rightarrow> bool" where
  "back_ok s \<longleftrightarrow>
     (al_point s \<in> {BkTest, BkLock, BkWait, BkSwap} \<longrightarrow> al_toWrite s = [] \<and>
        (\<exists>b1 b2. al_new1 s = Some b1 \<and> spare_ok (al_size s) b1 \<and> al_new2 s = Some b2 \<and> spare_ok (al_size s) b2)) \<and>
     (al_point s = BkWrite \<longrightarrow> al_new1 s = None \<and> al_toWrite s \<noteq> [] \<and> list_all (buf_ok (al_size s)) (al_toWrite s) \<and>
        (al_new2 s = None \<longrightarrow> 2 \<le> length (al_toWrite s)) \<and> (\<forall>b. al_new2 s = Some b \<longrightarrow> spare_ok (al_size s) b)) \<and>
     (al_point s = BkDone \<longrightarrow> al_toWrite s = [])"

text \<open>What the front ends see; no spare buffer means that a full one waits, and then the back end does not sleep.\<close>

definition front_ok :: "async_logging \<Rightarrow> bool" where
  "front_ok s \<longleftrightarrow> (\<exists>cur. al_current s = Some cur \<and> buf_ok (al_size s) cur) \<and> list_all (buf_ok (al_size s)) (al_buffers s) \<and>
     (al_next s = None \<longrightarrow> al_buffers s \<noteq> []) \<and> (\<forall>b. al_next s = Some b \<longrightarrow> spare_ok (al_size s) b) \<and>
     (al_point s = BkWait \<longrightarrow> al_buffers s = [])"

text \<open>The texts that left the buffers, and those of them (and of the notices) that went to the log file.\<close>

fun handled :: "al_event list \<Rightarrow> string list" where
  "handled [] = []"
| "handled (Written t # es) = t # handled es"
| "handled (Dropped t # es) = t # handled es"
| "handled (Notice t # es) = handled es"

fun printed :: "al_event list \<Rightarrow> string list" where
  "printed [] = []"
| "printed (Written t # es) = t # printed es"
| "printed (Notice t # es) = t # printed es"
| "printed (Dropped t # es) = printed es"

definition pending :: "async_logging \<Rightarrow> string list" where
  "pending s = map fb_toString (al_toWrite s @ al_buffers s) @ (if al_current s = None then [] else [fb_toString (the (al_current s))])"

definition al_inv :: "log_os \<Rightarrow> async_logging \<Rightarrow> bool" where
  "al_inv os s \<longleftrightarrow> 0 < al_size s \<and> front_ok s \<and> back_ok s \<and> lf_inv os (al_output s) \<and>
     holds_lines (handled (al_history s) @ pending s) (al_accepted s) \<and>
     concat (lf_contents (al_output s)) = concat (printed (al_history s))"

lemma handled_append [simp]: "handled (es @ fs) = handled es @ handled fs"
  by (induction es rule: handled.induct) simp_all

lemma printed_append [simp]: "printed (es @ fs) = printed es @ printed fs"
  by (induction es rule: printed.induct) simp_all

lemma handled_dropped [simp]: "handled (map (Dropped \<circ> f) bs) = map f bs" "printed (map (Dropped \<circ> f) bs) = []"
  by (induction bs) simp_all

lemma new_buffer_ok: "0 < n \<Longrightarrow> spare_ok n (new_FixedBuffer n)" "fb_toString (new_FixedBuffer n) = ''''"
  by (simp_all add: spare_ok_def buf_ok_def new_FixedBuffer_def fb_wf_def fb_length_def fb_toString_def)

lemma fb_reset_ok: "buf_ok n b \<Longrightarrow> spare_ok n (fb_reset b)"
  by (auto simp: spare_ok_def buf_ok_def fb_reset_def fb_wf_def fb_length_def)

lemma spare_text: "spare_ok n b \<Longrightarrow> fb_toString b = ''''"
  by (simp add: spare_ok_def fb_toString_def)

lemma spare_avail: "spare_ok n b \<Longrightarrow> fb_avail b = n"
  by (simp add: spare_ok_def buf_ok_def fb_avail_def fb_length_def)

lemma buf_append:
  assumes "buf_ok n b"
  shows "\<exists>b'. fb_append str b = Inr b' \<and> buf_ok n b' \<and> fb_toString b' = fb_toString b @ (if length str < fb_avail b then str else '''')"
  using fb_append_text [of b str] assms by (auto simp: buf_ok_def grows_by_def)

lemma new_AsyncLogging_inv:
  assumes "0 < n" "lf_inv os out" "concat (lf_contents out) = ''''"
  shows "al_inv os (new_AsyncLogging n out)"
proof -
  have "holds_lines [''''] []" unfolding holds_lines_def by (rule exI [of _ "[[]]"]) simp
  then show ?thesis using assms new_buffer_ok [of n]
    by (simp add: al_inv_def new_AsyncLogging_def front_ok_def back_ok_def pending_def spare_ok_def)
qed

section \<open>The front end keeps the invariant\<close>

lemma al_cong [simp]:
  "front_ok (s\<lparr>al_running := r\<rparr>) = front_ok s" "back_ok (s\<lparr>al_running := r\<rparr>) = back_ok s" "pending (s\<lparr>al_running := r\<rparr>) = pending s"
  "front_ok (s\<lparr>al_output := out\<rparr>) = front_ok s" "back_ok (s\<lparr>al_output := out\<rparr>) = back_ok s" "pending (s\<lparr>al_output := out\<rparr>) = pending s"
  "pending (s\<lparr>al_point := p\<rparr>) = pending s"
  by (simp_all add: front_ok_def back_ok_def pending_def)

lemma holds_lines_new: "holds_lines files ls \<Longrightarrow> holds_lines (files @ ['''']) ls"
proof -
  assume "holds_lines files ls"
  then obtain parts where "files = map concat parts" "concat parts = ls" by (auto simp: holds_lines_def)
  then show ?thesis unfolding holds_lines_def by (intro exI [of _ "parts @ [[]]"]) simp
qed

lemma notify_inv:
  assumes "al_inv os s"
  shows "al_inv os (al_notify s)" "pending (al_notify s) = pending s" "al_accepted (al_notify s) = al_accepted s"
  using assms by (auto simp: al_notify_def al_inv_def front_ok_def back_ok_def pending_def)

lemma append_inv:
  assumes "al_inv os s"
  shows "\<exists>s'. al_append logline s = Inr s' \<and> al_inv os s' \<and>
    al_accepted s' = al_accepted s @ (if length logline < al_size s then [logline] else [])"
proof -
  obtain cur where cur: "al_current s = Some cur" "buf_ok (al_size s) cur" using assms by (auto simp: al_inv_def front_ok_def)
  let ?X = "handled (al_history s) @ map fb_toString (al_toWrite s @ al_buffers s)"
  have lines: "holds_lines (?X @ [fb_toString cur]) (al_accepted s)" using assms cur(1) by (simp add: al_inv_def pending_def)
  show ?thesis
  proof (cases "length logline < fb_avail cur")
    case True
    with buf_append [OF cur(2), of logline] obtain b where
      b: "fb_append logline cur = Inr b" "buf_ok (al_size s) b" "fb_toString b = fb_toString cur @ logline" by auto
    have "holds_lines (?X @ [fb_toString b]) (al_accepted s @ [logline])"
      using holds_lines_add [OF lines, of "[]" logline] b(3) by (simp only: add_last_snoc append_Nil2) simp
    moreover have "length logline < al_size s" using True cur(2) by (simp add: fb_avail_def buf_ok_def)
    ultimately show ?thesis using True cur(1) b(1,2) assms
      by (auto simp: al_append_def al_inv_def front_ok_def back_ok_def pending_def)
  next
    case False
    define fresh where "fresh = (case al_next s of Some b \<Rightarrow> b | None \<Rightarrow> new_FixedBuffer (al_size s))"
    have fresh: "spare_ok (al_size s) fresh"
      using assms new_buffer_ok(1) by (auto simp: fresh_def al_inv_def front_ok_def split: option.splits)
    then have "buf_ok (al_size s) fresh" by (simp add: spare_ok_def)
    from buf_append [OF this, of logline] spare_avail [OF fresh] spare_text [OF fresh] obtain b where
      b: "fb_append logline fresh = Inr b" "buf_ok (al_size s) b" "fb_toString b = (if length logline < al_size s then logline else '''')" by auto
    let ?acc = "al_accepted s @ (if length logline < al_size s then [logline] else [])"
    let ?s = "s\<lparr>al_buffers := al_buffers s @ [cur], al_next := None, al_current := Some b, al_accepted := ?acc, al_point := (if al_point s = BkWait then BkSwap else al_point s)\<rparr>"
    have run: "al_append logline s = Inr ?s"
      using False cur(1) b(1) spare_avail [OF fresh] by (simp add: al_append_def fresh_def [symmetric] Let_def al_notify_def)
    have "holds_lines ((?X @ [fb_toString cur]) @ [fb_toString b]) ?acc"
      using holds_lines_new [OF lines] holds_lines_add [OF holds_lines_new [OF lines], of "[]" logline] b(3)
      by (cases "length logline < al_size s") (simp_all only: add_last_snoc append_Nil2 append_Nil if_True if_False, simp_all)
    then have "holds_lines (handled (al_history s) @ pending ?s) ?acc" by (simp add: pending_def)
    moreover have "front_ok ?s" using assms b(2) cur(2) by (auto simp: al_inv_def front_ok_def)
    moreover have "back_ok ?s" using assms by (auto simp: al_inv_def back_ok_def)
    ultimately have "al_inv os ?s" using assms by (simp add: al_inv_def)
    with run show ?thesis by auto
  qed
qed

lemma stop_inv: "al_inv os s \<Longrightarrow> al_inv os (al_stop s)"
proof -
  assume "al_inv os s"
  then have "al_inv os (s\<lparr>al_running := False\<rparr>)" by (simp add: al_inv_def)
  then show ?thesis unfolding al_stop_def by (rule notify_inv)
qed

section \<open>The back end keeps the invariant\<close>

lemma test_inv:
  assumes "al_inv os s" "al_point s = BkTest"
  shows "\<exists>s'. al_test s = Inr s' \<and> al_inv os s' \<and> al_point s' = (if al_running s then BkLock else BkDone) \<and> pending s' = pending s \<and>
    al_buffers s' = al_buffers s \<and> al_current s' = al_current s \<and> al_history s' = al_history s \<and> al_running s' = al_running s \<and> al_accepted s' = al_accepted s"
proof (cases "al_running s")
  case True
  then have "al_test s = Inr (s\<lparr>al_point := BkLock\<rparr>)"
    using assms by (auto simp: al_test_def al_inv_def back_ok_def spare_ok_def)
  moreover have "front_ok (s\<lparr>al_point := BkLock\<rparr>)" "back_ok (s\<lparr>al_point := BkLock\<rparr>)"
    using assms by (auto simp: al_inv_def front_ok_def back_ok_def)
  ultimately show ?thesis using assms True by (simp add: al_inv_def)
next
  case False
  have "lf_inv os (al_output s)" using assms(1) by (simp add: al_inv_def)
  from lf_flush_ok [OF this] obtain out where
    out: "lf_flush (al_output s) = Inr out" "lf_inv os out" "lf_contents out = lf_contents (al_output s)" by blast
  have "front_ok (s\<lparr>al_output := out, al_point := BkDone\<rparr>)" "back_ok (s\<lparr>al_output := out, al_point := BkDone\<rparr>)"
    using assms by (auto simp: al_inv_def front_ok_def back_ok_def)
  then show ?thesis using False assms out by (simp add: al_test_def al_inv_def)
qed

lemma lock_inv:
  assumes "al_inv os s" "al_point s = BkLock"
  shows "al_inv os (al_lock s)"
  using assms by (auto simp: al_lock_def al_inv_def back_ok_def front_ok_def pending_def)

lemma wake_inv:
  assumes "al_inv os s" "al_point s = BkWait"
  shows "al_inv os (s\<lparr>al_point := BkSwap\<rparr>)"
  using assms by (auto simp: al_inv_def back_ok_def front_ok_def pending_def)

lemma swap_inv:
  assumes "al_inv os s" "al_point s = BkSwap"
  shows "\<exists>s' b. al_swap s = Inr s' \<and> al_inv os s' \<and> al_point s' = BkWrite \<and> al_buffers s' = [] \<and> al_current s' = Some b \<and>
    fb_length b = 0 \<and> al_running s' = al_running s \<and> al_accepted s' = al_accepted s"
proof -
  obtain cur b1 b2 where s: "al_current s = Some cur" "buf_ok (al_size s) cur" "al_toWrite s = []"
    "al_new1 s = Some b1" "spare_ok (al_size s) b1" "al_new2 s = Some b2" "spare_ok (al_size s) b2"
    using assms by (auto simp: al_inv_def back_ok_def front_ok_def)
  have lines: "holds_lines (handled (al_history s) @ map fb_toString (al_buffers s @ [cur]) @ ['''']) (al_accepted s)"
    using holds_lines_new [of "handled (al_history s) @ pending s"] assms(1) s(1,3) by (simp add: al_inv_def pending_def)
  let ?s1 = "s\<lparr>al_toWrite := al_buffers s @ [cur], al_buffers := [], al_current := Some b1, al_new1 := None, al_point := BkWrite\<rparr>"
  let ?s2 = "if al_next s = None then ?s1\<lparr>al_next := Some b2, al_new2 := None\<rparr> else ?s1"
  have run: "al_swap s = Inr ?s2" using s by (simp add: al_swap_def Let_def)
  have "front_ok ?s2" "back_ok ?s2"
    using assms(1) s by (auto simp: al_inv_def front_ok_def back_ok_def spare_ok_def Suc_le_eq)
  moreover have "holds_lines (handled (al_history ?s2) @ pending ?s2) (al_accepted ?s2)"
    using lines spare_text [OF s(5)] by (simp add: pending_def)
  ultimately have "al_inv os ?s2" using assms(1) by (simp add: al_inv_def)
  with run s(5) show ?thesis by (auto simp: spare_ok_def)
qed

definition io_ok :: "nat list \<times> int \<times> int \<Rightarrow> bool" where
  "io_ok io \<longleftrightarrow> (case io of (caps, now, now') \<Rightarrow> tz_range now' \<and> (\<forall>n\<in>set caps. 0 < n))"

lemma concat_add_last: "xs \<noteq> [] \<Longrightarrow> concat (add_last x xs) = concat xs @ x"
  by (cases xs rule: rev_cases) simp_all

lemma concat_map_concat: "concat (map concat parts) = concat (concat parts)"
  by (induction parts) simp_all

lemma put_ok:
  assumes "lf_inv os (al_output s)" "io_ok io" "\<And>n. os_fopen os n"
  shows "\<exists>out. al_put os io ev str s = Inr (s\<lparr>al_output := out, al_history := al_history s @ [ev str]\<rparr>) \<and> lf_inv os out \<and>
    concat (lf_contents out) = concat (lf_contents (al_output s)) @ str"
proof -
  obtain caps now now' where io: "io = (caps, now, now')" by (cases io) auto
  with assms(2) have ok: "tz_range now'" "\<forall>n\<in>set caps. 0 < n" by (simp_all add: io_ok_def)
  from lf_append_ok [OF assms(1) ok(1) assms(3) ok(2), of now str] obtain out new where
    out: "lf_append os caps now now' str (al_output s) = Inr out" "lf_inv os out"
    "lf_contents out = add_last str (lf_contents (al_output s)) @ new" "new = [] \<or> new = ['''']" by blast
  have "lf_contents (al_output s) \<noteq> []" using assms(1) by (auto elim: lf_invE)
  then have "concat (lf_contents out) = concat (lf_contents (al_output s)) @ str"
    using out(3,4) concat_add_last [of "lf_contents (al_output s)" str] by auto
  with out(1,2) io show ?thesis by (auto simp: al_put_def)
qed

lemma puts_ok:
  assumes "lf_inv os (al_output s)" "\<And>t. io_ok (io t)" "\<And>n. os_fopen os n"
  shows "\<exists>out. rfold (\<lambda>b. al_put os (io (fb_toString b)) Written (fb_toString b)) bs s =
      Inr (s\<lparr>al_output := out, al_history := al_history s @ map (Written \<circ> fb_toString) bs\<rparr>) \<and> lf_inv os out \<and>
    concat (lf_contents out) = concat (lf_contents (al_output s)) @ concat (map fb_toString bs)"
  using assms(1)
proof (induction bs arbitrary: s)
  case Nil
  then show ?case by (intro exI [of _ "al_output s"]) simp
next
  case (Cons b bs)
  from put_ok [OF Cons.prems assms(2,3), of "fb_toString b" Written "fb_toString b"] obtain out where
    1: "al_put os (io (fb_toString b)) Written (fb_toString b) s = Inr (s\<lparr>al_output := out, al_history := al_history s @ [Written (fb_toString b)]\<rparr>)"
    "lf_inv os out" "concat (lf_contents out) = concat (lf_contents (al_output s)) @ fb_toString b" by blast
  from Cons.IH [of "s\<lparr>al_output := out, al_history := al_history s @ [Written (fb_toString b)]\<rparr>"] 1 show ?case by auto
qed

lemma refill_ok:
  assumes "al_new1 s = None" "al_toWrite s \<noteq> []" "list_all (buf_ok n) (al_toWrite s)"
    "al_new2 s = None \<Longrightarrow> 2 \<le> length (al_toWrite s)" "\<And>b. al_new2 s = Some b \<Longrightarrow> spare_ok n b"
  shows "\<exists>b1 b2 w. rbind (refill1 s) refill2 = Inr (s\<lparr>al_new1 := Some b1, al_new2 := Some b2, al_toWrite := w\<rparr>) \<and>
    spare_ok n b1 \<and> spare_ok n b2"
proof -
  let ?w = "butlast (al_toWrite s)"
  let ?b1 = "fb_reset (last (al_toWrite s))"
  have b1: "spare_ok n ?b1" using assms(2,3) by (intro fb_reset_ok) (auto simp: list_all_iff)
  show ?thesis
  proof (cases "al_new2 s")
    case None
    then have "?w \<noteq> []" using assms(4) by (cases "al_toWrite s" rule: rev_cases) auto
    moreover have "spare_ok n (fb_reset (last ?w))"
      using calculation assms(3) by (intro fb_reset_ok) (auto simp: list_all_iff dest: in_set_butlastD last_in_set)
    ultimately show ?thesis
      using assms(1,2) None b1 by (intro exI [of _ ?b1] exI [of _ "fb_reset (last ?w)"] exI [of _ "butlast ?w"]) (simp add: refill1_def refill2_def)
  next
    case (Some b2)
    then show ?thesis
      using assms(1,2,5) b1 by (intro exI [of _ ?b1] exI [of _ b2] exI [of _ ?w]) (simp add: refill1_def refill2_def)
  qed
qed

lemma drop_ok:
  assumes "lf_inv os (al_output s)" "io_ok io" "\<And>n. os_fopen os n"
  shows "\<exists>k out notices. al_drop os io ts s = Inr (drop k (al_toWrite s),
      s\<lparr>al_output := out, al_history := al_history s @ map Notice notices, al_toWrite := take k (al_toWrite s)\<rparr>) \<and>
    lf_inv os out \<and> concat (lf_contents out) = concat (lf_contents (al_output s)) @ concat notices \<and> (2 \<le> k \<or> length (al_toWrite s) \<le> k)"
proof (cases "25 < length (al_toWrite s)")
  case True
  then show ?thesis
    using put_ok [OF assms, of Notice "drop_notice ts (length (al_toWrite s) - 2)"]
    by (auto simp: al_drop_def intro!: exI [of _ 2] exI [of _ "[drop_notice ts (length (al_toWrite s) - 2)]"])
next
  case False
  then show ?thesis using assms(1)
    by (intro exI [of _ "length (al_toWrite s)"] exI [of _ "al_output s"] exI [of _ "[]"]) (simp add: al_drop_def)
qed

lemma handled_written [simp]: "handled (map (Written \<circ> f) bs) = map f bs" "printed (map (Written \<circ> f) bs) = map f bs"
  by (induction bs) simp_all

lemma handled_notice [simp]: "handled (map Notice ns) = []" "printed (map Notice ns) = ns"
  by (induction ns) simp_all

lemma write_inv:
  assumes "al_inv os s" "al_point s = BkWrite" "\<And>t. io_ok (io t)" "\<And>n. os_fopen os n"
  shows "\<exists>s' f. al_write os io ts s = Inr s' \<and> al_inv os s' \<and> al_point s' = BkTest \<and> al_buffers s' = al_buffers s \<and>
    al_current s' = al_current s \<and> al_running s' = al_running s \<and> al_accepted s' = al_accepted s \<and>
    handled (al_history s') = handled (al_history s) @ map fb_toString (al_toWrite s) \<and>
    lf_file (al_output s') = Some f \<and> af_buffer f = ''''"
proof -
  let ?n = "al_size s" and ?W = "al_toWrite s"
  have s: "al_new1 s = None" "?W \<noteq> []" "list_all (buf_ok ?n) ?W" "al_new2 s = None \<Longrightarrow> 2 \<le> length ?W"
    "\<And>b. al_new2 s = Some b \<Longrightarrow> spare_ok ?n b" "lf_inv os (al_output s)"
    using assms(1,2) by (auto simp: al_inv_def back_ok_def)
  obtain k out1 notices where
    1: "al_drop os (io '''') ts s = Inr (drop k ?W, s\<lparr>al_output := out1, al_history := al_history s @ map Notice notices, al_toWrite := take k ?W\<rparr>)"
    "lf_inv os out1" "concat (lf_contents out1) = concat (lf_contents (al_output s)) @ concat notices" "2 \<le> k \<or> length ?W \<le> k"
    using drop_ok [OF s(6) assms(3,4)] by blast
  define s1 where "s1 = s\<lparr>al_output := out1, al_history := al_history s @ map Notice notices, al_toWrite := take k ?W\<rparr>"
  obtain out2 where
    2: "rfold (\<lambda>b. al_put os (io (fb_toString b)) Written (fb_toString b)) (al_toWrite s1) s1 =
      Inr (s1\<lparr>al_output := out2, al_history := al_history s1 @ map (Written \<circ> fb_toString) (take k ?W)\<rparr>)"
    "lf_inv os out2" "concat (lf_contents out2) = concat (lf_contents out1) @ concat (map fb_toString (take k ?W))"
    using puts_ok [of os s1 io "al_toWrite s1"] 1(2) assms(3,4) by (auto simp: s1_def)
  have w1: "al_toWrite s1 = take k ?W" by (simp add: s1_def)
  define s2 where "s2 = s1\<lparr>al_output := out2, al_history := (al_history s1 @ map (Written \<circ> fb_toString) (take k ?W)) @ map (Dropped \<circ> fb_toString) (drop k ?W),
    al_toWrite := take 2 (al_toWrite s1)\<rparr>"
  have "0 < k" using 1(4) s(2) by (cases k) auto
  then have "take 2 (take k ?W) \<noteq> []" "list_all (buf_ok ?n) (take 2 (take k ?W))" "al_new2 s = None \<Longrightarrow> 2 \<le> length (take 2 (take k ?W))"
    using s(2-4) 1(4) by (auto simp: list_all_iff dest!: in_set_takeD)
  with refill_ok [of s2 ?n] s(1,5) obtain b1 b2 w where
    3: "rbind (refill1 s2) refill2 = Inr (s2\<lparr>al_new1 := Some b1, al_new2 := Some b2, al_toWrite := w\<rparr>)" "spare_ok ?n b1" "spare_ok ?n b2"
    by (auto simp: s2_def s1_def)
  obtain out f where 4: "lf_flush out2 = Inr out" "lf_inv os out" "lf_contents out = lf_contents out2" "lf_file out = Some f" "af_buffer f = ''''"
    using lf_flush_ok [OF 2(2)] by blast
  define s' where "s' = s2\<lparr>al_new1 := Some b1, al_new2 := Some b2, al_toWrite := [], al_output := out, al_point := BkTest\<rparr>"
  obtain t where t: "refill1 s2 = Inr t" "refill2 t = Inr (s2\<lparr>al_new1 := Some b1, al_new2 := Some b2, al_toWrite := w\<rparr>)"
    using 3(1) by (auto simp: rbind_Inr_iff)
  have run: "al_write os io ts s = Inr s'"
  proof -
    have step: "s1\<lparr>al_output := out2, al_history := al_history s1 @ map (Written \<circ> fb_toString) (take k ?W), al_toWrite := take 2 (al_toWrite s1),
      al_history := (al_history s1 @ map (Written \<circ> fb_toString) (take k ?W)) @ map (Dropped \<circ> fb_toString) (drop k ?W)\<rparr> = s2"
      by (simp add: s2_def)
    have "al_output s2 = out2" by (simp add: s2_def)
    then show ?thesis
      unfolding al_write_def using s(2) 4(1)
      by (simp add: 1(1) [folded s1_def] 2(1) step [simplified] t s'_def del: take_take)
  qed
  have H: "handled (al_history s') = handled (al_history s) @ map fb_toString ?W"
    "printed (al_history s') = printed (al_history s) @ notices @ map fb_toString (take k ?W)"
    by (simp_all add: s'_def s2_def s1_def flip: map_append)
  have "front_ok s'" "back_ok s'"
    using assms(1,2) 3(2,3) by (auto simp: al_inv_def front_ok_def back_ok_def s'_def s2_def s1_def)
  moreover have "handled (al_history s') @ pending s' = handled (al_history s) @ pending s"
    unfolding H by (simp add: pending_def s'_def s2_def s1_def)
  moreover have "concat (lf_contents (al_output s')) = concat (printed (al_history s'))"
    unfolding H using assms(1) 1(3) 2(3) 4(3) by (simp add: al_inv_def s'_def)
  ultimately have "al_inv os s'"
    using assms(1) 4(2) by (simp add: al_inv_def s'_def s2_def s1_def)
  with run H(1) 4(4,5) show ?thesis by (auto simp: s'_def s2_def s1_def)
qed

definition act_ok :: "al_action \<Rightarrow> bool" where
  "act_ok a \<longleftrightarrow> (case a of BackWrite io ts \<Rightarrow> \<forall>t. io_ok (io t) | _ \<Rightarrow> True)"

lemma act_inv:
  assumes "al_inv os s" "al_act os a s = Some r" "act_ok a" "\<And>n. os_fopen os n"
  shows "\<exists>s'. r = Inr s' \<and> al_inv os s'"
proof (cases a)
  case (FrontAppend line)
  then show ?thesis using assms(2) append_inv [OF assms(1), of line] by (auto simp: al_act_def)
next
  case OwnerStop
  then show ?thesis using assms(2) stop_inv [OF assms(1)] by (auto simp: al_act_def)
next
  case BackStep
  then show ?thesis
    using assms(2) test_inv [OF assms(1)] lock_inv [OF assms(1)] swap_inv [OF assms(1)]
    by (cases "al_point s") (fastforce simp: al_act_def)+
next
  case BackTimeout
  then show ?thesis using assms(2) wake_inv [OF assms(1)] by (auto simp: al_act_def split: if_splits)
next
  case (BackWrite io ts)
  then show ?thesis using assms write_inv [OF assms(1), where io = io and ts = ts] by (auto simp: al_act_def act_ok_def split: if_splits)
qed

lemma run_inv:
  assumes "al_run os acts s = Some r" "al_inv os s" "\<forall>a\<in>set acts. act_ok a" "\<And>n. os_fopen os n"
  shows "\<exists>s'. r = Inr s' \<and> al_inv os s'"
  using assms(1-3)
proof (induction acts arbitrary: s)
  case (Cons a acts)
  then obtain r1 where r1: "al_act os a s = Some r1" by (auto split: option.splits)
  with act_inv [OF Cons.prems(2) r1 _ assms(4)] Cons.prems(3) obtain s1 where "r1 = Inr s1" "al_inv os s1" by auto
  with Cons r1 show ?case by auto
qed auto

text \<open>A file system and a log file for the concrete runs.\<close>

definition sample_os :: log_os where
  "sample_os = \<lparr>os_hostname = ''host'', os_pid = 7, os_fopen = (\<lambda>_. True)\<rparr>"

lemma sample_logger:
  "\<exists>out. new_LogFile sample_os ''app'' 1000 3 1 1000000000 [] = Inr out \<and> lf_inv sample_os out \<and> concat (lf_contents out) = ''''"
  using new_LogFile_ok [of "''app''" 1000000000 sample_os 1000 3 1] by (auto simp: sample_os_def tz_range_def kSecondsPerDay_def)

lemma sample_io: "io_ok ([], 1000000001, 1000000001)"
  by (simp add: io_ok_def tz_range_def kSecondsPerDay_def)

section \<open>Properties\<close>



text \<open>A round of the back end writes everything: from the head of its loop, undisturbed, it comes back there after
  at most five actions with every buffer handled, nothing pending and the file flushed.\<close>

theorem async_logging_round:
  assumes "al_inv os s" "al_point s = BkTest" "al_running s" "\<And>f. os_fopen os f" "\<And>t. io_ok (io t)"
  shows "\<exists>acts s' f. length acts \<le> 5 \<and> set acts \<subseteq> {BackStep, BackTimeout, BackWrite io ts} \<and> al_run os acts s = Some (Inr s') \<and>
    al_point s' = BkTest \<and> concat (pending s') = '''' \<and> al_accepted s' = al_accepted s \<and>
    concat (handled (al_history s')) = concat (al_accepted s) \<and> lf_file (al_output s') = Some f \<and> af_buffer f = ''''"
proof -
  obtain s1 where 1: "al_test s = Inr s1" "al_inv os s1" "al_point s1 = BkLock" "al_accepted s1 = al_accepted s"
    using test_inv [OF assms(1,2)] assms(3) by auto
  define s2 where "s2 = (al_lock s1)\<lparr>al_point := BkSwap\<rparr>"
  define wait where "wait = (if al_buffers s1 = [] then [BackTimeout] else [])"
  have "al_inv os (al_lock s1)" using lock_inv [OF 1(2,3)] .
  then have 2: "al_inv os s2" "al_point s2 = BkSwap" "al_accepted s2 = al_accepted s"
    using wake_inv [of os "al_lock s1"] 1(4) by (cases "al_buffers s1 = []"; simp add: s2_def al_lock_def)+
  have lock: "al_run os (wait @ rest) (al_lock s1) = al_run os rest s2" for rest
    by (auto simp: wait_def s2_def al_lock_def al_act_def)
  obtain s3 b where 3: "al_swap s2 = Inr s3" "al_inv os s3" "al_point s3 = BkWrite" "al_buffers s3 = []" "al_current s3 = Some b"
    "fb_length b = 0" "al_accepted s3 = al_accepted s"
    using swap_inv [OF 2(1,2)] 2(3) by auto
  obtain s4 f where 4: "al_write os io ts s3 = Inr s4" "al_inv os s4" "al_point s4 = BkTest" "al_buffers s4 = []" "al_current s4 = Some b"
    "al_accepted s4 = al_accepted s" "lf_file (al_output s4) = Some f" "af_buffer f = ''''"
    using write_inv [where io = io and ts = ts, OF 3(2,3) assms(5,4)] 3(4,5,7) by auto
  have "al_toWrite s4 = []" using 4(2,3) by (simp add: al_inv_def back_ok_def)
  then have p: "concat (pending s4) = ''''" using 4(4,5) 3(6) by (simp add: pending_def fb_toString_def)
  have "holds_lines (handled (al_history s4) @ pending s4) (al_accepted s4)" using 4(2) by (simp add: al_inv_def)
  then obtain parts where "handled (al_history s4) @ pending s4 = map concat parts" "concat parts = al_accepted s4"
    by (auto simp: holds_lines_def)
  then have "concat (handled (al_history s4) @ pending s4) = concat (al_accepted s4)"
    by (simp only: concat_map_concat)
  then have h: "concat (handled (al_history s4)) = concat (al_accepted s)" using p 4(6) by simp
  have "al_run os ([BackStep, BackStep] @ wait @ [BackStep, BackWrite io ts]) s = Some (Inr s4)"
    using 1(1,3) assms(2) lock [of "[BackStep, BackWrite io ts]"] 2(2) 3(1,3) 4(1) by (simp add: al_act_def)
  moreover have "length ([BackStep, BackStep] @ wait @ [BackStep, BackWrite io ts]) \<le> 5" by (simp add: wait_def)
  moreover have "set ([BackStep, BackStep] @ wait @ [BackStep, BackWrite io ts]) \<subseteq> {BackStep, BackTimeout, BackWrite io ts}"
    by (auto simp: wait_def)
  ultimately show ?thesis using 4(3,6-8) p h by blast
qed

theorem async_logging_round_witness:
  "\<exists>out acts s'. new_LogFile sample_os ''app'' 1000 3 1 1000000000 [] = Inr out \<and> length acts \<le> 5 \<and>
     al_run sample_os acts (new_AsyncLogging 10 out) = Some (Inr s') \<and> al_point s' = BkTest \<and> concat (pending s') = ''''"
proof -
  obtain out where out: "new_LogFile sample_os ''app'' 1000 3 1 1000000000 [] = Inr out" "lf_inv sample_os out" "concat (lf_contents out) = ''''"
    using sample_logger by blast
  have "al_inv sample_os (new_AsyncLogging 10 out)" using new_AsyncLogging_inv [OF _ out(2,3), of 10] by simp
  moreover have "al_point (new_AsyncLogging 10 out) = BkTest" "al_running (new_AsyncLogging 10 out)" by (simp_all add: new_AsyncLogging_def)
  moreover have "os_fopen sample_os f" for f by (simp add: sample_os_def)
  ultimately show ?thesis
    using async_logging_round [where io = "\<lambda>_. ([], 1000000001, 1000000001)" and os = sample_os and s = "new_AsyncLogging 10 out"] sample_io out(1) by blast
qed

text \<open>\<open>stop\<close> loses lines: when it is called while the back end writes, the thread ends after this write, and what
  was appended since the last swap stays in the buffers for ever.\<close>

theorem async_stop_loses_lines:
  assumes "al_inv os s" "al_point s = BkWrite" "\<And>f. os_fopen os f" "\<And>t. io_ok (io t)"
  shows "\<exists>s'. al_run os [OwnerStop, BackWrite io ts, BackStep] s = Some (Inr s') \<and> al_point s' = BkDone \<and>
    al_buffers s' = al_buffers s \<and> al_current s' = al_current s \<and>
    handled (al_history s') = handled (al_history s) @ map fb_toString (al_toWrite s) \<and>
    (\<forall>a. a \<noteq> OwnerStop \<longrightarrow> (\<forall>l. a \<noteq> FrontAppend l) \<longrightarrow> al_act os a s' = None)"
proof -
  have st: "al_stop s = s\<lparr>al_running := False\<rparr>" using assms(2) by (simp add: al_stop_def al_notify_def)
  have inv: "al_inv os (s\<lparr>al_running := False\<rparr>)" using stop_inv [OF assms(1)] st by simp
  obtain s1 where 1: "al_write os io ts (s\<lparr>al_running := False\<rparr>) = Inr s1" "al_inv os s1" "al_point s1 = BkTest" "al_buffers s1 = al_buffers s"
    "al_current s1 = al_current s" "\<not> al_running s1" "handled (al_history s1) = handled (al_history s) @ map fb_toString (al_toWrite s)"
    using write_inv [where io = io and ts = ts, OF inv _ assms(4,3)] assms(2) by auto
  obtain s2 where 2: "al_test s1 = Inr s2" "al_point s2 = BkDone" "al_buffers s2 = al_buffers s" "al_current s2 = al_current s"
    "al_history s2 = al_history s1"
    using test_inv [OF 1(2,3)] 1(4-6) by auto
  have "al_act os a s2 = None" if "a \<noteq> OwnerStop" "\<forall>l. a \<noteq> FrontAppend l" for a
    using that 2(2) by (cases a) (simp_all add: al_act_def)
  then show ?thesis using st 1 2 assms(2) by (simp add: al_act_def)
qed

theorem async_stop_loses_lines_witness:
  "\<exists>s s' cur. al_current s = Some cur \<and> fb_toString cur = ''lost'' \<and>
     al_run sample_os [OwnerStop, BackWrite (\<lambda>_. ([], 1000000001, 1000000001)) (Timestamp 0), BackStep] s = Some (Inr s') \<and>
     al_point s' = BkDone \<and> al_current s' = Some cur"
proof -
  obtain out where out: "lf_inv sample_os out" "concat (lf_contents out) = ''''" using sample_logger by blast
  let ?acts = "[FrontAppend ''kept'', BackStep, BackStep, BackTimeout, BackStep, FrontAppend ''lost'']"
  obtain s cur where s: "al_run sample_os ?acts (new_AsyncLogging 10 out) = Some (Inr s)" "al_point s = BkWrite" "al_current s = Some cur"
    "fb_toString cur = ''lost''"
    by (simp add: al_act_def al_append_def al_test_def al_lock_def al_swap_def al_notify_def new_AsyncLogging_def new_FixedBuffer_def fb_avail_def
        fb_append_def fb_length_def fb_toString_def fb_write_def fb_add_def overwrite_def numeral_eq_Suc Let_def)
  have os: "os_fopen sample_os f" for f by (simp add: sample_os_def)
  have "al_inv sample_os s" using run_inv [OF s(1) new_AsyncLogging_inv [OF _ out]] os by (simp add: act_ok_def)
  from async_stop_loses_lines [where io = "\<lambda>_. ([], 1000000001, 1000000001)", OF this s(2) os sample_io] s(3,4) show ?thesis by fastforce
qed

end
