(* ===== verification/Logging.thy ===== *)
theory Logging
  imports Log_Stream Log_Files
begin

text \<open>
  Log statements (\<open>src/muduo/base/Logging.h\<close>, \<open>Logging.cc\<close>, and the thread identifiers of \<open>CurrentThread.h\<close> and \<open>Thread.cc\<close>):
  the text of a line over \<open>Log_Stream\<close>, with the time of day that each thread keeps for the second it last printed,
  the levels, the system error and the abort after a fatal line. The zone conversions come from \<open>Time_Zone\<close>. The clock,
  the number of the thread, \<open>errno\<close> and the text of \<open>strerror_r\<close> are arguments; what \<open>g_output\<close> received is part of the state.
  Shown: every enabled statement outputs exactly its line, also when the thread reuses the cached time of day, and only
  a fatal one aborts; a line that fills the buffer loses its end.
\<close>

section \<open>Levels and source files\<close>

datatype LogLevel = TRACE | DEBUG | INFO | WARN | ERROR | FATAL

fun level_num :: "LogLevel \<Rightarrow> nat" where
  "level_num TRACE = 0" | "level_num DEBUG = 1" | "level_num INFO = 2" | "level_num WARN = 3" | "level_num ERROR = 4" | "level_num FATAL = 5"

definition LogLevelName :: "LogLevel \<Rightarrow> string" where
  "LogLevelName level = [''TRACE '', ''DEBUG '', ''INFO  '', ''WARN  '', ''ERROR '', ''FATAL ''] ! level_num level"

definition initLogLevel :: "bool \<Rightarrow> bool \<Rightarrow> LogLevel" where
  "initLogLevel env_trace env_debug = (if env_trace then TRACE else if env_debug then DEBUG else INFO)"

text \<open>\<open>strrchr\<close>: the index of the last occurrence.\<close>

fun strrchr :: "string \<Rightarrow> char \<Rightarrow> nat option" where
  "strrchr [] c = None"
| "strrchr (x # xs) c = (case strrchr xs c of Some i \<Rightarrow> Some (Suc i) | None \<Rightarrow> if x = c then Some 0 else None)"

definition SourceFile :: "string \<Rightarrow> string" where
  "SourceFile arr = (case strrchr arr (CHR ''/'') of Some slash \<Rightarrow> drop (slash + 1) arr | None \<Rightarrow> arr)"

section \<open>The variables of a thread and of the process\<close>

record log_thread =
  t_time :: string
  t_lastSecond :: int
  t_cachedTid :: int
  t_tidString :: string
  t_tidStringLength :: nat

definition new_log_thread :: log_thread where
  "new_log_thread = \<lparr>t_time = '''', t_lastSecond = 0, t_cachedTid = 0, t_tidString = '''', t_tidStringLength = 0\<rparr>"

record log_process =
  g_logLevel :: LogLevel
  g_logTimeZone :: time_zone
  g_written :: "string list"       \<comment> \<open>the arguments of \<open>g_output\<close>, in order\<close>
  g_flushed :: bool                \<comment> \<open>\<open>g_flush\<close> was called after the last output\<close>
  g_aborted :: bool

definition setLogLevel :: "LogLevel \<Rightarrow> log_process \<Rightarrow> log_process" where
  "setLogLevel level g = g\<lparr>g_logLevel := level\<rparr>"

definition setTimeZone :: "time_zone \<Rightarrow> log_process \<Rightarrow> log_process" where
  "setTimeZone tz g = g\<lparr>g_logTimeZone := tz\<rparr>"

definition tid_text :: "int \<Rightarrow> string" where
  "tid_text tid = pad (CHR '' '') 5 (dec_int tid) @ '' ''"

definition cacheTid :: "int \<Rightarrow> log_thread \<Rightarrow> log_thread" where
  "cacheTid gettid th =
     (if t_cachedTid th = 0
      then th\<lparr>t_cachedTid := gettid, t_tidString := snprintf_text 32 (tid_text gettid), t_tidStringLength := length (tid_text gettid)\<rparr>
      else th)"

definition current_tid :: "int \<Rightarrow> log_thread \<Rightarrow> log_thread" where
  "current_tid gettid th = (if t_cachedTid th = 0 then cacheTid gettid th else th)"

section \<open>Logger\<close>

text \<open>\<open>T\<close>, a string whose length the caller claims to know.\<close>

definition put_T :: "string \<Rightarrow> nat \<Rightarrow> fixed_buffer \<Rightarrow> fixed_buffer result" where
  "put_T str len b = assert_ok (length str = len) (fb_append str b)"

definition log_tm :: "time_zone \<Rightarrow> int \<Rightarrow> tm result" where
  "log_tm z seconds = (if tz_valid z then toLocalTime z seconds else Inr (gmtime_r seconds))"

definition stamp_text :: "tm \<Rightarrow> string" where
  "stamp_text t = date_text t @ '' '' @ clock_text t"

definition refresh_time :: "time_zone \<Rightarrow> int \<Rightarrow> log_thread \<Rightarrow> log_thread result" where
  "refresh_time z seconds th =
     (if seconds \<noteq> t_lastSecond th then
        rbind (log_tm z seconds) (\<lambda>tm_time.
          assert_ok (length (stamp_text tm_time) = 17) (Inr (th\<lparr>t_lastSecond := seconds, t_time := snprintf_text 32 (stamp_text tm_time)\<rparr>)))
      else Inr th)"

definition micro_text :: "time_zone \<Rightarrow> int \<Rightarrow> string" where
  "micro_text z microseconds = ''.'' @ zero_padded 6 microseconds @ (if tz_valid z then '' '' else ''Z '')"

definition formatTime :: "time_zone \<Rightarrow> Timestamp \<Rightarrow> log_thread \<Rightarrow> fixed_buffer \<Rightarrow> (log_thread \<times> fixed_buffer) result" where
  "formatTime z when th b =
     (let seconds = cdiv (microSecondsSinceEpoch when) kMicroSecondsPerSecond;
          microseconds = i32 (Muduo_Prelude.cmod (microSecondsSinceEpoch when) kMicroSecondsPerSecond);
          len = (if tz_valid z then 8 else 9)
      in rbind (refresh_time z seconds th) (\<lambda>th1.
         rbind (new_Fmt (micro_text z microseconds)) (\<lambda>us.
           assert_ok (length us = len)
             (rbind (put_T (t_time th1) 17 b) (\<lambda>b1. rbind (put_T us len b1) (\<lambda>b2. Inr (th1, b2)))))))"

record log_impl =
  im_stream :: fixed_buffer
  im_level :: LogLevel
  im_line :: int
  im_basename :: string

text \<open>What a statement finds: the clock, \<open>errno\<close> and its text, the number of the thread.\<close>

record log_env =
  le_now :: Timestamp
  le_errno :: int
  le_strerror :: string
  le_gettid :: int

definition new_Impl :: "time_zone \<Rightarrow> log_env \<Rightarrow> LogLevel \<Rightarrow> int \<Rightarrow> string \<Rightarrow> int \<Rightarrow> log_thread \<Rightarrow> (log_thread \<times> log_impl) result" where
  "new_Impl z env level savedErrno file line th =
     rbind (formatTime z (le_now env) th (new_FixedBuffer kSmallBuffer)) (\<lambda>(th1, b1).
       let th2 = current_tid (le_gettid env) th1 in
       rbind (put_T (t_tidString th2) (t_tidStringLength th2) b1) (\<lambda>b2.
       rbind (put_T (LogLevelName level) 6 b2) (\<lambda>b3.
       rbind (if savedErrno \<noteq> 0
              then rfold stream_put [LogCstr (Some (le_strerror env)), LogCstr (Some '' (errno=''), LogInt savedErrno, LogCstr (Some '') '')] b3
              else Inr b3) (\<lambda>b4.
         Inr (th2, \<lparr>im_stream = b4, im_level = level, im_line = line, im_basename = SourceFile file\<rparr>)))))"

definition finish :: "log_impl \<Rightarrow> log_impl result" where
  "finish im =
     rbind (rfold stream_put [LogCstr (Some '' - ''), LogString (im_basename im), LogChar (CHR '':''), LogInt (im_line im), LogChar (CHR 0x0A)] (im_stream im))
       (\<lambda>b. Inr (im\<lparr>im_stream := b\<rparr>))"

text \<open>The four constructors and the destructor.\<close>

definition new_Logger :: "time_zone \<Rightarrow> log_env \<Rightarrow> string \<Rightarrow> int \<Rightarrow> log_thread \<Rightarrow> (log_thread \<times> log_impl) result" where
  "new_Logger z env file line th = new_Impl z env INFO 0 file line th"

definition new_Logger_func :: "time_zone \<Rightarrow> log_env \<Rightarrow> string \<Rightarrow> int \<Rightarrow> LogLevel \<Rightarrow> string \<Rightarrow> log_thread \<Rightarrow> (log_thread \<times> log_impl) result" where
  "new_Logger_func z env file line level func th =
     rbind (new_Impl z env level 0 file line th) (\<lambda>(th1, im).
       rbind (rfold stream_put [LogCstr (Some func), LogChar (CHR '' '')] (im_stream im)) (\<lambda>b. Inr (th1, im\<lparr>im_stream := b\<rparr>)))"

definition new_Logger_level :: "time_zone \<Rightarrow> log_env \<Rightarrow> string \<Rightarrow> int \<Rightarrow> LogLevel \<Rightarrow> log_thread \<Rightarrow> (log_thread \<times> log_impl) result" where
  "new_Logger_level z env file line level th = new_Impl z env level 0 file line th"

definition new_Logger_sys :: "time_zone \<Rightarrow> log_env \<Rightarrow> string \<Rightarrow> int \<Rightarrow> bool \<Rightarrow> log_thread \<Rightarrow> (log_thread \<times> log_impl) result" where
  "new_Logger_sys z env file line toAbort th = new_Impl z env (if toAbort then FATAL else ERROR) (le_errno env) file line th"

definition destroy_Logger :: "log_impl \<Rightarrow> log_process \<Rightarrow> log_process result" where
  "destroy_Logger im g =
     rbind (finish im) (\<lambda>im.
       let g1 = g\<lparr>g_written := g_written g @ [fb_toString (im_stream im)], g_flushed := False\<rparr>
       in Inr (if im_level im = FATAL then g1\<lparr>g_flushed := True, g_aborted := True\<rparr> else g1))"

section \<open>Statements\<close>

datatype log_macro = LOG_TRACE | LOG_DEBUG | LOG_INFO | LOG_WARN | LOG_ERROR | LOG_FATAL | LOG_SYSERR | LOG_SYSFATAL

record log_stmt =
  ls_macro :: log_macro
  ls_file :: string
  ls_line :: int
  ls_func :: string
  ls_items :: "log_item list"

fun macro_enabled :: "LogLevel \<Rightarrow> log_macro \<Rightarrow> bool" where
  "macro_enabled g LOG_TRACE = (level_num g \<le> level_num TRACE)"
| "macro_enabled g LOG_DEBUG = (level_num g \<le> level_num DEBUG)"
| "macro_enabled g LOG_INFO = (level_num g \<le> level_num INFO)"
| "macro_enabled g _ = True"

definition macro_Logger :: "time_zone \<Rightarrow> log_env \<Rightarrow> log_stmt \<Rightarrow> log_thread \<Rightarrow> (log_thread \<times> log_impl) result" where
  "macro_Logger z env st th =
     (case ls_macro st of
        LOG_TRACE \<Rightarrow> new_Logger_func z env (ls_file st) (ls_line st) TRACE (ls_func st) th
      | LOG_DEBUG \<Rightarrow> new_Logger_func z env (ls_file st) (ls_line st) DEBUG (ls_func st) th
      | LOG_INFO \<Rightarrow> new_Logger z env (ls_file st) (ls_line st) th
      | LOG_WARN \<Rightarrow> new_Logger_level z env (ls_file st) (ls_line st) WARN th
      | LOG_ERROR \<Rightarrow> new_Logger_level z env (ls_file st) (ls_line st) ERROR th
      | LOG_FATAL \<Rightarrow> new_Logger_level z env (ls_file st) (ls_line st) FATAL th
      | LOG_SYSERR \<Rightarrow> new_Logger_sys z env (ls_file st) (ls_line st) False th
      | LOG_SYSFATAL \<Rightarrow> new_Logger_sys z env (ls_file st) (ls_line st) True th)"

text \<open>A statement of the program: the temporary object is made, the items are inserted, the object is destroyed. Nothing runs
  after an abort.\<close>

definition log_statement :: "log_env \<times> log_stmt \<Rightarrow> log_thread \<times> log_process \<Rightarrow> (log_thread \<times> log_process) result" where
  "log_statement = (\<lambda>(env, st) (th, g).
     if g_aborted g \<or> \<not> macro_enabled (g_logLevel g) (ls_macro st) then Inr (th, g)
     else rbind (macro_Logger (g_logTimeZone g) env st th) (\<lambda>(th1, im).
          rbind (rfold stream_put (ls_items st) (im_stream im)) (\<lambda>b.
          rbind (destroy_Logger (im\<lparr>im_stream := b\<rparr>) g) (\<lambda>g1. Inr (th1, g1)))))"

section \<open>The line of a statement\<close>

fun macro_level :: "log_macro \<Rightarrow> LogLevel" where
  "macro_level LOG_TRACE = TRACE" | "macro_level LOG_DEBUG = DEBUG" | "macro_level LOG_INFO = INFO" | "macro_level LOG_WARN = WARN"
| "macro_level LOG_ERROR = ERROR" | "macro_level LOG_FATAL = FATAL" | "macro_level LOG_SYSERR = ERROR" | "macro_level LOG_SYSFATAL = FATAL"

abbreviation fatal :: "log_stmt \<Rightarrow> bool" where
  "fatal st \<equiv> macro_level (ls_macro st) = FATAL"

definition env_second :: "log_env \<Rightarrow> int" where
  "env_second env = microSecondsSinceEpoch (le_now env) div kMicroSecondsPerSecond"

definition env_micro :: "log_env \<Rightarrow> int" where
  "env_micro env = microSecondsSinceEpoch (le_now env) mod kMicroSecondsPerSecond"

definition head_items :: "time_zone \<Rightarrow> tm \<Rightarrow> log_env \<Rightarrow> log_stmt \<Rightarrow> log_item list" where
  "head_items z tmv env st =
     [LogString (stamp_text tmv), LogString (micro_text z (env_micro env)), LogString (tid_text (le_gettid env)), LogString (LogLevelName (macro_level (ls_macro st)))] @
     (if ls_macro st \<in> {LOG_SYSERR, LOG_SYSFATAL} \<and> le_errno env \<noteq> 0
      then [LogCstr (Some (le_strerror env)), LogCstr (Some '' (errno=''), LogInt (le_errno env), LogCstr (Some '') '')] else []) @
     (if ls_macro st \<in> {LOG_TRACE, LOG_DEBUG} then [LogCstr (Some (ls_func st)), LogChar (CHR '' '')] else [])"

definition end_items :: "log_stmt \<Rightarrow> log_item list" where
  "end_items st = [LogCstr (Some '' - ''), LogString (SourceFile (ls_file st)), LogChar (CHR '':''), LogInt (ls_line st), LogChar (CHR 0x0A)]"

text \<open>The line as it should be, for the broken-down time \<open>tmv\<close>.\<close>

definition line_text :: "time_zone \<Rightarrow> tm \<Rightarrow> log_env \<Rightarrow> log_stmt \<Rightarrow> string" where
  "line_text z tmv env st =
     date_text tmv @ '' '' @ clock_text tmv @ ''.'' @ zero_padded 6 (env_micro env) @ (if tz_valid z then '' '' else ''Z '') @
     tid_text (le_gettid env) @ LogLevelName (macro_level (ls_macro st)) @
     (if ls_macro st \<in> {LOG_SYSERR, LOG_SYSFATAL} \<and> le_errno env \<noteq> 0
      then le_strerror env @ '' (errno='' @ dec_int (le_errno env) @ '') '' else []) @
     (if ls_macro st \<in> {LOG_TRACE, LOG_DEBUG} then ls_func st @ '' '' else []) @
     concat (map item_text (ls_items st)) @ '' - '' @ SourceFile (ls_file st) @ '':'' @ dec_int (ls_line st) @ [CHR 0x0A]"

lemma line_text_items: "line_text z tmv env st = concat (map item_text (head_items z tmv env st @ ls_items st @ end_items st))"
  by (simp add: line_text_def head_items_def end_items_def stamp_text_def micro_text_def)

text \<open>What the thread has cached is right for the zone, and what a statement is given is within the types; the time is at least
  a second after the epoch and its year has four digits.\<close>

definition thread_ok :: "time_zone \<Rightarrow> int \<Rightarrow> log_thread \<Rightarrow> bool" where
  "thread_ok z tid th \<longleftrightarrow>
     (t_lastSecond th \<noteq> 0 \<longrightarrow> (\<exists>tmv. log_tm z (t_lastSecond th) = Inr tmv \<and> t_time th = stamp_text tmv \<and> length (t_time th) = 17)) \<and>
     (t_cachedTid th \<noteq> 0 \<longrightarrow> t_tidString th = tid_text tid \<and> t_tidStringLength th = length (tid_text tid))"

definition env_ok :: "time_zone \<Rightarrow> int \<Rightarrow> log_env \<Rightarrow> bool" where
  "env_ok z tid env \<longleftrightarrow> 0 < env_second env \<and> le_gettid env = tid \<and> 0 < tid \<and> tid < 2 ^ 31 \<and> \<bar>le_errno env\<bar> < 2 ^ 31 \<and>
     (case log_tm z (env_second env) of Inr tmv \<Rightarrow> length (stamp_text tmv) = 17 | Inl _ \<Rightarrow> False)"

definition stmt_ok :: "log_stmt \<Rightarrow> bool" where
  "stmt_ok st \<longleftrightarrow> \<bar>ls_line st\<bar> < 2 ^ 31 \<and> list_all item_ok (ls_items st)"

lemma length_level: "length (LogLevelName level) = 6"
  by (cases level) (simp_all add: LogLevelName_def)

lemma length_tid_text: "\<bar>tid\<bar> < 2 ^ 31 \<Longrightarrow> length (tid_text tid) < 32"
  using length_dec_int [of tid] by (simp add: tid_text_def pad_def)

lemma length_micro_text:
  assumes "0 \<le> us" "us < 1000000"
  shows "length (micro_text z us) = (if tz_valid z then 8 else 9)"
proof -
  have "length (dec_nat (nat us)) \<le> 6" using assms by (intro length_dec_nat) auto
  then show ?thesis using assms(1) by (simp add: micro_text_def zero_padded_def pad_left_def)
qed

lemma put_T_item: "length str = len \<Longrightarrow> put_T str len b = stream_put (LogString str) b"
  by (simp add: put_T_def put_string_def)

lemma env_time:
  assumes "0 < env_second env"
  shows "cdiv (microSecondsSinceEpoch (le_now env)) kMicroSecondsPerSecond = env_second env"
    "i32 (Muduo_Prelude.cmod (microSecondsSinceEpoch (le_now env)) kMicroSecondsPerSecond) = env_micro env"
    "0 \<le> env_micro env" "env_micro env < 1000000"
proof -
  have k: "0 < kMicroSecondsPerSecond" "kMicroSecondsPerSecond = 1000000" by (simp_all add: kMicroSecondsPerSecond_def)
  have pos: "0 \<le> microSecondsSinceEpoch (le_now env)" using assms k(1) by (simp add: env_second_def pos_imp_zdiv_pos_iff)
  then show "cdiv (microSecondsSinceEpoch (le_now env)) kMicroSecondsPerSecond = env_second env" using k(1) by (simp add: env_second_def cdiv_nonneg)
  show m: "0 \<le> env_micro env" "env_micro env < 1000000" using k by (simp_all add: env_micro_def)
  then have "i32 (env_micro env) = env_micro env" by (intro i32_id) simp_all
  then show "i32 (Muduo_Prelude.cmod (microSecondsSinceEpoch (le_now env)) kMicroSecondsPerSecond) = env_micro env"
    using pos k(1) by (simp add: env_micro_def cmod_nonneg)
qed

lemma refresh_time_ok:
  assumes "thread_ok z tid th" "s \<noteq> 0" "log_tm z s = Inr tmv" "length (stamp_text tmv) = 17"
  shows "\<exists>th'. refresh_time z s th = Inr th' \<and> thread_ok z tid th' \<and> t_time th' = stamp_text tmv"
  using assms by (cases "s = t_lastSecond th") (auto simp: refresh_time_def thread_ok_def)

lemma current_tid_ok:
  assumes "thread_ok z tid th" "0 < tid" "tid < 2 ^ 31"
  shows "thread_ok z tid (current_tid tid th)" "t_tidString (current_tid tid th) = tid_text tid"
    "t_tidStringLength (current_tid tid th) = length (tid_text tid)"
  using assms length_tid_text [of tid] by (auto simp: current_tid_def cacheTid_def thread_ok_def)

lemma formatTime_ok:
  assumes "thread_ok z tid th" "env_ok z tid env" "log_tm z (env_second env) = Inr tmv"
  shows "\<exists>th'. thread_ok z tid th' \<and> (\<forall>b. formatTime z (le_now env) th b =
    rbind (rfold stream_put [LogString (stamp_text tmv), LogString (micro_text z (env_micro env))] b) (\<lambda>b'. Inr (th', b')))"
proof -
  have e: "0 < env_second env" "length (stamp_text tmv) = 17" using assms(2,3) by (simp_all add: env_ok_def)
  then obtain th' where th': "refresh_time z (env_second env) th = Inr th'" "thread_ok z tid th'" "t_time th' = stamp_text tmv"
    using refresh_time_ok [OF assms(1) _ assms(3)] by auto
  note t = env_time [OF e(1)]
  have "length (micro_text z (env_micro env)) = (if tz_valid z then 8 else 9)" using t length_micro_text by blast
  moreover from this have "new_Fmt (micro_text z (env_micro env)) = Inr (micro_text z (env_micro env))" by (simp add: new_Fmt_def split: if_splits)
  ultimately have "formatTime z (le_now env) th b = rbind (rfold stream_put [LogString (stamp_text tmv), LogString (micro_text z (env_micro env))] b) (\<lambda>b'. Inr (th', b'))" for b
    using th' e(2) by (simp add: formatTime_def Let_def t put_T_item rbind_assoc)
  with th'(2) show ?thesis by blast
qed

text \<open>Every constructor inserts the head of the line.\<close>

lemma new_Impl_ok:
  assumes "thread_ok z tid th" "env_ok z tid env" "log_tm z (env_second env) = Inr tmv"
  shows "\<exists>th'. thread_ok z tid th' \<and> (\<forall>level savedErrno file line. new_Impl z env level savedErrno file line th =
    rbind (rfold stream_put ([LogString (stamp_text tmv), LogString (micro_text z (env_micro env)), LogString (tid_text (le_gettid env)), LogString (LogLevelName level)] @
      (if savedErrno \<noteq> 0 then [LogCstr (Some (le_strerror env)), LogCstr (Some '' (errno=''), LogInt savedErrno, LogCstr (Some '') '')] else [])) (new_FixedBuffer kSmallBuffer))
      (\<lambda>b. Inr (th', \<lparr>im_stream = b, im_level = level, im_line = line, im_basename = SourceFile file\<rparr>)))"
proof -
  obtain th1 where th1: "thread_ok z tid th1" "\<And>b. formatTime z (le_now env) th b =
      rbind (rfold stream_put [LogString (stamp_text tmv), LogString (micro_text z (env_micro env))] b) (\<lambda>b'. Inr (th1, b'))"
    using formatTime_ok [OF assms] by blast
  have tid: "le_gettid env = tid" "0 < tid" "tid < 2 ^ 31" using assms(2) by (simp_all add: env_ok_def)
  note c = current_tid_ok [OF th1(1) tid(2,3)]
  show ?thesis
    by (rule exI [of _ "current_tid tid th1"])
      (simp add: new_Impl_def th1(2) tid(1) c rbind_assoc Let_def put_T_item length_level)
qed

lemma macro_Logger_ok:
  assumes "thread_ok z tid th" "env_ok z tid env" "log_tm z (env_second env) = Inr tmv"
  shows "\<exists>th'. thread_ok z tid th' \<and> macro_Logger z env st th = rbind (rfold stream_put (head_items z tmv env st) (new_FixedBuffer kSmallBuffer))
    (\<lambda>b. Inr (th', \<lparr>im_stream = b, im_level = macro_level (ls_macro st), im_line = ls_line st, im_basename = SourceFile (ls_file st)\<rparr>))"
proof -
  obtain th' where "thread_ok z tid th'" "\<And>level savedErrno file line. new_Impl z env level savedErrno file line th =
    rbind (rfold stream_put ([LogString (stamp_text tmv), LogString (micro_text z (env_micro env)), LogString (tid_text (le_gettid env)), LogString (LogLevelName level)] @
      (if savedErrno \<noteq> 0 then [LogCstr (Some (le_strerror env)), LogCstr (Some '' (errno=''), LogInt savedErrno, LogCstr (Some '') '')] else [])) (new_FixedBuffer kSmallBuffer))
      (\<lambda>b. Inr (th', \<lparr>im_stream = b, im_level = level, im_line = line, im_basename = SourceFile file\<rparr>))"
    using new_Impl_ok [OF assms] by blast
  then show ?thesis
    by (intro exI [of _ th'])
      (cases "ls_macro st"; simp add: macro_Logger_def new_Logger_def new_Logger_func_def new_Logger_level_def new_Logger_sys_def head_items_def rbind_assoc)
qed

lemma stmt_items_ok:
  assumes "stmt_ok st" "env_ok z tid env"
  shows "\<forall>x\<in>set (head_items z tmv env st @ ls_items st @ end_items st). item_ok x"
proof -
  have e: "- (2 ^ 63) \<le> le_errno env" "le_errno env < 2 ^ 64" using assms(2) by (auto simp: env_ok_def)
  have l: "- (2 ^ 63) \<le> ls_line st" "ls_line st < 2 ^ 64" using assms(1) by (auto simp: stmt_ok_def)
  from e l assms(1) show ?thesis by (auto simp: head_items_def end_items_def stmt_ok_def list_all_iff)
qed

text \<open>The effect of one statement: the buffer takes each item that still fits.\<close>

definition written_line :: "time_zone \<Rightarrow> tm \<Rightarrow> log_env \<Rightarrow> log_stmt \<Rightarrow> string" where
  "written_line z tmv env st = foldl (log_line kSmallBuffer) [] (head_items z tmv env st @ ls_items st @ end_items st)"

lemma log_statement_ok:
  assumes "thread_ok (g_logTimeZone g) tid th" "env_ok (g_logTimeZone g) tid env" "log_tm (g_logTimeZone g) (env_second env) = Inr tmv" "stmt_ok st"
    and "\<not> g_aborted g" "macro_enabled (g_logLevel g) (ls_macro st)"
  shows "\<exists>th'. thread_ok (g_logTimeZone g) tid th' \<and> log_statement (env, st) (th, g) =
    Inr (th', g\<lparr>g_written := g_written g @ [written_line (g_logTimeZone g) tmv env st], g_flushed := fatal st, g_aborted := fatal st\<rparr>)"
proof -
  let ?z = "g_logTimeZone g" and ?b0 = "new_FixedBuffer kSmallBuffer"
  obtain th' where th': "thread_ok ?z tid th'" "macro_Logger ?z env st th = rbind (rfold stream_put (head_items ?z tmv env st) ?b0)
      (\<lambda>b. Inr (th', \<lparr>im_stream = b, im_level = macro_level (ls_macro st), im_line = ls_line st, im_basename = SourceFile (ls_file st)\<rparr>))"
    using macro_Logger_ok [OF assms(1-3)] by blast
  have b0: "fb_wf ?b0" "length (fb_data ?b0) = kSmallBuffer" "fb_toString ?b0 = []"
    by (simp_all add: fb_wf_def new_FixedBuffer_def kSmallBuffer_def fb_toString_def fb_length_def)
  obtain b where b: "rfold stream_put (head_items ?z tmv env st @ ls_items st @ end_items st) ?b0 = Inr b" "fb_toString b = written_line ?z tmv env st"
    using stream_puts_line [OF b0(1) stmt_items_ok [OF assms(4,2)]] b0(2,3) by (metis written_line_def)
  then obtain b1 b2 where "rfold stream_put (head_items ?z tmv env st) ?b0 = Inr b1" "rfold stream_put (ls_items st) b1 = Inr b2"
    "rfold stream_put (end_items st) b2 = Inr b" by (auto simp: rfold_append rbind_Inr_iff)
  with th' b(2) assms(5,6) show ?thesis
    by (auto simp: log_statement_def destroy_Logger_def finish_def end_items_def Let_def intro!: exI [of _ th'] simp del: rfold.simps)
qed

definition env_tm :: "time_zone \<Rightarrow> log_env \<Rightarrow> tm" where
  "env_tm z env = (case log_tm z (env_second env) of Inr tmv \<Rightarrow> tmv | Inl _ \<Rightarrow> zero_tm)"

lemma env_tm_ok: "env_ok z tid env \<Longrightarrow> log_tm z (env_second env) = Inr (env_tm z env)"
  by (auto simp: env_ok_def env_tm_def split: sum.splits)

definition line_fits :: "time_zone \<Rightarrow> log_env \<Rightarrow> log_stmt \<Rightarrow> bool" where
  "line_fits z env st \<longleftrightarrow> length (line_text z (env_tm z env) env st) + kMaxNumericSize \<le> kSmallBuffer"

lemma written_line_fits: "line_fits z env st \<Longrightarrow> written_line z (env_tm z env) env st = line_text z (env_tm z env) env st"
  using log_line_fits [of "[]" "head_items z (env_tm z env) env st @ ls_items st @ end_items st" kSmallBuffer]
  by (simp add: line_fits_def written_line_def line_text_items)

text \<open>What a statement writes before its own items.\<close>

definition head_text :: "time_zone \<Rightarrow> log_env \<Rightarrow> log_stmt \<Rightarrow> string" where
  "head_text z env st = concat (map item_text (head_items z (env_tm z env) env st))"

lemma fatal_enabled: "macro_level m = FATAL \<Longrightarrow> macro_enabled g m"
  by (cases m) simp_all

section \<open>Properties\<close>


text \<open>A message that fills the buffer loses the end of its line: the place in the source and the line feed are left out, so that the next
  line of the log continues this one.\<close>

theorem log_line_end_lost:
  assumes "thread_ok (g_logTimeZone g) tid th" "env_ok (g_logTimeZone g) tid env" "stmt_ok st" "\<not> g_aborted g" "macro_enabled (g_logLevel g) (ls_macro st)"
    and "ls_items st = [LogString msg]" "length (head_text (g_logTimeZone g) env st) + length msg = kSmallBuffer - 1"
    and "length (head_text (g_logTimeZone g) env st) + kMaxNumericSize \<le> kSmallBuffer"
  shows "\<exists>th' g'. log_statement (env, st) (th, g) = Inr (th', g') \<and> g_written g' = g_written g @ [head_text (g_logTimeZone g) env st @ msg]"
proof -
  let ?z = "g_logTimeZone g"
  have full: "foldl (log_line kSmallBuffer) acc (end_items st) = acc" if "length acc = kSmallBuffer - 1" for acc
    using that by (simp add: end_items_def log_line_def kSmallBuffer_def kMaxNumericSize_def)
  have "foldl (log_line kSmallBuffer) [] (head_items ?z (env_tm ?z env) env st) = head_text ?z env st"
    using log_line_fits [of "[]" "head_items ?z (env_tm ?z env) env st" kSmallBuffer] assms(8) by (simp add: head_text_def)
  moreover have "log_line kSmallBuffer (head_text ?z env st) (LogString msg) = head_text ?z env st @ msg"
    using assms(7) by (auto simp: log_line_def kSmallBuffer_def)
  ultimately have "written_line ?z (env_tm ?z env) env st = head_text ?z env st @ msg" using full assms(6,7) by (simp add: written_line_def)
  then show ?thesis using log_statement_ok [OF assms(1,2) env_tm_ok [OF assms(2)] assms(3,4,5)] by auto
qed

text \<open>A change of the zone is not seen before the next second: the thread prints the time of day of the old zone with the mark of the
  new one.\<close>

theorem zone_change_stale:
  assumes "thread_ok z0 tid th" "t_lastSecond th = env_second env" "0 < env_second env" "log_tm z0 (env_second env) = Inr tmv"
  shows "formatTime z (le_now env) th b =
    rbind (rfold stream_put [LogString (stamp_text tmv), LogString (micro_text z (env_micro env))] b) (\<lambda>b'. Inr (th, b'))"
proof -
  note t = env_time [OF assms(3)]
  have "t_time th = stamp_text tmv" "length (stamp_text tmv) = 17" using assms by (auto simp: thread_ok_def)
  moreover have "length (micro_text z (env_micro env)) = (if tz_valid z then 8 else 9)" using t length_micro_text by blast
  moreover from this have "new_Fmt (micro_text z (env_micro env)) = Inr (micro_text z (env_micro env))" by (simp add: new_Fmt_def split: if_splits)
  ultimately show ?thesis using assms(2) by (simp add: formatTime_def Let_def t refresh_time_def put_T_item rbind_assoc)
qed

text \<open>In the first second after the epoch a thread that has printed nothing takes its empty cache for the time of day, and the
  assertion on its length ends the process.\<close>

theorem first_second_aborts:
  assumes "0 \<le> microSecondsSinceEpoch (le_now env)" "microSecondsSinceEpoch (le_now env) < kMicroSecondsPerSecond"
    and "\<not> g_aborted g" "macro_enabled (g_logLevel g) (ls_macro st)"
  shows "log_statement (env, st) (new_log_thread, g) = Inl AssertFail"
proof -
  let ?z = "g_logTimeZone g"
  have m: "0 \<le> env_micro env" "env_micro env < 1000000" "env_micro env = microSecondsSinceEpoch (le_now env)"
    using assms(1,2) by (simp_all add: env_micro_def kMicroSecondsPerSecond_def)
  then have i: "i32 (env_micro env) = env_micro env" by (intro i32_id) simp_all
  have c: "cdiv (env_micro env) kMicroSecondsPerSecond = 0" "Muduo_Prelude.cmod (env_micro env) kMicroSecondsPerSecond = env_micro env"
    using assms(1,2) m(3) by (simp_all add: cdiv_nonneg cmod_nonneg kMicroSecondsPerSecond_def)
  have l: "length (micro_text ?z (env_micro env)) = (if tz_valid ?z then 8 else 9)" using m length_micro_text by blast
  then have "new_Fmt (micro_text ?z (env_micro env)) = Inr (micro_text ?z (env_micro env))" by (simp add: new_Fmt_def split: if_splits)
  then have "formatTime ?z (le_now env) new_log_thread b = Inl AssertFail" for b
    using l c i by (simp add: formatTime_def Let_def m(3) [symmetric] refresh_time_def new_log_thread_def put_T_def)
  then have "new_Impl ?z env level e f n new_log_thread = Inl AssertFail" for level e f n by (simp add: new_Impl_def)
  then show ?thesis using assms(3,4) by (cases "ls_macro st")
    (simp_all add: log_statement_def macro_Logger_def new_Logger_def new_Logger_func_def new_Logger_level_def new_Logger_sys_def)
qed

section \<open>Instances\<close>

definition sample_log_env :: log_env where
  "sample_log_env = \<lparr>le_now = Timestamp 1000000000123456, le_errno = 2, le_strerror = ''No such file or directory'', le_gettid = 4711\<rparr>"

definition sample_stmt :: "log_macro \<Rightarrow> log_item list \<Rightarrow> log_stmt" where
  "sample_stmt m items = \<lparr>ls_macro = m, ls_file = ''src/net/main.cc'', ls_line = 42, ls_func = ''main'', ls_items = items\<rparr>"

definition sample_process :: log_process where
  "sample_process = \<lparr>g_logLevel = INFO, g_logTimeZone = None, g_written = [], g_flushed = False, g_aborted = False\<rparr>"

lemma sample_log_time: "env_second sample_log_env = 1000000000" "env_micro sample_log_env = 123456"
  by (simp_all add: env_second_def env_micro_def sample_log_env_def kMicroSecondsPerSecond_def)

lemma sample_day: "getYearMonthDay 2452162 = \<lparr>ymd_year = 2001, ymd_month = 9, ymd_day = 9\<rparr>"
  by code_simp

lemma sample_log_texts:
  "stamp_text (gmtime_r 1000000000) = ''20010909 01:46:40''" "zero_padded 6 123456 = ''123456''" "tid_text 4711 = '' 4711 ''"
  "dec_int 42 = ''42''" "dec_int 7 = ''7''" "dec_int 2 = ''2''" "SourceFile ''src/net/main.cc'' = ''main.cc''"
proof -
  show "stamp_text (gmtime_r 1000000000) = ''20010909 01:46:40''"
    by (simp add: stamp_text_def date_text_def clock_text_def gmtime_r_def Let_def kSecondsPerDay_def sample_day pad_def print_02d_def dec_int_def dec_nat.simps)
qed (simp_all add: zero_padded_def pad_left_def tid_text_def pad_def dec_int_def dec_nat.simps SourceFile_def)

lemma sample_log_ok:
  "env_ok None 4711 sample_log_env" "env_tm None sample_log_env = gmtime_r 1000000000" "thread_ok None 4711 new_log_thread"
  by (simp_all add: env_ok_def env_tm_def log_tm_def tz_valid_def sample_log_time sample_log_texts thread_ok_def new_log_thread_def)
    (simp add: sample_log_env_def)

lemma sample_line:
  "line_text None (gmtime_r 1000000000) sample_log_env (sample_stmt m items) =
     ''20010909 01:46:40.123456Z  4711 '' @ LogLevelName (macro_level m) @
     (if m \<in> {LOG_SYSERR, LOG_SYSFATAL} then ''No such file or directory (errno=2) '' else []) @ (if m \<in> {LOG_TRACE, LOG_DEBUG} then ''main '' else []) @
     concat (map item_text items) @ '' - main.cc:42'' @ [CHR 0x0A]"
  using sample_log_texts(1)
  by (simp add: line_text_def sample_log_time sample_log_texts stamp_text_def tz_valid_def sample_stmt_def) (simp add: sample_log_env_def sample_log_texts)


theorem log_line_end_lost_witness:
  "\<exists>th' g'. log_statement (sample_log_env, sample_stmt LOG_INFO [LogString (replicate 3961 (CHR ''x''))]) (new_log_thread, sample_process) = Inr (th', g') \<and>
     g_written g' = [''20010909 01:46:40.123456Z  4711 INFO  '' @ replicate 3961 (CHR ''x'')]"
proof -
  let ?st = "sample_stmt LOG_INFO [LogString (replicate 3961 (CHR ''x''))]"
  have z: "g_logTimeZone sample_process = None" "\<not> g_aborted sample_process" "g_logLevel sample_process = INFO" "g_written sample_process = []"
    by (simp_all add: sample_process_def)
  have st: "stmt_ok ?st" "ls_macro ?st = LOG_INFO" "ls_items ?st = [LogString (replicate 3961 (CHR ''x''))]" by (simp_all add: stmt_ok_def sample_stmt_def)
  have h: "head_text None sample_log_env ?st = ''20010909 01:46:40.123456Z  4711 INFO  ''"
    by (simp add: head_text_def head_items_def sample_log_ok sample_log_time sample_log_texts micro_text_def tz_valid_def st LogLevelName_def)
      (simp add: sample_log_env_def sample_log_texts)
  have len: "length (head_text None sample_log_env ?st) + length (replicate 3961 (CHR ''x'')) = kSmallBuffer - 1"
    "length (head_text None sample_log_env ?st) + kMaxNumericSize \<le> kSmallBuffer" unfolding h by (simp_all add: kSmallBuffer_def kMaxNumericSize_def)
  have on: "macro_enabled (g_logLevel sample_process) (ls_macro ?st)" by (simp add: z st)
  from log_line_end_lost [of sample_process 4711 new_log_thread sample_log_env ?st, unfolded z(1), OF sample_log_ok(3,1) st(1) z(2) on st(3) len]
  show ?thesis unfolding h z(4) append_Nil .
qed

theorem zone_change_stale_witness:
  "\<exists>th. t_lastSecond th = 1000000000 \<and>
     formatTime (fixed_TimeZone (8 * 3600) ''CST'') (le_now sample_log_env) th (new_FixedBuffer 64) =
       rbind (rfold stream_put [LogString ''20010909 01:46:40'', LogString ''.123456 ''] (new_FixedBuffer 64)) (\<lambda>b'. Inr (th, b')) \<and>
     log_tm (fixed_TimeZone (8 * 3600) ''CST'') 1000000000 \<noteq> log_tm None 1000000000"
proof -
  let ?th = "new_log_thread\<lparr>t_lastSecond := 1000000000, t_time := ''20010909 01:46:40''\<rparr>" and ?z = "fixed_TimeZone (8 * 3600) ''CST''"
  have u: "log_tm None 1000000000 = Inr (gmtime_r 1000000000)" by (simp add: log_tm_def tz_valid_def)
  have "thread_ok None 4711 ?th" by (simp add: thread_ok_def new_log_thread_def u sample_log_texts)
  from zone_change_stale [OF this, of sample_log_env "gmtime_r 1000000000" ?z "new_FixedBuffer 64"]
  have "formatTime ?z (le_now sample_log_env) ?th (new_FixedBuffer 64) = rbind (rfold stream_put [LogString ''20010909 01:46:40'', LogString ''.123456 ''] (new_FixedBuffer 64)) (\<lambda>b'. Inr (?th, b'))"
    by (simp add: sample_log_time u sample_log_texts micro_text_def tz_valid_def fixed_TimeZone_def del: rfold.simps)
  moreover have "toLocalTime ?z 1000000000 \<noteq> Inr (gmtime_r 1000000000)"
    by (simp add: toLocalTime_def fixed_TimeZone_def empty_tz_data_def findLocaltime_def vec_at_def c_str_at_def gmtime_r_def Let_def)
  then have "log_tm ?z 1000000000 \<noteq> log_tm None 1000000000" unfolding u by (simp add: log_tm_def tz_valid_def fixed_TimeZone_def)
  ultimately show ?thesis by (intro exI [of _ ?th]) simp
qed

theorem first_second_aborts_witness:
  "log_statement (sample_log_env\<lparr>le_now := Timestamp 5\<rparr>, sample_stmt LOG_WARN []) (new_log_thread, sample_process) = Inl AssertFail"
  by (rule first_second_aborts) (simp_all add: kMicroSecondsPerSecond_def sample_process_def sample_stmt_def)

end
