(* ===== verification/Small_Files.thy ===== *)
theory Small_Files
  imports Muduo_Prelude
begin

text \<open>
  Reading small files (\<open>FileUtil::ReadSmallFile\<close> and \<open>readFile\<close> of \<open>src/muduo/base/FileUtil.h\<close> and \<open>FileUtil.cc\<close>). The descriptor
  stands for the bytes of a file and an offset; how much a call of \<open>read\<close> delivers and whether it fails is decided by the
  kernel, call by call. Shown: however the kernel cuts the file, the text read is the beginning of the file, all of it up to
  the limit unless a call fails, and the final zero of \<open>readToBuffer\<close> stays inside the array.
\<close>

section \<open>The kernel\<close>

record file_kernel =
  fk_data :: "byte list"
  fk_pos :: nat
  fk_calls :: nat
  fk_limit :: "nat \<Rightarrow> nat"             \<comment> \<open>how many bytes the \<open>k\<close>th call delivers at most, if not none\<close>
  fk_fail :: "nat \<Rightarrow> int option"       \<comment> \<open>the error of the \<open>k\<close>th call\<close>

definition sys_read :: "nat \<Rightarrow> file_kernel \<Rightarrow> (int + byte list) \<times> file_kernel" where
  "sys_read count K =
     (let k = fk_calls K; K1 = K\<lparr>fk_calls := k + 1\<rparr>; rest = drop (fk_pos K) (fk_data K);
          bs = take (min count (max 1 (fk_limit K k))) rest
      in case fk_fail K k of Some e \<Rightarrow> (Inl e, K1) | None \<Rightarrow> (Inr bs, K1\<lparr>fk_pos := fk_pos K + length bs\<rparr>))"

text \<open>What \<open>fstat\<close> reports: an error, or the kind of the file, its size and its times.\<close>

datatype file_kind = S_ISREG | S_ISDIR | S_OTHER

record file_stat =
  st_kind :: file_kind
  st_size :: int
  st_mtime :: int
  st_ctime :: int

definition EISDIR :: int where "EISDIR = 21"

section \<open>ReadSmallFile\<close>

definition kBufferSize :: nat where "kBufferSize = 64 * 1024"

record read_small_file =
  rf_fd :: int
  rf_err :: int
  rf_buf :: "byte list"

definition new_ReadSmallFile :: "int \<Rightarrow> int \<Rightarrow> byte list \<Rightarrow> read_small_file" where
  "new_ReadSmallFile fd errno mem = \<lparr>rf_fd = fd, rf_err = (if fd < 0 then errno else 0), rf_buf = mem[0 := 0]\<rparr>"

text \<open>The loop of \<open>readToString\<close>; \<open>maxSize\<close> is the limit as a \<open>size_t\<close>.\<close>

function (sequential) read_loop :: "nat \<Rightarrow> byte list \<Rightarrow> int \<Rightarrow> file_kernel \<Rightarrow> int \<times> byte list \<times> file_kernel" where
  "read_loop maxSize content err K =
     (if length content < maxSize then
        (case sys_read (min (maxSize - length content) kBufferSize) K of
           (Inl e, K') \<Rightarrow> (e, content, K')
         | (Inr bs, K') \<Rightarrow> if bs \<noteq> [] then read_loop maxSize (content @ bs) err K' else (err, content, K'))
      else (err, content, K))"
  by pat_completeness auto
termination
  by (relation "measure (\<lambda>(maxSize, content, err, K). maxSize - length content)") (auto intro!: diff_less_mono2)

declare read_loop.simps [simp del]

record read_report =
  rp_err :: int
  rp_content :: "byte list"
  rp_fileSize :: "int option"
  rp_times :: "(int \<times> int) option"

text \<open>\<open>stat\<close> is the outcome of \<open>fstat\<close>, consulted when the caller asks for the size; \<open>reserve\<close> takes the limit as unsigned and
  refuses a negative one.\<close>

definition readToString :: "int \<Rightarrow> byte list \<Rightarrow> bool \<Rightarrow> int + file_stat \<Rightarrow> read_small_file \<Rightarrow> file_kernel \<Rightarrow> (read_report \<times> file_kernel) result" where
  "readToString maxSize content wantSize stat f K =
     (if rf_fd f < 0 then Inr (\<lparr>rp_err = rf_err f, rp_content = content, rp_fileSize = None, rp_times = None\<rparr>, K)
      else
        let (err, sz, times, bad) =
          (if \<not> wantSize then (rf_err f, None, None, False)
           else (case stat of
                   Inl e \<Rightarrow> (e, None, None, False)
                 | Inr st \<Rightarrow>
                     ((if st_kind st = S_ISDIR then EISDIR else rf_err f), (if st_kind st = S_ISREG then Some (st_size st) else None),
                      Some (st_mtime st, st_ctime st), st_kind st = S_ISREG \<and> min maxSize (st_size st) < 0)))
        in if bad then Inl LengthError
           else let (err', content', K') = read_loop (nat (maxSize mod 2 ^ 64)) [] err K
                in Inr (\<lparr>rp_err = err', rp_content = content', rp_fileSize = sz, rp_times = times\<rparr>, K'))"

definition readFile :: "int \<Rightarrow> int \<Rightarrow> byte list \<Rightarrow> int \<Rightarrow> byte list \<Rightarrow> bool \<Rightarrow> int + file_stat \<Rightarrow> file_kernel \<Rightarrow> (read_report \<times> file_kernel) result" where
  "readFile fd errno mem maxSize content wantSize stat K = readToString maxSize content wantSize stat (new_ReadSmallFile fd errno mem) K"

text \<open>\<open>readToBuffer\<close>: \<open>got\<close> is what \<open>pread\<close> of at most \<open>kBufferSize - 1\<close> bytes delivers.\<close>

definition readToBuffer :: "int + byte list \<Rightarrow> read_small_file \<Rightarrow> (int \<times> nat option \<times> read_small_file) result" where
  "readToBuffer got f =
     (if rf_fd f < 0 then Inr (rf_err f, None, f)
      else (case got of
              Inl e \<Rightarrow> Inr (e, None, f)
            | Inr bs \<Rightarrow>
                if length bs < length (rf_buf f) then Inr (rf_err f, Some (length bs), f\<lparr>rf_buf := overwrite 0 (bs @ [0]) (rf_buf f)\<rparr>)
                else Inl OutOfBounds))"

section \<open>The loop\<close>

lemma sys_read_cases:
  assumes "sys_read count K = (r, K')" "0 < count"
  shows "(\<exists>e. r = Inl e \<and> fk_fail K (fk_calls K) = Some e \<and> fk_pos K' = fk_pos K) \<or>
    (\<exists>bs. r = Inr bs \<and> fk_fail K (fk_calls K) = None \<and> bs = take (length bs) (drop (fk_pos K) (fk_data K)) \<and> length bs \<le> count \<and>
      (bs = [] \<longrightarrow> length (fk_data K) \<le> fk_pos K) \<and> fk_pos K' = fk_pos K + length bs)"
  "fk_data K' = fk_data K" "fk_fail K' = fk_fail K" "fk_calls K' = fk_calls K + 1"
  using assms by (auto simp: sys_read_def Let_def min_def split: option.splits)

lemma read_loop_prefix:
  assumes "content = take (fk_pos K) (fk_data K)" "length content = fk_pos K" "fk_pos K \<le> maxSize" "read_loop maxSize content err K = (err', content', K')"
  shows "\<exists>n. content' = take n (fk_data K) \<and> length content' \<le> maxSize \<and>
    (err' = err \<and> length content' = min maxSize (length (fk_data K)) \<or> (\<exists>k. fk_fail K k = Some err'))"
  using assms
proof (induction maxSize content err K arbitrary: err' content' K' rule: read_loop.induct)
  case (1 maxSize content err K)
  show ?case
  proof (cases "length content < maxSize")
    case False
    then have "(err', content', K') = (err, content, K)" using 1(5) by (simp add: read_loop.simps)
    moreover have "length content = min maxSize (length (fk_data K))" using False 1(2-4) by (metis length_take min.commute min_def linorder_not_less order.antisym)
    ultimately show ?thesis using 1(2,4) by (auto intro: exI [of _ "fk_pos K"])
  next
    case True
    let ?c = "min (maxSize - length content) kBufferSize"
    obtain r K1 where r: "sys_read ?c K = (r, K1)" by fastforce
    have c: "0 < ?c" using True by (simp add: kBufferSize_def)
    note sr = sys_read_cases [OF r c]
    show ?thesis
    proof (cases r)
      case (Inl e)
      then have "(err', content', K') = (e, content, K1)" using 1(5) True r by (simp add: read_loop.simps)
      then show ?thesis using sr(1) Inl 1(2,4) True by (auto intro: exI [of _ "fk_pos K"])
    next
      case (Inr bs)
      then have b: "bs = take (length bs) (drop (fk_pos K) (fk_data K))" "length bs \<le> ?c" "bs = [] \<longrightarrow> length (fk_data K) \<le> fk_pos K" "fk_pos K1 = fk_pos K + length bs"
        using sr(1) by auto
      show ?thesis
      proof (cases "bs = []")
        case empty: True
        then have "(err', content', K') = (err, content, K1)" using 1(5) True r Inr by (simp add: read_loop.simps)
        moreover have "length content = min maxSize (length (fk_data K))" using b(3) empty 1(2,3) True by (metis length_take min.absorb2 min.commute less_imp_le order.antisym min.cobounded2 min_def)
        ultimately show ?thesis using 1(2) True by (auto intro: exI [of _ "fk_pos K"])
      next
        case False
        have "content @ bs = take (fk_pos K1) (fk_data K1)" using 1(2) b(1,4) sr(2) by (metis take_add)
        moreover have "length (content @ bs) = fk_pos K1" using 1(3) b(4) by simp
        moreover have "length bs \<le> maxSize - length content" using b(2) by simp
        then have "fk_pos K1 \<le> maxSize" using b(4) 1(3) True by linarith
        moreover have "read_loop maxSize (content @ bs) err K1 = (err', content', K')" using 1(5) True r Inr False by (simp add: read_loop.simps)
        ultimately show ?thesis using 1(1) [OF True r [symmetric] Inr False] sr(2,3) by simp
      qed
    qed
  qed
qed

section \<open>Properties\<close>

text \<open>C35. A file is read from its beginning: with an open descriptor and a limit that is not negative, \<open>readToString\<close> returns a beginning of the
  file, however the kernel cuts it. Without an error the text is the
  whole file up to the limit; otherwise the error is that of a failed call, and the text what was read before it.\<close>

theorem small_file_read:
  assumes "0 \<le> rf_fd f" "rf_err f = 0" "0 \<le> maxSize" "maxSize < 2 ^ 31" "fk_pos K = 0" "stat = Inr st" "st_kind st = S_ISREG" "st_size st = int (length (fk_data K))"
  shows "\<exists>rep K'. readToString maxSize old wantSize stat f K = Inr (rep, K') \<and> (\<exists>n. rp_content rep = take n (fk_data K)) \<and> length (rp_content rep) \<le> nat maxSize \<and>
    rp_fileSize rep = (if wantSize then Some (int (length (fk_data K))) else None) \<and>
    (rp_err rep = 0 \<and> rp_content rep = take (nat maxSize) (fk_data K) \<or> (\<exists>k. fk_fail K k = Some (rp_err rep)))"
proof -
  have m: "maxSize mod 2 ^ 64 = maxSize" using assms(3,4) by simp
  obtain err' content' K' where r: "read_loop (nat maxSize) [] 0 K = (err', content', K')" using prod_cases3 by blast
  have "\<exists>n. content' = take n (fk_data K) \<and> length content' \<le> nat maxSize \<and>
      (err' = 0 \<and> length content' = min (nat maxSize) (length (fk_data K)) \<or> (\<exists>k. fk_fail K k = Some err'))"
    by (rule read_loop_prefix [OF _ _ _ r]) (simp_all add: assms(5))
  then obtain n where p: "content' = take n (fk_data K)" "length content' \<le> nat maxSize"
    "err' = 0 \<and> length content' = min (nat maxSize) (length (fk_data K)) \<or> (\<exists>k. fk_fail K k = Some err')" by blast
  have all: "content' = take (nat maxSize) (fk_data K)" if "length content' = min (nat maxSize) (length (fk_data K))"
    using p(1) that by (metis length_take min.commute take_all take_take min_def nat_le_linear)
  have "readToString maxSize old wantSize stat f K = Inr (\<lparr>rp_err = err', rp_content = content',
      rp_fileSize = (if wantSize then Some (int (length (fk_data K))) else None), rp_times = (if wantSize then Some (st_mtime st, st_ctime st) else None)\<rparr>, K')"
    using assms r m by (simp add: readToString_def Let_def min_def)
  moreover have "err' = 0 \<and> content' = take (nat maxSize) (fk_data K) \<or> (\<exists>k. fk_fail K k = Some err')" using p(3) all by blast
  moreover have "\<exists>n. content' = take n (fk_data K)" using p(1) by blast
  ultimately show ?thesis using p(2) by simp
qed

text \<open>The array of \<open>readToBuffer\<close> takes the bytes and a final zero: whatever \<open>pread\<close> delivers within the count it was given, the
  array keeps its size and holds the bytes and the zero behind them.\<close>

theorem small_file_buffer:
  assumes "0 \<le> fd" "length mem = kBufferSize" "length bs \<le> kBufferSize - 1"
  shows "\<exists>f'. readToBuffer (Inr bs) (new_ReadSmallFile fd e mem) = Inr (0, Some (length bs), f') \<and> length (rf_buf f') = kBufferSize \<and>
    take (length bs + 1) (rf_buf f') = bs @ [0]"
  using assms by (auto simp: readToBuffer_def new_ReadSmallFile_def overwrite_def kBufferSize_def)

text \<open>A negative limit is refused by the container when the size is asked for.\<close>

theorem negative_limit_throws:
  assumes "0 \<le> rf_fd f" "- (2 ^ 31) \<le> maxSize" "maxSize < 0" "st_kind st = S_ISREG"
  shows "readToString maxSize old True (Inr st) f K = Inl LengthError"
  using assms by (simp add: readToString_def Let_def min_less_iff_disj)

definition sample_kernel :: file_kernel where
  "sample_kernel = \<lparr>fk_data = [1, 2, 3, 4, 5], fk_pos = 0, fk_calls = 0, fk_limit = (\<lambda>k. 2), fk_fail = (\<lambda>k. None)\<rparr>"

definition sample_stat :: file_stat where
  "sample_stat = \<lparr>st_kind = S_ISREG, st_size = 5, st_mtime = 100, st_ctime = 50\<rparr>"

theorem small_file_read_witness:
  "\<exists>rep K'. readToString 4 [9] True (Inr sample_stat) (new_ReadSmallFile 3 0 [7]) sample_kernel = Inr (rep, K') \<and>
     rp_err rep = 0 \<and> rp_content rep = [1, 2, 3, 4] \<and> rp_fileSize rep = Some 5"
  using small_file_read [of "new_ReadSmallFile 3 0 [7]" 4 sample_kernel "Inr sample_stat" sample_stat "[9]" True]
  by (auto simp: new_ReadSmallFile_def sample_kernel_def sample_stat_def)

theorem small_file_buffer_witness:
  "\<exists>f'. readToBuffer (Inr [1, 2, 3]) (new_ReadSmallFile 3 0 (replicate kBufferSize 9)) = Inr (0, Some 3, f') \<and> take 4 (rf_buf f') = [1, 2, 3, 0]"
proof -
  have l: "length [1, 2, 3 :: byte] = 3" "(3 :: nat) + 1 = 4" by simp_all
  show ?thesis using small_file_buffer [of 3 "replicate kBufferSize 9" "[1, 2, 3]" 0, unfolded l] by (auto simp: kBufferSize_def)
qed

theorem negative_limit_throws_witness:
  "readToString (- 1) [] True (Inr sample_stat) (new_ReadSmallFile 3 0 [7]) sample_kernel = Inl LengthError"
  by (rule negative_limit_throws) (simp_all add: new_ReadSmallFile_def sample_stat_def)

end
