(* ===== verification/Encodings.thy ===== *)
theory Encodings
  imports Endian
begin

text \<open>
  Detection of text encodings and counting of Chinese characters (\<open>src/muduo/base/convert.h\<close>, \<open>convert.cpp\<close>), and the hash
  functions of \<open>src/muduo/base/murmurhash.h\<close>. Text is a list of bytes; a \<open>char\<close> that is masked is its byte, whatever
  the sign of the type. Shown: counting is exact on every text of the basic plane in UTF-8 and aborts beyond it, counting in
  UCS-2 leaves out the last character, the detection takes two-byte characters of UTF-8 for GBK, and the hash of a
  four-byte key has no collision.
\<close>

section \<open>Encodings\<close>

datatype encoding = kUnknown | kUnicode | kGBK | kUTF8

definition getEncodingName :: "encoding \<Rightarrow> string" where
  "getEncodingName enc = (if enc = kUTF8 then ''UTF-8'' else if enc = kUnicode then ''Unicode'' else ''Unknown'')"

text \<open>The loop of \<open>detectEncoding\<close> on the bytes from \<open>i\<close> on; it goes on while more than two are left.\<close>

fun detect_loop :: "byte list \<Rightarrow> encoding" where
  "detect_loop (a # b # c # rest) =
     (if a AND 0x80 \<noteq> 0 then
        if b AND 0x80 = 0 then kGBK
        else if a AND 0xE0 = 0xC0 then (if b AND 0xC0 = 0x80 then kGBK else detect_loop (c # rest))
        else if a AND 0xF0 = 0xE0 then (if b AND 0xC0 = 0x80 then (if c AND 0xC0 = 0x80 then kUTF8 else kGBK) else kGBK)
        else kGBK
      else detect_loop (b # c # rest))"
| "detect_loop _ = kUTF8"

definition detectEncoding :: "byte list \<Rightarrow> encoding" where
  "detectEncoding content =
     (if length content < 2 then kGBK
      else if content ! 0 = 0xFF \<and> content ! 1 = 0xFE then kUnicode
      else detect_loop content)"

fun countChineseCharsGbk :: "byte list \<Rightarrow> nat" where
  "countChineseCharsGbk [] = 0"
| "countChineseCharsGbk [a] = (if a AND 0x80 \<noteq> 0 then 1 else 0)"
| "countChineseCharsGbk (a # b # rest) = (if a AND 0x80 \<noteq> 0 then 1 + countChineseCharsGbk rest else countChineseCharsGbk (b # rest))"

text \<open>\<open>p\<close> starts at the second unit; the loop runs from 2 to the number of units.\<close>

definition ucs2_units :: "host_order \<Rightarrow> byte list \<Rightarrow> 16 word list" where
  "ucs2_units h content = map (\<lambda>i. obj_word h (subrange (2 * i) (2 * i + 2) content)) [0..<length content div 2]"

definition countChineseCharsUcs2 :: "host_order \<Rightarrow> byte list \<Rightarrow> nat result" where
  "countChineseCharsUcs2 h content =
     assert_ok (length content mod 2 = 0)
       (Inr (length (filter (\<lambda>u. 127 < u) (take (length content div 2 - 2) (drop 1 (ucs2_units h content))))))"

text \<open>\<open>abort\<close> is \<open>None\<close>. The index may step over the end of a text that is cut.\<close>

function (sequential) count_utf8 :: "byte list \<Rightarrow> nat \<Rightarrow> nat option" where
  "count_utf8 [] cnt = Some cnt"
| "count_utf8 (c # cs) cnt =
     (if c AND 0x80 = 0 then count_utf8 cs cnt
      else if c AND 0xe0 = 0xc0 then count_utf8 (drop 1 cs) cnt
      else if c AND 0xf0 = 0xe0 then count_utf8 (drop 2 cs) (cnt + 1)
      else None)"
  by pat_completeness auto
termination
  by (relation "measure (\<lambda>(cs, cnt). length cs)") auto

definition countChineseCharsUtf8 :: "byte list \<Rightarrow> nat option" where
  "countChineseCharsUtf8 content = count_utf8 content 0"

section \<open>Hashes\<close>

definition murmur_m :: "32 word" where "murmur_m = 0x5bd1e995"

definition mix_k :: "32 word \<Rightarrow> 32 word" where
  "mix_k k = (let k1 = k * murmur_m; k2 = k1 XOR drop_bit 24 k1 in k2 * murmur_m)"

text \<open>The last bytes, fewer than four; the cases of the \<open>switch\<close> fall through.\<close>

definition mix_tail :: "byte list \<Rightarrow> 32 word \<Rightarrow> 32 word" where
  "mix_tail data h =
     (let h3 = (if length data = 3 then h XOR push_bit 16 (ucast (data ! 2)) else h);
          h2 = (if length data \<in> {2, 3} then h3 XOR push_bit 8 (ucast (data ! 1)) else h3)
      in if length data \<in> {1, 2, 3} then (h2 XOR ucast (data ! 0)) * murmur_m else h2)"

fun murmur2_loop :: "host_order \<Rightarrow> byte list \<Rightarrow> 32 word \<Rightarrow> 32 word" where
  "murmur2_loop ho (a # b # c # d # data) h = murmur2_loop ho data ((h * murmur_m) XOR mix_k (obj_word ho [a, b, c, d]))"
| "murmur2_loop ho data h = mix_tail data h"

definition murmur2_final :: "32 word \<Rightarrow> 32 word" where
  "murmur2_final h =
     (let h1 = h XOR drop_bit 13 h; h2 = h1 * murmur_m in h2 XOR drop_bit 15 h2)"

definition MurmurHash2 :: "host_order \<Rightarrow> byte list \<Rightarrow> 32 word \<Rightarrow> 32 word" where
  "MurmurHash2 ho key seed = murmur2_final (murmur2_loop ho key (seed XOR of_nat (length key)))"

text \<open>The 64-bit variant alternates between two 32-bit states.\<close>

fun murmur64_loop :: "host_order \<Rightarrow> byte list \<Rightarrow> 32 word \<Rightarrow> 32 word \<Rightarrow> byte list \<times> 32 word \<times> 32 word" where
  "murmur64_loop ho (a # b # c # d # e # f # g # h # data) h1 h2 =
     murmur64_loop ho data ((h1 * murmur_m) XOR mix_k (obj_word ho [a, b, c, d])) ((h2 * murmur_m) XOR mix_k (obj_word ho [e, f, g, h]))"
| "murmur64_loop ho data h1 h2 = (data, h1, h2)"

definition MurmurHash64B :: "host_order \<Rightarrow> byte list \<Rightarrow> 32 word \<Rightarrow> 64 word" where
  "MurmurHash64B ho key seed =
     (let (data, h1, h2) = murmur64_loop ho key (seed XOR of_nat (length key)) 0;
          (data, h1) = (if 4 \<le> length data then (drop 4 data, (h1 * murmur_m) XOR mix_k (obj_word ho (take 4 data))) else (data, h1));
          h2 = mix_tail data h2;
          h1 = (h1 XOR drop_bit 18 h2) * murmur_m;
          h2 = (h2 XOR drop_bit 22 h1) * murmur_m;
          h1 = (h1 XOR drop_bit 17 h2) * murmur_m;
          h2 = (h2 XOR drop_bit 19 h1) * murmur_m
      in push_bit 32 (ucast h1) OR ucast h2)"

section \<open>UTF-8\<close>

text \<open>The encoding of a code point.\<close>

definition utf8 :: "nat \<Rightarrow> byte list" where
  "utf8 cp =
     (if cp < 0x80 then [of_nat cp]
      else if cp < 0x800 then [of_nat (0xC0 + cp div 64), of_nat (0x80 + cp mod 64)]
      else if cp < 0x10000 then [of_nat (0xE0 + cp div 4096), of_nat (0x80 + cp div 64 mod 64), of_nat (0x80 + cp mod 64)]
      else [of_nat (0xF0 + cp div 262144), of_nat (0x80 + cp div 4096 mod 64), of_nat (0x80 + cp div 64 mod 64), of_nat (0x80 + cp mod 64)])"

lemma byte_masks:
  "n < 0x80 \<Longrightarrow> (of_nat n :: byte) AND 0x80 = 0"
  "n < 64 \<Longrightarrow> (of_nat (0x80 + n) :: byte) AND 0xC0 = 0x80" "n < 64 \<Longrightarrow> (of_nat (0x80 + n) :: byte) AND 0x80 = 0x80"
  "n < 32 \<Longrightarrow> (of_nat (0xC0 + n) :: byte) AND 0xE0 = 0xC0" "n < 32 \<Longrightarrow> (of_nat (0xC0 + n) :: byte) AND 0x80 = 0x80"
  "n < 16 \<Longrightarrow> (of_nat (0xE0 + n) :: byte) AND 0xF0 = 0xE0" "n < 16 \<Longrightarrow> (of_nat (0xE0 + n) :: byte) AND 0x80 = 0x80"
  "n < 16 \<Longrightarrow> (of_nat (0xE0 + n) :: byte) AND 0xE0 = 0xE0"
  "n < 8 \<Longrightarrow> (of_nat (0xF0 + n) :: byte) AND 0xF0 = 0xF0" "n < 8 \<Longrightarrow> (of_nat (0xF0 + n) :: byte) AND 0xE0 = 0xE0" "n < 8 \<Longrightarrow> (of_nat (0xF0 + n) :: byte) AND 0x80 = 0x80"
  "n < 32 \<Longrightarrow> (of_nat (0xC0 + n) :: byte) AND 0xF0 \<noteq> 0xF0"
proof -
  have "list_all (\<lambda>n. (of_nat n :: byte) AND 0x80 = 0) [0..<0x80]"
    "list_all (\<lambda>n. (of_nat (0x80 + n) :: byte) AND 0xC0 = 0x80 \<and> (of_nat (0x80 + n) :: byte) AND 0x80 = 0x80) [0..<64]"
    "list_all (\<lambda>n. (of_nat (0xC0 + n) :: byte) AND 0xE0 = 0xC0 \<and> (of_nat (0xC0 + n) :: byte) AND 0x80 = 0x80 \<and> (of_nat (0xC0 + n) :: byte) AND 0xF0 \<noteq> 0xF0) [0..<32]"
    "list_all (\<lambda>n. (of_nat (0xE0 + n) :: byte) AND 0xF0 = 0xE0 \<and> (of_nat (0xE0 + n) :: byte) AND 0x80 = 0x80 \<and> (of_nat (0xE0 + n) :: byte) AND 0xE0 = 0xE0) [0..<16]"
    "list_all (\<lambda>n. (of_nat (0xF0 + n) :: byte) AND 0xF0 = 0xF0 \<and> (of_nat (0xF0 + n) :: byte) AND 0xE0 = 0xE0 \<and> (of_nat (0xF0 + n) :: byte) AND 0x80 = 0x80) [0..<8]"
    by code_simp+
  note all = this [unfolded list_all_iff]
  show "n < 0x80 \<Longrightarrow> (of_nat n :: byte) AND 0x80 = 0" using all(1) by simp
  show "n < 64 \<Longrightarrow> (of_nat (0x80 + n) :: byte) AND 0xC0 = 0x80" "n < 64 \<Longrightarrow> (of_nat (0x80 + n) :: byte) AND 0x80 = 0x80" using all(2) by simp_all
  show "n < 32 \<Longrightarrow> (of_nat (0xC0 + n) :: byte) AND 0xE0 = 0xC0" "n < 32 \<Longrightarrow> (of_nat (0xC0 + n) :: byte) AND 0x80 = 0x80"
    "n < 32 \<Longrightarrow> (of_nat (0xC0 + n) :: byte) AND 0xF0 \<noteq> 0xF0" using all(3) by simp_all
  show "n < 16 \<Longrightarrow> (of_nat (0xE0 + n) :: byte) AND 0xF0 = 0xE0" "n < 16 \<Longrightarrow> (of_nat (0xE0 + n) :: byte) AND 0x80 = 0x80"
    "n < 16 \<Longrightarrow> (of_nat (0xE0 + n) :: byte) AND 0xE0 = 0xE0" using all(4) by simp_all
  show "n < 8 \<Longrightarrow> (of_nat (0xF0 + n) :: byte) AND 0xF0 = 0xF0" "n < 8 \<Longrightarrow> (of_nat (0xF0 + n) :: byte) AND 0xE0 = 0xE0"
    "n < 8 \<Longrightarrow> (of_nat (0xF0 + n) :: byte) AND 0x80 = 0x80" using all(5) by simp_all
qed

lemma count_utf8_code_point:
  assumes "cp < 0x110000"
  shows "count_utf8 (utf8 cp @ rest) cnt =
    (if cp < 0x800 then count_utf8 rest cnt else if cp < 0x10000 then count_utf8 rest (cnt + 1) else None)"
proof -
  have d: "cp < 0x800 \<Longrightarrow> cp div 64 < 32" "cp < 0x10000 \<Longrightarrow> cp div 4096 < 16" "cp div 262144 < 8" using assms by simp_all
  consider "cp < 0x80" | "0x80 \<le> cp" "cp < 0x800" | "0x800 \<le> cp" "cp < 0x10000" | "0x10000 \<le> cp" by linarith
  then show ?thesis
  proof cases
    case 1
    then show ?thesis by (simp add: utf8_def byte_masks)
  next
    case 2
    then show ?thesis using d(1) by (simp add: utf8_def byte_masks del: of_nat_add)
  next
    case 3
    then show ?thesis using d(2) by (simp add: utf8_def byte_masks del: of_nat_add)
  next
    case 4
    then show ?thesis using d(3) by (simp add: utf8_def byte_masks del: of_nat_add)
  qed
qed

section \<open>The steps of the hash\<close>

lemma shift_fixed_zero:
  fixes z :: "'a::len word"
  assumes "z = drop_bit n z" "0 < n"
  shows "z = 0"
proof -
  have "z = drop_bit (k * n) z" for k
  proof (induction k)
    case (Suc k)
    then show ?case using assms(1) by (metis drop_bit_drop_bit mult_Suc)
  qed simp
  then have "z = drop_bit (LENGTH('a) * n) z" .
  moreover have "LENGTH('a) \<le> LENGTH('a) * n" using assms(2) by simp
  then have "drop_bit (LENGTH('a) * n) z = 0" by (intro bit_word_eqI) (auto simp: bit_drop_bit_eq dest: bit_imp_le_length)
  ultimately show ?thesis by simp
qed

lemma xorshift_inject:
  fixes x y :: "'a::len word"
  assumes "0 < n"
  shows "x XOR drop_bit n x = y XOR drop_bit n y \<longleftrightarrow> x = y"
proof
  assume "x XOR drop_bit n x = y XOR drop_bit n y"
  then have "x XOR y = drop_bit n x XOR drop_bit n y" by (metis xor.assoc xor.commute xor_self_eq xor.right_neutral)
  then have "x XOR y = drop_bit n (x XOR y)" by (subst drop_bit_xor)
  then have "x XOR y = 0" using assms by (rule shift_fixed_zero)
  then show "x = y" by (metis xor.assoc xor_self_eq xor.right_neutral xor.left_neutral)
qed simp

lemma murmur_m_inject: "x * murmur_m = y * murmur_m \<longleftrightarrow> x = y"
proof
  assume a: "x * murmur_m = y * murmur_m"
  have inv: "murmur_m * 0xe59b19bd = 1" by (simp add: murmur_m_def)
  have "x = x * (murmur_m * 0xe59b19bd)" "y = y * (murmur_m * 0xe59b19bd)" by (simp_all only: inv mult_1_right)
  with a show "x = y" by (metis mult.assoc)
qed simp

lemma xor_cancel: "x XOR z = y XOR z \<longleftrightarrow> x = (y :: 'a::len word)" "z XOR x = z XOR y \<longleftrightarrow> x = y"
  by (metis xor.assoc xor_self_eq xor.right_neutral xor.commute)+

lemma mix_k_inject: "mix_k x = mix_k y \<longleftrightarrow> x = y"
  by (simp add: mix_k_def Let_def murmur_m_inject xorshift_inject)

lemma murmur2_final_inject: "murmur2_final x = murmur2_final y \<longleftrightarrow> x = y"
  by (simp add: murmur2_final_def Let_def murmur_m_inject xorshift_inject)

lemma obj_word_inject4: "(obj_word ho [a, b, c, d] :: 32 word) = obj_word ho [a', b', c', d'] \<longleftrightarrow> [a, b, c, d] = [a', b', c', d']"
proof -
  have r: "be_bytes (swap_to_be ho (obj_word ho z :: 32 word)) = z" if "length z = 4" for z using that by (intro be_bytes_obj_word) simp_all
  have "be_bytes (swap_to_be ho (obj_word ho [a, b, c, d] :: 32 word)) = [a, b, c, d]" "be_bytes (swap_to_be ho (obj_word ho [a', b', c', d'] :: 32 word)) = [a', b', c', d']"
    by (rule r, simp)+
  then show ?thesis by metis
qed

section \<open>Properties\<close>


text \<open>The detection of UTF-8 depends on the first character that is not ASCII: a three-byte character is recognised, but a character of
  two bytes, such as an accented letter, makes the whole text GBK.\<close>

theorem utf8_detection:
  assumes "\<forall>a\<in>set as. a < 0x80" "0x80 \<le> cp" "cp < 0x10000" "rest \<noteq> []"
  shows "detectEncoding (map of_nat as @ utf8 cp @ rest) = (if cp < 0x800 then kGBK else kUTF8)"
proof -
  let ?e = "if cp < 0x800 then kGBK else kUTF8"
  have d: "cp < 0x800 \<Longrightarrow> cp div 64 < 32" "cp div 4096 < 16" using assms(3) by simp_all
  obtain r rs where rest: "rest = r # rs" using assms(4) by (cases rest) auto
  have u: "detect_loop (utf8 cp @ rest) = ?e \<and> 3 \<le> length (utf8 cp @ rest) \<and> hd (utf8 cp) AND 0xF0 \<noteq> 0xF0 \<and> utf8 cp \<noteq> []"
  proof (cases "cp < 0x800")
    case True
    let ?a = "of_nat (0xC0 + cp div 64) :: byte" and ?b = "of_nat (0x80 + cp mod 64) :: byte"
    have m: "?a AND 0x80 = 0x80" "?a AND 0xE0 = 0xC0" "?b AND 0xC0 = 0x80" "?b AND 0x80 = 0x80" using d(1) [OF True] byte_masks by simp_all
    have "?a AND 0xF0 \<noteq> 0xF0" by (rule byte_masks(12) [OF d(1) [OF True]])
    then show ?thesis using True assms(2) rest m unfolding utf8_def by simp
  next
    case False
    let ?a = "of_nat (0xE0 + cp div 4096) :: byte" and ?b = "of_nat (0x80 + cp div 64 mod 64) :: byte" and ?c = "of_nat (0x80 + cp mod 64) :: byte"
    have m: "?a AND 0x80 = 0x80" "?a AND 0xE0 = 0xE0" "?a AND 0xF0 = 0xE0" "?b AND 0xC0 = 0x80" "?b AND 0x80 = 0x80" "?c AND 0xC0 = 0x80"
      using d(2) byte_masks by simp_all
    then show ?thesis using False assms(2,3) rest unfolding utf8_def by simp
  qed
  have skip: "detect_loop (of_nat a # t) = detect_loop t" if "a < 0x80" "2 \<le> length t" for a t
    using that by (cases t; cases "tl t") (auto simp: byte_masks)
  have "detect_loop (map of_nat as @ utf8 cp @ rest) = ?e"
    using assms(1) u by (induction as) (simp_all add: skip)
  moreover have "hd (map of_nat as @ utf8 cp @ rest) \<noteq> 0xFF"
  proof (cases as)
    case Nil
    then show ?thesis using u by auto
  next
    case (Cons a t)
    then show ?thesis using assms(1) byte_masks(1) [of a] by auto
  qed
  moreover have "2 \<le> length (map of_nat as @ utf8 cp @ rest)" using u by simp
  ultimately show ?thesis using u by (simp add: detectEncoding_def hd_conv_nth)
qed

text \<open>Counting in UCS-2 leaves out the last character: for a text of a mark and characters it returns the number of characters
  beyond ASCII among all but the last.\<close>

theorem ucs2_last_uncounted:
  fixes bom u :: "16 word" and us :: "16 word list"
  shows
  "countChineseCharsUcs2 h (concat (map (obj_bytes h) (bom # us @ [u]))) = Inr (length (filter (\<lambda>u. 127 < u) us))"
proof -
  have len: "length (concat (map (obj_bytes h) (xs :: 16 word list))) = 2 * length xs" for xs by (induction xs) simp_all
  have units: "ucs2_units h (concat (map (obj_bytes h) xs)) = xs" for xs
  proof (rule nth_equalityI)
    show "length (ucs2_units h (concat (map (obj_bytes h) xs))) = length xs" by (simp add: ucs2_units_def len)
    fix i assume "i < length (ucs2_units h (concat (map (obj_bytes h) xs)))"
    then have i: "i < length xs" by (simp add: ucs2_units_def len)
    have "concat (map (obj_bytes h) xs) = concat (map (obj_bytes h) (take i xs)) @ obj_bytes h (xs ! i) @ concat (map (obj_bytes h) (drop (Suc i) xs))"
      using id_take_nth_drop [OF i] by (metis concat.simps(2) concat_append list.simps(9) map_append)
    then have "subrange (2 * i) (2 * i + 2) (concat (map (obj_bytes h) xs)) = obj_bytes h (xs ! i)" using i by (simp add: subrange_def len)
    then show "ucs2_units h (concat (map (obj_bytes h) xs)) ! i = xs ! i" using i by (simp add: ucs2_units_def len obj_word_obj_bytes)
  qed
  show ?thesis unfolding countChineseCharsUcs2_def len units by simp
qed

text \<open>The hash of keys of four bytes has no collisions: with the same seed and host, different keys have different values.\<close>

theorem murmur_word_injective:
  assumes "length x = 4" "length y = 4"
  shows "MurmurHash2 ho x seed = MurmurHash2 ho y seed \<longleftrightarrow> x = y"
proof -
  obtain a b c d where x: "x = [a, b, c, d]" using assms(1) by (auto simp: length_Suc_conv numeral_eq_Suc)
  obtain a' b' c' d' where y: "y = [a', b', c', d']" using assms(2) by (auto simp: length_Suc_conv numeral_eq_Suc)
  have t: "mix_tail [] h = h" for h by (simp add: mix_tail_def)
  show ?thesis unfolding x y MurmurHash2_def by (simp add: murmur2_final_inject t xor_cancel mix_k_inject obj_word_inject4)
qed


theorem utf8_detection_witness:
  "detectEncoding (map of_nat [0x41] @ utf8 0xE9 @ [0x42]) = kGBK \<and> detectEncoding (map of_nat [0x41] @ utf8 0x4E2D @ [0x42]) = kUTF8"
  using utf8_detection [of "[0x41]" "0xE9" "[0x42]"] utf8_detection [of "[0x41]" "0x4E2D" "[0x42]"] by simp

theorem murmur_word_injective_witness: "MurmurHash2 LittleEndian [1, 2, 3, 4] 7 \<noteq> MurmurHash2 LittleEndian [1, 2, 3, 5] 7"
  using murmur_word_injective [of "[1, 2, 3, 4]" "[1, 2, 3, 5]" LittleEndian 7] by simp

end
