(* ===== verification/Text_Helpers.thy ===== *)
theory Text_Helpers
  imports Muduo_Prelude "HOL-Library.List_Lexorder" "HOL-Library.Sublist"
begin

text \<open>
  Helpers for text and files: \<open>StringPiece\<close> (\<open>src/muduo/base/StringPiece.h\<close>) and the functions of \<open>src/muduo/base/common.cpp\<close> that
  trim and split strings, create directories and rewrite lines of a file. A string piece is the bytes it points to. System
  calls are arguments. Shown: the comparisons of string pieces are the lexicographic order of their bytes; splitting cuts
  a text at the separators and loses nothing; trimming leaves a text of nothing but the character alone;
  \<open>CreateFullDir\<close> reports success whatever happened; a long line makes \<open>ReplaceLineInFile\<close> lose the rest of the file.
\<close>

section \<open>StringPiece\<close>

type_synonym string_piece = "byte list"

text \<open>\<open>memcmp\<close> of two areas of the same size: the sign of the first difference.\<close>

fun memcmp :: "byte list \<Rightarrow> byte list \<Rightarrow> int" where
  "memcmp (a # as) (b # bs) = (if a < b then -1 else if b < a then 1 else memcmp as bs)"
| "memcmp _ _ = 0"

definition sp_memcmp :: "string_piece \<Rightarrow> string_piece \<Rightarrow> int" where
  "sp_memcmp x y = (let n = (if length x < length y then length x else length y) in memcmp (take n x) (take n y))"

definition sp_equal :: "string_piece \<Rightarrow> string_piece \<Rightarrow> bool" where
  "sp_equal x y \<longleftrightarrow> length x = length y \<and> memcmp x y = 0"

definition sp_less :: "string_piece \<Rightarrow> string_piece \<Rightarrow> bool" where
  "sp_less x y \<longleftrightarrow> (let r = sp_memcmp x y in r < 0 \<or> r = 0 \<and> length x < length y)"

definition sp_less_eq :: "string_piece \<Rightarrow> string_piece \<Rightarrow> bool" where
  "sp_less_eq x y \<longleftrightarrow> (let r = sp_memcmp x y in r < 0 \<or> r = 0 \<and> length x \<le> length y)"

definition sp_compare :: "string_piece \<Rightarrow> string_piece \<Rightarrow> int" where
  "sp_compare x y =
     (let r = sp_memcmp x y in if r = 0 then (if length x < length y then -1 else if length y < length x then 1 else r) else r)"

definition sp_starts_with :: "string_piece \<Rightarrow> string_piece \<Rightarrow> bool" where
  "sp_starts_with x y \<longleftrightarrow> length y \<le> length x \<and> memcmp (take (length y) x) y = 0"

definition remove_prefix :: "nat \<Rightarrow> string_piece \<Rightarrow> string_piece" where
  "remove_prefix n x = drop n x"

definition remove_suffix :: "nat \<Rightarrow> string_piece \<Rightarrow> string_piece" where
  "remove_suffix n x = take (length x - n) x"

section \<open>Strings\<close>

definition find_first_not_of :: "char \<Rightarrow> string \<Rightarrow> nat option" where
  "find_first_not_of c str = (if \<forall>x\<in>set str. x = c then None else Some (length (takeWhile (\<lambda>x. x = c) str)))"

definition find_last_not_of :: "char \<Rightarrow> string \<Rightarrow> nat option" where
  "find_last_not_of c str = (if \<forall>x\<in>set str. x = c then None else Some (length str - 1 - length (takeWhile (\<lambda>x. x = c) (rev str))))"

definition stringTrimEx :: "char \<Rightarrow> string \<Rightarrow> string" where
  "stringTrimEx c sInput =
     (case (find_first_not_of c sInput, find_last_not_of c sInput) of
        (Some front, Some back) \<Rightarrow> take (back - front + 1) (drop front sInput)
      | _ \<Rightarrow> sInput)"

definition toupper :: "char \<Rightarrow> char" where
  "toupper c = (if 97 \<le> (of_char c :: nat) \<and> (of_char c :: nat) \<le> 122 then char_of ((of_char c :: nat) - 32) else c)"

definition MakeUpper :: "string \<Rightarrow> string" where
  "MakeUpper sInput = map toupper sInput"

definition MakeLower :: "string \<Rightarrow> string" where
  "MakeLower sInput = map tolower sInput"

text \<open>The loop of \<open>SplitString\<close>, from the position \<open>pos1\<close> with the next separator at \<open>pos2\<close>; \<open>None\<close> is a loop that does not end within
  the fuel.\<close>

fun split_loop :: "nat \<Rightarrow> string \<Rightarrow> string \<Rightarrow> nat \<Rightarrow> nat option \<Rightarrow> string list \<Rightarrow> (nat \<times> string list) option" where
  "split_loop fuel str c pos1 None v = Some (pos1, v)"
| "split_loop 0 str c pos1 (Some pos2) v = None"
| "split_loop (Suc fuel) str c pos1 (Some pos2) v =
     (let piece = take (pos2 - pos1) (drop pos1 str); pos1' = pos2 + length c
      in split_loop fuel str c pos1' (str_find str c pos1') (v @ [piece]))"

text \<open>The pieces in the order they are inserted; the set of the code sorts them and keeps one of each.\<close>

definition split_pieces :: "nat \<Rightarrow> string \<Rightarrow> string \<Rightarrow> string list option" where
  "split_pieces fuel str c =
     (case str_find str c 0 of
        None \<Rightarrow> Some [str]
      | Some pos2 \<Rightarrow> map_option (\<lambda>(pos1, v). if pos1 \<noteq> length str then v @ [drop pos1 str] else v) (split_loop fuel str c 0 (Some pos2) []))"

definition SplitString :: "nat \<Rightarrow> string \<Rightarrow> string set \<Rightarrow> string \<Rightarrow> (string \<times> string set) option" where
  "SplitString fuel str v c =
     map_option (\<lambda>ps. let v' = v \<union> set ps
       in (if str_find str c 0 = None then str
           else stringTrimEx (CHR '' '') (concat (map (\<lambda>p. p @ '' '') (sorted_list_of_set v'))), v')) (split_pieces fuel str c)"

section \<open>Directories and files\<close>

text \<open>\<open>mkpath\<close>: \<open>mkdir\<close> gives the result and the error number; \<open>indet\<close> is what the variable \<open>mdret\<close> holds before the first call.\<close>

definition EEXIST :: int where "EEXIST = 17"

fun mkpath_loop :: "(string \<Rightarrow> 'w \<Rightarrow> int \<times> int \<times> 'w) \<Rightarrow> string \<Rightarrow> nat list \<Rightarrow> int \<Rightarrow> 'w \<Rightarrow> int \<times> 'w" where
  "mkpath_loop mkdir str [] mdret w = (mdret, w)"
| "mkpath_loop mkdir str (pos # ps) mdret w =
     (let dir = take pos str
      in if dir = [] then mkpath_loop mkdir str ps mdret w
         else let (mdret', errno, w') = mkdir dir w
              in if mdret' \<noteq> 0 \<and> errno \<noteq> EEXIST then (mdret', w') else mkpath_loop mkdir str ps mdret' w')"

definition mkpath :: "(string \<Rightarrow> 'w \<Rightarrow> int \<times> int \<times> 'w) \<Rightarrow> int \<Rightarrow> string \<Rightarrow> 'w \<Rightarrow> (int \<times> 'w) result" where
  "mkpath mkdir indet str w =
     (if str = [] then Inl OutOfBounds
      else let s1 = (if last str \<noteq> CHR ''/'' then str @ ''/'' else str)
           in Inr (mkpath_loop mkdir s1 (filter (\<lambda>i. s1 ! i = CHR ''/'') [0..<length s1]) indet w))"

text \<open>\<open>CreateFullDir\<close>; the conditional of the last line chooses between two string literals, which are never null.\<close>

definition CreateFullDir :: "(string \<Rightarrow> 'w \<Rightarrow> bool) \<Rightarrow> (string \<Rightarrow> 'w \<Rightarrow> int \<times> int \<times> 'w) \<Rightarrow> int \<Rightarrow> string \<Rightarrow> 'w \<Rightarrow> (bool \<times> 'w) result" where
  "CreateFullDir isPathExist mkdir indet dir w =
     (if isPathExist dir w then Inr (True, w)
      else rbind (mkpath mkdir indet dir w) (\<lambda>(r, w'). Inr ((if r \<noteq> 0 then Some ''false'' else Some ''true'') \<noteq> None, w')))"

text \<open>\<open>istream::getline\<close> into an array of \<open>n\<close> characters: the line and the rest of the stream, or a failed stream.\<close>

definition stream_getline :: "nat \<Rightarrow> string \<Rightarrow> (string \<times> string) option" where
  "stream_getline n inp =
     (let l = takeWhile (\<lambda>c. c \<noteq> CHR 0x0A) inp
      in if inp = [] \<or> n \<le> length l then None else Some (l, drop (length l + 1) inp))"

definition replace_line :: "string \<Rightarrow> string \<Rightarrow> string \<Rightarrow> string" where
  "replace_line spec newline line = (if str_find line spec 0 = None then line else newline @ drop (length spec) line)"

function replace_lines :: "string \<Rightarrow> string \<Rightarrow> string \<Rightarrow> string \<Rightarrow> string" where
  "replace_lines spec newline inp tempStr =
     (case stream_getline 4096 inp of None \<Rightarrow> tempStr
      | Some (line, rest) \<Rightarrow> replace_lines spec newline rest (tempStr @ replace_line spec newline line @ [CHR 0x0A]))"
  by pat_completeness auto
termination
  by (relation "measure (\<lambda>(spec, newline, inp, tempStr). length inp)") (auto simp: stream_getline_def Let_def split: if_splits)

declare replace_lines.simps [simp del]

text \<open>\<open>ReplaceLineInFile\<close>: the file before, if it can be opened, and after, if it can be written. Lines are C strings, so the text has no zero characters.\<close>

definition ReplaceLineInFile :: "string option \<Rightarrow> bool \<Rightarrow> string \<Rightarrow> string \<Rightarrow> string option" where
  "ReplaceLineInFile old writable spec newline =
     (case old of None \<Rightarrow> None | Some inp \<Rightarrow> Some (if writable then replace_lines spec newline inp [] else inp))"

section \<open>Comparison\<close>

lemma Nil_less: "[] < xs \<longleftrightarrow> xs \<noteq> ([] :: byte list)"
  by (cases xs) simp_all

lemma memcmp_take: "memcmp (take (min (length x) (length y)) x) (take (min (length x) (length y)) y) = memcmp x y"
  by (induction x y rule: memcmp.induct) auto

lemma sp_memcmp_eq: "sp_memcmp x y = memcmp x y"
  using memcmp_take [of x y] by (auto simp: sp_memcmp_def Let_def min_def split: if_splits)

lemma memcmp_less: "memcmp x y < 0 \<or> memcmp x y = 0 \<and> length x < length y \<longleftrightarrow> x < y"
  by (induction x y rule: memcmp.induct) (auto simp: Nil_less)

lemma memcmp_greater: "0 < memcmp x y \<or> memcmp x y = 0 \<and> length y < length x \<longleftrightarrow> y < x"
  by (induction x y rule: memcmp.induct) (auto simp: Nil_less)

lemma memcmp_equal: "length x = length y \<Longrightarrow> memcmp x y = 0 \<longleftrightarrow> x = y"
  by (induction x y rule: memcmp.induct) auto

section \<open>Finding\<close>

lemma str_find_Some:
  assumes "str_find str c p = Some q" "c \<noteq> []"
  shows "p \<le> q" "q + length c \<le> length str" "drop p str = take (q - p) (drop p str) @ c @ drop (q + length c) str"
    "str_find (take (q - p) (drop p str)) c 0 = None"
proof -
  let ?i = "std_search c (drop p str)"
  have q: "q = p + ?i" "p \<le> length str" "take (length c) (drop ?i (drop p str)) = c" using assms(1) by (auto simp: str_find_def Let_def split: if_splits)
  then show pq: "p \<le> q" by simp
  have "length (take (length c) (drop ?i (drop p str))) = length c" using q(3) by simp
  then have "length c \<le> length str - (p + ?i)" by (simp add: add.commute)
  moreover have "0 < length c" using assms(2) by simp
  ultimately show len: "q + length c \<le> length str" using q(1) by linarith
  have "drop p str = take ?i (drop p str) @ take (length c) (drop ?i (drop p str)) @ drop (length c) (drop ?i (drop p str))" by (metis append_take_drop_id)
  then show "drop p str = take (q - p) (drop p str) @ c @ drop (q + length c) str" using q(1,3) by (simp add: add.commute add.left_commute)
  show "str_find (take (q - p) (drop p str)) c 0 = None"
  proof (rule ccontr)
    assume "str_find (take (q - p) (drop p str)) c 0 \<noteq> None"
    then obtain j where j: "take (length c) (drop j (take ?i (drop p str))) = c" using q(1) by (auto simp: str_find_def Let_def split: if_splits)
    have "length (take (length c) (drop j (take ?i (drop p str)))) = length c" using j by simp
    then have "length c \<le> ?i - j" by simp
    moreover have "0 < length c" using assms(2) by simp
    ultimately have "j + length c \<le> ?i" "j < ?i" by linarith+
    moreover from this have "take (length c) (drop j (drop p str)) = c" using j by (auto simp: drop_take min_def split: if_splits)
    ultimately show False using std_search_first by blast
  qed
qed

lemma str_find_None_drop: "p \<le> length str \<Longrightarrow> str_find str c p = None \<Longrightarrow> str_find (drop p str) c 0 = None"
  by (simp add: str_find_def Let_def split: if_splits)

lemma str_find_empty: "p \<le> length str \<Longrightarrow> str_find str [] p = Some p"
proof -
  have "std_search [] xs = 0" for xs :: string by (cases xs) simp_all
  then show "p \<le> length str \<Longrightarrow> str_find str [] p = Some p" by (simp add: str_find_def)
qed

lemma split_loop_ok:
  assumes "c \<noteq> []" "pos1 \<le> length str" "length str - pos1 \<le> fuel"
  shows "\<exists>pos1' v'. split_loop fuel str c pos1 (str_find str c pos1) v = Some (pos1', v @ v') \<and> pos1' \<le> length str \<and>
    drop pos1 str = concat (map (\<lambda>p. p @ c) v') @ drop pos1' str \<and> (\<forall>p\<in>set v'. str_find p c 0 = None) \<and> str_find (drop pos1' str) c 0 = None \<and>
    (str_find str c pos1 \<noteq> None \<longrightarrow> v' \<noteq> [])"
  using assms
proof (induction fuel arbitrary: pos1 v)
  case 0
  then have "drop pos1 str = []" by simp
  then have "str_find str c pos1 = None" using 0(1) by (simp add: str_find_def)
  then show ?case using 0(2) str_find_None_drop by fastforce
next
  case (Suc fuel)
  show ?case
  proof (cases "str_find str c pos1")
    case None
    then show ?thesis using Suc.prems(2) str_find_None_drop by fastforce
  next
    case (Some q)
    note f = str_find_Some [OF Some Suc.prems(1)]
    let ?p = "take (q - pos1) (drop pos1 str)"
    have n: "length str - (q + length c) \<le> fuel" using f(1,2) Suc.prems(1,3) by (cases c) auto
    obtain pos1' v' where r: "split_loop fuel str c (q + length c) (str_find str c (q + length c)) (v @ [?p]) = Some (pos1', (v @ [?p]) @ v')" "pos1' \<le> length str"
      "drop (q + length c) str = concat (map (\<lambda>p. p @ c) v') @ drop pos1' str" "\<forall>p\<in>set v'. str_find p c 0 = None" "str_find (drop pos1' str) c 0 = None"
      using Suc.IH [OF Suc.prems(1) f(2) n, of "v @ [?p]"] by blast
    have "drop pos1 str = concat (map (\<lambda>p. p @ c) (?p # v')) @ drop pos1' str" using f(3) r(3) by simp
    then show ?thesis using Some r f(4) by (intro exI [of _ pos1'] exI [of _ "?p # v'"]) (simp add: Let_def)
  qed
qed

section \<open>Properties\<close>

text \<open>C38. The operators of string pieces are the lexicographic order of their bytes: equality, the strict and the weak order and the sign of
  \<open>compare\<close> agree with it, and \<open>starts_with\<close> is the prefix relation.\<close>

theorem string_piece_order:
  "(sp_equal x y \<longleftrightarrow> x = y) \<and> (sp_less x y \<longleftrightarrow> x < y) \<and> (sp_less_eq x y \<longleftrightarrow> x \<le> y) \<and>
   (sp_compare x y < 0 \<longleftrightarrow> x < y) \<and> (sp_compare x y = 0 \<longleftrightarrow> x = y) \<and> (sp_compare x y > 0 \<longleftrightarrow> y < x) \<and>
   (sp_starts_with x y \<longleftrightarrow> prefix y x)"
proof -
  note less = memcmp_less [of x y] and greater = memcmp_greater [of x y]
  have e: "memcmp x y = 0 \<and> length x = length y \<longleftrightarrow> x = y" using memcmp_equal [of x y] by (cases "x = y") auto
  have "sp_equal x y \<longleftrightarrow> x = y" using e by (auto simp: sp_equal_def)
  moreover have "sp_less x y \<longleftrightarrow> x < y" using less by (simp add: sp_less_def sp_memcmp_eq)
  moreover have "sp_less_eq x y \<longleftrightarrow> x \<le> y" using less e by (auto simp: sp_less_eq_def sp_memcmp_eq le_less)
  moreover have "sp_compare x y < 0 \<longleftrightarrow> x < y" "sp_compare x y > 0 \<longleftrightarrow> y < x" "sp_compare x y = 0 \<longleftrightarrow> x = y"
    using less greater e by (auto simp: sp_compare_def sp_memcmp_eq Let_def)
  moreover have "sp_starts_with x y \<longleftrightarrow> prefix y x"
    using memcmp_equal [of "take (length y) x" y] by (auto simp: sp_starts_with_def prefix_def) (metis append_take_drop_id)
  ultimately show ?thesis by blast
qed

text \<open>Trimming removes the character at both ends, except that a text of nothing else is left as it is.\<close>

theorem trim_both_ends:
  "stringTrimEx c str = (if \<forall>x\<in>set str. x = c then str else rev (dropWhile (\<lambda>x. x = c) (rev (dropWhile (\<lambda>x. x = c) str))))"
proof (cases "\<forall>x\<in>set str. x = c")
  case True
  then show ?thesis by (simp add: stringTrimEx_def find_first_not_of_def)
next
  case False
  define f b where "f = length (takeWhile (\<lambda>x. x = c) str)" and "b = length (takeWhile (\<lambda>x. x = c) (rev str))"
  define mid where "mid = dropWhile (\<lambda>x. x = c) str"
  have mid: "mid = drop f str" by (simp add: mid_def f_def dropWhile_eq_drop)
  have ne: "mid \<noteq> []" using False by (simp add: mid_def)
  then have hd: "hd mid \<noteq> c" using hd_dropWhile [of "\<lambda>x. x = c" str] by (simp add: mid_def)
  have str: "str = takeWhile (\<lambda>x. x = c) str @ mid" by (simp add: mid_def)
  have nall: "\<exists>x\<in>set (rev mid). x \<noteq> c" using ne hd by (metis hd_in_set set_rev)
  have tb: "takeWhile (\<lambda>x. x = c) (rev str) = takeWhile (\<lambda>x. x = c) (rev mid)"
    using nall by (subst str) (auto simp: takeWhile_append1)
  have "takeWhile (\<lambda>x. x = c) (rev mid) \<noteq> rev mid" using nall by (metis set_takeWhileD)
  then have "length (takeWhile (\<lambda>x. x = c) (rev mid)) \<noteq> length (rev mid)" by (metis takeWhile_eq_take take_all order_refl)
  then have "b < length mid" unfolding b_def tb using length_takeWhile_le [of "\<lambda>x. x = c" "rev mid"] by simp
  have len: "length str = f + length mid" using mid ne by simp
  have "stringTrimEx c str = take (length str - 1 - b - f + 1) (drop f str)"
    using False by (auto simp: stringTrimEx_def find_first_not_of_def find_last_not_of_def f_def b_def)
  also have "length str - 1 - b - f + 1 = length mid - b" using \<open>b < length mid\<close> len by linarith
  also have "drop f str = mid" by (rule mid [symmetric])
  also have "take (length mid - b) mid = rev (dropWhile (\<lambda>x. x = c) (rev mid))" by (simp add: dropWhile_eq_drop b_def tb rev_drop)
  finally show ?thesis using False by (auto simp: mid_def)
qed

text \<open>Splitting cuts at the separators and loses nothing: with a separator that is not empty the loop ends, the pieces contain no
  separator, and with separators behind all but the last they make up the text; an empty last piece is left out.\<close>

theorem split_cuts_text:
  assumes "c \<noteq> []"
  shows "\<exists>ps lst. split_pieces (length str) str c = Some (ps @ (if lst = [] \<and> ps \<noteq> [] then [] else [lst])) \<and>
    str = concat (map (\<lambda>p. p @ c) ps) @ lst \<and> (\<forall>p\<in>set (lst # ps). str_find p c 0 = None)"
proof (cases "str_find str c 0")
  case None
  then show ?thesis by (intro exI [of _ "[]"] exI [of _ str]) (simp add: split_pieces_def)
next
  case (Some q)
  obtain pos1' v' where r: "split_loop (length str) str c 0 (Some q) [] = Some (pos1', v')" "pos1' \<le> length str" "str = concat (map (\<lambda>p. p @ c) v') @ drop pos1' str"
    "\<forall>p\<in>set v'. str_find p c 0 = None" "str_find (drop pos1' str) c 0 = None" "v' \<noteq> []"
    using split_loop_ok [OF assms, of 0 str "length str" "[]"] Some by auto
  then show ?thesis using Some by (intro exI [of _ v'] exI [of _ "drop pos1' str"]) (auto simp: split_pieces_def)
qed

text \<open>With an empty separator the loop never ends, however long it runs.\<close>

theorem split_empty_separator: "SplitString fuel str v [] = None"
proof -
  have "split_loop fuel str [] pos1 (Some pos1) ps = None" if "pos1 \<le> length str" for pos1 ps
    using that by (induction fuel arbitrary: ps) (simp_all add: str_find_empty)
  from this [of 0] show ?thesis by (simp add: SplitString_def split_pieces_def str_find_empty)
qed

text \<open>\<open>CreateFullDir\<close> always reports success: whatever exists and whatever \<open>mkdir\<close> answers, the result for a path is true.\<close>

theorem create_full_dir_true: "\<exists>w'. CreateFullDir isPathExist mkdir indet (x # xs) w = Inr (True, w')"
proof -
  obtain r w' where "mkpath mkdir indet (x # xs) w = Inr (r, w')" by (fastforce simp: mkpath_def Let_def)
  then show ?thesis by (simp add: CreateFullDir_def)
qed

text \<open>Lines that fit into the array of \<open>ReplaceLineInFile\<close>.\<close>

definition plain_line :: "string \<Rightarrow> bool" where
  "plain_line l \<longleftrightarrow> CHR 0x0A \<notin> set l \<and> length l < 4096"

lemma getline_plain: "plain_line l \<Longrightarrow> stream_getline 4096 (l @ CHR 0x0A # rest) = Some (l, rest)"
  by (auto simp: stream_getline_def plain_line_def takeWhile_append)

lemma replace_lines_plain:
  assumes "\<forall>l\<in>set ls. plain_line l"
  shows "replace_lines spec newline (concat (map (\<lambda>l. l @ [CHR 0x0A]) ls) @ rest) acc =
    replace_lines spec newline rest (acc @ concat (map (\<lambda>l. replace_line spec newline l @ [CHR 0x0A]) ls))"
  using assms
proof (induction ls arbitrary: acc)
  case (Cons l ls)
  have "plain_line l" using Cons.prems by simp
  from getline_plain [OF this] Cons show ?case by (subst replace_lines.simps) simp
qed simp

text \<open>Replacing lines: for a file whose lines have at most 4095 characters every line is kept, and the ones that contain the given text
  get the new beginning in place of as many of their characters. The file ends with a line feed afterwards.\<close>

theorem replace_lines_in_file:
  assumes "\<forall>l\<in>set ls. plain_line l"
  shows "ReplaceLineInFile (Some (concat (map (\<lambda>l. l @ [CHR 0x0A]) ls))) True spec newline =
    Some (concat (map (\<lambda>l. replace_line spec newline l @ [CHR 0x0A]) ls))"
proof -
  have "replace_lines spec newline [] acc = acc" for acc by (subst replace_lines.simps) (simp add: stream_getline_def)
  then show ?thesis using replace_lines_plain [OF assms, of spec newline "[]" "[]"] by (simp add: ReplaceLineInFile_def)
qed

text \<open>A line of 4096 characters or more ends the reading: it and everything behind it are gone from the file that is written back.\<close>

theorem long_line_truncates:
  assumes "\<forall>l\<in>set ls. plain_line l" "4096 \<le> length l" "CHR 0x0A \<notin> set l"
  shows "ReplaceLineInFile (Some (concat (map (\<lambda>l. l @ [CHR 0x0A]) ls) @ l @ [CHR 0x0A] @ rest)) True spec newline =
    Some (concat (map (\<lambda>l. replace_line spec newline l @ [CHR 0x0A]) ls))"
proof -
  have "stream_getline 4096 (l @ [CHR 0x0A] @ rest) = None" using assms(2,3) by (simp add: stream_getline_def takeWhile_append)
  then have "replace_lines spec newline (l @ [CHR 0x0A] @ rest) acc = acc" for acc by (subst replace_lines.simps) simp
  then show ?thesis using replace_lines_plain [OF assms(1), of spec newline "l @ [CHR 0x0A] @ rest" "[]"] by (simp add: ReplaceLineInFile_def)
qed

theorem split_cuts_text_witness:
  "\<exists>ps lst. split_pieces 6 ''a, b,c'' '', '' = Some (ps @ (if lst = [] \<and> ps \<noteq> [] then [] else [lst])) \<and>
     ''a, b,c'' = concat (map (\<lambda>p. p @ '', '') ps) @ lst \<and> (\<forall>p\<in>set (lst # ps). str_find p '', '' 0 = None)"
proof -
  have len: "length ''a, b,c'' = 6" by simp
  show ?thesis by (rule split_cuts_text [of "'', ''" "''a, b,c''", unfolded len]) simp
qed

theorem replace_lines_in_file_witness:
  "ReplaceLineInFile (Some (concat (map (\<lambda>l. l @ [CHR 0x0A]) [''File=./a'', ''x'']))) True ''File=.'' ''File=/r'' =
     Some (concat (map (\<lambda>l. l @ [CHR 0x0A]) [''File=/r/a'', ''x'']))"
  using replace_lines_in_file [of "[''File=./a'', ''x'']" "''File=.''" "''File=/r''"]
  by (simp add: plain_line_def replace_line_def str_find_def)

theorem long_line_truncates_witness:
  "ReplaceLineInFile (Some (concat (map (\<lambda>l. l @ [CHR 0x0A]) [''a'']) @ replicate 4096 (CHR ''x'') @ [CHR 0x0A] @ ''b'')) True ''y'' ''z'' = Some (''a'' @ [CHR 0x0A])"
  using long_line_truncates [of "[''a'']" "replicate 4096 (CHR ''x'')" "''b''" "''y''" "''z''"]
  by (simp add: plain_line_def replace_line_def str_find_def)

end
