(* ===== verification/Memory_Buffer.thy ===== *)
theory Memory_Buffer
  imports Net_Buffer
begin

text \<open>
  Thrift's memory buffer as vendored in the repository
  (\<open>src/thirdpart/thrift/thrift-0.9.3/lib/cpp/src/thrift/transport/TBufferTransports.h\<close> and \<open>.cpp\<close>, and the
  loop \<open>readAll\<close> of \<open>TTransport.h\<close>): the storage under every message of the RPC layer. Pointers into the
  buffer are offsets. Sizes are \<open>uint32_t\<close>; where the code computes a size, the wrap-around is written out.
  \<open>malloc\<close> and \<open>realloc\<close> succeed, except that \<open>realloc\<close> to size zero releases the memory and returns null.
\<close>

section \<open>The object\<close>

record memory_buffer =
  mb_data :: "byte list"      \<comment> \<open>the memory at \<open>buffer_\<close>\<close>
  mb_bufferSize :: nat
  mb_rBase :: nat
  mb_rBound :: nat
  mb_wBase :: nat
  mb_wBound :: nat
  mb_owner :: bool

datatype memory_policy = OBSERVE | COPY | TAKE_OWNERSHIP

definition uint32 :: "nat \<Rightarrow> nat" where
  "uint32 n = n mod 2 ^ 32"

definition initCommon :: "byte list option \<Rightarrow> nat \<Rightarrow> bool \<Rightarrow> nat \<Rightarrow> memory_buffer result" where
  "initCommon buf sz own wPos =
     (case buf of
        None \<Rightarrow> if sz \<noteq> 0 \<and> \<not> own then Inl AssertFail
          else Inr \<lparr>mb_data = replicate sz 0, mb_bufferSize = sz, mb_rBase = 0, mb_rBound = wPos, mb_wBase = wPos, mb_wBound = sz, mb_owner = own\<rparr>
      | Some d \<Rightarrow> Inr \<lparr>mb_data = d, mb_bufferSize = sz, mb_rBase = 0, mb_rBound = wPos, mb_wBase = wPos, mb_wBound = sz, mb_owner = own\<rparr>)"

definition new_TMemoryBuffer_sized :: "nat \<Rightarrow> memory_buffer result" where
  "new_TMemoryBuffer_sized sz = initCommon None sz True 0"

definition defaultSize :: nat where "defaultSize = 1024"

definition new_TMemoryBuffer :: "memory_buffer result" where
  "new_TMemoryBuffer = new_TMemoryBuffer_sized defaultSize"

section \<open>Writing\<close>

definition available_read :: "memory_buffer \<Rightarrow> nat" where
  "available_read b = uint32 (mb_wBase b - mb_rBase b)"

definition available_write :: "memory_buffer \<Rightarrow> nat" where
  "available_write b = uint32 (mb_wBound b - mb_wBase b)"

text \<open>The growth loop of \<open>ensureCanWrite\<close>, in 32 bits; it need not end.\<close>

partial_function (option) grow_size :: "nat \<Rightarrow> nat \<Rightarrow> nat \<Rightarrow> nat \<Rightarrow> nat \<Rightarrow> nat option" where
  "grow_size free bsize len avail new_size =
     (if avail < len
      then let n = (if 0 < new_size then uint32 (new_size * 2) else 1)
           in grow_size free bsize len (uint32 (free + (n + 2 ^ 32 - bsize))) n
      else Some new_size)"

definition ensureCanWrite :: "nat \<Rightarrow> memory_buffer \<Rightarrow> memory_buffer result" where
  "ensureCanWrite len b =
     (if len \<le> available_write b then Inr b
      else if \<not> mb_owner b then Inl (TransportError UnknownError)
      else case grow_size (available_write b) (mb_bufferSize b) len (available_write b) (mb_bufferSize b) of
          None \<Rightarrow> Inl NoReturn
        | Some n \<Rightarrow> if n = 0 then Inl BadAlloc
            else Inr (b\<lparr>mb_data := take n (mb_data b) @ replicate (n - length (mb_data b)) 0, mb_wBound := n, mb_bufferSize := n\<rparr>))"

text \<open>\<open>memcpy\<close> to the write position.\<close>

definition mb_store :: "byte list \<Rightarrow> memory_buffer \<Rightarrow> memory_buffer result" where
  "mb_store d b =
     (if mb_wBase b + length d \<le> length (mb_data b)
      then Inr (b\<lparr>mb_data := overwrite (mb_wBase b) d (mb_data b), mb_wBase := mb_wBase b + length d\<rparr>) else Inl OutOfBounds)"

definition writeSlow :: "byte list \<Rightarrow> memory_buffer \<Rightarrow> memory_buffer result" where
  "writeSlow d b = rbind (ensureCanWrite (length d) b) (mb_store d)"

definition mb_write :: "byte list \<Rightarrow> memory_buffer \<Rightarrow> memory_buffer result" where
  "mb_write d b = (if mb_wBase b + length d \<le> mb_wBound b then mb_store d b else writeSlow d b)"

text \<open>Construction over given bytes.\<close>

definition new_TMemoryBuffer_from :: "byte list \<Rightarrow> memory_policy \<Rightarrow> memory_buffer result" where
  "new_TMemoryBuffer_from d policy =
     (case policy of
        COPY \<Rightarrow> rbind (initCommon None (length d) True 0) (mb_write d)
      | _ \<Rightarrow> initCommon (Some d) (length d) (policy = TAKE_OWNERSHIP) (length d))"

definition resetBuffer :: "memory_buffer \<Rightarrow> memory_buffer" where
  "resetBuffer b =
     (let b1 = b\<lparr>mb_rBase := 0, mb_rBound := 0, mb_wBase := 0\<rparr>
      in if mb_owner b then b1 else b1\<lparr>mb_wBound := 0, mb_bufferSize := 0\<rparr>)"

text \<open>The new object takes the place of the old one, which is destroyed.\<close>

definition resetBuffer_from :: "byte list \<Rightarrow> memory_policy \<Rightarrow> memory_buffer \<Rightarrow> memory_buffer result" where
  "resetBuffer_from d policy b = new_TMemoryBuffer_from d policy"

definition resetBuffer_sized :: "nat \<Rightarrow> memory_buffer \<Rightarrow> memory_buffer result" where
  "resetBuffer_sized sz b = new_TMemoryBuffer_sized sz"

definition getWritePtr :: "nat \<Rightarrow> memory_buffer \<Rightarrow> (nat \<times> memory_buffer) result" where
  "getWritePtr len b = rbind (ensureCanWrite len b) (\<lambda>b'. Inr (mb_wBase b', b'))"

definition wroteBytes :: "nat \<Rightarrow> memory_buffer \<Rightarrow> memory_buffer result" where
  "wroteBytes len b =
     (if available_write b < len then Inl (TransportError UnknownError) else Inr (b\<lparr>mb_wBase := mb_wBase b + len\<rparr>))"

definition writeEnd :: "memory_buffer \<Rightarrow> nat" where
  "writeEnd b = uint32 (mb_wBase b)"

section \<open>Reading\<close>

definition mb_peek :: "memory_buffer \<Rightarrow> bool" where
  "mb_peek b \<longleftrightarrow> mb_rBase b < mb_wBase b"

text \<open>The bytes at a position of the buffer.\<close>

definition mb_load :: "nat \<Rightarrow> nat \<Rightarrow> memory_buffer \<Rightarrow> byte list" where
  "mb_load pos n b = subrange pos (pos + n) (mb_data b)"

definition getBuffer :: "memory_buffer \<Rightarrow> byte list \<times> nat" where
  "getBuffer b = (mb_load (mb_rBase b) (available_read b) b, available_read b)"

definition getBufferAsString :: "memory_buffer \<Rightarrow> byte list" where
  "getBufferAsString b = fst (getBuffer b)"

definition computeRead :: "nat \<Rightarrow> memory_buffer \<Rightarrow> nat \<times> nat \<times> memory_buffer" where
  "computeRead len b =
     (let give = min len (available_read b)
      in (mb_rBase b, give, b\<lparr>mb_rBound := mb_wBase b, mb_rBase := mb_rBase b + give\<rparr>))"

definition readSlow :: "nat \<Rightarrow> memory_buffer \<Rightarrow> byte list \<times> memory_buffer" where
  "readSlow len b = (case computeRead len b of (start, give, b') \<Rightarrow> (mb_load start give b, b'))"

definition mb_read :: "nat \<Rightarrow> memory_buffer \<Rightarrow> (byte list \<times> memory_buffer) result" where
  "mb_read len b =
     Inr (if mb_rBase b + len \<le> mb_rBound b then (mb_load (mb_rBase b) len b, b\<lparr>mb_rBase := mb_rBase b + len\<rparr>) else readSlow len b)"

text \<open>\<open>apache::thrift::transport::readAll\<close>, for any transport.\<close>

function readAll_loop :: "(nat \<Rightarrow> 't \<Rightarrow> (byte list \<times> 't) result) \<Rightarrow> nat \<Rightarrow> 't \<Rightarrow> (byte list \<times> 't) result" where
  "readAll_loop rd len t =
     (if len = 0 then Inr ([], t)
      else rbind (rd len t) (\<lambda>r.
             if fst r = [] then Inl (TransportError EndOfFile)
             else rbind (readAll_loop rd (len - length (fst r)) (snd r)) (\<lambda>r'. Inr (fst r @ fst r', snd r'))))"
  by pat_completeness auto
termination by (relation "measure (\<lambda>(rd, len, t). len)") auto

declare readAll_loop.simps [simp del]

definition mb_readAll :: "nat \<Rightarrow> memory_buffer \<Rightarrow> (byte list \<times> memory_buffer) result" where
  "mb_readAll len b =
     (if mb_rBase b + len \<le> mb_rBound b then Inr (mb_load (mb_rBase b) len b, b\<lparr>mb_rBase := mb_rBase b + len\<rparr>)
      else readAll_loop mb_read len b)"

definition readAppendToString :: "byte list \<Rightarrow> nat \<Rightarrow> memory_buffer \<Rightarrow> byte list \<times> memory_buffer" where
  "readAppendToString str len b = (case computeRead len b of (start, give, b') \<Rightarrow> (str @ mb_load start give b, b'))"

definition readEnd :: "memory_buffer \<Rightarrow> nat \<times> memory_buffer" where
  "readEnd b = (uint32 (mb_rBase b), if mb_rBase b = mb_wBase b then resetBuffer b else b)"

definition borrowSlow :: "nat \<Rightarrow> memory_buffer \<Rightarrow> byte list option \<times> memory_buffer" where
  "borrowSlow len b =
     (let b' = b\<lparr>mb_rBound := mb_wBase b\<rparr>
      in (if len \<le> available_read b' then Some (mb_load (mb_rBase b') (available_read b') b') else None, b'))"

definition mb_borrow :: "nat \<Rightarrow> memory_buffer \<Rightarrow> byte list option \<times> memory_buffer" where
  "mb_borrow len b =
     (if mb_rBase b + len \<le> mb_rBound b then (Some (mb_load (mb_rBase b) (mb_rBound b - mb_rBase b) b), b) else borrowSlow len b)"

definition mb_consume :: "nat \<Rightarrow> memory_buffer \<Rightarrow> memory_buffer result" where
  "mb_consume len b =
     (if mb_rBase b + len \<le> mb_rBound b then Inr (b\<lparr>mb_rBase := mb_rBase b + len\<rparr>) else Inl (TransportError BadArgs))"

section \<open>Invariant\<close>

definition mb_inv :: "memory_buffer \<Rightarrow> bool" where
  "mb_inv b \<longleftrightarrow> mb_rBase b \<le> mb_rBound b \<and> mb_rBound b \<le> mb_wBase b \<and> mb_wBase b \<le> mb_wBound b \<and> mb_wBound b = mb_bufferSize b \<and>
     mb_bufferSize b \<le> length (mb_data b) \<and> (mb_owner b \<longrightarrow> length (mb_data b) = mb_bufferSize b) \<and> length (mb_data b) < 2 ^ 32"

definition mb_bytes :: "memory_buffer \<Rightarrow> byte list" where
  "mb_bytes b = subrange (mb_rBase b) (mb_wBase b) (mb_data b)"

lemma uint32_id: "n < 2 ^ 32 \<Longrightarrow> uint32 n = n"
  by (simp add: uint32_def)

lemma mb_new:
  "n < 2 ^ 32 \<Longrightarrow> \<exists>b. new_TMemoryBuffer_sized n = Inr b \<and> mb_inv b \<and> mb_bytes b = [] \<and> mb_owner b \<and> mb_wBase b = 0"
  by (simp add: new_TMemoryBuffer_sized_def initCommon_def mb_inv_def mb_bytes_def)

lemma available_inv:
  assumes "mb_inv b"
  shows "available_read b = length (mb_bytes b)" "available_write b = mb_wBound b - mb_wBase b" "available_read b = mb_wBase b - mb_rBase b"
proof -
  have "mb_wBase b - mb_rBase b < 2 ^ 32" "mb_wBound b - mb_wBase b < 2 ^ 32" using assms unfolding mb_inv_def by linarith+
  then show "available_write b = mb_wBound b - mb_wBase b" "available_read b = mb_wBase b - mb_rBase b"
    by (simp_all add: available_read_def available_write_def uint32_def)
  then show "available_read b = length (mb_bytes b)" using assms by (simp add: mb_inv_def mb_bytes_def)
qed

section \<open>Growing\<close>

text \<open>The free space the loop computes at size \<open>n\<close>, with \<open>w\<close> bytes written and \<open>bs\<close> allocated.\<close>

lemma grow_avail:
  assumes "w \<le> bs" "bs < 2 ^ 32" "w \<le> n" "n < 2 ^ 32"
  shows "uint32 (bs - w + (n + 2 ^ 32 - bs)) = n - w"
proof -
  have "bs - w + (n + 2 ^ 32 - bs) = (n - w) + 2 ^ 32" using assms by linarith
  then show ?thesis using assms(4) by (simp add: uint32_def)
qed

lemma grow_size_ok:
  assumes "w \<le> bs" "bs < 2 ^ 32" "w + len \<le> 2 ^ 31"
  shows "w \<le> n \<Longrightarrow> n < 2 ^ 32 \<Longrightarrow> bs \<le> n \<Longrightarrow>
    \<exists>m. grow_size (bs - w) bs len (n - w) n = Some m \<and> w + len \<le> m \<and> n \<le> m \<and> m < 2 ^ 32"
proof (induction "2 ^ 32 - n" arbitrary: n rule: less_induct)
  case less
  show ?case
  proof (cases "n - w < len")
    case False
    then show ?thesis using less.prems by (subst grow_size.simps) simp
  next
    case True
    define m where "m = (if 0 < n then n * 2 else 1)"
    have m: "m < 2 ^ 32" "n < m" "w \<le> m" using True assms(3) less.prems by (auto simp: m_def)
    have "\<exists>k. grow_size (bs - w) bs len (m - w) m = Some k \<and> w + len \<le> k \<and> m \<le> k \<and> k < 2 ^ 32"
      using less.hyps [of m] m less.prems by simp
    moreover have "(if 0 < n then uint32 (n * 2) else 1) = m" using m(1) by (auto simp: m_def uint32_id)
    then have "grow_size (bs - w) bs len (n - w) n = grow_size (bs - w) bs len (m - w) m"
      using True grow_avail [OF assms(1,2) m(3,1)] by (subst grow_size.simps) (simp only: Let_def if_True)
    ultimately show ?thesis using m(2) by auto
  qed
qed

text \<open>Beyond 2 GiB the doubling wraps to zero.\<close>

lemma grow_size_wraps:
  assumes "w \<le> bs" "0 < w" "bs \<le> 2 ^ 31" "2 ^ 31 < w + len" "w + len \<le> 2 ^ 32"
  shows "bs \<le> 2 ^ j \<Longrightarrow> j \<le> 31 \<Longrightarrow> grow_size (bs - w) bs len (2 ^ j - w) (2 ^ j) = Some 0"
proof (induction "31 - j" arbitrary: j)
  case 0
  then have j: "j = 31" by simp
  have lt: "2 ^ 31 - w < len" using assms by linarith
  have "bs - w + (0 + 2 ^ 32 - bs) = 2 ^ 32 - w" using assms by linarith
  then have "uint32 (bs - w + (0 + 2 ^ 32 - bs)) = 2 ^ 32 - w" using assms(2) by (simp add: uint32_def)
  moreover have "\<not> 2 ^ 32 - w < len" using assms(5) by linarith
  moreover have "uint32 (2 ^ 31 * 2) = 0" by (simp add: uint32_def)
  ultimately show ?case using lt unfolding j
    by (subst grow_size.simps, subst grow_size.simps) (simp add: Let_def)
next
  case (Suc d)
  then have j: "Suc j \<le> 31" "d = 31 - Suc j" by auto
  have p: "(2::nat) ^ Suc j \<le> 2 ^ 31" using j(1) by (rule power_increasing) simp
  define P where "P = (2::nat) ^ j"
  have "P \<le> 1073741824" "bs \<le> P" using p Suc.prems(1) by (simp_all add: P_def)
  moreover have "2147483648 < w + len" using assms(4) by simp
  ultimately have "P - w < len" using assms(1) by linarith
  then have "2 ^ j - w < len" by (simp add: P_def)
  moreover have "uint32 (bs - w + (2 ^ Suc j + 2 ^ 32 - bs)) = 2 ^ Suc j - w"
    using assms(1,3) p Suc.prems(1) by (intro grow_avail) simp_all
  moreover have "uint32 (2 ^ j * 2) = 2 ^ Suc j" using p by (simp add: uint32_def)
  ultimately have "grow_size (bs - w) bs len (2 ^ j - w) (2 ^ j) = grow_size (bs - w) bs len (2 ^ Suc j - w) (2 ^ Suc j)"
    by (subst grow_size.simps) (simp add: Let_def)
  then show ?case using Suc.hyps(1) [OF j(2)] j(1) Suc.prems(1) by simp
qed

section \<open>Every operation keeps the invariant\<close>

lemma ensureCanWrite_ok:
  assumes "mb_inv b" "mb_owner b" "mb_wBase b + len \<le> 2 ^ 31"
  shows "\<exists>b'. ensureCanWrite len b = Inr b' \<and> mb_inv b' \<and> mb_owner b' \<and> mb_bytes b' = mb_bytes b \<and> mb_wBase b' = mb_wBase b \<and>
    mb_rBase b' = mb_rBase b \<and> mb_wBase b + len \<le> mb_wBound b'"
proof (cases "len \<le> available_write b")
  case True
  then show ?thesis using assms available_inv(2) [OF assms(1)] by (auto simp: ensureCanWrite_def mb_inv_def)
next
  case False
  let ?w = "mb_wBase b" and ?bs = "mb_bufferSize b"
  have b: "?w \<le> ?bs" "?bs < 2 ^ 32" "mb_wBound b = ?bs" "length (mb_data b) = ?bs" "mb_rBase b \<le> ?w" using assms(1,2) by (auto simp: mb_inv_def)
  obtain m where m: "grow_size (?bs - ?w) ?bs len (?bs - ?w) ?bs = Some m" "?w + len \<le> m" "?bs \<le> m" "m < 2 ^ 32"
    using grow_size_ok [OF b(1,2) assms(3) b(1,2)] by auto
  have "0 < m" using False m(2) by (cases len) simp_all
  let ?b = "b\<lparr>mb_data := mb_data b @ replicate (m - ?bs) 0, mb_wBound := m, mb_bufferSize := m\<rparr>"
  have "ensureCanWrite len b = Inr ?b"
    using False assms(2) m(1,3) \<open>0 < m\<close> b(3,4) available_inv(2) [OF assms(1)] by (simp add: ensureCanWrite_def)
  moreover have "mb_inv ?b" using assms(1) m(3,4) b by (simp add: mb_inv_def)
  moreover have "mb_bytes ?b = mb_bytes b" using b by (simp add: mb_bytes_def subrange_append_left)
  ultimately show ?thesis using assms(2) m(2) by simp
qed

lemma mb_store_ok:
  assumes "mb_inv b" "mb_wBase b + length d \<le> mb_wBound b"
  shows "\<exists>b'. mb_store d b = Inr b' \<and> mb_inv b' \<and> mb_owner b' = mb_owner b \<and> mb_bytes b' = mb_bytes b @ d \<and>
    mb_wBase b' = mb_wBase b + length d \<and> mb_rBase b' = mb_rBase b"
proof -
  let ?w = "mb_wBase b"
  have b: "mb_rBase b \<le> ?w" "?w + length d \<le> length (mb_data b)" using assms by (auto simp: mb_inv_def)
  let ?D = "overwrite ?w d (mb_data b)"
  have "subrange (mb_rBase b) (?w + length d) ?D = subrange (mb_rBase b) ?w ?D @ subrange ?w (?w + length d) ?D"
    using b(1) by (intro subrange_split) simp_all
  also have "\<dots> = mb_bytes b @ d"
    using b by (simp add: subrange_overwrite_before subrange_overwrite_hit mb_bytes_def)
  finally show ?thesis using assms b by (auto simp: mb_store_def mb_inv_def mb_bytes_def)
qed

lemma mb_write_ok:
  assumes "mb_inv b" "mb_owner b" "mb_wBase b + length d \<le> 2 ^ 31"
  shows "\<exists>b'. mb_write d b = Inr b' \<and> mb_inv b' \<and> mb_owner b' \<and> mb_bytes b' = mb_bytes b @ d \<and>
    mb_wBase b' = mb_wBase b + length d \<and> mb_rBase b' = mb_rBase b"
proof (cases "mb_wBase b + length d \<le> mb_wBound b")
  case True
  then show ?thesis using mb_store_ok [OF assms(1) True] assms(2) by (auto simp: mb_write_def)
next
  case False
  obtain b1 where 1: "ensureCanWrite (length d) b = Inr b1" "mb_inv b1" "mb_owner b1" "mb_bytes b1 = mb_bytes b" "mb_wBase b1 = mb_wBase b"
    "mb_rBase b1 = mb_rBase b" "mb_wBase b1 + length d \<le> mb_wBound b1"
    using ensureCanWrite_ok [OF assms] by auto
  from mb_store_ok [OF 1(2,7)] 1(1,3-6) False show ?thesis by (auto simp: mb_write_def writeSlow_def)
qed

lemma new_from_ok:
  assumes "length d \<le> 2 ^ 31"
  shows "\<exists>b. new_TMemoryBuffer_from d policy = Inr b \<and> mb_inv b \<and> mb_bytes b = d \<and> mb_rBase b = 0 \<and> mb_wBase b = length d \<and> mb_owner b = (policy \<noteq> OBSERVE)"
proof (cases "policy = COPY")
  case True
  let ?b = "\<lparr>mb_data = replicate (length d) 0, mb_bufferSize = length d, mb_rBase = 0, mb_rBound = 0, mb_wBase = 0, mb_wBound = length d, mb_owner = True\<rparr>"
  have "mb_inv ?b" "mb_bytes ?b = []" using assms by (simp_all add: mb_inv_def mb_bytes_def)
  with mb_write_ok [of ?b d] assms True show ?thesis by (auto simp: new_TMemoryBuffer_from_def initCommon_def)
next
  case False
  then show ?thesis using assms by (cases policy) (simp_all add: new_TMemoryBuffer_from_def initCommon_def mb_inv_def mb_bytes_def)
qed

lemma resetBuffer_ok: "mb_inv b \<Longrightarrow> mb_inv (resetBuffer b) \<and> mb_bytes (resetBuffer b) = [] \<and> mb_owner (resetBuffer b) = mb_owner b \<and> mb_wBase (resetBuffer b) = 0"
  by (auto simp: resetBuffer_def mb_inv_def mb_bytes_def Let_def)

lemma wroteBytes_ok:
  assumes "mb_inv b" "mb_wBase b + len \<le> mb_wBound b"
  shows "\<exists>b' d. wroteBytes len b = Inr b' \<and> mb_inv b' \<and> mb_owner b' = mb_owner b \<and> mb_bytes b' = mb_bytes b @ d \<and> length d = len \<and>
    mb_wBase b' = mb_wBase b + len \<and> mb_rBase b' = mb_rBase b"
proof -
  have b: "mb_rBase b \<le> mb_wBase b" "mb_wBase b + len \<le> length (mb_data b)" using assms by (auto simp: mb_inv_def)
  have "subrange (mb_rBase b) (mb_wBase b + len) (mb_data b) = mb_bytes b @ subrange (mb_wBase b) (mb_wBase b + len) (mb_data b)"
    unfolding mb_bytes_def using b(1) by (intro subrange_split) simp_all
  then show ?thesis using assms b available_inv(2) [OF assms(1)]
    by (auto simp: wroteBytes_def mb_inv_def mb_bytes_def intro!: exI [of _ "subrange (mb_wBase b) (mb_wBase b + len) (mb_data b)"])
qed

lemma mb_load_bytes: "mb_inv b \<Longrightarrow> n \<le> mb_wBase b - mb_rBase b \<Longrightarrow> mb_load (mb_rBase b) n b = take n (mb_bytes b)"
  using subrange_take [of "mb_rBase b" n "mb_wBase b" "mb_data b"] by (auto simp: mb_load_def mb_bytes_def mb_inv_def)

lemma getBuffer_ok: "mb_inv b \<Longrightarrow> getBuffer b = (mb_bytes b, length (mb_bytes b))"
  using available_inv(1,3) [of b] mb_load_bytes [of b "available_read b"] by (simp add: getBuffer_def)

text \<open>Moving the read position.\<close>

lemma mb_advance:
  assumes "mb_inv b" "n \<le> length (mb_bytes b)"
  shows "mb_inv (b\<lparr>mb_rBound := mb_wBase b, mb_rBase := mb_rBase b + n\<rparr>)"
    "mb_bytes (b\<lparr>mb_rBound := mb_wBase b, mb_rBase := mb_rBase b + n\<rparr>) = drop n (mb_bytes b)"
    "mb_rBase b + n \<le> mb_rBound b \<Longrightarrow> mb_inv (b\<lparr>mb_rBase := mb_rBase b + n\<rparr>)"
    "mb_bytes (b\<lparr>mb_rBase := mb_rBase b + n\<rparr>) = drop n (mb_bytes b)"
  using assms available_inv(1,3) [OF assms(1)] by (auto simp: mb_inv_def mb_bytes_def subrange_drop)

lemma bound_bytes: "mb_inv b \<Longrightarrow> mb_rBase b + n \<le> mb_rBound b \<Longrightarrow> n \<le> length (mb_bytes b)"
  using available_inv(1,3) [of b] by (auto simp: mb_inv_def)

lemma mb_read_ok:
  assumes "mb_inv b"
  shows "\<exists>b'. mb_read len b = Inr (take len (mb_bytes b), b') \<and> mb_inv b' \<and> mb_bytes b' = drop len (mb_bytes b) \<and>
    mb_owner b' = mb_owner b \<and> mb_wBase b' = mb_wBase b"
proof (cases "mb_rBase b + len \<le> mb_rBound b")
  case True
  then have "len \<le> length (mb_bytes b)" using bound_bytes assms by blast
  then show ?thesis using True assms mb_advance(3,4) [OF assms, of len] mb_load_bytes [OF assms, of len] available_inv(1,3) [OF assms]
    by (simp add: mb_read_def)
next
  case False
  let ?g = "min len (length (mb_bytes b))"
  have "mb_load (mb_rBase b) ?g b = take len (mb_bytes b)" using mb_load_bytes [OF assms, of ?g] available_inv(1,3) [OF assms] by (simp add: min_def)
  moreover have "drop ?g (mb_bytes b) = drop len (mb_bytes b)" by (cases "len \<le> length (mb_bytes b)") simp_all
  ultimately show ?thesis using False mb_advance(1,2) [OF assms, of ?g] available_inv(1) [OF assms]
    by (simp add: mb_read_def readSlow_def computeRead_def Let_def)
qed


lemma mb_readAll_ok:
  assumes "mb_inv b" "len \<le> length (mb_bytes b)"
  shows "\<exists>b'. mb_readAll len b = Inr (take len (mb_bytes b), b') \<and> mb_inv b' \<and> mb_bytes b' = drop len (mb_bytes b) \<and>
    mb_owner b' = mb_owner b \<and> mb_wBase b' = mb_wBase b"
proof (cases "mb_rBase b + len \<le> mb_rBound b")
  case True
  then show ?thesis using mb_read_ok [OF assms(1), of len] by (simp add: mb_readAll_def mb_read_def)
next
  case False
  obtain b' where b': "mb_read len b = Inr (take len (mb_bytes b), b')" "mb_inv b'" "mb_bytes b' = drop len (mb_bytes b)"
    "mb_owner b' = mb_owner b" "mb_wBase b' = mb_wBase b"
    using mb_read_ok [OF assms(1)] by blast
  have "take len (mb_bytes b) \<noteq> []" if "0 < len" using assms(2) that by (cases "mb_bytes b") auto
  then have "readAll_loop mb_read len b = Inr (take len (mb_bytes b), if len = 0 then b else b')"
    using b'(1) assms(2) by (subst readAll_loop.simps) (simp add: readAll_loop.simps [of mb_read 0])
  then show ?thesis using b'(2-5) assms(1) False by (cases "len = 0") (simp_all add: mb_readAll_def)
qed

text \<open>Too few bytes: the loop takes what there is, then finds nothing and throws.\<close>

lemma mb_readAll_short:
  assumes "mb_inv b" "length (mb_bytes b) < len"
  shows "mb_readAll len b = Inl (TransportError EndOfFile)"
proof -
  have "\<not> mb_rBase b + len \<le> mb_rBound b" using bound_bytes [OF assms(1), of len] assms(2) by auto
  moreover obtain b' where b': "mb_read len b = Inr (mb_bytes b, b')" "mb_inv b'" "mb_bytes b' = []"
    using mb_read_ok [OF assms(1), of len] assms(2) by auto
  obtain b'' where "mb_read (len - length (mb_bytes b)) b' = Inr ([], b'')" using mb_read_ok [OF b'(2)] b'(3) by fastforce
  then have "readAll_loop mb_read (len - length (mb_bytes b)) b' = Inl (TransportError EndOfFile)"
    using assms(2) by (subst readAll_loop.simps) simp
  then have "readAll_loop mb_read len b = Inl (TransportError EndOfFile)"
    using b'(1) assms(2) by (subst readAll_loop.simps) simp
  ultimately show ?thesis by (simp add: mb_readAll_def)
qed

lemma mb_borrow_ok:
  assumes "mb_inv b" "mb_borrow len b = (r, b')"
  shows "mb_inv b'" "mb_bytes b' = mb_bytes b" "mb_owner b' = mb_owner b" "mb_wBase b' = mb_wBase b"
    "r \<noteq> None \<longleftrightarrow> len \<le> length (mb_bytes b)"
    "r = Some d \<Longrightarrow> take len d = take len (mb_bytes b) \<and> len \<le> length d"
    "r = Some d \<Longrightarrow> \<exists>b''. mb_consume len b' = Inr b'' \<and> mb_inv b'' \<and> mb_bytes b'' = drop len (mb_bytes b) \<and>
      mb_owner b'' = mb_owner b \<and> mb_wBase b'' = mb_wBase b"
proof -
  let ?b1 = "b\<lparr>mb_rBound := mb_wBase b\<rparr>"
  have b1: "mb_inv ?b1" "mb_bytes ?b1 = mb_bytes b" using assms(1) by (auto simp: mb_inv_def mb_bytes_def)
  have av: "available_read ?b1 = length (mb_bytes b)" using available_inv(1) [OF b1(1)] b1(2) by simp
  have len: "mb_wBase b - mb_rBase b = length (mb_bytes b)" "mb_rBase b \<le> mb_wBase b" using available_inv(1,3) [OF assms(1)] assms(1) by (auto simp: mb_inv_def)
  consider (fast) "mb_rBase b + len \<le> mb_rBound b" "r = Some (mb_load (mb_rBase b) (mb_rBound b - mb_rBase b) b)" "b' = b" "len \<le> length (mb_bytes b)"
    | (slow) "len \<le> length (mb_bytes b)" "r = Some (mb_bytes b)" "b' = ?b1"
    | (none) "\<not> len \<le> length (mb_bytes b)" "r = None" "b' = ?b1"
  proof (cases "mb_rBase b + len \<le> mb_rBound b")
    case True
    then have "mb_borrow len b = (Some (mb_load (mb_rBase b) (mb_rBound b - mb_rBase b) b), b)" by (simp add: mb_borrow_def)
    then show ?thesis using fast [OF True] assms(2) bound_bytes [OF assms(1) True] by simp
  next
    case False
    have "mb_load (mb_rBase b) (length (mb_bytes b)) ?b1 = mb_bytes b"
      using mb_load_bytes [OF b1(1), of "length (mb_bytes b)"] b1(2) len(1) by simp
    then have "mb_borrow len b = (if len \<le> length (mb_bytes b) then Some (mb_bytes b) else None, ?b1)"
      using False av by (simp add: mb_borrow_def borrowSlow_def Let_def)
    then show ?thesis using slow none assms(2) by (cases "len \<le> length (mb_bytes b)") auto
  qed
  note cases = this
  show "mb_inv b'" "mb_bytes b' = mb_bytes b" "mb_owner b' = mb_owner b" "mb_wBase b' = mb_wBase b" "r \<noteq> None \<longleftrightarrow> len \<le> length (mb_bytes b)"
    by (cases rule: cases; use assms(1) b1 in simp)+
  show "take len d = take len (mb_bytes b) \<and> len \<le> length d" if "r = Some d"
  proof (cases rule: cases)
    case fast
    let ?k = "mb_rBound b - mb_rBase b"
    have "len \<le> ?k" "?k \<le> length (mb_bytes b)" using fast(1) bound_bytes [OF assms(1), of ?k] assms(1) by (auto simp: mb_inv_def)
    moreover have "d = take ?k (mb_bytes b)" using that fast(2) mb_load_bytes [OF assms(1), of ?k] len(1) calculation by simp
    ultimately show ?thesis by (simp add: min_absorb1)
  next
    case slow
    then show ?thesis using that by simp
  next
    case none
    then show ?thesis using that by simp
  qed
  show "\<exists>b''. mb_consume len b' = Inr b'' \<and> mb_inv b'' \<and> mb_bytes b'' = drop len (mb_bytes b) \<and> mb_owner b'' = mb_owner b \<and> mb_wBase b'' = mb_wBase b"
    if "r = Some d"
  proof (cases rule: cases)
    case fast
    then show ?thesis using mb_advance(3,4) [OF assms(1), of len] by (simp add: mb_consume_def)
  next
    case slow
    then show ?thesis using mb_advance(3,4) [OF b1(1), of len] b1(2) len by (simp add: mb_consume_def)
  next
    case none
    then show ?thesis using that by simp
  qed
qed

lemma readEnd_ok: "mb_inv b \<Longrightarrow> mb_inv (snd (readEnd b)) \<and> mb_bytes (snd (readEnd b)) = mb_bytes b"
  using resetBuffer_ok [of b] available_inv(1,3) [of b] by (cases "mb_rBase b = mb_wBase b") (simp_all add: readEnd_def)

section \<open>Properties\<close>

text \<open>Reads never ask for more than is there, starting from \<open>k\<close> bytes.\<close>

fun gets_ok :: "nat \<Rightarrow> fifo_op list \<Rightarrow> bool" where
  "gets_ok k [] = True"
| "gets_ok k (Put d # ops) = gets_ok (k + length d) ops"
| "gets_ok k (Get n # ops) = (n \<le> k \<and> gets_ok (k - n) ops)"

text \<open>The memory buffer is a byte queue: any sequence of \<open>write\<close> and \<open>readAll\<close> calls that reads no more than was
  written succeeds while fewer than 2 GiB pass through it; what is read, followed by what is left, is what was there
  followed by what was written.\<close>

theorem memory_buffer_is_fifo:
  assumes "mb_inv b" "mb_owner b" "gets_ok (length (mb_bytes b)) ops" "mb_wBase b + length (put_bytes ops) \<le> 2 ^ 31"
  shows "\<exists>out b'. fifo_run mb_write mb_readAll ops b = Inr (out, b') \<and> mb_inv b' \<and> out @ mb_bytes b' = mb_bytes b @ put_bytes ops"
  using assms
proof (induction ops arbitrary: b)
  case Nil
  then show ?case by simp
next
  case (Cons p ops)
  show ?case
  proof (cases p)
    case (Put d)
    then have "mb_wBase b + length d \<le> 2 ^ 31" using Cons.prems(4) by simp
    from mb_write_ok [OF Cons.prems(1,2) this] obtain b1 where
      b1: "mb_write d b = Inr b1" "mb_inv b1" "mb_owner b1" "mb_bytes b1 = mb_bytes b @ d" "mb_wBase b1 = mb_wBase b + length d" by blast
    with Cons.IH [OF b1(2,3)] Cons.prems Put show ?thesis by simp
  next
    case (Get n)
    then have "n \<le> length (mb_bytes b)" using Cons.prems(3) by simp
    from mb_readAll_ok [OF Cons.prems(1) this] obtain b1 where b1: "mb_readAll n b = Inr (take n (mb_bytes b), b1)" "mb_inv b1"
      "mb_bytes b1 = drop n (mb_bytes b)" "mb_owner b1 = mb_owner b" "mb_wBase b1 = mb_wBase b" by blast
    with Cons.IH [OF b1(2)] Cons.prems Get obtain xs b2 where
      b2: "fifo_run mb_write mb_readAll ops b1 = Inr (xs, b2)" "mb_inv b2" "xs @ mb_bytes b2 = drop n (mb_bytes b) @ put_bytes ops" by auto
    then have "(take n (mb_bytes b) @ xs) @ mb_bytes b2 = mb_bytes b @ put_bytes ops" by (metis append_assoc append_take_drop_id)
    with b1(1) b2(1,2) Get show ?thesis by simp
  qed
qed

theorem memory_buffer_is_fifo_witness:
  "\<exists>b out b'. new_TMemoryBuffer_sized 2 = Inr b \<and>
     fifo_run mb_write mb_readAll [Put [1, 2, 3], Get 2, Put [4], Get 1] b = Inr (out, b') \<and> out @ mb_bytes b' = [1, 2, 3, 4]"
proof -
  obtain b where b: "new_TMemoryBuffer_sized 2 = Inr b" "mb_inv b" "mb_bytes b = []" "mb_owner b" "mb_wBase b = 0" using mb_new [of 2] by auto
  then show ?thesis using memory_buffer_is_fifo [of b "[Put [1, 2, 3], Get 2, Put [4], Get 1]"] by auto
qed

text \<open>Growing past 2 GiB fails: the doubled size wraps to zero, the memory is released and the write throws
  \<open>bad_alloc\<close> instead of enlarging the buffer, although the size would still fit 32 bits.\<close>

theorem memory_buffer_past_2GiB:
  assumes "mb_inv b" "mb_owner b" "mb_bufferSize b = 2 ^ k" "k \<le> 31" "0 < mb_wBase b"
    and "2 ^ 31 < mb_wBase b + length d" "mb_wBase b + length d \<le> 2 ^ 32"
  shows "mb_write d b = Inl BadAlloc"
proof -
  let ?w = "mb_wBase b"
  have "(2::nat) ^ k \<le> 2 ^ 31" using assms(4) by (rule power_increasing) simp
  then have bs: "mb_bufferSize b \<le> 2 ^ 31" "?w \<le> mb_bufferSize b" "mb_wBound b = mb_bufferSize b" using assms(1,3) by (auto simp: mb_inv_def)
  have "grow_size (mb_bufferSize b - ?w) (mb_bufferSize b) (length d) (2 ^ k - ?w) (2 ^ k) = Some 0"
    using assms(3,4) by (intro grow_size_wraps [OF bs(2) assms(5) bs(1) assms(6,7)]) simp_all
  then have "ensureCanWrite (length d) b = Inl BadAlloc"
    using assms(2,3,6) bs available_inv(2) [OF assms(1)] by (auto simp: ensureCanWrite_def)
  moreover have "\<not> ?w + length d \<le> mb_wBound b" using bs assms(6) by linarith
  ultimately show ?thesis by (simp add: mb_write_def writeSlow_def)
qed

theorem memory_buffer_past_2GiB_witness:
  "\<exists>b0 b. new_TMemoryBuffer = Inr b0 \<and> mb_write [1, 2, 3, 4] b0 = Inr b \<and> mb_write (replicate (2 ^ 31) 0) b = Inl BadAlloc"
proof -
  let ?c = "\<lparr>mb_data = replicate 1024 0, mb_bufferSize = 1024, mb_rBase = 0, mb_rBound = 0, mb_wBase = 0, mb_wBound = 1024, mb_owner = True\<rparr>"
  let ?b = "?c\<lparr>mb_data := overwrite 0 [1, 2, 3, 4] (mb_data ?c), mb_wBase := 4\<rparr>"
  have "new_TMemoryBuffer = Inr ?c"
    unfolding new_TMemoryBuffer_def new_TMemoryBuffer_sized_def initCommon_def defaultSize_def by simp
  moreover have "mb_write [1, 2, 3, 4] ?c = Inr ?b" by (simp add: mb_write_def mb_store_def)
  moreover have "mb_inv ?b" by (simp add: mb_inv_def)
  then have "mb_write (replicate (2 ^ 31) 0) ?b = Inl BadAlloc" using memory_buffer_past_2GiB [of ?b 10 "replicate (2 ^ 31) 0"] by simp
  ultimately show ?thesis by blast
qed

end
