(* ===== verification/Thrift_Protocol.thy ===== *)
theory Thrift_Protocol
  imports Memory_Buffer
begin

text \<open>
  The binary protocol of the RPC layer (\<open>src/cthrift/cthrift_tbinary_protocol.h\<close>, \<open>cthrift_tbinary_protocol.cc\<close>).
  The template's transport is a record of operations; writing returns the number of bytes, reading the value and
  the number of bytes. An enumeration (\<open>TType\<close>, \<open>TMessageType\<close>) is an \<open>int\<close>; a double is its bit pattern. The
  scratch buffer \<open>string_buf_\<close> only saves allocations and is left out.
\<close>

unbundle bit_operations_syntax

section \<open>The transport under the protocol\<close>

record 't transport_ops =
  tr_write :: "byte list \<Rightarrow> 't \<Rightarrow> 't result"
  tr_readAll :: "nat \<Rightarrow> 't \<Rightarrow> (byte list \<times> 't) result"
  tr_borrow :: "nat \<Rightarrow> 't \<Rightarrow> byte list option \<times> 't"
  tr_consume :: "nat \<Rightarrow> 't \<Rightarrow> 't result"

definition memory_transport :: "memory_buffer transport_ops" where
  "memory_transport = \<lparr>tr_write = mb_write, tr_readAll = mb_readAll, tr_borrow = mb_borrow, tr_consume = mb_consume\<rparr>"

record protocol =
  string_limit :: int
  container_limit :: int
  strict_read :: bool
  strict_write :: bool

definition g_string_limit :: int where "g_string_limit = 16 * 1024 * 1024"

definition new_protocol :: protocol where
  "new_protocol = \<lparr>string_limit = g_string_limit, container_limit = 0, strict_read = False, strict_write = True\<rparr>"

definition setStringSizeLimit :: "int \<Rightarrow> protocol \<Rightarrow> protocol" where "setStringSizeLimit n p = p\<lparr>string_limit := n\<rparr>"
definition setContainerSizeLimit :: "int \<Rightarrow> protocol \<Rightarrow> protocol" where "setContainerSizeLimit n p = p\<lparr>container_limit := n\<rparr>"
definition setStrict :: "bool \<Rightarrow> bool \<Rightarrow> protocol \<Rightarrow> protocol" where "setStrict r w p = p\<lparr>strict_read := r, strict_write := w\<rparr>"

definition VERSION_MASK :: "32 word" where "VERSION_MASK = 0xffff0000"
definition VERSION_1 :: "32 word" where "VERSION_1 = 0x80010000"
definition T_STOP :: int where "T_STOP = 0"

section \<open>Byte order\<close>

definition htonl :: "host_order \<Rightarrow> 32 word \<Rightarrow> 32 word" where "htonl h x = swap_to_be h x"
definition htons :: "host_order \<Rightarrow> 16 word \<Rightarrow> 16 word" where "htons h x = swap_to_be h x"

definition htonll :: "host_order \<Rightarrow> 64 word \<Rightarrow> 64 word" where
  "htonll h val = push_bit 32 (ucast (htonl h (ucast val))) + ucast (htonl h (ucast (signed_drop_bit 32 val)))"

definition ntohll :: "host_order \<Rightarrow> 64 word \<Rightarrow> 64 word" where
  "ntohll h val = push_bit 32 (ucast (htonl h (ucast val))) + ucast (htonl h (ucast (signed_drop_bit 32 val)))"

section \<open>Writing\<close>

type_synonym 't writer = "'t \<Rightarrow> (nat \<times> 't) result"

definition wr_skip :: "'t writer" where "wr_skip t = Inr (0, t)"

definition wr_then :: "'t writer \<Rightarrow> 't writer \<Rightarrow> 't writer" where
  "wr_then f g t = rbind (f t) (\<lambda>(n, t1). rbind (g t1) (\<lambda>(m, t2). Inr (uint32 (n + m), t2)))"

text \<open>\<open>trans_->write\<close> of an array, and its size.\<close>

definition wr_bytes :: "'t transport_ops \<Rightarrow> byte list \<Rightarrow> 't writer" where
  "wr_bytes T d t = rbind (tr_write T d t) (\<lambda>t'. Inr (length d, t'))"

definition writeByte :: "'t transport_ops \<Rightarrow> byte \<Rightarrow> 't writer" where
  "writeByte T b = wr_bytes T [b]"

definition writeBool :: "'t transport_ops \<Rightarrow> bool \<Rightarrow> 't writer" where
  "writeBool T v = wr_bytes T [if v then 1 else 0]"

definition writeI16 :: "'t transport_ops \<Rightarrow> host_order \<Rightarrow> 16 word \<Rightarrow> 't writer" where
  "writeI16 T h i = wr_bytes T (obj_bytes h (htons h i))"

definition writeI32 :: "'t transport_ops \<Rightarrow> host_order \<Rightarrow> 32 word \<Rightarrow> 't writer" where
  "writeI32 T h i = wr_bytes T (obj_bytes h (htonl h i))"

definition writeI64 :: "'t transport_ops \<Rightarrow> host_order \<Rightarrow> 64 word \<Rightarrow> 't writer" where
  "writeI64 T h i = wr_bytes T (obj_bytes h (htonll h i))"

definition writeDouble :: "'t transport_ops \<Rightarrow> host_order \<Rightarrow> 64 word \<Rightarrow> 't writer" where
  "writeDouble T h dub = wr_bytes T (obj_bytes h (htonll h dub))"

definition writeString :: "'t transport_ops \<Rightarrow> host_order \<Rightarrow> byte list \<Rightarrow> 't writer" where
  "writeString T h str =
     (let sz = uint32 (length str)
      in wr_then (writeI32 T h (of_nat sz)) (if 0 < sz then wr_bytes T (take sz str) else wr_skip))"

definition writeBinary :: "'t transport_ops \<Rightarrow> host_order \<Rightarrow> byte list \<Rightarrow> 't writer" where
  "writeBinary T h str = writeString T h str"

definition writeFieldBegin :: "'t transport_ops \<Rightarrow> host_order \<Rightarrow> string \<Rightarrow> int \<Rightarrow> 16 word \<Rightarrow> 't writer" where
  "writeFieldBegin T h name fieldType fieldId = wr_then (writeByte T (of_int fieldType)) (writeI16 T h fieldId)"

definition writeFieldStop :: "'t transport_ops \<Rightarrow> 't writer" where
  "writeFieldStop T = writeByte T (of_int T_STOP)"

definition writeMapBegin :: "'t transport_ops \<Rightarrow> host_order \<Rightarrow> int \<Rightarrow> int \<Rightarrow> 32 word \<Rightarrow> 't writer" where
  "writeMapBegin T h keyType valType sz = wr_then (wr_then (writeByte T (of_int keyType)) (writeByte T (of_int valType))) (writeI32 T h sz)"

definition writeListBegin :: "'t transport_ops \<Rightarrow> host_order \<Rightarrow> int \<Rightarrow> 32 word \<Rightarrow> 't writer" where
  "writeListBegin T h elemType sz = wr_then (writeByte T (of_int elemType)) (writeI32 T h sz)"

definition writeSetBegin :: "'t transport_ops \<Rightarrow> host_order \<Rightarrow> int \<Rightarrow> 32 word \<Rightarrow> 't writer" where
  "writeSetBegin T h elemType sz = wr_then (writeByte T (of_int elemType)) (writeI32 T h sz)"

text \<open>The header of a message, for a transport without specialisation.\<close>

definition writeMessageBegin :: "'t transport_ops \<Rightarrow> host_order \<Rightarrow> protocol \<Rightarrow> byte list \<Rightarrow> int \<Rightarrow> 32 word \<Rightarrow> 't writer" where
  "writeMessageBegin T h p name messageType seqid =
     (if strict_write p
      then wr_then (wr_then (writeI32 T h (VERSION_1 OR of_int messageType)) (writeString T h name)) (writeI32 T h seqid)
      else wr_then (wr_then (writeString T h name) (writeByte T (of_int messageType))) (writeI32 T h seqid))"

text \<open>The request counter \<open>g_atomic_i32_seq_id\<close>: the new identifier and the new counter.\<close>

definition next_seq_id :: "32 word \<Rightarrow> 32 word \<times> 32 word" where
  "next_seq_id g = (let i = g + 1 in if i = 0x7fffffff then (1, 1) else (i, i))"

text \<open>The specialisation for the memory buffer writes the header twice, for the channel to strip one.\<close>

definition writeMessageBegin_mem ::
    "host_order \<Rightarrow> protocol \<Rightarrow> byte list \<Rightarrow> int \<Rightarrow> 32 word \<Rightarrow> 32 word \<times> memory_buffer \<Rightarrow> (nat \<times> 32 word \<times> memory_buffer) result" where
  "writeMessageBegin_mem h p name messageType seqid st =
     (case st of (g, b) \<Rightarrow>
        let (i, g') = (if seqid = 0 then next_seq_id g else (seqid, g));
            header = writeMessageBegin memory_transport h p name messageType i
        in rbind (wr_then header header b) (\<lambda>(n, b'). Inr (n, g', b')))"

section \<open>Reading\<close>

type_synonym ('t, 'a) reader = "'t \<Rightarrow> ('a \<times> nat \<times> 't) result"

definition rd_value :: "'a \<Rightarrow> ('t, 'a) reader" where "rd_value x t = Inr (x, 0, t)"

definition rd_throw :: "protocol_error \<Rightarrow> ('t, 'a) reader" where "rd_throw e t = Inl (ProtocolError e)"

definition rd_then :: "('t, 'a) reader \<Rightarrow> ('a \<Rightarrow> ('t, 'b) reader) \<Rightarrow> ('t, 'b) reader" where
  "rd_then f g t = rbind (f t) (\<lambda>(x, n, t1). rbind (g x t1) (\<lambda>(y, m, t2). Inr (y, uint32 (n + m), t2)))"

definition rd_bytes :: "'t transport_ops \<Rightarrow> nat \<Rightarrow> ('t, byte list) reader" where
  "rd_bytes T n t = rbind (tr_readAll T n t) (\<lambda>(d, t'). Inr (d, n, t'))"

definition readByte :: "'t transport_ops \<Rightarrow> ('t, byte) reader" where
  "readByte T = rd_then (rd_bytes T 1) (\<lambda>d. rd_value (hd d))"

definition readBool :: "'t transport_ops \<Rightarrow> ('t, bool) reader" where
  "readBool T = rd_then (rd_bytes T 1) (\<lambda>d. rd_value (hd d \<noteq> 0))"

definition readI16 :: "'t transport_ops \<Rightarrow> host_order \<Rightarrow> ('t, 16 word) reader" where
  "readI16 T h = rd_then (rd_bytes T 2) (\<lambda>d. rd_value (htons h (obj_word h d)))"

definition readI32 :: "'t transport_ops \<Rightarrow> host_order \<Rightarrow> ('t, 32 word) reader" where
  "readI32 T h = rd_then (rd_bytes T 4) (\<lambda>d. rd_value (htonl h (obj_word h d)))"

definition readI64 :: "'t transport_ops \<Rightarrow> host_order \<Rightarrow> ('t, 64 word) reader" where
  "readI64 T h = rd_then (rd_bytes T 8) (\<lambda>d. rd_value (ntohll h (obj_word h d)))"

definition readDouble :: "'t transport_ops \<Rightarrow> host_order \<Rightarrow> ('t, 64 word) reader" where
  "readDouble T h = rd_then (rd_bytes T 8) (\<lambda>d. rd_value (ntohll h (obj_word h d)))"

definition readStringBody :: "'t transport_ops \<Rightarrow> protocol \<Rightarrow> 32 word \<Rightarrow> ('t, byte list) reader" where
  "readStringBody T p sz t =
     (if sint sz < 0 then Inl (ProtocolError NegativeSize)
      else if 0 < string_limit p \<and> string_limit p < sint sz then Inl (ProtocolError SizeLimit)
      else if sz = 0 then Inr ([], 0, t)
      else case tr_borrow T (unat sz) t of
          (Some d, t1) \<Rightarrow> rbind (tr_consume T (unat sz) t1) (\<lambda>t2. Inr (take (unat sz) d, unat sz, t2))
        | (None, t1) \<Rightarrow> rd_bytes T (unat sz) t1)"

definition readString :: "'t transport_ops \<Rightarrow> host_order \<Rightarrow> protocol \<Rightarrow> ('t, byte list) reader" where
  "readString T h p = rd_then (readI32 T h) (readStringBody T p)"

definition readBinary :: "'t transport_ops \<Rightarrow> host_order \<Rightarrow> protocol \<Rightarrow> ('t, byte list) reader" where
  "readBinary T h p = readString T h p"

text \<open>A container size read from the wire.\<close>

definition check_size :: "protocol \<Rightarrow> 32 word \<Rightarrow> ('t, 32 word) reader" where
  "check_size p sizei =
     (if sint sizei < 0 then rd_throw NegativeSize
      else if container_limit p \<noteq> 0 \<and> container_limit p < sint sizei then rd_throw SizeLimit
      else rd_value sizei)"

definition readFieldBegin :: "'t transport_ops \<Rightarrow> host_order \<Rightarrow> ('t, int \<times> 16 word) reader" where
  "readFieldBegin T h =
     rd_then (readByte T) (\<lambda>ty. if sint ty = T_STOP then rd_value (sint ty, 0)
       else rd_then (readI16 T h) (\<lambda>i. rd_value (sint ty, i)))"

definition readMapBegin :: "'t transport_ops \<Rightarrow> host_order \<Rightarrow> protocol \<Rightarrow> ('t, int \<times> int \<times> 32 word) reader" where
  "readMapBegin T h p =
     rd_then (readByte T) (\<lambda>k. rd_then (readByte T) (\<lambda>v. rd_then (readI32 T h) (\<lambda>sizei.
       rd_then (check_size p sizei) (\<lambda>sz. rd_value (sint k, sint v, sz)))))"

definition readListBegin :: "'t transport_ops \<Rightarrow> host_order \<Rightarrow> protocol \<Rightarrow> ('t, int \<times> 32 word) reader" where
  "readListBegin T h p =
     rd_then (readByte T) (\<lambda>e. rd_then (readI32 T h) (\<lambda>sizei. rd_then (check_size p sizei) (\<lambda>sz. rd_value (sint e, sz))))"

definition readSetBegin :: "'t transport_ops \<Rightarrow> host_order \<Rightarrow> protocol \<Rightarrow> ('t, int \<times> 32 word) reader" where
  "readSetBegin T h p =
     rd_then (readByte T) (\<lambda>e. rd_then (readI32 T h) (\<lambda>sizei. rd_then (check_size p sizei) (\<lambda>sz. rd_value (sint e, sz))))"

definition readMessageBegin :: "'t transport_ops \<Rightarrow> host_order \<Rightarrow> protocol \<Rightarrow> ('t, byte list \<times> int \<times> 32 word) reader" where
  "readMessageBegin T h p =
     rd_then (readI32 T h) (\<lambda>sz.
       if sint sz < 0
       then if sz AND VERSION_MASK \<noteq> VERSION_1 then rd_throw BadVersion
            else rd_then (readString T h p) (\<lambda>name. rd_then (readI32 T h) (\<lambda>seqid. rd_value (name, sint (sz AND 0xff), seqid)))
       else if strict_read p then rd_throw BadVersion
       else rd_then (readStringBody T p sz) (\<lambda>name. rd_then (readByte T) (\<lambda>ty. rd_then (readI32 T h) (\<lambda>seqid.
              rd_value (name, sint ty, seqid)))))"

text \<open>The specialisation for the memory buffer; for any other transport the result is zero.\<close>

definition GetSeqID :: "'t transport_ops \<Rightarrow> host_order \<Rightarrow> protocol \<Rightarrow> 't \<Rightarrow> (32 word \<times> 't) result" where
  "GetSeqID T h p t =
     rbind (rd_then (readI32 T h) (\<lambda>sz.
         if sint sz < 0 \<and> sz AND VERSION_MASK = VERSION_1
         then rd_then (readString T h p) (\<lambda>name. readI32 T h)
         else if 0 \<le> sint sz \<and> \<not> strict_read p
         then rd_then (readStringBody T p sz) (\<lambda>name. rd_then (readByte T) (\<lambda>ty. readI32 T h))
         else rd_value 0) t)
       (\<lambda>(i, n, t'). Inr (i, t'))"

text \<open>The calls that mark the end of a part, and the begin of a structure, transfer nothing.\<close>

definition writeMessageEnd :: "'t writer" where "writeMessageEnd = wr_skip"
definition writeStructBegin :: "string \<Rightarrow> 't writer" where "writeStructBegin name = wr_skip"
definition writeStructEnd :: "'t writer" where "writeStructEnd = wr_skip"
definition writeFieldEnd :: "'t writer" where "writeFieldEnd = wr_skip"
definition writeMapEnd :: "'t writer" where "writeMapEnd = wr_skip"
definition writeListEnd :: "'t writer" where "writeListEnd = wr_skip"
definition writeSetEnd :: "'t writer" where "writeSetEnd = wr_skip"
definition readMessageEnd :: "('t, unit) reader" where "readMessageEnd = rd_value ()"
definition readStructBegin :: "('t, string) reader" where "readStructBegin = rd_value []"
definition readStructEnd :: "('t, unit) reader" where "readStructEnd = rd_value ()"
definition readFieldEnd :: "('t, unit) reader" where "readFieldEnd = rd_value ()"
definition readMapEnd :: "('t, unit) reader" where "readMapEnd = rd_value ()"
definition readListEnd :: "('t, unit) reader" where "readListEnd = rd_value ()"
definition readSetEnd :: "('t, unit) reader" where "readSetEnd = rd_value ()"

section \<open>Eight bytes in network order\<close>

text \<open>Two halves joined, as \<open>htonll\<close> does.\<close>

definition join64 :: "32 word \<Rightarrow> 32 word \<Rightarrow> 64 word" where
  "join64 hi lo = push_bit 32 (ucast hi) + ucast lo"

lemma bit_join64: "bit (join64 hi lo) k \<longleftrightarrow> (if k < 32 then bit lo k else bit hi (k - 32))"
proof -
  have "join64 hi lo = push_bit 32 (ucast hi) OR ucast lo" unfolding join64_def
    by (rule disjunctive_add) (auto simp: bit_push_bit_iff bit_ucast_iff dest: bit_imp_le_length)
  then show ?thesis
    using bit_imp_le_length [of hi "k - 32"] bit_imp_le_length [of lo k] by (auto simp: bit_or_iff bit_push_bit_iff bit_ucast_iff)
qed

lemma join64_halves [simp]: "ucast (join64 hi lo) = lo" "ucast (signed_drop_bit 32 (join64 hi lo)) = hi"
  by (rule bit_word_eqI; simp add: bit_ucast_iff bit_join64 bit_signed_drop_bit_iff)+

lemma halves_join64: "join64 (ucast (signed_drop_bit 32 x)) (ucast x) = x"
  by (rule bit_word_eqI) (auto simp: bit_ucast_iff bit_join64 bit_signed_drop_bit_iff)

lemma le_bytes_join64: "le_bytes (join64 hi lo) = le_bytes lo @ le_bytes hi"
proof (rule nth_equalityI)
  fix i assume "i < length (le_bytes (join64 hi lo))"
  then have i: "i < 8" by simp
  show "le_bytes (join64 hi lo) ! i = (le_bytes lo @ le_bytes hi) ! i"
  proof (rule bit_word_eqI)
    fix k assume "k < LENGTH(8)"
    then have k: "k < 8" by simp
    show "bit (le_bytes (join64 hi lo) ! i) k = bit ((le_bytes lo @ le_bytes hi) ! i) k"
    proof (cases "i < 4")
      case True
      then have "8 * i + k < 32" using k by simp
      then show ?thesis using True k by (simp add: le_bytes_def nth_append bit_ucast_iff bit_drop_bit_eq bit_join64)
    next
      case False
      then obtain j where j: "i = 4 + j" "j < 4" using i that [of "i - 4"] by simp
      then show ?thesis using k by (simp add: le_bytes_def nth_append bit_ucast_iff bit_drop_bit_eq bit_join64)
    qed
  qed
qed simp

lemma htonll_join: "htonll h x = join64 (htonl h (ucast x)) (htonl h (ucast (signed_drop_bit 32 x)))"
  by (simp add: htonll_def join64_def)

lemma ntohll_htonll [simp]: "ntohll h (htonll h x) = x"
proof -
  have "ntohll h y = htonll h y" for y by (simp add: ntohll_def htonll_def)
  then show ?thesis by (simp add: htonll_join htonl_def swap_to_be_involutive halves_join64)
qed

text \<open>The bytes of the wire.\<close>

lemma wire_bytes:
  "obj_bytes h (htonl h x32) = be_bytes x32" "obj_bytes h (htons h x16) = be_bytes x16"
  "htonl h (obj_word h (be_bytes x32)) = x32" "htons h (obj_word h (be_bytes x16)) = x16"
  by (simp_all add: htonl_def htons_def obj_bytes_swap swap_obj_word)

lemma be_bytes_halves: "be_bytes x = be_bytes (ucast (signed_drop_bit 32 x) :: 32 word) @ be_bytes (ucast x :: 32 word)" for x :: "64 word"
  by (subst halves_join64 [symmetric, of x]) (simp only: be_bytes_def le_bytes_join64 rev_append join64_halves)

text \<open>\<open>htonll\<close> gives network order on a little-endian host only; on a big-endian one the halves are swapped.\<close>

lemma htonll_wire:
  "obj_bytes LittleEndian (htonll LittleEndian x) = be_bytes x"
  "obj_bytes BigEndian (htonll BigEndian x) = be_bytes (ucast x :: 32 word) @ be_bytes (ucast (signed_drop_bit 32 x) :: 32 word)"
  by (simp_all add: htonll_join htonl_def swap_to_be_def obj_bytes_def le_bytes_join64 le_bytes_le_word be_bytes_def
      be_bytes_halves [of x, unfolded be_bytes_def])

section \<open>What the protocol relies on\<close>

text \<open>Writing appends; \<open>used\<close> counts what went through the transport.\<close>

locale thrift_writer =
  fixes T :: "'t transport_ops" and inv :: "'t \<Rightarrow> bool" and used :: "'t \<Rightarrow> nat" and out :: "'t \<Rightarrow> byte list"
  assumes write_ok: "inv t \<Longrightarrow> used t + length d \<le> 2 ^ 31 \<Longrightarrow>
    \<exists>t'. tr_write T d t = Inr t' \<and> inv t' \<and> used t' = used t + length d \<and> out t' = out t @ d"

text \<open>Reading takes from the front; borrowed bytes are those in front and can be consumed.\<close>

locale thrift_reader =
  fixes T :: "'t transport_ops" and inv :: "'t \<Rightarrow> bool" and inp :: "'t \<Rightarrow> byte list"
  assumes readAll_ok: "inv t \<Longrightarrow> n \<le> length (inp t) \<Longrightarrow>
      \<exists>t'. tr_readAll T n t = Inr (take n (inp t), t') \<and> inv t' \<and> inp t' = drop n (inp t)"
    and borrow_none: "inv t \<Longrightarrow> tr_borrow T n t = (None, t') \<Longrightarrow> inv t' \<and> inp t' = inp t"
    and borrow_some: "inv t \<Longrightarrow> tr_borrow T n t = (Some d, t') \<Longrightarrow> n \<le> length (inp t) \<and> take n d = take n (inp t) \<and>
      (\<exists>t''. tr_consume T n t' = Inr t'' \<and> inv t'' \<and> inp t'' = drop n (inp t))"

text \<open>A transport at its end throws.\<close>

locale thrift_reader_eof = thrift_reader +
  assumes readAll_short: "inv t \<Longrightarrow> length (inp t) < n \<Longrightarrow> tr_readAll T n t = Inl (TransportError EndOfFile)"

text \<open>A writer that emits given bytes, and a reader that takes them and returns a value.\<close>

definition emits :: "('t \<Rightarrow> bool) \<Rightarrow> ('t \<Rightarrow> nat) \<Rightarrow> ('t \<Rightarrow> byte list) \<Rightarrow> 't writer \<Rightarrow> byte list \<Rightarrow> bool" where
  "emits I used out f d \<longleftrightarrow> (\<forall>t. I t \<and> used t + length d \<le> 2 ^ 31 \<longrightarrow>
     (\<exists>t'. f t = Inr (length d, t') \<and> I t' \<and> used t' = used t + length d \<and> out t' = out t @ d))"

definition parses :: "('t \<Rightarrow> bool) \<Rightarrow> ('t \<Rightarrow> byte list) \<Rightarrow> ('t, 'a) reader \<Rightarrow> byte list \<Rightarrow> 'a \<Rightarrow> bool" where
  "parses I inp f d x \<longleftrightarrow> (\<forall>t rest. I t \<and> inp t = d @ rest \<and> length d \<le> 2 ^ 31 \<longrightarrow>
     (\<exists>t'. f t = Inr (x, length d, t') \<and> I t' \<and> inp t' = rest))"

lemma emitsD: "emits I used out f d \<Longrightarrow> I t \<Longrightarrow> used t + length d \<le> 2 ^ 31 \<Longrightarrow>
    \<exists>t'. f t = Inr (length d, t') \<and> I t' \<and> used t' = used t + length d \<and> out t' = out t @ d"
  by (simp add: emits_def)

lemma parsesD: "parses I inp f d x \<Longrightarrow> I t \<Longrightarrow> inp t = d @ rest \<Longrightarrow> length d \<le> 2 ^ 31 \<Longrightarrow>
    \<exists>t'. f t = Inr (x, length d, t') \<and> I t' \<and> inp t' = rest"
  by (simp add: parses_def)

lemma emits_skip: "emits I used out wr_skip []"
  by (simp add: emits_def wr_skip_def)

lemma emits_then:
  assumes "emits I used out f d" "emits I used out g e"
  shows "emits I used out (wr_then f g) (d @ e)"
  unfolding emits_def
proof (intro allI impI)
  fix t assume t: "I t \<and> used t + length (d @ e) \<le> 2 ^ 31"
  then obtain t1 where 1: "f t = Inr (length d, t1)" "I t1" "used t1 = used t + length d" "out t1 = out t @ d"
    using emitsD [OF assms(1), of t] by auto
  moreover obtain t2 where "g t1 = Inr (length e, t2)" "I t2" "used t2 = used t1 + length e" "out t2 = out t1 @ e"
    using emitsD [OF assms(2) 1(2)] 1(3) t by auto
  ultimately show "\<exists>t'. wr_then f g t = Inr (length (d @ e), t') \<and> I t' \<and> used t' = used t + length (d @ e) \<and> out t' = out t @ d @ e"
    using t by (simp add: wr_then_def uint32_id)
qed

lemma parses_value: "parses I inp (rd_value x) [] x"
  by (simp add: parses_def rd_value_def)

lemma parses_then:
  assumes "parses I inp f d x" "parses I inp (g x) e y"
  shows "parses I inp (rd_then f g) (d @ e) y"
  unfolding parses_def
proof (intro allI impI)
  fix t rest assume t: "I t \<and> inp t = (d @ e) @ rest \<and> length (d @ e) \<le> 2 ^ 31"
  then obtain t1 where 1: "f t = Inr (x, length d, t1)" "I t1" "inp t1 = e @ rest"
    using parsesD [OF assms(1), of t "e @ rest"] by auto
  moreover obtain t2 where "g x t1 = Inr (y, length e, t2)" "I t2" "inp t2 = rest"
    using parsesD [OF assms(2) 1(2,3)] t by auto
  ultimately show "\<exists>t'. rd_then f g t = Inr (y, length (d @ e), t') \<and> I t' \<and> inp t' = rest"
    using t by (simp add: rd_then_def uint32_id)
qed

lemma parses_map: "parses I inp f d x \<Longrightarrow> parses I inp (rd_then f (\<lambda>x. rd_value (h x))) d (h x)"
  using parses_then [of I inp f d x "\<lambda>x. rd_value (h x)" "[]" "h x"] parses_value [of I inp "h x"] by simp

section \<open>The formats\<close>

definition enc_string :: "byte list \<Rightarrow> byte list" where
  "enc_string str = be_bytes (of_nat (length str) :: 32 word) @ str"

definition enc_header :: "bool \<Rightarrow> byte list \<Rightarrow> int \<Rightarrow> 32 word \<Rightarrow> byte list" where
  "enc_header strict name ty i =
     (if strict then (be_bytes (VERSION_1 OR of_int ty) @ enc_string name) @ be_bytes i
      else (enc_string name @ [of_int ty]) @ be_bytes i)"

lemma string_size: "length str < 2 ^ 31 \<Longrightarrow> sint (of_nat (length str) :: 32 word) = int (length str)"
  "length str < 2 ^ 31 \<Longrightarrow> unat (of_nat (length str) :: 32 word) = length str"
  using int32_id [of "int (length str)"] by (simp_all add: unsigned_of_nat take_bit_nat_eq_self)

lemma byte_word:
  assumes "0 \<le> ty" "ty < 256"
  shows "(of_int ty :: 32 word) AND 0xff = of_int ty" "sint (of_int ty :: 32 word) = ty"
proof -
  have "uint (of_int ty :: 32 word) = ty" using assms by (simp add: uint_word_of_int_eq take_bit_int_eq_self)
  then have "take_bit 8 (of_int ty :: 32 word) = of_int ty"
    using assms by (simp add: word_uint_eq_iff unsigned_take_bit_eq take_bit_int_eq_self)
  moreover have "(0xff :: 32 word) = mask 8" by (simp add: mask_eq_exp_minus_1)
  ultimately show "(of_int ty :: 32 word) AND 0xff = of_int ty" by (simp add: take_bit_eq_mask)
  show "sint (of_int ty :: 32 word) = ty" using assms by (intro int32_id) simp_all
qed

lemma version_word:
  assumes "0 \<le> ty" "ty < 256"
  shows "sint (VERSION_1 OR of_int ty) < 0" "(VERSION_1 OR of_int ty) AND VERSION_MASK = VERSION_1"
    "(VERSION_1 OR of_int ty) AND 0xff = (of_int ty :: 32 word)"
proof -
  let ?w = "of_int ty :: 32 word"
  note w = byte_word(1) [OF assms]
  have "bit VERSION_1 (LENGTH(32) - Suc 0)" unfolding bit_last_iff VERSION_1_def by simp
  then have "bit (VERSION_1 OR ?w) (LENGTH(32) - Suc 0)" by (simp only: bit_or_iff simp_thms)
  then show "sint (VERSION_1 OR ?w) < 0" unfolding bit_last_iff .
  have "?w AND VERSION_MASK = ?w AND (0xff AND VERSION_MASK)" by (subst w [symmetric]) (rule and.assoc)
  also have "\<dots> = 0" by (simp add: VERSION_MASK_def)
  finally have m: "?w AND VERSION_MASK = 0" .
  have "(VERSION_1 OR ?w) AND VERSION_MASK = (VERSION_1 AND VERSION_MASK) OR (?w AND VERSION_MASK)"
    by (rule bit.conj_disj_distrib2)
  also have "\<dots> = VERSION_1" unfolding m by (simp add: VERSION_1_def VERSION_MASK_def)
  finally show "(VERSION_1 OR ?w) AND VERSION_MASK = VERSION_1" .
  have "(VERSION_1 OR ?w) AND 0xff = (VERSION_1 AND 0xff) OR (?w AND 0xff)" by (simp only: bit.conj_disj_distrib2)
  also have "\<dots> = ?w" using w by (simp add: VERSION_1_def)
  finally show "(VERSION_1 OR ?w) AND 0xff = ?w" .
qed

lemma sbyte_word: "- 128 \<le> ty \<Longrightarrow> ty < 128 \<Longrightarrow> sint (of_int ty :: byte) = ty"
  by (simp add: sint_sbintrunc' signed_take_bit_int_eq_self)

section \<open>Writing emits the format\<close>

context thrift_writer
begin

lemma emits_bytes: "emits inv used out (wr_bytes T d) d"
  unfolding emits_def using write_ok [of _ d] by (fastforce simp: wr_bytes_def)

lemma emits_scalars:
  "emits inv used out (writeByte T b) [b]"
  "emits inv used out (writeBool T v) [if v then 1 else 0]"
  "emits inv used out (writeI16 T h i16) (be_bytes i16)"
  "emits inv used out (writeI32 T h i32) (be_bytes i32)"
  "emits inv used out (writeI64 T h i64) (obj_bytes h (htonll h i64))"
  "emits inv used out (writeDouble T h i64) (obj_bytes h (htonll h i64))"
  by (simp_all only: writeByte_def writeBool_def writeI16_def writeI32_def writeI64_def writeDouble_def wire_bytes emits_bytes)

lemma emits_string: "length str < 2 ^ 31 \<Longrightarrow> emits inv used out (writeString T h str) (enc_string str)"
  using emits_then [OF emits_scalars(4), where e = str] emits_bytes [of str] emits_skip [of inv used out]
  by (cases "str = []") (simp_all add: writeString_def enc_string_def uint32_id Let_def)

lemma emits_container:
  "emits inv used out (writeFieldBegin T h name ty i16) ([of_int ty] @ be_bytes i16)"
  "emits inv used out (writeFieldStop T) [of_int T_STOP]"
  "emits inv used out (writeMapBegin T h kt vt sz) (([of_int kt] @ [of_int vt]) @ be_bytes sz)"
  "emits inv used out (writeListBegin T h ty sz) ([of_int ty] @ be_bytes sz)"
  "emits inv used out (writeSetBegin T h ty sz) ([of_int ty] @ be_bytes sz)"
  unfolding writeFieldBegin_def writeFieldStop_def writeMapBegin_def writeListBegin_def writeSetBegin_def
  by (intro emits_then emits_scalars)+

lemma emits_header: "length name < 2 ^ 31 \<Longrightarrow>
    emits inv used out (writeMessageBegin T h p name ty i) (enc_header (strict_write p) name ty i)"
  by (cases "strict_write p") (simp_all only: writeMessageBegin_def enc_header_def if_True if_False emits_then emits_scalars emits_string)

end

section \<open>Reading takes the format\<close>

definition string_fits :: "protocol \<Rightarrow> byte list \<Rightarrow> bool" where
  "string_fits p str \<longleftrightarrow> length str < 2 ^ 31 \<and> (0 < string_limit p \<longrightarrow> int (length str) \<le> string_limit p)"

context thrift_reader
begin

lemma parses_bytes: "length d = n \<Longrightarrow> parses inv inp (rd_bytes T n) d d"
  unfolding parses_def using readAll_ok [of _ n] by (fastforce simp: rd_bytes_def)

lemma parses_scalars:
  "parses inv inp (readByte T) [b] b"
  "parses inv inp (readBool T) [if v then 1 else 0] v"
  "parses inv inp (readI16 T h) (be_bytes i16) i16"
  "parses inv inp (readI32 T h) (be_bytes i32) i32"
  "parses inv inp (readI64 T h) (obj_bytes h (htonll h i64)) i64"
  "parses inv inp (readDouble T h) (obj_bytes h (htonll h i64)) i64"
  using parses_map [OF parses_bytes [of "[b]"], where h = hd] parses_map [OF parses_bytes [of "[if v then 1 else 0]"], where h = "\<lambda>d. hd d \<noteq> 0"]
    parses_map [OF parses_bytes [of "be_bytes i16"], where h = "\<lambda>d. htons h (obj_word h d)"]
    parses_map [OF parses_bytes [of "be_bytes i32"], where h = "\<lambda>d. htonl h (obj_word h d)"]
    parses_map [OF parses_bytes [of "obj_bytes h (htonll h i64)"], where h = "\<lambda>d. ntohll h (obj_word h d)"]
  by (simp_all add: readByte_def readBool_def readI16_def readI32_def readI64_def readDouble_def wire_bytes obj_word_obj_bytes split: if_splits)

lemma parses_body:
  assumes "string_fits p str"
  shows "parses inv inp (readStringBody T p (of_nat (length str))) str str"
  unfolding parses_def
proof (intro allI impI)
  fix t rest assume t: "inv t \<and> inp t = str @ rest \<and> length str \<le> 2 ^ 31"
  let ?sz = "of_nat (length str) :: 32 word"
  have fits: "length str < 2 ^ 31" "0 < string_limit p \<longrightarrow> int (length str) \<le> string_limit p" using assms by (simp_all add: string_fits_def)
  note sz = string_size [OF fits(1)]
  show "\<exists>t'. readStringBody T p ?sz t = Inr (str, length str, t') \<and> inv t' \<and> inp t' = rest"
  proof (cases "str = []")
    case True
    then show ?thesis using t by (simp add: readStringBody_def)
  next
    case False
    then have "?sz \<noteq> 0" using sz(2) by (metis length_0_conv unsigned_0)
    then have run: "readStringBody T p ?sz t = (case tr_borrow T (length str) t of
        (Some d, t1) \<Rightarrow> rbind (tr_consume T (length str) t1) (\<lambda>t2. Inr (take (length str) d, length str, t2))
      | (None, t1) \<Rightarrow> rd_bytes T (length str) t1)"
      using fits(2) unfolding readStringBody_def sz by auto
    obtain r t1 where b: "tr_borrow T (length str) t = (r, t1)" by fastforce
    show ?thesis
    proof (cases r)
      case None
      then have "inv t1" "inp t1 = str @ rest" using borrow_none [of t "length str" t1] b t by auto
      then show ?thesis using parsesD [OF parses_bytes [OF refl], of t1 str rest] run b None t by auto
    next
      case (Some d)
      then show ?thesis using borrow_some [of t "length str" d t1] b t run by auto
    qed
  qed
qed

lemma parses_string: "string_fits p str \<Longrightarrow> parses inv inp (readString T h p) (enc_string str) str"
  unfolding readString_def enc_string_def by (intro parses_then [OF parses_scalars(4)] parses_body)

lemma parses_size:
  "0 \<le> sint sz \<Longrightarrow> container_limit p = 0 \<or> sint sz \<le> container_limit p \<Longrightarrow> parses inv inp (check_size p sz) [] sz"
  by (auto simp: check_size_def parses_value)

lemma parses_field:
  assumes "- 128 \<le> ty" "ty < 128"
  shows "ty \<noteq> T_STOP \<Longrightarrow> parses inv inp (readFieldBegin T h) ([of_int ty] @ be_bytes i16) (ty, i16)"
    and "parses inv inp (readFieldBegin T h) [of_int T_STOP] (T_STOP, 0)"
proof -
  note ty = sbyte_word [OF assms]
  show "ty \<noteq> T_STOP \<Longrightarrow> parses inv inp (readFieldBegin T h) ([of_int ty] @ be_bytes i16) (ty, i16)"
    unfolding readFieldBegin_def
    using parses_map [OF parses_scalars(3), where h = "\<lambda>i. (ty, i)"] by (intro parses_then [OF parses_scalars(1)]) (simp only: ty if_False)
  show "parses inv inp (readFieldBegin T h) [of_int T_STOP] (T_STOP, 0)"
    using parses_then [OF parses_scalars(1) [of "of_int T_STOP"], where e = "[]" and y = "(T_STOP, 0)" and
        g = "\<lambda>ty. if sint ty = T_STOP then rd_value (sint ty, 0) else rd_then (readI16 T h) (\<lambda>i. rd_value (sint ty, i))"]
      parses_value [of inv inp "(T_STOP, 0)"] unfolding readFieldBegin_def by (simp add: T_STOP_def)
qed

lemma parses_list:
  assumes "- 128 \<le> ty" "ty < 128" "0 \<le> sint sz" "container_limit p = 0 \<or> sint sz \<le> container_limit p"
  shows "parses inv inp (readListBegin T h p) ([of_int ty] @ be_bytes sz) (ty, sz)"
    and "parses inv inp (readSetBegin T h p) ([of_int ty] @ be_bytes sz) (ty, sz)"
proof -
  have "parses inv inp (rd_then (check_size p sz) (\<lambda>sz. rd_value (ty, sz))) [] (ty, sz)" using parses_map [OF parses_size [OF assms(3,4)]] .
  then have "parses inv inp (rd_then (readI32 T h) (\<lambda>sizei. rd_then (check_size p sizei) (\<lambda>sz. rd_value (ty, sz)))) (be_bytes sz @ []) (ty, sz)"
    by (rule parses_then [OF parses_scalars(4)])
  then show "parses inv inp (readListBegin T h p) ([of_int ty] @ be_bytes sz) (ty, sz)" "parses inv inp (readSetBegin T h p) ([of_int ty] @ be_bytes sz) (ty, sz)"
    unfolding readListBegin_def readSetBegin_def
    by (intro parses_then [OF parses_scalars(1)]; simp add: sbyte_word [OF assms(1,2)])+
qed

lemma parses_header:
  assumes "string_fits p name" "if strict then 0 \<le> ty \<and> ty < 256 else - 128 \<le> ty \<and> ty < 128 \<and> \<not> strict_read p"
  shows "parses inv inp (readMessageBegin T h p) (enc_header strict name ty i) (name, ty, i)"
proof (cases strict)
  case True
  then have ty: "0 \<le> ty" "ty < 256" using assms(2) by simp_all
  note v = version_word [OF ty] byte_word(2) [OF ty]
  have "parses inv inp (rd_then (readString T h p) (\<lambda>name. rd_then (readI32 T h) (\<lambda>seqid. rd_value (name, ty, seqid))))
      (enc_string name @ be_bytes i) (name, ty, i)"
    by (intro parses_then [OF parses_string [OF assms(1)]] parses_map parses_scalars)
  then show ?thesis using True unfolding readMessageBegin_def enc_header_def
    by (simp only: if_True append_assoc, intro parses_then [OF parses_scalars(4)]) (simp add: v)
next
  case False
  then have ty: "- 128 \<le> ty" "ty < 128" "\<not> strict_read p" using assms(2) by simp_all
  have sz: "0 \<le> sint (of_nat (length name) :: 32 word)" using string_size(1) [of name] assms(1) by (simp add: string_fits_def)
  have "parses inv inp (rd_then (readStringBody T p (of_nat (length name))) (\<lambda>name. rd_then (readByte T) (\<lambda>ty. rd_then (readI32 T h)
      (\<lambda>seqid. rd_value (name, sint ty, seqid))))) (name @ [of_int ty] @ be_bytes i) (name, sint (of_int ty :: byte), i)"
    by (intro parses_then [OF parses_body [OF assms(1)]] parses_then [OF parses_scalars(1)] parses_map parses_scalars)
  then show ?thesis using False ty sz unfolding readMessageBegin_def enc_header_def enc_string_def
    by (simp only: if_False append_assoc, intro parses_then [OF parses_scalars(4)]) (simp add: sbyte_word)
qed

end

section \<open>Reading what a peer sent\<close>

text \<open>The errors a reader reports for malformed bytes.\<close>

definition reader_errors :: "error set" where
  "reader_errors = {TransportError EndOfFile, ProtocolError NegativeSize, ProtocolError SizeLimit, ProtocolError BadVersion}"

text \<open>On any input, the reader takes bytes from the front or reports one of these errors.\<close>

definition robust :: "('t \<Rightarrow> bool) \<Rightarrow> ('t \<Rightarrow> byte list) \<Rightarrow> ('t, 'a) reader \<Rightarrow> bool" where
  "robust I inp f \<longleftrightarrow> (\<forall>t. I t \<longrightarrow>
     (\<exists>e\<in>reader_errors. f t = Inl e) \<or> (\<exists>x n t' d. f t = Inr (x, n, t') \<and> I t' \<and> inp t = d @ inp t'))"

lemma robust_value: "robust I inp (rd_value x)"
  by (simp add: robust_def rd_value_def)

lemma robust_throw: "ProtocolError e \<in> reader_errors \<Longrightarrow> robust I inp (rd_throw e)"
  by (simp add: robust_def rd_throw_def)

lemma robust_then:
  assumes "robust I inp f" "\<And>x. robust I inp (g x)"
  shows "robust I inp (rd_then f g)"
  unfolding robust_def
proof (intro allI impI)
  fix t assume "I t"
  with assms(1) consider (err) e where "e \<in> reader_errors" "f t = Inl e" | (val) x n t1 d where "f t = Inr (x, n, t1)" "I t1" "inp t = d @ inp t1"
    unfolding robust_def by blast
  then show "(\<exists>e\<in>reader_errors. rd_then f g t = Inl e) \<or> (\<exists>y n t' d. rd_then f g t = Inr (y, n, t') \<and> I t' \<and> inp t = d @ inp t')"
  proof cases
    case err
    then show ?thesis by (auto simp: rd_then_def)
  next
    case val
    then consider (err2) e where "e \<in> reader_errors" "g x t1 = Inl e" | (val2) y m t2 d2 where "g x t1 = Inr (y, m, t2)" "I t2" "inp t1 = d2 @ inp t2"
      using assms(2) [of x] unfolding robust_def by blast
    then show ?thesis
    proof cases
      case err2
      then show ?thesis using val by (auto simp: rd_then_def)
    next
      case val2
      then have "inp t = (d @ d2) @ inp t2" using val by simp
      then show ?thesis using val val2 by (auto simp: rd_then_def)
    qed
  qed
qed

context thrift_reader_eof
begin

lemma robust_bytes: "robust inv inp (rd_bytes T n)"
  unfolding robust_def
proof (intro allI impI)
  fix t assume t: "inv t"
  show "(\<exists>e\<in>reader_errors. rd_bytes T n t = Inl e) \<or> (\<exists>x m t' d. rd_bytes T n t = Inr (x, m, t') \<and> inv t' \<and> inp t = d @ inp t')"
  proof (cases "n \<le> length (inp t)")
    case True
    then obtain t' where "tr_readAll T n t = Inr (take n (inp t), t')" "inv t'" "inp t' = drop n (inp t)" using readAll_ok [OF t] by blast
    then show ?thesis by (auto simp: rd_bytes_def intro: append_take_drop_id [symmetric])
  next
    case False
    then show ?thesis using readAll_short [OF t] by (simp add: rd_bytes_def reader_errors_def)
  qed
qed

lemma robust_scalars: "robust inv inp (readByte T)" "robust inv inp (readI16 T h)" "robust inv inp (readI32 T h)"
  unfolding readByte_def readI16_def readI32_def by (intro robust_then robust_bytes robust_value)+

lemma robust_body: "robust inv inp (readStringBody T p sz)"
  unfolding robust_def
proof (intro allI impI)
  fix t assume t: "inv t"
  consider (neg) "sint sz < 0" | (lim) "\<not> sint sz < 0" "0 < string_limit p \<and> string_limit p < sint sz"
    | (zero) "\<not> sint sz < 0" "\<not> (0 < string_limit p \<and> string_limit p < sint sz)" "sz = 0"
    | (body) "readStringBody T p sz t = (case tr_borrow T (unat sz) t of
          (Some d, t1) \<Rightarrow> rbind (tr_consume T (unat sz) t1) (\<lambda>t2. Inr (take (unat sz) d, unat sz, t2))
        | (None, t1) \<Rightarrow> rd_bytes T (unat sz) t1)"
    unfolding readStringBody_def by argo
  then show "(\<exists>e\<in>reader_errors. readStringBody T p sz t = Inl e) \<or>
      (\<exists>x n t' d. readStringBody T p sz t = Inr (x, n, t') \<and> inv t' \<and> inp t = d @ inp t')"
  proof cases
    case neg
    then show ?thesis by (simp add: readStringBody_def reader_errors_def)
  next
    case lim
    then show ?thesis by (simp add: readStringBody_def reader_errors_def)
  next
    case zero
    then show ?thesis using t by (auto simp: readStringBody_def)
  next
    case body
    obtain r t1 where b: "tr_borrow T (unat sz) t = (r, t1)" by fastforce
    show ?thesis
    proof (cases r)
      case None
      then have "inv t1" "inp t1 = inp t" using borrow_none [OF t] b by auto
      moreover have "readStringBody T p sz t = rd_bytes T (unat sz) t1" using None b body by simp
      ultimately show ?thesis using robust_bytes [of "unat sz"] unfolding robust_def by metis
    next
      case (Some d)
      then obtain t2 where "tr_consume T (unat sz) t1 = Inr t2" "inv t2" "inp t2 = drop (unat sz) (inp t)" using borrow_some [OF t] b by blast
      then show ?thesis using Some b body by (auto intro: append_take_drop_id [symmetric])
    qed
  qed
qed

lemma robust_header: "robust inv inp (readMessageBegin T h p)"
proof -
  have "ProtocolError BadVersion \<in> reader_errors" by (simp add: reader_errors_def)
  then show ?thesis unfolding readMessageBegin_def readString_def
    by (intro robust_then robust_scalars) (auto intro!: robust_then robust_scalars robust_body robust_throw robust_value)
qed

end

text \<open>The memory buffer provides the interfaces.\<close>

interpretation mem: thrift_writer memory_transport "\<lambda>b. mb_inv b \<and> mb_owner b" mb_wBase mb_bytes
  using mb_write_ok by unfold_locales (auto simp: memory_transport_def)

interpretation memr: thrift_reader_eof memory_transport mb_inv mb_bytes
proof unfold_locales
  fix t t' :: memory_buffer and n d
  assume t: "mb_inv t"
  show "\<exists>t'. tr_readAll memory_transport n t = Inr (take n (mb_bytes t), t') \<and> mb_inv t' \<and> mb_bytes t' = drop n (mb_bytes t)"
    if "n \<le> length (mb_bytes t)" using mb_readAll_ok [OF t that] by (auto simp: memory_transport_def)
  show "mb_inv t' \<and> mb_bytes t' = mb_bytes t" if "tr_borrow memory_transport n t = (None, t')"
    using mb_borrow_ok(1,2) [OF t, of n None t'] that by (simp add: memory_transport_def)
  show "n \<le> length (mb_bytes t) \<and> take n d = take n (mb_bytes t) \<and>
      (\<exists>t''. tr_consume memory_transport n t' = Inr t'' \<and> mb_inv t'' \<and> mb_bytes t'' = drop n (mb_bytes t))"
    if "tr_borrow memory_transport n t = (Some d, t')"
    using mb_borrow_ok(5-7) [OF t, of n "Some d" t'] that by (auto simp: memory_transport_def)
  show "tr_readAll memory_transport n t = Inl (TransportError EndOfFile)" if "length (mb_bytes t) < n"
    using mb_readAll_short [OF t that] by (simp add: memory_transport_def)
qed

text \<open>The identifier of a message, in either format.\<close>

lemma GetSeqID_header:
  assumes "string_fits p name" "if strict then 0 \<le> ty \<and> ty < 256 else - 128 \<le> ty \<and> ty < 128 \<and> \<not> strict_read p"
    and "mb_inv b" "mb_bytes b = enc_header strict name ty i @ rest" "length (enc_header strict name ty i) \<le> 2 ^ 31"
  shows "\<exists>b'. GetSeqID memory_transport h p b = Inr (i, b') \<and> mb_inv b' \<and> mb_bytes b' = rest"
proof -
  let ?T = memory_transport
  let ?body = "\<lambda>sz. if sint sz < 0 \<and> sz AND VERSION_MASK = VERSION_1 then rd_then (readString ?T h p) (\<lambda>name. readI32 ?T h)
      else if 0 \<le> sint sz \<and> \<not> strict_read p then rd_then (readStringBody ?T p sz) (\<lambda>name. rd_then (readByte ?T) (\<lambda>ty. readI32 ?T h)) else rd_value 0"
  have "parses mb_inv mb_bytes (rd_then (readI32 ?T h) ?body) (enc_header strict name ty i) i"
  proof (cases strict)
    case True
    then have v: "sint (VERSION_1 OR of_int ty) < 0" "(VERSION_1 OR of_int ty) AND VERSION_MASK = VERSION_1" using assms(2) version_word by simp_all
    have "parses mb_inv mb_bytes (rd_then (readString ?T h p) (\<lambda>name. readI32 ?T h)) (enc_string name @ be_bytes i) i"
      by (intro parses_then [OF memr.parses_string [OF assms(1)]] memr.parses_scalars)
    then have "parses mb_inv mb_bytes (?body (VERSION_1 OR of_int ty)) (enc_string name @ be_bytes i) i" using v by simp
    from parses_then [where g = ?body, OF memr.parses_scalars(4) this] True show ?thesis by (simp add: enc_header_def)
  next
    case False
    have sz: "0 \<le> sint (of_nat (length name) :: 32 word)" using string_size(1) [of name] assms(1) by (simp add: string_fits_def)
    have "parses mb_inv mb_bytes (rd_then (readStringBody ?T p (of_nat (length name))) (\<lambda>name. rd_then (readByte ?T) (\<lambda>ty. readI32 ?T h)))
        (name @ [of_int ty] @ be_bytes i) i"
      by (intro parses_then [OF memr.parses_body [OF assms(1)]] parses_then [OF memr.parses_scalars(1)] memr.parses_scalars)
    then have "parses mb_inv mb_bytes (?body (of_nat (length name))) (name @ [of_int ty] @ be_bytes i) i" using sz assms(2) False by simp
    from parses_then [where g = ?body, OF memr.parses_scalars(4) this] False show ?thesis by (simp add: enc_header_def enc_string_def)
  qed
  from parsesD [OF this assms(3,4,5)] show ?thesis by (auto simp: GetSeqID_def)
qed

lemma emits_mem:
  assumes "emits (\<lambda>b. mb_inv b \<and> mb_owner b) mb_wBase mb_bytes f d" "mb_inv b" "mb_owner b" "mb_wBase b + length d \<le> 2 ^ 31"
  shows "\<exists>b'. f b = Inr (length d, b') \<and> mb_inv b' \<and> mb_owner b' \<and> mb_wBase b' = mb_wBase b + length d \<and> mb_bytes b' = mb_bytes b @ d"
  using emitsD [OF assms(1), of b] assms(2-4) by auto

section \<open>Properties\<close>



text \<open>Malformed input is reported: on any bytes, reading a message header returns a header taken from the front, or
  throws one of the four errors for short or malformed input; nothing is read outside the buffer and no
  borrowed bytes are consumed twice.\<close>

theorem read_header_robust:
  assumes "mb_inv b"
  shows "(\<exists>e\<in>{TransportError EndOfFile, ProtocolError NegativeSize, ProtocolError SizeLimit, ProtocolError BadVersion}.
      readMessageBegin memory_transport h p b = Inl e) \<or>
    (\<exists>m n b' d. readMessageBegin memory_transport h p b = Inr (m, n, b') \<and> mb_inv b' \<and> mb_bytes b = d @ mb_bytes b')"
  using memr.robust_header [of h p] assms unfolding robust_def reader_errors_def by blast

theorem read_header_robust_witness:
  "\<exists>b. new_TMemoryBuffer_from [0x80, 1, 0, 1, 0xff, 0xff, 0xff, 0xff] COPY = Inr b \<and>
     ((\<exists>e\<in>{TransportError EndOfFile, ProtocolError NegativeSize, ProtocolError SizeLimit, ProtocolError BadVersion}.
        readMessageBegin memory_transport LittleEndian new_protocol b = Inl e) \<or>
      (\<exists>m n b' d. readMessageBegin memory_transport LittleEndian new_protocol b = Inr (m, n, b') \<and> mb_inv b' \<and> mb_bytes b = d @ mb_bytes b'))"
proof -
  obtain b where "new_TMemoryBuffer_from [0x80, 1, 0, 1, 0xff, 0xff, 0xff, 0xff] COPY = Inr b" "mb_inv b"
    using new_from_ok [of "[0x80, 1, 0, 1, 0xff, 0xff, 0xff, 0xff]" COPY] by auto
  with read_header_robust [of b LittleEndian new_protocol] show ?thesis by blast
qed

text \<open>A 64-bit integer travels in network order from a little-endian host only: on a big-endian one \<open>htonll\<close> exchanges
  the two halves, so that the two kinds of host do not understand each other, although each reads what it wrote.\<close>

theorem i64_wire_order:
  "obj_bytes LittleEndian (htonll LittleEndian x) = be_bytes x \<and>
   obj_bytes BigEndian (htonll BigEndian x) = be_bytes (ucast x :: 32 word) @ be_bytes (ucast (signed_drop_bit 32 x) :: 32 word) \<and>
   ntohll h (htonll h x) = x"
  by (simp add: htonll_wire)

text \<open>Request identifiers stay positive: from a counter between 1 and the largest 32-bit integer but one, the next
  identifier is in that range again, so that it is never the zero that asks for a new one, nor negative.\<close>

theorem seq_id_range:
  assumes "1 \<le> sint g" "sint g < 2 ^ 31 - 1"
  shows "1 \<le> sint (fst (next_seq_id g)) \<and> sint (fst (next_seq_id g)) < 2 ^ 31 - 1 \<and> snd (next_seq_id g) = fst (next_seq_id g) \<and>
    sint (fst (next_seq_id g)) = (if sint g = 2 ^ 31 - 2 then 1 else sint g + 1)"
proof -
  define i where "i = g + 1"
  have i: "sint i = sint g + 1" using int32_id [of "sint g + 1"] assms by (simp add: i_def of_int_sint)
  have "i = 0x7fffffff \<longleftrightarrow> sint i = sint (0x7fffffff :: 32 word)" by (rule word_eq_iff_signed)
  then have "i = 0x7fffffff \<longleftrightarrow> sint g = 2 ^ 31 - 2" using i by auto
  moreover have "next_seq_id g = (if i = 0x7fffffff then (1, 1) else (i, i))" by (simp only: next_seq_id_def Let_def i_def)
  ultimately show ?thesis using assms i by simp
qed

theorem seq_id_range_witness: "sint (fst (next_seq_id 0x7ffffffe)) = 1 \<and> sint (fst (next_seq_id 5)) = 6"
  using seq_id_range [of "0x7ffffffe"] seq_id_range [of 5] by simp

end
