(* ===== verification/Cthrift_Server.thy ===== *)
theory Cthrift_Server
  imports Thrift_Protocol
begin

text \<open>
  The RPC server (\<open>src/cthrift/cthrift_svr.h\<close>, \<open>cthrift_svr.cc\<close>): framing of requests on a connection, the choice of
  a worker thread, the time wheel that closes idle connections, and the handling of one request. A connection is a
  number. A \<open>ConnEntry\<close> belongs to one connection and is kept alive by the buckets of the wheel alone, so it is the
  number too. The processor of the application is a parameter. \<open>None\<close> is a loop that does not end.
\<close>

section \<open>The objects\<close>

datatype frame_state = kExpectFrameSize | kExpectFrame

record conn_context =
  cc_state :: frame_state
  cc_want_size :: "32 word"
  cc_last_active :: int

record cthrift_svr =
  sv_wheel :: "nat set list"                     \<comment> \<open>the circular buffer of buckets\<close>
  sv_context :: "nat \<Rightarrow> conn_context option"     \<comment> \<open>the context stored in a connection\<close>
  sv_connected :: "nat \<Rightarrow> bool"
  sv_shutdown :: "nat list"                      \<comment> \<open>history: connections shut down by the wheel\<close>
  sv_conn_num :: int
  sv_worker_num :: int                           \<comment> \<open>\<open>i16_worker_thread_num_\<close>, the length of the vector of loops\<close>
  sv_pos :: "64 word"
  sv_recv :: "64 word"
  sv_tasks :: "(nat \<times> byte list \<times> nat) list"  \<comment> \<open>queued for the workers: loop, request, connection\<close>

definition kI8TimeWheelGridNum :: nat where "kI8TimeWheelGridNum = 4"

definition new_ConnContext :: conn_context where
  "new_ConnContext = \<lparr>cc_state = kExpectFrameSize, cc_want_size = 0, cc_last_active = 0\<rparr>"

section \<open>The time wheel\<close>

definition entry_alive :: "nat \<Rightarrow> cthrift_svr \<Rightarrow> bool" where
  "entry_alive c s \<longleftrightarrow> (\<exists>B\<in>set (sv_wheel s). c \<in> B)"

text \<open>\<open>back().insert\<close>.\<close>

definition wheel_insert :: "nat \<Rightarrow> cthrift_svr \<Rightarrow> cthrift_svr result" where
  "wheel_insert c s =
     (if sv_wheel s = [] then Inl UseAfterFree
      else Inr (s\<lparr>sv_wheel := butlast (sv_wheel s) @ [insert c (last (sv_wheel s))]\<rparr>))"

text \<open>\<open>~ConnEntry\<close>.\<close>

definition destroy_entry :: "nat \<Rightarrow> cthrift_svr \<Rightarrow> cthrift_svr" where
  "destroy_entry c s = (if sv_connected s c then s\<lparr>sv_shutdown := sv_shutdown s @ [c]\<rparr> else s)"

text \<open>\<open>push_back\<close> on the full circular buffer overwrites the oldest bucket; \<open>order\<close> is the order in which that
  bucket releases its entries. An entry that no other bucket holds is destroyed.\<close>

definition TimewheelKick :: "nat list \<Rightarrow> cthrift_svr \<Rightarrow> cthrift_svr" where
  "TimewheelKick order s =
     (let s1 = s\<lparr>sv_wheel := tl (sv_wheel s) @ [{}]\<rparr>
      in foldl (\<lambda>t c. if entry_alive c t then t else destroy_entry c t) s1 order)"

definition ConnThreadInit :: "cthrift_svr \<Rightarrow> cthrift_svr" where
  "ConnThreadInit s = s\<lparr>sv_conn_num := 0, sv_wheel := replicate kI8TimeWheelGridNum {}\<rparr>"

definition OnConn :: "int \<Rightarrow> nat \<Rightarrow> cthrift_svr \<Rightarrow> cthrift_svr result" where
  "OnConn now c s =
     (if sv_connected s c
      then rbind (wheel_insert c (s\<lparr>sv_conn_num := sv_conn_num s + 1\<rparr>)) (\<lambda>s1.
             Inr (s1\<lparr>sv_context := (sv_context s1)(c \<mapsto> new_ConnContext\<lparr>cc_last_active := now\<rparr>)\<rparr>))
      else Inr (if 0 < sv_conn_num s then s\<lparr>sv_conn_num := sv_conn_num s - 1\<rparr> else s))"

section \<open>Receiving\<close>

text \<open>\<open>(size_t) i32_want_size\<close>: a negative size becomes a huge one.\<close>

definition want_bytes :: "32 word \<Rightarrow> nat" where
  "want_bytes w = unat (scast w :: 64 word)"

text \<open>Round robin over the workers.\<close>

definition pick_worker :: "cthrift_svr \<Rightarrow> (nat \<times> cthrift_svr) result" where
  "pick_worker s =
     (if 1 < sv_worker_num s
      then let i = cmod (sint (sv_pos s)) (sv_worker_num s)
           in if 0 \<le> i then Inr (nat i, s\<lparr>sv_pos := sv_pos s + 1\<rparr>) else Inl OutOfBounds
      else if sv_worker_num s = 1 then Inr (0, s)
      else Inl UseAfterFree)"

text \<open>A complete frame: copied, queued on a worker and retrieved.\<close>

definition svr_dispatch :: "nat \<Rightarrow> 32 word \<Rightarrow> buffer \<Rightarrow> cthrift_svr \<Rightarrow> (buffer \<times> cthrift_svr) result" where
  "svr_dispatch c want b s =
     (let s1 = s\<lparr>sv_recv := sv_recv s + 1\<rparr>
      in rbind (append_len (contents b) (want_bytes want) new_buffer) (\<lambda>cp.
         rbind (pick_worker s1) (\<lambda>(w, s2).
         rbind (retrieve (want_bytes want) b) (\<lambda>b'.
           Inr (b', s2\<lparr>sv_tasks := sv_tasks s2 @ [(w, contents cp, c)]\<rparr>)))))"

partial_function (option) svr_loop ::
    "host_order \<Rightarrow> int \<Rightarrow> nat \<Rightarrow> buffer \<Rightarrow> conn_context \<Rightarrow> cthrift_svr \<Rightarrow> (buffer \<times> conn_context \<times> cthrift_svr) result option" where
  "svr_loop h now c b ctx s =
     (if cc_state ctx = kExpectFrameSize
      then if 4 \<le> readableBytes b
           then case readInt32 h b of
                  Inl e \<Rightarrow> Some (Inl e)
                | Inr r \<Rightarrow> svr_loop h now c (snd r) (ctx\<lparr>cc_want_size := fst r, cc_state := kExpectFrame\<rparr>) s
           else Some (Inr (b, ctx, s))
      else if want_bytes (cc_want_size ctx) \<le> readableBytes b
           then case svr_dispatch c (cc_want_size ctx) b s of
                  Inl e \<Rightarrow> Some (Inl e)
                | Inr r \<Rightarrow>
                    if entry_alive c (snd r)
                    then case wheel_insert c (snd r) of
                           Inl e \<Rightarrow> Some (Inl e)
                         | Inr s' \<Rightarrow> svr_loop h now c (fst r) (ctx\<lparr>cc_state := kExpectFrameSize, cc_last_active := now\<rparr>) s'
                    else Some (Inr (fst r, ctx\<lparr>cc_state := kExpectFrameSize, cc_last_active := now\<rparr>, snd r))
           else svr_loop h now c b ctx s)"

definition OnMsg :: "host_order \<Rightarrow> int \<Rightarrow> nat \<Rightarrow> buffer \<Rightarrow> cthrift_svr \<Rightarrow> (buffer \<times> cthrift_svr) result option" where
  "OnMsg h now c b s =
     (case sv_context s c of
        None \<Rightarrow> Some (Inr (b, s))
      | Some ctx \<Rightarrow>
          let ctx1 = ctx\<lparr>cc_last_active := now\<rparr>
          in if entry_alive c s
             then case wheel_insert c s of
                    Inl e \<Rightarrow> Some (Inl e)
                  | Inr s1 \<Rightarrow> map_option (\<lambda>r. rbind r (\<lambda>(b', ctx', s'). Inr (b', s'\<lparr>sv_context := (sv_context s')(c \<mapsto> ctx')\<rparr>)))
                                (svr_loop h now c b ctx1 s1)
             else Some (Inr (b, s\<lparr>sv_context := (sv_context s)(c \<mapsto> ctx1)\<rparr>)))"

section \<open>Handling a request\<close>

text \<open>
  \<open>Process\<close> on a worker: \<open>proc\<close> is the processor of the application with the thread's input and output buffers;
  \<open>None\<close> is an exception. The result is what is sent on the connection, if anything; \<open>up2\<close> tells whether the
  connection is still there after the handler.
\<close>

definition Process ::
    "host_order \<Rightarrow> (memory_buffer \<Rightarrow> memory_buffer \<Rightarrow> (memory_buffer \<times> memory_buffer) option) \<Rightarrow> bool \<Rightarrow> bool \<Rightarrow> byte list \<Rightarrow>
     memory_buffer \<times> memory_buffer \<Rightarrow> (byte list option \<times> memory_buffer \<times> memory_buffer) result" where
  "Process h proc up up2 req bufs =
     (case bufs of (inb, outb) \<Rightarrow>
        if \<not> up \<or> req = [] then Inr (None, inb, outb)
        else rbind (resetBuffer_from req COPY inb) (\<lambda>inb1.
             rbind (getWritePtr 4 (resetBuffer outb)) (\<lambda>(p, outb1).
             rbind (wroteBytes 4 outb1) (\<lambda>outb2.
               case proc inb1 outb2 of
                 None \<Rightarrow> Inr (None, inb1, outb2)
               | Some (inb3, outb3) \<Rightarrow>
                   (case getBuffer outb3 of (res, n) \<Rightarrow>
                      if n \<le> 4 then Inr (None, inb3, outb3)
                      else let frame = obj_bytes h (htonl h (of_nat (n - 4))) @ drop 4 res;
                               outb4 = outb3\<lparr>mb_data := overwrite (mb_rBase outb3) (take 4 frame) (mb_data outb3)\<rparr>
                           in Inr (if up2 then Some frame else None, inb3, outb4))))))"

section \<open>Counters\<close>

definition StatMsgNumPerMin :: "cthrift_svr \<Rightarrow> cthrift_svr" where
  "StatMsgNumPerMin s = s\<lparr>sv_recv := 0\<rparr>"

definition InitWorkerThreadPos :: "cthrift_svr \<Rightarrow> cthrift_svr" where
  "InitWorkerThreadPos s = (if 1 < sv_worker_num s then s\<lparr>sv_pos := 0\<rparr> else s)"

text \<open>\<open>ArgumentCheck\<close>: the error number, zero for success.\<close>

definition ERR_PARA_INVALID :: int where "ERR_PARA_INVALID = 7"

definition ArgumentCheck :: "string \<Rightarrow> 16 word \<Rightarrow> int \<Rightarrow> int \<Rightarrow> int \<Rightarrow> int" where
  "ArgumentCheck app_key port overtime_ms max_conn_num check_type =
     (if app_key = [] \<or> port = 0 \<or> (check_type = 1 \<and> (overtime_ms < 0 \<or> max_conn_num < 0)) then ERR_PARA_INVALID else 0)"

section \<open>Sizes of frames\<close>

definition frame :: "byte list \<Rightarrow> byte list" where
  "frame d = be_bytes (of_nat (length d) :: 32 word) @ d"

lemma want_bytes_sint: "want_bytes w = nat (sint w mod 2 ^ 64)"
proof -
  have "(scast w :: 64 word) = of_int (sint w)" by simp
  then show ?thesis unfolding want_bytes_def unat_eq_nat_uint by (simp only: uint_word_of_int_eq take_bit_eq_mod) simp
qed

lemma want_bytes_pos [simp]: "n < 2 ^ 31 \<Longrightarrow> want_bytes (of_nat n) = n"
  using int32_id [of "int n"] by (simp add: want_bytes_sint)

lemma want_bytes_neg: "sint w < 0 \<Longrightarrow> vec_max < want_bytes w"
proof -
  assume "sint w < 0"
  moreover have "- (2 ^ 31) \<le> sint w" using sint_greater_eq [of w] by simp
  ultimately have "(sint w + 2 ^ 64) mod 2 ^ 64 = sint w + 2 ^ 64" by (intro mod_pos_pos_trivial) simp_all
  then have "sint w mod 2 ^ 64 = sint w + 2 ^ 64" by (simp only: mod_add_self2)
  then show ?thesis using \<open>- (2 ^ 31) \<le> sint w\<close> by (simp add: want_bytes_sint vec_max_def)
qed

section \<open>One frame\<close>

text \<open>Round robin: the worker of the next request.\<close>

definition workers_ok :: "nat \<Rightarrow> cthrift_svr \<Rightarrow> bool" where
  "workers_ok k s \<longleftrightarrow> 1 \<le> sv_worker_num s \<and> 0 \<le> sint (sv_pos s) \<and> sint (sv_pos s) + int k < 2 ^ 63"

definition worker_of :: "cthrift_svr \<Rightarrow> nat \<Rightarrow> nat" where
  "worker_of s k = nat ((sint (sv_pos s) + int k) mod sv_worker_num s)"

text \<open>The state after \<open>k\<close> more requests have been queued.\<close>

definition queued :: "nat \<Rightarrow> byte list list \<Rightarrow> cthrift_svr \<Rightarrow> cthrift_svr \<Rightarrow> bool" where
  "queued c ds s s' \<longleftrightarrow> sv_tasks s' = sv_tasks s @ map (\<lambda>(k, d). (worker_of s k, d, c)) (enumerate 0 ds) \<and>
     sv_worker_num s' = sv_worker_num s \<and> (1 < sv_worker_num s \<longrightarrow> sint (sv_pos s') = sint (sv_pos s) + int (length ds)) \<and>
     (sv_worker_num s = 1 \<longrightarrow> sv_pos s' = sv_pos s) \<and>
     sv_context s' = sv_context s \<and> sv_connected s' = sv_connected s \<and> sv_shutdown s' = sv_shutdown s \<and> sv_conn_num s' = sv_conn_num s"

lemma next_pos: "0 \<le> sint p \<Longrightarrow> sint p + 1 < 2 ^ 63 \<Longrightarrow> sint (p + 1) = sint (p :: 64 word) + 1"
proof -
  assume "0 \<le> sint p" "sint p + 1 < 2 ^ 63"
  then have "sint (of_int (sint p + 1) :: 64 word) = sint p + 1" by (simp only: sint_sbintrunc') (simp add: signed_take_bit_int_eq_self)
  then show ?thesis by (simp add: of_int_sint)
qed

lemma pick_worker_ok:
  assumes "workers_ok 1 s"
  shows "pick_worker s = Inr (worker_of s 0, if 1 < sv_worker_num s then s\<lparr>sv_pos := sv_pos s + 1\<rparr> else s)"
  using assms by (auto simp: pick_worker_def workers_ok_def worker_of_def Let_def cmod_nonneg)

lemma svr_dispatch_ok:
  assumes "buf_wf b" "contents b = d @ rest" "length d < 2 ^ 31" "workers_ok 1 s"
  shows "\<exists>b' s'. svr_dispatch c (of_nat (length d)) b s = Inr (b', s') \<and> buf_wf b' \<and> contents b' = rest \<and> sv_wheel s' = sv_wheel s \<and> queued c [d] s s'"
proof -
  have n: "length d \<le> readableBytes b" using readable_contents [OF assms(1,2)] .
  have "readableBytes new_buffer = 0" by (simp add: new_buffer_def size_defs)
  then have "append_fits (length d) new_buffer" using assms(3)
    by (intro append_fits_small [OF buf_wf_new]) (simp add: vec_max_def kCheapPrepend_def)
  then obtain cp where "append d new_buffer = Inr cp" "contents cp = d"
    using append_total [of new_buffer d] by (auto simp: writes_ok_def)
  moreover have "append_len (contents b) (length d) new_buffer = append d new_buffer"
    using assms(2) by (simp add: append_def append_len_def)
  moreover obtain b' where "retrieve (length d) b = Inr b'" "buf_wf b'" "contents b' = rest" using retrieve_ok [OF assms(1) n] assms(2) by auto
  moreover have "pick_worker (s\<lparr>sv_recv := sv_recv s + 1\<rparr>) = Inr (worker_of s 0, if 1 < sv_worker_num s then s\<lparr>sv_recv := sv_recv s + 1, sv_pos := sv_pos s + 1\<rparr> else s\<lparr>sv_recv := sv_recv s + 1\<rparr>)"
    using pick_worker_ok [of "s\<lparr>sv_recv := sv_recv s + 1\<rparr>"] assms(4) by (simp add: workers_ok_def worker_of_def)
  ultimately show ?thesis using assms(3,4) next_pos [of "sv_pos s"]
    by (auto simp: svr_dispatch_def Let_def queued_def workers_ok_def enumerate_eq_zip)
qed

section \<open>The loop\<close>

text \<open>The frame in front is queued and the loop goes on behind it.\<close>

lemma svr_loop_frame:
  assumes "buf_wf b" "contents b = frame d @ rest" "length d < 2 ^ 31" "workers_ok 1 s" "cc_state ctx = kExpectFrameSize" "c \<in> last (sv_wheel s)" "sv_wheel s \<noteq> []"
  shows "\<exists>b' ctx' s'. svr_loop h now c b ctx s = svr_loop h now c b' ctx' s' \<and> buf_wf b' \<and> contents b' = rest \<and>
    cc_state ctx' = kExpectFrameSize \<and> sv_wheel s' = sv_wheel s \<and> queued c [d] s s'"
proof -
  let ?n = "of_nat (length d) :: 32 word"
  have "4 \<le> readableBytes b" using readable_contents [OF assms(1), of "be_bytes ?n" "d @ rest"] assms(2) by (simp add: frame_def)
  moreover obtain b1 where b1: "readInt32 h b = Inr (?n, b1)" "buf_wf b1" "contents b1 = d @ rest"
    using readInt_head(2) [OF assms(1), of ?n "d @ rest"] assms(2) by (auto simp: frame_def)
  ultimately have 1: "svr_loop h now c b ctx s = svr_loop h now c b1 (ctx\<lparr>cc_want_size := ?n, cc_state := kExpectFrame\<rparr>) s"
    using assms(5) by (subst svr_loop.simps) simp
  obtain b2 s2 where 2: "svr_dispatch c ?n b1 s = Inr (b2, s2)" "buf_wf b2" "contents b2 = rest" "sv_wheel s2 = sv_wheel s" "queued c [d] s s2"
    using svr_dispatch_ok [OF b1(2,3) assms(3,4)] by blast
  have "entry_alive c s2" using assms(6,7) 2(4) by (auto simp: entry_alive_def)
  moreover have "wheel_insert c s2 = Inr s2"
    using assms(6,7) 2(4) append_butlast_last_id [OF assms(7)] by (simp add: wheel_insert_def insert_absorb)
  moreover have "length d \<le> readableBytes b1" using readable_contents [OF b1(2,3)] .
  ultimately have "svr_loop h now c b1 (ctx\<lparr>cc_want_size := ?n, cc_state := kExpectFrame\<rparr>) s =
      svr_loop h now c b2 (ctx\<lparr>cc_want_size := ?n, cc_state := kExpectFrameSize, cc_last_active := now\<rparr>) s2"
    using 2(1) assms(3) by (subst svr_loop.simps) simp
  with 1 2 show ?thesis by fastforce
qed

lemma queued_trans: "queued c [d] s s1 \<Longrightarrow> queued c ds s1 s2 \<Longrightarrow> workers_ok (Suc (length ds)) s \<Longrightarrow> queued c (d # ds) s s2"
proof -
  assume q: "queued c [d] s s1" "queued c ds s1 s2" "workers_ok (Suc (length ds)) s"
  have "worker_of s1 k = worker_of s (Suc k)" for k
    using q(1,3) by (cases "sv_worker_num s = 1") (auto simp: worker_of_def queued_def workers_ok_def algebra_simps)
  then have "map (\<lambda>(k, d). (worker_of s1 k, d, c)) (enumerate 0 ds) = map (\<lambda>(k, d). (worker_of s k, d, c)) (enumerate (Suc 0) ds)"
    by (intro nth_equalityI) (simp_all add: nth_enumerate_eq)
  then show ?thesis using q by (auto simp: queued_def workers_ok_def)
qed

lemma svr_loop_frames:
  assumes "buf_wf b" "contents b = concat (map frame ds) @ rest" "\<forall>d\<in>set ds. length d < 2 ^ 31" "workers_ok (length ds) s"
    and "cc_state ctx = kExpectFrameSize" "c \<in> last (sv_wheel s)" "sv_wheel s \<noteq> []"
  shows "\<exists>b' ctx' s'. svr_loop h now c b ctx s = svr_loop h now c b' ctx' s' \<and> buf_wf b' \<and> contents b' = rest \<and>
    cc_state ctx' = kExpectFrameSize \<and> sv_wheel s' = sv_wheel s \<and> queued c ds s s'"
  using assms
proof (induction ds arbitrary: b ctx s)
  case Nil
  then show ?case by (auto simp: queued_def)
next
  case (Cons d ds)
  have "contents b = frame d @ (concat (map frame ds) @ rest)" "length d < 2 ^ 31" "workers_ok 1 s"
    using Cons.prems by (auto simp: workers_ok_def)
  from svr_loop_frame [OF Cons.prems(1) this Cons.prems(5-7), of h now] obtain b1 ctx1 s1 where
    1: "svr_loop h now c b ctx s = svr_loop h now c b1 ctx1 s1" "buf_wf b1" "contents b1 = concat (map frame ds) @ rest"
      "cc_state ctx1 = kExpectFrameSize" "sv_wheel s1 = sv_wheel s" "queued c [d] s s1" by auto
  have "workers_ok (length ds) s1" using Cons.prems(4) 1(6) by (cases "sv_worker_num s = 1") (auto simp: workers_ok_def queued_def)
  from Cons.IH [OF 1(2,3) _ this 1(4)] Cons.prems(3,6,7) 1(5) obtain b2 ctx2 s2 where
    2: "svr_loop h now c b1 ctx1 s1 = svr_loop h now c b2 ctx2 s2" "buf_wf b2" "contents b2 = rest" "cc_state ctx2 = kExpectFrameSize"
      "sv_wheel s2 = sv_wheel s1" "queued c ds s1 s2" by auto
  from queued_trans [OF 1(6) 2(6)] Cons.prems(4) have "queued c (d # ds) s s2" by simp
  with 1(1,5) 2 show ?case by auto
qed

text \<open>Fewer than four bytes: the loop ends.\<close>

lemma svr_loop_end:
  assumes "buf_wf b" "length (contents b) < 4" "cc_state ctx = kExpectFrameSize"
  shows "svr_loop h now c b ctx s = Some (Inr (b, ctx, s))"
  using assms by (subst svr_loop.simps) simp

text \<open>A frame that is not complete: the loop turns for ever.\<close>

lemma svr_loop_stuck:
  assumes "cc_state ctx = kExpectFrame" "readableBytes b < want_bytes (cc_want_size ctx)"
  shows "svr_loop h now c b ctx s = None"
proof (rule ccontr)
  assume "svr_loop h now c b ctx s \<noteq> None"
  then obtain y where "svr_loop h now c b ctx s = Some y" by blast
  then have "\<not> (cc_state ctx = kExpectFrame \<and> readableBytes b < want_bytes (cc_want_size ctx))"
  proof (rule svr_loop.raw_induct [rotated])
    fix f h now c b ctx s y
    assume hyp: "\<And>h now c b ctx s y. f h now c b ctx s = Some y \<Longrightarrow> \<not> (cc_state ctx = kExpectFrame \<and> readableBytes b < want_bytes (cc_want_size ctx))"
      and run: "(if cc_state ctx = kExpectFrameSize
      then if 4 \<le> readableBytes b
           then case readInt32 h b of
                  Inl e \<Rightarrow> Some (Inl e)
                | Inr r \<Rightarrow> f h now c (snd r) (ctx\<lparr>cc_want_size := fst r, cc_state := kExpectFrame\<rparr>) s
           else Some (Inr (b, ctx, s))
      else if want_bytes (cc_want_size ctx) \<le> readableBytes b
           then case svr_dispatch c (cc_want_size ctx) b s of
                  Inl e \<Rightarrow> Some (Inl e)
                | Inr r \<Rightarrow>
                    if entry_alive c (snd r)
                    then case wheel_insert c (snd r) of
                           Inl e \<Rightarrow> Some (Inl e)
                         | Inr s' \<Rightarrow> f h now c (fst r) (ctx\<lparr>cc_state := kExpectFrameSize, cc_last_active := now\<rparr>) s'
                    else Some (Inr (fst r, ctx\<lparr>cc_state := kExpectFrameSize, cc_last_active := now\<rparr>, snd r))
           else f h now c b ctx s) = Some y"
    show "\<not> (cc_state ctx = kExpectFrame \<and> readableBytes b < want_bytes (cc_want_size ctx))"
    proof
      assume "cc_state ctx = kExpectFrame \<and> readableBytes b < want_bytes (cc_want_size ctx)"
      then show False using run hyp [of h now c b ctx s y] by simp
    qed
  qed
  with assms show False by simp
qed

section \<open>The wheel\<close>

lemma wheel_insert_ok:
  assumes "sv_wheel s \<noteq> []"
  shows "\<exists>s'. wheel_insert c s = Inr s' \<and> sv_wheel s' = butlast (sv_wheel s) @ [insert c (last (sv_wheel s))] \<and>
    s' = s\<lparr>sv_wheel := sv_wheel s'\<rparr>"
  using assms by (simp add: wheel_insert_def)

lemma workers_cong [simp]: "workers_ok k (s\<lparr>sv_wheel := w\<rparr>) = workers_ok k s" "worker_of (s\<lparr>sv_wheel := w\<rparr>) k = worker_of s k"
  by (simp_all add: workers_ok_def worker_of_def)

text \<open>What \<open>OnMsg\<close> does before its loop, when the connection is known and still in the wheel.\<close>

lemma OnMsg_enter:
  assumes "sv_context s c = Some ctx" "entry_alive c s"
  shows "\<exists>s1. OnMsg h now c b s = map_option (\<lambda>r. rbind r (\<lambda>(b', ctx', s'). Inr (b', s'\<lparr>sv_context := (sv_context s')(c \<mapsto> ctx')\<rparr>)))
      (svr_loop h now c b (ctx\<lparr>cc_last_active := now\<rparr>) s1) \<and>
    sv_wheel s1 \<noteq> [] \<and> c \<in> last (sv_wheel s1) \<and> s1 = s\<lparr>sv_wheel := sv_wheel s1\<rparr>"
proof -
  have "sv_wheel s \<noteq> []" using assms(2) by (auto simp: entry_alive_def)
  from wheel_insert_ok [OF this, of c] assms show ?thesis by (auto simp: OnMsg_def Let_def)
qed

lemma foldl_destroy:
  "let t = foldl (\<lambda>t c. if entry_alive c t then t else destroy_entry c t) s order
   in sv_wheel t = sv_wheel s \<and> sv_connected t = sv_connected s \<and>
      sv_shutdown t = sv_shutdown s @ filter (\<lambda>c. \<not> entry_alive c s \<and> sv_connected s c) order"
proof (induction order arbitrary: s)
  case (Cons c order)
  let ?s = "if entry_alive c s then s else destroy_entry c s"
  have s: "sv_wheel ?s = sv_wheel s" "sv_connected ?s = sv_connected s" by (simp_all add: destroy_entry_def)
  then have "entry_alive d ?s = entry_alive d s" for d by (simp add: entry_alive_def)
  then show ?case using Cons [of ?s] s by (auto simp: destroy_entry_def Let_def)
qed simp

lemma TimewheelKick_eqs:
  "sv_wheel (TimewheelKick order s) = tl (sv_wheel s) @ [{}]"
  "sv_connected (TimewheelKick order s) = sv_connected s"
  "sv_shutdown (TimewheelKick order s) = sv_shutdown s @ filter (\<lambda>c. \<not> (\<exists>B\<in>set (tl (sv_wheel s)). c \<in> B) \<and> sv_connected s c) order"
  using foldl_destroy [of "s\<lparr>sv_wheel := tl (sv_wheel s) @ [{}]\<rparr>" order] by (simp_all add: TimewheelKick_def Let_def entry_alive_def)

text \<open>A run of the wheel: kicks, each with the order in which it releases its bucket, and activity of connections.\<close>

datatype wheel_event = Kick "nat list" | Touch nat

fun wheel_run :: "wheel_event list \<Rightarrow> cthrift_svr \<Rightarrow> cthrift_svr result" where
  "wheel_run [] s = Inr s"
| "wheel_run (Kick order # es) s = wheel_run es (TimewheelKick order s)"
| "wheel_run (Touch d # es) s = rbind (wheel_insert d s) (wheel_run es)"

fun kick_count :: "wheel_event list \<Rightarrow> nat" where
  "kick_count [] = 0"
| "kick_count (Kick order # es) = Suc (kick_count es)"
| "kick_count (Touch d # es) = kick_count es"

text \<open>The connection is in bucket \<open>j\<close> and in no younger one.\<close>

definition in_bucket :: "nat \<Rightarrow> nat \<Rightarrow> cthrift_svr \<Rightarrow> bool" where
  "in_bucket c j s \<longleftrightarrow> j < length (sv_wheel s) \<and> c \<in> sv_wheel s ! j \<and> (\<forall>i<length (sv_wheel s). j < i \<longrightarrow> c \<notin> sv_wheel s ! i)"

definition shut_count :: "nat \<Rightarrow> cthrift_svr \<Rightarrow> nat" where
  "shut_count c s = length (filter ((=) c) (sv_shutdown s))"

lemma kick_older:
  assumes "in_bucket c (Suc j) s"
  shows "in_bucket c j (TimewheelKick order s)" "shut_count c (TimewheelKick order s) = shut_count c s"
proof -
  obtain B bs where w: "sv_wheel s = B # bs" using assms by (cases "sv_wheel s") (auto simp: in_bucket_def)
  have j: "j < length bs" "c \<in> bs ! j" "\<And>i. i < length bs \<Longrightarrow> j < i \<Longrightarrow> c \<notin> bs ! i" using assms w by (force simp: in_bucket_def)+
  then show "in_bucket c j (TimewheelKick order s)" by (auto simp: in_bucket_def TimewheelKick_eqs(1) w nth_append less_Suc_eq)
  have "\<exists>B\<in>set bs. c \<in> B" using j(1,2) nth_mem by blast
  then show "shut_count c (TimewheelKick order s) = shut_count c s"
    by (auto simp: shut_count_def TimewheelKick_eqs(3) w filter_empty_conv)
qed

lemma touch_other:
  assumes "in_bucket c j s" "d \<noteq> c" "wheel_insert d s = Inr s'"
  shows "in_bucket c j s'" "shut_count c s' = shut_count c s" "sv_connected s' = sv_connected s"
proof -
  obtain bs B where w: "sv_wheel s = bs @ [B]" using assms(3) by (cases "sv_wheel s" rule: rev_cases) (auto simp: wheel_insert_def)
  then have s': "s' = s\<lparr>sv_wheel := bs @ [insert d B]\<rparr>" using assms(3) by (simp add: wheel_insert_def)
  have "c \<in> (bs @ [insert d B]) ! i \<longleftrightarrow> c \<in> (bs @ [B]) ! i" if "i < Suc (length bs)" for i
    using that assms(2) by (auto simp: nth_append less_Suc_eq)
  then show "in_bucket c j s'" "shut_count c s' = shut_count c s" "sv_connected s' = sv_connected s"
    using assms(1) w s' by (auto simp: in_bucket_def shut_count_def)
qed

lemma wheel_run_older:
  assumes "in_bucket c (kick_count es + j) s" "Touch c \<notin> set es"
  shows "\<exists>s'. wheel_run es s = Inr s' \<and> in_bucket c j s' \<and> shut_count c s' = shut_count c s \<and> sv_connected s' = sv_connected s"
  using assms
proof (induction es arbitrary: s rule: kick_count.induct)
  case (2 order es)
  then have "in_bucket c (Suc (kick_count es + j)) s" by simp
  note k = kick_older [OF this, of order]
  from "2.IH" [OF k(1)] "2.prems"(2) k(2) show ?case by (fastforce simp: TimewheelKick_eqs(2))
next
  case (3 d es)
  then have "sv_wheel s \<noteq> []" by (auto simp: in_bucket_def)
  then obtain s1 where s1: "wheel_insert d s = Inr s1" using wheel_insert_ok by blast
  from touch_other [OF _ _ s1] 3 have "in_bucket c (kick_count es + j) s1" "shut_count c s1 = shut_count c s" "sv_connected s1 = sv_connected s" by auto
  with "3.IH" [of s1] "3.prems"(2) s1 show ?case by fastforce
qed auto

lemma kick_oldest:
  assumes "in_bucket c 0 s" "set order = hd (sv_wheel s)" "distinct order" "sv_connected s c"
  shows "shut_count c (TimewheelKick order s) = Suc (shut_count c s)" "\<not> entry_alive c (TimewheelKick order s)"
proof -
  obtain B bs where w: "sv_wheel s = B # bs" using assms(1) by (cases "sv_wheel s") (auto simp: in_bucket_def)
  have "c \<notin> bs ! i" if "i < length bs" for i
  proof -
    have "c \<notin> sv_wheel s ! Suc i" using assms(1) that w unfolding in_bucket_def by auto
    then show ?thesis using w by simp
  qed
  then have young: "\<forall>B\<in>set bs. c \<notin> B" by (auto simp: in_set_conv_nth)
  then show "\<not> entry_alive c (TimewheelKick order s)" by (auto simp: entry_alive_def TimewheelKick_eqs(1) w)
  have "c \<in> set order" using assms(1,2) w by (simp add: in_bucket_def)
  then obtain xs ys where o: "order = xs @ c # ys" by (auto simp: in_set_conv_decomp)
  then have "filter ((=) c) xs = []" "filter ((=) c) ys = []" using assms(3) by (auto simp: filter_empty_conv)
  moreover have "filter ((=) c) (filter (\<lambda>c. \<not> (\<exists>B\<in>set bs. c \<in> B) \<and> sv_connected s c) zs) = filter ((=) c) zs" for zs
    using young assms(4) by (induction zs) auto
  ultimately show "shut_count c (TimewheelKick order s) = Suc (shut_count c s)"
    using young assms(4) by (simp add: shut_count_def TimewheelKick_eqs(3) w o del: filter_filter)
qed

section \<open>The response\<close>

text \<open>What a processor does: it reads the request and appends its response to the output buffer.\<close>

definition appends :: "(memory_buffer \<Rightarrow> memory_buffer \<Rightarrow> (memory_buffer \<times> memory_buffer) option) \<Rightarrow> byte list \<Rightarrow> byte list \<Rightarrow> bool" where
  "appends proc req res \<longleftrightarrow> (\<forall>inb outb. mb_inv inb \<and> mb_bytes inb = req \<and> mb_inv outb \<and> mb_owner outb \<and> mb_wBase outb + length res \<le> 2 ^ 31 \<longrightarrow>
     (\<exists>inb' outb'. proc inb outb = Some (inb', outb') \<and> mb_inv outb' \<and> mb_owner outb' \<and> mb_bytes outb' = mb_bytes outb @ res))"

lemma resetBuffer_room: "mb_inv b \<Longrightarrow> mb_owner b \<Longrightarrow>
    \<exists>b'. ensureCanWrite 4 (resetBuffer b) = Inr b' \<and> mb_inv b' \<and> mb_owner b' \<and> mb_bytes b' = [] \<and> mb_wBase b' = 0 \<and> mb_wBase b' + 4 \<le> mb_wBound b'"
  using resetBuffer_ok [of b] ensureCanWrite_ok [of "resetBuffer b" 4] by auto

lemma OnMsg_frames:
  assumes "sv_context s c = Some ctx" "cc_state ctx = kExpectFrameSize" "entry_alive c s" "buf_wf b"
    and "contents b = concat (map frame ds) @ rest" "length rest < 4" "\<forall>d\<in>set ds. length d < 2 ^ 31" "workers_ok (length ds) s"
  shows "\<exists>b' s' ctx'. OnMsg h now c b s = Some (Inr (b', s')) \<and> buf_wf b' \<and> contents b' = rest \<and>
    sv_tasks s' = sv_tasks s @ map (\<lambda>(k, d). (worker_of s k, d, c)) (enumerate 0 ds) \<and>
    sv_context s' c = Some ctx' \<and> cc_state ctx' = kExpectFrameSize \<and> entry_alive c s'"
proof -
  obtain s1 where 1: "OnMsg h now c b s = map_option (\<lambda>r. rbind r (\<lambda>(b', ctx', s'). Inr (b', s'\<lparr>sv_context := (sv_context s')(c \<mapsto> ctx')\<rparr>)))
      (svr_loop h now c b (ctx\<lparr>cc_last_active := now\<rparr>) s1)" "sv_wheel s1 \<noteq> []" "c \<in> last (sv_wheel s1)" "s1 = s\<lparr>sv_wheel := sv_wheel s1\<rparr>"
    using OnMsg_enter [OF assms(1,3)] by blast
  have w: "workers_ok (length ds) s1" "worker_of s1 = worker_of s" "sv_tasks s1 = sv_tasks s"
    by (subst 1(4), simp add: assms(8) fun_eq_iff)+
  obtain b' ctx' s' where 2: "svr_loop h now c b (ctx\<lparr>cc_last_active := now\<rparr>) s1 = svr_loop h now c b' ctx' s'" "buf_wf b'" "contents b' = rest"
    "cc_state ctx' = kExpectFrameSize" "sv_wheel s' = sv_wheel s1" "queued c ds s1 s'"
    using svr_loop_frames [OF assms(4,5,7) w(1) _ 1(3,2), of "ctx\<lparr>cc_last_active := now\<rparr>" h now] assms(2) by auto
  have "svr_loop h now c b' ctx' s' = Some (Inr (b', ctx', s'))" using svr_loop_end [OF 2(2) _ 2(4)] 2(3) assms(6) by simp
  moreover have "entry_alive c (s'\<lparr>sv_context := f\<rparr>)" for f using 1(2,3) 2(5) by (auto simp: entry_alive_def)
  ultimately show ?thesis using 1(1) 2 w by (simp add: queued_def)
qed

section \<open>Properties\<close>

text \<open>C14. Requests that have arrived completely are served: when the buffered bytes of a connection are whole frames,
  followed by fewer than four bytes, \<open>OnMsg\<close> returns, every request is queued once, in order and with its bytes
  unchanged, the workers are taken in turn, and the remaining bytes stay for the next call.\<close>

theorem on_msg_whole_frames:
  assumes "sv_context s c = Some ctx" "cc_state ctx = kExpectFrameSize" "entry_alive c s" "buf_wf b"
    and "contents b = concat (map frame ds) @ rest" "length rest < 4" "\<forall>d\<in>set ds. length d < 2 ^ 31" "workers_ok (length ds) s"
  shows "\<exists>b' s' ctx'. OnMsg h now c b s = Some (Inr (b', s')) \<and> buf_wf b' \<and> contents b' = rest \<and>
    sv_tasks s' = sv_tasks s @ map (\<lambda>(k, d). (worker_of s k, d, c)) (enumerate 0 ds) \<and>
    sv_context s' c = Some ctx' \<and> cc_state ctx' = kExpectFrameSize \<and> entry_alive c s'"
  by (rule OnMsg_frames [OF assms])

text \<open>A server with one connection, for the concrete runs.\<close>

definition sample_svr :: cthrift_svr where
  "sample_svr = \<lparr>sv_wheel = [{}, {}, {}, {5}], sv_context = [5 \<mapsto> new_ConnContext], sv_connected = (\<lambda>_. True), sv_shutdown = [],
     sv_conn_num = 1, sv_worker_num = 2, sv_pos = 0, sv_recv = 0, sv_tasks = []\<rparr>"

lemma sample_svr_facts:
  "sv_context sample_svr 5 = Some new_ConnContext" "cc_state new_ConnContext = kExpectFrameSize" "entry_alive 5 sample_svr" "workers_ok 2 sample_svr"
  "worker_of sample_svr 0 = 0" "worker_of sample_svr 1 = 1"
  by (simp_all add: sample_svr_def new_ConnContext_def entry_alive_def workers_ok_def worker_of_def)

lemma sample_buffer: "length d \<le> 1000 \<Longrightarrow> \<exists>b. append d new_buffer = Inr b \<and> buf_wf b \<and> contents b = d"
  using net_buf.put_total_ok [of new_buffer d] by (simp add: vec_max_def kCheapPrepend_def)

theorem on_msg_whole_frames_witness:
  "\<exists>b b' s'. append (frame [1, 2] @ frame [3] @ [0]) new_buffer = Inr b \<and> OnMsg LittleEndian 100 5 b sample_svr = Some (Inr (b', s')) \<and>
     contents b' = [0] \<and> sv_tasks s' = [(0, [1, 2], 5), (1, [3], 5)]"
proof -
  obtain b where b: "append (frame [1, 2] @ frame [3] @ [0]) new_buffer = Inr b" "buf_wf b" "contents b = frame [1, 2] @ frame [3] @ [0]"
    using sample_buffer [of "frame [1, 2] @ frame [3] @ [0]"] by (auto simp: frame_def)
  have "\<exists>b' s' ctx'. OnMsg LittleEndian 100 5 b sample_svr = Some (Inr (b', s')) \<and> buf_wf b' \<and> contents b' = [0] \<and>
    sv_tasks s' = sv_tasks sample_svr @ map (\<lambda>(k, d). (worker_of sample_svr k, d, 5)) (enumerate 0 [[1, 2], [3]]) \<and>
    sv_context s' 5 = Some ctx' \<and> cc_state ctx' = kExpectFrameSize \<and> entry_alive 5 s'"
    using b(3) sample_svr_facts(1-3) by (intro on_msg_whole_frames [OF _ _ _ b(2)]) (simp_all add: workers_ok_def sample_svr_def)
  moreover have "sv_tasks sample_svr = []" by (simp add: sample_svr_def)
  ultimately show ?thesis using b(1) sample_svr_facts(5,6) by auto
qed

text \<open>C31. An incomplete frame hangs the connection thread: when, after any whole frames, the size field of a frame has
  arrived but fewer bytes than it announces, or the size is negative, \<open>OnMsg\<close> never returns; it neither waits for more
  bytes nor reports an error, so one slow or hostile client stops all connections of that thread.\<close>

theorem on_msg_partial_frame_hangs:
  assumes "sv_context s c = Some ctx" "cc_state ctx = kExpectFrameSize" "entry_alive c s" "buf_wf b"
    and "contents b = concat (map frame ds) @ be_bytes (n :: 32 word) @ part" "\<forall>d\<in>set ds. length d < 2 ^ 31" "workers_ok (length ds) s"
    and "sint n < 0 \<or> length part < unat n"
  shows "OnMsg h now c b s = None"
proof -
  obtain s1 where 1: "OnMsg h now c b s = map_option (\<lambda>r. rbind r (\<lambda>(b', ctx', s'). Inr (b', s'\<lparr>sv_context := (sv_context s')(c \<mapsto> ctx')\<rparr>)))
      (svr_loop h now c b (ctx\<lparr>cc_last_active := now\<rparr>) s1)" "sv_wheel s1 \<noteq> []" "c \<in> last (sv_wheel s1)" "s1 = s\<lparr>sv_wheel := sv_wheel s1\<rparr>"
    using OnMsg_enter [OF assms(1,3)] by blast
  have "workers_ok (length ds) s1" by (subst 1(4)) (simp add: assms(7))
  then obtain b' ctx' s' where 2: "svr_loop h now c b (ctx\<lparr>cc_last_active := now\<rparr>) s1 = svr_loop h now c b' ctx' s'" "buf_wf b'"
    "contents b' = be_bytes n @ part" "cc_state ctx' = kExpectFrameSize"
    using svr_loop_frames [OF assms(4,5,6) _ _ 1(3,2), of "ctx\<lparr>cc_last_active := now\<rparr>" h now] assms(2) by auto
  obtain b2 where b2: "readInt32 h b' = Inr (n, b2)" "buf_wf b2" "contents b2 = part" using readInt_head(2) [OF 2(2,3)] by blast
  have "4 \<le> readableBytes b'" using readable_contents [OF 2(2,3)] by simp
  then have 3: "svr_loop h now c b' ctx' s' = svr_loop h now c b2 (ctx'\<lparr>cc_want_size := n, cc_state := kExpectFrame\<rparr>) s'"
    using b2(1) 2(4) by (subst svr_loop.simps) simp
  have "readableBytes b2 < want_bytes n"
  proof (cases "sint n < 0")
    case True
    have "readableBytes b2 \<le> vec_max" using b2(2) by (auto simp: buf_wf_def size_defs)
    then show ?thesis using want_bytes_neg [OF True] by simp
  next
    case False
    have k: "nat (sint n) < 2 ^ 31" using sint_less [of n] by (simp add: nat_less_iff)
    have "n = of_nat (nat (sint n))" using False by (simp add: of_nat_nat)
    moreover have "unat (of_nat (nat (sint n)) :: 32 word) = nat (sint n)" using k by (simp add: unsigned_of_nat take_bit_nat_eq_self)
    ultimately have "want_bytes n = unat n" using want_bytes_pos [OF k] by metis
    moreover have "readableBytes b2 = length part" using b2 length_contents [of b2] by simp
    ultimately show ?thesis using assms(8) False by simp
  qed
  then have "svr_loop h now c b2 (ctx'\<lparr>cc_want_size := n, cc_state := kExpectFrame\<rparr>) s' = None" by (intro svr_loop_stuck) simp_all
  then show ?thesis using 1(1) 2(1) 3 by simp
qed

theorem on_msg_partial_frame_hangs_witness:
  "\<exists>b. append (frame [1, 2] @ be_bytes (9 :: 32 word) @ [7]) new_buffer = Inr b \<and> OnMsg LittleEndian 100 5 b sample_svr = None"
proof -
  obtain b where b: "append (frame [1, 2] @ be_bytes (9 :: 32 word) @ [7]) new_buffer = Inr b" "buf_wf b" "contents b = frame [1, 2] @ be_bytes (9 :: 32 word) @ [7]"
    using sample_buffer [of "frame [1, 2] @ be_bytes (9 :: 32 word) @ [7]"] by (auto simp: frame_def)
  have "workers_ok 1 sample_svr" by (simp add: workers_ok_def sample_svr_def)
  then have "OnMsg LittleEndian 100 5 b sample_svr = None"
    using sample_svr_facts b(3) by (intro on_msg_partial_frame_hangs [OF _ _ _ b(2), where ds = "[[1, 2]]" and n = 9 and part = "[7]"]) (simp_all add: unsigned_of_nat)
  with b(1) show ?thesis by blast
qed

text \<open>C32. Idle connections are closed, active ones are not: a connection that was active just now survives the next three
  kicks of the wheel, whatever the other connections do, and the fourth kick without activity shuts it down, once.\<close>

theorem time_wheel_closes_idle:
  assumes "length (sv_wheel s) = kI8TimeWheelGridNum" "c \<in> last (sv_wheel s)" "sv_connected s c" "Touch c \<notin> set es" "kick_count es \<le> 3"
  shows "\<exists>s'. wheel_run es s = Inr s' \<and> entry_alive c s' \<and> shut_count c s' = shut_count c s \<and>
    (kick_count es = 3 \<longrightarrow> (\<forall>order. set order = hd (sv_wheel s') \<and> distinct order \<longrightarrow>
       shut_count c (TimewheelKick order s') = Suc (shut_count c s) \<and> \<not> entry_alive c (TimewheelKick order s')))"
proof -
  have "sv_wheel s \<noteq> []" using assms(1) by (auto simp: kI8TimeWheelGridNum_def)
  then have "c \<in> sv_wheel s ! 3" using assms(1,2) by (simp add: last_conv_nth kI8TimeWheelGridNum_def)
  then have "in_bucket c (kick_count es + (3 - kick_count es)) s" using assms(1,5) by (simp add: in_bucket_def kI8TimeWheelGridNum_def)
  from wheel_run_older [OF this assms(4)] obtain s' where
    s': "wheel_run es s = Inr s'" "in_bucket c (3 - kick_count es) s'" "shut_count c s' = shut_count c s" "sv_connected s' = sv_connected s" by blast
  have "entry_alive c s'" using s'(2) nth_mem by (force simp: in_bucket_def entry_alive_def)
  moreover have "shut_count c (TimewheelKick order s') = Suc (shut_count c s) \<and> \<not> entry_alive c (TimewheelKick order s')"
    if "kick_count es = 3" "set order = hd (sv_wheel s')" "distinct order" for order
    using kick_oldest [of c s' order] s' that assms(3) by simp
  ultimately show ?thesis using s'(1,3) by blast
qed

theorem time_wheel_closes_idle_witness:
  "\<exists>s'. wheel_run [Kick [], Touch 6, Kick [], Kick []] sample_svr = Inr s' \<and> entry_alive 5 s' \<and> shut_count 5 s' = 0 \<and>
     shut_count 5 (TimewheelKick [5] s') = 1"
proof -
  let ?es = "[Kick [], Touch 6, Kick [], Kick []]"
  have "length (sv_wheel sample_svr) = kI8TimeWheelGridNum" "5 \<in> last (sv_wheel sample_svr)" "sv_connected sample_svr 5" "shut_count 5 sample_svr = 0"
    by (simp_all add: sample_svr_def kI8TimeWheelGridNum_def shut_count_def)
  with time_wheel_closes_idle [of sample_svr 5 ?es] obtain s' where
    s': "wheel_run ?es sample_svr = Inr s'" "entry_alive 5 s'" "shut_count 5 s' = 0"
    "\<And>order. set order = hd (sv_wheel s') \<Longrightarrow> distinct order \<Longrightarrow> shut_count 5 (TimewheelKick order s') = 1" by auto
  have "hd (sv_wheel s') = {5}" using s'(1) by (auto simp: wheel_insert_def TimewheelKick_eqs sample_svr_def)
  with s' show ?thesis by simp
qed

text \<open>The response is a frame: the server answers a request with the size of the processor's response in network order
  followed by the response, on a connection that is still up, and the thread's buffers stay usable.\<close>

theorem process_sends_frame:
  assumes "appends proc req res" "req \<noteq> []" "length req \<le> 2 ^ 31" "res \<noteq> []" "length res + 4 \<le> 2 ^ 31"
    and "mb_inv inb" "mb_inv outb" "mb_owner outb"
  shows "\<exists>inb' outb'. Process h proc True True req (inb, outb) = Inr (Some (frame res), inb', outb') \<and> mb_inv outb' \<and> mb_owner outb'"
proof -
  obtain inb1 where 1: "resetBuffer_from req COPY inb = Inr inb1" "mb_inv inb1" "mb_bytes inb1 = req"
    using new_from_ok [OF assms(3), of COPY] by (auto simp: resetBuffer_from_def)
  obtain o1 where o1: "ensureCanWrite 4 (resetBuffer outb) = Inr o1" "mb_inv o1" "mb_owner o1" "mb_bytes o1 = []" "mb_wBase o1 + 4 \<le> mb_wBound o1" "mb_wBase o1 = 0"
    using resetBuffer_room [OF assms(7,8)] by blast
  obtain o2 d where o2: "wroteBytes 4 o1 = Inr o2" "mb_inv o2" "mb_owner o2" "mb_bytes o2 = d" "length d = 4" "mb_wBase o2 = 4"
    using wroteBytes_ok [OF o1(2,5)] o1(3,4,6) by auto
  obtain inb3 o3 where o3: "proc inb1 o2 = Some (inb3, o3)" "mb_inv o3" "mb_owner o3" "mb_bytes o3 = d @ res"
    using assms(1,5) 1(2,3) o2 unfolding appends_def by (metis add.commute)
  have get: "getBuffer o3 = (d @ res, 4 + length res)" using getBuffer_ok [OF o3(2)] o3(4) o2(5) by simp
  have fr: "obj_bytes h (htonl h (of_nat (length res))) @ res = frame res" by (simp add: frame_def wire_bytes)
  let ?o4 = "o3\<lparr>mb_data := overwrite (mb_rBase o3) (take 4 (frame res)) (mb_data o3)\<rparr>"
  have "mb_rBase o3 + 4 \<le> mb_wBase o3" using available_inv(1,3) [OF o3(2)] o3(4) o2(5) assms(4) by (cases res) auto
  then have "mb_inv ?o4" using o3(2) by (auto simp: mb_inv_def frame_def)
  moreover have "Process h proc True True req (inb, outb) = Inr (Some (frame res), inb3, ?o4)"
    using assms(2,4) 1(1) o1(1) o2(1,5) o3(1) get fr by (simp add: Process_def getWritePtr_def Let_def)
  ultimately show ?thesis using o3(3) by simp
qed

text \<open>A processor that answers with the first two bytes of the request.\<close>

definition echo_proc :: "memory_buffer \<Rightarrow> memory_buffer \<Rightarrow> (memory_buffer \<times> memory_buffer) option" where
  "echo_proc inb outb = (case mb_write (take 2 (mb_bytes inb)) outb of Inl e \<Rightarrow> None | Inr outb' \<Rightarrow> Some (inb, outb'))"

theorem process_sends_frame_witness:
  "\<exists>b inb' outb'. new_TMemoryBuffer = Inr b \<and> Process LittleEndian echo_proc True True [7, 8, 9] (b, b) = Inr (Some (frame [7, 8]), inb', outb')"
proof -
  obtain b where b: "new_TMemoryBuffer = Inr b" "mb_inv b" "mb_owner b"
    using mb_new [of defaultSize] by (auto simp: new_TMemoryBuffer_def defaultSize_def)
  have "appends echo_proc [7, 8, 9] [7, 8]" unfolding appends_def
  proof (intro allI impI)
    fix inb outb
    assume "mb_inv inb \<and> mb_bytes inb = [7, 8, 9] \<and> mb_inv outb \<and> mb_owner outb \<and> mb_wBase outb + length [7 :: byte, 8] \<le> 2 ^ 31"
    with mb_write_ok [of outb "[7, 8]"] show "\<exists>inb' outb'. echo_proc inb outb = Some (inb', outb') \<and> mb_inv outb' \<and> mb_owner outb' \<and>
        mb_bytes outb' = mb_bytes outb @ [7, 8]" by (auto simp: echo_proc_def)
  qed
  from process_sends_frame [OF this _ _ _ _ b(2,2,3), of LittleEndian] b(1) show ?thesis by auto
qed

end
