(* ===== verification/Cthrift_Worker.thy ===== *)
theory Cthrift_Worker
  imports Cthrift_Server
begin

text \<open>
  The client side of the RPC layer: the transport of a synchronous caller (\<open>src/cthrift/cthrift_transport.h\<close>,
  \<open>cthrift_transport.cc\<close>), the channel of an asynchronous one (\<open>cthrift_client_channel.cc\<close>) and the worker thread that
  sends requests, keeps their contexts and hands replies out (\<open>cthrift_client_worker.h\<close>, \<open>cthrift_client_worker.cc\<close>).
  A connection is a number. Copies on write of shared memory buffers are values here. What another thread is
  given (a filled read buffer, a task of the callback loop) is recorded in histories.
\<close>

section \<open>The transport of a caller\<close>

record cthrift_transport =
  ct_read :: memory_buffer
  ct_write :: memory_buffer
  ct_id :: string

definition ReadBufAvaliableReadSize :: "cthrift_transport \<Rightarrow> nat" where
  "ReadBufAvaliableReadSize t = available_read (ct_read t)"

definition ReadBufRead :: "nat \<Rightarrow> cthrift_transport \<Rightarrow> (byte list \<times> cthrift_transport) result" where
  "ReadBufRead len t = rbind (mb_read len (ct_read t)) (\<lambda>(d, b). Inr (d, t\<lparr>ct_read := b\<rparr>))"

text \<open>\<open>read_virt\<close>: with nothing to read the loop turns until the worker thread fills the buffer.\<close>

definition read_virt :: "nat \<Rightarrow> cthrift_transport \<Rightarrow> (byte list \<times> cthrift_transport) result" where
  "read_virt len t = (if ReadBufAvaliableReadSize t = 0 then Inl NoReturn else ReadBufRead len t)"

definition AppendWriteBuf :: "byte list \<Rightarrow> cthrift_transport \<Rightarrow> cthrift_transport result" where
  "AppendWriteBuf d t = rbind (mb_write d (ct_write t)) (\<lambda>b. Inr (t\<lparr>ct_write := b\<rparr>))"

definition write_virt :: "byte list \<Rightarrow> cthrift_transport \<Rightarrow> cthrift_transport result" where
  "write_virt d t = AppendWriteBuf d t"

definition ResetWriteBuf :: "cthrift_transport \<Rightarrow> cthrift_transport" where
  "ResetWriteBuf t = t\<lparr>ct_write := resetBuffer (ct_write t)\<rparr>"

definition ResetReadBuf :: "cthrift_transport \<Rightarrow> cthrift_transport" where
  "ResetReadBuf t = t\<lparr>ct_read := resetBuffer (ct_read t)\<rparr>"

definition SetID2Transport :: "string \<Rightarrow> cthrift_transport \<Rightarrow> cthrift_transport" where
  "SetID2Transport i t = t\<lparr>ct_id := i\<rparr>"

text \<open>What the protocol calls on this class: \<open>readAll\<close>, \<open>borrow\<close> and \<open>consume\<close> are those of \<open>TTransport\<close>.\<close>

definition cthrift_ops :: "cthrift_transport transport_ops" where
  "cthrift_ops = \<lparr>tr_write = write_virt, tr_readAll = readAll_loop read_virt, tr_borrow = (\<lambda>n t. (None, t)),
     tr_consume = (\<lambda>n t. Inl (TransportError NotOpen))\<rparr>"

text \<open>The specialisation of the protocol for a client: a new identifier, an empty write buffer, the header once.\<close>

definition writeMessageBegin_client ::
    "host_order \<Rightarrow> protocol \<Rightarrow> byte list \<Rightarrow> int \<Rightarrow> 32 word \<Rightarrow> 32 word \<times> cthrift_transport \<Rightarrow> (nat \<times> 32 word \<times> cthrift_transport) result" where
  "writeMessageBegin_client h p name messageType seqid st =
     (case st of (g, t) \<Rightarrow>
        if seqid = 0
        then let (i, g') = next_seq_id g
             in rbind (writeMessageBegin cthrift_ops h p name messageType i (SetID2Transport (dec_int (sint i)) (ResetWriteBuf t)))
                  (\<lambda>(n, t'). Inr (n, g', t'))
        else rbind (writeMessageBegin cthrift_ops h p name messageType seqid t) (\<lambda>(n, t'). Inr (n, g, t')))"

section \<open>The worker\<close>

record shared_ctx =
  sh_id :: string
  sh_async :: bool
  sh_expired :: bool                              \<comment> \<open>\<open>IsTimeout\<close>: the caller has given up or is gone\<close>

record worker_conn =
  wc_state :: frame_state
  wc_want_size :: "32 word"
  wc_highwater :: bool
  wc_occupied :: bool

record client_worker =
  cw_contexts :: "string \<Rightarrow> shared_ctx option"    \<comment> \<open>\<open>map_id_sharedcontextsp_\<close>\<close>
  cw_conns :: "nat \<Rightarrow> worker_conn option"         \<comment> \<open>the context stored in a connection\<close>
  cw_avail :: "32 word"                            \<comment> \<open>\<open>atomic_avaliable_conn_num_\<close>\<close>
  cw_shutdown :: "nat list"                        \<comment> \<open>history: connections shut down\<close>
  cw_delivered :: "(string \<times> byte list) list"     \<comment> \<open>history: read buffers filled for waiting callers\<close>
  cw_async_loop :: bool                            \<comment> \<open>\<open>p_async_event_loop_\<close> is set\<close>
  cw_async :: "(string \<times> byte list) list"         \<comment> \<open>history: \<open>AsyncCallback\<close> queued on that loop\<close>
  cw_wheel :: "string list list"                   \<comment> \<open>buckets of entries for asynchronous contexts\<close>

definition kI8TimeWheelNum :: nat where "kI8TimeWheelNum = 5"

definition new_worker_conn :: worker_conn where
  "new_worker_conn = \<lparr>wc_state = kExpectFrameSize, wc_want_size = 0, wc_highwater = False, wc_occupied = False\<rparr>"

definition HandleThriftMsg :: "host_order \<Rightarrow> nat \<Rightarrow> byte list \<Rightarrow> client_worker \<Rightarrow> client_worker result" where
  "HandleThriftMsg h c msg w =
     rbind (new_TMemoryBuffer_from msg COPY) (\<lambda>mb.
     rbind (GetSeqID memory_transport h new_protocol mb) (\<lambda>(i, mb').
       if sint i \<le> 0 then Inr (w\<lparr>cw_shutdown := cw_shutdown w @ [c]\<rparr>)
       else let str_id = dec_int (sint i) in
            case cw_contexts w str_id of
              None \<Rightarrow> Inr w
            | Some sh \<Rightarrow>
                rbind (if sh_async sh
                       then if cw_async_loop w then Inr (w\<lparr>cw_async := cw_async w @ [(str_id, msg)]\<rparr>) else Inl UseAfterFree
                       else if sh_expired sh then Inr w
                       else Inr (w\<lparr>cw_delivered := cw_delivered w @ [(str_id, msg)]\<rparr>)) (\<lambda>w1.
                  Inr (w1\<lparr>cw_contexts := (cw_contexts w1)(sh_id sh := None)\<rparr>))))"

definition HandleMsg :: "host_order \<Rightarrow> nat \<Rightarrow> buffer \<Rightarrow> worker_conn \<Rightarrow> client_worker \<Rightarrow> (buffer \<times> worker_conn \<times> client_worker) result" where
  "HandleMsg h c b x w =
     (let n = want_bytes (wc_want_size x)
      in rbind (HandleThriftMsg h c (take n (contents b)) w) (\<lambda>w1.
         rbind (retrieve n b) (\<lambda>b1.
           let x1 = x\<lparr>wc_state := kExpectFrameSize\<rparr>
           in Inr (b1, if readableBytes b1 = 0 then x1\<lparr>wc_occupied := False\<rparr> else x1, w1))))"

lemma readInt32_shorter: "readInt32 h b = Inr r \<Longrightarrow> readableBytes (snd r) + 4 \<le> readableBytes b"
  by (auto simp: readInt32_def peekInt32_def retrieveInt32_def retrieve_def retrieveAll_def assert_ok_def size_defs res_simps split: if_splits)

lemma HandleMsg_shorter: "HandleMsg h c b x w = Inr r \<Longrightarrow> readableBytes (fst r) \<le> readableBytes b \<and> wc_state (fst (snd r)) = kExpectFrameSize"
  by (auto simp: HandleMsg_def retrieve_def retrieveAll_def assert_ok_def size_defs Let_def res_simps split: if_splits)

function cw_loop :: "host_order \<Rightarrow> nat \<Rightarrow> buffer \<Rightarrow> worker_conn \<Rightarrow> client_worker \<Rightarrow> (buffer \<times> worker_conn \<times> client_worker) result" where
  "cw_loop h c b x w =
     (if wc_state x = kExpectFrameSize
      then if 4 \<le> readableBytes b
           then rbind (readInt32 h b) (\<lambda>r. cw_loop h c (snd r) (x\<lparr>wc_want_size := fst r, wc_state := kExpectFrame\<rparr>) w)
           else Inr (b, x, w)
      else if want_bytes (wc_want_size x) \<le> readableBytes b
           then rbind (HandleMsg h c b x w) (\<lambda>r. cw_loop h c (fst r) (fst (snd r)) (snd (snd r)))
           else Inr (b, x, w))"
  by pat_completeness auto
termination
  by (relation "measure (\<lambda>(h, c, b, x, w). readableBytes b + (if wc_state x = kExpectFrameSize then 1 else 2))")
    (auto dest!: readInt32_shorter HandleMsg_shorter)

declare cw_loop.simps [simp del]

definition cw_OnMsg :: "host_order \<Rightarrow> nat \<Rightarrow> buffer \<Rightarrow> client_worker \<Rightarrow> (buffer \<times> client_worker) result" where
  "cw_OnMsg h c b w =
     (case cw_conns w c of
        None \<Rightarrow> Inr (b, w\<lparr>cw_shutdown := cw_shutdown w @ [c]\<rparr>)
      | Some x \<Rightarrow> rbind (cw_loop h c b x w) (\<lambda>(b', x', w'). Inr (b', w'\<lparr>cw_conns := (cw_conns w')(c \<mapsto> x')\<rparr>)))"

section \<open>Connections\<close>

text \<open>\<open>known\<close>: the peer's address is in \<open>map_ipport_spconninfo_\<close>; \<open>up\<close>: \<open>connected()\<close>.\<close>

definition decrement_avail :: "client_worker \<Rightarrow> client_worker" where
  "decrement_avail w = (let n = cw_avail w - 1 in w\<lparr>cw_avail := (if sint n \<le> 0 then 0 else n)\<rparr>)"

definition cw_OnConn :: "bool \<Rightarrow> bool \<Rightarrow> nat \<Rightarrow> client_worker \<Rightarrow> client_worker" where
  "cw_OnConn known up c w =
     (if up
      then if \<not> known then w\<lparr>cw_shutdown := cw_shutdown w @ [c]\<rparr>
           else w\<lparr>cw_conns := (cw_conns w)(c \<mapsto> new_worker_conn), cw_avail := cw_avail w + 1\<rparr>
      else case cw_conns w c of
             None \<Rightarrow> w
           | Some x \<Rightarrow> if \<not> wc_highwater x \<and> \<not> wc_occupied x then decrement_avail w else w)"

definition OnWriteComplete :: "nat \<Rightarrow> client_worker \<Rightarrow> client_worker" where
  "OnWriteComplete c w =
     (case cw_conns w c of
        None \<Rightarrow> w
      | Some x \<Rightarrow> w\<lparr>cw_conns := (cw_conns w)(c \<mapsto> x\<lparr>wc_highwater := False\<rparr>), cw_avail := cw_avail w + 1\<rparr>)"

definition OnHighWaterMark :: "nat \<Rightarrow> client_worker \<Rightarrow> client_worker" where
  "OnHighWaterMark c w =
     (case cw_conns w c of
        None \<Rightarrow> w
      | Some x \<Rightarrow> decrement_avail (w\<lparr>cw_conns := (cw_conns w)(c \<mapsto> x\<lparr>wc_highwater := True\<rparr>)\<rparr>))"

section \<open>Requests\<close>

text \<open>\<open>GetWriteBuf\<close> and \<open>GetAsyncWriteBuf\<close>: the frame of the bytes in the memory buffer, if there are any, and the return
  code, on which the two differ.\<close>

definition GetWriteBuf :: "host_order \<Rightarrow> memory_buffer \<Rightarrow> (int \<times> buffer) result" where
  "GetWriteBuf h mb =
     (case getBuffer mb of (d, n) \<Rightarrow>
        if n = 0 then Inr (- 1, new_buffer)
        else rbind (appendInt32 h (of_nat n) new_buffer) (\<lambda>b. rbind (append d b) (\<lambda>b'. Inr (0, b'))))"

definition GetAsyncWriteBuf :: "host_order \<Rightarrow> memory_buffer \<Rightarrow> (int \<times> buffer) result" where
  "GetAsyncWriteBuf h mb =
     (case getBuffer mb of (d, n) \<Rightarrow>
        if n = 0 then Inr (- 1, new_buffer)
        else rbind (appendInt32 h (of_nat n) new_buffer) (\<lambda>b. rbind (append d b) (\<lambda>b'. Inr (1, b'))))"

text \<open>
  \<open>SendTransportReq\<close> and \<open>AsyncSendReq\<close>, given the connection that \<open>ChooseNextReadyConn\<close> found: the bytes sent on it and
  the new state. The context is stored under its identifier; an asynchronous one enters the time wheel.
\<close>

definition SendTransportReq ::
    "host_order \<Rightarrow> nat option \<Rightarrow> memory_buffer \<Rightarrow> shared_ctx \<Rightarrow> client_worker \<Rightarrow> ((nat \<times> byte list) option \<times> client_worker) result" where
  "SendTransportReq h chosen mb sh w =
     rbind (GetWriteBuf h mb) (\<lambda>(code, b).
       if code \<noteq> 0 then Inr (None, w)
       else case chosen of
              None \<Rightarrow> Inr (None, w)
            | Some c \<Rightarrow>
                if cw_conns w c = None then Inr (None, w)
                else Inr (Some (c, contents b), w\<lparr>cw_contexts := (cw_contexts w)(sh_id sh \<mapsto> sh)\<rparr>))"

definition AsyncSendReq ::
    "host_order \<Rightarrow> nat option \<Rightarrow> memory_buffer \<Rightarrow> shared_ctx \<Rightarrow> client_worker \<Rightarrow> ((nat \<times> byte list) option \<times> client_worker) result" where
  "AsyncSendReq h chosen mb sh w =
     rbind (GetAsyncWriteBuf h mb) (\<lambda>(code, b).
       if code \<noteq> 0 then Inr (None, w)
       else case chosen of
              None \<Rightarrow> Inr (None, w)
            | Some c \<Rightarrow>
                if cw_conns w c = None then Inr (None, w)
                else if cw_wheel w = [] then Inl UseAfterFree
                else Inr (Some (c, contents b), w\<lparr>cw_contexts := (cw_contexts w)(sh_id sh \<mapsto> sh),
                       cw_wheel := butlast (cw_wheel w) @ [last (cw_wheel w) @ [sh_id sh]]\<rparr>))"

text \<open>\<open>flush\<close> of the transport: the read buffer is emptied and the worker is asked to send what has been written.\<close>

definition flush :: "cthrift_transport \<Rightarrow> cthrift_transport \<times> shared_ctx \<times> memory_buffer" where
  "flush t = (ResetReadBuf t, \<lparr>sh_id = ct_id t, sh_async = False, sh_expired = False\<rparr>, ct_write t)"

text \<open>\<open>AsyncCallback\<close>, run on the callback loop: the reply becomes the caller's receive buffer, and the caller is told; what its
  callback throws is caught.\<close>

definition ResetRecvBuf :: "byte list \<Rightarrow> memory_buffer \<Rightarrow> memory_buffer result" where
  "ResetRecvBuf msg b = (if msg = [] then Inr b else resetBuffer_from msg TAKE_OWNERSHIP b)"

definition AsyncCallback :: "byte list \<Rightarrow> memory_buffer \<Rightarrow> (memory_buffer \<Rightarrow> 's \<Rightarrow> 's) \<Rightarrow> 's \<Rightarrow> (memory_buffer \<times> 's) result" where
  "AsyncCallback msg b cob s = rbind (ResetRecvBuf msg b) (\<lambda>b'. Inr (b', cob b' s))"

definition DelContextMapByID :: "string \<Rightarrow> client_worker \<Rightarrow> client_worker" where
  "DelContextMapByID str_id w = w\<lparr>cw_contexts := (cw_contexts w)(str_id := None)\<rparr>"

text \<open>The wheel for asynchronous contexts: the entries of the oldest bucket are destroyed (\<open>~CnxtEntry\<close>).\<close>

definition cw_TimewheelKick :: "client_worker \<Rightarrow> client_worker" where
  "cw_TimewheelKick w =
     (case cw_wheel w of
        [] \<Rightarrow> w
      | old # rest \<Rightarrow> foldl (\<lambda>v i. DelContextMapByID i v) (w\<lparr>cw_wheel := rest @ [[]]\<rparr>) old)"

definition EnableAsync :: "client_worker \<Rightarrow> client_worker" where
  "EnableAsync w = w\<lparr>cw_async_loop := True,
     cw_wheel := take kI8TimeWheelNum (cw_wheel w) @ replicate (kI8TimeWheelNum - length (cw_wheel w)) []\<rparr>"

text \<open>\<open>sendAndRecvMessage\<close> of the channel: the request is copied, its first header is read for the identifier, and the
  rest is sent; too many waiting tasks are refused after the caller's buffer has been emptied.\<close>

definition sendAndRecvMessage ::
    "host_order \<Rightarrow> int \<Rightarrow> nat \<Rightarrow> memory_buffer \<Rightarrow> (shared_ctx \<times> memory_buffer \<times> memory_buffer) result" where
  "sendAndRecvMessage h threshold qlen sendBuf =
     rbind (new_TMemoryBuffer_from (fst (getBuffer sendBuf)) COPY) (\<lambda>mb.
     rbind (GetSeqID memory_transport h new_protocol mb) (\<lambda>(i, mb').
       let sendBuf' = resetBuffer sendBuf in
       if threshold \<le> sint (of_nat qlen :: 32 word) then Inl (TransportError InternalError)
       else Inr (\<lparr>sh_id = dec_int (sint i), sh_async = True, sh_expired = True\<rparr>, mb', sendBuf')))"

section \<open>The transport provides the interfaces of the protocol\<close>

interpretation ctw: thrift_writer cthrift_ops "\<lambda>t. mb_inv (ct_write t) \<and> mb_owner (ct_write t)" "\<lambda>t. mb_wBase (ct_write t)" "\<lambda>t. mb_bytes (ct_write t)"
proof unfold_locales
  fix t :: cthrift_transport and d :: "byte list"
  assume "mb_inv (ct_write t) \<and> mb_owner (ct_write t)" "mb_wBase (ct_write t) + length d \<le> 2 ^ 31"
  then show "\<exists>t'. tr_write cthrift_ops d t = Inr t' \<and> (mb_inv (ct_write t') \<and> mb_owner (ct_write t')) \<and>
      mb_wBase (ct_write t') = mb_wBase (ct_write t) + length d \<and> mb_bytes (ct_write t') = mb_bytes (ct_write t) @ d"
    using mb_write_ok [of "ct_write t" d] by (auto simp: cthrift_ops_def write_virt_def AppendWriteBuf_def)
qed

lemma read_virt_ok:
  assumes "mb_inv (ct_read t)" "mb_bytes (ct_read t) \<noteq> []"
  shows "\<exists>t'. read_virt len t = Inr (take len (mb_bytes (ct_read t)), t') \<and> mb_inv (ct_read t') \<and> mb_bytes (ct_read t') = drop len (mb_bytes (ct_read t))"
  using mb_read_ok [OF assms(1), of len] assms available_inv(1) [OF assms(1)]
  by (auto simp: read_virt_def ReadBufAvaliableReadSize_def ReadBufRead_def)

interpretation ctr: thrift_reader cthrift_ops "\<lambda>t. mb_inv (ct_read t)" "\<lambda>t. mb_bytes (ct_read t)"
proof unfold_locales
  fix t :: cthrift_transport and n
  assume t: "mb_inv (ct_read t)"
  show "\<exists>t'. tr_readAll cthrift_ops n t = Inr (take n (mb_bytes (ct_read t)), t') \<and> mb_inv (ct_read t') \<and> mb_bytes (ct_read t') = drop n (mb_bytes (ct_read t))"
    if "n \<le> length (mb_bytes (ct_read t))"
  proof (cases "n = 0")
    case True
    then show ?thesis using t by (simp add: cthrift_ops_def readAll_loop.simps)
  next
    case False
    then have ne: "mb_bytes (ct_read t) \<noteq> []" "take n (mb_bytes (ct_read t)) \<noteq> []" using that by auto
    obtain t1 where "read_virt n t = Inr (take n (mb_bytes (ct_read t)), t1)" "mb_inv (ct_read t1)" "mb_bytes (ct_read t1) = drop n (mb_bytes (ct_read t))"
      using read_virt_ok [OF t ne(1)] by blast
    then show ?thesis using ne(2) that
      by (subst cthrift_ops_def, subst transport_ops.select_convs, subst readAll_loop.simps) (simp add: readAll_loop.simps [of read_virt 0])
  qed
qed (simp_all add: cthrift_ops_def)

section \<open>Splitting a stream into frames\<close>

text \<open>The reference: the messages in a sequence of bytes, given what the connection expects.\<close>

function split_frames :: "frame_state \<Rightarrow> 32 word \<Rightarrow> byte list \<Rightarrow> byte list list \<times> frame_state \<times> 32 word \<times> byte list" where
  "split_frames kExpectFrameSize n bs =
     (if length bs < 4 then ([], kExpectFrameSize, n, bs)
      else split_frames kExpectFrame (le_word (rev (take 4 bs))) (drop 4 bs))"
| "split_frames kExpectFrame n bs =
     (if length bs < want_bytes n then ([], kExpectFrame, n, bs)
      else let (ms, r) = split_frames kExpectFrameSize n (drop (want_bytes n) bs) in (take (want_bytes n) bs # ms, r))"
  by pat_completeness auto
termination
  by (relation "measure (\<lambda>(st, n, bs). length bs + (if st = kExpectFrameSize then 1 else 2))") auto

declare split_frames.simps [simp del]

text \<open>The reference does not depend on how the bytes are cut.\<close>

lemma split_frames_append:
  "split_frames st n (xs @ ys) =
     (case split_frames st n xs of (ms, st', n', rest) \<Rightarrow> (case split_frames st' n' (rest @ ys) of (ms', r) \<Rightarrow> (ms @ ms', r)))"
proof (induction st n xs rule: split_frames.induct)
  case (1 n bs)
  show ?case
  proof (cases "length bs < 4")
    case True
    then show ?thesis by (simp add: split_frames.simps(1) [of n bs] split: prod.split)
  next
    case False
    then have "split_frames kExpectFrameSize n (bs @ ys) = split_frames kExpectFrame (le_word (rev (take 4 bs))) (drop 4 bs @ ys)"
      by (subst split_frames.simps) simp
    with 1 [OF False] False show ?thesis by (simp add: split_frames.simps(1) [of n bs])
  qed
next
  case (2 n bs)
  show ?case
  proof (cases "length bs < want_bytes n")
    case True
    then show ?thesis by (simp add: split_frames.simps(2) [of n bs] split: prod.split)
  next
    case False
    then have "split_frames kExpectFrame n (bs @ ys) =
        (let (ms, r) = split_frames kExpectFrameSize n (drop (want_bytes n) bs @ ys) in (take (want_bytes n) bs # ms, r))"
      by (subst split_frames.simps) simp
    with 2 [OF False] False show ?thesis by (simp add: split_frames.simps(2) [of n bs] split: prod.splits)
  qed
qed

text \<open>Whole frames are split into their messages.\<close>

lemma be_bytes_word: "length bs = 4 \<Longrightarrow> be_bytes (le_word (rev bs) :: 32 word) = bs"
  by (simp add: be_bytes_def le_bytes_le_word)

lemma word_be_bytes: "le_word (rev (be_bytes (x :: 32 word))) = x"
  by (simp add: be_bytes_def le_word_le_bytes)

lemma split_frames_frame: "length d < 2 ^ 31 \<Longrightarrow>
    split_frames kExpectFrameSize n (frame d @ bs) = (case split_frames kExpectFrameSize (of_nat (length d)) bs of (ms, r) \<Rightarrow> (d # ms, r))"
  by (subst split_frames.simps, subst split_frames.simps) (simp add: frame_def word_be_bytes)

section \<open>The loop refines the reference\<close>

definition loop_result :: "(buffer \<times> worker_conn \<times> client_worker) result \<Rightarrow> client_worker result \<Rightarrow> frame_state \<times> 32 word \<times> byte list \<Rightarrow> bool" where
  "loop_result res handled r \<longleftrightarrow>
     (case handled of
        Inl e \<Rightarrow> res = Inl e
      | Inr w' \<Rightarrow> \<exists>b' x'. res = Inr (b', x', w') \<and> buf_wf b' \<and> wc_state x' = fst r \<and> wc_want_size x' = fst (snd r) \<and> contents b' = snd (snd r))"

lemma cw_loop_size:
  assumes "buf_wf b" "wc_state x = kExpectFrameSize" "4 \<le> length (contents b)"
  shows "\<exists>b'. cw_loop h c b x w = cw_loop h c b' (x\<lparr>wc_want_size := le_word (rev (take 4 (contents b))), wc_state := kExpectFrame\<rparr>) w \<and>
    buf_wf b' \<and> contents b' = drop 4 (contents b)"
proof -
  let ?n = "le_word (rev (take 4 (contents b))) :: 32 word"
  have "contents b = be_bytes ?n @ drop 4 (contents b)" using assms(3) by (subst be_bytes_word) simp_all
  from readInt_head(2) [OF assms(1) this, of h] obtain b' where "readInt32 h b = Inr (?n, b')" "buf_wf b'" "contents b' = drop 4 (contents b)" by blast
  moreover from this have "cw_loop h c b x w = cw_loop h c b' (x\<lparr>wc_want_size := ?n, wc_state := kExpectFrame\<rparr>) w"
    using assms by (subst cw_loop.simps) simp
  ultimately show ?thesis by blast
qed

lemma cw_loop_message:
  assumes "buf_wf b" "wc_state x = kExpectFrame" "want_bytes (wc_want_size x) \<le> length (contents b)"
    and "HandleThriftMsg h c (take (want_bytes (wc_want_size x)) (contents b)) w = Inr w1"
  shows "\<exists>b' x'. cw_loop h c b x w = cw_loop h c b' x' w1 \<and> buf_wf b' \<and> contents b' = drop (want_bytes (wc_want_size x)) (contents b) \<and>
    wc_state x' = kExpectFrameSize \<and> wc_want_size x' = wc_want_size x"
proof -
  have r: "want_bytes (wc_want_size x) \<le> readableBytes b" using assms(1,3) by simp
  then obtain b' where "retrieve (want_bytes (wc_want_size x)) b = Inr b'" "buf_wf b'" "contents b' = drop (want_bytes (wc_want_size x)) (contents b)"
    using retrieve_ok [OF assms(1)] by blast
  moreover define x' where "x' = (if readableBytes b' = 0 then x\<lparr>wc_state := kExpectFrameSize, wc_occupied := False\<rparr> else x\<lparr>wc_state := kExpectFrameSize\<rparr>)"
  ultimately have "HandleMsg h c b x w = Inr (b', x', w1)" using assms(4) by (simp add: HandleMsg_def Let_def)
  then have "cw_loop h c b x w = cw_loop h c b' x' w1" using assms(2) r by (subst cw_loop.simps) simp
  moreover have "wc_state x' = kExpectFrameSize" "wc_want_size x' = wc_want_size x" by (simp_all add: x'_def)
  ultimately show ?thesis using \<open>buf_wf b'\<close> \<open>contents b' = drop (want_bytes (wc_want_size x)) (contents b)\<close> by blast
qed

lemma cw_loop_split:
  assumes "buf_wf b" "wc_state x = st" "wc_want_size x = n" "contents b = bs"
  shows "case split_frames st n bs of (ms, r) \<Rightarrow> loop_result (cw_loop h c b x w) (rfold (HandleThriftMsg h c) ms w) r"
  using assms
proof (induction st n bs arbitrary: b x w rule: split_frames.induct)
  case (1 n bs)
  show ?case
  proof (cases "length bs < 4")
    case True
    then have "cw_loop h c b x w = Inr (b, x, w)" using "1.prems" length_contents [of b] by (subst cw_loop.simps) simp
    then show ?thesis using True "1.prems" by (simp add: split_frames.simps loop_result_def)
  next
    case False
    then obtain b' where b': "cw_loop h c b x w = cw_loop h c b' (x\<lparr>wc_want_size := le_word (rev (take 4 bs)), wc_state := kExpectFrame\<rparr>) w"
      "buf_wf b'" "contents b' = drop 4 bs"
      using cw_loop_size [of b x h c w] "1.prems" by auto
    from "1.IH" [OF False b'(2) _ _ b'(3), of "x\<lparr>wc_want_size := le_word (rev (take 4 bs)), wc_state := kExpectFrame\<rparr>"] b'(1) False
    show ?thesis by (simp add: split_frames.simps(1))
  qed
next
  case (2 n bs)
  show ?case
  proof (cases "length bs < want_bytes n")
    case True
    then have "cw_loop h c b x w = Inr (b, x, w)" using "2.prems" length_contents [of b] by (subst cw_loop.simps) simp
    then show ?thesis using True "2.prems" by (simp add: split_frames.simps loop_result_def)
  next
    case False
    obtain ms r where sp: "split_frames kExpectFrameSize n (drop (want_bytes n) bs) = (ms, r)" by (rule prod.exhaust)
    then have sp2: "split_frames kExpectFrame n bs = (take (want_bytes n) bs # ms, r)" using False by (simp add: split_frames.simps)
    show ?thesis
    proof (cases "HandleThriftMsg h c (take (want_bytes n) bs) w")
      case (Inl e)
      then have "HandleMsg h c b x w = Inl e" using "2.prems" by (simp add: HandleMsg_def Let_def)
      then have "cw_loop h c b x w = Inl e" using "2.prems" False length_contents [of b] by (subst cw_loop.simps) simp
      then show ?thesis using Inl sp2 by (simp add: loop_result_def)
    next
      case (Inr w1)
      then obtain b' x' where b': "cw_loop h c b x w = cw_loop h c b' x' w1" "buf_wf b'" "contents b' = drop (want_bytes n) bs"
        "wc_state x' = kExpectFrameSize" "wc_want_size x' = n"
        using cw_loop_message [of b x h c w w1] "2.prems" False by auto
      from "2.IH" [OF False b'(2,4,5,3), of w1] sp sp2 Inr b'(1) show ?thesis by simp
    qed
  qed
qed

text \<open>Feeding a connection: a chunk is appended to its input buffer and \<open>OnMsg\<close> is called.\<close>

definition feed :: "host_order \<Rightarrow> nat \<Rightarrow> byte list \<Rightarrow> buffer \<times> client_worker \<Rightarrow> (buffer \<times> client_worker) result" where
  "feed h c chunk st = (case st of (b, w) \<Rightarrow> rbind (append chunk b) (\<lambda>b1. cw_OnMsg h c b1 w))"

lemma HandleThriftMsg_conns: "HandleThriftMsg h c m w = Inr w' \<Longrightarrow> cw_conns w' = cw_conns w"
  by (auto simp: HandleThriftMsg_def Let_def res_simps split: if_splits option.splits)

lemma handle_conns: "rfold (HandleThriftMsg h c) ms w = Inr w' \<Longrightarrow> cw_conns w' = cw_conns w"
proof (induction ms arbitrary: w)
  case (Cons m ms)
  then show ?case using HandleThriftMsg_conns by (fastforce simp: res_simps)
qed simp

text \<open>Handling a message does not look at the connections' contexts.\<close>

lemma HandleThriftMsg_cong:
  "HandleThriftMsg h c m (w\<lparr>cw_conns := f\<rparr>) = rbind (HandleThriftMsg h c m w) (\<lambda>w'. Inr (w'\<lparr>cw_conns := f\<rparr>))"
  by (auto simp: HandleThriftMsg_def Let_def rbind_assoc split: option.splits intro!: rbind_cong)

lemma handle_cong: "rfold (HandleThriftMsg h c) ms (w\<lparr>cw_conns := f\<rparr>) = rbind (rfold (HandleThriftMsg h c) ms w) (\<lambda>w'. Inr (w'\<lparr>cw_conns := f\<rparr>))"
proof (induction ms arbitrary: w)
  case (Cons m ms)
  then show ?case by (cases "HandleThriftMsg h c m w") (simp_all add: HandleThriftMsg_cong)
qed simp

text \<open>What is left after splitting holds no complete message.\<close>

lemma split_frames_rest: "split_frames st n bs = (ms, st', n', rest) \<Longrightarrow> split_frames st' n' rest = ([], st', n', rest)"
proof (induction st n bs arbitrary: ms rule: split_frames.induct)
  case (1 n bs)
  show ?case
  proof (cases "length bs < 4")
    case True
    then show ?thesis using "1.prems" by (auto simp: split_frames.simps)
  next
    case False
    then show ?thesis using "1.IH" "1.prems" by (simp add: split_frames.simps(1) [of n bs])
  qed
next
  case (2 n bs)
  show ?case
  proof (cases "length bs < want_bytes n")
    case True
    then show ?thesis using "2.prems" by (auto simp: split_frames.simps)
  next
    case False
    then show ?thesis using "2.IH" "2.prems" by (auto simp: split_frames.simps(2) [of n bs] split: prod.splits)
  qed
qed

lemma split_frames_length: "split_frames st n bs = (ms, st', n', rest) \<Longrightarrow> length rest \<le> length bs"
proof (induction st n bs arbitrary: ms rule: split_frames.induct)
  case (1 n bs)
  then show ?case by (cases "length bs < 4") (auto simp: split_frames.simps(1) [of n bs])
next
  case (2 n bs)
  then show ?case by (cases "length bs < want_bytes n") (force simp: split_frames.simps(2) [of n bs] split: prod.splits)+
qed

lemma feed_chunk:
  assumes "buf_wf b" "length (contents b) + 2 * length chunk \<le> vec_max - kCheapPrepend" "cw_conns w c = Some x"
    and "split_frames (wc_state x) (wc_want_size x) (contents b @ chunk) = (ms, st, n, rest)" "rfold (HandleThriftMsg h c) ms w = Inr w1"
  shows "\<exists>b' x'. feed h c chunk (b, w) = Inr (b', w1\<lparr>cw_conns := (cw_conns w)(c \<mapsto> x')\<rparr>) \<and> buf_wf b' \<and> contents b' = rest \<and>
    wc_state x' = st \<and> wc_want_size x' = n"
proof -
  obtain b1 where b1: "append chunk b = Inr b1" "buf_wf b1" "contents b1 = contents b @ chunk"
    using net_buf.put_total_ok [OF assms(1,2)] by blast
  from cw_loop_split [where x = x and h = h and c = c and w = w, OF b1(2) refl refl refl] assms(4,5) b1(3) obtain b' x' where
    "cw_loop h c b1 x w = Inr (b', x', w1)" "buf_wf b'" "contents b' = rest" "wc_state x' = st" "wc_want_size x' = n" by (auto simp: loop_result_def)
  then show ?thesis using b1(1) assms(3) handle_conns [OF assms(5)] by (auto simp: feed_def cw_OnMsg_def)
qed

text \<open>Feeding a stream in chunks.\<close>

lemma feed_chunks:
  assumes "buf_wf b" "cw_conns w c = Some x" "length (contents b) + 2 * length (concat chunks) \<le> vec_max - kCheapPrepend"
    and "split_frames (wc_state x) (wc_want_size x) (contents b) = ([], wc_state x, wc_want_size x, contents b)"
    and "split_frames (wc_state x) (wc_want_size x) (contents b @ concat chunks) = (ms, st, n, rest)"
    and "rfold (HandleThriftMsg h c) ms w = Inr w'"
  shows "\<exists>b' x'. rfold (feed h c) chunks (b, w) = Inr (b', w'\<lparr>cw_conns := (cw_conns w)(c \<mapsto> x')\<rparr>) \<and> contents b' = rest \<and>
    wc_state x' = st \<and> wc_want_size x' = n"
  using assms
proof (induction chunks arbitrary: b w x ms w')
  case Nil
  then have "w' = w" "st = wc_state x" "n = wc_want_size x" "rest = contents b" by auto
  moreover have "(cw_conns w)(c \<mapsto> x) = cw_conns w" using Nil.prems(2) by (rule map_upd_triv)
  ultimately show ?case by (intro exI [of _ b] exI [of _ x]) simp
next
  case (Cons chunk chunks)
  obtain ms1 st1 n1 rest1 where 1: "split_frames (wc_state x) (wc_want_size x) (contents b @ chunk) = (ms1, st1, n1, rest1)" by (rule prod_cases4)
  obtain ms2 where 2: "split_frames st1 n1 (rest1 @ concat chunks) = (ms2, st, n, rest)" "ms = ms1 @ ms2"
    using split_frames_append [of "wc_state x" "wc_want_size x" "contents b @ chunk" "concat chunks"] 1 Cons.prems(5) by (auto split: prod.splits)
  obtain w1 where w1: "rfold (HandleThriftMsg h c) ms1 w = Inr w1" "rfold (HandleThriftMsg h c) ms2 w1 = Inr w'"
    using Cons.prems(6) 2(2) by (auto simp: rfold_append res_simps)
  have "length (contents b) + 2 * length chunk \<le> vec_max - kCheapPrepend" using Cons.prems(3) by simp
  from feed_chunk [OF Cons.prems(1) this Cons.prems(2) 1 w1(1)] obtain b1 x1 where
    b1: "feed h c chunk (b, w) = Inr (b1, w1\<lparr>cw_conns := (cw_conns w)(c \<mapsto> x1)\<rparr>)" "buf_wf b1" "contents b1 = rest1" "wc_state x1 = st1" "wc_want_size x1 = n1"
    by blast
  let ?w = "w1\<lparr>cw_conns := (cw_conns w)(c \<mapsto> x1)\<rparr>"
  have "rfold (HandleThriftMsg h c) ms2 ?w = Inr (w'\<lparr>cw_conns := (cw_conns w)(c \<mapsto> x1)\<rparr>)" using w1(2) by (simp add: handle_cong)
  moreover have "length rest1 \<le> length (contents b @ chunk)" using split_frames_length [OF 1] .
  moreover have "split_frames st1 n1 rest1 = ([], st1, n1, rest1)" using split_frames_rest [OF 1] .
  ultimately have "\<exists>b' x'. rfold (feed h c) chunks (b1, ?w) =
      Inr (b', (w'\<lparr>cw_conns := (cw_conns w)(c \<mapsto> x1)\<rparr>)\<lparr>cw_conns := (cw_conns ?w)(c \<mapsto> x')\<rparr>) \<and> contents b' = rest \<and> wc_state x' = st \<and> wc_want_size x' = n"
    using b1 2(1) Cons.prems(3) by (intro Cons.IH [where x = x1, OF b1(2)]) auto
  then obtain b' x' where r: "rfold (feed h c) chunks (b1, ?w) = Inr (b', w'\<lparr>cw_conns := (cw_conns w)(c \<mapsto> x')\<rparr>)" "contents b' = rest"
    "wc_state x' = st" "wc_want_size x' = n" by auto
  have "rfold (feed h c) (chunk # chunks) (b, w) = Inr (b', w'\<lparr>cw_conns := (cw_conns w)(c \<mapsto> x')\<rparr>)" using b1(1) r(1) by simp
  with r(2-4) show ?case by blast
qed

section \<open>Properties\<close>

text \<open>C15. Replies do not depend on how the network cuts them: a connection of the client that is fed a stream of bytes in
  any chunks handles exactly the messages of the stream, in order, keeps the incomplete rest in its buffer, and
  always returns; an incomplete frame is waited for.\<close>

theorem replies_any_chunks:
  assumes "buf_wf b" "cw_conns w c = Some x" "length (contents b) + 2 * length (concat chunks) \<le> vec_max - kCheapPrepend"
    and "split_frames (wc_state x) (wc_want_size x) (contents b) = ([], wc_state x, wc_want_size x, contents b)"
    and "split_frames (wc_state x) (wc_want_size x) (contents b @ concat chunks) = (ms, st, n, rest)"
    and "rfold (HandleThriftMsg h c) ms w = Inr w'"
  shows "\<exists>b' x'. rfold (feed h c) chunks (b, w) = Inr (b', w'\<lparr>cw_conns := (cw_conns w)(c \<mapsto> x')\<rparr>) \<and> contents b' = rest \<and>
    wc_state x' = st \<and> wc_want_size x' = n"
  by (rule feed_chunks [OF assms])

section \<open>Routing\<close>

text \<open>A reply whose header carries the identifier of a waiting call.\<close>

definition reply_ok :: "byte list \<Rightarrow> 32 word \<Rightarrow> bool" where
  "reply_ok msg i \<longleftrightarrow> 0 < sint i \<and> length msg \<le> 2 ^ 31 \<and>
     (\<exists>strict name ty body. msg = enc_header strict name ty i @ body \<and> string_fits new_protocol name \<and>
        (if strict then 0 \<le> ty \<and> ty < 256 else - 128 \<le> ty \<and> ty < 128))"

lemma reply_GetSeqID:
  assumes "reply_ok msg i"
  shows "\<exists>mb mb'. new_TMemoryBuffer_from msg COPY = Inr mb \<and> GetSeqID memory_transport h new_protocol mb = Inr (i, mb')"
proof -
  obtain strict name ty body where m: "msg = enc_header strict name ty i @ body" "string_fits new_protocol name"
    "if strict then 0 \<le> ty \<and> ty < 256 else - 128 \<le> ty \<and> ty < 128 \<and> \<not> strict_read new_protocol" "length msg \<le> 2 ^ 31"
    using assms by (fastforce simp: reply_ok_def new_protocol_def)
  obtain mb where mb: "new_TMemoryBuffer_from msg COPY = Inr mb" "mb_inv mb" "mb_bytes mb = msg" using new_from_ok [OF m(4), of COPY] by auto
  have "length (enc_header strict name ty i) \<le> 2 ^ 31" using m(1,4) by simp
  from GetSeqID_header [OF m(2,3) mb(2) _ this, of body h] mb(1,3) m(1) show ?thesis by auto
qed

lemma reply_handled:
  assumes "reply_ok msg i"
  shows "cw_contexts w (dec_int (sint i)) = Some \<lparr>sh_id = dec_int (sint i), sh_async = False, sh_expired = False\<rparr> \<Longrightarrow>
      HandleThriftMsg h c msg w = Inr (w\<lparr>cw_delivered := cw_delivered w @ [(dec_int (sint i), msg)],
        cw_contexts := (cw_contexts w)(dec_int (sint i) := None)\<rparr>)"
    and "cw_contexts w (dec_int (sint i)) = None \<Longrightarrow> HandleThriftMsg h c msg w = Inr w"
proof -
  obtain mb mb' where "new_TMemoryBuffer_from msg COPY = Inr mb" "GetSeqID memory_transport h new_protocol mb = Inr (i, mb')"
    using reply_GetSeqID [OF assms] by blast
  moreover have "0 < sint i" using assms by (simp add: reply_ok_def)
  ultimately show "cw_contexts w (dec_int (sint i)) = Some \<lparr>sh_id = dec_int (sint i), sh_async = False, sh_expired = False\<rparr> \<Longrightarrow>
      HandleThriftMsg h c msg w = Inr (w\<lparr>cw_delivered := cw_delivered w @ [(dec_int (sint i), msg)],
        cw_contexts := (cw_contexts w)(dec_int (sint i) := None)\<rparr>)"
    "cw_contexts w (dec_int (sint i)) = None \<Longrightarrow> HandleThriftMsg h c msg w = Inr w"
    by (simp_all add: HandleThriftMsg_def Let_def)
qed

lemma frame_buffer:
  assumes "mb_inv mb"
  shows "\<exists>b b'. appendInt32 h (of_nat (length (mb_bytes mb))) new_buffer = Inr b \<and> append (mb_bytes mb) b = Inr b' \<and> contents b' = frame (mb_bytes mb)"
proof -
  let ?n = "of_nat (length (mb_bytes mb)) :: 32 word"
  note lim = vec_max_def kCheapPrepend_def
  have len: "length (mb_bytes mb) < 2 ^ 32" using assms by (auto simp: mb_bytes_def mb_inv_def)
  obtain b1 where b1: "append (be_bytes ?n) new_buffer = Inr b1" "buf_wf b1" "contents b1 = be_bytes ?n"
    using net_buf.put_total_ok [of new_buffer "be_bytes ?n"] by (auto simp: lim)
  then obtain b2 where "append (mb_bytes mb) b1 = Inr b2" "contents b2 = be_bytes ?n @ mb_bytes mb"
    using net_buf.put_total_ok [of b1 "mb_bytes mb"] len by (auto simp: lim simp del: length_contents)
  then show ?thesis using b1(1) by (simp add: appendInt32_def frame_def)
qed

lemma GetWriteBuf_frame:
  assumes "mb_inv mb" "mb_bytes mb \<noteq> []"
  shows "\<exists>b. GetWriteBuf h mb = Inr (0, b) \<and> contents b = frame (mb_bytes mb)"
  using frame_buffer [OF assms(1), of h] getBuffer_ok [OF assms(1)] assms(2) by (auto simp: GetWriteBuf_def)

lemma GetAsyncWriteBuf_code:
  assumes "mb_inv mb"
  shows "\<exists>code b. GetAsyncWriteBuf h mb = Inr (code, b) \<and> code \<noteq> 0"
  using frame_buffer [OF assms, of h] getBuffer_ok [OF assms] by (auto simp: GetAsyncWriteBuf_def)

text \<open>A call gets its reply: a synchronous call writes its request as one frame on the chosen connection; the first
  message that comes back with its identifier, on whatever connection, is put into the caller's read buffer unchanged
  and removes the context of the call and of no other; the same message once more changes nothing.\<close>

theorem reply_routed:
  assumes "reply_ok msg i" "cw_conns w d \<noteq> None" "mb_inv mb" "mb_bytes mb \<noteq> []"
  defines "sh \<equiv> \<lparr>sh_id = dec_int (sint i), sh_async = False, sh_expired = False\<rparr>"
  shows "\<exists>w1 w2. SendTransportReq h (Some d) mb sh w = Inr (Some (d, frame (mb_bytes mb)), w1) \<and> HandleThriftMsg h c msg w1 = Inr w2 \<and>
    cw_delivered w2 = cw_delivered w @ [(dec_int (sint i), msg)] \<and> cw_contexts w2 = (cw_contexts w)(dec_int (sint i) := None) \<and>
    HandleThriftMsg h c msg w2 = Inr w2"
proof -
  let ?w1 = "w\<lparr>cw_contexts := (cw_contexts w)(dec_int (sint i) \<mapsto> sh)\<rparr>"
  let ?w2 = "?w1\<lparr>cw_delivered := cw_delivered w @ [(dec_int (sint i), msg)], cw_contexts := (cw_contexts w)(dec_int (sint i) := None)\<rparr>"
  obtain b where "GetWriteBuf h mb = Inr (0, b)" "contents b = frame (mb_bytes mb)" using GetWriteBuf_frame [OF assms(3,4)] by blast
  then have "SendTransportReq h (Some d) mb sh w = Inr (Some (d, frame (mb_bytes mb)), ?w1)" using assms(2) by (simp add: SendTransportReq_def sh_def)
  moreover have "HandleThriftMsg h c msg ?w1 = Inr ?w2" using reply_handled(1) [OF assms(1), of ?w1 h c] by (simp add: sh_def)
  moreover have "HandleThriftMsg h c msg ?w2 = Inr ?w2" using reply_handled(2) [OF assms(1), of ?w2 h c] by simp
  ultimately show ?thesis by auto
qed

text \<open>C40. Asynchronous calls are never sent: the channel reads the identifier off the front of a request and leaves the message
  behind it, but \<open>GetAsyncWriteBuf\<close> reports success as 1, which \<open>AsyncSendReq\<close> takes for a failure; nothing is
  written, no context is stored, and the caller's completion is never called.\<close>

theorem async_calls_dropped:
  assumes "mb_inv sb" "mb_bytes sb = enc_header strict name ty i @ msg" "length (mb_bytes sb) \<le> 2 ^ 31" "string_fits new_protocol name"
    and "if strict then 0 \<le> ty \<and> ty < 256 else - 128 \<le> ty \<and> ty < 128" "sint (of_nat qlen :: 32 word) < threshold"
  shows "\<exists>sh mb sb'. sendAndRecvMessage h threshold qlen sb = Inr (sh, mb, sb') \<and> sh_id sh = dec_int (sint i) \<and> mb_bytes mb = msg \<and>
    AsyncSendReq h chosen mb sh w = Inr (None, w)"
proof -
  obtain mb where mb: "new_TMemoryBuffer_from (mb_bytes sb) COPY = Inr mb" "mb_inv mb" "mb_bytes mb = enc_header strict name ty i @ msg"
    using new_from_ok [OF assms(3), of COPY] assms(2) by auto
  have len: "length (enc_header strict name ty i) \<le> 2 ^ 31" using assms(2,3) by simp
  have ty: "if strict then 0 \<le> ty \<and> ty < 256 else - 128 \<le> ty \<and> ty < 128 \<and> \<not> strict_read new_protocol"
    using assms(5) by (simp add: new_protocol_def)
  obtain mb' where mb': "GetSeqID memory_transport h new_protocol mb = Inr (i, mb')" "mb_inv mb'" "mb_bytes mb' = msg"
    using GetSeqID_header [OF assms(4) ty mb(2,3) len] by blast
  obtain code b where "GetAsyncWriteBuf h mb' = Inr (code, b)" "code \<noteq> 0" using GetAsyncWriteBuf_code [OF mb'(2)] by blast
  then have "AsyncSendReq h chosen mb' sh w = Inr (None, w)" for sh by (simp add: AsyncSendReq_def)
  then show ?thesis using mb(1) mb' assms(6) getBuffer_ok [OF assms(1)] by (simp add: sendAndRecvMessage_def Let_def)
qed

text \<open>A malformed reply ends the client: a frame too short for a message header makes \<open>GetSeqID\<close> throw, and no handler
  between it and the event loop catches the exception.\<close>

theorem short_reply_throws:
  assumes "buf_wf b" "cw_conns w c = Some x" "wc_state x = kExpectFrameSize" "contents b = frame msg @ rest" "length msg < 4"
  shows "cw_OnMsg h c b w = Inl (TransportError EndOfFile)"
proof -
  obtain mb where mb: "new_TMemoryBuffer_from msg COPY = Inr mb" "mb_inv mb" "mb_bytes mb = msg" using new_from_ok [of msg COPY] assms(5) by auto
  have "mb_readAll 4 mb = Inl (TransportError EndOfFile)" using mb_readAll_short [OF mb(2)] mb(3) assms(5) by simp
  then have "HandleThriftMsg h c msg w = Inl (TransportError EndOfFile)"
    using mb(1) by (simp add: HandleThriftMsg_def GetSeqID_def rd_then_def readI32_def rd_bytes_def memory_transport_def)
  moreover have "\<exists>ms r. split_frames (wc_state x) (wc_want_size x) (contents b) = (msg # ms, r)"
    using split_frames_frame [of msg "wc_want_size x" rest] assms(3-5) by (auto split: prod.splits)
  ultimately have "cw_loop h c b x w = Inl (TransportError EndOfFile)"
    using cw_loop_split [where x = x and h = h and c = c and w = w, OF assms(1) refl refl refl] by (auto simp: loop_result_def)
  then show ?thesis using assms(2) by (simp add: cw_OnMsg_def)
qed

text \<open>The count of available connections drifts: every completed write adds one although only a high-water mark took one
  away, so that after \<open>k\<close> writes on the only connection it says \<open>k + 1\<close>.\<close>

theorem available_count_drifts:
  assumes "cw_conns w c = Some x" "cw_avail w = of_nat n"
  shows "cw_avail ((OnWriteComplete c ^^ k) w) = of_nat (n + k)"
proof -
  have "cw_avail ((OnWriteComplete c ^^ k) w) = of_nat (n + k) \<and> cw_conns ((OnWriteComplete c ^^ k) w) c \<noteq> None"
    using assms by (induction k) (auto simp: OnWriteComplete_def)
  then show ?thesis by simp
qed

text \<open>A worker with one connection and a waiting call, for the concrete runs.\<close>

definition sample_worker :: client_worker where
  "sample_worker = \<lparr>cw_contexts = [''7'' \<mapsto> \<lparr>sh_id = ''7'', sh_async = False, sh_expired = False\<rparr>], cw_conns = [5 \<mapsto> new_worker_conn],
     cw_avail = 1, cw_shutdown = [], cw_delivered = [], cw_async_loop = False, cw_async = [], cw_wheel = []\<rparr>"

definition sample_reply :: "byte list" where
  "sample_reply = enc_header True (ascii ''ping'') 2 7 @ [1, 2]"

lemma sample_reply_ok: "reply_ok sample_reply 7" "dec_int (sint (7 :: 32 word)) = ''7''"
proof -
  have "string_fits new_protocol (ascii ''ping'')" by (simp add: string_fits_def new_protocol_def g_string_limit_def)
  moreover have "length sample_reply \<le> 2 ^ 31" by (simp add: sample_reply_def enc_header_def enc_string_def)
  ultimately show "reply_ok sample_reply 7" unfolding reply_ok_def sample_reply_def
    by (intro conjI exI [of _ True] exI [of _ "ascii ''ping''"] exI [of _ 2] exI [of _ "[1, 2]"]) (simp_all add: sample_reply_def)
  show "dec_int (sint (7 :: 32 word)) = ''7''" by (simp add: dec_int_def dec_nat_digit)
qed

theorem reply_routed_witness:
  "\<exists>mb w1 w2. new_TMemoryBuffer_from [8, 9] COPY = Inr mb \<and>
     SendTransportReq LittleEndian (Some 5) mb \<lparr>sh_id = ''7'', sh_async = False, sh_expired = False\<rparr> sample_worker = Inr (Some (5, frame [8, 9]), w1) \<and>
     HandleThriftMsg LittleEndian 5 sample_reply w1 = Inr w2 \<and> cw_delivered w2 = [(''7'', sample_reply)]"
proof -
  obtain mb where mb: "new_TMemoryBuffer_from [8, 9] COPY = Inr mb" "mb_inv mb" "mb_bytes mb = [8, 9]" using new_from_ok [of "[8, 9]" COPY] by auto
  have "cw_conns sample_worker 5 \<noteq> None" "cw_delivered sample_worker = []" by (simp_all add: sample_worker_def)
  with reply_routed [OF sample_reply_ok(1) this(1) mb(2), of LittleEndian 5] mb(1,3) sample_reply_ok(2) show ?thesis by auto
qed

theorem replies_any_chunks_witness:
  "\<exists>b' w'. rfold (feed LittleEndian 5) [take 3 (frame sample_reply), drop 3 (frame sample_reply) @ [0]] (new_buffer, sample_worker) = Inr (b', w') \<and>
     cw_delivered w' = [(''7'', sample_reply)] \<and> contents b' = [0]"
proof -
  let ?chunks = "[take 3 (frame sample_reply), drop 3 (frame sample_reply) @ [0]]"
  have len: "length sample_reply = 18" by (simp add: sample_reply_def enc_header_def enc_string_def)
  have c: "concat ?chunks = frame sample_reply @ [0]" by (simp flip: append_assoc)
  have x: "cw_conns sample_worker 5 = Some new_worker_conn" by (simp add: sample_worker_def)
  obtain n where sp: "split_frames kExpectFrameSize 0 (frame sample_reply @ [0]) = ([sample_reply], kExpectFrameSize, n, [0])"
    using split_frames_frame [of sample_reply 0 "[0]"] len by (auto simp: split_frames.simps)
  obtain w' where w': "HandleThriftMsg LittleEndian 5 sample_reply sample_worker = Inr w'" "cw_delivered w' = [(''7'', sample_reply)]"
    using reply_handled(1) [OF sample_reply_ok(1), of sample_worker LittleEndian 5] sample_reply_ok(2) by (simp add: sample_worker_def)
  from replies_any_chunks [OF buf_wf_new x, of ?chunks "[sample_reply]" kExpectFrameSize n "[0]" LittleEndian w'] c sp w' len
  show ?thesis by (fastforce simp: new_worker_conn_def split_frames.simps vec_max_def kCheapPrepend_def frame_def)
qed

theorem async_calls_dropped_witness:
  "\<exists>sb sh mb sb'. new_TMemoryBuffer_from sample_reply COPY = Inr sb \<and> sendAndRecvMessage LittleEndian 10 0 sb = Inr (sh, mb, sb') \<and> mb_bytes mb = [1, 2] \<and>
     AsyncSendReq LittleEndian (Some 5) mb sh sample_worker = Inr (None, sample_worker)"
proof -
  have len: "length sample_reply \<le> 2 ^ 31" by (simp add: sample_reply_def enc_header_def enc_string_def)
  obtain sb where sb: "new_TMemoryBuffer_from sample_reply COPY = Inr sb" "mb_inv sb" "mb_bytes sb = enc_header True (ascii ''ping'') 2 7 @ [1, 2]"
    using new_from_ok [OF len, of COPY] by (auto simp: sample_reply_def)
  have "string_fits new_protocol (ascii ''ping'')" by (simp add: string_fits_def new_protocol_def g_string_limit_def)
  from async_calls_dropped [OF sb(2,3) _ this, of 0 10 LittleEndian "Some 5" sample_worker] len sb(1,3) show ?thesis by (auto simp: sample_reply_def)
qed

theorem short_reply_throws_witness:
  "\<exists>b. append (frame [1, 2]) new_buffer = Inr b \<and> cw_OnMsg LittleEndian 5 b sample_worker = Inl (TransportError EndOfFile)"
proof -
  obtain b where b: "append (frame [1, 2]) new_buffer = Inr b" "buf_wf b" "contents b = frame [1, 2] @ []"
    using sample_buffer [of "frame [1, 2]"] by (auto simp: frame_def)
  have "cw_conns sample_worker 5 = Some new_worker_conn" "wc_state new_worker_conn = kExpectFrameSize" by (simp_all add: sample_worker_def new_worker_conn_def)
  from short_reply_throws [OF b(2) this b(3)] b(1) show ?thesis by auto
qed

theorem available_count_drifts_witness: "cw_avail ((OnWriteComplete 5 ^^ 3) sample_worker) = 4"
  using available_count_drifts [of sample_worker 5 new_worker_conn 1 3] by (simp add: sample_worker_def)

end
