(* ===== verification/Cthrift_Calls.thy ===== *)
theory Cthrift_Calls
  imports Cthrift_Worker
begin

text \<open>
  Calls from end to end: the client worker (\<open>src/cthrift/cthrift_client_worker.cc\<close>), the network, the server
  (\<open>cthrift_svr.cc\<close>) and back. Only drivers are defined here; every step is an operation of the two components.
\<close>

section \<open>Calls\<close>

record rpc_call =
  rq_id :: "32 word"
  rq_request :: "byte list"
  rq_reply :: "byte list"

definition sync_ctx :: "32 word \<Rightarrow> shared_ctx" where
  "sync_ctx i = \<lparr>sh_id = dec_int (sint i), sh_async = False, sh_expired = False\<rparr>"

definition add_call :: "(string \<Rightarrow> shared_ctx option) \<Rightarrow> rpc_call \<Rightarrow> string \<Rightarrow> shared_ctx option" where
  "add_call m c = m(dec_int (sint (rq_id c)) \<mapsto> sync_ctx (rq_id c))"

text \<open>Calls sent one after the other on a connection: the bytes on the wire and the new state of the worker.\<close>

fun send_calls :: "host_order \<Rightarrow> nat \<Rightarrow> rpc_call list \<Rightarrow> client_worker \<Rightarrow> (byte list \<times> client_worker) result" where
  "send_calls h d [] w = Inr ([], w)"
| "send_calls h d (c # cs) w =
     rbind (new_TMemoryBuffer_from (rq_request c) COPY) (\<lambda>mb.
     rbind (SendTransportReq h (Some d) mb (sync_ctx (rq_id c)) w) (\<lambda>(out, w1).
     rbind (send_calls h d cs w1) (\<lambda>(bs, w2).
       Inr ((case out of None \<Rightarrow> [] | Some (_, b) \<Rightarrow> b) @ bs, w2))))"

text \<open>A call the server answers: the processor appends the reply, which carries the identifier of the call.\<close>

definition call_answerable :: "(memory_buffer \<Rightarrow> memory_buffer \<Rightarrow> (memory_buffer \<times> memory_buffer) option) \<Rightarrow> rpc_call \<Rightarrow> bool" where
  "call_answerable proc c \<longleftrightarrow> reply_ok (rq_reply c) (rq_id c) \<and> rq_request c \<noteq> [] \<and> length (rq_request c) < 2 ^ 31 \<and>
     length (rq_reply c) + 4 \<le> 2 ^ 31 \<and> appends proc (rq_request c) (rq_reply c)"

lemma call_id_text: "dec_int (sint (x :: 32 word)) = dec_int (sint y) \<longleftrightarrow> x = y"
  by (simp add: dec_int_inject word_eq_iff_signed [symmetric])

lemma reply_nonempty: "reply_ok msg i \<Longrightarrow> msg \<noteq> []"
proof (rule notI)
  assume "reply_ok msg i" "msg = []"
  then obtain strict name ty body where "enc_header strict name ty i @ body = []" by (auto simp: reply_ok_def)
  moreover have "4 \<le> length (enc_header strict name ty i)" by (simp add: enc_header_def)
  ultimately show False by simp
qed

section \<open>The way there\<close>

lemma send_calls_ok:
  assumes "cw_conns w d \<noteq> None" "\<forall>c\<in>set cs. rq_request c \<noteq> [] \<and> length (rq_request c) < 2 ^ 31"
  shows "send_calls h d cs w = Inr (concat (map (\<lambda>c. frame (rq_request c)) cs),
    w\<lparr>cw_contexts := foldl add_call (cw_contexts w) cs\<rparr>)"
  using assms
proof (induction cs arbitrary: w)
  case (Cons c cs)
  obtain mb where mb: "new_TMemoryBuffer_from (rq_request c) COPY = Inr mb" "mb_inv mb" "mb_bytes mb = rq_request c"
    using new_from_ok [of "rq_request c" COPY] Cons.prems(2) by auto
  then obtain b where "GetWriteBuf h mb = Inr (0, b)" "contents b = frame (rq_request c)" using GetWriteBuf_frame [OF mb(2)] Cons.prems(2) by auto
  then have "SendTransportReq h (Some d) mb (sync_ctx (rq_id c)) w =
      Inr (Some (d, frame (rq_request c)), w\<lparr>cw_contexts := add_call (cw_contexts w) c\<rparr>)"
    using Cons.prems(1) by (auto simp: SendTransportReq_def sync_ctx_def add_call_def)
  moreover have "send_calls h d cs (w\<lparr>cw_contexts := m\<rparr>) = Inr (concat (map (\<lambda>c. frame (rq_request c)) cs),
      w\<lparr>cw_contexts := foldl add_call m cs\<rparr>)" for m
    using Cons.IH [of "w\<lparr>cw_contexts := m\<rparr>"] Cons.prems by simp
  ultimately show ?case using mb(1) by simp
qed simp

text \<open>Every identifier sent has its context.\<close>

lemma sent_contexts: "distinct (map rq_id cs) \<Longrightarrow> c \<in> set cs \<Longrightarrow>
    foldl add_call m cs (dec_int (sint (rq_id c))) = Some (sync_ctx (rq_id c))"
proof (induction cs rule: rev_induct)
  case (snoc e cs)
  then show ?case by (cases "rq_id c = rq_id e") (auto simp: call_id_text add_call_def)
qed simp

section \<open>The way back\<close>

lemma split_replies: "\<forall>d\<in>set ds. length d < 2 ^ 31 \<Longrightarrow> \<exists>n'. split_frames kExpectFrameSize n (concat (map frame ds)) = (ds, kExpectFrameSize, n', [])"
proof (induction ds arbitrary: n)
  case Nil
  then show ?case by (simp add: split_frames.simps)
next
  case (Cons d ds)
  then obtain n' where "split_frames kExpectFrameSize (of_nat (length d)) (concat (map frame ds)) = (ds, kExpectFrameSize, n', [])" by fastforce
  then show ?case using split_frames_frame [of d n "concat (map frame ds)"] Cons.prems by simp
qed

lemma replies_delivered:
  assumes "distinct (map rq_id cs)" "\<forall>c\<in>set cs. reply_ok (rq_reply c) (rq_id c)"
    and "\<forall>c\<in>set cs. cw_contexts w (dec_int (sint (rq_id c))) = Some (sync_ctx (rq_id c))"
  shows "\<exists>w'. rfold (HandleThriftMsg h d) (map rq_reply cs) w = Inr w' \<and>
    cw_delivered w' = cw_delivered w @ map (\<lambda>c. (dec_int (sint (rq_id c)), rq_reply c)) cs \<and>
    (\<forall>c\<in>set cs. cw_contexts w' (dec_int (sint (rq_id c))) = None) \<and>
    (\<forall>k. (\<forall>c\<in>set cs. k \<noteq> dec_int (sint (rq_id c))) \<longrightarrow> cw_contexts w' k = cw_contexts w k)"
  using assms
proof (induction cs arbitrary: w)
  case (Cons c cs)
  let ?i = "dec_int (sint (rq_id c))"
  let ?w = "w\<lparr>cw_delivered := cw_delivered w @ [(?i, rq_reply c)], cw_contexts := (cw_contexts w)(?i := None)\<rparr>"
  have h: "HandleThriftMsg h d (rq_reply c) w = Inr ?w" using reply_handled(1) [of "rq_reply c" "rq_id c" w h d] Cons.prems by (simp add: sync_ctx_def)
  have ne: "?i \<noteq> dec_int (sint (rq_id e))" if "e \<in> set cs" for e using that Cons.prems(1) by (auto simp: call_id_text)
  then have "\<forall>e\<in>set cs. cw_contexts ?w (dec_int (sint (rq_id e))) = Some (sync_ctx (rq_id e))" using Cons.prems(3) by fastforce
  from Cons.IH [OF _ _ this] Cons.prems obtain w' where w': "rfold (HandleThriftMsg h d) (map rq_reply cs) ?w = Inr w'"
    "cw_delivered w' = cw_delivered ?w @ map (\<lambda>c. (dec_int (sint (rq_id c)), rq_reply c)) cs"
    "\<forall>e\<in>set cs. cw_contexts w' (dec_int (sint (rq_id e))) = None"
    "\<And>k. \<forall>e\<in>set cs. k \<noteq> dec_int (sint (rq_id e)) \<Longrightarrow> cw_contexts w' k = cw_contexts ?w k" by auto
  have "cw_contexts w' ?i = None" using w'(4) [of ?i] ne by simp
  moreover have "cw_contexts w' k = cw_contexts w k" if "\<forall>e\<in>set (c # cs). k \<noteq> dec_int (sint (rq_id e))" for k using w'(4) [of k] that by simp
  ultimately show ?case using h w'(1-3) by simp
qed simp

lemma answers_delivered:
  assumes "cw_conns w d = Some x" "wc_state x = kExpectFrameSize" "distinct (map rq_id cs)" "\<forall>c\<in>set cs. reply_ok (rq_reply c) (rq_id c) \<and> length (rq_reply c) < 2 ^ 31"
    and "\<forall>c\<in>set cs. cw_contexts w (dec_int (sint (rq_id c))) = Some (sync_ctx (rq_id c))"
    and "concat chunks = concat (map (\<lambda>c. frame (rq_reply c)) cs)" "2 * length (concat chunks) \<le> vec_max - kCheapPrepend"
  shows "\<exists>b' w'. rfold (feed h d) chunks (new_buffer, w) = Inr (b', w') \<and> contents b' = [] \<and>
    cw_delivered w' = cw_delivered w @ map (\<lambda>c. (dec_int (sint (rq_id c)), rq_reply c)) cs \<and>
    (\<forall>c\<in>set cs. cw_contexts w' (dec_int (sint (rq_id c))) = None) \<and>
    (\<forall>k. (\<forall>c\<in>set cs. k \<noteq> dec_int (sint (rq_id c))) \<longrightarrow> cw_contexts w' k = cw_contexts w k)"
proof -
  obtain w1 where w1: "rfold (HandleThriftMsg h d) (map rq_reply cs) w = Inr w1"
    "cw_delivered w1 = cw_delivered w @ map (\<lambda>c. (dec_int (sint (rq_id c)), rq_reply c)) cs"
    "\<forall>c\<in>set cs. cw_contexts w1 (dec_int (sint (rq_id c))) = None"
    "\<forall>k. (\<forall>c\<in>set cs. k \<noteq> dec_int (sint (rq_id c))) \<longrightarrow> cw_contexts w1 k = cw_contexts w k"
    using replies_delivered [of cs w h d] assms(3-5) by auto
  obtain n where n: "split_frames kExpectFrameSize (wc_want_size x) (concat chunks) = (map rq_reply cs, kExpectFrameSize, n, [])"
    using split_replies [of "map rq_reply cs"] assms(4,6) by (auto simp: comp_def)
  have "split_frames (wc_state x) (wc_want_size x) (contents new_buffer) = ([], wc_state x, wc_want_size x, contents new_buffer)"
    using assms(2) by (simp add: split_frames.simps)
  from feed_chunks [OF buf_wf_new assms(1) _ this _ w1(1), of chunks] n assms(2,7) obtain b' x' where
    "rfold (feed h d) chunks (new_buffer, w) = Inr (b', w1\<lparr>cw_conns := (cw_conns w)(d \<mapsto> x')\<rparr>)" "contents b' = []" by auto
  with w1(2-4) show ?thesis by auto
qed

end
