(* ===== verification/Server_List.thy ===== *)
theory Server_List
  imports Complex_Main Cthrift_Worker "HOL-Library.AList"
begin

text \<open>
  The servers a client worker knows (\<open>src/cthrift/cthrift_client_worker.cc\<close>: \<open>UpdateSvrList\<close>, \<open>AddSrv\<close>, \<open>DelSrv\<close>, \<open>ChgSrv\<close>;
  \<open>ConnInfo\<close> of \<open>cthrift_client_worker.h\<close>). An unordered map is an association
  list. The multimap from weights to clients is the list of its nodes in iteration order; a node has an identity, which
  is what an iterator refers to, and erasing through the iterator of a node that is gone is \<open>UseAfterFree\<close>.
  A \<open>TcpClient\<close> is a number. A double is a rational.
\<close>

section \<open>Services\<close>

record sgservice =
  sg_appkey :: string
  sg_version :: string
  sg_ip :: string
  sg_port :: int
  sg_weight :: int
  sg_status :: int
  sg_role :: int
  sg_envir :: int
  sg_lastUpdateTime :: int
  sg_fweight :: rat
  sg_serverType :: int
  sg_protocol :: string
  sg_serviceInfo :: "(string \<times> bool) list"
  sg_heartbeatSupport :: int
  sg_warmup :: int

definition new_SGService :: sgservice where
  "new_SGService = \<lparr>sg_appkey = '''', sg_version = '''', sg_ip = '''', sg_port = 0, sg_weight = 0, sg_status = 0, sg_role = 0, sg_envir = 0,
     sg_lastUpdateTime = 0, sg_fweight = 0, sg_serverType = 0, sg_protocol = '''', sg_serviceInfo = [], sg_heartbeatSupport = 0, sg_warmup = 0\<rparr>"

definition sg_key :: "sgservice \<Rightarrow> string" where
  "sg_key sg = sg_ip sg @ '':'' @ dec_int (sg_port sg)"

definition CheckDoubleEqual :: "rat \<Rightarrow> rat \<Rightarrow> bool" where
  "CheckDoubleEqual d1 d2 \<longleftrightarrow> \<bar>d1 - d2\<bar> < 1 / 2 ^ 52"

definition FetchOctoWeight :: "rat \<Rightarrow> rat \<Rightarrow> rat" where
  "FetchOctoWeight fweight weight = (if \<not> CheckDoubleEqual fweight weight \<and> \<not> CheckDoubleEqual fweight 0 then fweight else weight)"

definition octo_weight :: "sgservice \<Rightarrow> rat" where
  "octo_weight sg = FetchOctoWeight (sg_fweight sg) (of_int (sg_weight sg))"

definition kDFirstRegionMin :: rat where "kDFirstRegionMin = 1"
definition kDSecondRegionMin :: rat where "kDSecondRegionMin = 1 / 1000"

text \<open>The regions in their order: \<open>kRegionTypeOne\<close>, \<open>kRegionTypeTwo\<close>, \<open>kRegionTypeThree\<close>.\<close>

definition CheckRegion :: "rat \<Rightarrow> nat" where
  "CheckRegion d_weight = (if d_weight < kDSecondRegionMin then 2 else if d_weight < kDFirstRegionMin then 1 else 0)"

definition FilterAll :: "string \<Rightarrow> int \<Rightarrow> sgservice \<Rightarrow> bool" where
  "FilterAll service port sg \<longleftrightarrow> map_of (sg_serviceInfo sg) service = None \<or> port \<noteq> sg_port sg"

definition FilterService :: "string \<Rightarrow> sgservice \<Rightarrow> bool" where
  "FilterService service sg \<longleftrightarrow> map_of (sg_serviceInfo sg) service = None"

definition FilterPort :: "int \<Rightarrow> sgservice \<Rightarrow> bool" where
  "FilterPort port sg \<longleftrightarrow> port \<noteq> sg_port sg"

section \<open>Connections of the worker\<close>

record wnode =
  wn_id :: nat
  wn_weight :: rat
  wn_client :: "nat option"          \<comment> \<open>a weak pointer\<close>

record conn_info =
  ci_service :: sgservice
  ci_client :: "nat option"
  ci_index :: "nat option"

record server_list =
  sl_services :: "(string \<times> sgservice) list"     \<comment> \<open>\<open>map_ipport_sgservice_\<close>\<close>
  sl_conninfos :: "(string \<times> conn_info) list"     \<comment> \<open>\<open>map_ipport_spconninfo_\<close>\<close>
  sl_multimap :: "wnode list"                      \<comment> \<open>\<open>p_multimap_weight_wptcpcli_\<close>\<close>
  sl_fresh :: nat                                  \<comment> \<open>the next identity of a node or a client\<close>
  sl_connecting :: "(nat \<times> string \<times> 16 word) list"   \<comment> \<open>history: clients created, with their address\<close>

definition new_server_list :: server_list where
  "new_server_list = \<lparr>sl_services = [], sl_conninfos = [], sl_multimap = [], sl_fresh = 0, sl_connecting = []\<rparr>"

text \<open>The multimap is ordered by falling weight; an insertion goes behind the nodes of the same weight.\<close>

definition mm_insert :: "rat \<Rightarrow> nat option \<Rightarrow> server_list \<Rightarrow> nat \<times> server_list" where
  "mm_insert weight cl s =
     (let n = \<lparr>wn_id = sl_fresh s, wn_weight = weight, wn_client = cl\<rparr>;
          before = takeWhile (\<lambda>m. weight \<le> wn_weight m) (sl_multimap s)
      in (sl_fresh s, s\<lparr>sl_multimap := before @ n # drop (length before) (sl_multimap s), sl_fresh := Suc (sl_fresh s)\<rparr>))"

definition mm_erase :: "nat option \<Rightarrow> server_list \<Rightarrow> server_list result" where
  "mm_erase it s =
     (case it of
        None \<Rightarrow> Inl UseAfterFree
      | Some i \<Rightarrow> if i \<in> wn_id ` set (sl_multimap s)
                  then Inr (s\<lparr>sl_multimap := filter (\<lambda>n. wn_id n \<noteq> i) (sl_multimap s)\<rparr>)
                  else Inl UseAfterFree)"

definition UptSgservice :: "sgservice \<Rightarrow> conn_info \<Rightarrow> server_list \<Rightarrow> (conn_info \<times> server_list) result" where
  "UptSgservice sg ci s =
     (let d_old = octo_weight (ci_service ci); d_new = octo_weight sg
      in rbind (if CheckDoubleEqual d_old d_new then Inr (ci, s)
                else rbind (mm_erase (ci_index ci) s) (\<lambda>s1.
                       let (it, s2) = mm_insert d_new (ci_client ci) s1 in Inr (ci\<lparr>ci_index := Some it\<rparr>, s2)))
           (\<lambda>(ci', s'). Inr (ci'\<lparr>ci_service := sg\<rparr>, s')))"

text \<open>Replacing a client prints the peer of the old one's connection, which \<open>old_up\<close> says is there.\<close>

definition setSp_tcpclient :: "bool \<Rightarrow> nat \<Rightarrow> conn_info \<Rightarrow> server_list \<Rightarrow> (conn_info \<times> server_list) result" where
  "setSp_tcpclient old_up cl ci s =
     rbind (if ci_client ci = None then Inr s else if \<not> old_up then Inl UseAfterFree else mm_erase (ci_index ci) s) (\<lambda>s1.
       let (it, s2) = mm_insert (octo_weight (ci_service ci)) (Some cl) s1
       in Inr (ci\<lparr>ci_client := Some cl, ci_index := Some it\<rparr>, s2))"

definition new_ConnInfo :: "sgservice \<Rightarrow> conn_info" where
  "new_ConnInfo sg = \<lparr>ci_service = sg, ci_client = None, ci_index = None\<rparr>"

definition destroy_ConnInfo :: "conn_info \<Rightarrow> server_list \<Rightarrow> server_list result" where
  "destroy_ConnInfo ci s = mm_erase (ci_index ci) s"

section \<open>The list of servers\<close>

definition add_server :: "sgservice \<Rightarrow> server_list \<Rightarrow> server_list result" where
  "add_server sg s =
     (let cl = sl_fresh s
      in rbind (setSp_tcpclient False cl (new_ConnInfo sg)
                  (s\<lparr>sl_fresh := Suc cl, sl_connecting := sl_connecting s @ [(cl, sg_ip sg, of_int (sg_port sg))]\<rparr>)) (\<lambda>(ci, s1).
           Inr (s1\<lparr>sl_conninfos := sl_conninfos s1 @ [(sg_key sg, ci)]\<rparr>)))"

text \<open>The loop of \<open>AddSrv\<close>: known servers are put aside for \<open>ChgSrv\<close>.\<close>

fun add_loop :: "sgservice list \<Rightarrow> server_list \<Rightarrow> (sgservice list \<times> server_list) result" where
  "add_loop [] s = Inr ([], s)"
| "add_loop (sg # sgs) s =
     (case map_of (sl_conninfos s) (sg_key sg) of
        Some ci \<Rightarrow> rbind (add_loop sgs s) (\<lambda>(chg, s'). Inr (sg # chg, s'))
      | None \<Rightarrow> rbind (add_server sg s) (add_loop sgs))"

text \<open>The loop of \<open>ChgSrv\<close>: unknown servers are put aside for \<open>AddSrv\<close>.\<close>

fun chg_loop :: "sgservice list \<Rightarrow> server_list \<Rightarrow> (sgservice list \<times> server_list) result" where
  "chg_loop [] s = Inr ([], s)"
| "chg_loop (sg # sgs) s =
     (case map_of (sl_conninfos s) (sg_key sg) of
        None \<Rightarrow> rbind (chg_loop sgs s) (\<lambda>(new, s'). Inr (sg # new, s'))
      | Some ci \<Rightarrow> rbind (UptSgservice sg ci s) (\<lambda>(ci', s1).
          chg_loop sgs (s1\<lparr>sl_conninfos := AList.update (sg_key sg) ci' (sl_conninfos s1)\<rparr>)))"

definition DelSrv :: "sgservice list \<Rightarrow> server_list \<Rightarrow> server_list" where
  "DelSrv sgs s = s"

lemma mm_insert_conninfos: "mm_insert w c s = (i, s') \<Longrightarrow> sl_conninfos s' = sl_conninfos s"
  by (auto simp: mm_insert_def Let_def)

lemma mm_erase_conninfos: "mm_erase i s = Inr s' \<Longrightarrow> sl_conninfos s' = sl_conninfos s"
  by (auto simp: mm_erase_def split: option.splits if_splits)

lemma UptSgservice_conninfos:
  assumes "UptSgservice sg ci s = Inr (ci', s')"
  shows "sl_conninfos s' = sl_conninfos s"
proof (cases "CheckDoubleEqual (octo_weight (ci_service ci)) (octo_weight sg)")
  case True
  then show ?thesis using assms by (simp add: UptSgservice_def)
next
  case False
  then obtain s1 where s1: "mm_erase (ci_index ci) s = Inr s1" using assms by (cases "mm_erase (ci_index ci) s") (simp_all add: UptSgservice_def)
  then show ?thesis using assms False mm_erase_conninfos [OF s1] by (auto simp: UptSgservice_def mm_insert_def Let_def)
qed

lemma add_server_keys: "add_server sg s = Inr s' \<Longrightarrow> map fst (sl_conninfos s') = map fst (sl_conninfos s) @ [sg_key sg]"
  by (auto simp: add_server_def setSp_tcpclient_def new_ConnInfo_def Let_def rbind_Inr_iff split: prod.splits dest: mm_insert_conninfos)

lemma update_keys: "map_of m k \<noteq> None \<Longrightarrow> fst ` set (AList.update k v m) = fst ` set m"
  by (simp add: dom_map_of_conv_image_fst [symmetric] update_conv') (auto simp: dom_def)

text \<open>What is put aside by one loop has no work left for the other.\<close>

definition unknown :: "sgservice list \<Rightarrow> server_list \<Rightarrow> nat" where
  "unknown sgs s = length (filter (\<lambda>sg. map_of (sl_conninfos s) (sg_key sg) = None) sgs)"

lemma add_loop_known:
  "add_loop sgs s = Inr (chg, s') \<Longrightarrow> fst ` set (sl_conninfos s) \<subseteq> fst ` set (sl_conninfos s') \<and> (\<forall>sg\<in>set chg. sg_key sg \<in> fst ` set (sl_conninfos s'))"
proof (induction sgs arbitrary: s chg)
  case (Cons sg sgs)
  show ?case
  proof (cases "map_of (sl_conninfos s) (sg_key sg)")
    case None
    then obtain s1 where s1: "add_server sg s = Inr s1" "add_loop sgs s1 = Inr (chg, s')" using Cons.prems by (auto simp: rbind_Inr_iff)
    have "fst ` set (sl_conninfos s1) = insert (sg_key sg) (fst ` set (sl_conninfos s))"
      using arg_cong [OF add_server_keys [OF s1(1)], of set] by auto
    then show ?thesis using Cons.IH [OF s1(2)] by auto
  next
    case (Some ci)
    then obtain chg' where "add_loop sgs s = Inr (chg', s')" "chg = sg # chg'" using Cons.prems by (auto simp: rbind_Inr_iff)
    moreover have "sg_key sg \<in> fst ` set (sl_conninfos s)" using Some by (metis map_of_eq_None_iff option.distinct(1))
    ultimately show ?thesis using Cons.IH [of s chg'] by auto
  qed
qed simp

lemma chg_loop_unknown:
  "chg_loop sgs s = Inr (new, s') \<Longrightarrow> fst ` set (sl_conninfos s') = fst ` set (sl_conninfos s) \<and> length new = unknown sgs s \<and> unknown new s' = unknown sgs s"
proof (induction sgs arbitrary: s new)
  case Nil
  then show ?case by (simp add: unknown_def)
next
  case (Cons sg sgs)
  show ?case
  proof (cases "map_of (sl_conninfos s) (sg_key sg)")
    case None
    then obtain new' where n: "chg_loop sgs s = Inr (new', s')" "new = sg # new'" using Cons.prems by (auto simp: rbind_Inr_iff)
    from Cons.IH [OF n(1)] None n(2) show ?thesis by (auto simp: unknown_def map_of_eq_None_iff)
  next
    case (Some ci)
    then obtain ci' s1 where c: "UptSgservice sg ci s = Inr (ci', s1)"
      "chg_loop sgs (s1\<lparr>sl_conninfos := AList.update (sg_key sg) ci' (sl_conninfos s1)\<rparr>) = Inr (new, s')" using Cons.prems by (auto simp: rbind_Inr_iff)
    let ?s = "s1\<lparr>sl_conninfos := AList.update (sg_key sg) ci' (sl_conninfos s1)\<rparr>"
    have k: "fst ` set (sl_conninfos ?s) = fst ` set (sl_conninfos s)"
      using update_keys [of "sl_conninfos s" "sg_key sg" ci'] UptSgservice_conninfos [OF c(1)] Some by simp
    then have "unknown sgs ?s = unknown sgs s" "unknown (sg # sgs) s = unknown sgs s"
      using Some by (simp_all only: unknown_def map_of_eq_None_iff k) (force simp: unknown_def dest: map_of_SomeD)
    then show ?thesis using Cons.IH [OF c(2)] k by simp
  qed
qed

function AddSrv :: "sgservice list \<Rightarrow> server_list \<Rightarrow> server_list result"
  and ChgSrv :: "sgservice list \<Rightarrow> server_list \<Rightarrow> server_list result" where
  "AddSrv sgs s = rbind (add_loop sgs s) (\<lambda>r. if fst r = [] then Inr (snd r) else ChgSrv (fst r) (snd r))"
| "ChgSrv sgs s = rbind (chg_loop sgs s) (\<lambda>r. if fst r = [] then Inr (snd r) else AddSrv (fst r) (snd r))"
  by pat_completeness auto
termination
proof (relation "measure (\<lambda>x. case x of Inl (sgs, s) \<Rightarrow> unknown sgs s + 1 | Inr (sgs, s) \<Rightarrow> if unknown sgs s = 0 then 0 else unknown sgs s + 2)")
  fix sgs s r assume "add_loop sgs s = Inr r"
  then have "unknown (fst r) (snd r) = 0" using add_loop_known [of sgs s "fst r" "snd r"] by (auto simp: unknown_def map_of_eq_None_iff)
  then show "(Inr (fst r, snd r), Inl (sgs, s)) \<in> measure (\<lambda>x. case x of Inl (sgs, s) \<Rightarrow> unknown sgs s + 1 | Inr (sgs, s) \<Rightarrow> if unknown sgs s = 0 then 0 else unknown sgs s + 2)"
    by (simp add: case_prod_unfold)
next
  fix sgs s r assume "chg_loop sgs s = Inr r" "fst r \<noteq> []"
  then have "unknown (fst r) (snd r) = unknown sgs s" "unknown sgs s \<noteq> 0" using chg_loop_unknown [of sgs s "fst r" "snd r"] by (auto simp flip: length_greater_0_conv)
  then show "(Inl (fst r, snd r), Inr (sgs, s)) \<in> measure (\<lambda>x. case x of Inl (sgs, s) \<Rightarrow> unknown sgs s + 1 | Inr (sgs, s) \<Rightarrow> if unknown sgs s = 0 then 0 else unknown sgs s + 2)"
    by (simp add: case_prod_unfold)
qed simp

declare AddSrv.simps [simp del] ChgSrv.simps [simp del]

text \<open>\<open>insert\<close> of an unordered map keeps a value that is there.\<close>

definition um_insert :: "string \<Rightarrow> 'v \<Rightarrow> (string \<times> 'v) list \<Rightarrow> (string \<times> 'v) list" where
  "um_insert k v m = (if map_of m k = None then m @ [(k, v)] else m)"

text \<open>The first list: what is stored and what is to be added.\<close>

fun init_loop :: "sgservice list \<Rightarrow> (string \<times> sgservice) list \<Rightarrow> (string \<times> sgservice) list \<times> sgservice list" where
  "init_loop [] m = (m, [])"
| "init_loop (sg # sgs) m =
     (if sg_status sg \<noteq> 2 then init_loop sgs m
      else let (m', add) = init_loop sgs (um_insert (sg_key sg) sg m) in (m', sg # add))"

text \<open>A later list against the stored one: the new map, the entries not seen yet, what is to be added and changed.\<close>

fun diff_loop :: "sgservice list \<Rightarrow> (string \<times> sgservice) list \<Rightarrow> (string \<times> sgservice) list \<Rightarrow>
    (string \<times> sgservice) list \<times> (string \<times> sgservice) list \<times> sgservice list \<times> sgservice list" where
  "diff_loop [] m gone = (m, gone, [], [])"
| "diff_loop (sg # sgs) m gone =
     (if sg_status sg \<noteq> 2 then diff_loop sgs m gone
      else case map_of m (sg_key sg) of
             None \<Rightarrow> let (m', g', add, chg) = diff_loop sgs (m @ [(sg_key sg, sg)]) gone in (m', g', sg # add, chg)
           | Some old \<Rightarrow>
               if old \<noteq> sg
               then let (m', g', add, chg) = diff_loop sgs (AList.update (sg_key sg) sg m) (AList.delete (sg_key sg) gone)
                    in (m', g', add, sg # chg)
               else diff_loop sgs m (AList.delete (sg_key sg) gone))"

definition UpdateSvrList :: "sgservice list \<Rightarrow> server_list \<Rightarrow> server_list result" where
  "UpdateSvrList vec s =
     (let (m, add, del, chg) =
        (if sl_services s = [] \<and> vec = [] then ([], [], [], [])
         else if sl_services s = [] then (let (m, add) = init_loop vec [] in (m, add, [], []))
         else if vec = [] then ([], [], map snd (sl_services s), [])
         else let (m, gone, add, chg) = diff_loop vec (sl_services s) (sl_services s)
              in (filter (\<lambda>(k, _). map_of gone k = None) m, add, map snd gone, chg))
      in rbind (AddSrv add (s\<lparr>sl_services := m\<rparr>)) (\<lambda>s1. ChgSrv chg (DelSrv del s1)))"

text \<open>The worker's own list when the user gave an address, and the end of the worker.\<close>

definition user_service :: "string \<Rightarrow> 16 word \<Rightarrow> sgservice" where
  "user_service ip port = new_SGService\<lparr>sg_ip := ip, sg_status := 2, sg_fweight := 10, sg_weight := 10, sg_port := sint port\<rparr>"

definition ClearTcpClient :: "server_list \<Rightarrow> server_list result" where
  "ClearTcpClient s =
     rbind (rfold (\<lambda>(k, ci). destroy_ConnInfo ci) (sl_conninfos s) s) (\<lambda>s1. Inr (s1\<lparr>sl_conninfos := [], sl_multimap := []\<rparr>))"

section \<open>Well-formed lists\<close>

text \<open>The multimap is ordered, its nodes are the indices of the connection infos, one for one, and hold their clients.\<close>

definition mm_ok :: "server_list \<Rightarrow> bool" where
  "mm_ok s \<longleftrightarrow> sorted_wrt (\<lambda>m n. wn_weight n \<le> wn_weight m) (sl_multimap s) \<and> distinct (map wn_id (sl_multimap s)) \<and>
     (\<forall>n\<in>set (sl_multimap s). wn_id n < sl_fresh s)"

definition info_node :: "conn_info \<Rightarrow> wnode \<Rightarrow> bool" where
  "info_node ci n \<longleftrightarrow> ci_index ci = Some (wn_id n) \<and> ci_client ci = wn_client n \<and> wn_client n \<noteq> None"

definition sl_inv :: "server_list \<Rightarrow> bool" where
  "sl_inv s \<longleftrightarrow> mm_ok s \<and> distinct (map fst (sl_conninfos s)) \<and>
     (\<forall>k ci. map_of (sl_conninfos s) k = Some ci \<longrightarrow> k = sg_key (ci_service ci) \<and> (\<exists>n\<in>set (sl_multimap s). info_node ci n)) \<and>
     (\<forall>n\<in>set (sl_multimap s). \<exists>k ci. map_of (sl_conninfos s) k = Some ci \<and> info_node ci n) \<and>
     (\<forall>k k' ci ci'. map_of (sl_conninfos s) k = Some ci \<and> map_of (sl_conninfos s) k' = Some ci' \<and> ci_index ci = ci_index ci' \<longrightarrow> k = k')"

lemma sorted_insert_mid:
  assumes "sorted_wrt (\<lambda>m n. wn_weight n \<le> wn_weight m) xs" "ys = takeWhile (\<lambda>m. w \<le> wn_weight m) xs" "wn_weight n = w"
  shows "sorted_wrt (\<lambda>m n. wn_weight n \<le> wn_weight m) (ys @ n # drop (length ys) xs)"
proof -
  have d: "drop (length ys) xs = dropWhile (\<lambda>m. w \<le> wn_weight m) xs" using assms(2) by (simp add: dropWhile_eq_drop)
  have s: "sorted_wrt (\<lambda>m n. wn_weight n \<le> wn_weight m) (ys @ dropWhile (\<lambda>m. w \<le> wn_weight m) xs)" using assms(1,2) by simp
  have "wn_weight m \<le> w" if m: "m \<in> set (dropWhile (\<lambda>m. w \<le> wn_weight m) xs)" for m
  proof -
    obtain z zs where z: "dropWhile (\<lambda>m. w \<le> wn_weight m) xs = z # zs" using list.set_cases [OF m] by metis
    have "wn_weight z < w" using hd_dropWhile [of "\<lambda>m. w \<le> wn_weight m" xs] z by simp
    moreover have "wn_weight m \<le> wn_weight z" using m s unfolding z by (auto simp: sorted_wrt_append)
    ultimately show ?thesis by simp
  qed
  moreover have "w \<le> wn_weight m" if "m \<in> set ys" for m using that assms(2) by (auto dest: set_takeWhileD)
  ultimately show ?thesis using s assms(3) unfolding d by (auto simp: sorted_wrt_append)
qed

lemma mm_insert_ok:
  assumes "mm_ok s"
  shows "\<exists>s'. mm_insert w cl s = (sl_fresh s, s') \<and> mm_ok s' \<and> sl_fresh s' = Suc (sl_fresh s) \<and> sl_services s' = sl_services s \<and> sl_conninfos s' = sl_conninfos s \<and>
    set (sl_multimap s') = insert \<lparr>wn_id = sl_fresh s, wn_weight = w, wn_client = cl\<rparr> (set (sl_multimap s))"
proof -
  let ?xs = "sl_multimap s" and ?n = "\<lparr>wn_id = sl_fresh s, wn_weight = w, wn_client = cl\<rparr>"
  define ys where "ys = takeWhile (\<lambda>m. w \<le> wn_weight m) ?xs"
  have app: "ys @ drop (length ys) ?xs = ?xs" unfolding ys_def by (metis dropWhile_eq_drop takeWhile_dropWhile_id)
  have st: "set (ys @ ?n # drop (length ys) ?xs) = insert ?n (set ?xs)" using arg_cong [OF app, of set] by auto
  have "distinct (map wn_id (ys @ drop (length ys) ?xs))" "sl_fresh s \<notin> wn_id ` set (ys @ drop (length ys) ?xs)"
    unfolding app using assms by (auto simp: mm_ok_def)
  then have "distinct (map wn_id (ys @ ?n # drop (length ys) ?xs))" by auto
  moreover have "sorted_wrt (\<lambda>m n. wn_weight n \<le> wn_weight m) (ys @ ?n # drop (length ys) ?xs)"
    using assms by (intro sorted_insert_mid [where w = w]) (simp_all add: mm_ok_def ys_def)
  ultimately have "mm_ok (s\<lparr>sl_multimap := ys @ ?n # drop (length ys) ?xs, sl_fresh := Suc (sl_fresh s)\<rparr>)"
    using assms st unfolding mm_ok_def by (auto simp: less_Suc_eq)
  then show ?thesis using st by (simp add: mm_insert_def Let_def ys_def)
qed

lemma mm_erase_ok:
  assumes "mm_ok s" "n \<in> set (sl_multimap s)"
  shows "\<exists>s'. mm_erase (Some (wn_id n)) s = Inr s' \<and> mm_ok s' \<and> sl_fresh s' = sl_fresh s \<and> sl_services s' = sl_services s \<and> sl_conninfos s' = sl_conninfos s \<and>
    set (sl_multimap s') = set (sl_multimap s) - {n}"
proof -
  let ?f = "filter (\<lambda>m. wn_id m \<noteq> wn_id n) (sl_multimap s)"
  have "set ?f = set (sl_multimap s) - {n}" using assms by (auto simp: mm_ok_def distinct_map dest: inj_onD)
  moreover have "mm_ok (s\<lparr>sl_multimap := ?f\<rparr>)" using assms(1) by (auto simp: mm_ok_def sorted_wrt_filter distinct_map_filter)
  ultimately show ?thesis using assms(2) by (simp add: mm_erase_def)
qed

lemma sl_invD:
  assumes "sl_inv s" "map_of (sl_conninfos s) k = Some ci"
  shows "k = sg_key (ci_service ci) \<and> (\<exists>n\<in>set (sl_multimap s). info_node ci n)"
  using assms unfolding sl_inv_def by blast

lemma sl_inv_index:
  assumes "sl_inv s" "map_of (sl_conninfos s) k = Some ci" "map_of (sl_conninfos s) k' = Some ci'" "ci_index ci = ci_index ci'"
  shows "k = k'"
  using assms unfolding sl_inv_def by blast

text \<open>A node is replaced or added together with the info it belongs to.\<close>

lemma sl_inv_put:
  assumes "sl_inv s" "mm_ok s'" "distinct (map fst (sl_conninfos s'))" "map_of (sl_conninfos s') = (map_of (sl_conninfos s))(k \<mapsto> ci)"
    and "k = sg_key (ci_service ci)" "info_node ci n"
    and "set (sl_multimap s') = insert n {m \<in> set (sl_multimap s). \<forall>c. map_of (sl_conninfos s) k = Some c \<longrightarrow> \<not> info_node c m}"
    and "\<forall>m\<in>set (sl_multimap s). wn_id m = wn_id n \<longrightarrow> (\<exists>c. map_of (sl_conninfos s) k = Some c \<and> info_node c m)"
  shows "sl_inv s'"
proof -
  have other: "\<exists>m\<in>set (sl_multimap s'). info_node c m" if c: "map_of (sl_conninfos s) j = Some c" "j \<noteq> k" for j c
  proof -
    obtain m where m: "m \<in> set (sl_multimap s)" "info_node c m" using sl_invD [OF assms(1) c(1)] by blast
    moreover have "\<not> info_node c' m" if "map_of (sl_conninfos s) k = Some c'" for c'
      using sl_inv_index [OF assms(1) c(1) that] m(2) c(2) by (auto simp: info_node_def)
    ultimately show ?thesis using assms(7) by blast
  qed
  have old: "ci_index c \<noteq> ci_index ci" if c: "map_of (sl_conninfos s) j = Some c" "j \<noteq> k" for j c
  proof
    assume e: "ci_index c = ci_index ci"
    obtain m where m: "m \<in> set (sl_multimap s)" "info_node c m" using sl_invD [OF assms(1) c(1)] by blast
    then have "wn_id m = wn_id n" using e assms(6) by (simp add: info_node_def)
    then obtain c' where "map_of (sl_conninfos s) k = Some c'" "info_node c' m" using assms(8) m(1) by blast
    then show False using sl_inv_index [OF assms(1) c(1)] m(2) c(2) by (auto simp: info_node_def)
  qed
  show ?thesis unfolding sl_inv_def
  proof (intro conjI allI ballI impI)
    fix j c assume "map_of (sl_conninfos s') j = Some c"
    then show "j = sg_key (ci_service c)" "\<exists>m\<in>set (sl_multimap s'). info_node c m"
      using other assms(4-7) sl_invD [OF assms(1), of j c] by (auto split: if_splits)
  next
    fix m assume "m \<in> set (sl_multimap s')"
    then consider "m = n" | "m \<in> set (sl_multimap s)" "\<forall>c. map_of (sl_conninfos s) k = Some c \<longrightarrow> \<not> info_node c m" using assms(7) by blast
    then show "\<exists>j c. map_of (sl_conninfos s') j = Some c \<and> info_node c m"
    proof cases
      case 1
      then show ?thesis using assms(4,6) by auto
    next
      case 2
      then obtain j c where "map_of (sl_conninfos s) j = Some c" "info_node c m" using assms(1) unfolding sl_inv_def by blast
      moreover from this 2 have "j \<noteq> k" by blast
      ultimately show ?thesis using assms(4) by auto
    qed
  next
    fix j j' c c' assume a: "map_of (sl_conninfos s') j = Some c \<and> map_of (sl_conninfos s') j' = Some c' \<and> ci_index c = ci_index c'"
    show "j = j'"
    proof (cases "j = k \<or> j' = k")
      case True
      then show ?thesis using a old assms(4) by (auto split: if_splits)
    next
      case False
      then show ?thesis using a sl_inv_index [OF assms(1), of j c j' c'] assms(4) by simp
    qed
  qed (use assms(2,3) in auto)
qed

section \<open>Changes keep the lists well-formed\<close>

lemma sl_inv_node_unique:
  assumes "sl_inv s" "map_of (sl_conninfos s) k = Some ci" "info_node ci n" "n \<in> set (sl_multimap s)"
  shows "{m \<in> set (sl_multimap s). \<forall>c. map_of (sl_conninfos s) k = Some c \<longrightarrow> \<not> info_node c m} = set (sl_multimap s) - {n}"
  using assms by (auto simp: sl_inv_def mm_ok_def info_node_def distinct_map dest: inj_onD)

lemma distinct_update: "distinct (map fst m) \<Longrightarrow> distinct (map fst (AList.update k v m))"
  by (rule AList.distinct_update)

lemma UptSgservice_ok:
  assumes "sl_inv s" "map_of (sl_conninfos s) (sg_key sg) = Some ci"
  shows "\<exists>ci' s1. UptSgservice sg ci s = Inr (ci', s1) \<and> ci_service ci' = sg \<and> sl_services s1 = sl_services s \<and> sl_conninfos s1 = sl_conninfos s \<and>
    sl_inv (s1\<lparr>sl_conninfos := AList.update (sg_key sg) ci' (sl_conninfos s1)\<rparr>)"
proof -
  have ok: "mm_ok s" "distinct (map fst (sl_conninfos s))" using assms(1) by (simp_all add: sl_inv_def)
  obtain n where n: "n \<in> set (sl_multimap s)" "info_node ci n" using sl_invD [OF assms] by blast
  note nodes = sl_inv_node_unique [OF assms n(2,1)]
  have uniq: "m = n" if "m \<in> set (sl_multimap s)" "wn_id m = wn_id n" for m
    using that n(1) ok(1) by (auto simp: mm_ok_def distinct_map dest: inj_onD)
  show ?thesis
  proof (cases "CheckDoubleEqual (octo_weight (ci_service ci)) (octo_weight sg)")
    case True
    let ?ci = "ci\<lparr>ci_service := sg\<rparr>" and ?s = "s\<lparr>sl_conninfos := AList.update (sg_key sg) (ci\<lparr>ci_service := sg\<rparr>) (sl_conninfos s)\<rparr>"
    have "sl_inv ?s"
      by (rule sl_inv_put [OF assms(1), where k = "sg_key sg" and ci = ?ci and n = n])
        (use ok n nodes assms(2) uniq in \<open>auto simp: mm_ok_def info_node_def update_conv' distinct_update\<close>)
    then show ?thesis using True by (simp add: UptSgservice_def)
  next
    case False
    obtain s1 where s1: "mm_erase (ci_index ci) s = Inr s1" "mm_ok s1" "sl_fresh s1 = sl_fresh s" "sl_services s1 = sl_services s"
      "sl_conninfos s1 = sl_conninfos s" "set (sl_multimap s1) = set (sl_multimap s) - {n}"
      using mm_erase_ok [OF ok(1) n(1)] n(2) by (auto simp: info_node_def)
    let ?n = "\<lparr>wn_id = sl_fresh s, wn_weight = octo_weight sg, wn_client = ci_client ci\<rparr>"
    obtain s2 where s2: "mm_insert (octo_weight sg) (ci_client ci) s1 = (sl_fresh s, s2)" "mm_ok s2" "sl_services s2 = sl_services s"
      "sl_conninfos s2 = sl_conninfos s" "set (sl_multimap s2) = insert ?n (set (sl_multimap s) - {n})"
      using mm_insert_ok [OF s1(2), of "octo_weight sg" "ci_client ci"] s1 by auto
    let ?ci = "ci\<lparr>ci_index := Some (sl_fresh s), ci_service := sg\<rparr>"
    have fresh: "wn_id m \<noteq> sl_fresh s" if "m \<in> set (sl_multimap s)" for m using that ok(1) by (auto simp: mm_ok_def)
    have "sl_inv (s2\<lparr>sl_conninfos := AList.update (sg_key sg) ?ci (sl_conninfos s2)\<rparr>)"
      by (rule sl_inv_put [OF assms(1), where k = "sg_key sg" and ci = ?ci and n = ?n])
        (use ok n nodes s2 fresh in \<open>auto simp: mm_ok_def info_node_def update_conv' distinct_update\<close>)
    then show ?thesis using False s1(1) s2 by (simp add: UptSgservice_def)
  qed
qed

lemma add_server_ok:
  assumes "sl_inv s" "map_of (sl_conninfos s) (sg_key sg) = None"
  shows "\<exists>ci s'. add_server sg s = Inr s' \<and> sl_inv s' \<and> sl_services s' = sl_services s \<and>
    map_of (sl_conninfos s') = (map_of (sl_conninfos s))(sg_key sg \<mapsto> ci) \<and> ci_service ci = sg"
proof -
  let ?s = "s\<lparr>sl_fresh := Suc (sl_fresh s), sl_connecting := sl_connecting s @ [(sl_fresh s, sg_ip sg, of_int (sg_port sg))]\<rparr>"
  have ok: "mm_ok s" "distinct (map fst (sl_conninfos s))" using assms(1) by (simp_all add: sl_inv_def)
  then have "mm_ok ?s" by (auto simp: mm_ok_def less_SucI)
  let ?n = "\<lparr>wn_id = Suc (sl_fresh s), wn_weight = octo_weight sg, wn_client = Some (sl_fresh s)\<rparr>"
  obtain s2 where s2: "mm_insert (octo_weight sg) (Some (sl_fresh s)) ?s = (Suc (sl_fresh s), s2)" "mm_ok s2" "sl_services s2 = sl_services s"
    "sl_conninfos s2 = sl_conninfos s" "set (sl_multimap s2) = insert ?n (set (sl_multimap s))"
    using mm_insert_ok [OF \<open>mm_ok ?s\<close>, of "octo_weight sg" "Some (sl_fresh s)"] by auto
  let ?ci = "\<lparr>ci_service = sg, ci_client = Some (sl_fresh s), ci_index = Some (Suc (sl_fresh s))\<rparr>"
  let ?s' = "s2\<lparr>sl_conninfos := sl_conninfos s2 @ [(sg_key sg, ?ci)]\<rparr>"
  have m: "map_of (sl_conninfos ?s') = (map_of (sl_conninfos s))(sg_key sg \<mapsto> ?ci)" using assms(2) s2(4) by (auto simp: map_add_def fun_eq_iff split: option.splits)
  have fresh: "wn_id m \<noteq> Suc (sl_fresh s)" if "m \<in> set (sl_multimap s)" for m using that ok(1) by (auto simp: mm_ok_def)
  have "sg_key sg \<notin> fst ` set (sl_conninfos s)" using assms(2) by (simp add: map_of_eq_None_iff)
  then have "sl_inv ?s'"
    by (intro sl_inv_put [OF assms(1), where k = "sg_key sg" and ci = ?ci and n = ?n])
      (use ok s2 m fresh assms(2) in \<open>auto simp: mm_ok_def info_node_def\<close>)
  moreover have "add_server sg s = Inr ?s'" using s2(1) by (simp add: add_server_def setSp_tcpclient_def new_ConnInfo_def Let_def)
  ultimately show ?thesis using m s2(3) by auto
qed

text \<open>The service stored for a key, and the services of a list by key.\<close>

definition svc :: "server_list \<Rightarrow> string \<Rightarrow> sgservice option" where
  "svc s k = map_option ci_service (map_of (sl_conninfos s) k)"

definition sg_map :: "sgservice list \<Rightarrow> string \<Rightarrow> sgservice option" where
  "sg_map sgs = map_of (map (\<lambda>sg. (sg_key sg, sg)) sgs)"

lemma sg_map_Nil [simp]: "sg_map [] = Map.empty"
  by (simp add: sg_map_def)

lemma sg_map_Cons: "sg_map (sg # sgs) k = (if k = sg_key sg then Some sg else sg_map sgs k)"
  by (simp add: sg_map_def)

lemma dom_sg_map: "dom (sg_map sgs) = sg_key ` set sgs"
  by (auto simp: sg_map_def dom_map_of_conv_image_fst image_image)

lemma sg_map_filter: "sg_map (filter (\<lambda>sg. P (sg_key sg)) sgs) k = (if P k then sg_map sgs k else None)"
  by (induction sgs) (auto simp: sg_map_Cons)

lemma sg_map_notin: "sg_key sg \<notin> sg_key ` set sgs \<Longrightarrow> sg_map sgs (sg_key sg) = None"
  using dom_sg_map [of sgs] by (metis domIff)

lemma sg_map_key: "sg_map sgs k = Some sg \<Longrightarrow> sg_key sg = k"
  by (auto simp: sg_map_def dest!: map_of_SomeD)

lemma sg_map_filter_sg:
  "distinct (map sg_key sgs) \<Longrightarrow> sg_map (filter P sgs) k = (case sg_map sgs k of None \<Rightarrow> None | Some sg \<Rightarrow> if P sg then Some sg else None)"
proof (induction sgs)
  case (Cons sg sgs)
  then have "sg_map sgs (sg_key sg) = None" by (intro sg_map_notin) simp
  with Cons show ?case by (auto simp: sg_map_Cons)
qed simp

lemma svc_None: "svc s k = None \<longleftrightarrow> map_of (sl_conninfos s) k = None"
  by (simp add: svc_def)

lemma svc_update [simp]: "svc (s\<lparr>sl_conninfos := AList.update k ci (sl_conninfos s)\<rparr>) = (svc s)(k \<mapsto> ci_service ci)"
  by (auto simp: svc_def update_conv' fun_eq_iff)

lemma add_loop_ok:
  assumes "sl_inv s"
  shows "\<exists>chg s'. add_loop sgs s = Inr (chg, s') \<and> sl_inv s' \<and> sl_services s' = sl_services s \<and> dom (svc s') = dom (svc s) \<union> sg_key ` set sgs \<and>
    set chg \<subseteq> set sgs \<and> (distinct (map sg_key sgs) \<longrightarrow> svc s' = sg_map sgs ++ svc s \<and> chg = filter (\<lambda>sg. svc s (sg_key sg) \<noteq> None) sgs)"
  using assms
proof (induction sgs arbitrary: s)
  case (Cons sg sgs)
  show ?case
  proof (cases "map_of (sl_conninfos s) (sg_key sg)")
    case None
    then obtain ci s1 where 1: "add_server sg s = Inr s1" "sl_inv s1" "sl_services s1 = sl_services s"
      "map_of (sl_conninfos s1) = (map_of (sl_conninfos s))(sg_key sg \<mapsto> ci)" "ci_service ci = sg" using add_server_ok [OF Cons.prems] by blast
    have v: "svc s1 = (svc s)(sg_key sg \<mapsto> sg)" using 1(4,5) by (auto simp: svc_def fun_eq_iff)
    obtain chg s' where 2: "add_loop sgs s1 = Inr (chg, s')" "sl_inv s'" "sl_services s' = sl_services s1" "dom (svc s') = dom (svc s1) \<union> sg_key ` set sgs"
      "set chg \<subseteq> set sgs" "distinct (map sg_key sgs) \<Longrightarrow> svc s' = sg_map sgs ++ svc s1 \<and> chg = filter (\<lambda>sg. svc s1 (sg_key sg) \<noteq> None) sgs"
      using Cons.IH [OF 1(2)] by blast
    have "svc s' = sg_map (sg # sgs) ++ svc s \<and> chg = filter (\<lambda>sg. svc s (sg_key sg) \<noteq> None) (sg # sgs)" if d: "distinct (map sg_key (sg # sgs))"
    proof
      have n: "svc s (sg_key sg) = None" using None by (simp add: svc_None)
      then show "svc s' = sg_map (sg # sgs) ++ svc s" using 2(6) d v sg_map_notin [of sg sgs] by (auto simp: fun_eq_iff map_add_def sg_map_Cons split: option.splits)
      have "filter (\<lambda>sg. svc s1 (sg_key sg) \<noteq> None) sgs = filter (\<lambda>sg. svc s (sg_key sg) \<noteq> None) sgs"
        using d v by (intro filter_cong) (auto simp: image_iff)
      then show "chg = filter (\<lambda>sg. svc s (sg_key sg) \<noteq> None) (sg # sgs)" using 2(6) d n by simp
    qed
    then show ?thesis using None 1(1,3) 2(1-5) v by auto
  next
    case (Some ci)
    obtain chg s' where 2: "add_loop sgs s = Inr (chg, s')" "sl_inv s'" "sl_services s' = sl_services s" "dom (svc s') = dom (svc s) \<union> sg_key ` set sgs"
      "set chg \<subseteq> set sgs" "distinct (map sg_key sgs) \<Longrightarrow> svc s' = sg_map sgs ++ svc s \<and> chg = filter (\<lambda>sg. svc s (sg_key sg) \<noteq> None) sgs"
      using Cons.IH [OF Cons.prems] by blast
    have n: "svc s (sg_key sg) = Some (ci_service ci)" using Some by (simp add: svc_def)
    then have "sg_map (sg # sgs) ++ svc s = sg_map sgs ++ svc s" by (auto simp: fun_eq_iff map_add_def sg_map_Cons split: option.splits)
    then show ?thesis using Some 2 n by auto
  qed
qed (auto simp: map_add_def fun_eq_iff split: option.splits)

lemma chg_loop_ok:
  assumes "sl_inv s"
  shows "\<exists>s'. chg_loop sgs s = Inr (filter (\<lambda>sg. svc s (sg_key sg) = None) sgs, s') \<and> sl_inv s' \<and> sl_services s' = sl_services s \<and> dom (svc s') = dom (svc s) \<and>
    (distinct (map sg_key sgs) \<longrightarrow> svc s' = svc s ++ (sg_map sgs |` dom (svc s)))"
  using assms
proof (induction sgs arbitrary: s)
  case (Cons sg sgs)
  show ?case
  proof (cases "map_of (sl_conninfos s) (sg_key sg)")
    case None
    then have n: "svc s (sg_key sg) = None" by (simp add: svc_None)
    then have "sg_map (sg # sgs) |` dom (svc s) = sg_map sgs |` dom (svc s)" by (auto simp: restrict_map_def fun_eq_iff sg_map_Cons)
    then show ?thesis using None n Cons.IH [OF Cons.prems] by auto
  next
    case (Some ci)
    obtain ci' s1 where 1: "UptSgservice sg ci s = Inr (ci', s1)" "ci_service ci' = sg" "sl_services s1 = sl_services s" "sl_conninfos s1 = sl_conninfos s"
      "sl_inv (s1\<lparr>sl_conninfos := AList.update (sg_key sg) ci' (sl_conninfos s1)\<rparr>)" using UptSgservice_ok [OF Cons.prems Some] by blast
    define s2 where "s2 = s1\<lparr>sl_conninfos := AList.update (sg_key sg) ci' (sl_conninfos s1)\<rparr>"
    have v: "svc s2 = (svc s)(sg_key sg \<mapsto> sg)" unfolding s2_def svc_update using 1(2,4) by (simp add: svc_def fun_eq_iff)
    have k: "sg_key sg \<in> dom (svc s)" using Some by (auto simp: svc_def)
    then have d: "dom (svc s2) = dom (svc s)" using v by auto
    then have "filter (\<lambda>sg. svc s2 (sg_key sg) = None) sgs = filter (\<lambda>sg. svc s (sg_key sg) = None) (sg # sgs)" using k by (auto simp: domIff intro!: filter_cong)
    moreover obtain s' where 2: "chg_loop sgs s2 = Inr (filter (\<lambda>sg. svc s2 (sg_key sg) = None) sgs, s')" "sl_inv s'" "sl_services s' = sl_services s2"
      "dom (svc s') = dom (svc s2)" "distinct (map sg_key sgs) \<Longrightarrow> svc s' = svc s2 ++ (sg_map sgs |` dom (svc s2))"
      using Cons.IH [OF 1(5)] unfolding s2_def by blast
    moreover have "svc s' = svc s ++ (sg_map (sg # sgs) |` dom (svc s))" if "distinct (map sg_key (sg # sgs))"
      using 2(5) that d v k sg_map_notin [of sg sgs] by (auto simp: fun_eq_iff map_add_def restrict_map_def sg_map_Cons split: option.splits)
    ultimately show ?thesis using Some 1(1,3) d by (auto simp: s2_def)
  qed
qed simp

lemma AddSrv_ok:
  assumes "sl_inv s"
  shows "\<exists>s'. AddSrv sgs s = Inr s' \<and> sl_inv s' \<and> sl_services s' = sl_services s \<and> dom (svc s') = dom (svc s) \<union> sg_key ` set sgs \<and>
    (distinct (map sg_key sgs) \<longrightarrow> svc s' = svc s ++ sg_map sgs)"
proof -
  obtain chg s1 where 1: "add_loop sgs s = Inr (chg, s1)" "sl_inv s1" "sl_services s1 = sl_services s" "dom (svc s1) = dom (svc s) \<union> sg_key ` set sgs"
    "set chg \<subseteq> set sgs" "distinct (map sg_key sgs) \<Longrightarrow> svc s1 = sg_map sgs ++ svc s \<and> chg = filter (\<lambda>sg. svc s (sg_key sg) \<noteq> None) sgs"
    using add_loop_ok [OF assms] by blast
  then have known: "sg_key ` set chg \<subseteq> dom (svc s1)" by blast
  obtain s2 where 2: "chg_loop chg s1 = Inr (filter (\<lambda>sg. svc s1 (sg_key sg) = None) chg, s2)" "sl_inv s2" "sl_services s2 = sl_services s1"
    "dom (svc s2) = dom (svc s1)" "distinct (map sg_key chg) \<Longrightarrow> svc s2 = svc s1 ++ (sg_map chg |` dom (svc s1))" using chg_loop_ok [OF 1(2)] by blast
  have "filter (\<lambda>sg. svc s1 (sg_key sg) = None) chg = []" using known by (auto simp: filter_empty_conv)
  then have a: "AddSrv sgs s = Inr (if chg = [] then s1 else s2)" using 1(1) 2(1) by (simp add: AddSrv.simps ChgSrv.simps)
  have "svc (if chg = [] then s1 else s2) = svc s ++ sg_map sgs" if d: "distinct (map sg_key sgs)"
  proof -
    have c: "chg = filter (\<lambda>sg. svc s (sg_key sg) \<noteq> None) sgs" "svc s1 = sg_map sgs ++ svc s" using 1(6) [OF d] by auto
    have m: "sg_map chg k = (if svc s k \<noteq> None then sg_map sgs k else None)" for k
      using sg_map_filter [of "\<lambda>k. svc s k \<noteq> None" sgs k] c(1) by simp
    have "distinct (map sg_key chg)" using d c(1) by (simp add: distinct_map_filter)
    moreover have "sg_map chg |` dom (svc s1) = sg_map chg" using known unfolding dom_sg_map [symmetric] by (intro ext) (metis domIff restrict_in restrict_out subsetD)
    ultimately have "svc s2 = svc s1 ++ sg_map chg" using 2(5) by simp
    moreover have "svc s1 ++ sg_map chg = svc s ++ sg_map sgs" using c(2) m by (auto simp: fun_eq_iff map_add_def split: option.splits)
    ultimately show ?thesis by (cases "chg = []") simp_all
  qed
  then show ?thesis using a 1(2-4) 2(2-4) by auto
qed

lemma ChgSrv_ok:
  assumes "sl_inv s"
  shows "\<exists>s'. ChgSrv sgs s = Inr s' \<and> sl_inv s' \<and> sl_services s' = sl_services s \<and> dom (svc s') = dom (svc s) \<union> sg_key ` set sgs \<and>
    (distinct (map sg_key sgs) \<longrightarrow> svc s' = svc s ++ sg_map sgs)"
proof -
  let ?new = "filter (\<lambda>sg. svc s (sg_key sg) = None) sgs"
  obtain s1 where 1: "chg_loop sgs s = Inr (?new, s1)" "sl_inv s1" "sl_services s1 = sl_services s" "dom (svc s1) = dom (svc s)"
    "distinct (map sg_key sgs) \<Longrightarrow> svc s1 = svc s ++ (sg_map sgs |` dom (svc s))" using chg_loop_ok [OF assms] by blast
  obtain s2 where 2: "AddSrv ?new s1 = Inr s2" "sl_inv s2" "sl_services s2 = sl_services s1" "dom (svc s2) = dom (svc s1) \<union> sg_key ` set ?new"
    "distinct (map sg_key ?new) \<Longrightarrow> svc s2 = svc s1 ++ sg_map ?new" using AddSrv_ok [OF 1(2)] by blast
  have c: "ChgSrv sgs s = Inr (if ?new = [] then s1 else s2)" using 1(1) 2(1) by (subst ChgSrv.simps) simp
  have d2: "dom (svc s2) = dom (svc s) \<union> sg_key ` set sgs" using 2(4) 1(4) by (auto simp: dom_def)
  have d1: "dom (svc s1) = dom (svc s) \<union> sg_key ` set sgs" if "?new = []" using that 1(4) by (auto simp: filter_empty_conv dom_def)
  have "svc (if ?new = [] then s1 else s2) = svc s ++ sg_map sgs" if d: "distinct (map sg_key sgs)"
  proof -
    have m: "sg_map ?new k = (if svc s k = None then sg_map sgs k else None)" for k using sg_map_filter [of "\<lambda>k. svc s k = None" sgs k] by simp
    have B: "svc s1 ++ sg_map ?new = svc s ++ sg_map sgs"
      using 1(5) [OF d] m by (auto simp: fun_eq_iff map_add_def restrict_map_def split: option.splits)
    show ?thesis
    proof (cases "?new = []")
      case True
      have "svc s1 = svc s ++ sg_map sgs" using B unfolding True by simp
      then show ?thesis using True by simp
    next
      case False
      then show ?thesis using B 2(5) d by (simp add: distinct_map_filter del: filter_empty_conv)
    qed
  qed
  then show ?thesis using c 1(2,3) 2(2,3) d1 d2 by (simp del: filter_empty_conv)
qed

section \<open>Updating the list\<close>

definition active :: "sgservice list \<Rightarrow> sgservice list" where
  "active vec = filter (\<lambda>sg. sg_status sg = 2) vec"

lemma active_Cons: "active (sg # sgs) = (if sg_status sg = 2 then sg # active sgs else active sgs)"
  by (simp add: active_def)

lemma init_loop_spec:
  "snd (init_loop vec m) = active vec \<and> (distinct (map sg_key (active vec)) \<longrightarrow> map_of (fst (init_loop vec m)) = sg_map (active vec) ++ map_of m)"
proof (induction vec arbitrary: m)
  case Nil
  then show ?case by (simp add: active_def)
next
  case (Cons sg vec)
  show ?case
  proof (cases "sg_status sg = 2")
    case True
    have "map_of (um_insert (sg_key sg) sg m) = [sg_key sg \<mapsto> sg] ++ map_of m" by (auto simp: um_insert_def fun_eq_iff map_add_def split: option.splits)
    moreover have "sg_map (active vec) ++ ([sg_key sg \<mapsto> sg] ++ map_of m) = sg_map (active (sg # vec)) ++ map_of m" if "sg_key sg \<notin> sg_key ` set (active vec)"
      using that sg_map_notin [of sg "active vec"] True by (auto simp: fun_eq_iff map_add_def sg_map_Cons active_Cons split: option.splits)
    ultimately show ?thesis using True Cons.IH [of "um_insert (sg_key sg) sg m"] by (auto simp: active_Cons split: prod.splits)
  next
    case False
    then show ?thesis using Cons.IH by (simp add: active_Cons)
  qed
qed

text \<open>What the comparison with the stored list yields, for a list in which no address occurs twice.\<close>

definition diff_ok :: "sgservice list \<Rightarrow> (string \<times> sgservice) list \<Rightarrow> (string \<times> sgservice) list \<Rightarrow>
    (string \<times> sgservice) list \<times> (string \<times> sgservice) list \<times> sgservice list \<times> sgservice list \<Rightarrow> bool" where
  "diff_ok sgs m gone r \<longleftrightarrow> (case r of (m', gone', add, chg) \<Rightarrow> map_of m' = map_of m ++ sg_map sgs \<and>
     (\<forall>k. map_of gone' k = (if map_of m k \<noteq> None \<and> sg_map sgs k \<noteq> None then None else map_of gone k)) \<and>
     add = filter (\<lambda>sg. map_of m (sg_key sg) = None) sgs \<and> chg = filter (\<lambda>sg. map_of m (sg_key sg) \<notin> {None, Some sg}) sgs)"

lemma map_of_delete: "map_of (AList.delete k m) j = (if j = k then None else map_of m j)"
  by (simp add: delete_conv')

lemma diff_loop_spec: "distinct (map sg_key (active vec)) \<Longrightarrow> diff_ok (active vec) m gone (diff_loop vec m gone)"
proof (induction vec arbitrary: m gone)
  case Nil
  then show ?case by (simp add: active_def diff_ok_def)
next
  case (Cons sg vec)
  let ?A = "active vec"
  show ?case
  proof (cases "sg_status sg = 2")
    case False
    then show ?thesis using Cons by (simp add: active_Cons)
  next
    case True
    then have d: "distinct (map sg_key ?A)" "sg_key sg \<notin> sg_key ` set ?A" using Cons.prems by (simp_all add: active_Cons)
    note none = sg_map_notin [OF d(2)]
    have neq: "sg_key a \<noteq> sg_key sg" if "a \<in> set ?A" for a using that d(2) by (metis imageI)
    have F: "filter (\<lambda>a. (if sg_key a = sg_key sg then X else map_of m (sg_key a)) = None) ?A = filter (\<lambda>a. map_of m (sg_key a) = None) ?A"
      "filter (\<lambda>a. (if sg_key a = sg_key sg then X else map_of m (sg_key a)) \<notin> {None, Some a}) ?A = filter (\<lambda>a. map_of m (sg_key a) \<notin> {None, Some a}) ?A" for X
      using neq by (auto intro!: filter_cong)
    show ?thesis
    proof (cases "map_of m (sg_key sg)")
      case None
      have "map_of (m @ [(sg_key sg, sg)]) j = (if j = sg_key sg then Some sg else map_of m j)" for j using None by (auto simp: map_add_def split: option.splits)
      then show ?thesis using None True Cons.IH [OF d(1), of "m @ [(sg_key sg, sg)]" gone] none F [of "Some sg"]
        by (auto simp: diff_ok_def active_Cons fun_eq_iff map_add_def sg_map_Cons split: prod.splits option.splits)
    next
      case (Some old)
      show ?thesis
      proof (cases "old = sg")
        case True
        then show ?thesis using Some \<open>sg_status sg = 2\<close> Cons.IH [OF d(1), of m "AList.delete (sg_key sg) gone"] none
          by (auto simp: diff_ok_def active_Cons fun_eq_iff map_add_def sg_map_Cons map_of_delete split: prod.splits option.splits)
      next
        case False
        have "map_of (AList.update (sg_key sg) sg m) j = (if j = sg_key sg then Some sg else map_of m j)" for j by (simp add: update_conv')
        then show ?thesis using False Some \<open>sg_status sg = 2\<close> none F [of "Some sg"]
            Cons.IH [OF d(1), of "AList.update (sg_key sg) sg m" "AList.delete (sg_key sg) gone"]
          by (auto simp: diff_ok_def active_Cons fun_eq_iff map_add_def sg_map_Cons map_of_delete split: prod.splits option.splits)
      qed
    qed
  qed
qed

lemma map_of_filter_key: "map_of (filter (\<lambda>(k, v). P k) m) j = (if P j then map_of m j else None)"
  by (induction m) auto

text \<open>The stored services are those the connections have.\<close>

definition sl_current :: "server_list \<Rightarrow> bool" where
  "sl_current s \<longleftrightarrow> (\<forall>k sg. map_of (sl_services s) k = Some sg \<longrightarrow> svc s k = Some sg)"

lemma sl_inv_services [simp]: "sl_inv (s\<lparr>sl_services := m\<rparr>) = sl_inv s" "svc (s\<lparr>sl_services := m\<rparr>) = svc s"
  by (simp_all add: sl_inv_def mm_ok_def svc_def [abs_def])

lemma update_finish:
  assumes "sl_inv s"
  shows "\<exists>s'. rbind (AddSrv add (s\<lparr>sl_services := m\<rparr>)) (\<lambda>s1. ChgSrv chg (DelSrv del s1)) = Inr s' \<and> sl_inv s' \<and> sl_services s' = m \<and>
    dom (svc s') = dom (svc s) \<union> sg_key ` set (add @ chg) \<and>
    (distinct (map sg_key add) \<longrightarrow> distinct (map sg_key chg) \<longrightarrow> svc s' = svc s ++ sg_map add ++ sg_map chg)"
proof -
  obtain s1 where 1: "AddSrv add (s\<lparr>sl_services := m\<rparr>) = Inr s1" "sl_inv s1" "sl_services s1 = m" "dom (svc s1) = dom (svc s) \<union> sg_key ` set add"
    "distinct (map sg_key add) \<Longrightarrow> svc s1 = svc s ++ sg_map add" using AddSrv_ok [of "s\<lparr>sl_services := m\<rparr>" add] assms by auto
  obtain s2 where "ChgSrv chg s1 = Inr s2" "sl_inv s2" "sl_services s2 = m" "dom (svc s2) = dom (svc s1) \<union> sg_key ` set chg"
    "distinct (map sg_key chg) \<Longrightarrow> svc s2 = svc s1 ++ sg_map chg" using ChgSrv_ok [OF 1(2), of chg] 1(3) by auto
  then show ?thesis using 1 by (auto simp: DelSrv_def)
qed

lemma UpdateSvrList_inv: "sl_inv s \<Longrightarrow> \<exists>s'. UpdateSvrList vec s = Inr s' \<and> sl_inv s'"
  unfolding UpdateSvrList_def Let_def using update_finish [of s] by (fastforce split: prod.splits)

section \<open>Destroying the worker\<close>

lemma destroy_infos_ok:
  assumes "mm_ok s" "distinct (map (ci_index \<circ> snd) infos)" "\<forall>(k, ci)\<in>set infos. \<exists>n\<in>set (sl_multimap s). ci_index ci = Some (wn_id n)"
  shows "\<exists>s'. rfold (\<lambda>(k, ci). destroy_ConnInfo ci) infos s = Inr s'"
  using assms
proof (induction infos arbitrary: s)
  case (Cons c infos)
  obtain k ci where c: "c = (k, ci)" by fastforce
  then obtain n where n: "n \<in> set (sl_multimap s)" "ci_index ci = Some (wn_id n)" using Cons.prems(3) by auto
  obtain s1 where s1: "mm_erase (Some (wn_id n)) s = Inr s1" "mm_ok s1" "set (sl_multimap s1) = set (sl_multimap s) - {n}"
    using mm_erase_ok [OF Cons.prems(1) n(1)] by blast
  have "\<exists>m\<in>set (sl_multimap s1). ci_index ci' = Some (wn_id m)" if i: "(k', ci') \<in> set infos" for k' ci'
  proof -
    obtain m where "m \<in> set (sl_multimap s)" "ci_index ci' = Some (wn_id m)" using Cons.prems(3) i by fastforce
    moreover have "ci_index ci' \<noteq> ci_index ci" using Cons.prems(2) i unfolding c by force
    ultimately show ?thesis using n(2) s1(3) by auto
  qed
  then have "\<forall>(k, ci)\<in>set infos. \<exists>n\<in>set (sl_multimap s1). ci_index ci = Some (wn_id n)" by blast
  then obtain s' where "rfold (\<lambda>(k, ci). destroy_ConnInfo ci) infos s1 = Inr s'" using Cons.IH [OF s1(2)] Cons.prems(2) by auto
  moreover have "destroy_ConnInfo ci s = Inr s1" using s1(1) n(2) by (simp add: destroy_ConnInfo_def)
  ultimately show ?case by (simp add: c)
qed simp

lemma ClearTcpClient_ok:
  assumes "sl_inv s"
  shows "\<exists>s'. ClearTcpClient s = Inr s' \<and> sl_conninfos s' = [] \<and> sl_multimap s' = []"
proof -
  have d: "distinct (map fst (sl_conninfos s))" "mm_ok s" using assms by (simp_all add: sl_inv_def)
  then have mem: "map_of (sl_conninfos s) k = Some ci" if "(k, ci) \<in> set (sl_conninfos s)" for k ci using that by simp
  have "\<forall>(k, ci)\<in>set (sl_conninfos s). \<exists>n\<in>set (sl_multimap s). ci_index ci = Some (wn_id n)"
    using sl_invD [OF assms] mem by (fastforce simp: info_node_def)
  moreover have "inj_on (ci_index \<circ> snd) (set (sl_conninfos s))"
    using sl_inv_index [OF assms] mem by (auto simp: inj_on_def) (metis mem option.inject)+
  then have "distinct (map (ci_index \<circ> snd) (sl_conninfos s))" using d(1) by (simp add: distinct_map)
  ultimately obtain s1 where "rfold (\<lambda>(k, ci). destroy_ConnInfo ci) (sl_conninfos s) s = Inr s1" using destroy_infos_ok [OF d(2)] by blast
  then show ?thesis by (simp add: ClearTcpClient_def)
qed

lemma sl_inv_new: "sl_inv new_server_list"
  by (simp add: sl_inv_def mm_ok_def new_server_list_def)

section \<open>Properties\<close>



end
