(* ===== verification/Server_Choice.thy ===== *)
theory Server_Choice
  imports Server_List
begin

text \<open>
  The choice of a connection for a request (\<open>ChooseNextReadyConn\<close>, \<open>CheckConnHealthy\<close> and \<open>CheckRegion\<close> of
  \<open>src/cthrift/cthrift_client_worker.cc\<close>). Whether a client object is alive, its connection and the contexts of the connections
  are an argument, the record \<open>clients_view\<close>; the numbers \<open>rand\<close> returns are arguments too.
\<close>

section \<open>The choice of a connection\<close>

record peer_conn =
  pc_id :: nat           \<comment> \<open>the connection, as in \<open>cw_conns\<close>\<close>
  pc_key :: string       \<comment> \<open>address and port of the peer\<close>
  pc_up :: bool

text \<open>What the scan sees of the clients: whether the object is alive, its \<open>connection()\<close>, and the connections' contexts.\<close>

record clients_view =
  cv_alive :: "nat \<Rightarrow> bool"
  cv_conn :: "nat \<Rightarrow> peer_conn option"
  cv_context :: "nat \<Rightarrow> worker_conn option"

definition lock :: "clients_view \<Rightarrow> nat option \<Rightarrow> nat option" where
  "lock v wp = (case wp of None \<Rightarrow> None | Some cl \<Rightarrow> if cv_alive v cl then Some cl else None)"

definition CheckConnHealthy :: "clients_view \<Rightarrow> conn_info \<Rightarrow> bool" where
  "CheckConnHealthy v ci \<longleftrightarrow>
     (case ci_client ci of
        None \<Rightarrow> False
      | Some cl \<Rightarrow> (case cv_conn v cl of
            None \<Rightarrow> False
          | Some pc \<Rightarrow> pc_up pc \<and> (case cv_context v (pc_id pc) of
                None \<Rightarrow> False
              | Some x \<Rightarrow> \<not> (wc_highwater x \<or> wc_occupied x))))"

record choice_scan =
  cs_kept :: "wnode list"
  cs_groups :: "(rat \<times> nat list) list"     \<comment> \<open>\<open>map_weight_vec\<close>\<close>
  cs_weights :: "rat list"                  \<comment> \<open>\<open>vec_weight\<close>\<close>
  cs_last :: rat
  cs_total :: rat
  cs_stop :: nat

definition new_choice_scan :: choice_scan where
  "new_choice_scan = \<lparr>cs_kept = [], cs_groups = [], cs_weights = [], cs_last = - 1, cs_total = 0, cs_stop = 1\<rparr>"

definition group_of :: "choice_scan \<Rightarrow> rat \<Rightarrow> nat list" where
  "group_of a w = (case map_of (cs_groups a) w of None \<Rightarrow> [] | Some g \<Rightarrow> g)"

definition cs_add :: "wnode \<Rightarrow> nat \<Rightarrow> choice_scan \<Rightarrow> choice_scan" where
  "cs_add n cl a = a\<lparr>cs_kept := cs_kept a @ [n], cs_groups := AList.update (wn_weight n) (group_of a (wn_weight n) @ [cl]) (cs_groups a)\<rparr>"

definition cs_new_weight :: "rat \<Rightarrow> choice_scan \<Rightarrow> choice_scan" where
  "cs_new_weight w a = a\<lparr>cs_weights := cs_weights a @ [w], cs_last := w\<rparr>"

fun choose_scan :: "clients_view \<Rightarrow> (string \<times> conn_info) list \<Rightarrow> wnode list \<Rightarrow> choice_scan \<Rightarrow> choice_scan" where
  "choose_scan v infos [] a = a"
| "choose_scan v infos (n # ns) a =
     (case lock v (wn_client n) of
        None \<Rightarrow> choose_scan v infos ns a
      | Some cl \<Rightarrow>
          (case cv_conn v cl of
             None \<Rightarrow> choose_scan v infos ns (a\<lparr>cs_kept := cs_kept a @ [n]\<rparr>)
           | Some pc \<Rightarrow>
               (case map_of infos (pc_key pc) of
                  None \<Rightarrow> choose_scan v infos ns a
                | Some ci \<Rightarrow>
                    if \<not> CheckConnHealthy v ci then choose_scan v infos ns (a\<lparr>cs_kept := cs_kept a @ [n]\<rparr>)
                    else if \<not> CheckDoubleEqual (cs_last a) (wn_weight n)
                    then if \<not> CheckDoubleEqual (cs_last a) (- 1)
                         then if cs_stop a \<le> CheckRegion (wn_weight n) then a\<lparr>cs_kept := cs_kept a @ n # ns\<rparr>
                              else choose_scan v infos ns (cs_add n cl (cs_new_weight (wn_weight n)
                                     (a\<lparr>cs_total := cs_total a + cs_last a * of_nat (length (group_of a (cs_last a)))\<rparr>)))
                         else choose_scan v infos ns (cs_add n cl (cs_new_weight (wn_weight n) (a\<lparr>cs_stop := CheckRegion (wn_weight n) + 1\<rparr>)))
                    else choose_scan v infos ns (cs_add n cl a))))"

text \<open>\<open>fmod\<close> of two finite numbers; \<open>None\<close> is NaN, which no number is greater than.\<close>

definition fmod :: "rat \<Rightarrow> rat \<Rightarrow> rat option" where
  "fmod x y = (if y = 0 then None else Some (x - y * of_int (if 0 \<le> x / y then \<lfloor>x / y\<rfloor> else \<lceil>x / y\<rceil>)))"

fun pick_weight :: "(rat \<Rightarrow> nat list) \<Rightarrow> rat option \<Rightarrow> rat list \<Rightarrow> rat \<Rightarrow> rat" where
  "pick_weight g r [] d_tmp = 0"
| "pick_weight g r (w # ws) d_tmp =
     (let d = d_tmp + w * of_nat (length (g w)) * 1000
      in case r of
           None \<Rightarrow> pick_weight g r ws d
         | Some x \<Rightarrow> if x < d then w else pick_weight g r ws d)"

text \<open>\<open>ChooseNextReadyConn\<close> with the two numbers that \<open>rand\<close> returns: the return code, the client and the new state.\<close>

definition ChooseNextReadyConn :: "clients_view \<Rightarrow> nat \<Rightarrow> nat \<Rightarrow> server_list \<Rightarrow> int \<times> nat option \<times> server_list" where
  "ChooseNextReadyConn v rand1 rand2 s =
     (if sl_multimap s = [] then (- 1, None, s)
      else let a = choose_scan v (sl_conninfos s) (sl_multimap s) new_choice_scan;
               s' = s\<lparr>sl_multimap := cs_kept a\<rparr>
           in if cs_weights a = [] then (1, None, s')
              else let total = (cs_total a + cs_last a * of_nat (length (group_of a (cs_last a)))) * 1000;
                       w = pick_weight (group_of a) (fmod (of_nat rand1) total) (cs_weights a) 0
                   in case map_of (cs_groups a) w of
                        None \<Rightarrow> (- 1, None, s')
                      | Some g \<Rightarrow> (0, Some (if length g = 1 then hd g else g ! (rand2 mod length g)), s'))"

section \<open>What the scan collects\<close>

definition ready :: "clients_view \<Rightarrow> (string \<times> conn_info) list \<Rightarrow> wnode \<Rightarrow> bool" where
  "ready v infos n \<longleftrightarrow>
     (\<exists>cl pc ci. lock v (wn_client n) = Some cl \<and> cv_conn v cl = Some pc \<and> map_of infos (pc_key pc) = Some ci \<and> CheckConnHealthy v ci)"

definition cl_of :: "wnode \<Rightarrow> nat" where
  "cl_of n = the (wn_client n)"

definition same_weight :: "rat \<Rightarrow> wnode list \<Rightarrow> wnode list" where
  "same_weight w ns = filter (\<lambda>n. wn_weight n = w) ns"

definition weight_sum :: "rat list \<Rightarrow> wnode list \<Rightarrow> rat" where
  "weight_sum ws ns = (\<Sum>w\<leftarrow>ws. w * of_nat (length (same_weight w ns)))"

definition scan_inv :: "wnode list \<Rightarrow> choice_scan \<Rightarrow> bool" where
  "scan_inv ns a \<longleftrightarrow> set (cs_weights a) = wn_weight ` set ns \<and> sorted_wrt (>) (cs_weights a) \<and>
     (\<forall>w. map_of (cs_groups a) w = (if w \<in> set (cs_weights a) then Some (map cl_of (same_weight w ns)) else None)) \<and>
     cs_last a = (if cs_weights a = [] then - 1 else last (cs_weights a)) \<and>
     cs_total a = weight_sum (butlast (cs_weights a)) ns \<and> (ns \<noteq> [] \<longrightarrow> cs_stop a = CheckRegion (wn_weight (hd ns)) + 1)"

lemma scan_inv_new: "scan_inv [] new_choice_scan"
  by (simp add: scan_inv_def new_choice_scan_def weight_sum_def)

lemma scan_inv_kept [simp]: "scan_inv ns (a\<lparr>cs_kept := k\<rparr>) = scan_inv ns a"
  by (simp add: scan_inv_def)

lemma group_of_inv: "scan_inv ns a \<Longrightarrow> group_of a w = map cl_of (same_weight w ns)"
proof (cases "w \<in> set (cs_weights a)")
  case False
  assume "scan_inv ns a"
  then have "same_weight w ns = []" "map_of (cs_groups a) w = None" using False by (auto simp: scan_inv_def same_weight_def filter_empty_conv)
  then show ?thesis by (simp add: group_of_def)
qed (simp add: scan_inv_def group_of_def)

lemma weight_sum_snoc: "wn_weight n \<notin> set ws \<Longrightarrow> weight_sum ws (ns @ [n]) = weight_sum ws ns"
  unfolding weight_sum_def by (intro arg_cong [where f = sum_list] map_cong refl) (auto simp: same_weight_def)

lemma sorted_gt_last: "sorted_wrt (>) ws \<Longrightarrow> ws \<noteq> [] \<Longrightarrow> last ws \<notin> set (butlast (ws :: rat list))"
  by (cases ws rule: rev_cases) (auto simp: sorted_wrt_append)

lemma scan_add_same:
  assumes "scan_inv ns a" "ns \<noteq> []" "wn_weight n = cs_last a" "cl = cl_of n"
  shows "scan_inv (ns @ [n]) (cs_add n cl a)"
proof -
  have ne: "cs_weights a \<noteq> []" using assms(1,2) by (auto simp: scan_inv_def)
  then have l: "wn_weight n = last (cs_weights a)" using assms(1,3) by (simp add: scan_inv_def)
  then have i: "wn_weight n \<in> set (cs_weights a)" using ne by simp
  have nb: "wn_weight n \<notin> set (butlast (cs_weights a))" using sorted_gt_last ne l assms(1) by (simp add: scan_inv_def)
  have "map_of (cs_groups (cs_add n cl a)) w = (if w \<in> set (cs_weights a) then Some (map cl_of (same_weight w (ns @ [n]))) else None)" for w
    using assms(1,4) i group_of_inv [OF assms(1)] by (auto simp: scan_inv_def cs_add_def update_conv' same_weight_def)
  moreover have "cs_weights (cs_add n cl a) = cs_weights a" "cs_last (cs_add n cl a) = cs_last a" "cs_total (cs_add n cl a) = cs_total a" "cs_stop (cs_add n cl a) = cs_stop a"
    by (simp_all add: cs_add_def)
  ultimately show ?thesis using assms(1,2) i weight_sum_snoc [OF nb, of ns] unfolding scan_inv_def by auto
qed

lemma scan_add_new:
  assumes "scan_inv ns a" "\<forall>m\<in>set ns. wn_weight n < wn_weight m" "cl = cl_of n"
    and "a' = (if ns = [] then a\<lparr>cs_stop := CheckRegion (wn_weight n) + 1\<rparr> else a\<lparr>cs_total := cs_total a + cs_last a * of_nat (length (group_of a (cs_last a)))\<rparr>)"
  shows "scan_inv (ns @ [n]) (cs_add n cl (cs_new_weight (wn_weight n) a'))"
proof -
  let ?w = "wn_weight n"
  have new: "?w \<notin> set (cs_weights a)" "\<forall>w\<in>set (cs_weights a). ?w < w" using assms(1,2) by (auto simp: scan_inv_def)
  have f: "cs_groups a' = cs_groups a" "cs_weights a' = cs_weights a" using assms(4) by simp_all
  have g: "group_of (cs_new_weight ?w a') ?w = []" using f assms(1) new(1) by (simp add: scan_inv_def group_of_def cs_new_weight_def)
  have nil: "same_weight ?w ns = []" using assms(2) by (auto simp: same_weight_def filter_empty_conv)
  have "map_of (cs_groups (cs_add n cl (cs_new_weight ?w a'))) w =
      (if w \<in> set (cs_weights a @ [?w]) then Some (map cl_of (same_weight w (ns @ [n]))) else None)" for w
    using assms(1,3) g f nil new(1) by (auto simp: scan_inv_def cs_add_def cs_new_weight_def update_conv' same_weight_def)
  moreover have "cs_total a' = weight_sum (cs_weights a) (ns @ [n])"
  proof (cases "ns = []")
    case True
    then show ?thesis using assms(1,4) by (simp add: scan_inv_def weight_sum_def)
  next
    case False
    then have ne: "cs_weights a \<noteq> []" using assms(1) by (auto simp: scan_inv_def)
    have "weight_sum (cs_weights a) ns = weight_sum (butlast (cs_weights a)) ns + cs_last a * of_nat (length (same_weight (cs_last a) ns))"
      using ne assms(1) append_butlast_last_id [OF ne] unfolding weight_sum_def scan_inv_def
      by (metis (no_types, lifting) map_append list.map sum_list_append sum_list.Cons sum_list.Nil add.right_neutral)
    then show ?thesis using False assms(1,4) group_of_inv [OF assms(1)] weight_sum_snoc [OF new(1)] by (simp add: scan_inv_def)
  qed
  moreover have "sorted_wrt (>) (cs_weights a @ [?w])" using assms(1) new(2) by (simp add: scan_inv_def sorted_wrt_append)
  moreover have "cs_stop a' = CheckRegion (wn_weight (hd (ns @ [n]))) + 1" using assms(1,4) by (cases ns) (simp_all add: scan_inv_def)
  ultimately show ?thesis using assms(1) f unfolding scan_inv_def by (simp add: cs_add_def cs_new_weight_def)
qed

lemma CheckRegion_mono: "w' \<le> w \<Longrightarrow> CheckRegion w \<le> CheckRegion w'"
  by (simp add: CheckRegion_def kDFirstRegionMin_def kDSecondRegionMin_def)

text \<open>Weights that \<open>CheckDoubleEqual\<close> tells apart.\<close>

definition weights_apart :: "wnode list \<Rightarrow> bool" where
  "weights_apart ns \<longleftrightarrow> (\<forall>m\<in>set ns. 0 < wn_weight m) \<and> (\<forall>m\<in>set ns. \<forall>n\<in>set ns. CheckDoubleEqual (wn_weight m) (wn_weight n) \<longrightarrow> wn_weight m = wn_weight n)"

lemmas choose_scan_Cons = choose_scan.simps(2)

declare choose_scan.simps(2) [simp del]

lemma scan_skip: "\<not> ready v infos n \<Longrightarrow> \<exists>k. choose_scan v infos (n # ns) a = choose_scan v infos ns (a\<lparr>cs_kept := k\<rparr>)"
proof -
  assume "\<not> ready v infos n"
  then have "choose_scan v infos (n # ns) a = choose_scan v infos ns a \<or> choose_scan v infos (n # ns) a = choose_scan v infos ns (a\<lparr>cs_kept := cs_kept a @ [n]\<rparr>)"
    by (auto simp: ready_def choose_scan_Cons split: option.splits)
  then show ?thesis by (metis choice_scan.surjective choice_scan.update_convs(1) old.unit.exhaust)
qed

lemma scan_ready:
  "ready v infos n \<Longrightarrow> choose_scan v infos (n # ns) a =
     (if CheckDoubleEqual (cs_last a) (wn_weight n) then choose_scan v infos ns (cs_add n (cl_of n) a)
      else if CheckDoubleEqual (cs_last a) (- 1)
      then choose_scan v infos ns (cs_add n (cl_of n) (cs_new_weight (wn_weight n) (a\<lparr>cs_stop := CheckRegion (wn_weight n) + 1\<rparr>)))
      else if cs_stop a \<le> CheckRegion (wn_weight n) then a\<lparr>cs_kept := cs_kept a @ n # ns\<rparr>
      else choose_scan v infos ns (cs_add n (cl_of n) (cs_new_weight (wn_weight n)
             (a\<lparr>cs_total := cs_total a + cs_last a * of_nat (length (group_of a (cs_last a)))\<rparr>))))"
  by (auto simp: ready_def cl_of_def lock_def choose_scan_Cons split: option.splits if_splits)

lemma not_minus_one: "0 < w \<Longrightarrow> \<not> CheckDoubleEqual (- 1) w \<and> \<not> CheckDoubleEqual w (- 1)"
  by (simp add: CheckDoubleEqual_def)

lemma CheckDoubleEqual_refl: "CheckDoubleEqual w w"
  by (simp add: CheckDoubleEqual_def)

lemma scan_spec:
  assumes "scan_inv P a" "sorted_wrt (\<lambda>m n. wn_weight n \<le> wn_weight m) (P @ filter (ready v infos) ns)" "weights_apart (P @ filter (ready v infos) ns)"
    and "\<forall>m\<in>set P. CheckRegion (wn_weight m) \<le> CheckRegion (wn_weight (hd P))"
  shows "scan_inv (P @ filter (\<lambda>n. ready v infos n \<and> CheckRegion (wn_weight n) \<le> CheckRegion (wn_weight (hd (P @ filter (ready v infos) ns)))) ns) (choose_scan v infos ns a)"
  using assms
proof (induction ns arbitrary: P a)
  case (Cons n ns)
  show ?case
  proof (cases "ready v infos n")
    case False
    then obtain k where "choose_scan v infos (n # ns) a = choose_scan v infos ns (a\<lparr>cs_kept := k\<rparr>)" using scan_skip by blast
    then show ?thesis using False Cons.IH [of P "a\<lparr>cs_kept := k\<rparr>"] Cons.prems by simp
  next
    case True
    let ?w = "wn_weight n" and ?R = "filter (ready v infos) ns"
    have srt: "sorted_wrt (\<lambda>m n. wn_weight n \<le> wn_weight m) (P @ [n] @ ?R)" and apart: "weights_apart (P @ [n] @ ?R)" using Cons.prems(2,3) True by simp_all
    have pos: "0 < ?w" using apart by (simp add: weights_apart_def)
    have step: "scan_inv (P @ n # filter (\<lambda>m. ready v infos m \<and> CheckRegion (wn_weight m) \<le> CheckRegion (wn_weight (hd (P @ n # ?R)))) ns) (choose_scan v infos ns a')"
      if "scan_inv (P @ [n]) a'" "\<forall>m\<in>set (P @ [n]). CheckRegion (wn_weight m) \<le> CheckRegion (wn_weight (hd (P @ [n])))" for a'
      using Cons.IH [OF that(1) _ _ that(2)] srt apart by simp
    show ?thesis
    proof (cases "P = []")
      case P: True
      then have "cs_last a = - 1" using Cons.prems(1) by (simp add: scan_inv_def)
      moreover have "scan_inv ([] @ [n]) (cs_add n (cl_of n) (cs_new_weight ?w (a\<lparr>cs_stop := CheckRegion ?w + 1\<rparr>)))"
        using Cons.prems(1) P by (intro scan_add_new [where a = a]) simp_all
      ultimately show ?thesis using step P True not_minus_one [OF pos] by (simp add: scan_ready CheckDoubleEqual_refl)
    next
      case P: False
      have ne: "cs_weights a \<noteq> []" using Cons.prems(1) P by (auto simp: scan_inv_def)
      then have l: "cs_last a \<in> wn_weight ` set P" using Cons.prems(1) last_in_set [OF ne] by (simp add: scan_inv_def)
      then have lpos: "0 < cs_last a" using apart by (auto simp: weights_apart_def)
      have hdP: "hd (P @ xs) = hd P" for xs using P by simp
      have eq: "CheckDoubleEqual (cs_last a) ?w \<longleftrightarrow> cs_last a = ?w" using l apart by (auto simp: weights_apart_def CheckDoubleEqual_refl)
      show ?thesis
      proof (cases "cs_last a = ?w")
        case same: True
        have "scan_inv (P @ [n]) (cs_add n (cl_of n) a)" using scan_add_same [OF Cons.prems(1) P] same by simp
        moreover have r: "CheckRegion ?w \<le> CheckRegion (wn_weight (hd P))" using l same Cons.prems(4) by auto
        ultimately show ?thesis using step Cons.prems(4) eq same True P by (auto simp: scan_ready hdP)
      next
        case new: False
        have le: "?w \<le> wn_weight m" if "m \<in> set P" for m using that srt by (auto simp: sorted_wrt_append)
        have min: "cs_last a \<le> w" if "w \<in> set (cs_weights a)" for w
          using that ne Cons.prems(1) by (cases "cs_weights a" rule: rev_cases) (auto simp: scan_inv_def sorted_wrt_append intro: less_imp_le)
        have lt: "\<forall>m\<in>set P. ?w < wn_weight m"
        proof
          fix m assume m: "m \<in> set P"
          then have "wn_weight m \<in> set (cs_weights a)" using Cons.prems(1) by (simp add: scan_inv_def)
          then have "cs_last a \<le> wn_weight m" by (rule min)
          moreover have "?w < cs_last a" using new l le by force
          ultimately show "?w < wn_weight m" by simp
        qed
        have stop: "cs_stop a = CheckRegion (wn_weight (hd P)) + 1" using Cons.prems(1) P by (simp add: scan_inv_def)
        show ?thesis
        proof (cases "cs_stop a \<le> CheckRegion ?w")
          case brk: True
          have "CheckRegion ?w \<le> CheckRegion (wn_weight m)" if "m \<in> set ?R" for m
            using that srt by (intro CheckRegion_mono) (auto simp: sorted_wrt_append)
          then have "filter (\<lambda>m. ready v infos m \<and> CheckRegion (wn_weight m) \<le> CheckRegion (wn_weight (hd P))) (n # ns) = []"
            using brk stop by (fastforce simp: filter_empty_conv)
          then show ?thesis using Cons.prems(1) new eq not_minus_one [OF lpos] brk True by (simp add: scan_ready hdP)
        next
          case False
          have "scan_inv (P @ [n]) (cs_add n (cl_of n) (cs_new_weight ?w (a\<lparr>cs_total := cs_total a + cs_last a * of_nat (length (group_of a (cs_last a)))\<rparr>)))"
            using scan_add_new [OF Cons.prems(1) lt refl refl] P by simp
          then show ?thesis using step Cons.prems(4) new eq not_minus_one [OF lpos] False stop True by (auto simp: scan_ready hdP)
        qed
      qed
    qed
  qed
qed simp

section \<open>The weighted choice\<close>

lemma fmod_pos: "0 \<le> x \<Longrightarrow> 0 < y \<Longrightarrow> \<exists>r. fmod x y = Some r \<and> 0 \<le> r \<and> r < y"
proof -
  assume a: "0 \<le> x" "0 < y"
  define k where "k = (of_int \<lfloor>x / y\<rfloor> :: rat)"
  have "k \<le> x / y" "x / y < k + 1" unfolding k_def by linarith+
  then have "y * k \<le> x" "x < y * k + y" using a(2) by (simp_all add: field_simps)
  then have "y * of_int \<lfloor>x / y\<rfloor> \<le> x" "x < y * of_int \<lfloor>x / y\<rfloor> + y" by (simp_all add: k_def)
  then show ?thesis using a by (simp add: fmod_def)
qed

lemma pick_weight_ok:
  assumes "acc \<le> x" "x < acc + 1000 * (\<Sum>w\<leftarrow>ws. w * of_nat (length (g w)))"
  shows "\<exists>pre w post. ws = pre @ w # post \<and> pick_weight g (Some x) ws acc = w \<and>
    acc + 1000 * (\<Sum>w\<leftarrow>pre. w * of_nat (length (g w))) \<le> x \<and> x < acc + 1000 * (\<Sum>w\<leftarrow>pre @ [w]. w * of_nat (length (g w)))"
  using assms
proof (induction ws arbitrary: acc)
  case (Cons w ws)
  let ?d = "acc + w * of_nat (length (g w)) * 1000"
  show ?case
  proof (cases "x < ?d")
    case True
    then have "w # ws = [] @ w # ws \<and> pick_weight g (Some x) (w # ws) acc = w \<and>
      acc + 1000 * (\<Sum>w\<leftarrow>[]. w * of_nat (length (g w))) \<le> x \<and> x < acc + 1000 * (\<Sum>w\<leftarrow>[] @ [w]. w * of_nat (length (g w)))"
      using Cons.prems(1) by (simp add: Let_def mult.commute mult.left_commute)
    then show ?thesis by blast
  next
    case False
    then have "?d \<le> x" "x < ?d + 1000 * (\<Sum>w\<leftarrow>ws. w * of_nat (length (g w)))" using Cons.prems(2) by (simp_all add: algebra_simps)
    from Cons.IH [OF this] obtain pre u post where p: "ws = pre @ u # post" "pick_weight g (Some x) ws ?d = u"
      "?d + 1000 * (\<Sum>w\<leftarrow>pre. w * of_nat (length (g w))) \<le> x" "x < ?d + 1000 * (\<Sum>w\<leftarrow>pre @ [u]. w * of_nat (length (g w)))" by blast
    have "w # ws = (w # pre) @ u # post \<and> pick_weight g (Some x) (w # ws) acc = u \<and> acc + 1000 * (\<Sum>w\<leftarrow>w # pre. w * of_nat (length (g w))) \<le> x \<and>
        x < acc + 1000 * (\<Sum>w\<leftarrow>(w # pre) @ [u]. w * of_nat (length (g w)))"
      using p False by (simp add: Let_def algebra_simps)
    then show ?thesis by blast
  qed
qed simp

lemma sum_filter_disj:
  "(\<And>n. \<not> (P n \<and> Q n)) \<Longrightarrow> (\<Sum>n\<leftarrow>filter (\<lambda>n. P n \<or> Q n) ns. f n) = (\<Sum>n\<leftarrow>filter P ns. f n) + (\<Sum>n\<leftarrow>filter Q ns. (f n :: rat))"
  by (induction ns) auto

lemma sum_same_weight: "(\<Sum>n\<leftarrow>same_weight w ns. wn_weight n) = w * of_nat (length (same_weight w ns))"
  by (induction ns) (auto simp: same_weight_def algebra_simps)

lemma weight_sum_nodes: "distinct ws \<Longrightarrow> weight_sum ws ns = (\<Sum>n\<leftarrow>filter (\<lambda>n. wn_weight n \<in> set ws) ns. wn_weight n)"
proof (induction ws)
  case (Cons w ws)
  then have "(\<Sum>n\<leftarrow>filter (\<lambda>n. wn_weight n = w \<or> wn_weight n \<in> set ws) ns. wn_weight n) = w * of_nat (length (same_weight w ns)) + weight_sum ws ns"
    using sum_filter_disj [of "\<lambda>n. wn_weight n = w" "\<lambda>n. wn_weight n \<in> set ws" wn_weight ns] sum_same_weight [of w ns] by (auto simp: same_weight_def)
  then show ?case by (simp add: weight_sum_def)
qed (simp add: weight_sum_def)

lemma distinct_sorted_gt: "sorted_wrt (>) (ws :: rat list) \<Longrightarrow> distinct ws"
  by (induction ws) auto

lemma sorted_gt_split:
  fixes ws :: "rat list"
  assumes "sorted_wrt (>) ws" "ws = pre @ w # post" "u \<in> set ws"
  shows "u \<in> set pre \<longleftrightarrow> w < u" "u \<in> set (pre @ [w]) \<longleftrightarrow> w \<le> u"
  using assms by (auto simp: sorted_wrt_append dest: less_imp_le)

lemma weight_sum_above:
  assumes "scan_inv C a" "cs_weights a = pre @ w # post"
  shows "weight_sum pre C = (\<Sum>n\<leftarrow>filter (\<lambda>n. w < wn_weight n) C. wn_weight n)"
    and "weight_sum (pre @ [w]) C = (\<Sum>n\<leftarrow>filter (\<lambda>n. w \<le> wn_weight n) C. wn_weight n)"
    and "weight_sum (cs_weights a) C = (\<Sum>n\<leftarrow>C. wn_weight n)"
proof -
  have srt: "sorted_wrt (>) (cs_weights a)" and mem: "wn_weight n \<in> set (cs_weights a)" if "n \<in> set C" for n using assms(1) that by (auto simp: scan_inv_def)
  have s: "sorted_wrt (>) (cs_weights a)" using assms(1) by (simp add: scan_inv_def)
  then have d: "distinct (cs_weights a)" by (simp add: distinct_sorted_gt)
  then have d2: "distinct pre" "distinct (pre @ [w])" using assms(2) by auto
  have "filter (\<lambda>n. wn_weight n \<in> set pre) C = filter (\<lambda>n. w < wn_weight n) C"
    using sorted_gt_split(1) [OF s assms(2)] mem by (intro filter_cong) auto
  then show "weight_sum pre C = (\<Sum>n\<leftarrow>filter (\<lambda>n. w < wn_weight n) C. wn_weight n)" using weight_sum_nodes [OF d2(1), of C] by simp
  have "filter (\<lambda>n. wn_weight n \<in> set (pre @ [w])) C = filter (\<lambda>n. w \<le> wn_weight n) C"
    using sorted_gt_split(2) [OF s assms(2)] mem by (intro filter_cong) auto
  then show "weight_sum (pre @ [w]) C = (\<Sum>n\<leftarrow>filter (\<lambda>n. w \<le> wn_weight n) C. wn_weight n)" using weight_sum_nodes [OF d2(2), of C] by simp
  have "filter (\<lambda>n. wn_weight n \<in> set (cs_weights a)) C = C" using mem by (simp add: filter_id_conv)
  then show "weight_sum (cs_weights a) C = (\<Sum>n\<leftarrow>C. wn_weight n)" using weight_sum_nodes [OF d, of C] by simp
qed

section \<open>Histories of a worker\<close>

text \<open>Every client of the multimap is alive and its connection, if it has one, is registered under its peer's address.\<close>

definition view_ok :: "clients_view \<Rightarrow> server_list \<Rightarrow> bool" where
  "view_ok v s \<longleftrightarrow> (\<forall>n\<in>set (sl_multimap s). \<exists>cl. lock v (wn_client n) = Some cl \<and>
     (\<forall>pc. cv_conn v cl = Some pc \<longrightarrow> map_of (sl_conninfos s) (pc_key pc) \<noteq> None))"

lemma scan_keeps:
  "\<forall>n\<in>set ns. \<exists>cl. lock v (wn_client n) = Some cl \<and> (\<forall>pc. cv_conn v cl = Some pc \<longrightarrow> map_of infos (pc_key pc) \<noteq> None) \<Longrightarrow>
     cs_kept (choose_scan v infos ns a) = cs_kept a @ ns"
proof (induction ns arbitrary: a)
  case (Cons n ns)
  obtain cl where cl: "lock v (wn_client n) = Some cl" "\<And>pc. cv_conn v cl = Some pc \<Longrightarrow> map_of infos (pc_key pc) \<noteq> None" using Cons.prems by auto
  have IH: "cs_kept (choose_scan v infos ns b) = cs_kept b @ ns" for b using Cons by simp
  show ?case using cl by (auto simp: choose_scan_Cons IH cs_add_def cs_new_weight_def split: option.splits)
qed simp

lemma choose_keeps: "view_ok v s \<Longrightarrow> ChooseNextReadyConn v r1 r2 s = (c, cl, s') \<Longrightarrow> s' = s"
  using scan_keeps [of "sl_multimap s" v "sl_conninfos s" new_choice_scan]
  by (auto simp: ChooseNextReadyConn_def view_ok_def new_choice_scan_def Let_def split: if_splits option.splits)

text \<open>Lists arrive and connections are chosen, in any order.\<close>

inductive sl_reach :: "server_list \<Rightarrow> bool" where
  start: "sl_reach new_server_list"
| update: "sl_reach s \<Longrightarrow> UpdateSvrList vec s = Inr s' \<Longrightarrow> sl_reach s'"
| choose: "sl_reach s \<Longrightarrow> view_ok v s \<Longrightarrow> ChooseNextReadyConn v r1 r2 s = (c, cl, s') \<Longrightarrow> sl_reach s'"

lemma sl_reach_inv: "sl_reach s \<Longrightarrow> sl_inv s"
proof (induction rule: sl_reach.induct)
  case start
  then show ?case by (rule sl_inv_new)
next
  case (update s vec s')
  then show ?case using UpdateSvrList_inv [of s vec] by auto
next
  case (choose s v r1 r2 c cl s')
  then show ?case using choose_keeps by blast
qed

section \<open>Properties\<close>



text \<open>Removed servers stay in use: after an empty list the stored services are gone, but every choice is made as before.\<close>

theorem removed_servers_still_chosen:
  "\<exists>s'. UpdateSvrList [] s = Inr s' \<and> sl_services s' = [] \<and>
     fst (ChooseNextReadyConn v r1 r2 s') = fst (ChooseNextReadyConn v r1 r2 s) \<and> fst (snd (ChooseNextReadyConn v r1 r2 s')) = fst (snd (ChooseNextReadyConn v r1 r2 s))"
proof -
  have "UpdateSvrList [] s = Inr (s\<lparr>sl_services := []\<rparr>)" by (simp add: UpdateSvrList_def AddSrv.simps ChgSrv.simps DelSrv_def)
  then show ?thesis by (auto simp: ChooseNextReadyConn_def Let_def split: option.splits)
qed

text \<open>A port outside 16 bits destroys the index: the connection goes to the port modulo \<open>2 ^ 16\<close>, its peer is not found under the
  server's key, and the choice erases the node although the connection info keeps the iterator; the next change of the
  weight erases through it.\<close>

theorem wide_port_dangles:
  assumes "sg_status sg = 2" "sg_port sg < 0 \<or> 65535 < sg_port sg" "cv_alive v 0" "cv_conn v 0 = Some pc"
    and "pc_key pc = sg_ip sg @ '':'' @ dec_int (uint (of_int (sg_port sg) :: 16 word))"
    and "sg_status sg' = 2" "sg_key sg' = sg_key sg" "\<not> CheckDoubleEqual (octo_weight sg) (octo_weight sg')"
  shows "\<exists>s1 s2. UpdateSvrList [sg] new_server_list = Inr s1 \<and> ChooseNextReadyConn v r1 r2 s1 = (1, None, s2) \<and> UpdateSvrList [sg'] s2 = Inl UseAfterFree"
proof -
  let ?n = "\<lparr>wn_id = 1, wn_weight = octo_weight sg, wn_client = Some 0\<rparr>" and ?ci = "\<lparr>ci_service = sg, ci_client = Some 0, ci_index = Some 1\<rparr>"
  define s1 where "s1 = \<lparr>sl_services = [(sg_key sg, sg)], sl_conninfos = [(sg_key sg, ?ci)], sl_multimap = [?n], sl_fresh = 2,
      sl_connecting = [(0, sg_ip sg, of_int (sg_port sg))]\<rparr>"
  have u1: "UpdateSvrList [sg] new_server_list = Inr s1" using assms(1)
    by (simp add: UpdateSvrList_def new_server_list_def um_insert_def AddSrv.simps ChgSrv.simps DelSrv_def add_server_def setSp_tcpclient_def new_ConnInfo_def
        mm_insert_def s1_def numeral_2_eq_2 Let_def)
  have "0 \<le> uint (of_int (sg_port sg) :: 16 word)" "uint (of_int (sg_port sg) :: 16 word) < 65536"
    using uint_bounded [of "of_int (sg_port sg) :: 16 word"] by simp_all
  then have "dec_int (uint (of_int (sg_port sg) :: 16 word)) \<noteq> dec_int (sg_port sg)" using assms(2) unfolding dec_int_inject by linarith
  then have k: "pc_key pc \<noteq> sg_key sg" using assms(5) by (simp add: sg_key_def)
  define s2 where "s2 = s1\<lparr>sl_multimap := []\<rparr>"
  have c: "ChooseNextReadyConn v r1 r2 s1 = (1, None, s2)"
    using assms(3,4) k by (simp add: ChooseNextReadyConn_def choose_scan_Cons lock_def new_choice_scan_def s1_def s2_def)
  have "octo_weight sg \<noteq> octo_weight sg'" using assms(8) by (auto simp: CheckDoubleEqual_def)
  then have ne: "sg \<noteq> sg'" by auto
  have "chg_loop [sg'] (s2\<lparr>sl_services := m\<rparr>) = Inl UseAfterFree" for m
    using assms(7,8) by (simp add: s1_def s2_def UptSgservice_def mm_erase_def)
  then have "UpdateSvrList [sg'] s2 = Inl UseAfterFree"
    using assms(6,7) ne by (simp add: UpdateSvrList_def AddSrv.simps ChgSrv.simps DelSrv_def s1_def s2_def)
  then show ?thesis using u1 c by blast
qed

text \<open>Two servers of weight 3 and 1, both connected and idle, for the concrete runs.\<close>

definition sample_sg :: "string \<Rightarrow> int \<Rightarrow> int \<Rightarrow> sgservice" where
  "sample_sg ip port w = new_SGService\<lparr>sg_ip := ip, sg_port := port, sg_weight := w, sg_status := 2\<rparr>"

definition sample_list :: server_list where
  "sample_list = \<lparr>sl_services = [(''a:1'', sample_sg ''a'' 1 3), (''b:2'', sample_sg ''b'' 2 1)],
     sl_conninfos = [(''a:1'', \<lparr>ci_service = sample_sg ''a'' 1 3, ci_client = Some 0, ci_index = Some 1\<rparr>),
       (''b:2'', \<lparr>ci_service = sample_sg ''b'' 2 1, ci_client = Some 2, ci_index = Some 3\<rparr>)],
     sl_multimap = [\<lparr>wn_id = 1, wn_weight = 3, wn_client = Some 0\<rparr>, \<lparr>wn_id = 3, wn_weight = 1, wn_client = Some 2\<rparr>],
     sl_fresh = 4, sl_connecting = [(0, ''a'', 1), (2, ''b'', 2)]\<rparr>"

definition sample_view :: clients_view where
  "sample_view = \<lparr>cv_alive = (\<lambda>_. True), cv_conn = [0 \<mapsto> \<lparr>pc_id = 5, pc_key = ''a:1'', pc_up = True\<rparr>, 2 \<mapsto> \<lparr>pc_id = 6, pc_key = ''b:2'', pc_up = True\<rparr>],
     cv_context = (\<lambda>_. Some new_worker_conn)\<rparr>"

lemma sample_octo: "octo_weight (sample_sg ip port w) = of_int w"
  by (simp add: octo_weight_def FetchOctoWeight_def sample_sg_def new_SGService_def CheckDoubleEqual_def)

lemma sample_key: "sg_key (sample_sg ''a'' 1 w) = ''a:1''" "sg_key (sample_sg ''b'' 2 w) = ''b:2''" "sg_status (sample_sg ip port w) = 2"
  by (simp_all add: sg_key_def sample_sg_def dec_int_def dec_nat_digit)

lemma sample_reached: "UpdateSvrList [sample_sg ''a'' 1 3, sample_sg ''b'' 2 1] new_server_list = Inr sample_list"
  by (simp add: UpdateSvrList_def new_server_list_def um_insert_def AddSrv.simps ChgSrv.simps DelSrv_def add_server_def setSp_tcpclient_def new_ConnInfo_def
      mm_insert_def sample_list_def sample_key sample_octo numeral_eq_Suc Let_def) (simp add: sample_sg_def)

lemma sample_ready: "filter (ready sample_view (sl_conninfos sample_list)) (sl_multimap sample_list) = sl_multimap sample_list"
  by (simp add: sample_view_def sample_list_def ready_def lock_def CheckConnHealthy_def new_worker_conn_def)



theorem wide_port_dangles_witness:
  "\<exists>s1 s2. UpdateSvrList [sample_sg ''a'' 65616 3] new_server_list = Inr s1 \<and>
     ChooseNextReadyConn \<lparr>cv_alive = (\<lambda>_. True), cv_conn = (\<lambda>_. Some \<lparr>pc_id = 5, pc_key = ''a:80'', pc_up = True\<rparr>), cv_context = (\<lambda>_. None)\<rparr> 0 0 s1 = (1, None, s2) \<and>
     UpdateSvrList [sample_sg ''a'' 65616 4] s2 = Inl UseAfterFree"
  by (rule wide_port_dangles [where pc = "\<lparr>pc_id = 5, pc_key = ''a:80'', pc_up = True\<rparr>"])
    (simp_all add: sample_octo CheckDoubleEqual_def sg_key_def, simp_all add: sample_sg_def new_SGService_def dec_int_def dec_nat_rec dec_nat_digit)

end
