(* ===== verification/Cthrift_Client.thy ===== *)
theory Cthrift_Client
  imports Server_List
begin

text \<open>
  Start-up of a Thrift client: its configuration (\<open>src/cthrift/util/cthrift_config.cc\<close>), the object the user holds
  (\<open>cthrift_client.cc\<close>, \<open>cthrift_client.h\<close>), the host information of the name service (\<open>cthrift_name_service.cc\<close>) and the helpers of
  \<open>util/cthrift_common.cc\<close>. A worker is a number; which workers are alive, the parsed configuration file, the answer of the
  name service, the addresses of the host and the output of its commands are arguments.
\<close>

section \<open>Helpers\<close>

definition ValidatePort :: "32 word \<Rightarrow> bool" where
  "ValidatePort port \<longleftrightarrow> \<not> (unat port < 1 \<or> 65535 < unat port)"

definition StrToLower :: "string \<Rightarrow> string" where
  "StrToLower str = map tolower str"

text \<open>\<open>ReplaceAllDistinct\<close>; an empty pattern is found everywhere, and the string grows until memory is exhausted.\<close>

function replace_loop :: "string \<Rightarrow> string \<Rightarrow> nat \<Rightarrow> string \<Rightarrow> string result" where
  "replace_loop old new pos str =
     (if old = [] then Inl BadAlloc
      else case str_find str old pos of
             None \<Rightarrow> Inr str
           | Some p \<Rightarrow> replace_loop old new (p + length new) (take p str @ new @ drop (p + length old) str))"
  by pat_completeness auto
termination
proof (relation "measure (\<lambda>(old, new, pos, str). length str - pos)")
  fix old new :: string and pos p :: nat and str :: string
  assume a: "old \<noteq> []" "str_find str old pos = Some p"
  then have "pos \<le> p" by (auto simp: str_find_def Let_def split: if_splits)
  have "take (length old) (drop p str) = old" using a(2) by (auto simp: str_find_def Let_def add.commute split: if_splits)
  from arg_cong [OF this, of length] a(1) have "p + length old \<le> length str" by (cases "p \<le> length str") (auto simp: min_def split: if_splits)
  moreover have "0 < length old" using a(1) by simp
  ultimately have "length str - (p + length old) < length str - pos" using \<open>pos \<le> p\<close> by linarith
  then show "((old, new, p + length new, take p str @ new @ drop (p + length old) str), old, new, pos, str) \<in> measure (\<lambda>(old, new, pos, str). length str - pos)"
    using \<open>p + length old \<le> length str\<close> by (simp add: add.commute)
qed simp

declare replace_loop.simps [simp del]

definition ReplaceAllDistinct :: "string \<Rightarrow> string \<Rightarrow> string \<Rightarrow> string result" where
  "ReplaceAllDistinct old new str = replace_loop old new 0 str"

text \<open>\<open>CheckOverTime\<close>, given the time that has passed: the answer and the time that is left.\<close>

definition CheckOverTime :: "rat \<Rightarrow> rat \<Rightarrow> bool \<times> rat" where
  "CheckOverTime overtime passed =
     (overtime < passed \<or> CheckDoubleEqual overtime passed, if passed < overtime then overtime - passed else 0)"

section \<open>The host\<close>

text \<open>\<open>IntranetIp\<close>: the IPv4 addresses of the interfaces but \<open>vnic\<close>; the last one that is not the loopback, unless there are
  several and some begin with \<open>10.\<close>; at most 31 are looked at.\<close>

definition host_addresses :: "(string \<times> bool \<times> string) list \<Rightarrow> string list" where
  "host_addresses ifs = take 31 (filter (\<lambda>ip. ip \<noteq> ''127.0.0.1'') (map (snd \<circ> snd) (filter (\<lambda>(name, v4, ip). name \<noteq> ''vnic'' \<and> v4) ifs)))"

definition IntranetIp :: "(string \<times> bool \<times> string) list \<Rightarrow> string \<Rightarrow> string" where
  "IntranetIp ifs ip =
     (let as = host_addresses ifs; ip1 = (if as = [] then ip else last as)
      in if 1 < length as then foldl (\<lambda>r a. if take 3 a = ''10.'' then a else r) ip1 as else ip1)"

text \<open>The line a command printed, without its end: the index before the first character, if it printed nothing.\<close>

definition chop_line :: "string \<Rightarrow> string result" where
  "chop_line line = (if line = [] then Inl OutOfBounds else Inr (butlast line))"

definition host_text :: "string \<Rightarrow> string result" where
  "host_text line = rbind (chop_line line) (\<lambda>t. ReplaceAllDistinct '' '' ''%20'' (StrToLower t))"

record host_info =
  hi_local_ip :: string
  hi_host :: string
  hi_hostname :: string

text \<open>\<open>GetHostIPInfo\<close>: \<open>None\<close> for the output of a command is a read error, after which the function returns.\<close>

definition GetHostIPInfo :: "(string \<times> bool \<times> string) list \<Rightarrow> (string \<times> bool \<times> string) list \<Rightarrow> string option \<Rightarrow> string option \<Rightarrow> host_info \<Rightarrow> host_info result" where
  "GetHostIPInfo ifs1 ifs2 host hostname i =
     (let ip1 = IntranetIp ifs1 ''''; ip = (if ip1 = '''' then IntranetIp ifs2 ip1 else ip1);
          i1 = i\<lparr>hi_local_ip := (if ip = '''' then ''127.0.0.1'' else ip)\<rparr>
      in case host of
           None \<Rightarrow> Inr i1
         | Some line \<Rightarrow> rbind (host_text line) (\<lambda>h.
             case hostname of
               None \<Rightarrow> Inr (i1\<lparr>hi_host := h\<rparr>)
             | Some line2 \<Rightarrow> rbind (host_text line2) (\<lambda>n. Inr (i1\<lparr>hi_host := h, hi_hostname := n\<rparr>))))"

definition PackDefaultSgservice :: "string \<Rightarrow> string \<Rightarrow> string \<Rightarrow> 16 word \<Rightarrow> int \<Rightarrow> sgservice \<Rightarrow> sgservice" where
  "PackDefaultSgservice version appkey ip port now sg =
     sg\<lparr>sg_appkey := appkey, sg_version := version, sg_ip := ip, sg_port := uint port, sg_weight := 10, sg_status := 2,
        sg_lastUpdateTime := now, sg_fweight := 10, sg_serverType := 0, sg_protocol := ''thrift'', sg_heartbeatSupport := 0\<rparr>"

text \<open>The text of a service for the log; \<open>fw\<close> prints a double.\<close>

definition SGService2String :: "(rat \<Rightarrow> string) \<Rightarrow> sgservice \<Rightarrow> string" where
  "SGService2String fw sg =
     ''appkey:'' @ sg_appkey sg @ '' version:'' @ sg_version sg @ '' ip:'' @ sg_ip sg @ '' port:'' @ dec_int (sg_port sg) @
     '' weight:'' @ dec_int (sg_weight sg) @ '' status:'' @ dec_int (sg_status sg) @ '' role:'' @ dec_int (sg_role sg) @
     '' envir:'' @ dec_int (sg_envir sg) @ '' fweight:'' @ fw (sg_fweight sg) @ '' serverType:'' @ dec_int (sg_serverType sg)"

section \<open>The configuration\<close>

text \<open>Values of a JSON document, as far as the configuration tells them apart.\<close>

datatype json = JInt int | JString string | JObject "(string \<times> json) list" | JOther

record config =
  cf_ns_origin :: string
  cf_server_version :: string
  cf_listen_port :: int
  cf_server_appkey :: string
  cf_client_appkey :: string
  cf_work_threadnum :: int
  cf_conn_threadnum :: int
  cf_max_connnum :: int
  cf_timeout :: int
  cf_conn_gctime :: int
  cf_register :: bool
  cf_mns_origin :: bool
  cf_env :: string

definition new_CthriftConfig :: config where
  "new_CthriftConfig = \<lparr>cf_ns_origin = '''', cf_server_version = ''3.0.0'', cf_listen_port = 16888, cf_server_appkey = ''com.company.newct'',
     cf_client_appkey = ''com.company.newct.client'', cf_work_threadnum = 40, cf_conn_threadnum = 1, cf_max_connnum = 10000, cf_timeout = 30,
     cf_conn_gctime = 600, cf_register = False, cf_mns_origin = False, cf_env = ''''\<rparr>"

definition if_int :: "(string \<times> json) list \<Rightarrow> string \<Rightarrow> (int \<Rightarrow> 'c \<Rightarrow> 'c) \<Rightarrow> 'c \<Rightarrow> 'c" where
  "if_int doc k f c = (case map_of doc k of Some (JInt i) \<Rightarrow> f i c | _ \<Rightarrow> c)"

definition if_string :: "(string \<times> json) list \<Rightarrow> string \<Rightarrow> (string \<Rightarrow> 'c \<Rightarrow> 'c) \<Rightarrow> 'c \<Rightarrow> 'c" where
  "if_string doc k f c = (case map_of doc k of Some (JString t) \<Rightarrow> f t c | _ \<Rightarrow> c)"

text \<open>The section on the name service: \<open>Inl\<close> the return code with what has been stored so far.\<close>

definition load_ns :: "(string \<times> json) list \<Rightarrow> config \<Rightarrow> (int \<times> config) + config" where
  "load_ns doc c =
     (case map_of doc ''ns'' of
        Some (JObject ns) \<Rightarrow>
          (let c1 = if_string ns ''env'' (\<lambda>t c. c\<lparr>cf_env := t\<rparr>) (if_string ns ''origin'' (\<lambda>t c. c\<lparr>cf_ns_origin := t\<rparr>) c)
           in case map_of ns ''ismns'' of
                Some (JInt i) \<Rightarrow> Inr (c1\<lparr>cf_mns_origin := (i = 1)\<rparr>)
              | _ \<Rightarrow> Inl (3, c1))
      | _ \<Rightarrow> Inl (3, c))"

definition load_server :: "(string \<times> json) list \<Rightarrow> config \<Rightarrow> config" where
  "load_server doc c =
     if_int doc ''server.ConnGCTime'' (\<lambda>i c. c\<lparr>cf_conn_gctime := i\<rparr>)
     (if_int doc ''server.ServerTimeOut'' (\<lambda>i c. c\<lparr>cf_timeout := i\<rparr>)
     (if_int doc ''server.MaxConnNum'' (\<lambda>i c. c\<lparr>cf_max_connnum := i\<rparr>)
     (if_int doc ''server.ConnThreadNum'' (\<lambda>i c. c\<lparr>cf_conn_threadnum := i\<rparr>)
     (if_int doc ''server.WorkThreadNum'' (\<lambda>i c. c\<lparr>cf_work_threadnum := i\<rparr>)
     (if_string doc ''server.Appkey'' (\<lambda>t c. c\<lparr>cf_server_appkey := t\<rparr>)
     (if_int doc ''server.ListenPort'' (\<lambda>i c. c\<lparr>cf_listen_port := i\<rparr>)
     (if_string doc ''server.Version'' (\<lambda>t c. c\<lparr>cf_server_version := t\<rparr>) c)))))))"

text \<open>\<open>LoadConfig\<close>: no file, a file that does not parse, or a document, which has to be an object.\<close>

definition LoadConfig :: "bool \<Rightarrow> json option option \<Rightarrow> config \<Rightarrow> (int \<times> config) result" where
  "LoadConfig client file c =
     (case file of
        None \<Rightarrow> Inr (1, c)
      | Some None \<Rightarrow> Inr (2, c)
      | Some (Some (JObject doc)) \<Rightarrow>
          (let c1 = (if client then c else if_int doc ''server.register'' (\<lambda>i c. if i \<noteq> 0 then c\<lparr>cf_register := True\<rparr> else c) c)
           in case (if client \<or> cf_register c1 then load_ns doc c1 else Inr c1) of
                Inl r \<Rightarrow> Inr r
              | Inr c2 \<Rightarrow>
                  if client then Inr (0, if_string doc ''client.Appkey'' (\<lambda>t c. c\<lparr>cf_server_version := t\<rparr>) c2)
                  else Inr (0, load_server doc c2))
      | Some (Some _) \<Rightarrow> Inl AssertFail)"

section \<open>The client\<close>

record cthrift_client =
  cl_svr_appkey :: string
  cl_cli_appkey :: string
  cl_timeout_ms :: int
  cl_service_filter :: string
  cl_port_filter :: int
  cl_parallel :: bool
  cl_threshold :: int
  cl_async :: bool
  cl_server_ip :: string
  cl_server_port :: "16 word"
  cl_worker_num :: nat
  cl_worker :: "nat option"             \<comment> \<open>\<open>sp_cthrift_client_worker_\<close>\<close>

definition new_CthriftClient :: "string \<Rightarrow> string \<Rightarrow> 16 word \<Rightarrow> int \<Rightarrow> cthrift_client" where
  "new_CthriftClient appkey ip port timeout =
     \<lparr>cl_svr_appkey = appkey, cl_cli_appkey = '''', cl_timeout_ms = (if timeout < 0 then 5000 else timeout), cl_service_filter = '''', cl_port_filter = - 1,
      cl_parallel = False, cl_threshold = 30, cl_async = False, cl_server_ip = ip, cl_server_port = port, cl_worker_num = 1, cl_worker = None\<rparr>"

definition is_space :: "char \<Rightarrow> bool" where
  "is_space c \<longleftrightarrow> (of_char c :: nat) = 32 \<or> (9 \<le> (of_char c :: nat) \<and> (of_char c :: nat) \<le> 13)"

definition trim :: "string \<Rightarrow> string" where
  "trim str = dropWhile is_space (rev (dropWhile is_space (rev str)))"

definition worker_key :: "cthrift_client \<Rightarrow> string" where
  "worker_key c = cl_svr_appkey c @ cl_service_filter c @ dec_int (cl_port_filter c) @ cl_server_ip c @ dec_int (sint (cl_server_port c))"

text \<open>The process-wide registry of workers: weak pointers by key. \<open>debug\<close> says that the debug log is on, whose line looks at
  the worker.\<close>

record worker_registry =
  wr_workers :: "(string \<times> nat) list"
  wr_fresh :: nat

definition client_InitWorker :: "(nat \<Rightarrow> bool) \<Rightarrow> bool \<Rightarrow> bool \<Rightarrow> worker_registry \<Rightarrow> cthrift_client \<Rightarrow> (int \<times> cthrift_client \<times> worker_registry) result" where
  "client_InitWorker alive debug async reg c =
     (let c1 = (if async then c\<lparr>cl_parallel := True\<rparr> else c);
          rng = filter (\<lambda>(k, w). k = worker_key c) (wr_workers reg);
          (c2, reg2) =
            (if \<not> cl_parallel c1 \<and> cl_worker_num c1 \<le> length rng
             then (case find (\<lambda>(k, w). alive w) rng of None \<Rightarrow> c1 | Some (k, w) \<Rightarrow> c1\<lparr>cl_worker := Some w\<rparr>, reg)
             else (c1\<lparr>cl_worker := Some (wr_fresh reg)\<rparr>, \<lparr>wr_workers = wr_workers reg @ [(worker_key c, wr_fresh reg)], wr_fresh = Suc (wr_fresh reg)\<rparr>))
      in if debug \<and> cl_worker c2 = None then Inl UseAfterFree else Inr (0, c2, reg2))"

definition client_Init ::
    "(nat \<Rightarrow> bool) \<Rightarrow> bool \<Rightarrow> json option option \<Rightarrow> int \<Rightarrow> config \<Rightarrow> worker_registry \<Rightarrow> cthrift_client \<Rightarrow> (int \<times> config \<times> cthrift_client \<times> worker_registry) result" where
  "client_Init alive debug file init_ns cf reg c =
     (let c1 = c\<lparr>cl_svr_appkey := trim (cl_svr_appkey c)\<rparr>
      in if cl_svr_appkey c1 = [] \<and> (cl_server_ip c1 = [] \<or> sint (cl_server_port c1) \<le> 0) then Inr (ERR_PARA_INVALID, cf, c1, reg)
         else rbind (LoadConfig True file cf) (\<lambda>(ret, cf1).
           if ret \<noteq> 0 then Inr (ret, cf1, c1, reg)
           else let c2 = (if cl_cli_appkey c1 = [] then c1\<lparr>cl_cli_appkey := cf_client_appkey cf1\<rparr> else c1)
                in if cl_server_ip c2 = [] \<and> init_ns \<noteq> 0 then Inr (6, cf1, c2, reg)
                   else rbind (client_InitWorker alive debug (cl_async c2) reg c2) (\<lambda>(ret, c3, reg'). Inr (ret, cf1, c3, reg'))))"

definition SetFilterPort :: "32 word \<Rightarrow> cthrift_client \<Rightarrow> int \<times> cthrift_client" where
  "SetFilterPort port c = (if \<not> ValidatePort port then (ERR_PARA_INVALID, c) else (0, c\<lparr>cl_port_filter := sint port\<rparr>))"

definition SetFilterService :: "string \<Rightarrow> cthrift_client \<Rightarrow> int \<times> cthrift_client" where
  "SetFilterService name c = (if trim name = [] then (ERR_PARA_INVALID, c) else (0, c\<lparr>cl_service_filter := trim name\<rparr>))"

definition SetClientAppkey :: "string \<Rightarrow> cthrift_client \<Rightarrow> int \<times> cthrift_client" where
  "SetClientAppkey key c = (if trim key = [] then (ERR_PARA_INVALID, c) else (0, c\<lparr>cl_cli_appkey := trim key\<rparr>))"

section \<open>Replacing a character\<close>

lemma std_search_char: "std_search [c] xs = length (takeWhile (\<lambda>x. x \<noteq> c) xs)"
  by (induction xs) auto

lemma str_find_char:
  "str_find (front @ rest) [c] (length front) = (if c \<in> set rest then Some (length front + length (takeWhile (\<lambda>x. x \<noteq> c) rest)) else None)"
proof -
  have "take 1 (drop (length (takeWhile (\<lambda>x. x \<noteq> c) rest)) rest) = [c] \<longleftrightarrow> c \<in> set rest" by (induction rest) auto
  then show ?thesis by (simp add: str_find_def std_search_char)
qed

lemma replace_char:
  "replace_loop [c] new (length front) (front @ rest) = Inr (front @ concat (map (\<lambda>x. if x = c then new else [x]) rest))"
proof (induction "length rest" arbitrary: front rest rule: less_induct)
  case less
  let ?f = "\<lambda>x. if x = c then new else [x]"
  show ?case
  proof (cases "c \<in> set rest")
    case False
    then have "concat (map ?f rest) = rest" by (induction rest) auto
    then show ?thesis using False by (simp add: replace_loop.simps str_find_char)
  next
    case True
    then obtain pre post where r: "rest = pre @ c # post" "c \<notin> set pre" using split_list_first [OF True] by blast
    have tw: "takeWhile (\<lambda>x. x \<noteq> c) rest = pre" unfolding r(1) using r(2) by (subst takeWhile_append2) (auto simp: takeWhile_eq_all_conv)
    have id: "concat (map ?f pre) = pre" using r(2) by (induction pre) auto
    have "replace_loop [c] new (length front) (front @ rest) = replace_loop [c] new (length (front @ pre @ new)) ((front @ pre @ new) @ post)"
      using True tw r(1) by (subst replace_loop.simps) (simp add: str_find_char ac_simps)
    also have "\<dots> = Inr ((front @ pre @ new) @ concat (map ?f post))" using less [of post "front @ pre @ new"] r(1) by simp
    finally show ?thesis using r(1) id by simp
  qed
qed

section \<open>Properties\<close>

text \<open>Replacing a single character is what it should be: every occurrence is replaced and nothing else, also when the
  replacement contains the character again.\<close>

theorem replace_all_character: "ReplaceAllDistinct [c] new str = Inr (concat (map (\<lambda>x. if x = c then new else [x]) str))"
  using replace_char [of c new "[]" str] by (simp add: ReplaceAllDistinct_def)

text \<open>A client that starts gets a worker: with an address or a key and a configuration that loads, \<open>Init\<close> succeeds and the client has
  a worker that is new or alive, unless as many workers as it may share are registered and none of them is alive; then
  \<open>Init\<close> reports success without a worker, or dies on the log line that looks at it.\<close>

theorem client_gets_worker:
  fixes reg :: worker_registry
  assumes "trim (cl_svr_appkey c) \<noteq> [] \<or> cl_server_ip c \<noteq> [] \<and> 0 < sint (cl_server_port c)" "cl_worker c = None" "cl_async c \<or> 0 < cl_worker_num c"
    and "LoadConfig True file cf = Inr (0, cf1)" "cl_server_ip c = [] \<longrightarrow> init_ns = 0"
  defines "rng \<equiv> filter (\<lambda>(k, w). k = worker_key (c\<lparr>cl_svr_appkey := trim (cl_svr_appkey c)\<rparr>)) (wr_workers reg)"
  shows "if (cl_parallel c \<or> cl_async c) \<or> length rng < cl_worker_num c \<or> (\<exists>(k, w)\<in>set rng. alive w)
    then \<exists>c' reg' w. client_Init alive debug file init_ns cf reg c = Inr (0, cf1, c', reg') \<and> cl_worker c' = Some w \<and>
      (w = wr_fresh reg \<or> alive w \<and> w \<in> snd ` set (wr_workers reg) \<and> reg' = reg)
    else client_Init alive True file init_ns cf reg c = Inl UseAfterFree \<and>
      (\<exists>c'. client_Init alive False file init_ns cf reg c = Inr (0, cf1, c', reg) \<and> cl_worker c' = None)"
proof -
  define c1 where "c1 = c\<lparr>cl_svr_appkey := trim (cl_svr_appkey c)\<rparr>"
  define c2 where "c2 = (if cl_cli_appkey c1 = [] then c1\<lparr>cl_cli_appkey := cf_client_appkey cf1\<rparr> else c1)"
  have key: "worker_key c2 = worker_key c1" by (simp add: c2_def worker_key_def)
  have f: "cl_worker c2 = None" "cl_async c2 = cl_async c" "cl_parallel c2 = cl_parallel c" "cl_worker_num c2 = cl_worker_num c" "cl_server_ip c2 = cl_server_ip c"
    using assms(2) by (simp_all add: c2_def c1_def)
  have init: "client_Init alive d file init_ns cf reg c = rbind (client_InitWorker alive d (cl_async c) reg c2) (\<lambda>(ret, c3, reg'). Inr (ret, cf1, c3, reg'))" for d
    using assms(1,4,5) f(2,5) unfolding client_Init_def Let_def c1_def [symmetric] c2_def [symmetric] by (auto simp: c1_def c2_def)
  have r: "filter (\<lambda>(k, w). k = worker_key c2) (wr_workers reg) = rng" unfolding rng_def c1_def [symmetric] key by simp
  show ?thesis
  proof (cases "(cl_parallel c \<or> cl_async c) \<or> length rng < cl_worker_num c")
    case True
    then show ?thesis unfolding init using f r by (auto simp: client_InitWorker_def Let_def)
  next
    case False
    show ?thesis
    proof (cases "find (\<lambda>(k, w). alive w) rng")
      case None
      then have "\<not> (\<exists>(k, w)\<in>set rng. alive w)" by (auto simp: find_None_iff)
      then show ?thesis unfolding init using False None f r by (auto simp: client_InitWorker_def Let_def)
    next
      case (Some p)
      then have p: "p \<in> set rng" "alive (snd p)" by (auto simp: find_Some_iff) (metis nth_mem)
      obtain k w where kw: "p = (k, w)" by fastforce
      have "w \<in> snd ` set (wr_workers reg)" using p(1) kw unfolding rng_def by force
      moreover have "client_Init alive debug file init_ns cf reg c = Inr (0, cf1, c2\<lparr>cl_worker := Some w\<rparr>, reg)"
        unfolding init using False Some kw f r by (simp add: client_InitWorker_def Let_def)
      moreover have "\<exists>(k, w)\<in>set rng. alive w" using p kw by auto
      ultimately show ?thesis using p(2) kw by (subst if_P) simp_all
    qed
  qed
qed

text \<open>The configured key of a client is lost: \<open>LoadConfig\<close> stores it as the version of the server, so that \<open>Init\<close> uses the
  default key whatever the file says.\<close>

theorem configured_appkey_ignored:
  assumes "LoadConfig True (Some (Some (JObject doc))) cf = Inr (0, cf1)" "map_of doc ''client.Appkey'' = Some (JString key)"
  shows "cf_client_appkey cf1 = cf_client_appkey cf \<and> cf_server_version cf1 = key"
  using assms by (auto simp: LoadConfig_def load_ns_def if_string_def Let_def split: option.splits json.splits)

text \<open>A host without the command \<open>host\<close>: no output and no read error leave an empty line, whose last character is looked for before
  its first.\<close>

theorem empty_host_output: "GetHostIPInfo ifs1 ifs2 (Some '''') hostname i = Inl OutOfBounds"
  by (simp add: GetHostIPInfo_def host_text_def chop_line_def)

definition sample_config :: "(string \<times> json) list" where
  "sample_config = [(''ns'', JObject [(''ismns'', JInt 0)]), (''client.Appkey'', JString ''my.key'')]"

lemma sample_config_loads: "\<exists>cf1. LoadConfig True (Some (Some (JObject sample_config))) new_CthriftConfig = Inr (0, cf1)"
  by (simp add: LoadConfig_def sample_config_def load_ns_def if_string_def)

theorem configured_appkey_ignored_witness:
  "\<exists>cf1. LoadConfig True (Some (Some (JObject sample_config))) new_CthriftConfig = Inr (0, cf1) \<and> cf_client_appkey cf1 = ''com.company.newct.client'' \<and> cf_server_version cf1 = ''my.key''"
proof -
  obtain cf1 where cf: "LoadConfig True (Some (Some (JObject sample_config))) new_CthriftConfig = Inr (0, cf1)" using sample_config_loads by blast
  have "map_of sample_config ''client.Appkey'' = Some (JString ''my.key'')" by (simp add: sample_config_def)
  from configured_appkey_ignored [OF cf this] cf show ?thesis by (simp add: new_CthriftConfig_def)
qed

theorem client_gets_worker_witness:
  "\<exists>cf1 c'. client_Init (\<lambda>_. False) False (Some (Some (JObject sample_config))) 0 new_CthriftConfig \<lparr>wr_workers = [(''-11.2.3.480'', 0)], wr_fresh = 1\<rparr>
     (new_CthriftClient '''' ''1.2.3.4'' 80 100) = Inr (0, cf1, c', \<lparr>wr_workers = [(''-11.2.3.480'', 0)], wr_fresh = 1\<rparr>) \<and> cl_worker c' = None"
proof -
  let ?c = "new_CthriftClient '''' ''1.2.3.4'' 80 100" and ?reg = "\<lparr>wr_workers = [(''-11.2.3.480'', 0 :: nat)], wr_fresh = 1\<rparr>"
  obtain cf1 where cf: "LoadConfig True (Some (Some (JObject sample_config))) new_CthriftConfig = Inr (0, cf1)" using sample_config_loads by blast
  have key: "worker_key (?c\<lparr>cl_svr_appkey := trim (cl_svr_appkey ?c)\<rparr>) = ''-11.2.3.480''"
    by (simp add: worker_key_def new_CthriftClient_def trim_def dec_int_def dec_nat_rec dec_nat_digit)
  from client_gets_worker [OF _ _ _ cf, of ?c 0 ?reg "\<lambda>_. False" False] show ?thesis
    unfolding key by (auto simp: new_CthriftClient_def)
qed

end
