(* ===== verification/Spec2Isabelle.thy ===== *)
theory Spec2Isabelle
  imports Timer_Queue Tcp_Client Addresses Http Message_Transport Rpc_Server Thread_Pool Blocking_Queues Async_Logging Logging Small_Files
    Encodings Text_Helpers Cthrift_Calls Server_Choice Cthrift_Client
begin

text \<open>
  A verification library for the muduo network library as this repository carries it (\<open>src/muduo/base\<close>, \<open>src/muduo/net\<close>), an
  event-driven TCP library in C++ with HTTP, protobuf framing and remote procedure calls on top and the queues, pools, logging
  and text code below it, and for the Thrift client and server that the repository builds on it (\<open>src/cthrift\<close>).

  \<^bold>\<open>How the program works.\<close>
  An \<open>EventLoop\<close> belongs to one thread. It waits in a \<open>Poller\<close> (epoll or poll), hands each ready
  \<open>Channel\<close> its event mask, and then runs the functors that other threads queued for it, woken by an
  eventfd. Timers are one more channel, a timerfd, with a \<open>TimerQueue\<close> behind it. A \<open>TcpConnection\<close> owns a
  channel and two \<open>Buffer\<close>s; an \<open>Acceptor\<close> or a \<open>Connector\<close> makes the sockets, and \<open>TcpServer\<close> and
  \<open>TcpClient\<close> own the connections, which they create and destroy by functors that travel between loops;
  \<open>EventLoopThreadPool\<close> supplies the loops. \<open>HttpServer\<close>, \<open>ProtobufCodecLite\<close>, \<open>RpcChannel\<close> and \<open>RpcServer\<close> are
  callbacks that read a connection's input buffer and send on it. A log statement formats its line into a \<open>LogStream\<close>; its
  output goes to \<open>AsyncLogging\<close>, whose back end writes to a \<open>LogFile\<close>.
  In \<open>src/cthrift\<close> a \<open>CthriftClient\<close> shares workers; a worker keeps a connection to every server of a list, chooses one by
  weight for a call, sends the call as a frame and routes each reply to its caller by the sequence number in its header. The
  \<open>CthriftSvr\<close> cuts frames from its connections, hands them to worker threads, sends the answers, and closes idle connections
  with a wheel of buckets.

  \<^bold>\<open>Conventions.\<close>
  C++ operations are functions on explicit state with the result type \<open>'a result\<close> (\<open>Muduo_Prelude\<close>):
  \<open>Inl\<close> is a failed assertion, \<open>LOG_FATAL\<close>, an access outside an object, an exception or an empty callback, \<open>Inr\<close> the
  normal return; \<open>rbind\<close> and \<open>rfold\<close> sequence them. Integers are words of the width the code has, with
  \<open>int\<close> or \<open>nat\<close> only where the code's own checks exclude wrap-around (indices of a vector, sizes).
  Objects reached through pointers live in an explicit heap, a map from addresses. The result of a system
  call is an argument of the operation that makes it, restricted by a predicate (\<open>write_ok\<close>) to what
  the call may return; user callbacks are arguments as well, restricted where a property needs it
  (\<open>quiet_user\<close>). Interleaving of threads is a sequence of steps, each the longest stretch the code executes
  under a mutex or between two accesses to shared state.

  \<^bold>\<open>Theories, in the order they build on each other.\<close>
  \<^item> \<open>Muduo_Prelude\<close>: results and errors, bytes and ASCII, decimal numerals, the range algorithms of the C++ library.
  \<^item> \<open>Endian\<close> (\<open>net/Endian.h\<close>): object representations of integers on either host and their conversion.
  \<^item> \<open>Net_Buffer\<close> (\<open>net/Buffer.h\<close>, \<open>Buffer.cc\<close>): record \<open>buffer\<close> with the vector and both indices; every
    member function. Locale \<open>byte_fifo\<close> is the contract of a byte queue, interpreted as \<open>net_buf\<close>; the
    buffer refines it under any run of operations, compaction and growth included.
  \<^item> \<open>Channel\<close>, \<open>Pollers\<close>, \<open>Loop_Channels\<close> (\<open>net/Channel.*\<close>, \<open>Poller.*\<close>, \<open>poller/*\<close>): event masks and
    dispatch; both multiplexers with the kernel's interest list in the state. Locale \<open>io_poller\<close> says what a
    loop relies on and is interpreted for epoll (\<open>epoll\<close>), poll (\<open>pollp\<close>) and their dispatch (\<open>plr\<close>);
    locale \<open>chan_state\<close> carries the dispatch proofs, interpreted on the loop's heap (\<open>lw\<close>). Shown: the kernel
    watches exactly the masks of the registered channels, ready channels are reported exactly, callbacks run
    in the fixed order.
  \<^item> \<open>Timestamps\<close>, \<open>Timer_Queue\<close> (\<open>base/Timestamp.*\<close>, \<open>net/Timer*.*\<close>): time stamps with their order as a
    \<open>linorder\<close>; the two sets of the queue agree, due timers run in order, cancelling works from
    inside callbacks too, repeated timers are armed again.
  \<^item> \<open>Event_Loop\<close> (\<open>net/EventLoop.*\<close>): the loop sequentially, and interleaved with threads that queue
    functors or quit it. No wake-up is lost, functors run once and in order, a woken loop makes progress.
  \<^item> \<open>Tcp_Connection\<close> (\<open>net/TcpConnection.*\<close>): record \<open>tcp_conn\<close> extends the loop's state; sending, reading,
    both ways of closing, destruction. It refines a reliable byte stream that \<open>shutdown\<close> ends.
  \<^item> \<open>Connector\<close>, \<open>Acceptor\<close> (\<open>net/Connector.*\<close>, \<open>Acceptor.*\<close>): attempts, back-off and ownership of the
    socket; accepting with the reserve descriptor. \<open>Addresses\<close> (\<open>net/InetAddress.*\<close>, \<open>SocketsOps.cc\<close>, \<open>Socket.cc\<close>): an address is
    the 28 bytes of its union; text and addresses correspond on either host, a connection to itself is recognised exactly.
  \<^item> \<open>Loop_Pool\<close> (\<open>net/EventLoopThreadPool.*\<close>, \<open>EventLoopThread.*\<close>): selection of a loop, start of the threads.
  \<^item> \<open>Tcp_Server\<close>, \<open>Tcp_Client\<close> (\<open>net/TcpServer.*\<close>, \<open>TcpClient.*\<close>): several loops with their functor queues
    under any interleaving. Here a connection is only its life cycle; locale \<open>conn_life\<close>
    states what that abstraction relies on and is interpreted as \<open>tcl\<close> on \<open>Tcp_Connection\<close>. No operation of
    the server aborts, and connections stay owned until they are destroyed.
  \<^item> \<open>Http\<close> (\<open>net/http\<close>): requests, the incremental parser, responses, \<open>HttpServer::onMessage\<close>. Parsing does
    not depend on how the input is cut, terminates where it can, and reads back well-formed requests.
  \<^item> \<open>Protobuf_Codec\<close> (\<open>net/protobuf\<close>): framing with length, tag and checksum, over \<open>Net_Buffer\<close>; round trip,
    and only whole checked frames are consumed from arbitrary input. \<open>Message_Transport\<close> composes it with
    \<open>Tcp_Connection\<close>: messages cross a connection complete and in order whatever both kernels do.
  \<^item> \<open>Rpc_Channel\<close> (\<open>net/protorpc/RpcChannel.*\<close>): calls, dispatch, responses; a client and a server over an
    ordered transport under any schedule. Each closure gets the answer of its own call, at most once. \<open>Rpc_Server\<close>
    (\<open>net/protorpc/RpcServer.*\<close>): the table of services and one channel per connection on a heap; every request is answered once
    on its own connection, and no channel is used after it is gone as long as services answer on live connections.
  \<^item> \<open>Monitors\<close>: the mutex and the condition variable (\<open>base/Mutex.h\<close>, \<open>Condition.h\<close>) as threads with program
    points; a notification wakes any one waiting thread, and threads may wake without one. Locale \<open>signalling\<close>
    is the discipline that forgets no waiting thread.
  \<^item> \<open>Blocking_Queues\<close>, \<open>Thread_Pool\<close> (\<open>base/BlockingQueue.h\<close>, \<open>BoundedBlockingQueue.h\<close>, \<open>CountDownLatch.*\<close>,
    \<open>ThreadPool.*\<close>): any number of threads; \<open>signalling\<close> is interpreted for the consumers and the producers of
    each (\<open>bq_takers\<close>, \<open>bb_takers\<close>, \<open>bb_putters\<close>, \<open>tp_workers\<close>, \<open>tp_clients\<close>). Order, capacity, no
    forgotten thread, and that a stopped pool ends.
  \<^item> \<open>Dates\<close>, \<open>Time_Zone\<close> (\<open>base/Date.*\<close>, \<open>TimeZone.*\<close>): Julian day numbers against the Gregorian calendar; zone files, the two
    searches and the conversions of UTC and local time, which invert each other.
  \<^item> \<open>Log_Stream\<close>, \<open>Logging\<close> (\<open>base/LogStream.*\<close>, \<open>Logging.*\<close>): both integer conversions against numerals, no insertion leaves
    the array; log statements output exactly their lines although each thread caches the time of day.
  \<^item> \<open>Log_Files\<close>, \<open>Small_Files\<close>, \<open>Async_Logging\<close> (\<open>base/LogFile.*\<close>, \<open>FileUtil.*\<close>, \<open>AsyncLogging.*\<close>): files of a log hold every line
    whole and in order; small files are read from their beginning however the kernel cuts them; front ends, back end and
    owner as threads: every accepted line is written, thrown away with a notice, or still buffered.
  \<^item> \<open>Text_Helpers\<close>, \<open>Encodings\<close> (\<open>base/StringPiece.h\<close>, \<open>common.cpp\<close>, \<open>convert.cpp\<close>, \<open>murmurhash.h\<close>): order of string pieces, trimming,
    splitting, lines of a file; encodings, counting of characters, hashes.
  \<^item> \<open>Memory_Buffer\<close> (Thrift's \<open>TMemoryBuffer\<close> under \<open>src/thirdpart/thrift\<close>) and \<open>Thrift_Protocol\<close>
    (\<open>cthrift/cthrift_tbinary_protocol.*\<close>): a byte queue below 2 GiB; every read and write of the binary protocol over a record of
    transport operations. Locales \<open>thrift_writer\<close>, \<open>thrift_reader\<close> and \<open>thrift_reader_eof\<close> are the contracts of a transport; they
    are interpreted for the memory buffer (\<open>mem\<close>, \<open>memr\<close>) and in \<open>Cthrift_Worker\<close> for the client's transport (\<open>ctw\<close>, \<open>ctr\<close>).
    Headers are read back as written, and arbitrary bytes lead to a header or to one of four errors.
  \<^item> \<open>Cthrift_Server\<close> (\<open>cthrift/cthrift_svr.*\<close>): frames, dispatch in turn over the workers, processing, the wheel of idle connections.
  \<^item> \<open>Cthrift_Worker\<close>, \<open>Server_List\<close>, \<open>Server_Choice\<close> (\<open>cthrift/cthrift_client_worker.*\<close>, \<open>cthrift_transport.*\<close>, \<open>cthrift_client_channel.*\<close>):
    contexts of calls, sending, frames and routing of replies; the list of servers with its index by weight; the choice of a
    ready connection in proportion to its weight. \<open>Cthrift_Client\<close> (\<open>cthrift/cthrift_client.*\<close>, \<open>cthrift_name_service.*\<close>,
    \<open>util/cthrift_config.*\<close>): start-up, configuration, sharing of workers.
  \<^item> \<open>Cthrift_Calls\<close> and this theory: calls from the client through the server and back, under any order and any cutting of
    the answers.

  \<^bold>\<open>Bounds and fuel.\<close>
  \<open>parseRequest\<close> runs its loop with fuel \<open>readableBytes + 1\<close>: every turn but the last consumes a line, so the
  fuel is enough wherever the loop ends, and the two states where it does not end are shown to
  exhaust any fuel. \<open>OnMsg\<close> of the server likewise has fuel for every byte of the buffer, and a partial frame exhausts any
  fuel; \<open>SplitString\<close> has the length of its text, which is enough for every separator but the empty one. \<open>vec_max\<close> is the largest size of
  a vector; a property with a bound on the number of
  bytes says that the buffer does not have to grow beyond it (twice the data, since the vector may have to
  hold the old indices as well). Identifiers of calls are 64 bits wide and properties speak of fewer than
  \<open>2 ^ 64\<close> calls. Frames of \<open>src/cthrift\<close> are below \<open>2 ^ 31\<close> bytes. \<open>Dates\<close> covers the years for which the 32-bit arithmetic of the code
  does not overflow; \<open>Logging\<close> years of four digits.

  \<^bold>\<open>Hypotheses about other code.\<close>
  The protobuf library (size, serialization, parsing, initialization) and \<open>adler32\<close> are fields of the record
  \<open>protobuf_lib\<close>; \<open>sendable\<close> states that a message can be serialized at its announced size and parsed again.
  The instance \<open>bytes_lib\<close> satisfies it. The processor of a Thrift service is a function on two memory buffers, and \<open>call_answerable\<close> says
  that it appends the reply of a request. The conversions of IPv6 addresses are fields of \<open>inet_lib\<close> with the law
  \<open>inet_lib_ok\<close>, which \<open>groups_lib\<close> satisfies. The name service, the parser of JSON and the random numbers of the choice are arguments.

  \<^bold>\<open>Not modelled.\<close>
  Wrappers of pthreads and of system calls that only pass on their results (\<open>Thread\<close>, \<open>Mutex\<close>, socket options): their
  results and their blocking behaviour appear in the components above. \<open>ProcessInfo\<close> and the clients of ZooKeeper: input and output
  through other libraries. Reference counts: weak pointers are a predicate on liveness and shared
  ownership is modelled where the code relies on it, in \<open>Tcp_Server\<close>, \<open>Tcp_Client\<close> and \<open>Rpc_Server\<close>.
  Generated protobuf and Thrift code, other vendored libraries and the programs under \<open>src/examples\<close>.
\<close>

section \<open>Calls from end to end\<close>


text \<open>Two calls whose answers come back in the opposite order, cut in the middle of a size field.\<close>

definition sample_call :: "32 word \<Rightarrow> rpc_call" where
  "sample_call i = \<lparr>rq_id = i, rq_request = [ucast i], rq_reply = enc_header True (ascii ''ping'') 2 i\<rparr>"

definition sample_proc :: "memory_buffer \<Rightarrow> memory_buffer \<Rightarrow> (memory_buffer \<times> memory_buffer) option" where
  "sample_proc inb outb =
     (case mb_write (enc_header True (ascii ''ping'') 2 (ucast (hd (mb_bytes inb)))) outb of Inl e \<Rightarrow> None | Inr outb' \<Rightarrow> Some (inb, outb'))"

lemma sample_call_answerable:
  assumes "i = 7 \<or> i = 8"
  shows "call_answerable sample_proc (sample_call i)"
proof -
  let ?r = "enc_header True (ascii ''ping'') 2 i"
  have len: "length ?r = 16" by (simp add: enc_header_def enc_string_def)
  have "reply_ok ?r i" unfolding reply_ok_def using assms len
    by (intro conjI exI [of _ True] exI [of _ "ascii ''ping''"] exI [of _ 2] exI [of _ "[]"])
      (auto simp: string_fits_def new_protocol_def g_string_limit_def)
  moreover have "appends sample_proc [ucast i] ?r" unfolding appends_def
  proof (intro allI impI)
    fix inb outb
    assume a: "mb_inv inb \<and> mb_bytes inb = [ucast i] \<and> mb_inv outb \<and> mb_owner outb \<and> mb_wBase outb + length ?r \<le> 2 ^ 31"
    have "ucast (ucast i :: byte) = i" using assms by auto
    with a mb_write_ok [of outb ?r] show "\<exists>inb' outb'. sample_proc inb outb = Some (inb', outb') \<and> mb_inv outb' \<and> mb_owner outb' \<and>
        mb_bytes outb' = mb_bytes outb @ ?r" by (auto simp: sample_proc_def)
  qed
  ultimately show ?thesis using len by (simp add: call_answerable_def sample_call_def)
qed


end
